(* ===== verification/Prelude.thy ===== *)
theory Prelude
  imports Main "HOL-Library.Word" "HOL-Library.List_Lexorder"
begin

text \<open>
  Shared vocabulary of the development.

  Go values: a \<open>byte\<close> is an 8-bit word, a Go string or byte slice is a list of bytes
  (so \<open>length\<close> counts bytes, as \<open>len\<close> does), \<open>uint32\<close> and \<open>uint64\<close> are words of that
  width.  Slice lengths, file offsets and file numbers are natural numbers: on the 64-bit
  platforms the program is built for, an \<open>int\<close> holds every length of a slice or file.

  Faults: \<open>fault\<close> names the ways a call can end without a value: \<open>Corrupt\<close> is
  \<open>(*Index).corrupt\<close>, \<open>Fatal\<close> a \<open>log.Fatal\<close>, \<open>Panic\<close> an explicit \<open>panic\<close>, and
  \<open>Range\<close> a run-time index or slice-bounds error.  \<open>rbind\<close> sequences calls that may fault.
\<close>

section \<open>Types of the model\<close>

type_synonym byte = "8 word"
type_synonym gostr = "8 word list"
type_synonym u32 = "32 word"
type_synonym u64 = "64 word"

datatype fault = Corrupt | Fatal | Panic | Range

type_synonym 'a res = "fault + 'a"

definition rbind :: "'e + 'a \<Rightarrow> ('a \<Rightarrow> 'e + 'b) \<Rightarrow> 'e + 'b" where
  "rbind m f = (case m of Inl e \<Rightarrow> Inl e | Inr x \<Rightarrow> f x)"

lemma rbind_simps [simp]:
  "rbind (Inl e) f = Inl e"
  "rbind (Inr x) f = f x"
  by (simp_all add: rbind_def)

lemma rbind_Inr_iff: "rbind m f = Inr y \<longleftrightarrow> (\<exists>x. m = Inr x \<and> f x = Inr y)"
  by (cases m) simp_all

lemma rbind_assoc: "rbind (rbind m f) g = rbind m (\<lambda>x. rbind (f x) g)"
  by (cases m) simp_all

lemma rbind_cong [fundef_cong]:
  "m = m' \<Longrightarrow> (\<And>x. m' = Inr x \<Longrightarrow> f x = g x) \<Longrightarrow> rbind m f = rbind m' g"
  by (cases m') simp_all

fun rfold :: "('a \<Rightarrow> 's \<Rightarrow> 'e + 's) \<Rightarrow> 'a list \<Rightarrow> 's \<Rightarrow> 'e + 's" where
  "rfold f [] s = Inr s"
| "rfold f (x # xs) s = rbind (f x s) (rfold f xs)"

lemma rfold_append: "rfold f (xs @ ys) s = rbind (rfold f xs s) (rfold f ys)"
proof (induction xs arbitrary: s)
  case (Cons x xs)
  then show ?case by (cases "f x s") simp_all
qed simp

text \<open>The value of a Go \<open>int\<close> computed without bound: 64-bit two's complement.\<close>

definition wrap64 :: "int \<Rightarrow> int" where
  "wrap64 x = sint (of_int x :: u64)"

lemma wrap64_id [simp]: "- (2 ^ 63) \<le> x \<Longrightarrow> x < 2 ^ 63 \<Longrightarrow> wrap64 x = x"
  by (simp add: wrap64_def signed_of_int signed_take_bit_int_eq_self)

text \<open>Go's division and remainder truncate towards zero.\<close>

definition tdiv :: "int \<Rightarrow> int \<Rightarrow> int" where
  "tdiv a b = sgn a * sgn b * (\<bar>a\<bar> div \<bar>b\<bar>)"

definition tmod :: "int \<Rightarrow> int \<Rightarrow> int" where
  "tmod a b = a - tdiv a b * b"

lemma tdiv_pos [simp]: "0 \<le> a \<Longrightarrow> 0 < b \<Longrightarrow> tdiv a b = a div b"
  by (cases "a = 0") (simp_all add: tdiv_def)

lemma tmod_pos [simp]: "0 \<le> a \<Longrightarrow> 0 < b \<Longrightarrow> tmod a b = a mod b"
  by (simp add: tmod_def minus_div_mult_eq_mod)

text \<open>Text constants of the source, as bytes.\<close>

definition bytes_of :: "string \<Rightarrow> gostr" where
  "bytes_of s = map of_char s"

lemma length_bytes_of [simp]: "length (bytes_of s) = length s"
  by (simp add: bytes_of_def)

text \<open>\<open>strings.CutPrefix\<close> and \<open>strings.TrimPrefix\<close>.\<close>

definition cutPrefix :: "gostr \<Rightarrow> gostr \<Rightarrow> gostr option" where
  "cutPrefix p s = (if take (length p) s = p then Some (drop (length p) s) else None)"

definition trimPrefix :: "gostr \<Rightarrow> gostr \<Rightarrow> gostr" where
  "trimPrefix p s = (case cutPrefix p s of Some r \<Rightarrow> r | None \<Rightarrow> s)"

section \<open>Loops that may not end and calls that may fault\<close>

text \<open>\<open>None\<close> is a call that does not return.\<close>

definition obind :: "'a res option \<Rightarrow> ('a \<Rightarrow> 'b res option) \<Rightarrow> 'b res option" where
  "obind m f = (case m of None \<Rightarrow> None | Some (Inl e) \<Rightarrow> Some (Inl e) | Some (Inr x) \<Rightarrow> f x)"

lemma obind_simps [simp]:
  "obind None f = None" "obind (Some (Inl e)) f = Some (Inl e)" "obind (Some (Inr x)) f = f x"
  by (simp_all add: obind_def)

lemma obind_cong [fundef_cong]:
  "m = m' \<Longrightarrow> (\<And>x. m' = Some (Inr x) \<Longrightarrow> f x = g x) \<Longrightarrow> obind m f = obind m' g"
  by (simp add: obind_def split: option.split sum.split)

lemma obind_bind:
  "obind m g = Option.bind m (\<lambda>r. case r of Inl e \<Rightarrow> Some (Inl e) | Inr x \<Rightarrow> g x)"
  by (cases m) (auto simp: obind_def split: sum.split)

lemma obind_mono [partial_function_mono]:
  assumes "mono_option B" "\<And>y. mono_option (\<lambda>f. C y f)"
  shows "mono_option (\<lambda>f. obind (B f) (\<lambda>y. C y f))"
proof -
  have "mono_option (\<lambda>f. case r of Inl e \<Rightarrow> Some (Inl e) | Inr x \<Rightarrow> C x f)" for r
    using assms(2) by (cases r) (auto simp: monotone_def flat_ord_def)
  then show ?thesis unfolding obind_bind by (intro bind_mono assms(1))
qed

section \<open>First occurrences in a list\<close>

fun nub_acc :: "'a list \<Rightarrow> 'a list \<Rightarrow> 'a list" where
  "nub_acc seen [] = seen"
| "nub_acc seen (x # xs) = (if x \<in> set seen then nub_acc seen xs else nub_acc (seen @ [x]) xs)"

lemma set_nub_acc [simp]: "set (nub_acc seen xs) = set seen \<union> set xs"
  by (induction seen xs rule: nub_acc.induct) auto

lemma distinct_nub_acc: "distinct seen \<Longrightarrow> distinct (nub_acc seen xs)"
  by (induction seen xs rule: nub_acc.induct) auto

lemma nub_acc_append: "nub_acc seen (xs @ ys) = nub_acc (nub_acc seen xs) ys"
  by (induction seen xs rule: nub_acc.induct) auto

end
