(* ===== verification/Sparse_Set.thy ===== *)
theory Sparse_Set
  imports Prelude
begin

text \<open>
  The sparse set of \<open>internal/codesearch/sparse/set.go\<close>: a dense list of the members and
  an array that maps a value to its place in the list.  \<open>Reset\<close> only truncates the dense
  list, so the array keeps the entries of earlier contents: every lookup has to check what
  it finds there.  The array is a function with its length \<open>smax\<close>; an access at or beyond
  the length is the run-time error \<open>Range\<close>.

  The locale \<open>u32_set\<close> is what the callers (the index writer's trigram set, the matcher's
  instruction queues) rely on; its lemmas hold of every interpretation.
\<close>

section \<open>The data structure\<close>

record sset =
  dense :: "u32 list"
  sparse :: "u32 \<Rightarrow> u32"
  smax :: nat

definition NewSet :: "u32 \<Rightarrow> sset" where
  "NewSet m = \<lparr>dense = [], sparse = (\<lambda>_. 0), smax = unat m\<rparr>"

definition Init :: "u32 \<Rightarrow> sset \<Rightarrow> sset" where
  "Init m s = s\<lparr>sparse := (\<lambda>_. 0), smax := unat m\<rparr>"

definition Reset :: "sset \<Rightarrow> sset" where
  "Reset s = s\<lparr>dense := []\<rparr>"

definition Has :: "sset \<Rightarrow> u32 \<Rightarrow> bool res" where
  "Has s x =
     (if unat x < smax s
      then let v = sparse s x
           in Inr (v < of_nat (length (dense s)) \<and> dense s ! unat v = x)
      else Inl Range)"

definition Add :: "u32 \<Rightarrow> sset \<Rightarrow> sset res" where
  "Add x s =
     (if unat x < smax s
      then let v = sparse s x
           in if v < of_nat (length (dense s)) \<and> dense s ! unat v = x then Inr s
              else Inr (s\<lparr>sparse := (sparse s)(x := of_nat (length (dense s))),
                          dense := dense s @ [x]\<rparr>)
      else Inl Range)"

definition Dense :: "sset \<Rightarrow> u32 list" where
  "Dense s = dense s"

definition Len :: "sset \<Rightarrow> nat" where
  "Len s = length (dense s)"

section \<open>Invariant\<close>

text \<open>Every member is in range and the array leads back to its place.\<close>

definition sset_inv :: "sset \<Rightarrow> bool" where
  "sset_inv s \<longleftrightarrow> distinct (dense s) \<and> smax s < 2 ^ 32 \<and>
     (\<forall>i < length (dense s). unat (dense s ! i) < smax s \<and>
        unat (sparse s (dense s ! i)) = i)"

lemma sset_inv_length:
  assumes "sset_inv s"
  shows "length (dense s) \<le> smax s"
proof -
  have "unat ` set (dense s) \<subseteq> {..< smax s}"
    using assms by (auto simp: sset_inv_def in_set_conv_nth)
  then have "card (unat ` set (dense s)) \<le> smax s"
    using card_mono [of "{..< smax s}" "unat ` set (dense s)"] by simp
  moreover have "card (unat ` set (dense s)) = length (dense s)"
    using assms by (simp add: sset_inv_def card_image distinct_card inj_on_def flip: word_unat_eq_iff)
  ultimately show ?thesis by simp
qed

lemma sset_lookup:
  assumes "sset_inv s" "unat x < smax s"
  shows "(sparse s x < of_nat (length (dense s)) \<and> dense s ! unat (sparse s x) = x)
           = (x \<in> set (dense s))"
proof -
  have len: "unat (of_nat (length (dense s)) :: u32) = length (dense s)"
    using sset_inv_length [OF assms(1)] assms(1)
    by (simp add: sset_inv_def unat_of_nat take_bit_nat_eq_self)
  show ?thesis
  proof
    assume "sparse s x < of_nat (length (dense s)) \<and> dense s ! unat (sparse s x) = x"
    then show "x \<in> set (dense s)"
      using len by (metis nth_mem word_less_nat_alt)
  next
    assume "x \<in> set (dense s)"
    then obtain i where "i < length (dense s)" "dense s ! i = x"
      by (auto simp: in_set_conv_nth)
    with assms(1) len show "sparse s x < of_nat (length (dense s)) \<and> dense s ! unat (sparse s x) = x"
      by (auto simp: sset_inv_def word_less_nat_alt)
  qed
qed

lemma Has_iff: "sset_inv s \<Longrightarrow> unat x < smax s \<Longrightarrow> Has s x = Inr (x \<in> set (dense s))"
  using sset_lookup by (simp add: Has_def Let_def)

lemma Add_eq:
  "sset_inv s \<Longrightarrow> unat x < smax s \<Longrightarrow>
   Add x s = Inr (if x \<in> set (dense s) then s
      else s\<lparr>sparse := (sparse s)(x := of_nat (length (dense s))), dense := dense s @ [x]\<rparr>)"
  using sset_lookup by (simp add: Add_def Let_def)

lemma Add_out_of_range: "\<not> unat x < smax s \<Longrightarrow> Add x s = Inl Range"
  by (simp add: Add_def)

lemma Add_inv:
  assumes "sset_inv s" "unat x < smax s" "Add x s = Inr s'"
  shows "sset_inv s'"
proof (cases "x \<in> set (dense s)")
  case True
  with assms show ?thesis by (simp add: Add_eq)
next
  case False
  have "unat (of_nat (length (dense s)) :: u32) = length (dense s)"
    using sset_inv_length [OF assms(1)] assms(1)
    by (simp add: sset_inv_def unat_of_nat take_bit_nat_eq_self)
  with False assms show ?thesis
    by (auto simp: Add_eq sset_inv_def nth_append less_Suc_eq)
qed

lemma Reset_inv: "smax s < 2 ^ 32 \<Longrightarrow> sset_inv (Reset s)"
  by (simp add: sset_inv_def Reset_def)

section \<open>The interface the callers use\<close>

locale u32_set =
  fixes inv :: "'s \<Rightarrow> bool"
    and cap :: "'s \<Rightarrow> nat"
    and elems :: "'s \<Rightarrow> u32 list"
    and reset :: "'s \<Rightarrow> 's"
    and add :: "u32 \<Rightarrow> 's \<Rightarrow> 's res"
    and has :: "'s \<Rightarrow> u32 \<Rightarrow> bool res"
  assumes inv_reset: "inv s \<Longrightarrow> inv (reset s)"
    and elems_reset: "elems (reset s) = []"
    and cap_reset: "cap (reset s) = cap s"
    and distinct_elems: "inv s \<Longrightarrow> distinct (elems s)"
    and elems_cap: "inv s \<Longrightarrow> x \<in> set (elems s) \<Longrightarrow> unat x < cap s"
    and has_iff: "inv s \<Longrightarrow> unat x < cap s \<Longrightarrow> has s x = Inr (x \<in> set (elems s))"
    and add_ok: "inv s \<Longrightarrow> unat x < cap s \<Longrightarrow>
      \<exists>s'. add x s = Inr s' \<and> inv s' \<and> cap s' = cap s \<and>
           elems s' = (if x \<in> set (elems s) then elems s else elems s @ [x])"
begin

lemma add_all:
  assumes "inv s" "\<forall>x \<in> set xs. unat x < cap s"
  shows "\<exists>s'. rfold add xs s = Inr s' \<and> inv s' \<and> cap s' = cap s \<and>
           elems s' = nub_acc (elems s) xs"
  using assms
proof (induction xs arbitrary: s)
  case Nil
  then show ?case by simp
next
  case (Cons x xs)
  then obtain s1 where s1: "add x s = Inr s1" "inv s1" "cap s1 = cap s"
      "elems s1 = (if x \<in> set (elems s) then elems s else elems s @ [x])"
    using add_ok [of s x] by auto
  with Cons.IH [of s1] Cons.prems show ?case by auto
qed

lemma reset_add_all:
  assumes "inv s" "\<forall>x \<in> set xs. unat x < cap s"
  shows "\<exists>s'. rfold add xs (reset s) = Inr s' \<and> inv s' \<and> cap s' = cap s \<and>
           elems s' = nub_acc [] xs"
  using add_all [OF inv_reset, of s xs] assms by (simp add: cap_reset elems_reset)

end

lemma Add_ok:
  assumes "sset_inv s" "unat x < smax s"
  shows "\<exists>s'. Add x s = Inr s' \<and> sset_inv s' \<and> smax s' = smax s \<and>
           dense s' = (if x \<in> set (dense s) then dense s else dense s @ [x])"
  using assms Add_inv [OF assms] by (auto simp: Add_eq)

interpretation sp: u32_set sset_inv smax dense Reset Add Has
proof
  fix s x
  show "sset_inv s \<Longrightarrow> sset_inv (Reset s)"
    by (rule Reset_inv) (simp add: sset_inv_def)
  show "dense (Reset s) = []" and "smax (Reset s) = smax s"
    by (simp_all add: Reset_def)
  show "sset_inv s \<Longrightarrow> distinct (dense s)"
    by (simp add: sset_inv_def)
  show "sset_inv s \<Longrightarrow> x \<in> set (dense s) \<Longrightarrow> unat x < smax s"
    by (auto simp: sset_inv_def in_set_conv_nth)
  show "sset_inv s \<Longrightarrow> unat x < smax s \<Longrightarrow> Has s x = Inr (x \<in> set (dense s))"
    by (rule Has_iff)
  show "sset_inv s \<Longrightarrow> unat x < smax s \<Longrightarrow>
      \<exists>s'. Add x s = Inr s' \<and> sset_inv s' \<and> smax s' = smax s \<and>
           dense s' = (if x \<in> set (dense s) then dense s else dense s @ [x])"
    by (rule Add_ok)
qed

section \<open>Properties\<close>

text \<open>
  C40. Whatever the set held before (the array may be full of stale entries), clearing it
  and adding a sequence of in-range values never fails, leaves the values in order of first
  insertion without duplicates, and membership afterwards is membership in that sequence.
\<close>

theorem sparse_set_after_reset:
  assumes "smax s < 2 ^ 32"
    and "\<forall>x \<in> set xs. unat x < smax s"
    and "unat y < smax s"
  shows "\<exists>s'. rfold Add xs (Reset s) = Inr s' \<and> Dense s' = nub_acc [] xs \<and>
           Len s' = length (nub_acc [] xs) \<and> Has s' y = Inr (y \<in> set xs)"
proof -
  have i: "sset_inv (Reset s)" using assms(1) by (rule Reset_inv)
  from sp.add_all [OF i, of xs] assms(2) obtain s' where
    s': "rfold Add xs (Reset s) = Inr s'" "sset_inv s'" "smax s' = smax s"
        "dense s' = nub_acc [] xs"
    by (auto simp: Reset_def)
  then show ?thesis
    using assms(3) by (simp add: Dense_def Len_def sp.has_iff)
qed

theorem sparse_set_after_reset_witness:
  "\<exists>s'. rfold Add [3, 1, 3] (Reset \<lparr>dense = [1], sparse = (\<lambda>_. 0), smax = 8\<rparr>) = Inr s' \<and>
     Dense s' = nub_acc [] [3, 1, 3] \<and> Len s' = length (nub_acc [] [3, 1, 3 :: u32]) \<and>
     Has s' 1 = Inr (1 \<in> set [3, 1, 3 :: u32])"
  by (rule sparse_set_after_reset) simp_all

end
