(* ===== verification/Buffer_IO.thy ===== *)
theory Buffer_IO
  imports Prelude
begin

text \<open>
  The output buffer of \<open>internal/codesearch/index/write.go\<close> (type \<open>Buffer\<close>, a wrapper
  around a file), and the variable-length integers of the standard library's
  \<open>encoding/binary\<close>, which every other part of the index format is written with.

  A buffer holds what has reached the file (\<open>None\<close> is a nil file) and what is still in
  memory.  \<open>bcap\<close> is the capacity of the memory slice and \<open>bgrow\<close> the run-time system's
  choice of a new capacity when an \<open>append\<close> exceeds it.  A write that the operating system
  refuses ends the process (\<open>log.Fatalf\<close>), so every modelled file write succeeds.  The
  global variable \<open>writeVersion\<close>, which \<open>Merge\<close> assigns, is an argument \<open>wv\<close> of the
  operations that read it.

  The lemmas show that whatever the capacity, the operations only ever append: the
  \<open>contents\<close> (file, then memory) grow by exactly the bytes given, and \<open>Offset\<close> is their
  length.  The locale \<open>byte_sink\<close> states that contract for the writers built on it.
\<close>

section \<open>Buffer\<close>

record buffer =
  bfile :: "byte list option"
  fileOff :: nat
  bbuf :: "byte list"
  bcap :: nat
  bgrow :: "nat \<Rightarrow> nat"

definition bufCreate :: "(nat \<Rightarrow> nat) \<Rightarrow> buffer" where
  "bufCreate g = \<lparr>bfile = Some [], fileOff = 0, bbuf = [], bcap = 262144, bgrow = g\<rparr>"

definition bufFlush :: "buffer \<Rightarrow> buffer" where
  "bufFlush b = (case bfile b of
       None \<Rightarrow> b
     | Some f \<Rightarrow> if bbuf b = [] then b
                 else b\<lparr>bfile := Some (f @ bbuf b), fileOff := fileOff b + length (bbuf b),
                        bbuf := []\<rparr>)"

text \<open>\<open>append(b.buf, x...)\<close>: reallocates when the capacity is exceeded.\<close>

definition bufAppend :: "byte list \<Rightarrow> buffer \<Rightarrow> buffer" where
  "bufAppend x b =
     (let n = length (bbuf b) + length x
      in b\<lparr>bbuf := bbuf b @ x,
           bcap := (if n \<le> bcap b then bcap b else max n (bgrow b n))\<rparr>)"

definition fileWrite :: "byte list \<Rightarrow> buffer \<Rightarrow> buffer" where
  "fileWrite x b = b\<lparr>bfile := map_option (\<lambda>f. f @ x) (bfile b), fileOff := fileOff b + length x\<rparr>"

definition bufWrite :: "byte list \<Rightarrow> buffer \<Rightarrow> buffer" where
  "bufWrite x b =
     (if length x > bcap b - length (bbuf b)
      then let b1 = bufFlush b
           in if bfile b1 \<noteq> None \<and> length x \<ge> bcap b1 then fileWrite x b1 else bufAppend x b1
      else bufAppend x b)"

definition bufWriteByte :: "byte \<Rightarrow> buffer \<Rightarrow> buffer" where
  "bufWriteByte x b =
     bufAppend [x] (if length (bbuf b) \<ge> bcap b then bufFlush b else b)"

definition bufWriteString :: "gostr \<Rightarrow> buffer \<Rightarrow> buffer" where
  "bufWriteString s b =
     (if length s > bcap b - length (bbuf b)
      then let b1 = bufFlush b
           in if length s \<ge> bcap b1 then fileWrite s b1 else bufAppend s b1
      else bufAppend s b)"

definition bufOffset :: "buffer \<Rightarrow> nat" where
  "bufOffset b = fileOff b + length (bbuf b)"

text \<open>\<open>finish\<close> flushes and rewinds the file for reading: the result is all of its bytes.\<close>

definition bufFinish :: "buffer \<Rightarrow> byte list" where
  "bufFinish b = (case bfile (bufFlush b) of None \<Rightarrow> [] | Some f \<Rightarrow> f)"

definition reserve :: "nat \<Rightarrow> buffer \<Rightarrow> buffer" where
  "reserve n b = (if bcap b - length (bbuf b) < n then bufFlush b else b)"

definition tri_bytes :: "u32 \<Rightarrow> byte list" where
  "tri_bytes t = [ucast (drop_bit 16 t), ucast (drop_bit 8 t), ucast t]"

definition bufWriteTrigram :: "u32 \<Rightarrow> buffer \<Rightarrow> buffer" where
  "bufWriteTrigram t b = bufAppend (tri_bytes t) (reserve 3 b)"

section \<open>Variable-length integers (encoding/binary)\<close>

text \<open>\<open>AppendUvarint\<close>/\<open>PutUvarint\<close>, and \<open>Uvarint\<close> with its result code: a positive
  count of bytes read, 0 when the input ends inside a number, negative on overflow.\<close>

fun uvarint_enc :: "nat \<Rightarrow> byte list" where
  "uvarint_enc x =
     (if x < 128 then [of_nat x] else of_nat (x mod 128 + 128) # uvarint_enc (x div 128))"

declare uvarint_enc.simps [simp del]

fun uvarint_loop :: "nat \<Rightarrow> nat \<Rightarrow> byte list \<Rightarrow> nat \<times> int" where
  "uvarint_loop i x [] = (0, 0)"
| "uvarint_loop i x (b # bs) =
     (if i = 10 then (0, - (int i + 1))
      else if unat b < 128
      then (if i = 9 \<and> unat b > 1 then (0, - (int i + 1))
            else (x + unat b * 2 ^ (7 * i), int i + 1))
      else uvarint_loop (Suc i) (x + (unat b - 128) * 2 ^ (7 * i)) bs)"

definition uvarint_dec :: "byte list \<Rightarrow> nat \<times> int" where
  "uvarint_dec bs = uvarint_loop 0 0 bs"

definition bufWriteVarint :: "int \<Rightarrow> buffer \<Rightarrow> buffer res" where
  "bufWriteVarint x b =
     (if x < 0 then Inl Fatal else Inr (bufAppend (uvarint_enc (nat x)) (reserve 10 b)))"

section \<open>Fixed-width integers\<close>

definition be32 :: "u32 \<Rightarrow> byte list" where
  "be32 w = [ucast (drop_bit 24 w), ucast (drop_bit 16 w), ucast (drop_bit 8 w), ucast w]"

definition be64 :: "u64 \<Rightarrow> byte list" where
  "be64 w = [ucast (drop_bit 56 w), ucast (drop_bit 48 w), ucast (drop_bit 40 w),
     ucast (drop_bit 32 w), ucast (drop_bit 24 w), ucast (drop_bit 16 w),
     ucast (drop_bit 8 w), ucast w]"

definition writeUint32 :: "int \<Rightarrow> buffer \<Rightarrow> buffer res" where
  "writeUint32 x b =
     (if x < 0 \<or> uint (of_int x :: u32) \<noteq> x then Inl Fatal
      else Inr (bufAppend (be32 (of_int x)) (reserve 4 b)))"

text \<open>The guard reserves four bytes although eight are appended, as in the source.\<close>

definition writeUint64 :: "int \<Rightarrow> buffer \<Rightarrow> buffer res" where
  "writeUint64 x b =
     (if x < 0 then Inl Fatal else Inr (bufAppend (be64 (of_int x)) (reserve 4 b)))"

definition bufWriteUint :: "nat \<Rightarrow> int \<Rightarrow> buffer \<Rightarrow> buffer res" where
  "bufWriteUint wv x b = (if wv = 1 then writeUint32 x b else writeUint64 x b)"

lemma bufOffset_Append [simp]: "bufOffset (bufAppend x b) = bufOffset b + length x"
  by (simp add: bufOffset_def bufAppend_def Let_def)

lemma bufOffset_Flush [simp]: "bufOffset (bufFlush b) = bufOffset b"
  by (simp add: bufOffset_def bufFlush_def split: option.split)

lemma bufOffset_WriteByte [simp]: "bufOffset (bufWriteByte x b) = Suc (bufOffset b)"
  by (simp add: bufWriteByte_def)

text \<open>The distance to the next multiple of \<open>n\<close> shrinks with every padding byte.\<close>

function pad_to :: "nat \<Rightarrow> buffer \<Rightarrow> buffer" where
  "pad_to n b = (if bufOffset b mod n \<noteq> 0 \<and> 0 < n then pad_to n (bufWriteByte 0 b) else b)"
  by pat_completeness auto
termination
proof (relation "measure (\<lambda>(n, b). (n - bufOffset b mod n) mod n)", goal_cases)
  case (2 n b)
  then have r: "bufOffset b mod n \<noteq> 0" "bufOffset b mod n < n" by simp_all
  then show ?case by (auto simp: mod_Suc)
qed simp

declare pad_to.simps [simp del]

definition bufAlign :: "nat \<Rightarrow> nat \<Rightarrow> buffer \<Rightarrow> buffer" where
  "bufAlign wv n b = (if wv = 1 then b else pad_to n b)"

section \<open>What a buffer has been given so far\<close>

definition contents :: "buffer \<Rightarrow> byte list" where
  "contents b = (case bfile b of None \<Rightarrow> [] | Some f \<Rightarrow> f) @ bbuf b"

definition buf_inv :: "buffer \<Rightarrow> bool" where
  "buf_inv b \<longleftrightarrow> (\<exists>f. bfile b = Some f \<and> fileOff b = length f) \<and> length (bbuf b) \<le> bcap b"

lemma bufCreate_ok [simp]:
  "buf_inv (bufCreate g)" "contents (bufCreate g) = []"
  by (simp_all add: buf_inv_def bufCreate_def contents_def)

lemma offset_contents: "buf_inv b \<Longrightarrow> bufOffset b = length (contents b)"
  by (auto simp: buf_inv_def bufOffset_def contents_def)

text \<open>The collection \<open>buf_ok\<close>: how each operation changes the contents.\<close>

named_theorems buf_ok

lemma bufFlush_ok [buf_ok]:
  "buf_inv b \<Longrightarrow> buf_inv (bufFlush b)"
  "buf_inv b \<Longrightarrow> contents (bufFlush b) = contents b"
  by (auto simp: bufFlush_def buf_inv_def contents_def)

lemma bufAppend_ok [buf_ok]:
  "buf_inv b \<Longrightarrow> buf_inv (bufAppend x b)"
  "buf_inv b \<Longrightarrow> contents (bufAppend x b) = contents b @ x"
  by (auto simp: bufAppend_def buf_inv_def contents_def Let_def)

lemma fileWrite_ok:
  "buf_inv b \<Longrightarrow> bbuf b = [] \<Longrightarrow> buf_inv (fileWrite x b) \<and> contents (fileWrite x b) = contents b @ x"
  by (auto simp: fileWrite_def buf_inv_def contents_def)

lemma bbuf_bufFlush: "buf_inv b \<Longrightarrow> bbuf (bufFlush b) = []"
  by (auto simp: bufFlush_def buf_inv_def)

lemma reserve_ok [buf_ok]:
  "buf_inv b \<Longrightarrow> buf_inv (reserve n b)"
  "buf_inv b \<Longrightarrow> contents (reserve n b) = contents b"
  by (simp_all add: reserve_def buf_ok)

lemma bufWrite_ok [buf_ok]:
  "buf_inv b \<Longrightarrow> buf_inv (bufWrite x b)"
  "buf_inv b \<Longrightarrow> contents (bufWrite x b) = contents b @ x"
  by (simp_all add: bufWrite_def buf_ok fileWrite_ok bbuf_bufFlush Let_def)

lemma bufWriteByte_ok [buf_ok]:
  "buf_inv b \<Longrightarrow> buf_inv (bufWriteByte x b)"
  "buf_inv b \<Longrightarrow> contents (bufWriteByte x b) = contents b @ [x]"
  by (simp_all add: bufWriteByte_def buf_ok)

lemma bufWriteString_ok [buf_ok]:
  "buf_inv b \<Longrightarrow> buf_inv (bufWriteString x b)"
  "buf_inv b \<Longrightarrow> contents (bufWriteString x b) = contents b @ x"
  by (simp_all add: bufWriteString_def buf_ok fileWrite_ok bbuf_bufFlush Let_def)

lemma bufWriteTrigram_ok [buf_ok]:
  "buf_inv b \<Longrightarrow> buf_inv (bufWriteTrigram t b)"
  "buf_inv b \<Longrightarrow> contents (bufWriteTrigram t b) = contents b @ tri_bytes t"
  by (simp_all add: bufWriteTrigram_def buf_ok)

lemma bufFinish_ok: "buf_inv b \<Longrightarrow> bufFinish b = contents b"
  by (auto simp: bufFinish_def contents_def buf_inv_def bufFlush_def)

lemma bufWriteVarint_ok:
  "buf_inv b \<Longrightarrow> 0 \<le> x \<Longrightarrow>
   \<exists>b'. bufWriteVarint x b = Inr b' \<and> buf_inv b' \<and> contents b' = contents b @ uvarint_enc (nat x)"
  by (simp add: bufWriteVarint_def buf_ok)

text \<open>\<open>uint_bytes wv\<close> is the encoding \<open>WriteUint\<close> appends, where it does not give up.\<close>

definition uint_bytes :: "nat \<Rightarrow> nat \<Rightarrow> byte list" where
  "uint_bytes wv n = (if wv = 1 then be32 (of_nat n) else be64 (of_nat n))"

lemma bufWriteUint_ok:
  assumes "buf_inv b" "wv = 1 \<longrightarrow> n < 2 ^ 32"
  shows "\<exists>b'. bufWriteUint wv (int n) b = Inr b' \<and> buf_inv b' \<and>
           contents b' = contents b @ uint_bytes wv n"
proof (cases "wv = 1")
  case True
  then have "n < 2 ^ 32" using assms(2) by simp
  then have "uint (of_nat n :: u32) = int n"
    by (simp add: unsigned_of_nat take_bit_nat_eq_self)
  with True assms(1) show ?thesis
    by (simp add: bufWriteUint_def writeUint32_def uint_bytes_def buf_ok)
next
  case False
  with assms(1) show ?thesis
    by (simp add: bufWriteUint_def writeUint64_def uint_bytes_def buf_ok)
qed

lemma bufWriteUint_too_large:
  "2 ^ 32 \<le> n \<Longrightarrow> bufWriteUint 1 (int n) b = Inl Fatal"
proof -
  assume "2 ^ 32 \<le> n"
  moreover have "uint (of_nat n :: u32) < 2 ^ 32"
    using uint_lt2p [of "of_nat n :: u32"] by simp
  ultimately have "uint (of_nat n :: u32) \<noteq> int n" by (simp add: of_nat_less_iff)
  then show ?thesis by (simp add: bufWriteUint_def writeUint32_def)
qed

lemma pad_to_steps:
  assumes "buf_inv b" "0 < n"
  shows "buf_inv (pad_to n b) \<and> bufOffset (pad_to n b) mod n = 0 \<and>
    (\<exists>k. contents (pad_to n b) = contents b @ replicate k 0 \<and>
         k \<le> (n - bufOffset b mod n) mod n)"
  using assms
proof (induction n b rule: pad_to.induct)
  case (1 n b)
  show ?case
  proof (cases "bufOffset b mod n = 0")
    case True
    then show ?thesis using "1.prems" by (auto simp: pad_to.simps [of n b])
  next
    case False
    let ?b = "bufWriteByte 0 b"
    have ih: "buf_inv (pad_to n ?b)" "bufOffset (pad_to n ?b) mod n = 0"
        "\<exists>k. contents (pad_to n ?b) = contents ?b @ replicate k 0 \<and>
             k \<le> (n - bufOffset ?b mod n) mod n"
      using 1 False by (simp_all add: buf_ok)
    then obtain k where k: "contents (pad_to n ?b) = contents ?b @ replicate k 0"
        "k \<le> (n - bufOffset ?b mod n) mod n" by blast
    have "bufOffset b mod n < n" using "1.prems" by simp
    with k(2) False have "Suc k \<le> (n - bufOffset b mod n) mod n"
      by (simp add: mod_Suc split: if_splits)
    moreover have "contents (pad_to n b) = contents b @ replicate (Suc k) 0"
      using k(1) False "1.prems" by (simp add: pad_to.simps [of n b] buf_ok)
    ultimately have "\<exists>k. contents (pad_to n b) = contents b @ replicate k 0 \<and>
        k \<le> (n - bufOffset b mod n) mod n" by blast
    moreover have "pad_to n b = pad_to n ?b"
      using False "1.prems" by (simp add: pad_to.simps [of n b])
    ultimately show ?thesis using ih(1,2) by simp
  qed
qed

lemma pad_to_ok:
  assumes "buf_inv b" "0 < n"
  shows "buf_inv (pad_to n b) \<and> bufOffset (pad_to n b) mod n = 0 \<and>
    (\<exists>k < n. contents (pad_to n b) = contents b @ replicate k 0)"
  using pad_to_steps [OF assms] assms(2) mod_less_divisor [OF assms(2)] le_less_trans by blast

section \<open>The contract of a byte sink\<close>

locale byte_sink =
  fixes inv :: "'b \<Rightarrow> bool"
    and bytes :: "'b \<Rightarrow> byte list"
    and put :: "byte list \<Rightarrow> 'b \<Rightarrow> 'b"
    and pos :: "'b \<Rightarrow> nat"
  assumes inv_put: "inv b \<Longrightarrow> inv (put x b)"
    and bytes_put: "inv b \<Longrightarrow> bytes (put x b) = bytes b @ x"
    and pos_bytes: "inv b \<Longrightarrow> pos b = length (bytes b)"
begin

lemma put_all:
  "inv b \<Longrightarrow> inv (fold put xs b) \<and> bytes (fold put xs b) = bytes b @ concat xs \<and>
   pos (fold put xs b) = pos b + length (concat xs)"
  by (induction xs arbitrary: b) (simp_all add: inv_put bytes_put pos_bytes)

end

interpretation sink: byte_sink buf_inv contents bufWrite bufOffset
  by unfold_locales (simp_all add: buf_ok offset_contents)

interpretation string_sink: byte_sink buf_inv contents bufWriteString bufOffset
  by unfold_locales (simp_all add: buf_ok offset_contents)

section \<open>Round trips\<close>

lemma uvarint_enc_length: "0 < k \<Longrightarrow> x < 2 ^ (7 * k) \<Longrightarrow> length (uvarint_enc x) \<le> k"
proof (induction x arbitrary: k rule: uvarint_enc.induct)
  case (1 x)
  show ?case
  proof (cases "x < 128")
    case True
    with 1 show ?thesis by (simp add: uvarint_enc.simps [of x])
  next
    case False
    with 1(3) obtain j where j: "k = Suc j" "0 < j"
      by (cases k; cases "k - 1") auto
    then have "x div 128 < 2 ^ (7 * j)" using 1(3)
      by (simp add: power_add less_mult_imp_div_less mult.commute)
    with 1(1) [OF False] j False show ?thesis by (simp add: uvarint_enc.simps [of x])
  qed
qed

lemma uvarint_loop_enc:
  assumes "x < 2 ^ (64 - 7 * i)" "i < 10"
  shows "uvarint_loop i a (uvarint_enc x @ rest) = (a + x * 2 ^ (7 * i), int (i + length (uvarint_enc x)))"
  using assms
proof (induction x arbitrary: i a rule: uvarint_enc.induct)
  case (1 x)
  show ?case
  proof (cases "x < 128")
    case True
    have "i = 9 \<longrightarrow> x \<le> 1" using 1(2) by auto
    moreover have "unat (of_nat x :: byte) = x"
      using True by (simp add: unsigned_of_nat take_bit_nat_eq_self)
    ultimately show ?thesis using True 1(3) by (auto simp: uvarint_enc.simps [of x])
  next
    case False
    have i9: "i < 9"
    proof (rule ccontr)
      assume "\<not> i < 9"
      then have "64 - 7 * i \<le> 1" by simp
      then have "(2::nat) ^ (64 - 7 * i) \<le> 2 ^ 1" by (rule power_increasing) simp
      with 1(2) False show False by simp
    qed
    have b: "unat (of_nat (x mod 128 + 128) :: byte) = x mod 128 + 128"
      by (simp add: unsigned_of_nat take_bit_nat_eq_self del: of_nat_add)
    have "(2::nat) ^ (64 - 7 * i) = 2 ^ (64 - 7 * Suc i) * 128"
    proof -
      have "64 - 7 * i = (64 - 7 * Suc i) + 7" using i9 by simp
      then have "(2::nat) ^ (64 - 7 * i) = 2 ^ (64 - 7 * Suc i) * 2 ^ 7"
        by (simp only: power_add)
      then show ?thesis by simp
    qed
    then have "x div 128 < 2 ^ (64 - 7 * Suc i)" using 1(2)
      by (simp add: less_mult_imp_div_less)
    from 1(1) [OF False this] i9
    have ih: "uvarint_loop (Suc i) (a + x mod 128 * 2 ^ (7 * i)) (uvarint_enc (x div 128) @ rest) =
      (a + x mod 128 * 2 ^ (7 * i) + (x div 128) * 2 ^ (7 * Suc i),
       int (Suc i + length (uvarint_enc (x div 128))))" by simp
    have "x mod 128 * 2 ^ (7 * i) + (x div 128) * 2 ^ (7 * Suc i) = x * 2 ^ (7 * i)"
    proof -
      have "m * p + d * (128 * p) = (m + 128 * d) * p" for m d p :: nat
        by (simp add: algebra_simps)
      from this [of "x mod 128" "2 ^ (7 * i)" "x div 128"] show ?thesis
        by (simp add: power_add)
    qed
    with ih False b i9 show ?thesis
      by (simp add: uvarint_enc.simps [of x] del: of_nat_add)
  qed
qed

lemma uvarint_roundtrip:
  "x < 2 ^ 64 \<Longrightarrow> uvarint_dec (uvarint_enc x @ rest) = (x, int (length (uvarint_enc x)))"
  using uvarint_loop_enc [of x 0 0 rest] by (simp add: uvarint_dec_def)

lemma uvarint_enc_nonempty [simp]: "uvarint_enc x \<noteq> []"
  by (simp add: uvarint_enc.simps [of x])

end
