(* ===== verification/Path.thy ===== *)
theory Path
  imports Buffer_IO
begin

text \<open>
  Paths and path lists, \<open>internal/codesearch/index/path.go\<close>.

  A path is its string.  \<open>Compare\<close> is the order of the index's root and name lists: bytewise,
  with slashes as byte 0, so that a directory's files are contiguous.  \<open>os.PathSeparator\<close> is
  the slash of the Unix platforms the program runs on.

  The writer appends paths to a data buffer and their offsets to an optional index buffer:
  NUL-terminated in version 1, prefix-compressed in groups in version 2.  The reader walks the
  bytes back; a reader without a current path (\<open>prpath = []\<close>) is at its end.
\<close>

section \<open>Path order\<close>

definition MakePath :: "gostr \<Rightarrow> gostr" where
  "MakePath s = s"

definition HasPathPrefix :: "gostr \<Rightarrow> gostr \<Rightarrow> bool" where
  "HasPathPrefix p parent \<longleftrightarrow>
     take (length parent) p = parent \<and> length parent \<le> length p \<and>
     (p = parent \<or> p ! length parent = 47)"

definition sep_key :: "byte \<Rightarrow> byte" where
  "sep_key c = (if c = 47 then 0 else c)"

fun Compare :: "gostr \<Rightarrow> gostr \<Rightarrow> int" where
  "Compare (a # p) (b # q) =
     (if sep_key a \<noteq> sep_key b then uint (sep_key a) - uint (sep_key b) else Compare p q)"
| "Compare p q = int (length p) - int (length q)"

section \<open>Writer\<close>

record pathWriter =
  pdata :: buffer
  pindex :: "buffer option"
  pver :: nat
  pgroup :: nat
  pstart :: nat
  pn :: nat
  plast :: gostr

definition NewPathWriter :: "buffer \<Rightarrow> buffer option \<Rightarrow> nat \<Rightarrow> nat \<Rightarrow> pathWriter res" where
  "NewPathWriter data index version grp =
     (if version \<noteq> 1 \<and> version \<noteq> 2 then Inl Panic
      else Inr \<lparr>pdata = data, pindex = index, pver = version, pgroup = grp,
                pstart = bufOffset data, pn = 0, plast = []\<rparr>)"

fun common_len :: "gostr \<Rightarrow> gostr \<Rightarrow> nat" where
  "common_len (a # x) (b # y) = (if a = b then Suc (common_len x y) else 0)"
| "common_len _ _ = 0"

text \<open>\<open>w.index.WriteUint(w.data.Offset() - w.start)\<close>, when there is an index.\<close>

definition noteOffset :: "nat \<Rightarrow> pathWriter \<Rightarrow> pathWriter res" where
  "noteOffset wv w =
     (case pindex w of
        None \<Rightarrow> Inr w
      | Some ix \<Rightarrow> rbind (bufWriteUint wv (int (bufOffset (pdata w)) - int (pstart w)) ix)
                     (\<lambda>ix'. Inr (w\<lparr>pindex := Some ix'\<rparr>)))"

definition pathWrite :: "nat \<Rightarrow> gostr \<Rightarrow> pathWriter \<Rightarrow> pathWriter res" where
  "pathWrite wv p w =
     (if pver w = 1
      then rbind (noteOffset wv w) (\<lambda>w1.
             Inr (w1\<lparr>pdata := bufWriteByte 0 (bufWriteString p (pdata w1))\<rparr>))
      else
        let first = (pgroup w = 0 \<and> pn w = 0 \<or> pgroup w > 0 \<and> pn w mod pgroup w = 0);
            pre = (if first then 0 else common_len (plast w) p)
        in rbind (if first then noteOffset wv w else Inr w) (\<lambda>w1.
           rbind (bufWriteVarint (int pre) (pdata w1)) (\<lambda>d1.
           rbind (bufWriteVarint (int (length p - pre)) d1) (\<lambda>d2.
             Inr (w1\<lparr>pdata := bufWriteString (drop pre p) d2, plast := p, pn := pn w1 + 1\<rparr>)))))"

definition pathCount :: "pathWriter \<Rightarrow> nat" where
  "pathCount w = pn w"

definition pathCollect :: "nat \<Rightarrow> gostr list \<Rightarrow> pathWriter \<Rightarrow> pathWriter res" where
  "pathCollect wv ps w = rfold (pathWrite wv) ps w"

section \<open>Reader\<close>

record pathReader =
  prver :: nat
  prdata :: "byte list"
  prpath :: gostr
  prlimit :: int

text \<open>\<open>bytes.IndexByte\<close> and the two halves around the byte it finds.\<close>

definition cut_nul :: "byte list \<Rightarrow> (byte list \<times> byte list) option" where
  "cut_nul d = (case dropWhile (\<lambda>c. c \<noteq> 0) d of
      [] \<Rightarrow> None
    | _ # rest \<Rightarrow> Some (takeWhile (\<lambda>c. c \<noteq> 0) d, rest))"

definition prNext :: "pathReader \<Rightarrow> pathReader \<times> bool" where
  "prNext r0 =
     (if prlimit r0 = 0 then (r0\<lparr>prpath := []\<rparr>, False)
      else
        let r = (if prlimit r0 > 0 then r0\<lparr>prlimit := prlimit r0 - 1\<rparr> else r0)
        in if prver r = 1
           then (case cut_nul (prdata r) of
                   None \<Rightarrow> (r\<lparr>prpath := []\<rparr>, False)
                 | Some (s, rest) \<Rightarrow>
                     if s = [] then (r\<lparr>prpath := []\<rparr>, False)
                     else (r\<lparr>prpath := s, prdata := rest\<rparr>, True))
           else (case uvarint_dec (prdata r) of (pre, w) \<Rightarrow>
             if w \<le> 0 \<or> pre > length (prpath r) then (r\<lparr>prpath := []\<rparr>, False)
             else let d1 = drop (nat w) (prdata r)
                  in (case uvarint_dec d1 of (n, w2) \<Rightarrow>
                    if w2 \<le> 0 \<or> n > length d1 - nat w2
                    then (r\<lparr>prdata := d1, prpath := []\<rparr>, False)
                    else let d2 = drop (nat w2) d1
                         in (r\<lparr>prpath := take pre (prpath r) @ take n d2, prdata := drop n d2\<rparr>,
                             True))))"

definition NewPathReader :: "nat \<Rightarrow> byte list \<Rightarrow> int \<Rightarrow> pathReader res" where
  "NewPathReader version data limit =
     (if version \<noteq> 1 \<and> version \<noteq> 2 then Inl Panic
      else Inr (fst (prNext \<lparr>prver = version, prdata = data, prpath = [], prlimit = limit\<rparr>)))"

definition prValid :: "pathReader \<Rightarrow> bool" where
  "prValid r \<longleftrightarrow> prpath r \<noteq> []"

lemma uvarint_loop_pos:
  "uvarint_loop i x bs = (v, n) \<Longrightarrow> 0 < n \<Longrightarrow> int i < n \<and> n \<le> int i + int (length bs)"
  by (induction i x bs rule: uvarint_loop.induct) (auto split: if_splits)

lemma uvarint_dec_pos: "uvarint_dec bs = (v, n) \<Longrightarrow> 0 < n \<Longrightarrow> n \<le> int (length bs)"
  using uvarint_loop_pos by (fastforce simp: uvarint_dec_def)

lemma cut_nul_length: "cut_nul d = Some (s, rest) \<Longrightarrow> length rest < length d"
proof -
  assume "cut_nul d = Some (s, rest)"
  then obtain c where "dropWhile (\<lambda>c. c \<noteq> 0) d = c # rest"
    by (auto simp: cut_nul_def split: list.splits)
  then show ?thesis using length_dropWhile_le [of "\<lambda>c. c \<noteq> 0" d] by simp
qed

lemma prNext_shrinks: "prNext r = (r', True) \<Longrightarrow> length (prdata r') < length (prdata r)"
  by (auto simp: prNext_def Let_def split: if_splits prod.splits option.splits
      dest: cut_nul_length uvarint_dec_pos)

text \<open>\<open>All\<close> yields the current path and then what \<open>Next\<close> finds, until it fails; a consumer
  that takes everything gets this list.\<close>

function prAll :: "pathReader \<Rightarrow> gostr list" where
  "prAll r =
     (if prValid r
      then prpath r # (case prNext r of (r', ok) \<Rightarrow> if ok then prAll r' else [])
      else [])"
  by pat_completeness auto
termination
  by (relation "measure (\<lambda>r. length (prdata r))") (auto dest: prNext_shrinks sym)

declare prAll.simps [simp del]

section \<open>The order\<close>

definition path_key :: "gostr \<Rightarrow> gostr" where
  "path_key p = map sep_key p"

lemma path_key_simps [simp]:
  "path_key [] = []" "path_key (a # p) = sep_key a # path_key p"
  "path_key (p @ q) = path_key p @ path_key q" "length (path_key p) = length p"
  "path_key p = [] \<longleftrightarrow> p = []" "[] = path_key p \<longleftrightarrow> p = []" "[] < path_key p \<longleftrightarrow> p \<noteq> []"
  by (cases p; simp add: path_key_def; fail)+

text \<open>The sign of \<open>Compare\<close> is the lexicographic order of the keys.\<close>

lemma Compare_less: "Compare p q < 0 \<longleftrightarrow> path_key p < path_key q"
proof (induction p q rule: Compare.induct)
  case (1 a p b q)
  then show ?case
    by (cases "sep_key a = sep_key b") (auto simp: word_less_def word_uint_eq_iff)
qed auto

lemma Compare_eq: "Compare p q = 0 \<longleftrightarrow> path_key p = path_key q"
proof (induction p q rule: Compare.induct)
  case (1 a p b q)
  then show ?case
    by (cases "sep_key a = sep_key b") (auto simp: word_uint_eq_iff)
qed auto

lemma Compare_le: "Compare p q \<le> 0 \<longleftrightarrow> path_key p \<le> path_key q"
  using Compare_less [of p q] Compare_eq [of p q] by (auto simp: le_less)

text \<open>Names the index accepts hold no byte 0, and there the keys determine the name.\<close>

lemma sep_key_inj: "a \<noteq> 0 \<Longrightarrow> b \<noteq> 0 \<Longrightarrow> sep_key a = sep_key b \<longleftrightarrow> a = b"
  by (auto simp: sep_key_def)

lemma path_key_inj: "0 \<notin> set p \<Longrightarrow> 0 \<notin> set q \<Longrightarrow> path_key p = path_key q \<longleftrightarrow> p = q"
proof (induction p arbitrary: q)
  case Nil
  then show ?case by (cases q) auto
next
  case (Cons a p)
  then show ?case by (cases q) (auto simp: sep_key_inj)
qed

lemma path_key_prefix:
  assumes "0 \<notin> set p" "0 \<notin> set q" "path_key p = path_key q @ ks"
  shows "\<exists>r. p = q @ r \<and> path_key r = ks"
proof -
  have "path_key (take (length q) p) = path_key q" "path_key (drop (length q) p) = ks"
    using arg_cong [OF assms(3), of "take (length q)"] arg_cong [OF assms(3), of "drop (length q)"]
    by (simp_all add: path_key_def flip: take_map drop_map)
  moreover from this(1) have "take (length q) p = q"
    using assms(1,2) path_key_inj [of "take (length q) p" q] by (auto dest: in_set_takeD)
  ultimately show ?thesis by (metis append_take_drop_id)
qed

lemma lex_between_prefix:
  fixes u :: "'a::linorder list"
  shows "u @ x \<le> v \<Longrightarrow> v \<le> u @ y \<Longrightarrow> \<exists>z. v = u @ z \<and> x \<le> z \<and> z \<le> y"
proof (induction u arbitrary: v)
  case (Cons a u)
  then show ?case by (cases v) auto
qed simp

lemma HasPathPrefix_iff:
  "HasPathPrefix p parent \<longleftrightarrow> (\<exists>r. p = parent @ r \<and> (r = [] \<or> hd r = 47))"
proof
  assume h: "HasPathPrefix p parent"
  then have p: "p = parent @ drop (length parent) p"
    by (metis HasPathPrefix_def append_take_drop_id)
  moreover have "drop (length parent) p = [] \<or> hd (drop (length parent) p) = 47"
  proof (cases "length parent < length p")
    case True
    with h show ?thesis by (auto simp: HasPathPrefix_def hd_drop_conv_nth)
  qed simp
  ultimately show "\<exists>r. p = parent @ r \<and> (r = [] \<or> hd r = 47)" by blast
next
  assume "\<exists>r. p = parent @ r \<and> (r = [] \<or> hd r = 47)"
  then obtain r where "p = parent @ r" "r = [] \<or> hd r = 47" by blast
  then show "HasPathPrefix p parent" by (cases r) (auto simp: HasPathPrefix_def)
qed

text \<open>
  C39. The files below a directory (or equal to it) are contiguous in the order of the index:
  a name that sorts between two names with the path prefix \<open>d\<close> has that prefix too.
\<close>

theorem directory_contiguous:
  assumes "HasPathPrefix p d" "HasPathPrefix r d"
    and "Compare p q \<le> 0" "Compare q r \<le> 0"
    and "0 \<notin> set d" "0 \<notin> set q"
  shows "HasPathPrefix q d"
proof -
  obtain x where x: "p = d @ x" "x = [] \<or> hd x = 47"
    using assms(1) by (auto simp: HasPathPrefix_iff)
  obtain y where y: "r = d @ y" "y = [] \<or> hd y = 47"
    using assms(2) by (auto simp: HasPathPrefix_iff)
  have "path_key d @ path_key x \<le> path_key q" "path_key q \<le> path_key d @ path_key y"
    using assms(3,4) x(1) y(1) by (simp_all add: Compare_le)
  then obtain z where z: "path_key q = path_key d @ z" "z \<le> path_key y"
    using lex_between_prefix by blast
  then obtain w where w: "q = d @ w" "path_key w = z"
    using path_key_prefix [OF assms(6,5)] by blast
  have "w = [] \<or> hd w = 47"
  proof (cases w)
    case (Cons c w')
    with z(2) w(2) y(2) have "sep_key c \<le> 0"
      by (cases y) (auto simp: sep_key_def)
    then have "sep_key c = 0" by simp
    moreover have "c \<noteq> 0" using assms(6) w(1) Cons by auto
    ultimately show ?thesis using Cons by (auto simp: sep_key_def split: if_splits)
  qed simp
  with w(1) show ?thesis by (auto simp: HasPathPrefix_iff)
qed

theorem directory_contiguous_witness:
  "HasPathPrefix (bytes_of ''a/b'') (bytes_of ''a'')"
  by (rule directory_contiguous [of "bytes_of ''a''" _ "bytes_of ''a/c''"]) (simp_all add: bytes_of_def HasPathPrefix_def sep_key_def)

section \<open>Round trip of a path list\<close>

definition pw_inv :: "pathWriter \<Rightarrow> bool" where
  "pw_inv w \<longleftrightarrow> buf_inv (pdata w) \<and> (\<forall>ix. pindex w = Some ix \<longrightarrow> buf_inv ix) \<and>
     pstart w \<le> bufOffset (pdata w)"

definition idx_contents :: "pathWriter \<Rightarrow> byte list" where
  "idx_contents w = (case pindex w of None \<Rightarrow> [] | Some ix \<Rightarrow> contents ix)"

definition is_first :: "nat \<Rightarrow> nat \<Rightarrow> bool" where
  "is_first g n \<longleftrightarrow> g = 0 \<and> n = 0 \<or> g > 0 \<and> n mod g = 0"

text \<open>The bytes of one path, after \<open>n\<close> paths of which \<open>lst\<close> was the last.\<close>

definition path_entry :: "nat \<Rightarrow> nat \<Rightarrow> nat \<Rightarrow> gostr \<Rightarrow> gostr \<Rightarrow> byte list" where
  "path_entry ver g n lst p =
     (if ver = 1 then p @ [0]
      else let pre = (if is_first g n then 0 else common_len lst p)
           in uvarint_enc pre @ uvarint_enc (length p - pre) @ drop pre p)"

lemma noteOffset_ok:
  assumes "pw_inv w" "wv = 1 \<longrightarrow> bufOffset (pdata w) - pstart w < 2 ^ 32"
  shows "\<exists>w1. noteOffset wv w = Inr w1 \<and> pw_inv w1 \<and> pdata w1 = pdata w \<and> pver w1 = pver w \<and>
    pgroup w1 = pgroup w \<and> pstart w1 = pstart w \<and> pn w1 = pn w \<and> plast w1 = plast w \<and>
    (pindex w1 = None \<longleftrightarrow> pindex w = None) \<and>
    idx_contents w1 = idx_contents w @
      (if pindex w = None then [] else uint_bytes wv (bufOffset (pdata w) - pstart w))"
proof (cases "pindex w")
  case None
  with assms(1) show ?thesis by (simp add: noteOffset_def)
next
  case (Some ix)
  with assms(1) have inv: "buf_inv ix" "pstart w \<le> bufOffset (pdata w)"
    by (simp_all add: pw_inv_def)
  then have "int (bufOffset (pdata w)) - int (pstart w) = int (bufOffset (pdata w) - pstart w)"
    by (simp add: of_nat_diff)
  moreover obtain ix' where ix': "bufWriteUint wv (int (bufOffset (pdata w) - pstart w)) ix = Inr ix'"
      "buf_inv ix'" "contents ix' = contents ix @ uint_bytes wv (bufOffset (pdata w) - pstart w)"
    using bufWriteUint_ok [OF inv(1) assms(2)] by blast
  ultimately have "noteOffset wv w = Inr (w\<lparr>pindex := Some ix'\<rparr>)"
    by (simp only: noteOffset_def Some option.case rbind_simps)
  moreover have "pw_inv (w\<lparr>pindex := Some ix'\<rparr>)"
    using assms(1) ix'(2) by (simp add: pw_inv_def)
  ultimately show ?thesis using Some ix'(3) by (simp add: idx_contents_def)
qed

lemma common_len_le: "common_len x y \<le> length x" "common_len x y \<le> length y"
  by (induction x y rule: common_len.induct) auto

lemma common_len_take: "take (common_len x y) x = take (common_len x y) y"
  by (induction x y rule: common_len.induct) auto

lemma pathWrite_v2:
  "pver w \<noteq> 1 \<Longrightarrow> pathWrite wv p w =
     (let pre = if is_first (pgroup w) (pn w) then 0 else common_len (plast w) p
      in rbind (if is_first (pgroup w) (pn w) then noteOffset wv w else Inr w) (\<lambda>w1.
         rbind (bufWriteVarint (int pre) (pdata w1)) (\<lambda>d1.
         rbind (bufWriteVarint (int (length p - pre)) d1) (\<lambda>d2.
           Inr (w1\<lparr>pdata := bufWriteString (drop pre p) d2, plast := p, pn := pn w1 + 1\<rparr>)))))"
  by (simp only: pathWrite_def is_first_def if_False Let_def)

lemma pathWrite_ok:
  assumes "pw_inv w" "pver w = 1 \<or> pver w = 2"
    and "wv = 1 \<longrightarrow> bufOffset (pdata w) - pstart w < 2 ^ 32"
  shows "\<exists>w'. pathWrite wv p w = Inr w' \<and> pw_inv w' \<and> pver w' = pver w \<and> pgroup w' = pgroup w \<and>
    pstart w' = pstart w \<and> pn w' = (if pver w = 1 then pn w else Suc (pn w)) \<and>
    plast w' = (if pver w = 1 then plast w else p) \<and> (pindex w' = None \<longleftrightarrow> pindex w = None) \<and>
    contents (pdata w') = contents (pdata w) @ path_entry (pver w) (pgroup w) (pn w) (plast w) p \<and>
    idx_contents w' = idx_contents w @
      (if pindex w \<noteq> None \<and> (pver w = 1 \<or> is_first (pgroup w) (pn w))
       then uint_bytes wv (bufOffset (pdata w) - pstart w) else [])"
proof -
  from noteOffset_ok [OF assms(1,3)] obtain w1 where w1: "noteOffset wv w = Inr w1" "pw_inv w1"
    "pdata w1 = pdata w" "pver w1 = pver w" "pgroup w1 = pgroup w" "pstart w1 = pstart w"
    "pn w1 = pn w" "plast w1 = plast w" "pindex w1 = None \<longleftrightarrow> pindex w = None"
    "idx_contents w1 = idx_contents w @
      (if pindex w = None then [] else uint_bytes wv (bufOffset (pdata w) - pstart w))"
    by (elim exE conjE)
  have inv: "buf_inv (pdata w)" "pstart w \<le> bufOffset (pdata w)"
    using assms(1) by (simp_all add: pw_inv_def)
  show ?thesis
  proof (cases "pver w = 1")
    case True
    let ?w = "w1\<lparr>pdata := bufWriteByte 0 (bufWriteString p (pdata w1))\<rparr>"
    have "pathWrite wv p w = Inr ?w" using True w1(1) by (simp add: pathWrite_def)
    moreover have "pw_inv ?w"
      using w1(2,3,6) inv by (simp add: pw_inv_def buf_ok offset_contents)
    moreover have "contents (pdata ?w) = contents (pdata w) @ path_entry (pver w) (pgroup w) (pn w) (plast w) p"
      using w1(3) inv(1) True by (simp add: buf_ok path_entry_def)
    moreover have "idx_contents ?w = idx_contents w1" by (simp add: idx_contents_def)
    ultimately show ?thesis using w1 True by simp
  next
    case False
    then have v2: "pver w = 2" using assms(2) by simp
    define w2 where "w2 = (if is_first (pgroup w) (pn w) then w1 else w)"
    define pre where "pre = (if is_first (pgroup w) (pn w) then 0 else common_len (plast w) p)"
    have w2: "pw_inv w2" "pdata w2 = pdata w" "pver w2 = pver w" "pgroup w2 = pgroup w"
      "pstart w2 = pstart w" "pn w2 = pn w" "plast w2 = plast w" "pindex w2 = None \<longleftrightarrow> pindex w = None"
      "idx_contents w2 = idx_contents w @
      (if pindex w \<noteq> None \<and> (pver w = 1 \<or> is_first (pgroup w) (pn w))
       then uint_bytes wv (bufOffset (pdata w) - pstart w) else [])"
      using w1 assms(1) v2 by (simp_all add: w2_def)
    obtain d1 where d1: "bufWriteVarint (int pre) (pdata w) = Inr d1" "buf_inv d1"
        "contents d1 = contents (pdata w) @ uvarint_enc pre"
      using bufWriteVarint_ok [OF inv(1), of "int pre"] by auto
    obtain d2 where d2: "bufWriteVarint (int (length p - pre)) d1 = Inr d2" "buf_inv d2"
        "contents d2 = contents d1 @ uvarint_enc (length p - pre)"
      using bufWriteVarint_ok [OF d1(2), of "int (length p - pre)"] by auto
    let ?w = "w2\<lparr>pdata := bufWriteString (drop pre p) d2, plast := p, pn := pn w2 + 1\<rparr>"
    have "pathWrite wv p w = Inr ?w"
    proof -
      have "(if is_first (pgroup w) (pn w) then noteOffset wv w else Inr w) = Inr w2"
        using w1(1) by (simp add: w2_def)
      then show ?thesis
        using v2 w2(2) d1(1) d2(1) by (simp add: pathWrite_v2 Let_def pre_def [symmetric])
    qed
    moreover have "contents (pdata ?w) = contents (pdata w) @ path_entry (pver w) (pgroup w) (pn w) (plast w) p"
      using d1 d2 v2 by (simp add: buf_ok path_entry_def Let_def pre_def)
    moreover have "pw_inv ?w"
      using w2 d1 d2 inv by (auto simp: pw_inv_def buf_ok offset_contents)
    moreover have "idx_contents ?w = idx_contents w2" by (simp add: idx_contents_def)
    ultimately show ?thesis using w2 v2 by auto
  qed
qed

fun path_entries :: "nat \<Rightarrow> nat \<Rightarrow> nat \<Rightarrow> gostr \<Rightarrow> gostr list \<Rightarrow> byte list" where
  "path_entries ver g n lst [] = []"
| "path_entries ver g n lst (p # ps) = path_entry ver g n lst p @
     path_entries ver g (if ver = 1 then n else Suc n) (if ver = 1 then lst else p) ps"

lemma pathCollect_ok:
  assumes "pw_inv w" "pver w = 1 \<or> pver w = 2"
    and "wv = 1 \<longrightarrow> bufOffset (pdata w) - pstart w +
           length (path_entries (pver w) (pgroup w) (pn w) (plast w) ps) < 2 ^ 32"
  shows "\<exists>w'. pathCollect wv ps w = Inr w' \<and> pw_inv w' \<and>
    contents (pdata w') = contents (pdata w) @
      path_entries (pver w) (pgroup w) (pn w) (plast w) ps"
  using assms
proof (induction ps arbitrary: w)
  case (Cons p ps)
  have "wv = 1 \<longrightarrow> bufOffset (pdata w) - pstart w < 2 ^ 32" using Cons.prems(3) by auto
  from pathWrite_ok [OF Cons.prems(1,2) this, of p] obtain w1 where
    w1: "pathWrite wv p w = Inr w1" "pw_inv w1" "pver w1 = pver w" "pgroup w1 = pgroup w"
      "pstart w1 = pstart w" "pn w1 = (if pver w = 1 then pn w else Suc (pn w))"
      "plast w1 = (if pver w = 1 then plast w else p)"
      "contents (pdata w1) = contents (pdata w) @
         path_entry (pver w) (pgroup w) (pn w) (plast w) p"
    by (elim exE conjE)
  have off: "bufOffset (pdata w1) = bufOffset (pdata w) +
      length (path_entry (pver w) (pgroup w) (pn w) (plast w) p)" "pstart w \<le> bufOffset (pdata w)"
    using w1(2,8) Cons.prems(1) by (auto simp: pw_inv_def offset_contents)
  have "\<exists>w'. pathCollect wv ps w1 = Inr w' \<and> pw_inv w' \<and> contents (pdata w') =
      contents (pdata w1) @ path_entries (pver w1) (pgroup w1) (pn w1) (plast w1) ps"
  proof (rule Cons.IH)
    show "wv = 1 \<longrightarrow> bufOffset (pdata w1) - pstart w1 +
        length (path_entries (pver w1) (pgroup w1) (pn w1) (plast w1) ps) < 2 ^ 32"
      unfolding w1(3-7) off(1) using Cons.prems(3) off(2) by (simp add: add.assoc)
  qed (use Cons.prems(2) w1(2,3) in simp_all)
  then show ?case
    using w1 by (auto simp: pathCollect_def)
qed (simp add: pathCollect_def)

lemma cut_nul_entry: "0 \<notin> set p \<Longrightarrow> cut_nul (p @ 0 # rest) = Some (p, rest)"
proof -
  assume "0 \<notin> set p"
  then have "dropWhile (\<lambda>c. c \<noteq> 0) (p @ 0 # rest) = 0 # rest"
    "takeWhile (\<lambda>c. c \<noteq> 0) (p @ 0 # rest) = p"
    by (induction p) auto
  then show ?thesis by (simp add: cut_nul_def)
qed

definition path_ok :: "nat \<Rightarrow> gostr \<Rightarrow> bool" where
  "path_ok ver p \<longleftrightarrow> p \<noteq> [] \<and> (if ver = 1 then 0 \<notin> set p else length p < 2 ^ 64)"

lemma prNext_v2:
  assumes "prlimit r > 0" "prver r \<noteq> 1" "pre \<le> length (prpath r)" "pre < 2 ^ 64" "length s < 2 ^ 64"
    and "prdata r = uvarint_enc pre @ uvarint_enc (length s) @ s @ rest"
  shows "prNext r = (r\<lparr>prlimit := prlimit r - 1, prdata := rest, prpath := take pre (prpath r) @ s\<rparr>, True)"
  using assms(1-3)
  by (simp add: prNext_def assms(6) Let_def uvarint_roundtrip [OF assms(4)]
      uvarint_roundtrip [OF assms(5)])

lemma prNext_entry:
  assumes "prver r = ver" "ver = 1 \<or> ver = 2" "prlimit r > 0" "path_ok ver p"
    and "prdata r = path_entry ver g n lst p @ rest" "ver = 2 \<longrightarrow> prpath r = lst"
  shows "prNext r = (r\<lparr>prlimit := prlimit r - 1, prdata := rest, prpath := p\<rparr>, True)"
proof (cases "ver = 1")
  case True
  then show ?thesis using assms
    by (simp add: prNext_def path_entry_def path_ok_def cut_nul_entry)
next
  case False
  define pre where "pre = (if is_first g n then 0 else common_len lst p)"
  have pre: "pre \<le> length lst" "pre \<le> length p" "take pre lst = take pre p"
    using common_len_le [of lst p] common_len_take [of lst p] by (simp_all add: pre_def)
  have "prNext r = (r\<lparr>prlimit := prlimit r - 1, prdata := rest,
      prpath := take pre (prpath r) @ drop pre p\<rparr>, True)"
  proof (rule prNext_v2)
    show "length (drop pre p) < 2 ^ 64" "pre < 2 ^ 64"
      using False assms(4) pre(2) by (auto simp: path_ok_def intro: le_less_trans [OF diff_le_self])
  qed (use False assms pre in \<open>simp_all add: path_entry_def Let_def pre_def [symmetric]\<close>)
  then show ?thesis using False assms(2,6) pre(3) by simp
qed

lemma prAll_entries:
  assumes "prver r = ver" "ver = 1 \<or> ver = 2" "prlimit r = int (length ps)"
    and "path_ok ver (prpath r)" "list_all (path_ok ver) ps" "ver = 2 \<longrightarrow> prpath r = lst"
    and "prdata r = path_entries ver g n lst ps @ rest"
  shows "prAll r = prpath r # ps"
  using assms
proof (induction ps arbitrary: r n lst)
  case Nil
  then show ?case by (simp add: prAll.simps [of r] prValid_def path_ok_def prNext_def)
next
  case (Cons p ps)
  have nx: "prNext r = (r\<lparr>prlimit := prlimit r - 1,
      prdata := path_entries ver g (if ver = 1 then n else Suc n) (if ver = 1 then lst else p) ps @ rest,
      prpath := p\<rparr>, True)"
    by (rule prNext_entry [where ver = ver and g = g and n = n and lst = lst])
      (use Cons.prems in simp_all)
  have "prAll (r\<lparr>prlimit := prlimit r - 1,
      prdata := path_entries ver g (if ver = 1 then n else Suc n) (if ver = 1 then lst else p) ps @ rest,
      prpath := p\<rparr>) = p # ps"
    by (subst Cons.IH [where n = "if ver = 1 then n else Suc n" and lst = "if ver = 1 then lst else p"])
      (use Cons.prems in auto)
  with nx Cons.prems(4) show ?case by (simp add: prAll.simps [of r] prValid_def path_ok_def)
qed

text \<open>
  C16. What a path writer (either version, any group size, with or without an index) appends for
  a list of paths, a path reader limited to their number gives back, in order, whatever follows
  the bytes in the file.
\<close>

theorem path_list_roundtrip:
  assumes "NewPathWriter data index ver grp = Inr w0"
    and "buf_inv data" "case index of None \<Rightarrow> True | Some ix \<Rightarrow> buf_inv ix"
    and "list_all (path_ok ver) ps"
    and "wv = 1 \<longrightarrow> length (path_entries ver grp 0 [] ps) < 2 ^ 32"
  shows "\<exists>w bs r. pathCollect wv ps w0 = Inr w \<and> contents (pdata w) = contents data @ bs \<and>
    NewPathReader ver (bs @ rest) (int (length ps)) = Inr r \<and> prAll r = ps"
proof -
  have v: "ver = 1 \<or> ver = 2" using assms(1) by (auto simp: NewPathWriter_def split: if_splits)
  have w0: "w0 = \<lparr>pdata = data, pindex = index, pver = ver, pgroup = grp,
      pstart = bufOffset data, pn = 0, plast = []\<rparr>"
    using assms(1) by (auto simp: NewPathWriter_def split: if_splits)
  have "pw_inv w0" using assms(2,3) by (auto simp: w0 pw_inv_def)
  from pathCollect_ok [OF this, of wv ps] v assms(5) obtain w where
    w: "pathCollect wv ps w0 = Inr w"
      "contents (pdata w) = contents data @ path_entries ver grp 0 [] ps"
    by (auto simp: w0)
  define bs where "bs = path_entries ver grp 0 [] ps"
  define r0 where "r0 = \<lparr>prver = ver, prdata = bs @ rest, prpath = [], prlimit = int (length ps)\<rparr>"
  have new: "NewPathReader ver (bs @ rest) (int (length ps)) = Inr (fst (prNext r0))"
    using v by (auto simp: NewPathReader_def r0_def)
  have "prAll (fst (prNext r0)) = ps"
  proof (cases ps)
    case Nil
    then show ?thesis by (simp add: r0_def prNext_def prAll.simps prValid_def)
  next
    case (Cons p qs)
    define n' where "n' = (if ver = 1 then 0 else Suc 0)"
    define l' where "l' = (if ver = 1 then [] else p)"
    have "prNext r0 = (r0\<lparr>prlimit := prlimit r0 - 1,
        prdata := path_entries ver grp n' l' qs @ rest, prpath := p\<rparr>, True)"
      by (rule prNext_entry [where ver = ver and g = grp and n = 0 and lst = "[]"])
        (use Cons v assms(4) in \<open>simp_all add: r0_def bs_def n'_def l'_def\<close>)
    moreover have "prAll (r0\<lparr>prlimit := prlimit r0 - 1,
        prdata := path_entries ver grp n' l' qs @ rest, prpath := p\<rparr>) = p # qs"
      by (subst prAll_entries [where ver = ver and g = grp and n = n' and lst = l' and ps = qs])
        (use Cons v assms(4) in \<open>simp_all add: r0_def l'_def\<close>)
    ultimately show ?thesis using Cons by simp
  qed
  with w new show ?thesis unfolding bs_def [symmetric] by blast
qed

theorem path_list_roundtrip_witness:
  "\<exists>w bs r. pathCollect 2 [bytes_of ''a/b'', bytes_of ''a/c''] \<lparr>pdata = bufCreate id, pindex = None,
      pver = 2, pgroup = 0, pstart = 0, pn = 0, plast = []\<rparr> = Inr w \<and>
    contents (pdata w) = bs \<and> NewPathReader 2 (bs @ [7]) 2 = Inr r \<and>
    prAll r = [bytes_of ''a/b'', bytes_of ''a/c'']"
  using path_list_roundtrip [of "bufCreate id" None 2 0 "\<lparr>pdata = bufCreate id, pindex = None,
      pver = 2, pgroup = 0, pstart = 0, pn = 0, plast = []\<rparr>" "[bytes_of ''a/b'', bytes_of ''a/c'']" 2 "[7]"]
  by (simp add: NewPathWriter_def path_ok_def bytes_of_def bufOffset_def bufCreate_def
      buf_inv_def contents_def)

end
