(* ===== verification/Bit_Lists.thy ===== *)
theory Bit_Lists
  imports Prelude
begin

text \<open>
  Bit lists: the low bits of a word, least significant first, and the bits of a byte list in
  the order in which the delta coder of \<open>internal/codesearch/index/delta.go\<close> writes them.
  \<open>pack_bits\<close> is the reference for that order: bits to bytes, the last byte padded with
  zeros.  \<open>Len64\<close> and \<open>TrailingZeros64\<close> are the functions of the standard library's
  \<open>math/bits\<close> the coder uses.
\<close>

unbundle bit_operations_syntax

section \<open>math/bits\<close>

definition Len64 :: "u64 \<Rightarrow> nat" where
  "Len64 x = 64 - length (takeWhile (\<lambda>i. \<not> bit x i) (rev [0..<64]))"

definition TrailingZeros64 :: "u64 \<Rightarrow> nat" where
  "TrailingZeros64 x = length (takeWhile (\<lambda>i. \<not> bit x i) [0..<64])"

lemma upt_split:
  assumes "k < n"
  shows "[0..<n] = [0..<k] @ k # [Suc k..<n]"
proof -
  have "[0..<n] = [0..<k] @ [k..<n]"
    using upt_add_eq_append [of 0 k "n - k"] assms by simp
  with assms show ?thesis by (simp add: upt_conv_Cons)
qed

lemma TrailingZeros64_eq:
  assumes "k < 64" "bit x k" "\<forall>i < k. \<not> bit x i"
  shows "TrailingZeros64 x = k"
proof -
  have "[0..<64] = [0..<k] @ k # [Suc k..<64]"
    using assms(1) by (rule upt_split)
  with assms show ?thesis by (simp add: TrailingZeros64_def takeWhile_append)
qed

lemma Len64_eq:
  assumes "k < 64" "bit x k" "\<forall>i. k < i \<longrightarrow> \<not> bit x i"
  shows "Len64 x = Suc k"
proof -
  have "[0..<64] = [0..<k] @ k # [Suc k..<64]"
    using assms(1) by (rule upt_split)
  then have "rev [0..<64] = rev [Suc k..<64] @ k # rev [0..<k]" by simp
  moreover have "takeWhile (\<lambda>i. \<not> bit x i) (rev [Suc k..<64] @ k # rev [0..<k]) = rev [Suc k..<64]"
    using assms by (subst takeWhile_append2) auto
  ultimately show ?thesis using assms(1) by (simp add: Len64_def)
qed

lemma top_bit_exists:
  fixes x :: u64
  assumes "x \<noteq> 0"
  obtains k where "k < 64" "bit x k" "\<forall>i. k < i \<longrightarrow> \<not> bit x i"
proof -
  have ne: "{i. bit x i} \<noteq> {}" using assms by (auto simp: bit_eq_iff)
  have sub: "{i. bit x i} \<subseteq> {..<64}"
  proof
    fix i assume "i \<in> {i. bit x i}"
    then have "i < LENGTH(64)" by (intro bit_imp_le_length) simp
    then show "i \<in> {..<64}" by simp
  qed
  then have fin: "finite {i. bit x i}" by (rule finite_subset) simp
  let ?k = "Max {i. bit x i}"
  have mem: "?k \<in> {i. bit x i}" using fin ne by (rule Max_in)
  from subsetD [OF sub mem] have lt: "?k < 64" by (simp only: lessThan_iff)
  have gt: "\<forall>i. ?k < i \<longrightarrow> \<not> bit x i"
    using fin Max_ge leD by blast
  from mem have "bit x ?k" by (simp only: mem_Collect_eq)
  then show ?thesis using lt gt that by blast
qed

section \<open>Bits of words and of byte lists\<close>

definition lsb_bits :: "nat \<Rightarrow> 'a::len word \<Rightarrow> bool list" where
  "lsb_bits n w = map (bit w) [0..<n]"

definition bytes_bits :: "byte list \<Rightarrow> bool list" where
  "bytes_bits bs = concat (map (lsb_bits 8) bs)"

fun pack_bits :: "bool list \<Rightarrow> byte list" where
  "pack_bits [] = []"
| "pack_bits (b # bs) =
     horner_sum of_bool 2 (take 8 (b # bs)) # pack_bits (drop 8 (b # bs))"

lemma length_lsb_bits [simp]: "length (lsb_bits n w) = n"
  by (simp add: lsb_bits_def)

lemma nth_lsb_bits [simp]: "i < n \<Longrightarrow> lsb_bits n w ! i = bit w i"
  by (simp add: lsb_bits_def)

lemma lsb_bits_0 [simp]: "lsb_bits 0 w = []"
  by (simp add: lsb_bits_def)

lemma bytes_bits_simps [simp]:
  "bytes_bits [] = []"
  "bytes_bits (b # bs) = lsb_bits 8 b @ bytes_bits bs"
  "bytes_bits (xs @ ys) = bytes_bits xs @ bytes_bits ys"
  by (simp_all add: bytes_bits_def)

lemma length_bytes_bits [simp]: "length (bytes_bits bs) = 8 * length bs"
  by (induction bs) simp_all

lemma lsb_bits_8_inj: "lsb_bits 8 a = lsb_bits 8 (b :: byte) \<Longrightarrow> a = b"
proof (rule bit_word_eqI)
  fix n assume "lsb_bits 8 a = lsb_bits 8 b" and "n < LENGTH(8)"
  then show "bit a n = bit b n"
    using nth_lsb_bits [of n 8 a] nth_lsb_bits [of n 8 b] by simp
qed

lemma bytes_bits_inj: "bytes_bits xs = bytes_bits ys \<Longrightarrow> xs = ys"
proof (induction xs arbitrary: ys)
  case Nil
  then show ?case by (cases ys) (auto simp: lsb_bits_def)
next
  case (Cons x xs)
  then obtain y ys' where ys: "ys = y # ys'"
    by (cases ys) (auto simp: lsb_bits_def)
  with Cons.prems have "lsb_bits 8 x = lsb_bits 8 y \<and> bytes_bits xs = bytes_bits ys'"
    by simp
  with ys show ?case using Cons.IH lsb_bits_8_inj by blast
qed

lemma lsb_bits_horner:
  assumes "length bs \<le> 8"
  shows "lsb_bits 8 (horner_sum of_bool 2 bs :: byte) = bs @ replicate (8 - length bs) False"
proof (rule nth_equalityI)
  fix i assume "i < length (lsb_bits 8 (horner_sum of_bool 2 bs :: byte))"
  then have i: "i < 8" by simp
  then show "lsb_bits 8 (horner_sum of_bool 2 bs :: byte) ! i = (bs @ replicate (8 - length bs) False) ! i"
    by (auto simp: bit_horner_sum_bit_word_iff nth_append)
qed (use assms in simp)

lemma bytes_bits_pack:
  "\<exists>p < 8. bytes_bits (pack_bits bs) = bs @ replicate p False"
proof (induction bs rule: pack_bits.induct)
  case 1
  show ?case by (auto intro: exI [of _ 0])
next
  case (2 b bs)
  let ?l = "b # bs"
  have hd8: "lsb_bits 8 (horner_sum of_bool 2 (take 8 ?l) :: byte) =
      take 8 ?l @ replicate (8 - length (take 8 ?l)) False"
    by (rule lsb_bits_horner) simp
  show ?case
  proof (cases "drop 8 ?l = []")
    case True
    then have "bytes_bits (pack_bits ?l) = ?l @ replicate (8 - length ?l) False"
      using hd8 by (simp del: take_Suc_Cons drop_Suc_Cons)
    moreover have "8 - length ?l < 8" by simp
    ultimately show ?thesis by blast
  next
    case False
    then have "8 - length (take 8 ?l) = 0" by simp
    with hd8 have "lsb_bits 8 (horner_sum of_bool 2 (take 8 ?l) :: byte) = take 8 ?l"
      by simp
    then have "bytes_bits (pack_bits ?l) = take 8 ?l @ bytes_bits (pack_bits (drop 8 ?l))"
      by (simp only: pack_bits.simps bytes_bits_simps)
    with 2 obtain p where "p < 8"
        "bytes_bits (pack_bits ?l) = take 8 ?l @ drop 8 ?l @ replicate p False" by metis
    then show ?thesis by (metis append_assoc append_take_drop_id)
  qed
qed

lemma pack_bits_unique:
  assumes "bytes_bits xs = bs @ replicate p False" "p < 8"
  shows "xs = pack_bits bs"
proof -
  obtain q where q: "q < 8" "bytes_bits (pack_bits bs) = bs @ replicate q False"
    using bytes_bits_pack by blast
  have "8 * length xs = length bs + p"
    using arg_cong [OF assms(1), of length] by simp
  moreover have "8 * length (pack_bits bs) = length bs + q"
    using arg_cong [OF q(2), of length] by simp
  moreover have "8 * a = c + p \<Longrightarrow> 8 * b = c + q \<Longrightarrow> p < 8 \<Longrightarrow> q < 8 \<Longrightarrow> p = q" for a b c :: nat
    by (cases a b rule: linorder_cases) simp_all
  ultimately have "p = q" using assms(2) q(1) by blast
  with assms(1) q(2) have "bytes_bits xs = bytes_bits (pack_bits bs)" by simp
  then show ?thesis by (rule bytes_bits_inj)
qed

text \<open>Words whose bits from \<open>n\<close> on are clear.\<close>

definition fits :: "nat \<Rightarrow> u64 \<Rightarrow> bool" where
  "fits n w \<longleftrightarrow> (\<forall>i \<ge> n. \<not> bit w i)"

lemma fits_0 [simp]: "fits n 0"
  by (simp add: fits_def)

lemma fits_0_iff [simp]: "fits 0 w \<longleftrightarrow> w = 0"
proof
  show "fits 0 w \<Longrightarrow> w = 0" by (rule bit_word_eqI) (simp add: fits_def)
qed simp

lemma fits_mono: "fits n w \<Longrightarrow> n \<le> m \<Longrightarrow> fits m w"
  by (simp add: fits_def)

lemma lsb_bits_zeros: "fits n w \<Longrightarrow> lsb_bits (n + k) w = lsb_bits n w @ replicate k False"
  by (rule nth_equalityI) (auto simp: fits_def nth_append)

lemma lsb_bits_or:
  assumes "fits n w" "n + k \<le> 64"
  shows "lsb_bits (n + k) (w OR push_bit n x) = lsb_bits n w @ lsb_bits k x"
  using assms by (intro nth_equalityI) (auto simp: fits_def nth_append bit_simps)

lemma fits_or: "fits n w \<Longrightarrow> fits k x \<Longrightarrow> fits (n + k) (w OR push_bit n x)"
  by (auto simp: fits_def bit_simps)

lemma lsb_bits_shift:
  "k \<le> n \<Longrightarrow> lsb_bits n w = lsb_bits k w @ lsb_bits (n - k) (drop_bit k w)"
  for w :: u64
  by (rule nth_equalityI) (auto simp: nth_append bit_simps)

lemma fits_drop: "fits n w \<Longrightarrow> fits (n - k) (drop_bit k w)"
  by (auto simp: fits_def bit_simps)

lemma lsb_bits_ucast: "lsb_bits 8 (ucast w :: byte) = lsb_bits 8 (w :: u64)"
  by (rule nth_equalityI) (auto simp: bit_simps)

lemma fits_byte: "fits 8 (ucast (c :: byte))"
proof -
  have "\<not> bit c i" if "8 \<le> i" for i
    using that bit_imp_le_length [of c i] by auto
  then show ?thesis by (auto simp: fits_def bit_simps)
qed

lemma lsb_bits_byte: "lsb_bits 8 (ucast (c :: byte) :: u64) = lsb_bits 8 c"
  by (rule nth_equalityI) (auto simp: bit_simps)

end
