(* ===== verification/Delta.thy ===== *)
theory Delta
  imports Buffer_IO Bit_Lists
begin

text \<open>
  The delta coder of \<open>internal/codesearch/index/delta.go\<close>: file numbers of a posting list
  are written as differences, in index version 1 as variable-length integers, in version 2
  in an Elias-gamma bit code in which 0, which the code cannot represent, takes the code of
  16 and every value from 16 on the code of its successor.

  The writer keeps up to 64 bits in \<open>wb\<close>, of which \<open>wnb\<close> are pending; the reader keeps the
  \<open>rnb\<close> unread bits of the last byte in \<open>rb\<close>.  Both work on 64-bit words as the code does.

  \<open>delta_stream\<close> is the contract the posting lists rely on, proved for both versions: a
  list of differences ended by 0, written and flushed, is read back by as many calls of
  \<open>next\<close>, after which \<open>clearBits\<close> leaves the reader at the first byte behind the list.
\<close>

unbundle bit_operations_syntax

section \<open>Reader\<close>

record deltaReader =
  rver :: nat
  rd :: "byte list"
  rb :: u64
  rnb :: nat

definition drInit :: "nat \<Rightarrow> byte list \<Rightarrow> deltaReader" where
  "drInit ver data = \<lparr>rver = ver, rd = data, rb = 0, rnb = 0\<rparr>"

definition clearBits :: "deltaReader \<Rightarrow> deltaReader" where
  "clearBits r = r\<lparr>rb := 0, rnb := 0\<rparr>"

definition deltaZeroEnc :: int where
  "deltaZeroEnc = 16"

text \<open>The first loop of \<open>next64\<close>: read bytes until a set bit is at hand, counting the zeros.\<close>

fun skip_zeros :: "nat \<Rightarrow> u64 \<Rightarrow> nat \<Rightarrow> byte list \<Rightarrow> (nat \<times> u64 \<times> nat \<times> byte list) res" where
  "skip_zeros lg b nb d =
     (if b \<noteq> 0 then Inr (lg, b, nb, d)
      else case d of
        [] \<Rightarrow> Inl Corrupt
      | c # d' \<Rightarrow> if lg + nb > 65 then Inl Corrupt else skip_zeros (lg + nb) (ucast c) 8 d')"

text \<open>The second loop: collect low bits while the current byte holds too few of them.\<close>

fun take_bits :: "u64 \<Rightarrow> nat \<Rightarrow> nat \<Rightarrow> u64 \<Rightarrow> nat \<Rightarrow> byte list
    \<Rightarrow> (u64 \<times> nat \<times> nat \<times> u64 \<times> nat \<times> byte list) res" where
  "take_bits x k lg b nb d =
     (if nb < lg
      then case d of
        [] \<Rightarrow> Inl Corrupt
      | c # d' \<Rightarrow> if k + nb > 64 then Inl Corrupt
                 else take_bits (x OR push_bit k b) (k + nb) (lg - nb) (ucast c) 8 d'
      else Inr (x, k, lg, b, nb, d))"

declare skip_zeros.simps [simp del] take_bits.simps [simp del]

definition next64 :: "deltaReader \<Rightarrow> (int \<times> deltaReader) res" where
  "next64 r =
     rbind (skip_zeros 0 (rb r) (rnb r) (rd r)) (\<lambda>(lg, b, nb, d).
       let t = TrailingZeros64 b; lg1 = lg + t
       in rbind (take_bits (push_bit lg1 1) 0 lg1 (drop_bit (t + 1) b) (nb - (t + 1)) d)
            (\<lambda>(x, k, lg2, b2, nb2, d2).
               Inr (sint (x OR push_bit k (b2 AND mask lg2)),
                    r\<lparr>rd := d2, rb := drop_bit lg2 b2, rnb := nb2 - lg2\<rparr>)))"

text \<open>In version 1 the slice \<open>r.d[n:]\<close> is taken before the result code \<open>n\<close> is looked at,
  so an overlong number is a slice-bounds error and only a truncated one is \<open>corrupt\<close>.\<close>

definition drNext :: "deltaReader \<Rightarrow> (int \<times> deltaReader) res" where
  "drNext r =
     (if rver r = 2
      then rbind (next64 r) (\<lambda>(i, r').
             Inr (if i = deltaZeroEnc then 0 else if i > deltaZeroEnc then i - 1 else i, r'))
      else (case uvarint_dec (rd r) of (v, n) \<Rightarrow>
             if n < 0 then Inl Range
             else if n = 0 then Inl Corrupt
             else Inr (sint (of_nat v :: u64), r\<lparr>rd := drop (nat n) (rd r)\<rparr>)))"

section \<open>Writer\<close>

record deltaWriter =
  wout :: buffer
  wb :: u64
  wnb :: nat

definition dwInit :: "buffer \<Rightarrow> deltaWriter" where
  "dwInit out = \<lparr>wout = out, wb = 0, wnb = 0\<rparr>"

function flushBits :: "deltaWriter \<Rightarrow> deltaWriter" where
  "flushBits w =
     (if 8 \<le> wnb w
      then flushBits (w\<lparr>wout := bufWriteByte (ucast (wb w)) (wout w),
                        wb := drop_bit 8 (wb w), wnb := wnb w - 8\<rparr>)
      else w)"
  by pat_completeness auto
termination by (relation "measure wnb") auto

declare flushBits.simps [simp del]

definition writeBits :: "u64 \<Rightarrow> deltaWriter \<Rightarrow> deltaWriter res" where
  "writeBits x0 w0 =
     (if sint x0 \<le> 0 then Inl Panic
      else let lg = Len64 x0 - 1;
               x = x0 AND mask lg;
               w1 = w0\<lparr>wnb := wnb w0 + lg\<rparr>;
               w2 = (if wnb w1 \<ge> 8 then flushBits w1 else w1);
               w3 = w2\<lparr>wb := wb w2 OR push_bit (wnb w2) 1, wnb := wnb w2 + 1\<rparr>;
               (x, lg, w4) =
                 (if lg > 32
                  then (drop_bit 32 x, lg - 32,
                        flushBits (w3\<lparr>wb := wb w3 OR push_bit (wnb w3) (take_bit 32 x),
                                      wnb := wnb w3 + 32\<rparr>))
                  else (x, lg, w3));
               w5 = w4\<lparr>wb := wb w4 OR push_bit (wnb w4) x, wnb := wnb w4 + lg\<rparr>
           in Inr (if wnb w5 \<ge> 8 then flushBits w5 else w5))"

definition dwWrite :: "nat \<Rightarrow> int \<Rightarrow> deltaWriter \<Rightarrow> deltaWriter res" where
  "dwWrite wv x w =
     (if wv = 2
      then writeBits (of_int (if x = 0 then deltaZeroEnc
                              else if x \<ge> deltaZeroEnc then x + 1 else x)) w
      else Inr (w\<lparr>wout := bufWrite (uvarint_enc (unat (of_int x :: u64))) (wout w)\<rparr>))"

definition dwFlush :: "deltaWriter \<Rightarrow> deltaWriter" where
  "dwFlush w =
     (let w1 = flushBits w;
          w2 = (if wnb w1 > 0 then w1\<lparr>wout := bufWriteByte (ucast (wb w1)) (wout w1)\<rparr> else w1)
      in w2\<lparr>wb := 0, wnb := 0\<rparr>)"

section \<open>The gamma code\<close>

text \<open>The bits of a positive word in the code: as many zeros as it has bits below its
  highest one, that one, and the bits below it.\<close>

definition gamma_bits :: "u64 \<Rightarrow> bool list" where
  "gamma_bits x = (let lg = Len64 x - 1 in replicate lg False @ True # lsb_bits lg x)"

definition zero_code :: "nat \<Rightarrow> nat" where
  "zero_code n = (if n = 0 then 16 else if n \<ge> 16 then n + 1 else n)"

definition delta_bits :: "nat \<Rightarrow> bool list" where
  "delta_bits n = gamma_bits (of_nat (zero_code n))"

subsection \<open>Writing\<close>

definition dw_inv :: "deltaWriter \<Rightarrow> bool" where
  "dw_inv w \<longleftrightarrow> buf_inv (wout w) \<and> fits (wnb w) (wb w)"

definition dw_bits :: "deltaWriter \<Rightarrow> bool list" where
  "dw_bits w = bytes_bits (contents (wout w)) @ lsb_bits (wnb w) (wb w)"

lemma flushBits_ok:
  "dw_inv w \<Longrightarrow> dw_inv (flushBits w) \<and> dw_bits (flushBits w) = dw_bits w \<and> wnb (flushBits w) < 8"
proof (induction w rule: flushBits.induct)
  case (1 w)
  show ?case
  proof (cases "8 \<le> wnb w")
    case True
    let ?w = "w\<lparr>wout := bufWriteByte (ucast (wb w)) (wout w), wb := drop_bit 8 (wb w), wnb := wnb w - 8\<rparr>"
    have "dw_inv ?w" using 1(2) True by (simp add: dw_inv_def buf_ok fits_drop)
    moreover have "dw_bits ?w = dw_bits w"
      using 1(2) True lsb_bits_shift [OF True, of "wb w"]
      by (simp add: dw_bits_def dw_inv_def buf_ok lsb_bits_ucast)
    ultimately show ?thesis using 1(1) [OF True] True by (simp add: flushBits.simps [of w])
  next
    case False
    then show ?thesis using 1 by (simp add: flushBits.simps [of w])
  qed
qed

lemma flush_if_ok:
  assumes "dw_inv w" and "w' = (if 8 \<le> wnb w then flushBits w else w)"
  shows "dw_inv w'" "dw_bits w' = dw_bits w" "wnb w' < 8"
  using flushBits_ok [OF assms(1)] assms by (auto split: if_splits)

lemma dw_append_bits:
  assumes "dw_inv w" "wnb w + k \<le> 64" "fits k x"
    and "w' = w\<lparr>wb := wb w OR push_bit (wnb w) x, wnb := wnb w + k\<rparr>"
  shows "dw_inv w'" "dw_bits w' = dw_bits w @ lsb_bits k x"
  using assms by (simp_all add: dw_inv_def dw_bits_def fits_or lsb_bits_or)

lemma dw_append_zeros:
  assumes "dw_inv w" "w' = w\<lparr>wnb := wnb w + k\<rparr>"
  shows "dw_inv w'" "dw_bits w' = dw_bits w @ replicate k False"
  using assms by (auto simp: dw_inv_def dw_bits_def lsb_bits_zeros elim: fits_mono)

lemma positive_top_bit:
  assumes "0 < sint (x :: u64)"
  obtains k where "k < 63" "bit x k" "\<forall>i. k < i \<longrightarrow> \<not> bit x i" "Len64 x = Suc k"
proof -
  have "x \<noteq> 0" using assms by auto
  then obtain k where k: "k < 64" "bit x k" "\<forall>i. k < i \<longrightarrow> \<not> bit x i"
    by (rule top_bit_exists)
  have "\<not> bit x 63"
    using assms bit_last_iff [of x] by simp
  with k have "k < 63" by (cases "k = 63") auto
  with k Len64_eq [OF k] that show ?thesis by blast
qed

lemma bit_u64_bound: "bit (x :: u64) i \<Longrightarrow> i < 64"
  using bit_imp_le_length [of x i] by simp

lemma lsb_bits_mask: "lsb_bits k (x AND mask k) = lsb_bits k (x :: u64)"
  by (rule nth_equalityI) (auto simp: bit_simps dest: bit_u64_bound)

lemma lsb_bits_take: "lsb_bits k (take_bit k x) = lsb_bits k (x :: u64)"
  by (simp add: take_bit_eq_mask lsb_bits_mask)

lemma fits_mask: "fits k (x AND mask k)" "fits k (take_bit k x)"
  by (simp_all add: fits_def bit_simps)

lemma lsb_bits_one: "lsb_bits (Suc 0) (1 :: u64) = [True]"
  by (simp add: lsb_bits_def)

lemma fits_one: "fits (Suc 0) (1 :: u64)"
  by (auto simp: fits_def bit_1_iff)

lemma writeBits_ok:
  assumes "dw_inv w" "wnb w < 8" "0 < sint x"
  shows "\<exists>w'. writeBits x w = Inr w' \<and> dw_inv w' \<and> wnb w' < 8 \<and>
           dw_bits w' = dw_bits w @ gamma_bits x"
proof -
  obtain lg where lg: "lg < 63" "Len64 x = Suc lg"
    using positive_top_bit [OF assms(3)] by metis
  define y where "y = x AND mask lg"
  define w1 where "w1 = w\<lparr>wnb := wnb w + lg\<rparr>"
  define w2 where "w2 = (if 8 \<le> wnb w1 then flushBits w1 else w1)"
  define w3 where "w3 = w2\<lparr>wb := wb w2 OR push_bit (wnb w2) 1, wnb := wnb w2 + Suc 0\<rparr>"
  have y: "fits lg y" "lsb_bits lg y = lsb_bits lg x"
    by (simp_all add: y_def fits_mask lsb_bits_mask)
  note a1 = dw_append_zeros [OF assms(1) w1_def]
  note a2 = flush_if_ok [OF a1(1) w2_def]
  have "wnb w2 + Suc 0 \<le> 64" using a2(3) by simp
  note a3 = dw_append_bits [OF a2(1) this fits_one w3_def]
  have n3: "wnb w3 \<le> 8" using a2(3) by (simp add: w3_def)
  have b3: "dw_bits w3 = dw_bits w @ replicate lg False @ [True]"
    using a1(2) a2(2) a3(2) by (simp add: lsb_bits_one)
  show ?thesis
  proof (cases "32 < lg")
    case True
    define w4 where "w4 = w3\<lparr>wb := wb w3 OR push_bit (wnb w3) (take_bit 32 y), wnb := wnb w3 + 32\<rparr>"
    define w5 where "w5 = flushBits w4"
    define w6 where "w6 = w5\<lparr>wb := wb w5 OR push_bit (wnb w5) (drop_bit 32 y), wnb := wnb w5 + (lg - 32)\<rparr>"
    define w7 where "w7 = (if 8 \<le> wnb w6 then flushBits w6 else w6)"
    have "wnb w3 + 32 \<le> 64" using n3 by simp
    note a4 = dw_append_bits [OF a3(1) this fits_mask(2) w4_def]
    have a5: "dw_inv w5" "dw_bits w5 = dw_bits w4" "wnb w5 < 8"
      using flushBits_ok [OF a4(1)] by (simp_all add: w5_def)
    have "wnb w5 + (lg - 32) \<le> 64" using a5(3) lg(1) by simp
    note a6 = dw_append_bits [OF a5(1) this fits_drop [OF y(1)] w6_def]
    note a7 = flush_if_ok [OF a6(1) w7_def]
    have "writeBits x w = Inr w7"
      using assms(3) True lg(2)
      by (simp add: writeBits_def Let_def w7_def w6_def w5_def w4_def w3_def w2_def w1_def y_def)
    moreover have "lsb_bits 32 (take_bit 32 y) @ lsb_bits (lg - 32) (drop_bit 32 y) = lsb_bits lg x"
      using lsb_bits_shift [of 32 lg y] True y(2) by (simp add: lsb_bits_take)
    then have "dw_bits w7 = dw_bits w @ gamma_bits x"
      using a7(2) a6(2) a5(2) a4(2) b3 lg(2) by (simp add: gamma_bits_def)
    ultimately show ?thesis using a7 by blast
  next
    case False
    define w6 where "w6 = w3\<lparr>wb := wb w3 OR push_bit (wnb w3) y, wnb := wnb w3 + lg\<rparr>"
    define w7 where "w7 = (if 8 \<le> wnb w6 then flushBits w6 else w6)"
    have "wnb w3 + lg \<le> 64" using n3 False by simp
    note a6 = dw_append_bits [OF a3(1) this y(1) w6_def]
    note a7 = flush_if_ok [OF a6(1) w7_def]
    have "writeBits x w = Inr w7"
      using assms(3) False lg(2)
      by (simp add: writeBits_def Let_def w7_def w6_def w3_def w2_def w1_def y_def)
    moreover have "dw_bits w7 = dw_bits w @ gamma_bits x"
      using a7(2) a6(2) b3 y(2) lg(2) by (simp add: gamma_bits_def)
    ultimately show ?thesis using a7 by blast
  qed
qed

lemma dwFlush_ok:
  assumes "dw_inv w"
  shows "buf_inv (wout (dwFlush w)) \<and> dw_inv (dwFlush w) \<and> wnb (dwFlush w) = 0 \<and> wb (dwFlush w) = 0 \<and>
    contents (wout (dwFlush w)) = pack_bits (dw_bits w)"
proof -
  define w1 where "w1 = flushBits w"
  have w1: "dw_inv w1" "dw_bits w1 = dw_bits w" "wnb w1 < 8"
    using flushBits_ok [OF assms] by (simp_all add: w1_def)
  show ?thesis
  proof (cases "wnb w1 > 0")
    case True
    have "lsb_bits 8 (wb w1) = lsb_bits (wnb w1) (wb w1) @ replicate (8 - wnb w1) False"
      using lsb_bits_zeros [of "wnb w1" "wb w1" "8 - wnb w1"] w1(1,3) by (simp add: dw_inv_def)
    then have "bytes_bits (contents (bufWriteByte (ucast (wb w1)) (wout w1))) =
        dw_bits w @ replicate (8 - wnb w1) False"
      using w1(1) w1(2) [symmetric] by (simp add: dw_inv_def dw_bits_def buf_ok lsb_bits_ucast)
    then have "contents (bufWriteByte (ucast (wb w1)) (wout w1)) = pack_bits (dw_bits w)"
      by (rule pack_bits_unique) (use True in simp)
    with True w1(1) show ?thesis
      by (simp add: dwFlush_def Let_def dw_inv_def buf_ok flip: w1_def)
  next
    case False
    then have "bytes_bits (contents (wout w1)) = dw_bits w @ replicate 0 False"
      using w1(2) [symmetric] by (simp add: dw_bits_def)
    then have "contents (wout w1) = pack_bits (dw_bits w)"
      by (rule pack_bits_unique) simp
    with False w1(1) show ?thesis
      by (simp add: dwFlush_def Let_def dw_inv_def flip: w1_def)
  qed
qed

subsection \<open>Reading\<close>

lemma lsb_bits_zero_word: "lsb_bits n 0 = replicate n False"
  by (rule nth_equalityI) simp_all

lemma replicate_prefix_split:
  assumes "replicate n False @ xs = replicate z False @ True # rest"
  shows "n \<le> z \<and> xs = replicate (z - n) False @ True # rest"
proof -
  have "n \<le> z"
  proof (rule ccontr)
    assume "\<not> n \<le> z"
    then have "(replicate n False @ xs) ! z = False" by (simp add: nth_append)
    with assms show False by (simp add: nth_append)
  qed
  moreover from this have "replicate z False = replicate n False @ replicate (z - n) False"
    by (simp flip: replicate_add)
  ultimately show ?thesis using assms by simp
qed

lemma skip_zeros_ok:
  assumes "fits nb b" "lsb_bits nb b @ bytes_bits d = replicate z False @ True # rest"
    "lg + z \<le> 65" "nb \<le> 8"
  shows "\<exists>lg' b' nb' d' z'. skip_zeros lg b nb d = Inr (lg', b', nb', d') \<and> b' \<noteq> 0 \<and> fits nb' b' \<and>
    nb' \<le> 8 \<and> lg' + z' = lg + z \<and>
    lsb_bits nb' b' @ bytes_bits d' = replicate z' False @ True # rest"
  using assms
proof (induction d arbitrary: lg b nb z)
  case Nil
  show ?case
  proof (cases "b = 0")
    case True
    with Nil.prems(2) have "replicate nb False @ [] = replicate z False @ True # rest"
      by (simp add: lsb_bits_zero_word)
    from replicate_prefix_split [OF this] show ?thesis by simp
  next
    case False
    with Nil.prems show ?thesis
      by (intro exI [of _ lg] exI [of _ b] exI [of _ nb] exI [of _ "[]"] exI [of _ z])
        (simp add: skip_zeros.simps)
  qed
next
  case (Cons c d)
  show ?case
  proof (cases "b = 0")
    case True
    with Cons.prems(2) have "replicate nb False @ bytes_bits (c # d) = replicate z False @ True # rest"
      by (simp add: lsb_bits_zero_word)
    from replicate_prefix_split [OF this]
    have z: "nb \<le> z" "bytes_bits (c # d) = replicate (z - nb) False @ True # rest" by auto
    then have "lsb_bits 8 (ucast c :: u64) @ bytes_bits d = replicate (z - nb) False @ True # rest"
      by (simp add: lsb_bits_byte)
    from Cons.IH [OF fits_byte this, of "lg + nb"] z(1) Cons.prems(3)
    obtain lg' b' nb' d' z' where
      "skip_zeros (lg + nb) (ucast c) 8 d = Inr (lg', b', nb', d')" "b' \<noteq> 0" "fits nb' b'"
      "nb' \<le> 8" "lg' + z' = lg + z" "lsb_bits nb' b' @ bytes_bits d' = replicate z' False @ True # rest"
      by auto
    moreover have "skip_zeros lg b nb (c # d) = skip_zeros (lg + nb) (ucast c) 8 d"
      using True z(1) Cons.prems(3) by (simp add: skip_zeros.simps [of lg 0 nb "c # d"])
    ultimately show ?thesis by metis
  next
    case False
    with Cons.prems show ?thesis
      by (intro exI [of _ lg] exI [of _ b] exI [of _ nb] exI [of _ "c # d"] exI [of _ z])
        (simp add: skip_zeros.simps)
  qed
qed

lemma fits_nonzero_bit:
  assumes "fits nb b" "b \<noteq> 0"
  obtains i where "i < nb" "bit b i"
proof -
  obtain i where "bit b i" using assms(2) by (metis fits_0_iff fits_def)
  moreover from this assms(1) have "i < nb" by (auto simp: fits_def not_le intro: ccontr)
  ultimately show ?thesis by (rule that [rotated])
qed

lemma trailing_zeros_ok:
  assumes "fits nb b" "b \<noteq> 0" "nb \<le> 8"
    and bits: "lsb_bits nb b @ ds = replicate z False @ True # rest"
  shows "TrailingZeros64 b = z \<and> z < nb \<and>
    lsb_bits (nb - (z + 1)) (drop_bit (z + 1) b) @ ds = rest"
proof -
  obtain i where i: "i < nb" "bit b i" using assms(1,2) by (rule fits_nonzero_bit)
  have nth: "(lsb_bits nb b @ ds) ! j = bit b j" if "j < nb" for j
    using that by (simp add: nth_append)
  have "z < nb"
  proof (rule ccontr)
    assume "\<not> z < nb"
    then have "(replicate z False @ True # rest) ! i = False" using i(1) by (simp add: nth_append)
    with nth [OF i(1)] bits i(2) show False by simp
  qed
  moreover have "bit b z"
    using nth [OF \<open>z < nb\<close>] bits by (simp add: nth_append)
  moreover have "\<forall>j < z. \<not> bit b j"
  proof (intro allI impI)
    fix j assume "j < z"
    then show "\<not> bit b j" using nth [of j] bits \<open>z < nb\<close> by (simp add: nth_append)
  qed
  ultimately have "TrailingZeros64 b = z"
    using assms(3) by (intro TrailingZeros64_eq) auto
  moreover have "lsb_bits nb b = lsb_bits (z + 1) b @ lsb_bits (nb - (z + 1)) (drop_bit (z + 1) b)"
    using \<open>z < nb\<close> by (intro lsb_bits_shift) simp
  with bits have "lsb_bits (z + 1) b @ (lsb_bits (nb - (z + 1)) (drop_bit (z + 1) b) @ ds) =
      (replicate z False @ [True]) @ rest" by simp
  then have "lsb_bits (nb - (z + 1)) (drop_bit (z + 1) b) @ ds = rest"
    by (subst (asm) append_eq_append_conv) simp_all
  ultimately show ?thesis using \<open>z < nb\<close> by blast
qed

lemma horner_append_bits:
  "(horner_sum of_bool 2 (xs @ ys) :: u64) =
   horner_sum of_bool 2 xs OR push_bit (length xs) (horner_sum of_bool 2 ys)"
  by (rule bit_word_eqI) (auto simp: bit_horner_sum_bit_word_iff bit_simps nth_append)

lemma horner_lsb_bits: "horner_sum of_bool 2 (lsb_bits k (x :: u64)) = take_bit k x"
  by (rule bit_word_eqI) (auto simp: bit_horner_sum_bit_word_iff bit_simps)

lemma fits_take: "fits k b \<Longrightarrow> take_bit k b = b"
  by (rule bit_word_eqI) (auto simp: fits_def bit_simps not_le intro: ccontr)

lemma take_bits_stop:
  assumes "lg \<le> nb" "fits nb b" "lsb_bits nb b @ bytes_bits d = ys @ rest" "length ys = lg"
    "nb - lg < 8"
  shows "\<exists>x' k' lg' b' nb' d'. take_bits x k lg b nb d = Inr (x', k', lg', b', nb', d') \<and>
     fits nb' b' \<and> lg' \<le> nb' \<and> nb' - lg' < 8 \<and>
     x' OR push_bit k' (b' AND mask lg') = x OR push_bit k (horner_sum of_bool 2 ys) \<and>
     lsb_bits (nb' - lg') (drop_bit lg' b') @ bytes_bits d' = rest"
proof -
  from lsb_bits_shift [OF assms(1), of b] assms(3,4)
  have bits: "lsb_bits lg b = ys" "lsb_bits (nb - lg) (drop_bit lg b) @ bytes_bits d = rest"
    by (auto simp: append_eq_append_conv)
  from this(1) have "horner_sum of_bool 2 ys = b AND mask lg"
    using horner_lsb_bits [of lg b] by (simp add: take_bit_eq_mask)
  moreover have "take_bits x k lg b nb d = Inr (x, k, lg, b, nb, d)"
    using assms(1) by (simp add: take_bits.simps [of x k lg b nb d])
  ultimately show ?thesis using bits(2) assms(1,2,5) by metis
qed

lemma take_bits_ok:
  assumes "fits nb b" "lsb_bits nb b @ bytes_bits d = ys @ rest" "length ys = lg"
    "k + lg \<le> 64" "nb < 8 \<or> nb \<le> 8 \<and> 0 < lg"
  shows "\<exists>x' k' lg' b' nb' d'. take_bits x k lg b nb d = Inr (x', k', lg', b', nb', d') \<and>
     fits nb' b' \<and> lg' \<le> nb' \<and> nb' - lg' < 8 \<and>
     x' OR push_bit k' (b' AND mask lg') = x OR push_bit k (horner_sum of_bool 2 ys) \<and>
     lsb_bits (nb' - lg') (drop_bit lg' b') @ bytes_bits d' = rest"
  using assms
proof (induction d arbitrary: x k lg b nb ys)
  case Nil
  have "lg \<le> nb" using arg_cong [OF Nil.prems(2), of length] Nil.prems(3) by simp
  moreover from this have "nb - lg < 8" using Nil.prems(5) by arith
  ultimately show ?case using Nil.prems by (intro take_bits_stop) simp_all
next
  case (Cons c d)
  show ?case
  proof (cases "nb < lg")
    case True
    define ys1 where "ys1 = take nb ys"
    define ys2 where "ys2 = drop nb ys"
    have ys: "ys = ys1 @ ys2" "length ys1 = nb" "length ys2 = lg - nb"
      using True Cons.prems(3) by (simp_all add: ys1_def ys2_def)
    with Cons.prems(2) have sp: "lsb_bits nb b = ys1" "bytes_bits (c # d) = ys2 @ rest"
      by (auto simp: append_eq_append_conv)
    then have "lsb_bits 8 (ucast c :: u64) @ bytes_bits d = ys2 @ rest"
      by (simp add: lsb_bits_byte)
    from Cons.IH [OF fits_byte this ys(3), of "k + nb" "x OR push_bit k b"] True Cons.prems(4)
    obtain x' k' lg' b' nb' d' where ih:
      "take_bits (x OR push_bit k b) (k + nb) (lg - nb) (ucast c) 8 d = Inr (x', k', lg', b', nb', d')"
      "fits nb' b'" "lg' \<le> nb'" "nb' - lg' < 8"
      "x' OR push_bit k' (b' AND mask lg') =
         (x OR push_bit k b) OR push_bit (k + nb) (horner_sum of_bool 2 ys2)"
      "lsb_bits (nb' - lg') (drop_bit lg' b') @ bytes_bits d' = rest"
      by auto
    have "horner_sum of_bool 2 ys1 = b"
      using sp(1) horner_lsb_bits [of nb b] fits_take [OF Cons.prems(1)] by simp
    then have "horner_sum of_bool 2 ys = b OR push_bit nb (horner_sum of_bool 2 ys2)"
      using horner_append_bits [of ys1 ys2] ys by simp
    then have "x OR push_bit k (horner_sum of_bool 2 ys) =
        (x OR push_bit k b) OR push_bit (k + nb) (horner_sum of_bool 2 ys2)"
      by (simp add: push_bit_or or.assoc)
    moreover have "take_bits x k lg b nb (c # d) =
        take_bits (x OR push_bit k b) (k + nb) (lg - nb) (ucast c) 8 d"
      using True Cons.prems(4) by (simp add: take_bits.simps [of x k lg b nb])
    ultimately show ?thesis using ih by metis
  next
    case False
    then have "lg \<le> nb" "nb - lg < 8" using Cons.prems(5) by arith+
    then show ?thesis using Cons.prems by (intro take_bits_stop) simp_all
  qed
qed

definition dr_inv :: "deltaReader \<Rightarrow> bool" where
  "dr_inv r \<longleftrightarrow> fits (rnb r) (rb r) \<and> rnb r < 8"

definition dr_bits :: "deltaReader \<Rightarrow> bool list" where
  "dr_bits r = lsb_bits (rnb r) (rb r) @ bytes_bits (rd r)"

lemma next64_ok:
  assumes inv: "dr_inv r" and pos: "0 < sint x" and bits: "dr_bits r = gamma_bits x @ rest"
  shows "\<exists>r'. next64 r = Inr (sint x, r') \<and> dr_inv r' \<and> dr_bits r' = rest \<and> rver r' = rver r"
proof -
  obtain lg where lg: "lg < 63" "bit x lg" "\<forall>i. lg < i \<longrightarrow> \<not> bit x i" "Len64 x = Suc lg"
    using positive_top_bit [OF pos] by metis
  let ?low = "lsb_bits lg x @ rest"
  have "lsb_bits (rnb r) (rb r) @ bytes_bits (rd r) = replicate lg False @ True # ?low"
    using bits lg(4) by (simp add: dr_bits_def gamma_bits_def)
  from skip_zeros_ok [OF _ this, of 0] inv lg(1)
  obtain lg' b' nb' d' z' where s:
    "skip_zeros 0 (rb r) (rnb r) (rd r) = Inr (lg', b', nb', d')" "b' \<noteq> 0" "fits nb' b'" "nb' \<le> 8"
    "lg' + z' = lg" "lsb_bits nb' b' @ bytes_bits d' = replicate z' False @ True # ?low"
    by (auto simp: dr_inv_def)
  note t = trailing_zeros_ok [OF s(3,2,4,6)]
  let ?b = "drop_bit (z' + 1) b'" and ?nb = "nb' - (z' + 1)"
  have "fits ?nb ?b" using s(3) by (rule fits_drop)
  moreover have "?nb < 8" using s(4) t by linarith
  ultimately obtain x' k' lg2 b2 nb2 d2 where u:
    "take_bits (push_bit lg 1) 0 lg ?b ?nb d' = Inr (x', k', lg2, b2, nb2, d2)"
    "fits nb2 b2" "lg2 \<le> nb2" "nb2 - lg2 < 8"
    "x' OR push_bit k' (b2 AND mask lg2) = push_bit lg 1 OR push_bit 0 (horner_sum of_bool 2 (lsb_bits lg x))"
    "lsb_bits (nb2 - lg2) (drop_bit lg2 b2) @ bytes_bits d2 = rest"
    using take_bits_ok [of ?nb ?b d' "lsb_bits lg x" rest lg 0 "push_bit lg 1"] t lg(1) by auto
  have "push_bit lg 1 OR take_bit lg x = x"
  proof (rule bit_word_eqI)
    fix i assume "i < LENGTH(64)"
    then show "bit (push_bit lg 1 OR take_bit lg x) i = bit x i"
      using lg(2,3) by (cases i lg rule: linorder_cases) (auto simp: bit_simps)
  qed
  with u(5) have val: "x' OR push_bit k' (b2 AND mask lg2) = x"
    by (simp add: horner_lsb_bits)
  let ?r = "r\<lparr>rd := d2, rb := drop_bit lg2 b2, rnb := nb2 - lg2\<rparr>"
  have "next64 r = Inr (sint x, ?r)"
    using s(1,5) t u(1) val by (simp add: next64_def Let_def)
  moreover have "dr_inv ?r" using u(2,4) by (simp add: dr_inv_def fits_drop)
  moreover have "dr_bits ?r = rest" using u(6) by (simp add: dr_bits_def)
  ultimately show ?thesis by (intro exI [of _ ?r]) simp
qed

section \<open>The contract of a delta stream\<close>

text \<open>\<open>pending r ds rest\<close>: the reader will deliver \<open>ds\<close>, and the bytes behind them are \<open>rest\<close>.\<close>

definition delta_enc :: "nat \<Rightarrow> nat list \<Rightarrow> byte list" where
  "delta_enc wv ds =
     (if wv = 2 then pack_bits (concat (map delta_bits ds)) else concat (map uvarint_enc ds))"

definition pending :: "nat \<Rightarrow> deltaReader \<Rightarrow> nat list \<Rightarrow> byte list \<Rightarrow> bool" where
  "pending ver r ds rest \<longleftrightarrow> rver r = ver \<and> (\<forall>d \<in> set ds. d < 2 ^ 62) \<and>
     (if ver = 2
      then dr_inv r \<and> (\<exists>p < 8. dr_bits r = concat (map delta_bits ds) @ replicate p False @ bytes_bits rest)
      else rd r = concat (map uvarint_enc ds) @ rest \<and> rb r = 0 \<and> rnb r = 0)"

primrec read_n :: "('r \<Rightarrow> (int \<times> 'r) res) \<Rightarrow> nat \<Rightarrow> 'r \<Rightarrow> (int list \<times> 'r) res" where
  "read_n nxt 0 r = Inr ([], r)"
| "read_n nxt (Suc n) r =
     rbind (nxt r) (\<lambda>(d, r1). rbind (read_n nxt n r1) (\<lambda>(ds, r2). Inr (d # ds, r2)))"

locale delta_stream =
  fixes enc :: "nat list \<Rightarrow> byte list"
    and init :: "byte list \<Rightarrow> 'r"
    and pend :: "'r \<Rightarrow> nat list \<Rightarrow> byte list \<Rightarrow> bool"
    and nxt :: "'r \<Rightarrow> (int \<times> 'r) res"
    and data :: "'r \<Rightarrow> byte list"
    and clear :: "'r \<Rightarrow> 'r"
  assumes pend_init: "\<forall>d \<in> set ds. d < 2 ^ 62 \<Longrightarrow> pend (init (enc ds @ rest)) ds rest"
    and pend_next: "pend r (d # ds) rest \<Longrightarrow> \<exists>r'. nxt r = Inr (int d, r') \<and> pend r' ds rest"
    and pend_clear: "pend r [] rest \<Longrightarrow> clear r = init rest"
    and data_init: "data (init bs) = bs"
begin

text \<open>Calling \<open>nxt\<close> as often as there are differences returns exactly them.\<close>

lemma read_n_pend:
  "pend r (ds @ es) rest \<Longrightarrow>
   \<exists>r'. read_n nxt (length ds) r = Inr (map int ds, r') \<and> pend r' es rest"
proof (induction ds arbitrary: r)
  case (Cons d ds)
  then obtain r1 where r1: "nxt r = Inr (int d, r1)" "pend r1 (ds @ es) rest"
    using pend_next [of r d "ds @ es" rest] by auto
  with Cons.IH [OF r1(2)] show ?case by auto
qed simp

lemma read_list:
  assumes "\<forall>d \<in> set ds. d < 2 ^ 62"
  shows "\<exists>r'. read_n nxt (length ds) (init (enc ds @ rest)) = Inr (map int ds, r') \<and>
           data (clear r') = rest"
proof -
  have "pend (init (enc ds @ rest)) (ds @ []) rest" using pend_init [OF assms] by simp
  from read_n_pend [OF this] obtain r' where
    r': "read_n nxt (length ds) (init (enc ds @ rest)) = Inr (map int ds, r')" "pend r' [] rest" by blast
  with pend_clear [OF r'(2)] show ?thesis by (auto simp: data_init)
qed

end

lemma sint_of_int_small: "0 \<le> k \<Longrightarrow> k < 2 ^ 63 \<Longrightarrow> sint (of_int k :: u64) = k"
  by (simp add: signed_of_int signed_take_bit_int_eq_self)

lemma zero_code_word:
  assumes "d < 2 ^ 62"
  shows "sint (of_nat (zero_code d) :: u64) = int (zero_code d)"
proof -
  have "int (zero_code d) < 2 ^ 63" using assms by (auto simp: zero_code_def)
  then have "sint (of_int (int (zero_code d)) :: u64) = int (zero_code d)"
    by (intro sint_of_int_small) auto
  then show ?thesis by simp
qed

lemma pending_next_v2:
  assumes "pending 2 r (d # ds) rest"
  shows "\<exists>r'. drNext r = Inr (int d, r') \<and> pending 2 r' ds rest"
proof -
  obtain p where p: "p < 8" "dr_inv r" "rver r = 2"
    "dr_bits r = gamma_bits (of_nat (zero_code d)) @ (concat (map delta_bits ds) @ replicate p False @ bytes_bits rest)"
    using assms by (auto simp: pending_def delta_bits_def)
  have d: "d < 2 ^ 62" using assms by (simp add: pending_def)
  have "0 < sint (of_nat (zero_code d) :: u64)"
    using zero_code_word [OF d] by (simp add: zero_code_def)
  from next64_ok [OF p(2) this p(4)] zero_code_word [OF d]
  obtain r' where r': "next64 r = Inr (int (zero_code d), r')" "dr_inv r'"
      "dr_bits r' = concat (map delta_bits ds) @ replicate p False @ bytes_bits rest" "rver r' = 2"
    using p(3) by auto
  then have "drNext r = Inr (int d, r')"
    using p(3) by (auto simp: drNext_def deltaZeroEnc_def zero_code_def)
  with r' p(1) assms show ?thesis by (auto simp: pending_def)
qed

lemma pending_next_v1:
  assumes "pending (Suc 0) r (d # ds) rest"
  shows "\<exists>r'. drNext r = Inr (int d, r') \<and> pending (Suc 0) r' ds rest"
proof -
  have d: "d < 2 ^ 62" and rd: "rd r = uvarint_enc d @ (concat (map uvarint_enc ds) @ rest)"
    using assms by (auto simp: pending_def)
  have "sint (of_int (int d) :: u64) = int d"
    using d by (intro sint_of_int_small) auto
  then have "drNext r = Inr (int d, r\<lparr>rd := concat (map uvarint_enc ds) @ rest\<rparr>)"
    using assms d by (simp add: drNext_def rd uvarint_roundtrip pending_def)
  with assms show ?thesis by (auto simp: pending_def)
qed

lemma pending_init_ok:
  assumes "ver = 1 \<or> ver = 2" "\<forall>d \<in> set ds. d < 2 ^ 62"
  shows "pending ver (drInit ver (delta_enc ver ds @ rest)) ds rest"
proof (cases "ver = 2")
  case True
  obtain p where "p < 8"
    "bytes_bits (pack_bits (concat (map delta_bits ds))) = concat (map delta_bits ds) @ replicate p False"
    using bytes_bits_pack by blast
  with True assms(2) show ?thesis
    by (auto simp: pending_def drInit_def delta_enc_def dr_inv_def dr_bits_def)
next
  case False
  with assms show ?thesis by (simp add: pending_def drInit_def delta_enc_def)
qed

lemma pending_clear_ok:
  assumes "ver = 1 \<or> ver = 2" "pending ver r [] rest"
  shows "clearBits r = drInit ver rest"
proof (cases "ver = 2")
  case True
  with assms(2) obtain p where p: "p < 8" "dr_inv r" "rver r = 2"
      "lsb_bits (rnb r) (rb r) @ bytes_bits (rd r) = replicate p False @ bytes_bits rest"
    by (auto simp: pending_def dr_bits_def)
  have "rnb r + 8 * length (rd r) = p + 8 * length rest"
    using arg_cong [OF p(4), of length] by simp
  then have "rnb r = p" using p(1,2) unfolding dr_inv_def
    by (cases "length (rd r)" "length rest" rule: linorder_cases) simp_all
  with p(4) have "bytes_bits (rd r) = bytes_bits rest" by (simp add: append_eq_append_conv)
  then have "rd r = rest" by (rule bytes_bits_inj)
  with p(3) True show ?thesis by (cases r) (simp add: clearBits_def drInit_def)
next
  case False
  with assms show ?thesis by (cases r) (auto simp: clearBits_def drInit_def pending_def)
qed

interpretation ds1: delta_stream "delta_enc 1" "drInit 1" "pending 1" drNext rd clearBits
  by unfold_locales
    (simp_all add: pending_init_ok pending_next_v1 pending_clear_ok, simp add: drInit_def)

interpretation ds2: delta_stream "delta_enc 2" "drInit 2" "pending 2" drNext rd clearBits
  by unfold_locales
    (simp_all add: pending_init_ok pending_next_v2 pending_clear_ok, simp add: drInit_def)

section \<open>Writing a list\<close>

lemma pack_bits_prefix: "pack_bits (bytes_bits pre @ bs) = pre @ pack_bits bs"
proof -
  obtain p where "p < 8" "bytes_bits (pack_bits bs) = bs @ replicate p False"
    using bytes_bits_pack by blast
  then have "bytes_bits (pre @ pack_bits bs) = (bytes_bits pre @ bs) @ replicate p False" by simp
  from pack_bits_unique [OF this \<open>p < 8\<close>] show ?thesis by simp
qed

lemma dwWrite_v1_ok:
  assumes "buf_inv (wout w)" "d < 2 ^ 62"
  shows "\<exists>w'. dwWrite (Suc 0) (int d) w = Inr w' \<and> buf_inv (wout w') \<and> wb w' = wb w \<and> wnb w' = wnb w \<and>
     contents (wout w') = contents (wout w) @ uvarint_enc d"
  using assms by (simp add: dwWrite_def buf_ok unsigned_of_nat take_bit_nat_eq_self)

lemma dwWrites_v1:
  assumes "buf_inv (wout w)" "\<forall>d \<in> set ds. d < 2 ^ 62"
  shows "\<exists>w'. rfold (dwWrite (Suc 0)) (map int ds) w = Inr w' \<and> buf_inv (wout w') \<and> wb w' = wb w \<and>
     wnb w' = wnb w \<and> contents (wout w') = contents (wout w) @ concat (map uvarint_enc ds)"
  using assms
proof (induction ds arbitrary: w)
  case (Cons d ds)
  then obtain w1 where w1: "dwWrite (Suc 0) (int d) w = Inr w1" "buf_inv (wout w1)" "wb w1 = wb w"
     "wnb w1 = wnb w" "contents (wout w1) = contents (wout w) @ uvarint_enc d"
    using dwWrite_v1_ok [of w d] by auto
  with Cons.IH [OF w1(2)] Cons.prems(2) show ?case by auto
qed simp

lemma dwWrite_v2_ok:
  assumes "dw_inv w" "wnb w < 8" "d < 2 ^ 62"
  shows "\<exists>w'. dwWrite 2 (int d) w = Inr w' \<and> dw_inv w' \<and> wnb w' < 8 \<and>
     dw_bits w' = dw_bits w @ delta_bits d"
proof -
  have "0 < sint (of_nat (zero_code d) :: u64)"
    using zero_code_word [OF assms(3)] by (simp add: zero_code_def)
  from writeBits_ok [OF assms(1,2) this] show ?thesis
    by (auto simp: dwWrite_def deltaZeroEnc_def delta_bits_def zero_code_def add.commute split: if_splits)
qed

lemma dwWrites_v2:
  assumes "dw_inv w" "wnb w < 8" "\<forall>d \<in> set ds. d < 2 ^ 62"
  shows "\<exists>w'. rfold (dwWrite 2) (map int ds) w = Inr w' \<and> dw_inv w' \<and> wnb w' < 8 \<and>
     dw_bits w' = dw_bits w @ concat (map delta_bits ds)"
  using assms
proof (induction ds arbitrary: w)
  case (Cons d ds)
  then obtain w1 where w1: "dwWrite 2 (int d) w = Inr w1" "dw_inv w1" "wnb w1 < 8"
     "dw_bits w1 = dw_bits w @ delta_bits d"
    using dwWrite_v2_ok [of w d] by auto
  with Cons.IH [OF w1(2,3)] Cons.prems(3) show ?case by auto
qed simp

text \<open>A clean writer (nothing pending) is where every posting list starts and ends.\<close>

definition dw_clean :: "deltaWriter \<Rightarrow> bool" where
  "dw_clean w \<longleftrightarrow> buf_inv (wout w) \<and> wb w = 0 \<and> wnb w = 0"

lemma dw_write_list:
  assumes "wv = 1 \<or> wv = 2" "dw_clean w" "\<forall>d \<in> set ds. d < 2 ^ 62"
  shows "\<exists>w'. rfold (dwWrite wv) (map int ds) w = Inr w' \<and> dw_clean (dwFlush w') \<and>
     contents (wout (dwFlush w')) = contents (wout w) @ delta_enc wv ds"
proof (cases "wv = 2")
  case True
  have "dw_inv w" "wnb w < 8" using assms(2) by (simp_all add: dw_clean_def dw_inv_def)
  from dwWrites_v2 [OF this assms(3)] obtain w' where w':
    "rfold (dwWrite 2) (map int ds) w = Inr w'" "dw_inv w'"
    "dw_bits w' = dw_bits w @ concat (map delta_bits ds)" by auto
  have "dw_bits w = bytes_bits (contents (wout w))"
    using assms(2) by (simp add: dw_bits_def dw_clean_def)
  with dwFlush_ok [OF w'(2)] w' True show ?thesis
    by (simp add: dw_clean_def pack_bits_prefix delta_enc_def)
next
  case False
  from dwWrites_v1 [of w ds] assms obtain w' where w':
    "rfold (dwWrite (Suc 0)) (map int ds) w = Inr w'" "buf_inv (wout w')" "wb w' = 0" "wnb w' = 0"
    "contents (wout w') = contents (wout w) @ concat (map uvarint_enc ds)"
    by (auto simp: dw_clean_def)
  then have "flushBits w' = w'" by (simp add: flushBits.simps [of w'])
  with w'(3,4) have "dwFlush w' = w'" by (simp add: dwFlush_def)
  with w' False assms(1) show ?thesis by (auto simp: dw_clean_def delta_enc_def)
qed

section \<open>Properties\<close>

text \<open>
  C14. In both index versions a list of differences, written value by value with \<open>Write\<close> and
  closed with \<open>Flush\<close>, is appended to the buffer and read back exactly by as many calls of
  \<open>next\<close>, without any fault; \<open>clearBits\<close> then leaves the reader at the first byte behind it.
\<close>

theorem delta_list_roundtrip:
  assumes "wv = 1 \<or> wv = 2" "buf_inv out" "\<forall>d \<in> set ds. d < 2 ^ 62"
  shows "\<exists>w enc. rfold (dwWrite wv) (map int ds) (dwInit out) = Inr w \<and>
     contents (wout (dwFlush w)) = contents out @ enc \<and>
     (\<forall>rest. \<exists>r. read_n drNext (length ds) (drInit wv (enc @ rest)) = Inr (map int ds, r) \<and>
                 rd (clearBits r) = rest)"
proof -
  have "dw_clean (dwInit out)" using assms(2) by (simp add: dw_clean_def dwInit_def)
  from dw_write_list [OF assms(1) this assms(3)] obtain w where
    "rfold (dwWrite wv) (map int ds) (dwInit out) = Inr w"
    "contents (wout (dwFlush w)) = contents out @ delta_enc wv ds"
    by (auto simp: dwInit_def)
  moreover have "\<exists>r. read_n drNext (length ds) (drInit wv (delta_enc wv ds @ rest)) = Inr (map int ds, r) \<and>
      rd (clearBits r) = rest" for rest
    using assms(1) ds1.read_list [OF assms(3)] ds2.read_list [OF assms(3)] by auto
  ultimately show ?thesis by blast
qed

theorem delta_list_roundtrip_witness:
  "\<exists>w enc. rfold (dwWrite 2) (map int [5, 1, 16, 1000, 0]) (dwInit (bufCreate (\<lambda>n. n))) = Inr w \<and>
     contents (wout (dwFlush w)) = contents (bufCreate (\<lambda>n. n)) @ enc \<and>
     (\<forall>rest. \<exists>r. read_n drNext (length [5, 1, 16, 1000, 0 :: nat]) (drInit 2 (enc @ rest)) =
          Inr (map int [5, 1, 16, 1000, 0], r) \<and> rd (clearBits r) = rest)"
  by (rule delta_list_roundtrip) simp_all

end
