(* ===== verification/Post_Entry.thy ===== *)
theory Post_Entry
  imports Prelude "HOL-Library.Multiset"
begin

unbundle bit_operations_syntax

text \<open>
  Post entries of \<open>internal/codesearch/index/write.go\<close>: a (trigram, file number) pair packed in
  a 64-bit word, and \<open>sortPost\<close>, two rounds of a 12-bit counting sort over arrays that are
  updated in place.  The scratch array \<open>sortTmp\<close> is global and keeps what the last call left in
  it, so it is an argument and a result.

  The lemmas show one round to be a stable sort by its twelve bits, whatever the scratch array
  holds, and the two rounds to be a stable sort by trigram; so entries that come in file order
  end up sorted as words.
\<close>

section \<open>Entries\<close>

definition invalidTrigram :: u32 where
  "invalidTrigram = 0xFFFFFF"

definition entry_trigram :: "u64 \<Rightarrow> u32" where
  "entry_trigram p = ucast (drop_bit 40 p)"

definition entry_fileid :: "u64 \<Rightarrow> nat" where
  "entry_fileid p = unat (drop_bit 24 (push_bit 24 p))"

definition makePostEntry :: "u32 \<Rightarrow> int \<Rightarrow> u64 res" where
  "makePostEntry t fileid =
     (if drop_bit 40 fileid > 0 then Inl Fatal
      else Inr (push_bit 40 (ucast t) OR of_int fileid))"

section \<open>Two rounds of counting sort\<close>

definition bucket :: "nat \<Rightarrow> u64 \<Rightarrow> nat" where
  "bucket s p = unat (drop_bit s p AND mask 12)"

definition bump :: "nat \<Rightarrow> nat list \<Rightarrow> nat list" where
  "bump r sortN = sortN[r := sortN ! r + 1]"

fun offsets_from :: "nat \<Rightarrow> nat list \<Rightarrow> nat list" where
  "offsets_from tot [] = []"
| "offsets_from tot (c # cs) = tot # offsets_from (tot + c) cs"

definition scatter :: "nat \<Rightarrow> u64 \<Rightarrow> nat list \<times> u64 list \<Rightarrow> nat list \<times> u64 list" where
  "scatter s p = (\<lambda>(sortN, tmp). (bump (bucket s p) sortN, tmp[sortN ! bucket s p := p]))"

definition sort_round :: "nat \<Rightarrow> u64 list \<Rightarrow> u64 list \<Rightarrow> u64 list" where
  "sort_round s post tmp =
     (let counts = fold (\<lambda>p. bump (bucket s p)) post (replicate 4096 0)
      in snd (fold (scatter s) post (offsets_from 0 counts, tmp)))"

definition sortPost :: "u64 list \<Rightarrow> u64 list \<Rightarrow> u64 list \<times> u64 list" where
  "sortPost sortTmp post =
     (let sortTmp1 = (if length post > length sortTmp then replicate (length post) 0 else sortTmp);
          tmp = sort_round 40 post (take (length post) sortTmp1)
      in (tmp @ drop (length post) sortTmp1, sort_round 52 tmp post))"

section \<open>One round is a stable sort by the bucket\<close>

lemma bucket_less: "bucket s p < 4096"
  using take_bit_nat_less_exp [of 12 "unat (drop_bit s p)"]
  by (simp add: bucket_def unsigned_take_bit_eq flip: take_bit_eq_mask)

lemma length_counts [simp]: "length (fold (\<lambda>p. bump (bucket s p)) post n) = length n"
  by (induction post arbitrary: n) (simp_all add: bump_def)

lemma counts_nth:
  "length n = 4096 \<Longrightarrow> r < 4096 \<Longrightarrow>
   fold (\<lambda>p. bump (bucket s p)) post n ! r = n ! r + length (filter (\<lambda>p. bucket s p = r) post)"
  by (induction post arbitrary: n) (auto simp: bump_def nth_list_update)

lemma length_offsets [simp]: "length (offsets_from t cs) = length cs"
  by (induction cs arbitrary: t) simp_all

lemma offsets_nth: "r < length cs \<Longrightarrow> offsets_from t cs ! r = t + sum_list (take r cs)"
  by (induction cs arbitrary: t r) (auto simp: nth_Cons split: nat.split)

lemma concat_update:
  "r < length segs \<Longrightarrow> i < length (segs ! r) \<Longrightarrow>
   (concat segs)[sum_list (map length (take r segs)) + i := v] =
     concat (segs[r := (segs ! r)[i := v]])"
  by (induction segs arbitrary: r) (auto simp: nth_Cons list_update_append split: nat.split)

lemma split_segments:
  "length tmp = sum_list ls \<Longrightarrow> \<exists>segs. map length segs = ls \<and> concat segs = tmp"
proof (induction ls arbitrary: tmp)
  case (Cons l ls)
  have "length (drop l tmp) = sum_list ls" using Cons.prems by simp
  then obtain segs where "map length segs = ls" "concat segs = drop l tmp"
    using Cons.IH by blast
  then have "map length (take l tmp # segs) = l # ls \<and> concat (take l tmp # segs) = tmp"
    using Cons.prems by simp
  then show ?case by (intro exI [of _ "take l tmp # segs"])
qed simp

text \<open>While entries are scattered, the array is a row of segments, one per bucket: the entries of
  the bucket that were seen, then cells still to be written.\<close>

lemma scatter_segments:
  assumes "map length segs = cs" "length segs = 4096"
    and "\<And>r. r < 4096 \<Longrightarrow> cs ! r = length (filter (\<lambda>p. bucket s p = r) (ys @ post))"
    and "\<And>r. r < 4096 \<Longrightarrow> take (length (filter (\<lambda>p. bucket s p = r) ys)) (segs ! r)
                            = filter (\<lambda>p. bucket s p = r) ys"
    and "length n = 4096"
    and "\<And>r. r < 4096 \<Longrightarrow> n ! r = sum_list (take r cs) + length (filter (\<lambda>p. bucket s p = r) ys)"
  shows "snd (fold (scatter s) post (n, concat segs)) =
    concat (map (\<lambda>r. filter (\<lambda>p. bucket s p = r) (ys @ post)) [0..<4096])"
  using assms
proof (induction post arbitrary: ys segs n)
  case Nil
  have "segs = map (\<lambda>r. filter (\<lambda>p. bucket s p = r) ys) [0..<4096]"
  proof (rule nth_equalityI)
    fix r assume "r < length segs"
    with Nil(2) have r: "r < 4096" by simp
    have "length (segs ! r) = length (filter (\<lambda>p. bucket s p = r) ys)"
      using Nil(1,2,3) r by (metis append_Nil2 nth_map)
    with Nil(4) [OF r] r show "segs ! r = map (\<lambda>r. filter (\<lambda>p. bucket s p = r) ys) [0..<4096] ! r"
      by simp
  qed (simp add: Nil(2))
  then show ?case by simp
next
  case (Cons p post)
  define r where "r = bucket s p"
  define i where "i = length (filter (\<lambda>q. bucket s q = r) ys)"
  have r: "r < 4096" by (simp add: r_def bucket_less)
  have lr: "length (segs ! r) = cs ! r" using Cons.prems(1,2) r by auto
  have i: "i < length (segs ! r)"
    unfolding lr Cons.prems(3) [OF r] by (simp add: i_def r_def)
  have lseg: "sum_list (map length (take r segs)) = sum_list (take r cs)"
    using Cons.prems(1) by (simp flip: take_map)
  have step: "scatter s p (n, concat segs) = (bump r n, concat (segs[r := (segs ! r)[i := p]]))"
    using Cons.prems(6) [OF r] concat_update [of r segs i p] r i Cons.prems(2) lseg
    by (simp add: scatter_def r_def [symmetric] i_def)
  have "snd (fold (scatter s) post (bump r n, concat (segs[r := (segs ! r)[i := p]]))) =
    concat (map (\<lambda>r. filter (\<lambda>p. bucket s p = r) ((ys @ [p]) @ post)) [0..<4096])"
  proof (rule Cons.IH)
    show "map length (segs[r := (segs ! r)[i := p]]) = cs"
      using Cons.prems(1) by (metis length_list_update list_update_id map_update)
    show "take (length (filter (\<lambda>p. bucket s p = q) (ys @ [p])))
        (segs[r := (segs ! r)[i := p]] ! q) = filter (\<lambda>p. bucket s p = q) (ys @ [p])" if q: "q < 4096" for q
    proof (cases "q = r")
      case True
      have "take (Suc i) ((segs ! r)[i := p]) = take i (segs ! r) @ [p]"
        using i by (simp add: take_Suc_conv_app_nth)
      with True Cons.prems(2) Cons.prems(4) [OF r] r show ?thesis by (simp add: i_def r_def)
    qed (use Cons.prems(4) [OF q] r_def in auto)
    show "bump r n ! q = sum_list (take q cs) + length (filter (\<lambda>p. bucket s p = q) (ys @ [p]))"
      if q: "q < 4096" for q
      using Cons.prems(5) Cons.prems(6) [OF q] q r by (auto simp: bump_def r_def nth_list_update)
  qed (use Cons.prems in \<open>simp_all add: bump_def\<close>)
  then show ?case by (simp add: step)
qed

lemma sum_buckets:
  "sum_list (map (\<lambda>r. length (filter (\<lambda>p. bucket s p = r) xs)) [0..<4096]) = length xs"
proof (induction xs)
  case (Cons p xs)
  have "map (\<lambda>r. length (filter (\<lambda>p. bucket s p = r) (p # xs))) [0..<4096] =
    map (\<lambda>r. (if bucket s p = r then 1 else 0) + length (filter (\<lambda>p. bucket s p = r) xs)) [0..<4096]"
    by simp
  moreover have "sum_list (map (\<lambda>r. (if bucket s p = r then 1 else (0::nat))) [0..<4096]) = 1"
  proof -
    have "sum_list (map (\<lambda>r. (if bucket s p = r then 1 else (0::nat))) [0..<4096]) =
      (\<Sum>r\<in>{0..<4096}. if bucket s p = r then 1 else 0)"
      by (subst interv_sum_list_conv_sum_set_nat) simp
    also have "\<dots> = 1" using bucket_less [of s p] by simp
    finally show ?thesis .
  qed
  ultimately show ?case using Cons by (simp only: sum_list_addf list.size)
qed (simp add: map_replicate_const)

lemma sort_round_buckets:
  assumes "length tmp = length post"
  shows "sort_round s post tmp =
    concat (map (\<lambda>r. filter (\<lambda>p. bucket s p = r) post) [0..<4096])"
proof -
  define cs where "cs = fold (\<lambda>p. bump (bucket s p)) post (replicate 4096 0)"
  have cs: "cs ! r = length (filter (\<lambda>p. bucket s p = r) post)" if "r < 4096" for r
    using counts_nth [of "replicate 4096 0" r s post] that by (simp add: cs_def)
  have "cs = map (\<lambda>r. length (filter (\<lambda>p. bucket s p = r) post)) [0..<4096]"
  proof (rule nth_equalityI)
    show "length cs = length (map (\<lambda>r. length (filter (\<lambda>p. bucket s p = r) post)) [0..<4096])"
      by (simp add: cs_def)
    show "cs ! i = map (\<lambda>r. length (filter (\<lambda>p. bucket s p = r) post)) [0..<4096] ! i"
      if "i < length cs" for i
      using that cs [of i] by (simp add: cs_def)
  qed
  then have "sum_list cs = length tmp" using sum_buckets [of s post] assms by simp
  then obtain segs where segs: "map length segs = cs" "concat segs = tmp"
    using split_segments [of tmp cs] by auto
  have "length segs = length cs" using segs(1) by auto
  then have len: "length segs = 4096" by (simp add: cs_def)
  have "snd (fold (scatter s) post (offsets_from 0 cs, concat segs)) =
    concat (map (\<lambda>r. filter (\<lambda>p. bucket s p = r) ([] @ post)) [0..<4096])"
    by (rule scatter_segments [OF segs(1) len])
      (use len segs(1) in \<open>auto simp: cs offsets_nth\<close>)
  then show ?thesis by (simp add: sort_round_def cs_def [symmetric] segs(2))
qed

lemma filter_buckets:
  assumes "bucket s x < 4096"
  shows "filter (\<lambda>p. bucket s x = bucket s p)
      (concat (map (\<lambda>r. filter (\<lambda>p. bucket s p = r) xs) [0..<n])) =
    (if bucket s x < n then filter (\<lambda>p. bucket s x = bucket s p) xs else [])"
proof (induction n)
  case (Suc n)
  have "filter (\<lambda>p. bucket s x = bucket s p) (filter (\<lambda>p. bucket s p = n) xs) =
    (if bucket s x = n then filter (\<lambda>p. bucket s x = bucket s p) xs else [])"
    by (auto intro: filter_cong)
  with Suc show ?case by auto
qed simp

lemma sorted_concat_map:
  assumes "\<And>r. r < n \<Longrightarrow> sorted (map f (g r))"
    and "\<And>q r x y. q < r \<Longrightarrow> r < n \<Longrightarrow> x \<in> set (g q) \<Longrightarrow> y \<in> set (g r) \<Longrightarrow> f x \<le> f y"
  shows "sorted (map f (concat (map g [0..<n])))"
  using assms by (induction n) (auto simp: sorted_append)

lemma mset_buckets: "mset (concat (map (\<lambda>r. filter (\<lambda>p. bucket s p = r) xs) [0..<n])) =
    mset (filter (\<lambda>p. bucket s p < n) xs)"
proof (induction n)
  case (Suc n)
  have "mset (filter (\<lambda>p. bucket s p < n) xs) + mset (filter (\<lambda>p. bucket s p = n) xs) =
    mset (filter (\<lambda>p. bucket s p < Suc n) xs)"
    by (induction xs) auto
  with Suc show ?case by simp
qed simp

lemma sort_round_stable:
  "length tmp = length post \<Longrightarrow> sort_round s post tmp = sort_key (bucket s) post"
proof -
  assume "length tmp = length post"
  then have e: "sort_round s post tmp =
      concat (map (\<lambda>r. filter (\<lambda>p. bucket s p = r) post) [0..<4096])"
    by (rule sort_round_buckets)
  have "sort_key (bucket s) post = sort_round s post tmp"
  proof (rule properties_for_sort_key)
    show "mset (sort_round s post tmp) = mset post"
      by (simp add: e mset_buckets bucket_less flip: mset_filter)
    show "filter (\<lambda>x. bucket s k = bucket s x) (sort_round s post tmp) =
        filter (\<lambda>x. bucket s k = bucket s x) post" for k
      unfolding e by (subst filter_buckets) (simp_all add: bucket_less)
    show "sorted (map (bucket s) (sort_round s post tmp))"
      unfolding e
    proof (rule sorted_concat_map)
      show "sorted (map (bucket s) (filter (\<lambda>p. bucket s p = r) post))" for r
        by (induction post) auto
    qed auto
  qed
  then show ?thesis by simp
qed

section \<open>Two rounds sort by trigram\<close>

lemma unat_entry:
  "unat (entry_trigram p) = unat p div 2 ^ 40"
  "entry_fileid p = unat p mod 2 ^ 40"
  "bucket 40 p = unat p div 2 ^ 40 mod 4096"
  "bucket 52 p = unat p div 2 ^ 52"
proof -
  have lt: "unat p < 2 ^ 64" using unsigned_less [of p] by simp
  have "unat p div 2 ^ 40 < 2 ^ 32" "unat p div 2 ^ 52 < 4096"
    using lt by (simp_all add: less_mult_imp_div_less)
  then show "unat (entry_trigram p) = unat p div 2 ^ 40"
      "bucket 52 p = unat p div 2 ^ 52" "bucket 40 p = unat p div 2 ^ 40 mod 4096"
    by (simp_all add: entry_trigram_def bucket_def unsigned_ucast_eq unsigned_drop_bit_eq
        unsigned_take_bit_eq flip: take_bit_eq_mask) (simp_all add: drop_bit_eq_div take_bit_eq_mod)
  show "entry_fileid p = unat p mod 2 ^ 40"
    using mod_mult_mult2 [of "unat p" "2 ^ 24" "2 ^ 40"]
    by (simp add: entry_fileid_def unsigned_drop_bit_eq unsigned_push_bit_eq)
      (simp add: take_bit_eq_mod drop_bit_eq_div push_bit_eq_mult)
qed

lemma sorted_unat: "sorted (map unat xs) \<longleftrightarrow> sorted (xs :: 'a::len word list)"
  by (induction xs) (auto simp: word_le_nat_alt)

lemma sort_key_trigram: "sort_key (\<lambda>x. unat (entry_trigram x)) post = sort_key entry_trigram post"
proof (rule properties_for_sort_key)
  show "filter (\<lambda>x. unat (entry_trigram k) = unat (entry_trigram x)) (sort_key entry_trigram post) =
      filter (\<lambda>x. unat (entry_trigram k) = unat (entry_trigram x)) post" for k
    using sort_key_stable [of entry_trigram "entry_trigram k" post]
    by (simp add: eq_commute word_unat_eq_iff [symmetric])
  show "sorted (map (\<lambda>x. unat (entry_trigram x)) (sort_key entry_trigram post))"
    using sorted_unat [of "map entry_trigram (sort_key entry_trigram post)"] by (simp add: comp_def)
qed simp

lemma sorted_lexI:
  fixes hi lo :: "'a \<Rightarrow> nat"
  assumes "\<And>k. sorted (map lo (filter (\<lambda>x. hi x = k) zs))" "sorted (map hi zs)" "\<And>x. lo x < B"
  shows "sorted (map (\<lambda>x. hi x * B + lo x) zs)"
  using assms
proof (induction zs)
  case (Cons z zs)
  have "hi z * B + lo z \<le> hi y * B + lo y" if y: "y \<in> set zs" for y
  proof (cases "hi z = hi y")
    case True
    then show ?thesis using Cons.prems(1) [of "hi z"] y by auto
  next
    case False
    then have "Suc (hi z) \<le> hi y" using Cons.prems(2) y by force
    then have "Suc (hi z) * B \<le> hi y * B" by (rule mult_le_mono1)
    then show ?thesis using Cons.prems(3) [of z] by simp
  qed
  moreover have "sorted (map lo (filter (\<lambda>x. hi x = k) zs))" for k
    using Cons.prems(1) [of k] by (auto split: if_splits)
  ultimately show ?case using Cons by simp
qed simp

lemma sort_key_lex:
  fixes hi lo :: "'a \<Rightarrow> nat"
  assumes "sorted (map lo xs)" "\<And>x. lo x < B"
  shows "sorted (map (\<lambda>x. hi x * B + lo x) (sort_key hi xs))"
proof (rule sorted_lexI)
  show "sorted (map lo (filter (\<lambda>x. hi x = k) (sort_key hi xs)))" for k
    using assms(1) by (simp add: sort_key_stable sorted_filter)
qed (simp_all add: assms(2))

lemma sort_key_two_rounds:
  fixes hi lo :: "'a \<Rightarrow> nat"
  assumes "\<And>x. lo x < B"
  shows "sort_key hi (sort_key lo xs) = sort_key (\<lambda>x. hi x * B + lo x) xs"
proof (rule properties_for_sort_key [symmetric])
  have inj: "hi k * B + lo k = hi x * B + lo x \<longleftrightarrow> hi x = hi k \<and> lo x = lo k" for k x
  proof -
    have "(hi y * B + lo y) div B = hi y" "(hi y * B + lo y) mod B = lo y" for y
      using assms [of y] by (simp_all add: div_mult_self3)
    then show ?thesis by metis
  qed
  show "filter (\<lambda>x. hi k * B + lo k = hi x * B + lo x) (sort_key hi (sort_key lo xs)) =
      filter (\<lambda>x. hi k * B + lo k = hi x * B + lo x) xs" for k
  proof -
    have "filter (\<lambda>x. hi k * B + lo k = hi x * B + lo x) ys =
        filter (\<lambda>x. lo x = lo k) (filter (\<lambda>x. hi x = hi k) ys)"
      "filter (\<lambda>x. hi k * B + lo k = hi x * B + lo x) ys =
        filter (\<lambda>x. hi x = hi k) (filter (\<lambda>x. lo x = lo k) ys)" for ys
      by (simp_all add: inj conj_commute)
    then show ?thesis by (metis sort_key_stable)
  qed
  show "sorted (map (\<lambda>x. hi x * B + lo x) (sort_key hi (sort_key lo xs)))"
    by (rule sort_key_lex) (simp_all add: assms)
qed simp

text \<open>
  C29. \<open>sortPost\<close> sorts the entries by trigram and keeps the order of entries with the same
  trigram, whatever its scratch array holds from earlier calls.
\<close>

theorem sortPost_stable_sort: "snd (sortPost tmp0 post) = sort_key entry_trigram post"
proof -
  have key: "(\<lambda>x. bucket 52 x * 4096 + bucket 40 x) = (\<lambda>x. unat (entry_trigram x))"
  proof
    fix x :: u64
    have "unat x div 2 ^ 52 = unat x div 2 ^ 40 div 4096" by (simp add: div_mult2_eq flip: div_mult2_eq)
    then show "bucket 52 x * 4096 + bucket 40 x = unat (entry_trigram x)"
      by (simp add: unat_entry)
  qed
  define tmp where "tmp = take (length post)
      (if length post > length tmp0 then replicate (length post) 0 else tmp0)"
  have "length tmp = length post" by (simp add: tmp_def)
  then have "snd (sortPost tmp0 post) = sort_key (bucket 52) (sort_key (bucket 40) post)"
    by (simp add: sortPost_def Let_def tmp_def [symmetric] sort_round_stable)
  also have "\<dots> = sort_key (\<lambda>x. unat (entry_trigram x)) post"
    unfolding key [symmetric] by (rule sort_key_two_rounds) (rule bucket_less)
  finally show ?thesis by (simp only: sort_key_trigram)
qed

text \<open>Entries made in file order come out sorted as words, trigram first.\<close>

lemma sortPost_sorted:
  assumes "sorted (map entry_fileid post)"
  shows "sorted (snd (sortPost tmp0 post))"
proof -
  have "sorted (map (\<lambda>x. unat (entry_trigram x) * 2 ^ 40 + entry_fileid x)
      (sort_key (\<lambda>x. unat (entry_trigram x)) post))"
    by (rule sort_key_lex [OF assms]) (simp add: unat_entry)
  moreover have "(\<lambda>x. unat (entry_trigram x) * 2 ^ 40 + entry_fileid x) = unat"
    by (rule ext) (simp add: unat_entry)
  ultimately have "sorted (map unat (sort_key entry_trigram post))" by (simp only: sort_key_trigram)
  then show ?thesis by (simp only: sorted_unat sortPost_stable_sort)
qed


section \<open>Packing and unpacking\<close>

lemma makePostEntry_fatal: "2 ^ 40 \<le> fileid \<Longrightarrow> makePostEntry t fileid = Inl Fatal"
  by (simp add: makePostEntry_def drop_bit_eq_div pos_imp_zdiv_pos_iff)

definition pack :: "u32 \<Rightarrow> nat \<Rightarrow> u64" where
  "pack t i = push_bit 40 (ucast t) OR of_nat i"

lemma makePostEntry_ok:
  assumes "i < 2 ^ 40"
  shows "makePostEntry t (int i) = Inr (pack t i)"
proof -
  have "drop_bit 40 (int i) = int (drop_bit 40 i)" by (simp add: drop_bit_eq_div zdiv_int)
  with assms show ?thesis by (simp add: makePostEntry_def pack_def drop_bit_eq_div)
qed

lemma unat_pack:
  assumes "t \<le> 0xFFFFFF" "i < 2 ^ 40"
  shows "unat (pack t i) = unat t * 2 ^ 40 + i"
proof -
  have t: "unat t < 2 ^ 24" using assms(1) by (simp add: word_le_nat_alt)
  then have u: "unat (ucast t :: u64) = unat t"
    by (simp add: unsigned_ucast_eq take_bit_nat_eq_self)
  have i: "unat (of_nat i :: u64) = i"
    using assms(2) by (simp add: unsigned_of_nat take_bit_nat_eq_self)
  have "push_bit 40 (ucast t :: u64) AND of_nat i = 0"
  proof (rule bit_word_eqI)
    fix n assume "n < LENGTH(64)"
    have "\<not> bit i n" if "40 \<le> n"
    proof -
      have "i < 2 ^ n" using assms(2) power_increasing [OF that, of "2::nat"] by linarith
      then show ?thesis by (simp add: bit_iff_odd)
    qed
    then show "bit (push_bit 40 (ucast t :: u64) AND of_nat i) n = bit (0::u64) n"
      by (auto simp: bit_simps)
  qed
  then have "pack t i = push_bit 40 (ucast t) + of_nat i"
    by (simp add: pack_def disjunctive_add_eq_or)
  moreover have "unat (push_bit 40 (ucast t :: u64)) = unat t * 2 ^ 40"
    using t by (simp add: unsigned_push_bit_eq u) (simp add: push_bit_eq_mult take_bit_nat_eq_self)
  moreover have "unat t * 2 ^ 40 + i < 2 ^ 64"
    using t assms(2) by simp
  ultimately show ?thesis using i by (simp add: unat_word_ariths)
qed

lemma pack_fields:
  assumes "t \<le> 0xFFFFFF" "i < 2 ^ 40"
  shows "entry_trigram (pack t i) = t" "entry_fileid (pack t i) = i"
  using assms by (simp_all add: word_unat_eq_iff unat_entry unat_pack)

lemma pack_less_iff:
  assumes "t \<le> 0xFFFFFF" "i < 2 ^ 40" "u \<le> 0xFFFFFF" "j < 2 ^ 40"
  shows "pack t i < pack u j \<longleftrightarrow> t < u \<or> t = u \<and> i < j"
proof -
  have "a * 2 ^ 40 + i < b * 2 ^ 40 + j \<longleftrightarrow> a < b \<or> a = b \<and> i < j" for a b :: nat
    using assms(2,4) by (cases a b rule: linorder_cases) auto
  then show ?thesis
    unfolding word_less_nat_alt word_unat_eq_iff unat_pack [OF assms(1,2)] unat_pack [OF assms(3,4)] .
qed

lemma pack_unpack: "entry_trigram p \<le> 0xFFFFFF"
  "pack (entry_trigram p) (entry_fileid p) = p"
proof -
  have "unat p < 2 ^ 64" using unsigned_less [of p] by simp
  then have "unat p div 2 ^ 40 < 2 ^ 24" by (simp add: less_mult_imp_div_less)
  then show t: "entry_trigram p \<le> 0xFFFFFF" by (simp add: word_le_nat_alt unat_entry)
  have "entry_fileid p < 2 ^ 40" by (simp add: unat_entry)
  from unat_pack [OF t this] show "pack (entry_trigram p) (entry_fileid p) = p"
    by (simp add: word_unat_eq_iff unat_entry)
qed

end
