(* ===== verification/Post_Writer.thy ===== *)
theory Post_Writer
  imports Delta Post_Entry
begin

text \<open>
  Posting lists on their way to disk: \<open>postDataWriter\<close> and \<open>flushPost\<close> of
  \<open>internal/codesearch/index/write.go\<close> and the reader of flushed chunks, \<open>allPostReader\<close> of
  \<open>read.go\<close>.

  \<open>w.out\<close> and \<open>w.delta.out\<close> are the same buffer in the code; the model keeps it once, in
  the delta writer.  The 256-byte block of the version 2 posting index is an array that is
  written over and over, so the model keeps the whole array (\<open>pwArr\<close>) and the length of the
  slice of it that is in use (\<open>pwLen\<close>).

  A posting list is a trigram and the increasing file numbers it occurs in; \<open>groups\<close> collects
  a sorted list of entries into posting lists.  The lemmas give the bytes a posting list is
  written as, and that the chunk a flush writes is read back entry by entry: the contract
  \<open>entry_source\<close> of the merge.
\<close>

unbundle bit_operations_syntax

section \<open>Writer\<close>

record postDataWriter =
  pwIndex :: "buffer option"
  pwBase :: nat
  pwLastOffset :: nat
  pwCount :: nat
  pwOffset :: nat
  pwLastID :: int
  pwT :: u32
  pwDelta :: deltaWriter
  pwNumTrigram :: nat
  pwArr :: "byte list"
  pwLen :: nat

definition pwOut :: "postDataWriter \<Rightarrow> buffer" where
  "pwOut w = wout (pwDelta w)"

definition pwInit :: "buffer \<Rightarrow> buffer option \<Rightarrow> postDataWriter" where
  "pwInit postData postIndex =
     \<lparr>pwIndex = postIndex, pwBase = bufOffset postData, pwLastOffset = bufOffset postData,
      pwCount = 0, pwOffset = 0, pwLastID = 0, pwT = 0, pwDelta = dwInit postData,
      pwNumTrigram = 0, pwArr = replicate 256 0, pwLen = 0\<rparr>"

definition pwFlush :: "postDataWriter \<Rightarrow> postDataWriter" where
  "pwFlush w = (case pwIndex w of
       None \<Rightarrow> w
     | Some ix \<Rightarrow> if pwLen w > 0
                  then w\<lparr>pwIndex := Some (bufWrite (pwArr w) ix), pwLen := 0\<rparr> else w)"

definition pwTrigram :: "u32 \<Rightarrow> postDataWriter \<Rightarrow> postDataWriter res" where
  "pwTrigram t w =
     (if t = 0 then Inl Panic
      else let d = pwDelta w
           in Inr (w\<lparr>pwOffset := bufOffset (pwOut w), pwCount := 0, pwT := t, pwLastID := -1,
                     pwNumTrigram := pwNumTrigram w + 1,
                     pwDelta := d\<lparr>wout := bufWriteTrigram t (wout d)\<rparr>\<rparr>))"

definition pwFileid :: "nat \<Rightarrow> nat \<Rightarrow> postDataWriter \<Rightarrow> postDataWriter res" where
  "pwFileid wv fid w =
     rbind (dwWrite wv (int fid - pwLastID w) (pwDelta w)) (\<lambda>d.
       Inr (w\<lparr>pwDelta := d, pwLastID := int fid, pwCount := pwCount w + 1\<rparr>))"

text \<open>\<open>append(w.block, bs...)\<close> within the capacity writes the array in place.\<close>

definition blockAppend :: "byte list \<Rightarrow> postDataWriter \<Rightarrow> postDataWriter" where
  "blockAppend bs w =
     w\<lparr>pwArr := take (pwLen w) (pwArr w) @ bs @ drop (pwLen w + length bs) (pwArr w),
       pwLen := pwLen w + length bs\<rparr>"

definition uvarint_of :: "int \<Rightarrow> byte list" where
  "uvarint_of x = uvarint_enc (unat (of_int x :: u64))"

text \<open>The part of \<open>endTrigram\<close> behind the delta list: the entry of the posting index.\<close>

definition notePosting :: "nat \<Rightarrow> postDataWriter \<Rightarrow> postDataWriter res" where
  "notePosting wv w = (case pwIndex w of
       None \<Rightarrow> Inr w
     | Some ix \<Rightarrow>
         if wv = 1
         then rbind (bufWriteUint wv (int (pwCount w)) (bufWriteTrigram (pwT w) ix)) (\<lambda>ix1.
              rbind (bufWriteUint wv (int (pwOffset w) - int (pwBase w)) ix1) (\<lambda>ix2.
                Inr (w\<lparr>pwIndex := Some ix2\<rparr>)))
         else
           let buf = tri_bytes (pwT w) @ uvarint_of (int (pwCount w));
               off = uvarint_of (int (pwOffset w) - int (pwLastOffset w));
               (w1, off1) =
                 (if pwLen w + length buf + length off > 256
                  then (w\<lparr>pwIndex := Some (bufWrite (pwArr w) ix),
                          pwArr := replicate (pwLen w) 0 @ drop (pwLen w) (pwArr w), pwLen := 0\<rparr>,
                        uvarint_of (int (pwOffset w) - int (pwBase w)))
                  else (w, off))
           in Inr ((blockAppend (buf @ off1) w1)\<lparr>pwLastOffset := pwOffset w\<rparr>))"

definition pwEndTrigram :: "nat \<Rightarrow> postDataWriter \<Rightarrow> postDataWriter res" where
  "pwEndTrigram wv w =
     rbind (dwWrite wv 0 (pwDelta w)) (\<lambda>d. notePosting wv (w\<lparr>pwDelta := dwFlush d\<rparr>))"

section \<open>Flushing entries to a chunk\<close>

definition flushEntry :: "nat \<Rightarrow> u64 \<Rightarrow> u32 \<times> postDataWriter \<Rightarrow> (u32 \<times> postDataWriter) res" where
  "flushEntry wv p = (\<lambda>(trigram, w).
     let t = entry_trigram p in
     rbind (if t \<noteq> trigram
            then rbind (if trigram \<noteq> invalidTrigram then pwEndTrigram wv w else Inr w) (pwTrigram t)
            else Inr w)
       (\<lambda>w1. rbind (pwFileid wv (entry_fileid p) w1) (\<lambda>w2. Inr (t, w2))))"

text \<open>The body of \<open>flushPost\<close>: sort, write one chunk; the results are the scratch array of the
  sort, the file and its new end.\<close>

definition flushChunk :: "nat \<Rightarrow> u64 list \<Rightarrow> u64 list \<Rightarrow> buffer \<Rightarrow> (u64 list \<times> buffer \<times> nat) res" where
  "flushChunk wv sortTmp post postFile =
     (let (tmp, sorted_post) = sortPost sortTmp post
      in rbind (rfold (flushEntry wv) sorted_post (invalidTrigram, pwInit postFile None))
           (\<lambda>(trigram, w).
         rbind (if trigram \<noteq> invalidTrigram then pwEndTrigram wv w else Inr w) (\<lambda>w1.
           Inr (tmp, pwOut w1, bufOffset (pwOut w1)))))"

section \<open>Reading a chunk back\<close>

definition read_tri :: "byte \<Rightarrow> byte \<Rightarrow> byte \<Rightarrow> u32" where
  "read_tri a b c = push_bit 16 (ucast a) OR push_bit 8 (ucast b) OR ucast c"

record allPostReader =
  arTri :: u32
  arId :: int
  arDelta :: deltaReader

definition arInit :: "nat \<Rightarrow> byte list \<Rightarrow> allPostReader" where
  "arInit ver data = \<lparr>arTri = invalidTrigram, arId = 0, arDelta = drInit ver data\<rparr>"

text \<open>The start of a list: \<open>None\<close> at the end of the data.\<close>

definition arStart :: "allPostReader \<Rightarrow> allPostReader option res" where
  "arStart r =
     (if arTri r = invalidTrigram
      then (case rd (arDelta r) of
              [] \<Rightarrow> Inr None
            | a # b # c # d \<Rightarrow>
                Inr (Some (r\<lparr>arTri := read_tri a b c, arId := -1, arDelta := (arDelta r)\<lparr>rd := d\<rparr>\<rparr>))
            | _ \<Rightarrow> Inl Fatal)
      else Inr (Some r))"

lemma skip_zeros_length:
  "skip_zeros lg b nb d = Inr (lg', b', nb', d') \<Longrightarrow> length d' \<le> length d"
proof (induction d arbitrary: lg b nb)
  case (Cons c d)
  show ?case
  proof (cases "b = 0 \<and> lg + nb \<le> 65")
    case True
    with Cons.prems have "skip_zeros (lg + nb) (ucast c) 8 d = Inr (lg', b', nb', d')"
      by (simp add: skip_zeros.simps [of lg 0 nb])
    with Cons.IH show ?thesis by fastforce
  next
    case False
    with Cons.prems show ?thesis by (auto simp: skip_zeros.simps [of lg b nb] split: if_splits)
  qed
qed (auto simp: skip_zeros.simps split: if_splits)

lemma take_bits_length:
  "take_bits x k lg b nb d = Inr (x', k', lg', b', nb', d') \<Longrightarrow> length d' \<le> length d"
proof (induction d arbitrary: x k lg b nb)
  case (Cons c d)
  show ?case
  proof (cases "nb < lg \<and> k + nb \<le> 64")
    case True
    with Cons.prems have "take_bits (x OR push_bit k b) (k + nb) (lg - nb) (ucast c) 8 d =
        Inr (x', k', lg', b', nb', d')"
      by (simp add: take_bits.simps [of x k lg b nb])
    with Cons.IH show ?thesis by fastforce
  next
    case False
    with Cons.prems show ?thesis by (auto simp: take_bits.simps [of x k lg b nb] split: if_splits)
  qed
qed (auto simp: take_bits.simps split: if_splits)

lemma drNext_length: "drNext r = Inr (i, r') \<Longrightarrow> length (rd r') \<le> length (rd r)"
  by (auto simp: drNext_def next64_def rbind_Inr_iff Let_def split: if_splits prod.splits
      dest!: skip_zeros_length take_bits_length)

function allNext :: "allPostReader \<Rightarrow> (u64 option \<times> allPostReader) res" where
  "allNext r =
     rbind (arStart r) (\<lambda>s. case s of
         None \<Rightarrow> Inr (None, r)
       | Some r1 \<Rightarrow> rbind (drNext (arDelta r1)) (\<lambda>(delta, dr).
           if delta = 0 then allNext (r1\<lparr>arDelta := clearBits dr, arTri := invalidTrigram\<rparr>)
           else let r2 = r1\<lparr>arDelta := dr, arId := wrap64 (arId r1 + delta)\<rparr>
                in rbind (makePostEntry (arTri r2) (arId r2)) (\<lambda>e. Inr (Some e, r2))))"
  by pat_completeness auto
termination
proof (relation "measure (\<lambda>r. 2 * length (rd (arDelta r)) + (if arTri r = invalidTrigram then 0 else 1))", goal_cases)
  case (2 r s r1 x delta dr)
  then have "length (rd dr) \<le> length (rd (arDelta r1))" using drNext_length by force
  moreover have "2 * length (rd (arDelta r1)) <
      2 * length (rd (arDelta r)) + (if arTri r = invalidTrigram then 0 else 1)"
    using 2(1,2) by (auto simp: arStart_def split: if_splits list.splits)
  ultimately show ?case by (simp add: clearBits_def)
qed simp

declare allNext.simps [simp del]


section \<open>Posting lists\<close>

type_synonym posting = "u32 \<times> nat list"

fun deltas :: "int \<Rightarrow> nat list \<Rightarrow> nat list" where
  "deltas prev [] = []"
| "deltas prev (i # is) = nat (int i - prev) # deltas (int i) is"

definition posting_bytes :: "nat \<Rightarrow> posting \<Rightarrow> byte list" where
  "posting_bytes wv = (\<lambda>(t, ids). tri_bytes t @ delta_enc wv (deltas (-1) ids @ [0]))"

definition entries :: "posting list \<Rightarrow> u64 list" where
  "entries gs = concat (map (\<lambda>(t, ids). map (pack t) ids) gs)"

lemma entries_simps [simp]:
  "entries [] = []" "entries ((t, ids) # gs) = map (pack t) ids @ entries gs"
  by (simp_all add: entries_def)

fun groups :: "u64 list \<Rightarrow> posting list" where
  "groups [] = []"
| "groups (e # es) = (case groups es of
      (t, ids) # gs \<Rightarrow>
        if t = entry_trigram e then (t, entry_fileid e # ids) # gs
        else (entry_trigram e, [entry_fileid e]) # (t, ids) # gs
    | [] \<Rightarrow> [(entry_trigram e, [entry_fileid e])])"

text \<open>What the files of an index give: trigrams are not 0 and not the end marker, file numbers
  increase and stay below the bounds of the packed entries.\<close>

definition ids_ok :: "nat list \<Rightarrow> bool" where
  "ids_ok ids \<longleftrightarrow> sorted_wrt (<) ids \<and> (\<forall>i \<in> set ids. i < 2 ^ 40)"

definition posting_ok :: "posting \<Rightarrow> bool" where
  "posting_ok = (\<lambda>(t, ids). 0 < t \<and> t < invalidTrigram \<and> ids \<noteq> [] \<and> ids_ok ids)"

definition postings_ok :: "posting list \<Rightarrow> bool" where
  "postings_ok gs \<longleftrightarrow> list_all posting_ok gs \<and> sorted_wrt (\<lambda>g h. fst g < fst h) gs"

definition entries_ok :: "u64 list \<Rightarrow> bool" where
  "entries_ok es \<longleftrightarrow> sorted_wrt (<) es \<and> (\<forall>e \<in> set es. 0 < entry_trigram e \<and> entry_trigram e < invalidTrigram)"

lemma entry_less_iff:
  "p < q \<longleftrightarrow> entry_trigram p < entry_trigram q \<or>
     entry_trigram p = entry_trigram q \<and> entry_fileid p < entry_fileid q"
proof -
  have "entry_fileid p < 2 ^ 40" "entry_fileid q < 2 ^ 40" by (simp_all add: unat_entry)
  from pack_less_iff [OF pack_unpack(1) [of p] this(1) pack_unpack(1) [of q] this(2)]
  show ?thesis by (simp only: pack_unpack(2))
qed

lemma groups_nil: "groups es = [] \<longleftrightarrow> es = []"
  by (cases es) (auto split: list.splits)

lemma entries_groups: "entries (groups es) = es"
proof (induction es)
  case (Cons e es)
  then show ?case by (auto simp: pack_unpack split: list.splits)
qed simp

lemma groups_hd:
  "groups es = (t, ids) # gs \<Longrightarrow> \<exists>e es' ids'. es = e # es' \<and> t = entry_trigram e \<and> ids = entry_fileid e # ids'"
  by (cases es) (auto split: list.splits if_splits)

lemma groups_ok: "entries_ok es \<Longrightarrow> postings_ok (groups es)"
proof (induction es)
  case Nil
  then show ?case by (simp add: postings_ok_def)
next
  case (Cons e es)
  have ok: "entries_ok es" and e: "0 < entry_trigram e" "entry_trigram e < invalidTrigram"
    "\<forall>q \<in> set es. e < q" using Cons.prems by (auto simp: entries_ok_def)
  note ih = Cons.IH [OF ok]
  show ?case
  proof (cases "groups es")
    case Nil
    with e show ?thesis by (simp add: postings_ok_def posting_ok_def ids_ok_def unat_entry)
  next
    case (Cons g gs)
    obtain t ids where g: "g = (t, ids)" by (cases g)
    with Cons groups_hd obtain q es' ids' where q: "es = q # es'" "t = entry_trigram q"
      "ids = entry_fileid q # ids'" by blast
    with e(3) have lt: "entry_trigram e < t \<or> entry_trigram e = t \<and> entry_fileid e < entry_fileid q"
      by (simp add: entry_less_iff [symmetric])
    have ids: "ids_ok ids" "0 < t" "t < invalidTrigram" "list_all posting_ok gs"
      "sorted_wrt (\<lambda>g h. fst g < fst h) gs" "\<forall>h \<in> set gs. t < fst h"
      using ih Cons g by (auto simp: postings_ok_def posting_ok_def)
    show ?thesis
    proof (cases "t = entry_trigram e")
      case True
      with lt have "entry_fileid e < entry_fileid q" by auto
      with ids(1) q(3) have "ids_ok (entry_fileid e # ids)"
        by (auto simp: ids_ok_def unat_entry)
      with True Cons g ids show ?thesis by (simp add: postings_ok_def posting_ok_def)
    next
      case False
      with lt have "entry_trigram e < t" by simp
      with False Cons g ids e q(3) show ?thesis
        by (auto simp: postings_ok_def posting_ok_def ids_ok_def unat_entry)
    qed
  qed
qed

lemma tri_bytes_eq:
  assumes "t \<le> 0xFFFFFF"
  obtains a b c where "tri_bytes t = [a, b, c]" "read_tri a b c = t"
proof -
  have "read_tri (ucast (drop_bit 16 t)) (ucast (drop_bit 8 t)) (ucast t) = t"
  proof (rule bit_word_eqI)
    fix n assume n: "n < LENGTH(32)"
    have "\<not> bit t n" if "24 \<le> n"
    proof -
      have "unat t < 2 ^ 24" using assms by (simp add: word_le_nat_alt)
      then have "unat t < 2 ^ n" using power_increasing [OF that, of "2::nat"] by linarith
      then have "\<not> bit (unat t) n" by (simp add: bit_iff_odd)
      then show ?thesis by (simp add: bit_unsigned_iff)
    qed
    then show "bit (read_tri (ucast (drop_bit 16 t)) (ucast (drop_bit 8 t)) (ucast t)) n = bit t n"
      using n by (cases "n < 8"; cases "n < 16"; cases "n < 24")
        (auto simp: read_tri_def bit_simps dest: bit_imp_le_length)
  qed
  then show ?thesis by (rule that [rotated]) (simp add: tri_bytes_def)
qed


section \<open>Writing a posting list\<close>

lemma deltas_bound:
  "sorted_wrt (<) ids \<Longrightarrow> (\<forall>i \<in> set ids. prev < int i \<and> i < 2 ^ 40) \<Longrightarrow> -1 \<le> prev \<Longrightarrow>
   (\<forall>d \<in> set (deltas prev ids). 0 < d \<and> d < 2 ^ 62)"
  by (induction prev ids rule: deltas.induct) auto

lemma pwFileids:
  assumes "sorted_wrt (<) ids" "\<forall>i \<in> set ids. pwLastID w < int i"
    "rfold (dwWrite wv) (map int (deltas (pwLastID w) ids)) (pwDelta w) = Inr d"
  shows "\<exists>lid. rfold (pwFileid wv) ids w =
    Inr (w\<lparr>pwDelta := d, pwLastID := lid, pwCount := pwCount w + length ids\<rparr>)"
  using assms
proof (induction ids arbitrary: w)
  case Nil
  then show ?case by (intro exI [of _ "pwLastID w"]) simp
next
  case (Cons i "is")
  let ?x = "int i - pwLastID w"
  have pos: "int (nat ?x) = ?x" using Cons.prems(2) by simp
  then obtain d1 where d1: "dwWrite wv ?x (pwDelta w) = Inr d1"
      "rfold (dwWrite wv) (map int (deltas (int i) is)) d1 = Inr d"
    using Cons.prems(3) by (auto simp: rbind_Inr_iff)
  let ?w = "w\<lparr>pwDelta := d1, pwLastID := int i, pwCount := pwCount w + 1\<rparr>"
  have "\<exists>lid. rfold (pwFileid wv) is ?w =
      Inr (?w\<lparr>pwDelta := d, pwLastID := lid, pwCount := pwCount ?w + length is\<rparr>)"
    by (rule Cons.IH) (use Cons.prems(1) d1(2) in auto)
  moreover have "pwFileid wv i w = Inr ?w" using d1(1) by (simp add: pwFileid_def)
  ultimately show ?case by auto
qed

definition pw_clean :: "postDataWriter \<Rightarrow> bool" where
  "pw_clean w \<longleftrightarrow> dw_clean (pwDelta w)"

text \<open>A whole list: \<open>trigram\<close>, its file numbers, and the delta part of \<open>endTrigram\<close>.\<close>

definition writePosting :: "nat \<Rightarrow> posting \<Rightarrow> postDataWriter \<Rightarrow> postDataWriter res" where
  "writePosting wv = (\<lambda>(t, ids) w.
     rbind (pwTrigram t w) (\<lambda>w1. rbind (rfold (pwFileid wv) ids w1) (pwEndTrigram wv)))"

lemma writePosting_data:
  assumes "wv = 1 \<or> wv = 2" "pw_clean w" "0 < t" "ids_ok ids"
  shows "\<exists>w'. writePosting wv (t, ids) w = notePosting wv w' \<and> pw_clean w' \<and>
    contents (pwOut w') = contents (pwOut w) @ posting_bytes wv (t, ids) \<and>
    pwIndex w' = pwIndex w \<and> pwBase w' = pwBase w \<and> pwT w' = t \<and> pwCount w' = length ids \<and>
    pwOffset w' = length (contents (pwOut w)) \<and> pwNumTrigram w' = pwNumTrigram w + 1 \<and>
    pwArr w' = pwArr w \<and> pwLen w' = pwLen w \<and> pwLastOffset w' = pwLastOffset w"
proof -
  let ?d = "(pwDelta w)\<lparr>wout := bufWriteTrigram t (wout (pwDelta w))\<rparr>"
  define w1 where "w1 = w\<lparr>pwOffset := bufOffset (pwOut w), pwCount := 0, pwT := t, pwLastID := -1,
      pwNumTrigram := pwNumTrigram w + 1, pwDelta := ?d\<rparr>"
  have clean: "dw_clean ?d" "contents (wout ?d) = contents (pwOut w) @ tri_bytes t"
    using assms(2) by (simp_all add: pw_clean_def dw_clean_def buf_ok pwOut_def)
  have ids: "\<forall>i \<in> set ids. - 1 < int i \<and> i < 2 ^ 40" "sorted_wrt (<) ids"
    using assms(4) by (auto simp: ids_ok_def)
  have "\<forall>d \<in> set (deltas (-1) ids @ [0]). d < 2 ^ 62"
    using deltas_bound [OF ids(2), of "-1"] ids(1) by auto
  from dw_write_list [OF assms(1) clean(1) this] obtain d2 where d2:
    "rfold (dwWrite wv) (map int (deltas (-1) ids @ [0])) ?d = Inr d2" "dw_clean (dwFlush d2)"
    "contents (wout (dwFlush d2)) = contents (wout ?d) @ delta_enc wv (deltas (-1) ids @ [0])"
    by blast
  then obtain d1 where d1: "rfold (dwWrite wv) (map int (deltas (-1) ids)) ?d = Inr d1"
      "dwWrite wv 0 d1 = Inr d2"
    by (auto simp: rfold_append rbind_Inr_iff)
  have "\<exists>lid. rfold (pwFileid wv) ids w1 =
      Inr (w1\<lparr>pwDelta := d1, pwLastID := lid, pwCount := pwCount w1 + length ids\<rparr>)"
    by (rule pwFileids) (use ids d1(1) in \<open>auto simp: w1_def\<close>)
  then obtain lid where f: "rfold (pwFileid wv) ids w1 =
      Inr (w1\<lparr>pwDelta := d1, pwLastID := lid, pwCount := pwCount w1 + length ids\<rparr>)" by blast
  let ?w = "w1\<lparr>pwLastID := lid, pwCount := pwCount w1 + length ids, pwDelta := dwFlush d2\<rparr>"
  have "pwTrigram t w = Inr w1" using assms(3) by (auto simp: pwTrigram_def Let_def w1_def)
  with f d1(2) have "writePosting wv (t, ids) w = notePosting wv ?w"
    by (simp add: writePosting_def pwEndTrigram_def)
  moreover have "contents (pwOut ?w) = contents (pwOut w) @ posting_bytes wv (t, ids)"
    using d2(3) clean(2) by (simp add: pwOut_def posting_bytes_def)
  moreover have "pw_clean ?w" using d2(2) by (simp add: pw_clean_def)
  moreover have "bufOffset (pwOut w) = length (contents (pwOut w))"
    using assms(2) by (simp add: pw_clean_def dw_clean_def pwOut_def offset_contents)
  ultimately show ?thesis by (intro exI [of _ ?w]) (simp add: w1_def)
qed

text \<open>Without an index file the list is all there is.\<close>

lemma writePosting_noindex:
  assumes "wv = 1 \<or> wv = 2" "pw_clean w" "0 < t" "ids_ok ids" "pwIndex w = None"
  shows "\<exists>w'. writePosting wv (t, ids) w = Inr w' \<and> pw_clean w' \<and> pwIndex w' = None \<and>
    contents (pwOut w') = contents (pwOut w) @ posting_bytes wv (t, ids)"
proof -
  from writePosting_data [OF assms(1-4)] obtain w' where
    "writePosting wv (t, ids) w = notePosting wv w'" "pw_clean w'" "pwIndex w' = None"
    "contents (pwOut w') = contents (pwOut w) @ posting_bytes wv (t, ids)"
    unfolding assms(5) by blast
  moreover from this have "notePosting wv w' = Inr w'" by (simp add: notePosting_def)
  ultimately show ?thesis by auto
qed

text \<open>The entries of one list after its first: no change of trigram.\<close>

lemma flushEntry_same:
  assumes "t < invalidTrigram" "\<forall>i \<in> set ids. i < 2 ^ 40"
  shows "rfold (flushEntry wv) (map (pack t) ids) (t, w) =
    rbind (rfold (pwFileid wv) ids w) (\<lambda>w'. Inr (t, w'))"
  using assms(2)
proof (induction ids arbitrary: w)
  case (Cons i "is")
  have "entry_trigram (pack t i) = t" "entry_fileid (pack t i) = i"
    using assms(1) Cons.prems pack_fields [of t i] by (auto simp: invalidTrigram_def)
  then have "flushEntry wv (pack t i) (t, w) = rbind (pwFileid wv i w) (\<lambda>w'. Inr (t, w'))"
    by (simp add: flushEntry_def)
  with Cons show ?case by (cases "pwFileid wv i w") simp_all
qed simp

text \<open>The state between two lists: the open list \<open>prev\<close> still has to be ended.\<close>

definition closePosting :: "nat \<Rightarrow> u32 \<Rightarrow> postDataWriter \<Rightarrow> postDataWriter res" where
  "closePosting wv t w = (if t \<noteq> invalidTrigram then pwEndTrigram wv w else Inr w)"

lemma flushEntry_group:
  assumes "posting_ok (t, ids)" "t \<noteq> prev"
  shows "rbind (rfold (flushEntry wv) (map (pack t) ids) (prev, w)) (\<lambda>(t, w). closePosting wv t w) =
    rbind (closePosting wv prev w) (writePosting wv (t, ids))"
proof -
  obtain i "is" where ids: "ids = i # is" using assms(1) by (cases ids) (auto simp: posting_ok_def)
  have t: "t < invalidTrigram" "\<forall>j \<in> set is. j < 2 ^ 40"
    using assms(1) by (auto simp: posting_ok_def ids_ok_def ids)
  have f: "entry_trigram (pack t i) = t" "entry_fileid (pack t i) = i"
    using assms(1) pack_fields [of t i] by (auto simp: posting_ok_def ids_ok_def ids invalidTrigram_def)
  have "flushEntry wv (pack t i) (prev, w) =
      rbind (rbind (closePosting wv prev w) (pwTrigram t)) (\<lambda>w1. rbind (pwFileid wv i w1) (\<lambda>w2. Inr (t, w2)))"
    using assms(2) by (simp add: flushEntry_def f closePosting_def)
  then show ?thesis
    using t flushEntry_same [OF t]
    by (simp add: ids rbind_assoc writePosting_def closePosting_def less_imp_neq [OF t(1)])
qed

lemma flushEntries_groups:
  assumes "postings_ok gs" "\<forall>g \<in> set gs. fst g \<noteq> prev" 
  shows "rbind (rfold (flushEntry wv) (entries gs) (prev, w)) (\<lambda>(t, w). closePosting wv t w) =
    rbind (closePosting wv prev w) (rfold (writePosting wv) gs)"
  using assms
proof (induction gs arbitrary: prev w)
  case Nil
  then show ?case by (cases "closePosting wv prev w") simp_all
next
  case (Cons g gs)
  obtain t ids where g: "g = (t, ids)" by (cases g)
  have ok: "posting_ok (t, ids)" "postings_ok gs" "\<forall>h \<in> set gs. fst h \<noteq> t" "t \<noteq> prev"
    using Cons.prems by (auto simp: postings_ok_def g)
  obtain i "is" where ids: "ids = i # is" using ok(1) by (cases ids) (auto simp: posting_ok_def)
  have fst_t: "rfold (flushEntry wv) (map (pack t) ids) (prev, w) = Inr (t', w') \<Longrightarrow> t' = t" for t' w'
  proof -
    assume a: "rfold (flushEntry wv) (map (pack t) ids) (prev, w) = Inr (t', w')"
    have f: "entry_trigram (pack t i) = t"
      using ok(1) pack_fields [of t i] by (auto simp: posting_ok_def ids_ok_def ids invalidTrigram_def)
    from a obtain x where "flushEntry wv (pack t i) (prev, w) = Inr x"
      "rfold (flushEntry wv) (map (pack t) is) x = Inr (t', w')"
      by (auto simp: ids rbind_Inr_iff)
    moreover from this(1) obtain w1 where "x = (t, w1)"
      by (auto simp: flushEntry_def Let_def rbind_Inr_iff f)
    moreover have "rfold (flushEntry wv) (map (pack t) is) (t, w1) =
        rbind (rfold (pwFileid wv) is w1) (\<lambda>w'. Inr (t, w'))" for w1
      using ok(1) by (intro flushEntry_same) (auto simp: posting_ok_def ids_ok_def ids)
    ultimately show "t' = t" by (auto simp: rbind_Inr_iff)
  qed
  have "rbind (rfold (flushEntry wv) (entries (g # gs)) (prev, w)) (\<lambda>(t, w). closePosting wv t w) =
    rbind (rfold (flushEntry wv) (map (pack t) ids) (prev, w))
      (\<lambda>s. rbind (rfold (flushEntry wv) (entries gs) s) (\<lambda>(t, w). closePosting wv t w))"
    by (simp add: g rfold_append rbind_assoc)
  also have "\<dots> = rbind (rfold (flushEntry wv) (map (pack t) ids) (prev, w))
      (\<lambda>(t, w). rbind (closePosting wv t w) (rfold (writePosting wv) gs))"
  proof (rule rbind_cong [OF refl])
    fix s assume s: "rfold (flushEntry wv) (map (pack t) ids) (prev, w) = Inr s"
    obtain t' w' where "s = (t', w')" by (cases s)
    with fst_t s Cons.IH [OF ok(2,3)] show "rbind (rfold (flushEntry wv) (entries gs) s) (\<lambda>(t, w). closePosting wv t w) =
        (case s of (t, w) \<Rightarrow> rbind (closePosting wv t w) (rfold (writePosting wv) gs))"
      by auto
  qed
  also have "\<dots> = rbind (rbind (rfold (flushEntry wv) (map (pack t) ids) (prev, w))
      (\<lambda>(t, w). closePosting wv t w)) (rfold (writePosting wv) gs)"
    by (simp add: rbind_assoc case_prod_unfold)
  also have "\<dots> = rbind (rbind (closePosting wv prev w) (writePosting wv (t, ids))) (rfold (writePosting wv) gs)"
    by (simp only: flushEntry_group [OF ok(1,4)])
  finally show ?case by (simp add: g rbind_assoc)
qed

definition postings_bytes :: "nat \<Rightarrow> posting list \<Rightarrow> byte list" where
  "postings_bytes wv gs = concat (map (posting_bytes wv) gs)"

lemma writePostings_noindex:
  assumes "wv = 1 \<or> wv = 2" "pw_clean w" "pwIndex w = None" "list_all posting_ok gs"
  shows "\<exists>w'. rfold (writePosting wv) gs w = Inr w' \<and> pw_clean w' \<and>
    contents (pwOut w') = contents (pwOut w) @ postings_bytes wv gs"
  using assms(2-4)
proof (induction gs arbitrary: w)
  case (Cons g gs)
  obtain t ids where g: "g = (t, ids)" by (cases g)
  have "0 < t" "ids_ok ids" using Cons.prems(3) by (auto simp: g posting_ok_def)
  from writePosting_noindex [OF assms(1) Cons.prems(1) this Cons.prems(2)] obtain w1 where
    "writePosting wv (t, ids) w = Inr w1" "pw_clean w1" "pwIndex w1 = None"
    "contents (pwOut w1) = contents (pwOut w) @ posting_bytes wv (t, ids)" by blast
  with Cons.IH [of w1] Cons.prems(3) show ?case by (auto simp: g postings_bytes_def)
qed (simp add: postings_bytes_def)

lemma flushChunk_ok:
  assumes "wv = 1 \<or> wv = 2" "buf_inv f" "entries_ok (snd (sortPost tmp post))"
  shows "\<exists>f'. flushChunk wv tmp post f = Inr (fst (sortPost tmp post), f', bufOffset f') \<and> buf_inv f' \<and>
    contents f' = contents f @ postings_bytes wv (groups (snd (sortPost tmp post)))"
proof -
  define gs where "gs = groups (snd (sortPost tmp post))"
  define w0 where "w0 = pwInit f None"
  have gs: "postings_ok gs" "entries gs = snd (sortPost tmp post)"
    by (simp_all add: gs_def groups_ok assms(3) entries_groups)
  then have ne: "\<forall>g \<in> set gs. fst g \<noteq> invalidTrigram"
    by (auto simp: postings_ok_def list_all_iff posting_ok_def)
  have "pw_clean w0" "pwIndex w0 = None" "list_all posting_ok gs"
    using assms(2) gs(1) by (simp_all add: w0_def pwInit_def pw_clean_def dw_clean_def dwInit_def postings_ok_def)
  from writePostings_noindex [OF assms(1) this] obtain w' where w':
    "rfold (writePosting wv) gs w0 = Inr w'" "pw_clean w'"
    "contents (pwOut w') = contents f @ postings_bytes wv gs"
    by (auto simp: w0_def pwInit_def pwOut_def dwInit_def)
  have "rbind (rfold (flushEntry wv) (entries gs) (invalidTrigram, w0)) (\<lambda>(t, w). closePosting wv t w) =
      Inr w'"
    using flushEntries_groups [OF gs(1) ne, of wv w0] w'(1) by (simp add: closePosting_def)
  then obtain t w1 where "rfold (flushEntry wv) (entries gs) (invalidTrigram, w0) = Inr (t, w1)"
      "closePosting wv t w1 = Inr w'"
    by (auto simp: rbind_Inr_iff)
  then have "flushChunk wv tmp post f = Inr (fst (sortPost tmp post), pwOut w', bufOffset (pwOut w'))"
    unfolding flushChunk_def closePosting_def [symmetric]
    by (simp add: gs(2) [symmetric] w0_def [symmetric] case_prod_unfold Let_def)
  moreover have "buf_inv (pwOut w')" using w'(2) by (simp add: pw_clean_def dw_clean_def pwOut_def)
  ultimately show ?thesis using w'(3) by (auto simp: gs_def)
qed


section \<open>The contract of a source of entries\<close>

text \<open>Reading until the source is over, with at most \<open>n\<close> calls.\<close>

primrec read_entries :: "('s \<Rightarrow> (u64 option \<times> 's) res) \<Rightarrow> nat \<Rightarrow> 's \<Rightarrow> u64 list res" where
  "read_entries nxt 0 s = Inr []"
| "read_entries nxt (Suc n) s = rbind (nxt s) (\<lambda>(e, s'). case e of
      None \<Rightarrow> Inr []
    | Some e \<Rightarrow> rbind (read_entries nxt n s') (\<lambda>es. Inr (e # es)))"

locale entry_source =
  fixes nxt :: "'s \<Rightarrow> (u64 option \<times> 's) res"
    and ents :: "'s \<Rightarrow> u64 list \<Rightarrow> bool"
  assumes ents_nil: "ents s [] \<Longrightarrow> \<exists>s'. nxt s = Inr (None, s')"
    and ents_cons: "ents s (e # es) \<Longrightarrow> \<exists>s'. nxt s = Inr (Some e, s') \<and> ents s' es"
begin

text \<open>A source has one list of entries.\<close>

lemma ents_unique: "ents s es \<Longrightarrow> ents s fs \<Longrightarrow> es = fs"
proof (induction es arbitrary: s fs)
  case Nil
  with ents_nil [of s] ents_cons show ?case by (cases fs) fastforce+
next
  case (Cons e es)
  obtain s1 where s1: "nxt s = Inr (Some e, s1)" "ents s1 es"
    using ents_cons [OF Cons.prems(1)] by blast
  show ?case
  proof (cases fs)
    case Nil
    with ents_nil [of s] Cons.prems(2) s1 show ?thesis by auto
  next
    case (Cons f fs')
    with ents_cons [of s f fs'] Cons.prems(2) s1 have "e = f" "ents s1 fs'" by auto
    with Cons.IH [OF s1(2)] Cons show ?thesis by simp
  qed
qed

lemma read_all: "ents s es \<Longrightarrow> length es < n \<Longrightarrow> read_entries nxt n s = Inr es"
proof (induction n arbitrary: s es)
  case (Suc n)
  show ?case
  proof (cases es)
    case Nil
    with Suc.prems ents_nil [of s] show ?thesis by auto
  next
    case (Cons e es')
    with Suc.prems(1) ents_cons obtain s' where "nxt s = Inr (Some e, s')" "ents s' es'" by blast
    with Suc.IH [of s' es'] Suc.prems(2) Cons show ?thesis by simp
  qed
qed simp

lemma ents_next:
  assumes "ents s es"
  shows "case es of [] \<Rightarrow> \<exists>s'. nxt s = Inr (None, s')
     | e # es' \<Rightarrow> \<exists>s'. nxt s = Inr (Some e, s') \<and> ents s' es'"
  using assms ents_nil ents_cons by (cases es) simp_all

end

definition ar_boundary :: "nat \<Rightarrow> allPostReader \<Rightarrow> posting list \<Rightarrow> bool" where
  "ar_boundary ver r gs \<longleftrightarrow> list_all posting_ok gs \<and> arTri r = invalidTrigram \<and>
     arDelta r = drInit ver (postings_bytes ver gs)"

definition ar_inside :: "nat \<Rightarrow> allPostReader \<Rightarrow> u32 \<Rightarrow> nat list \<Rightarrow> posting list \<Rightarrow> bool" where
  "ar_inside ver r t ids gs \<longleftrightarrow> list_all posting_ok gs \<and> arTri r = t \<and> 0 < t \<and> t < invalidTrigram \<and>
     -1 \<le> arId r \<and> ids_ok ids \<and> (\<forall>i \<in> set ids. arId r < int i) \<and>
     pending ver (arDelta r) (deltas (arId r) ids @ [0]) (postings_bytes ver gs)"

definition ar_ents :: "nat \<Rightarrow> allPostReader \<Rightarrow> u64 list \<Rightarrow> bool" where
  "ar_ents ver r es \<longleftrightarrow> (ver = 1 \<or> ver = 2) \<and>
     (\<exists>gs. ar_boundary ver r gs \<and> es = entries gs \<or>
           (\<exists>t ids. ar_inside ver r t ids gs \<and> es = map (pack t) ids @ entries gs))"

lemma pending_next:
  "ver = 1 \<or> ver = 2 \<Longrightarrow> pending ver r (d # ds) rest \<Longrightarrow>
   \<exists>r'. drNext r = Inr (int d, r') \<and> pending ver r' ds rest"
  using pending_next_v1 pending_next_v2 by auto

lemma allNext_inside:
  assumes v: "ver = 1 \<or> ver = 2" and "ar_inside ver r t (i # is) gs"
  shows "\<exists>r'. allNext r = Inr (Some (pack t i), r') \<and> ar_inside ver r' t is gs"
proof -
  let ?d = "nat (int i - arId r)"
  have h: "arTri r = t" "0 < t" "t < invalidTrigram" "-1 \<le> arId r" "arId r < int i" "i < 2 ^ 40"
    "ids_ok is" "\<forall>j \<in> set is. i < j" "list_all posting_ok gs"
    "pending ver (arDelta r) (?d # (deltas (int i) is @ [0])) (postings_bytes ver gs)"
    using assms(2) by (auto simp: ar_inside_def ids_ok_def)
  obtain dr where dr: "drNext (arDelta r) = Inr (int ?d, dr)"
      "pending ver dr (deltas (int i) is @ [0]) (postings_bytes ver gs)"
    using pending_next [OF v h(10)] by blast
  have w: "wrap64 (arId r + int ?d) = int i" "int ?d \<noteq> 0" using h(4-6) by simp_all
  let ?r = "r\<lparr>arDelta := dr, arId := int i\<rparr>"
  have "allNext r = Inr (Some (pack t i), ?r)"
    using h(1,3,6) dr(1) w
    by (subst allNext.simps) (simp add: arStart_def less_imp_neq makePostEntry_ok del: of_nat_nat)
  moreover have "ar_inside ver ?r t is gs"
    using h dr(2) by (simp add: ar_inside_def)
  ultimately show ?thesis by blast
qed

lemma boundary_start:
  assumes v: "ver = 1 \<or> ver = 2" and "ar_boundary ver r ((t, ids) # gs)"
  shows "\<exists>r1. arStart r = Inr (Some r1) \<and> ar_inside ver r1 t ids gs"
proof -
  have ok: "0 < t" "t < invalidTrigram" "ids_ok ids" "list_all posting_ok gs"
    using assms(2) by (auto simp: ar_boundary_def posting_ok_def)
  then have "t \<le> 0xFFFFFF" by (simp add: invalidTrigram_def)
  then obtain a b c where abc: "tri_bytes t = [a, b, c]" "read_tri a b c = t"
    by (rule tri_bytes_eq)
  let ?data = "delta_enc ver (deltas (-1) ids @ [0]) @ postings_bytes ver gs"
  let ?r = "r\<lparr>arTri := t, arId := -1, arDelta := drInit ver ?data\<rparr>"
  have "arStart r = Inr (Some ?r)"
    using assms(2) abc
    by (simp add: arStart_def ar_boundary_def drInit_def postings_bytes_def posting_bytes_def)
  moreover have ids: "sorted_wrt (<) ids" "\<forall>i \<in> set ids. -1 < int i \<and> i < 2 ^ 40"
    using ok(3) by (auto simp: ids_ok_def)
  then have "\<forall>d \<in> set (deltas (-1) ids @ [0]). d < 2 ^ 62"
    using deltas_bound [OF ids] by auto
  then have "pending ver (drInit ver ?data) (deltas (-1) ids @ [0]) (postings_bytes ver gs)"
    by (rule pending_init_ok [OF v])
  then have "ar_inside ver ?r t ids gs" using ok ids by (simp add: ar_inside_def)
  ultimately show ?thesis by blast
qed

lemma allNext_started:
  assumes "arStart r = Inr (Some r1)" "arTri r1 \<noteq> invalidTrigram"
  shows "allNext r = allNext r1"
proof -
  have "arStart r1 = Inr (Some r1)" using assms(2) by (simp add: arStart_def)
  with assms(1) show ?thesis by (subst (1 2) allNext.simps) simp
qed

lemma allNext_boundary:
  assumes v: "ver = 1 \<or> ver = 2" and "ar_boundary ver r gs"
  shows "case gs of [] \<Rightarrow> allNext r = Inr (None, r)
    | (t, ids) # gs' \<Rightarrow> \<exists>r'. allNext r = Inr (Some (pack t (hd ids)), r') \<and> ar_inside ver r' t (tl ids) gs'"
proof (cases gs)
  case Nil
  then show ?thesis
    using assms(2) by (subst allNext.simps)
      (simp add: arStart_def ar_boundary_def drInit_def postings_bytes_def)
next
  case (Cons g gs')
  obtain t ids where g: "g = (t, ids)" by (cases g)
  with assms(2) Cons have "ids \<noteq> []" by (auto simp: ar_boundary_def posting_ok_def)
  then obtain i "is" where ids: "ids = i # is" by (cases ids) auto
  obtain r1 where r1: "arStart r = Inr (Some r1)" "ar_inside ver r1 t (i # is) gs'"
    using boundary_start [OF v] assms(2) unfolding Cons g ids by blast
  then have "allNext r = allNext r1"
    by (intro allNext_started) (auto simp: ar_inside_def)
  with allNext_inside [OF v r1(2)] show ?thesis by (simp add: Cons g ids)
qed

lemma allNext_end:
  assumes v: "ver = 1 \<or> ver = 2" and "ar_inside ver r t [] gs"
  shows "\<exists>r1. allNext r = allNext r1 \<and> ar_boundary ver r1 gs"
proof -
  have h: "arTri r = t" "t \<noteq> invalidTrigram" "pending ver (arDelta r) [0] (postings_bytes ver gs)"
    "list_all posting_ok gs"
    using assms(2) by (auto simp: ar_inside_def)
  obtain dr where dr: "drNext (arDelta r) = Inr (int 0, dr)" "pending ver dr [] (postings_bytes ver gs)"
    using pending_next [OF v h(3)] by blast
  let ?r = "r\<lparr>arDelta := clearBits dr, arTri := invalidTrigram\<rparr>"
  have "allNext r = allNext ?r"
    using h(1,2) dr(1) by (subst allNext.simps) (simp add: arStart_def)
  moreover have "ar_boundary ver ?r gs"
    using pending_clear_ok [OF v dr(2)] h(4) by (simp add: ar_boundary_def)
  ultimately show ?thesis by blast
qed

lemma ar_ents_next:
  assumes "ar_ents ver r es"
  shows "case es of [] \<Rightarrow> \<exists>r'. allNext r = Inr (None, r')
    | e # es' \<Rightarrow> \<exists>r'. allNext r = Inr (Some e, r') \<and> ar_ents ver r' es'"
proof -
  have v: "ver = 1 \<or> ver = 2" using assms by (simp add: ar_ents_def)
  have bnd: "case entries gs of [] \<Rightarrow> \<exists>r'. allNext r = Inr (None, r')
      | e # es' \<Rightarrow> \<exists>r'. allNext r = Inr (Some e, r') \<and> ar_ents ver r' es'"
    if b: "ar_boundary ver r gs" for r gs
  proof (cases gs)
    case Nil
    with allNext_boundary [OF v b] show ?thesis by simp
  next
    case (Cons g gs')
    obtain t ids where g: "g = (t, ids)" by (cases g)
    with b Cons have "ids \<noteq> []" by (auto simp: ar_boundary_def posting_ok_def)
    then obtain i "is" where ids: "ids = i # is" by (cases ids) auto
    obtain r' where "allNext r = Inr (Some (pack t i), r')" "ar_inside ver r' t is gs'"
      using allNext_boundary [OF v b] by (auto simp: Cons g ids)
    then show ?thesis using v by (auto simp: Cons g ids ar_ents_def)
  qed
  from assms consider (b) gs where "ar_boundary ver r gs" "es = entries gs"
    | (i) gs t ids where "ar_inside ver r t ids gs" "es = map (pack t) ids @ entries gs"
    by (auto simp: ar_ents_def)
  then show ?thesis
  proof cases
    case b
    with bnd show ?thesis by simp
  next
    case i
    show ?thesis
    proof (cases ids)
      case Nil
      with i(1) have "ar_inside ver r t [] gs" by simp
      from allNext_end [OF v this] obtain r1 where "allNext r = allNext r1" "ar_boundary ver r1 gs"
        by blast
      with bnd [of r1 gs] i(2) Nil show ?thesis by (simp split: list.split_asm list.split)
    next
      case (Cons j js)
      with allNext_inside [OF v] i obtain r' where "allNext r = Inr (Some (pack t j), r')"
        "ar_inside ver r' t js gs" by blast
      then show ?thesis using v by (auto simp: i(2) Cons ar_ents_def)
    qed
  qed
qed

interpretation chunk: entry_source allNext "ar_ents ver" for ver
proof
  show "\<exists>s'. allNext s = Inr (None, s')" if "ar_ents ver s []" for s
    using ar_ents_next [OF that] by simp
  show "\<exists>s'. allNext s = Inr (Some e, s') \<and> ar_ents ver s' es" if "ar_ents ver s (e # es)" for s e es
    using ar_ents_next [OF that] by simp
qed

lemma ar_ents_init:
  assumes "ver = 1 \<or> ver = 2" "list_all posting_ok gs"
  shows "ar_ents ver (arInit ver (postings_bytes ver gs)) (entries gs)"
  using assms by (auto simp: ar_ents_def ar_boundary_def arInit_def)


section \<open>Properties\<close>

lemma strict_sorted_iff: "sorted_wrt (<) (xs :: 'a::linorder list) \<longleftrightarrow> sorted xs \<and> distinct xs"
  by (induction xs) (auto simp: le_less)

text \<open>Entries as \<open>Add\<close> makes them: in file order, without repetition, from text files.\<close>

definition post_ok :: "u64 list \<Rightarrow> bool" where
  "post_ok post \<longleftrightarrow> sorted (map entry_fileid post) \<and> distinct post \<and>
     (\<forall>e \<in> set post. 0 < entry_trigram e \<and> entry_trigram e < invalidTrigram)"

lemma post_ok_sortPost:
  assumes "post_ok post"
  shows "entries_ok (snd (sortPost tmp post))" "snd (sortPost tmp post) = sort post"
    "set (snd (sortPost tmp post)) = set post"
proof -
  have m: "mset (snd (sortPost tmp post)) = mset post" by (simp add: sortPost_stable_sort)
  have s: "sorted (snd (sortPost tmp post))"
    using assms by (intro sortPost_sorted) (simp add: post_ok_def)
  show st: "set (snd (sortPost tmp post)) = set post" using m by (metis set_mset_mset)
  from s m show "snd (sortPost tmp post) = sort post" by (metis properties_for_sort)
  have "distinct (snd (sortPost tmp post))"
    using m assms by (metis mset_eq_imp_distinct_iff post_ok_def)
  with s st assms show "entries_ok (snd (sortPost tmp post))"
    by (simp add: entries_ok_def strict_sorted_iff post_ok_def)
qed

text \<open>
  C13. A flush writes a chunk that the reader of temporary files reads back as exactly the
  entries that were in memory, in the order of their words, and no more.
\<close>

theorem flush_chunk_roundtrip:
  assumes "wv = 1 \<or> wv = 2" "buf_inv f" "post_ok post"
  shows "\<exists>tmp' f' chunk. flushChunk wv tmp post f = Inr (tmp', f', bufOffset f') \<and> buf_inv f' \<and>
    contents f' = contents f @ chunk \<and>
    read_entries allNext (length post + 1) (arInit wv chunk) = Inr (sort post)"
proof -
  define es where "es = snd (sortPost tmp post)"
  have es: "entries_ok es" "es = sort post"
    using post_ok_sortPost [OF assms(3), of tmp] by (simp_all add: es_def)
  from flushChunk_ok [OF assms(1,2) es(1) [unfolded es_def]] obtain f' where f':
    "flushChunk wv tmp post f = Inr (fst (sortPost tmp post), f', bufOffset f')" "buf_inv f'"
    "contents f' = contents f @ postings_bytes wv (groups es)" by (auto simp: es_def)
  have "list_all posting_ok (groups es)" using groups_ok [OF es(1)] by (simp add: postings_ok_def)
  from ar_ents_init [OF assms(1) this]
  have "read_entries allNext (length post + 1) (arInit wv (postings_bytes wv (groups es))) = Inr es"
    by (intro chunk.read_all) (simp_all add: entries_groups es(2))
  with f' es(2) show ?thesis by blast
qed

theorem flush_chunk_roundtrip_witness:
  "\<exists>tmp' f' chunk. flushChunk 1 [] [pack 5 1, pack 3 1, pack 5 2] (bufCreate (\<lambda>n. n)) = Inr (tmp', f', bufOffset f') \<and>
    buf_inv f' \<and> contents f' = contents (bufCreate (\<lambda>n. n)) @ chunk \<and>
    read_entries allNext (length [pack 5 1, pack 3 1, pack 5 2] + 1) (arInit 1 chunk) =
      Inr (sort [pack 5 1, pack 3 1, pack 5 2])"
  by (rule flush_chunk_roundtrip)
    (simp_all add: post_ok_def pack_fields invalidTrigram_def, simp add: pack_def)

end
