(* ===== verification/Heap_Order.thy ===== *)
theory Heap_Order
  imports Prelude "HOL-Library.Multiset"
begin

text \<open>
  Binary heaps in a slice, as the program has them twice: \<open>postHeap\<close> of
  \<open>internal/codesearch/index/write.go\<close> and the use of \<open>container/heap\<close> in
  \<open>internal/index/extract.go\<close>.  The two differ in what they do with equal keys: which child
  \<open>down\<close> picks and when a sift stops.

  The locale \<open>heap_sift\<close> is what both have in common: choices \<open>pick\<close> (the second child is
  taken) and \<open>stay\<close> (a parent and a child are in order) that agree with the order of the keys, and the
  unfolding equations of the two sifts.  Its lemmas show that a sift restores the heap order and keeps the
  elements; \<open>heap_min\<close> that the first element is a smallest one.
\<close>

section \<open>The heap order\<close>

definition parent :: "nat \<Rightarrow> nat" where
  "parent k = (k - 1) div 2"

lemma parent_less: "0 < k \<Longrightarrow> parent k < k" "parent k \<le> k" "parent k = k \<longleftrightarrow> k = 0"
  unfolding parent_def by presburger+

lemma child_cases: "0 < k \<Longrightarrow> parent k = i \<Longrightarrow> k = 2 * i + 1 \<or> k = 2 * i + 2"
  unfolding parent_def by presburger

lemma child_parent: "parent (2 * i + 1) = i" "parent (2 * i + 2) = i"
  unfolding parent_def by presburger+

lemma parent_bound: "0 < k \<Longrightarrow> k < n \<Longrightarrow> parent k < n"
  using parent_less(1) [of k] by linarith

definition heap_ord :: "('a \<Rightarrow> 'k :: linorder) \<Rightarrow> 'a list \<Rightarrow> bool" where
  "heap_ord key ch \<longleftrightarrow> (\<forall>k. 0 < k \<and> k < length ch \<longrightarrow> key (ch ! (parent k)) \<le> key (ch ! k))"

text \<open>The order with one element that may be too large for its place, or too small.\<close>

definition down_ord :: "('a \<Rightarrow> 'k :: linorder) \<Rightarrow> nat \<Rightarrow> 'a list \<Rightarrow> bool" where
  "down_ord key i ch \<longleftrightarrow>
     (\<forall>k. 0 < k \<and> k < length ch \<and> parent k \<noteq> i \<longrightarrow> key (ch ! (parent k)) \<le> key (ch ! k)) \<and>
     (\<forall>k. 0 < k \<and> k < length ch \<and> parent k = i \<and> 0 < i \<longrightarrow> key (ch ! (parent i)) \<le> key (ch ! k))"

definition up_ord :: "('a \<Rightarrow> 'k :: linorder) \<Rightarrow> nat \<Rightarrow> 'a list \<Rightarrow> bool" where
  "up_ord key j ch \<longleftrightarrow>
     (\<forall>k. 0 < k \<and> k < length ch \<and> k \<noteq> j \<longrightarrow> key (ch ! (parent k)) \<le> key (ch ! k)) \<and>
     (\<forall>k. 0 < k \<and> k < length ch \<and> parent k = j \<and> 0 < j \<longrightarrow> key (ch ! (parent j)) \<le> key (ch ! k))"

lemma heap_ord_small [simp]: "heap_ord key []" "heap_ord key [c]"
  by (simp_all add: heap_ord_def)

lemma down_ord_swap:
  assumes "down_ord key i ch" "i < length ch" "j < length ch" "j = 2 * i + 1 \<or> j = 2 * i + 2"
    and "key (ch ! j) \<le> key (ch ! i)"
    and "\<And>k. k = 2 * i + 1 \<or> k = 2 * i + 2 \<Longrightarrow> k < length ch \<Longrightarrow> key (ch ! j) \<le> key (ch ! k)"
  shows "down_ord key j (ch[i := ch ! j, j := ch ! i])"
proof -
  have ij: "i < j" "i \<noteq> j" "parent j = i" using assms(4) child_parent by auto
  define c where "c = ch[i := ch ! j, j := ch ! i]"
  have nth: "c ! k = (if k = i then ch ! j else if k = j then ch ! i else ch ! k)" if "k < length ch" for k
    using that assms(2,3) ij by (simp add: c_def nth_list_update)
  have e1: "key (ch ! (parent k)) \<le> key (ch ! k)"
    if "0 < k" "k < length ch" "parent k \<noteq> i" for k
    using assms(1) that by (simp add: down_ord_def)
  have e2: "key (ch ! (parent i)) \<le> key (ch ! j)" if "0 < i"
    using assms(1,3) that ij by (simp add: down_ord_def)
  have "key (c ! (parent k)) \<le> key (c ! k)"
    if k: "0 < k" "k < length ch" "parent k \<noteq> j" for k
  proof -
    have p: "parent k < length ch" "parent k < k" using k parent_bound parent_less by auto
    show ?thesis
    proof (cases "parent k = i")
      case True
      with child_cases [OF k(1)] have "key (ch ! j) \<le> key (ch ! k)" using assms(6) k(2) by blast
      with True nth [OF k(2)] nth [OF p(1)] p(2) assms(5) show ?thesis by auto
    next
      case False
      then have "k \<noteq> j" using ij(3) by auto
      show ?thesis
      proof (cases "k = i")
        case True
        with k(1) have "0 < i" by simp
        have "c ! k = ch ! j" using True nth [OF k(2)] by simp
        moreover have "c ! (parent k) = ch ! (parent i)"
          using True nth [OF p(1)] False k(3) by simp
        ultimately show ?thesis using e2 [OF \<open>0 < i\<close>] by simp
      next
        case ki: False
        with \<open>k \<noteq> j\<close> False k(3) nth [OF k(2)] nth [OF p(1)] e1 [OF k(1,2) False] show ?thesis by simp
      qed
    qed
  qed
  moreover have "key (c ! (parent j)) \<le> key (c ! k)"
    if k: "0 < k" "k < length ch" "parent k = j" for k
  proof -
    have "k \<noteq> i" "k \<noteq> j" using k ij parent_less [of k] by auto
    with e1 [OF k(1,2)] k ij nth [OF k(2)] nth [OF assms(2)] show ?thesis by auto
  qed
  ultimately have "down_ord key j c" by (simp add: down_ord_def c_def)
  then show ?thesis by (simp only: c_def)
qed

lemma up_ord_swap:
  assumes "up_ord key j ch" "j < length ch" "0 < j" and le: "key (ch ! j) \<le> key (ch ! (parent j))"
  shows "up_ord key (parent j) (ch[parent j := ch ! j, j := ch ! (parent j)])"
proof -
  define i where "i = parent j"
  have lt: "i < j" "i < length ch" using parent_less(1) [OF assms(3)] assms(2) by (auto simp: i_def)
  define c where "c = ch[i := ch ! j, j := ch ! i]"
  have nth: "c ! k = (if k = i then ch ! j else if k = j then ch ! i else ch ! k)" if "k < length ch" for k
    using that assms(2) lt by (simp add: c_def nth_list_update)
  have len: "length c = length ch" by (simp add: c_def)
  have le: "key (ch ! j) \<le> key (ch ! i)" using le by (simp add: i_def)
  have e1: "key (ch ! (parent k)) \<le> key (ch ! k)" if "0 < k" "k < length ch" "k \<noteq> j" for k
    using assms(1) that by (simp add: up_ord_def)
  have e2: "key (ch ! i) \<le> key (ch ! k)" if "0 < k" "k < length ch" "parent k = j" for k
    using assms(1,3) that by (simp add: up_ord_def i_def)
  have "up_ord key i c"
    unfolding up_ord_def len
  proof (intro conjI allI impI; elim conjE)
    fix k assume k: "0 < k" "k < length ch" "k \<noteq> i"
    have p: "parent k < length ch" "parent k < k" using k parent_bound parent_less by auto
    show "key (c ! (parent k)) \<le> key (c ! k)"
    proof (cases "k = j")
      case True
      then show ?thesis using nth [OF k(2)] nth [OF p(1)] le lt by (auto simp: i_def)
    next
      case False
      have "parent k = i \<Longrightarrow> key (ch ! i) \<le> key (ch ! k)" using e1 [OF k(1,2) False] by simp
      with False e1 [OF k(1,2) False] e2 [OF k(1,2)] nth [OF k(2)] nth [OF p(1)] k(3) le show ?thesis
        by auto
    qed
  next
    fix k assume k: "0 < k" "k < length ch" "parent k = i" "0 < i"
    have p: "parent i < length ch" "parent i < i" "k \<noteq> i"
      using k lt parent_bound [of i "length ch"] parent_less [of i] parent_less [of k] by auto
    have "key (ch ! (parent i)) \<le> key (ch ! i)" using e1 [of i] k(4) lt by simp
    moreover have "key (ch ! i) \<le> key (ch ! k)" if "k \<noteq> j" using e1 [OF k(1,2) that] k(3) by simp
    ultimately show "key (c ! (parent i)) \<le> key (c ! k)"
      using nth [OF k(2)] nth [OF p(1)] p lt by auto
  qed
  then show ?thesis by (simp only: c_def i_def)
qed

lemma heap_min: "heap_ord key h \<Longrightarrow> k < length h \<Longrightarrow> key (h ! 0) \<le> key (h ! k)"
proof (induction k rule: less_induct)
  case (less k)
  show ?case
  proof (cases "k = 0")
    case False
    then have p: "parent k < k" by (rule parent_less(1) [OF neq0_conv [THEN iffD1]])
    with less have "key (h ! 0) \<le> key (h ! (parent k))" by simp
    also have "\<dots> \<le> key (h ! k)" using less.prems False by (simp add: heap_ord_def)
    finally show ?thesis .
  qed simp
qed

lemma down_ord_root:
  assumes "heap_ord key h" "length ch \<le> length h" "\<And>k. 0 < k \<Longrightarrow> k < length ch \<Longrightarrow> ch ! k = h ! k"
  shows "down_ord key 0 ch"
  unfolding down_ord_def
proof (intro conjI allI impI; elim conjE)
  fix k assume k: "0 < k" "k < length ch" "parent k \<noteq> 0"
  then have "parent k < length ch" by (auto intro: parent_bound)
  with k assms show "key (ch ! (parent k)) \<le> key (ch ! k)" by (simp add: heap_ord_def)
qed simp

lemma up_ord_snoc:
  assumes h: "heap_ord key h"
  shows "up_ord key (length h) (h @ [c])"
  unfolding up_ord_def
  proof (intro conjI allI impI; elim conjE)
  fix k assume k: "0 < k" "k < length (h @ [c])" "k \<noteq> length h"
  then have "k < length h" "parent k < length h" using parent_bound [of k "length h"] by auto
  with h k(1) show "key ((h @ [c]) ! (parent k)) \<le> key ((h @ [c]) ! k)"
    by (simp add: heap_ord_def nth_append)
  next
  fix k assume k: "0 < k" "k < length (h @ [c])" "parent k = length h"
  with parent_less(1) [of k] show "key ((h @ [c]) ! parent (length h)) \<le> key ((h @ [c]) ! k)" by simp
  qed

section \<open>Sifting\<close>

locale heap_sift =
  fixes key :: "'a \<Rightarrow> 'k :: linorder" and pick stay :: "'a \<Rightarrow> 'a \<Rightarrow> bool"
    and down up :: "nat \<Rightarrow> 'a list \<Rightarrow> 'a list"
  assumes pick: "pick a b \<Longrightarrow> key b \<le> key a" "\<not> pick a b \<Longrightarrow> key a \<le> key b"
    and stay: "stay a b \<Longrightarrow> key a \<le> key b" "\<not> stay a b \<Longrightarrow> key b \<le> key a"
    and down_eq: "down i ch = (let j1 = 2 * i + 1 in
      if j1 \<ge> length ch then ch
      else let j = (if j1 + 1 < length ch \<and> pick (ch ! j1) (ch ! (j1 + 1)) then j1 + 1 else j1)
           in if stay (ch ! i) (ch ! j) then ch else down j (ch[i := ch ! j, j := ch ! i]))"
    and up_eq: "up j ch = (let i = (j - 1) div 2 in
      if i = j \<or> stay (ch ! i) (ch ! j) then ch else up i (ch[i := ch ! j, j := ch ! i]))"
begin

lemma down_ok:
  "down_ord key i ch \<Longrightarrow> i < length ch \<Longrightarrow> heap_ord key (down i ch) \<and> mset (down i ch) = mset ch"
proof (induction "length ch - i" arbitrary: i ch rule: less_induct)
  case less
  let ?j1 = "2 * i + 1"
  define j where "j = (if ?j1 + 1 < length ch \<and> pick (ch ! ?j1) (ch ! (?j1 + 1)) then ?j1 + 1 else ?j1)"
  have unfold: "down i ch = (if ?j1 \<ge> length ch then ch
      else if stay (ch ! i) (ch ! j) then ch else down j (ch[i := ch ! j, j := ch ! i]))"
    unfolding j_def by (subst down_eq) (simp only: Let_def)
  have e: "key (ch ! (parent k)) \<le> key (ch ! k)" if "0 < k" "k < length ch" "parent k \<noteq> i" for k
    using less.prems(1) that by (simp add: down_ord_def)
  show ?case
  proof (cases "?j1 \<ge> length ch")
    case True
    have "heap_ord key ch"
      unfolding heap_ord_def
    proof (intro allI impI)
      fix k assume k: "0 < k \<and> k < length ch"
      with True child_cases [of k i] have "parent k \<noteq> i" by auto
      with e k show "key (ch ! (parent k)) \<le> key (ch ! k)" by simp
    qed
    with unfold True show ?thesis by simp
  next
    case j1: False
    have j: "j < length ch" "i < j" "j = 2 * i + 1 \<or> j = 2 * i + 2" using j1 by (auto simp: j_def)
    have jmin: "key (ch ! j) \<le> key (ch ! k)" if "k = 2 * i + 1 \<or> k = 2 * i + 2" "k < length ch" for k
      using that j1 pick [of "ch ! ?j1" "ch ! (?j1 + 1)"] by (auto simp: j_def)
    show ?thesis
    proof (cases "stay (ch ! i) (ch ! j)")
      case True
      have "key (ch ! (parent k)) \<le> key (ch ! k)" if k: "0 < k" "k < length ch" for k
        using e [OF k] child_cases [OF k(1)] jmin [OF _ k(2)] stay(1) [OF True] by (cases "parent k = i") auto
      with unfold j1 True show ?thesis by (simp add: heap_ord_def)
    next
      case False
      let ?c = "ch[i := ch ! j, j := ch ! i]"
      have "down_ord key j ?c"
        by (rule down_ord_swap) (use less.prems j jmin stay(2) [OF False] in auto)
      then have "heap_ord key (down j ?c) \<and> mset (down j ?c) = mset ?c"
        using j by (intro less.hyps) (auto simp: diff_less_mono2)
      moreover have "mset ?c = mset ch" using less.prems(2) j(1) by (subst mset_swap) simp_all
      ultimately show ?thesis using unfold j1 False by simp
    qed
  qed
qed

lemma up_ok: "up_ord key j ch \<Longrightarrow> j < length ch \<Longrightarrow> heap_ord key (up j ch) \<and> mset (up j ch) = mset ch"
proof (induction j arbitrary: ch rule: less_induct)
  case (less j)
  have unfold: "up j ch = (if parent j = j \<or> stay (ch ! (parent j)) (ch ! j) then ch
      else up (parent j) (ch[parent j := ch ! j, j := ch ! (parent j)]))"
    unfolding parent_def by (subst up_eq) (simp only: Let_def)
  show ?case
  proof (cases "parent j = j \<or> stay (ch ! (parent j)) (ch ! j)")
    case True
    have "key (ch ! (parent k)) \<le> key (ch ! k)" if k: "0 < k" "k < length ch" for k
      using less.prems(1) k True stay(1) parent_less(3) [of j] by (cases "k = j") (auto simp: up_ord_def)
    with unfold True show ?thesis by (simp add: heap_ord_def)
  next
    case False
    then have lt: "0 < j" "parent j < j" using parent_less by (auto simp: parent_def)
    let ?c = "ch[parent j := ch ! j, j := ch ! (parent j)]"
    have "up_ord key (parent j) ?c"
      by (rule up_ord_swap) (use less.prems lt False stay(2) in auto)
    then have "heap_ord key (up (parent j) ?c) \<and> mset (up (parent j) ?c) = mset ?c"
      using less.IH [OF lt(2), of ?c] less.prems(2) lt by simp
    moreover have "mset ?c = mset ch" using less.prems(2) lt by (subst mset_swap) simp_all
    ultimately show ?thesis using unfold False by simp
  qed
qed

lemma up_snoc:
  assumes "heap_ord key h"
  shows "heap_ord key (up (length h) (h @ [c]))" "mset (up (length h) (h @ [c])) = add_mset c (mset h)"
  using up_ok [OF up_ord_snoc [OF assms]] by simp_all

lemma down_root:
  assumes "heap_ord key h" "length ch < length h" "\<And>k. k < length ch \<Longrightarrow> ch ! k = h ! Suc k"
  shows "heap_ord key (down 0 (d # ch))" "mset (down 0 (d # ch)) = add_mset d (mset ch)"
proof -
  have "down_ord key 0 (d # ch)"
    using assms(1) by (rule down_ord_root) (use assms(2,3) in \<open>auto simp: nth_Cons'\<close>)
  from down_ok [OF this] show "heap_ord key (down 0 (d # ch))" "mset (down 0 (d # ch)) = add_mset d (mset ch)"
    by simp_all
qed

end

end
