(* ===== verification/Post_Heap.thy ===== *)
theory Post_Heap
  imports Post_Writer Heap_Order
begin

text \<open>
  The priority queue of \<open>internal/codesearch/index/write.go\<close> (\<open>postHeap\<close>) that merges the
  sorted chunks of post entries: a binary heap of chunks in a slice, ordered by the entry each
  chunk is at.  The rest of a chunk is a source of entries; the operations take its \<open>next\<close>
  function as an argument, as the code stores it in the chunk.

  The sifts keep the chunks and restore the heap order by \<open>heap_sift\<close>; the lemmas show, for any
  source that keeps the contract \<open>entry_source\<close>, that \<open>next\<close> delivers the entries of all
  chunks in ascending order.
\<close>

section \<open>Operations\<close>

record 's postChunk =
  ce :: u64
  csrc :: 's

function siftDown :: "nat \<Rightarrow> 's postChunk list \<Rightarrow> 's postChunk list" where
  "siftDown i ch =
     (let j1 = 2 * i + 1 in
      if j1 \<ge> length ch then ch
      else let j2 = j1 + 1;
               j = (if j2 < length ch \<and> ce (ch ! j1) \<ge> ce (ch ! j2) then j2 else j1)
           in if ce (ch ! i) < ce (ch ! j) then ch
              else siftDown j (ch[i := ch ! j, j := ch ! i]))"
  by pat_completeness auto
termination by (relation "measure (\<lambda>(i, ch). length ch - i)") (auto simp: Let_def split: if_splits)

function siftUp :: "nat \<Rightarrow> 's postChunk list \<Rightarrow> 's postChunk list" where
  "siftUp j ch =
     (let i = (j - 1) div 2 in
      if i = j \<or> ce (ch ! i) < ce (ch ! j) then ch
      else siftUp i (ch[i := ch ! j, j := ch ! i]))"
  by pat_completeness auto
termination by (relation "measure fst") auto

declare siftDown.simps [simp del] siftUp.simps [simp del]

definition heapEmpty :: "'s postChunk list \<Rightarrow> bool" where
  "heapEmpty h \<longleftrightarrow> length h = 0"

definition heapPush :: "'s postChunk \<Rightarrow> 's postChunk list \<Rightarrow> 's postChunk list" where
  "heapPush c h =
     (let n = length h; ch = h @ [c] in if length ch \<ge> 2 then siftUp n ch else ch)"

definition heapPop :: "'s postChunk list \<Rightarrow> 's postChunk list" where
  "heapPop h =
     (let n = length h - 1; ch = take n (h[0 := h ! n])
      in if n > 1 then siftDown 0 ch else ch)"

definition heapAdd :: "('s \<Rightarrow> (u64 option \<times> 's) res) \<Rightarrow> 's \<Rightarrow> 's postChunk list \<Rightarrow> 's postChunk list res" where
  "heapAdd nxt s h = rbind (nxt s) (\<lambda>(x, s'). case x of
       None \<Rightarrow> Inr h
     | Some e \<Rightarrow> Inr (heapPush \<lparr>ce = e, csrc = s'\<rparr> h))"

text \<open>\<open>step\<close> checks the order within a chunk; \<open>None\<close> when the chunk is over.\<close>

definition heapStep :: "('s \<Rightarrow> (u64 option \<times> 's) res) \<Rightarrow> 's postChunk \<Rightarrow> 's postChunk option res" where
  "heapStep nxt c = rbind (nxt (csrc c)) (\<lambda>(x, s'). case x of
       None \<Rightarrow> Inr None
     | Some e \<Rightarrow> if ce c \<ge> e then Inl Panic else Inr (Some \<lparr>ce = e, csrc = s'\<rparr>))"

definition heapNext :: "('s \<Rightarrow> (u64 option \<times> 's) res) \<Rightarrow> 's postChunk list \<Rightarrow> (u64 \<times> 's postChunk list) res" where
  "heapNext nxt h =
     (if length h = 0 then rbind (makePostEntry invalidTrigram 0) (\<lambda>e. Inr (e, h))
      else let c = h ! 0; e = ce c
           in rbind (nxt (csrc c)) (\<lambda>(x, s'). case x of
                None \<Rightarrow> Inr (e, heapPop h)
              | Some e1 \<Rightarrow> Inr (e, siftDown 0 (h[0 := \<lparr>ce = e1, csrc = s'\<rparr>]))))"

section \<open>The heap order\<close>

abbreviation heap_ok :: "'s postChunk list \<Rightarrow> bool" where
  "heap_ok \<equiv> heap_ord ce"

interpretation post: heap_sift ce "\<lambda>a b. ce a \<ge> ce b" "\<lambda>a b. ce a < ce b" siftDown siftUp
proof unfold_locales
  fix i and ch :: "'s postChunk list"
  show "siftDown i ch = (let j1 = 2 * i + 1 in
      if j1 \<ge> length ch then ch
      else let j = (if j1 + 1 < length ch \<and> ce (ch ! j1) \<ge> ce (ch ! (j1 + 1)) then j1 + 1 else j1)
           in if ce (ch ! i) < ce (ch ! j) then ch else siftDown j (ch[i := ch ! j, j := ch ! i]))"
    by (subst siftDown.simps) (simp only: Let_def)
next
  fix j and ch :: "'s postChunk list"
  show "siftUp j ch = (let i = (j - 1) div 2 in
      if i = j \<or> ce (ch ! i) < ce (ch ! j) then ch else siftUp i (ch[i := ch ! j, j := ch ! i]))"
    by (rule siftUp.simps)
qed simp_all

lemma heapPush_ok:
  assumes "heap_ok h"
  shows "heap_ok (heapPush c h) \<and> mset (heapPush c h) = add_mset c (mset h)"
  using post.up_snoc [OF assms, of c] by (cases h) (simp_all add: heapPush_def Let_def)

lemma heapReplace_ok:
  assumes "heap_ok (c # h)"
  shows "heap_ok (siftDown 0 (d # h)) \<and> mset (siftDown 0 (d # h)) = add_mset d (mset h)"
  using post.down_root [OF assms, of h d] by simp

lemma heapPop_ok:
  assumes "heap_ok (c # h)"
  shows "heap_ok (heapPop (c # h)) \<and> mset (heapPop (c # h)) = mset h"
proof (cases h rule: rev_cases)
  case Nil
  then show ?thesis by (simp add: heapPop_def)
next
  case (snoc h' d)
  then have p: "take (length (c # h) - 1) ((c # h)[0 := (c # h) ! (length (c # h) - 1)]) = d # h'"
    by simp
  have "heap_ok (siftDown 0 (d # h')) \<and> mset (siftDown 0 (d # h')) = mset h"
    using post.down_root [OF assms, of h' d] by (simp add: snoc nth_append)
  then show ?thesis unfolding heapPop_def Let_def p by (cases h') (simp_all add: snoc)
qed

section \<open>Merging sources\<close>

context entry_source begin

definition chunk_ok :: "'s postChunk \<Rightarrow> bool" where
  "chunk_ok c \<longleftrightarrow> (\<exists>es. ents (csrc c) es \<and> sorted (ce c # es))"

definition chunk_ents :: "'s postChunk \<Rightarrow> u64 multiset" where
  "chunk_ents c = add_mset (ce c) (mset (THE es. ents (csrc c) es))"

text \<open>\<open>heap_seq h es\<close>: the entries still in the heap are, in order, \<open>es\<close>.\<close>

definition heap_seq :: "'s postChunk list \<Rightarrow> u64 list \<Rightarrow> bool" where
  "heap_seq h es \<longleftrightarrow> heap_ok h \<and> (\<forall>c \<in># mset h. chunk_ok c) \<and> sorted es \<and>
     mset es = (\<Sum>c \<in># mset h. chunk_ents c)"

lemma chunk_ents_eq: "ents (csrc c) es \<Longrightarrow> chunk_ents c = mset (ce c # es)"
  unfolding chunk_ents_def by (subst the_equality [of _ es]) (auto dest: ents_unique)

lemma heap_seq_Nil: "heap_seq [] []"
  by (simp add: heap_seq_def)

lemma heap_seq_add:
  assumes "heap_seq h es" "ents s fs" "sorted fs"
  shows "\<exists>h'. heapAdd nxt s h = Inr h' \<and> heap_seq h' (sort (es @ fs))"
proof (cases fs)
  case Nil
  then have "sort (es @ fs) = es" using assms(1) by (simp add: heap_seq_def sorted_sort_id)
  then show ?thesis using assms ents_nil [of s] Nil by (auto simp: heapAdd_def)
next
  case (Cons f fs')
  then obtain s' where s': "nxt s = Inr (Some f, s')" "ents s' fs'"
    using ents_cons assms(2) by blast
  let ?c = "\<lparr>ce = f, csrc = s'\<rparr>"
  have "chunk_ok ?c" using s'(2) assms(3) Cons by (auto simp: chunk_ok_def)
  moreover have "chunk_ents ?c = mset fs" using chunk_ents_eq [of ?c fs'] s'(2) Cons by simp
  moreover have "heap_ok (heapPush ?c h) \<and> mset (heapPush ?c h) = add_mset ?c (mset h)"
    using assms(1) by (intro heapPush_ok) (simp add: heap_seq_def)
  ultimately have "heap_seq (heapPush ?c h) (sort (es @ fs))"
    using assms(1) by (auto simp: heap_seq_def)
  with s'(1) show ?thesis by (simp add: heapAdd_def)
qed

lemma chunk_ents_ge: "chunk_ok c \<Longrightarrow> x \<in># chunk_ents c \<Longrightarrow> ce c \<le> x"
  by (auto simp: chunk_ok_def chunk_ents_eq)

lemma heap_seq_min:
  assumes "heap_seq (c # h) es" "x \<in> set es"
  shows "ce c \<le> x"
proof -
  have "x \<in># mset es" using assms(2) by simp
  then have "x \<in># (\<Sum>c \<in># mset (c # h). chunk_ents c)"
    using assms(1) by (simp only: heap_seq_def)
  then obtain d where d: "d \<in> set (c # h)" "x \<in># chunk_ents d" by auto
  then obtain k where k: "k < length (c # h)" "(c # h) ! k = d" by (metis in_set_conv_nth)
  have "ce c \<le> ce d"
    using heap_min [where key = ce, OF _ k(1)] assms(1) k(2) by (simp add: heap_seq_def)
  also have "\<dots> \<le> x" using chunk_ents_ge [OF _ d(2)] assms(1) d(1) by (auto simp: heap_seq_def)
  finally show ?thesis .
qed

lemma heap_seq_next:
  assumes "heap_seq h (e # es)"
  shows "\<exists>h'. heapNext nxt h = Inr (e, h') \<and> heap_seq h' es"
proof (cases h)
  case Nil
  with assms show ?thesis by (simp add: heap_seq_def)
next
  case (Cons c h')
  have hs: "heap_seq (c # h') (e # es)" using assms Cons by simp
  then have hok: "heap_ok (c # h')" "chunk_ok c" "\<forall>d \<in> set h'. chunk_ok d"
      "mset (e # es) = chunk_ents c + (\<Sum>c \<in># mset h'. chunk_ents c)"
    by (simp_all add: heap_seq_def)
  obtain fs where fs: "ents (csrc c) fs" "sorted (ce c # fs)" using hok(2) by (auto simp: chunk_ok_def)
  have ce: "chunk_ents c = mset (ce c # fs)" by (rule chunk_ents_eq [OF fs(1)])
  have "ce c \<in> set (e # es)" using hok(4) ce by (metis union_iff set_mset_mset list.set_intros(1))
  then have "e = ce c"
    using heap_seq_min [OF hs, of e] hs by (auto simp: heap_seq_def)
  then have rest: "mset es = mset fs + (\<Sum>c \<in># mset h'. chunk_ents c)"
    using hok(4) ce by simp
  have srt: "sorted es" using hs by (simp add: heap_seq_def)
  show ?thesis
  proof (cases fs)
    case Nil
    then obtain s' where "nxt (csrc c) = Inr (None, s')" using ents_nil fs(1) by blast
    then have "heapNext nxt h = Inr (e, heapPop (c # h'))"
      by (simp add: heapNext_def Cons \<open>e = ce c\<close>)
    moreover have "heap_seq (heapPop (c # h')) es"
      using heapPop_ok [OF hok(1)] hok(3) rest srt Nil by (simp add: heap_seq_def)
    ultimately show ?thesis by blast
  next
    case (Cons f fs')
    then obtain s' where s': "nxt (csrc c) = Inr (Some f, s')" "ents s' fs'"
      using ents_cons fs(1) by blast
    let ?d = "\<lparr>ce = f, csrc = s'\<rparr>"
    have "heapNext nxt h = Inr (e, siftDown 0 (?d # h'))"
      using s'(1) by (simp add: heapNext_def \<open>h = c # h'\<close> \<open>e = ce c\<close>)
    moreover have "chunk_ents ?d = mset fs" using chunk_ents_eq [of ?d fs'] s'(2) Cons by simp
    moreover have "chunk_ok ?d" using s'(2) fs(2) Cons by (auto simp: chunk_ok_def)
    moreover have m: "heap_ok (siftDown 0 (?d # h'))"
        "mset (siftDown 0 (?d # h')) = add_mset ?d (mset h')"
      using heapReplace_ok [OF hok(1), of ?d] by simp_all
    moreover have "set (siftDown 0 (?d # h')) = insert ?d (set h')"
      using arg_cong [OF m(2), of set_mset] by simp
    ultimately show ?thesis using hok(3) rest srt by (auto simp: heap_seq_def)
  qed
qed

lemma heap_seq_end: "heap_seq h [] \<Longrightarrow> h = []"
  by (cases h) (auto simp: heap_seq_def chunk_ents_def)

end

end
