(* ===== verification/Post_Merge.thy ===== *)
theory Post_Merge
  imports Post_Heap
begin

text \<open>
  \<open>addFile\<close>, \<open>addMem\<close> and \<open>mergePost\<close> of \<open>internal/codesearch/index/write.go\<close>: the chunks
  in the temporary file and the entries still in memory are merged into the final posting
  lists, with their index.

  The loops of \<open>mergePost\<close> run until the heap delivers the end marker; they are partial
  functions (\<open>None\<close> is a loop that does not end), and the lemmas show that they do end.  The
  result is the posting lists of all entries, then the list of the end marker, and (index
  version 1) one index entry of eleven bytes for each of them.
\<close>

section \<open>The sources of the merge\<close>

datatype src = MemSrc "u64 list" | FileSrc allPostReader

fun srcNext :: "src \<Rightarrow> (u64 option \<times> src) res" where
  "srcNext (MemSrc x) = (case x of [] \<Rightarrow> Inr (None, MemSrc x) | e # x' \<Rightarrow> Inr (Some e, MemSrc x'))"
| "srcNext (FileSrc r) = rbind (allNext r) (\<lambda>(x, r'). Inr (x, FileSrc r'))"

definition heapAddMem :: "u64 list \<Rightarrow> src postChunk list \<Rightarrow> src postChunk list res" where
  "heapAddMem x h = heapAdd srcNext (MemSrc x) h"

text \<open>\<open>data[start:end]\<close> for each end in turn.\<close>

fun addChunks :: "nat \<Rightarrow> byte list \<Rightarrow> nat \<Rightarrow> nat list \<Rightarrow> src postChunk list \<Rightarrow> src postChunk list res" where
  "addChunks wv data start [] h = Inr h"
| "addChunks wv data start (e # ends) h =
     (if start \<le> e \<and> e \<le> length data
      then rbind (heapAdd srcNext (FileSrc (arInit wv (take (e - start) (drop start data)))) h)
             (addChunks wv data e ends)
      else Inl Range)"

text \<open>The file mapped into memory, after a flush, is what the buffer was given.\<close>

definition heapAddFile :: "nat \<Rightarrow> buffer \<Rightarrow> nat list \<Rightarrow> src postChunk list \<Rightarrow> src postChunk list res" where
  "heapAddFile wv w ends h =
     addChunks wv (case bfile (bufFlush w) of None \<Rightarrow> [] | Some f \<Rightarrow> f) 0 ends h"

section \<open>The merge\<close>

partial_function (option) mergeRun ::
  "nat \<Rightarrow> u32 \<Rightarrow> u64 \<Rightarrow> src postChunk list \<Rightarrow> postDataWriter \<Rightarrow>
   (u64 \<times> src postChunk list \<times> postDataWriter) res option" where
  "mergeRun wv t e h w =
     (if entry_trigram e = t \<and> t \<noteq> invalidTrigram
      then (case rbind (pwFileid wv (entry_fileid e) w) (\<lambda>w1.
                   rbind (heapNext srcNext h) (\<lambda>(e1, h1). Inr (e1, h1, w1))) of
              Inl x \<Rightarrow> Some (Inl x)
            | Inr s \<Rightarrow> mergeRun wv t (fst s) (fst (snd s)) (snd (snd s)))
      else Some (Inr (e, h, w)))"

partial_function (option) mergeLoop ::
  "nat \<Rightarrow> u64 \<Rightarrow> src postChunk list \<Rightarrow> postDataWriter \<Rightarrow> postDataWriter res option" where
  "mergeLoop wv e h w =
     (let t = entry_trigram e in
      case pwTrigram t w of
        Inl x \<Rightarrow> Some (Inl x)
      | Inr w1 \<Rightarrow>
          (case mergeRun wv t e h w1 of
             None \<Rightarrow> None
           | Some m \<Rightarrow>
               (case rbind m (\<lambda>(e2, h2, w2). rbind (pwEndTrigram wv w2) (\<lambda>w3. Inr (e2, h2, w3))) of
                  Inl x \<Rightarrow> Some (Inl x)
                | Inr s \<Rightarrow> if t = invalidTrigram then Some (Inr (snd (snd s)))
                           else mergeLoop wv (fst s) (fst (snd s)) (snd (snd s)))))"

text \<open>The results: the scratch array of the sort and the final state of the writer.\<close>

definition mergePost :: "nat \<Rightarrow> u64 list \<Rightarrow> u64 list \<Rightarrow> buffer \<Rightarrow> nat list \<Rightarrow> buffer \<Rightarrow> buffer \<Rightarrow>
    (u64 list \<times> postDataWriter) res option" where
  "mergePost wv sortTmp post postFile postEnds postIndex out =
     (let (tmp, post') = sortPost sortTmp post in
      case rbind (if length postEnds > 0 then heapAddFile wv postFile postEnds [] else Inr [])
             (\<lambda>h. rbind (heapAddMem post' h) (heapNext srcNext)) of
        Inl x \<Rightarrow> Some (Inl x)
      | Inr (e, h) \<Rightarrow>
          (case mergeLoop wv e h (pwInit out (Some postIndex)) of
             None \<Rightarrow> None
           | Some m \<Rightarrow> Some (rbind m (\<lambda>w. Inr (tmp, pwFlush w)))))"

section \<open>The sources keep the contract\<close>

fun src_ents :: "nat \<Rightarrow> src \<Rightarrow> u64 list \<Rightarrow> bool" where
  "src_ents ver (MemSrc x) es \<longleftrightarrow> es = x"
| "src_ents ver (FileSrc r) es \<longleftrightarrow> ar_ents ver r es"

interpretation srcs: entry_source srcNext "src_ents ver" for ver
proof
  show "\<exists>s'. srcNext s = Inr (None, s')" if "src_ents ver s []" for s
    using that chunk.ents_nil by (cases s) fastforce+
  show "\<exists>s'. srcNext s = Inr (Some e, s') \<and> src_ents ver s' es" if "src_ents ver s (e # es)" for s e es
    using that chunk.ents_cons by (cases s) fastforce+
qed

text \<open>What the cursor (the entry in hand and the heap) still has to deliver.\<close>

definition cursor :: "nat \<Rightarrow> u64 \<Rightarrow> src postChunk list \<Rightarrow> u64 list \<Rightarrow> bool" where
  "cursor ver e h es \<longleftrightarrow> (case es of
      [] \<Rightarrow> e = pack invalidTrigram 0 \<and> h = []
    | x # xs \<Rightarrow> e = x \<and> srcs.heap_seq ver h xs)"

lemma heapNext_cursor:
  assumes "srcs.heap_seq ver h es"
  shows "\<exists>e h'. heapNext srcNext h = Inr (e, h') \<and> cursor ver e h' es"
proof (cases es)
  case Nil
  with srcs.heap_seq_end assms have "h = []" by blast
  then show ?thesis using Nil makePostEntry_ok [of 0 invalidTrigram]
    by (simp add: heapNext_def cursor_def)
next
  case (Cons e es')
  with srcs.heap_seq_next assms show ?thesis by (fastforce simp: cursor_def)
qed

lemma mergeRun_ok:
  assumes "cursor ver e h (map (pack t) ids @ rest)" "t < invalidTrigram" "\<forall>i \<in> set ids. i < 2 ^ 40"
    and "case rest of [] \<Rightarrow> True | x # _ \<Rightarrow> entry_trigram x \<noteq> t"
    and "rfold (pwFileid wv) ids w = Inr w'"
  shows "\<exists>e' h'. mergeRun wv t e h w = Some (Inr (e', h', w')) \<and> cursor ver e' h' rest"
  using assms(1,3,5)
proof (induction ids arbitrary: e h w)
  case Nil
  have "entry_trigram (pack invalidTrigram 0) = invalidTrigram"
    by (rule pack_fields) (simp_all add: invalidTrigram_def)
  with Nil assms(2,4) have "entry_trigram e \<noteq> t"
    by (auto simp: cursor_def split: list.splits)
  with Nil show ?case by (subst mergeRun.simps) simp
next
  case (Cons i "is")
  have e: "e = pack t i" "srcs.heap_seq ver h (map (pack t) is @ rest)"
    using Cons.prems(1) by (simp_all add: cursor_def)
  have f: "entry_trigram e = t" "entry_fileid e = i"
    using Cons.prems(2) assms(2) pack_fields [of t i] by (simp_all add: e(1) invalidTrigram_def)
  obtain e1 h1 where n: "heapNext srcNext h = Inr (e1, h1)" "cursor ver e1 h1 (map (pack t) is @ rest)"
    using heapNext_cursor [OF e(2)] by blast
  obtain w1 where w1: "pwFileid wv i w = Inr w1" "rfold (pwFileid wv) is w1 = Inr w'"
    using Cons.prems(3) by (auto simp: rbind_Inr_iff)
  have "mergeRun wv t e h w = mergeRun wv t e1 h1 w1"
    using f n(1) w1(1) less_imp_neq [OF assms(2)] by (subst mergeRun.simps) simp
  with Cons.IH [OF n(2) _ w1(2)] Cons.prems(2) show ?case by simp
qed

lemma mergeLoop_ok:
  assumes "cursor ver e h (entries gs)" "postings_ok gs"
    and "rfold (writePosting wv) (gs @ [(invalidTrigram, [])]) w = Inr w'"
  shows "mergeLoop wv e h w = Some (Inr w')"
  using assms
proof (induction gs arbitrary: e h w)
  case Nil
  have f: "entry_trigram e = invalidTrigram"
    using Nil.prems(1) pack_fields [of invalidTrigram 0] by (simp add: cursor_def invalidTrigram_def)
  obtain w1 where w1: "pwTrigram invalidTrigram w = Inr w1" "pwEndTrigram wv w1 = Inr w'"
    using Nil.prems(3) by (auto simp: writePosting_def rbind_Inr_iff)
  then have "mergeRun wv invalidTrigram e h w1 = Some (Inr (e, h, w1))"
    by (subst mergeRun.simps) simp
  with w1 f show ?case by (subst mergeLoop.simps) simp
next
  case (Cons g gs)
  obtain t ids where g: "g = (t, ids)" by (cases g)
  have ok: "t < invalidTrigram" "\<forall>i \<in> set ids. i < 2 ^ 40" "ids \<noteq> []" "postings_ok gs"
    "\<forall>g \<in> set gs. t < fst g" "list_all posting_ok gs"
    using Cons.prems(2) by (auto simp: g postings_ok_def posting_ok_def ids_ok_def)
  have c: "cursor ver e h (map (pack t) ids @ entries gs)" using Cons.prems(1) by (simp add: g)
  obtain i "is" where ids: "ids = i # is" using ok(3) by (cases ids) auto
  have f: "entry_trigram e = t"
    using c ok(1,2) pack_fields [of t i] by (simp add: ids cursor_def invalidTrigram_def)
  obtain w1 w2 w3 where w: "pwTrigram t w = Inr w1" "rfold (pwFileid wv) ids w1 = Inr w2"
      "pwEndTrigram wv w2 = Inr w3" "rfold (writePosting wv) (gs @ [(invalidTrigram, [])]) w3 = Inr w'"
    using Cons.prems(3) by (auto simp: g writePosting_def rbind_Inr_iff)
  have "case entries gs of [] \<Rightarrow> True | x # _ \<Rightarrow> entry_trigram x \<noteq> t"
  proof (cases gs)
    case (Cons h hs)
    obtain u js where h: "h = (u, js)" by (cases h)
    with ok(5,6) Cons have u: "t < u" "u < invalidTrigram" "js \<noteq> []" "ids_ok js"
      by (auto simp: posting_ok_def)
    then obtain j js' where "js = j # js'" by (cases js) auto
    with u pack_fields [of u j] show ?thesis by (auto simp: Cons h ids_ok_def invalidTrigram_def)
  qed simp
  from mergeRun_ok [OF c ok(1,2) this w(2)] obtain e' h' where r:
    "mergeRun wv t e h w1 = Some (Inr (e', h', w2))" "cursor ver e' h' (entries gs)" by blast
  have "mergeLoop wv e h w = mergeLoop wv e' h' w3"
    using f w(1,3) r(1) less_imp_neq [OF ok(1)] by (subst mergeLoop.simps) simp
  with Cons.IH [OF r(2) ok(4) w(4)] show ?case by simp
qed

text \<open>The chunks of the temporary file.\<close>

definition file_chunks :: "nat \<Rightarrow> posting list list \<Rightarrow> byte list" where
  "file_chunks wv gss = concat (map (postings_bytes wv) gss)"

fun chunk_ends :: "nat \<Rightarrow> nat \<Rightarrow> posting list list \<Rightarrow> nat list" where
  "chunk_ends wv start [] = []"
| "chunk_ends wv start (gs # gss) =
     (start + length (postings_bytes wv gs)) # chunk_ends wv (start + length (postings_bytes wv gs)) gss"

lemma entries_sorted: "postings_ok gs \<Longrightarrow> sorted_wrt (<) (entries gs)"
proof (induction gs)
  case (Cons g gs)
  obtain t ids where g: "g = (t, ids)" by (cases g)
  have ok: "t < invalidTrigram" "ids_ok ids" "postings_ok gs" "\<forall>g \<in> set gs. t < fst g"
      "list_all posting_ok gs"
    using Cons.prems by (auto simp: g postings_ok_def posting_ok_def)
  have less: "pack t i < pack u j" if "t < u" "u \<le> 0xFFFFFF" "i < 2 ^ 40" "j < 2 ^ 40" for u i j
    using that ok(1) pack_less_iff [of t i u j] by (simp add: invalidTrigram_def)
  have "sorted_wrt (<) (map (pack t) ids)"
    unfolding sorted_wrt_map
  proof (rule sorted_wrt_mono_rel [of _ "(<)"])
    show "sorted_wrt (<) ids" using ok(2) by (simp add: ids_ok_def)
    show "pack t i < pack t j" if "i \<in> set ids" "j \<in> set ids" "i < j" for i j
      using that ok(1,2) pack_less_iff [of t i t j] by (auto simp: ids_ok_def invalidTrigram_def)
  qed
  moreover have "\<forall>p \<in> set (map (pack t) ids). \<forall>q \<in> set (entries gs). p < q"
    using ok less by (fastforce simp: entries_def list_all_iff posting_ok_def ids_ok_def invalidTrigram_def)
  ultimately show ?case using Cons.IH [OF ok(3)] by (simp add: g sorted_wrt_append)
qed simp

lemma addChunks_ok:
  assumes "wv = 1 \<or> wv = 2" "\<forall>gs \<in> set gss. postings_ok gs" "srcs.heap_seq wv h es"
  shows "\<exists>h'. addChunks wv (pre @ file_chunks wv gss @ post) (length pre) (chunk_ends wv (length pre) gss) h
      = Inr h' \<and> srcs.heap_seq wv h' (sort (es @ concat (map entries gss)))"
  using assms(2,3)
proof (induction gss arbitrary: pre h es)
  case Nil
  then show ?case by (auto simp: srcs.heap_seq_def sorted_sort_id)
next
  case (Cons gs gss)
  have ok: "postings_ok gs" "list_all posting_ok gs" using Cons.prems(1) by (auto simp: postings_ok_def)
  have "sorted (entries gs)" using entries_sorted [OF ok(1)] by (simp add: strict_sorted_iff)
  moreover have "src_ents wv (FileSrc (arInit wv (postings_bytes wv gs))) (entries gs)"
    using ar_ents_init [OF assms(1) ok(2)] by simp
  ultimately obtain h1 where h1:
    "heapAdd srcNext (FileSrc (arInit wv (postings_bytes wv gs))) h = Inr h1"
    "srcs.heap_seq wv h1 (sort (es @ entries gs))"
    using srcs.heap_seq_add [OF Cons.prems(2)] by blast
  let ?pre = "pre @ postings_bytes wv gs"
  have "\<exists>h'. addChunks wv (?pre @ file_chunks wv gss @ post) (length ?pre)
        (chunk_ends wv (length ?pre) gss) h1 = Inr h' \<and>
      srcs.heap_seq wv h' (sort (sort (es @ entries gs) @ concat (map entries gss)))"
    using Cons.prems(1) by (intro Cons.IH h1(2)) simp
  moreover have "sort (sort (es @ entries gs) @ concat (map entries gss)) =
      sort (es @ concat (map entries (gs # gss)))"
    by (rule properties_for_sort) simp_all
  ultimately show ?case using h1(1) by (simp add: file_chunks_def)
qed

text \<open>Everything that is in the temporary file or in memory, merged.\<close>

lemma mergePost_writes:
  assumes "wv = 1 \<or> wv = 2" "buf_inv postFile" "\<forall>gs \<in> set gss. postings_ok gs"
    and "contents postFile = file_chunks wv gss" "postEnds = chunk_ends wv 0 gss"
    and "post_ok post"
    and "entries_ok (sort (concat (map entries gss) @ post))"
    and "rfold (writePosting wv) (groups (sort (concat (map entries gss) @ post)) @ [(invalidTrigram, [])])
           (pwInit out (Some postIndex)) = Inr w"
  shows "mergePost wv tmp post postFile postEnds postIndex out =
    Some (Inr (fst (sortPost tmp post), pwFlush w))"
proof -
  define es where "es = sort (concat (map entries gss) @ post)"
  have fdata: "(case bfile (bufFlush postFile) of None \<Rightarrow> [] | Some f \<Rightarrow> f) = file_chunks wv gss"
    using bufFinish_ok [OF assms(2)] assms(4) by (simp add: bufFinish_def)
  from addChunks_ok [OF assms(1,3) srcs.heap_seq_Nil, of "[]" "[]"] obtain h1 where
    h1: "heapAddFile wv postFile postEnds [] = Inr h1"
      "srcs.heap_seq wv h1 (sort (concat (map entries gss)))"
    by (auto simp: heapAddFile_def fdata assms(5))
  have nf: "length postEnds > 0 \<or> gss = []" using assms(5) by (cases gss) auto
  have h1': "(if length postEnds > 0 then heapAddFile wv postFile postEnds [] else Inr []) =
      (Inr h1 :: src postChunk list res)"
  proof (cases "gss = []")
    case True
    with h1 assms(5) have "heapAddFile wv postFile postEnds [] = Inr ([] :: src postChunk list)"
      by (simp add: heapAddFile_def)
    with h1(1) True assms(5) show ?thesis by simp
  next
    case False
    with nf h1(1) show ?thesis by simp
  qed
  have sp: "snd (sortPost tmp post) = sort post" using post_ok_sortPost [OF assms(6)] by blast
  have "src_ents wv (MemSrc (sort post)) (sort post)" by simp
  from srcs.heap_seq_add [OF h1(2) this] obtain h2 where
    h2: "heapAddMem (sort post) h1 = Inr h2"
      "srcs.heap_seq wv h2 (sort (sort (concat (map entries gss)) @ sort post))"
    by (auto simp: heapAddMem_def)
  have "sort (sort (concat (map entries gss)) @ sort post) = es"
    unfolding es_def by (rule properties_for_sort) simp_all
  with h2(2) have "srcs.heap_seq wv h2 es" by simp
  from heapNext_cursor [OF this] obtain e h3 where
    h3: "heapNext srcNext h2 = Inr (e, h3)" "cursor wv e h3 (entries (groups es))"
    by (auto simp: entries_groups)
  have "mergeLoop wv e h3 (pwInit out (Some postIndex)) = Some (Inr w)"
    by (rule mergeLoop_ok [OF h3(2)]) (use assms(7,8) in \<open>simp_all add: groups_ok es_def\<close>)
  then show ?thesis
    using h1' h2(1) h3(1) by (simp add: mergePost_def Let_def case_prod_unfold sp)
qed

end
