(* ===== verification/Query.thy ===== *)
theory Query
  imports Prelude
begin

text \<open>
  Trigram queries, \<open>internal/codesearch/index/regexp.go\<close>: the type \<open>Query\<close>, its boolean
  operations with their simplifications, and the sorted string sets they use.

  The operations of the code may reuse the storage of their arguments; each query is built and
  consumed once, so the model returns new values.  A Go string is a list of bytes, ordered
  lexicographically.

  \<open>qsat D q\<close> is the meaning of a query for a document whose trigrams satisfy \<open>D\<close>.  The
  lemmas show that \<open>implies\<close> is sound and that \<open>and\<close>, \<open>or\<close> and \<open>andTrigrams\<close> keep the
  meaning exactly, through every merging and factoring step.
\<close>

section \<open>Sorted sets of strings\<close>

text \<open>\<open>sort.Sort\<close> by a total order on distinct values and the removal of adjacent duplicates;
  \<open>bySuffix\<close> compares the reversed strings.\<close>

definition ss_clean :: "bool \<Rightarrow> gostr list \<Rightarrow> gostr list" where
  "ss_clean isSuffix s = remdups_adj (if isSuffix then sort_key rev s else sort s)"

definition ss_union :: "gostr list \<Rightarrow> gostr list \<Rightarrow> bool \<Rightarrow> gostr list" where
  "ss_union s t isSuffix = ss_clean isSuffix (s @ t)"

definition ss_cross :: "gostr list \<Rightarrow> gostr list \<Rightarrow> bool \<Rightarrow> gostr list" where
  "ss_cross s t isSuffix = ss_clean isSuffix (concat (map (\<lambda>ss. map (\<lambda>tt. ss @ tt) t) s))"

definition ss_minLen :: "gostr list \<Rightarrow> nat" where
  "ss_minLen s = (case s of [] \<Rightarrow> 0
     | str0 # _ \<Rightarrow> fold (\<lambda>str m. if m > length str then length str else m) s (length str0))"

definition ss_maxLen :: "gostr list \<Rightarrow> nat" where
  "ss_maxLen s = (case s of [] \<Rightarrow> 0
     | str0 # _ \<Rightarrow> fold (\<lambda>str m. if m < length str then length str else m) s (length str0))"

fun isSubsetOf :: "gostr list \<Rightarrow> gostr list \<Rightarrow> bool" where
  "isSubsetOf [] t = True"
| "isSubsetOf (ss # s) t =
     (case dropWhile (\<lambda>x. x < ss) t of
        [] \<Rightarrow> False
      | x # t' \<Rightarrow> if x \<noteq> ss then False else isSubsetOf s (x # t'))"

lemma set_ss_clean [simp]: "set (ss_clean f s) = set s"
  by (simp add: ss_clean_def)

lemma set_ss_union [simp]: "set (ss_union s t f) = set s \<union> set t"
  by (simp add: ss_union_def)

lemma set_ss_cross: "set (ss_cross s t f) = {x @ y | x y. x \<in> set s \<and> y \<in> set t}"
  by (auto simp: ss_cross_def)

lemma isSubsetOf_sound: "isSubsetOf s t \<Longrightarrow> set s \<subseteq> set t"
proof (induction s t rule: isSubsetOf.induct)
  case (2 ss s t)
  then obtain t' where t': "dropWhile (\<lambda>x. x < ss) t = ss # t'" "isSubsetOf s (ss # t')"
    by (auto split: list.splits if_splits)
  then have "set s \<subseteq> set (ss # t')" using 2 by auto
  moreover have "set (ss # t') \<subseteq> set t"
    using set_dropWhileD [of _ "\<lambda>x. x < ss" t] by (auto simp flip: t'(1))
  ultimately show ?case by auto
qed simp

lemma fold_min_le: "fold (\<lambda>str m. if m > length str then length str else m) s m0 =
    Min (insert m0 (length ` set s))" for m0 :: nat
proof (induction s arbitrary: m0)
  case (Cons a s)
  have "insert m0 (length ` set (a # s)) = insert m0 (insert (length a) (length ` set s))" by simp
  also have "Min \<dots> = min m0 (Min (insert (length a) (length ` set s)))" by (rule Min_insert) auto
  also have "\<dots> = Min (insert (min m0 (length a)) (length ` set s))"
    by (cases "set s = {}") (simp_all add: min.assoc)
  finally show ?case using Cons by (auto simp: min_def)
qed simp

lemma ss_minLen_ge: "3 \<le> ss_minLen s \<longleftrightarrow> s \<noteq> [] \<and> (\<forall>str \<in> set s. 3 \<le> length str)"
proof (cases s)
  case (Cons a s')
  then have "ss_minLen s = Min (insert (length a) (length ` set s))"
    by (simp only: ss_minLen_def list.case fold_min_le)
  then show ?thesis using Cons by auto
qed (simp add: ss_minLen_def)

lemma list_all_ss_union [simp]: "list_all P (ss_union s t f) \<longleftrightarrow> list_all P s \<and> list_all P t"
  by (auto simp: list_all_iff)

lemma list_ex_ss_union [simp]: "list_ex P (ss_union s t f) \<longleftrightarrow> list_ex P s \<or> list_ex P t"
  by (auto simp: list_ex_iff)

section \<open>Queries\<close>

datatype qop = QAll | QNone | QAnd | QOr

datatype query = Query (qOp: qop) (qTrigram: "gostr list") (qSub: "query list")

definition allQuery :: query where "allQuery = Query QAll [] []"
definition noneQuery :: query where "noneQuery = Query QNone [] []"

fun trigramsImply :: "gostr list \<Rightarrow> query \<Rightarrow> bool" where
  "trigramsImply t (Query QOr tr sub) =
     (list_ex (trigramsImply t) sub \<or> list_ex (\<lambda>x. isSubsetOf [x] tr) t)"
| "trigramsImply t (Query QAnd tr sub) = (list_all (trigramsImply t) sub \<and> isSubsetOf tr t)"
| "trigramsImply t (Query QAll tr sub) = False"
| "trigramsImply t (Query QNone tr sub) = False"

definition implies :: "query \<Rightarrow> query \<Rightarrow> bool" where
  "implies q r =
     (if qOp q = QNone \<or> qOp r = QAll then True
      else if qOp q = QAll \<or> qOp r = QNone then False
      else if qOp q = QAnd \<or> qOp q = QOr \<and> length (qTrigram q) = 1 \<and> length (qSub q) = 0
      then trigramsImply (qTrigram q) r
      else qOp q = QOr \<and> qOp r = QOr \<and> length (qTrigram q) > 0 \<and> length (qSub q) = 0 \<and>
           isSubsetOf (qTrigram q) (qTrigram r))"

text \<open>A node without trigrams and with one child stands for the child.\<close>

definition unwrap :: "query \<Rightarrow> query" where
  "unwrap q = (if length (qTrigram q) = 0 \<and> length (qSub q) = 1 then qSub q ! 0 else q)"

definition qAtom :: "query \<Rightarrow> bool" where
  "qAtom q \<longleftrightarrow> length (qTrigram q) = 1 \<and> length (qSub q) = 0"

text \<open>Merging two trigram lists: what only the first has, only the second, and both.\<close>

fun factor :: "gostr list \<Rightarrow> gostr list \<Rightarrow> gostr list \<times> gostr list \<times> gostr list" where
  "factor (qt # qs) (rt # rs) =
     (if qt < rt then (case factor qs (rt # rs) of (c, a, b) \<Rightarrow> (c, qt # a, b))
      else if rt < qt then (case factor (qt # qs) rs of (c, a, b) \<Rightarrow> (c, a, rt # b))
      else (case factor qs rs of (c, a, b) \<Rightarrow> (qt # c, a, b)))"
| "factor qs rs = ([], qs, rs)"

definition otherOp :: "qop \<Rightarrow> qop" where
  "otherOp op = (if op = QAnd then QOr else QAnd)"

fun qsize :: "query \<Rightarrow> nat" where
  "qsize (Query op tr sub) = length tr + sum_list (map qsize sub)"

lemma qsize_eq: "qsize q = length (qTrigram q) + sum_list (map qsize (qSub q))"
  by (cases q) simp

lemma qsize_unwrap: "qsize (unwrap q) \<le> qsize q"
proof (cases q)
  case (Query op tr sub)
  show ?thesis
  proof (cases sub)
    case (Cons s ss)
    with Query show ?thesis by (simp add: unwrap_def)
  qed (simp add: Query unwrap_def)
qed

lemma factor_length:
  "factor qs rs = (c, a, b) \<Longrightarrow> length a + length c = length qs \<and> length b + length c = length rs"
  by (induction qs rs arbitrary: c a b rule: factor.induct) (auto split: if_splits prod.splits)

function andOr :: "query \<Rightarrow> query \<Rightarrow> qop \<Rightarrow> query" where
  "andOr q0 r0 op =
     (let q = unwrap q0; r = unwrap r0 in
      if implies q r then (if op = QAnd then q else r)
      else if implies r q then (if op = QAnd then r else q)
      else if qOp q = op \<and> (qOp r = op \<or> qAtom r)
      then Query (qOp q) (ss_union (qTrigram q) (qTrigram r) False) (qSub q @ qSub r)
      else if qOp r = op \<and> qAtom q
      then Query (qOp r) (ss_union (qTrigram r) (qTrigram q) False) (qSub r)
      else if qAtom q \<and> qAtom r then Query op (qTrigram q @ qTrigram r) (qSub q)
      else if qOp q = op then Query (qOp q) (qTrigram q) (qSub q @ [r])
      else if qOp r = op then Query (qOp r) (qTrigram r) (qSub r @ [q])
      else (case factor (qTrigram q) (qTrigram r) of (common, qt, rt) \<Rightarrow>
        let q' = Query (qOp q) qt (qSub q); r' = Query (qOp r) rt (qSub r)
        in if length common > 0
           then andOr (Query (otherOp op) common []) (andOr q' r' op) (otherOp op)
           else Query op [] [q', r']))"
  by pat_completeness auto

text \<open>Factoring removes trigrams, and the call that adds the factored trigrams back finds its
  operator on the left, where no call recurses.\<close>

termination
proof (relation "measure (\<lambda>(q, r, op). if qOp q = op \<and> qTrigram q \<noteq> [] then 0 else 1 + qsize q + qsize r)", goal_cases)
  case (2 q0 r0 op q r common y qt rt q' r')
  have ne: "\<not> (qOp q0 = op \<and> qTrigram q0 \<noteq> [])"
    using 2(1,8) by (auto simp: unwrap_def split: if_splits)
  have f: "factor (qTrigram q) (qTrigram r) = (common, qt, rt)" using 2 by simp
  have "qsize q' + length common = qsize q" "qsize r' + length common = qsize r"
    using factor_length [OF f] by (simp_all add: 2(12,13) qsize_eq)
  moreover have "qsize q \<le> qsize q0" "qsize r \<le> qsize r0" using 2(1,2) qsize_unwrap by simp_all
  moreover have "0 < length common" by (rule 2(14))
  ultimately have "qsize q' + qsize r' < qsize q0 + qsize r0" by linarith
  then show ?case using ne by auto
next
  case (3 q0 r0 op q r common y qt rt q' r')
  have ne: "\<not> (qOp q0 = op \<and> qTrigram q0 \<noteq> [])"
    using 3(1,8) by (auto simp: unwrap_def split: if_splits)
  have "common \<noteq> []" using 3(14) by simp
  with ne show ?case by simp
qed simp

declare andOr.simps [simp del]

definition qand :: "query \<Rightarrow> query \<Rightarrow> query" where
  "qand q r = andOr q r QAnd"

definition qor :: "query \<Rightarrow> query \<Rightarrow> query" where
  "qor q r = andOr q r QOr"

definition maybeRewrite :: "qop \<Rightarrow> query \<Rightarrow> query" where
  "maybeRewrite op q =
     (if qOp q \<noteq> QAnd \<and> qOp q \<noteq> QOr then q
      else let n = length (qSub q) + length (qTrigram q)
           in if n > 1 then q
              else if n = 0 then Query (if qOp q = QAnd then QAll else QNone) (qTrigram q) (qSub q)
              else let q' = (if length (qSub q) = 1 then qSub q ! 0 else q)
                   in Query op (qTrigram q') (qSub q'))"

fun trigrams_of :: "gostr \<Rightarrow> gostr list" where
  "trigrams_of (a # b # c # s) = [a, b, c] # trigrams_of (b # c # s)"
| "trigrams_of s = []"

definition andTrigrams :: "query \<Rightarrow> gostr list \<Rightarrow> query" where
  "andTrigrams q t =
     (if ss_minLen t < 3 then q
      else qand q (fold (\<lambda>tt acc. qor acc (Query QAnd (ss_clean False (trigrams_of tt)) [])) t noneQuery))"

section \<open>Meaning\<close>

fun qsat :: "(gostr \<Rightarrow> bool) \<Rightarrow> query \<Rightarrow> bool" where
  "qsat D (Query QAll tr sub) = True"
| "qsat D (Query QNone tr sub) = False"
| "qsat D (Query QAnd tr sub) = (list_all D tr \<and> list_all (qsat D) sub)"
| "qsat D (Query QOr tr sub) = (list_ex D tr \<or> list_ex (qsat D) sub)"

fun qwf :: "query \<Rightarrow> bool" where
  "qwf (Query op tr sub) \<longleftrightarrow>
     (op = QAll \<or> op = QNone \<longrightarrow> tr = [] \<and> sub = []) \<and> list_all qwf sub"

definition combine :: "qop \<Rightarrow> bool \<Rightarrow> bool \<Rightarrow> bool" where
  "combine op a b = (if op = QAnd then a \<and> b else a \<or> b)"

lemma trigramsImply_sound:
  "trigramsImply t q \<Longrightarrow> list_all D t \<Longrightarrow> qsat D q"
proof (induction t q rule: trigramsImply.induct)
  case (1 t tr sub)
  from 1(2) consider s where "s \<in> set sub" "trigramsImply t s" | x where "x \<in> set t" "isSubsetOf [x] tr"
    by (auto simp: list_ex_iff)
  then show ?case
  proof cases
    case 1
    with "1.IH" "1.prems"(2) show ?thesis by (auto simp: list_ex_iff)
  next
    case 2
    then have "x \<in> set tr" using isSubsetOf_sound by fastforce
    with 2(1) "1.prems"(2) show ?thesis by (auto simp: list_ex_iff list_all_iff)
  qed
next
  case (2 t tr sub)
  then have "list_all (qsat D) sub" by (auto simp: list_all_iff)
  moreover have "list_all D tr" using 2 isSubsetOf_sound [of tr t] by (auto simp: list_all_iff)
  ultimately show ?case by simp
qed simp_all

lemma implies_sound: "implies q r \<Longrightarrow> qsat D q \<Longrightarrow> qsat D r"
proof -
  assume i: "implies q r" and s: "qsat D q"
  obtain op tr sub where q: "q = Query op tr sub" by (cases q)
  obtain op' tr' sub' where r: "r = Query op' tr' sub'" by (cases r)
  show "qsat D r"
  proof (cases "op = QNone \<or> op' = QAll")
    case True
    with s q r show ?thesis by (cases op) auto
  next
    case False
    show ?thesis
    proof (cases "op = QAnd \<or> op = QOr \<and> length tr = 1 \<and> length sub = 0")
      case True
      then have "list_all D tr"
      proof (elim disjE conjE)
        assume "op = QOr" "length tr = 1" "length sub = 0"
        then show ?thesis using s q by (cases tr) auto
      qed (use s q in simp)
      moreover have "trigramsImply tr r"
        using i False True q r by (auto simp: implies_def split: if_splits)
      ultimately show ?thesis using trigramsImply_sound by blast
    next
      case no: False
      with i False q r have "op = QOr" "op' = QOr" "sub = []" "isSubsetOf tr tr'"
        by (auto simp: implies_def split: if_splits)
      with s q r isSubsetOf_sound [of tr tr'] show ?thesis by (auto simp: list_ex_iff)
    qed
  qed
qed

lemma unwrap_ok:
  assumes "qwf q"
  shows "qwf (unwrap q) \<and> qsat D (unwrap q) = qsat D q"
proof -
  obtain op tr sub where q: "q = Query op tr sub" by (cases q)
  show ?thesis
  proof (cases "tr = [] \<and> length sub = 1")
    case True
    then obtain s where s: "sub = [s]" by (cases sub) auto
    with True assms q show ?thesis by (cases op) (auto simp: unwrap_def)
  qed (use assms q in \<open>auto simp: unwrap_def\<close>)
qed

lemma qAtom_sat: "qwf q \<Longrightarrow> qAtom q \<Longrightarrow> \<exists>t. qTrigram q = [t] \<and> qSub q = [] \<and> qsat D q = D t"
proof -
  assume "qwf q" "qAtom q"
  moreover obtain op tr sub where q: "q = Query op tr sub" by (cases q)
  ultimately obtain t where "tr = [t]" "sub = []" "op = QAnd \<or> op = QOr"
    by (cases tr; cases op) (auto simp: qAtom_def)
  with q show ?thesis by auto
qed

lemma factor_sets:
  "factor qs rs = (c, a, b) \<Longrightarrow> set qs = set c \<union> set a \<and> set rs = set c \<union> set b"
proof (induction qs rs arbitrary: c a b rule: factor.induct)
  case (1 qt qs rt rs)
  show ?case
  proof (cases qt rt rule: linorder_cases)
    case less
    then show ?thesis using 1(4) "1.IH"(1) [OF less] by (auto split: prod.splits)
  next
    case equal
    then show ?thesis using 1(4) "1.IH"(3) by (fastforce split: prod.splits)
  next
    case greater
    then obtain b' where b': "factor (qt # qs) rs = (c, a, b')" "b = rt # b'"
      using 1(4) greater less_not_sym [OF greater] by (auto split: prod.splits)
    have "set (qt # qs) = set c \<union> set a \<and> set rs = set c \<union> set b'"
      by (rule "1.IH"(2) [OF _ greater b'(1)]) (use greater in auto)
    then show ?thesis using b'(2) by auto
  qed
qed auto

lemma qsat_combine:
  "op = QAnd \<or> op = QOr \<Longrightarrow> qsat D (Query op [] [q, r]) = combine op (qsat D q) (qsat D r)"
  by (auto simp: combine_def)

lemma list_all_ex_un:
  "set xs = set ys \<union> set zs \<Longrightarrow> list_all P xs = (list_all P ys \<and> list_all P zs)"
  "set xs = set ys \<union> set zs \<Longrightarrow> list_ex P xs = (list_ex P ys \<or> list_ex P zs)"
  by (auto simp: list_all_iff list_ex_iff)

lemma andOr_sem:
  "qwf q \<Longrightarrow> qwf r \<Longrightarrow> op = QAnd \<or> op = QOr \<Longrightarrow>
   qwf (andOr q r op) \<and> (\<forall>D. qsat D (andOr q r op) = combine op (qsat D q) (qsat D r))"
proof (induction q r op rule: andOr.induct)
  case (1 q0 r0 op)
  define q where "q = unwrap q0"
  define r where "r = unwrap r0"
  have q: "qwf q" "\<And>D. qsat D q = qsat D q0" using unwrap_ok "1.prems"(1) by (simp_all add: q_def)
  have r: "qwf r" "\<And>D. qsat D r = qsat D r0" using unwrap_ok "1.prems"(2) by (simp_all add: r_def)
  obtain qo qt qs where qq: "q = Query qo qt qs" by (cases q)
  obtain ro rt rs where rr: "r = Query ro rt rs" by (cases r)
  have op: "op = QAnd \<or> op = QOr" by (rule "1.prems"(3))
  note unf = andOr.simps [of q0 r0 op] q_def [symmetric] r_def [symmetric] Let_def
  show ?case
  proof (cases "implies q r \<or> implies r q")
    case True
    have e: "andOr q0 r0 op = (if implies q r then (if op = QAnd then q else r)
        else (if op = QAnd then r else q))"
      using True by (cases "implies q r") (simp_all add: unf)
    have s: "implies q r \<Longrightarrow> qsat D q \<Longrightarrow> qsat D r" "implies r q \<Longrightarrow> qsat D r \<Longrightarrow> qsat D q" for D
      using implies_sound by blast+
    have "qwf (andOr q0 r0 op)" using q(1) r(1) by (simp add: e)
    moreover have "qsat D (andOr q0 r0 op) = combine op (qsat D q) (qsat D r)" for D
      using True s [of D] op by (cases "implies q r") (auto simp: e combine_def)
    ultimately show ?thesis by (simp add: q(2) r(2))
  next
    case no: False
    then have ops: "qo = QAnd \<or> qo = QOr" "ro = QAnd \<or> ro = QOr"
      using qq rr by (cases qo; cases ro; auto simp: implies_def)+
    have wf: "list_all qwf qs" "list_all qwf rs" using q(1) r(1) qq rr by simp_all
    consider (m) "qo = op \<and> (ro = op \<or> qAtom r)" | (m2) "\<not> (qo = op \<and> (ro = op \<or> qAtom r))" "ro = op \<and> qAtom q"
      | (at) "\<not> (qo = op \<and> (ro = op \<or> qAtom r))" "\<not> (ro = op \<and> qAtom q)" "qAtom q \<and> qAtom r"
      | (ql) "\<not> (ro = op \<or> qAtom r)" "\<not> (qAtom q \<and> qAtom r)" "qo = op"
      | (rl) "qo \<noteq> op" "\<not> qAtom q" "ro = op"
      | (f) "qo \<noteq> op" "ro \<noteq> op" "\<not> (qAtom q \<and> qAtom r)" by blast
    then show ?thesis
    proof cases
      case m
      have e: "andOr q0 r0 op = Query qo (ss_union qt rt False) (qs @ rs)"
        using no m by (simp add: unf qq rr)
      have sr: "qsat D r0 = qsat D (Query op rt rs)" for D
      proof (cases "ro = op")
        case True
        then show ?thesis using r(2) [of D] rr by simp
      next
        case False
        then have "qAtom r" using m by simp
        from qAtom_sat [OF r(1) this, of D] obtain t where "rt = [t]" "rs = []" "qsat D r = D t"
          using rr by auto
        then show ?thesis using r(2) [of D] op by auto
      qed
      have sq: "qsat D q0 = qsat D (Query op qt qs)" for D using m q(2) qq by simp
      have "qwf (Query op (ss_union qt rt False) (qs @ rs))" using op wf by auto
      moreover have "qsat D (Query op (ss_union qt rt False) (qs @ rs)) =
          combine op (qsat D (Query op qt qs)) (qsat D (Query op rt rs))" for D
        using op by (elim disjE) (auto simp: combine_def)
      ultimately show ?thesis unfolding e sr sq using m by simp
    next
      case m2
      have e: "andOr q0 r0 op = Query ro (ss_union rt qt False) rs"
        using no m2 by (auto simp: unf qq rr)
      obtain t where t: "qt = [t]" "qs = []" using qAtom_sat [OF q(1)] m2(2) qq by auto
      then have sq: "qsat D q0 = D t" for D using ops(1) q(2) [of D] by (auto simp: qq)
      have sr: "qsat D r0 = qsat D (Query op rt rs)" for D using m2(2) r(2) rr by simp
      have "qwf (Query op (ss_union rt qt False) rs)" using op wf by auto
      moreover have "qsat D (Query op (ss_union rt qt False) rs) =
          combine op (D t) (qsat D (Query op rt rs))" for D
        using op t by (elim disjE) (auto simp: combine_def)
      ultimately show ?thesis unfolding e sr sq using m2(2) by simp
    next
      case at
      have e: "andOr q0 r0 op = Query op (qt @ rt) qs"
        using no at by (auto simp: unf qq rr)
      obtain t u where t: "qt = [t]" "qs = []" "rt = [u]" "rs = []"
        using qAtom_sat [OF q(1), of "\<lambda>_. True"] qAtom_sat [OF r(1), of "\<lambda>_. True"] at(3) qq rr by auto
      then have sq: "qsat D q0 = D t" "qsat D r0 = D u" for D
        using ops q(2) [of D] r(2) [of D] by (auto simp: qq rr)
      have "qwf (Query op (qt @ rt) qs)" using op wf by auto
      moreover have "qsat D (Query op (qt @ rt) qs) = combine op (D t) (D u)" for D
        using op t by (elim disjE) (auto simp: combine_def)
      ultimately show ?thesis unfolding e sq by simp
    next
      case ql
      have e: "andOr q0 r0 op = Query op qt (qs @ [r])" using no ql by (auto simp: unf qq rr)
      have sq: "qsat D q0 = qsat D (Query op qt qs)" for D using ql q(2) qq by simp
      have "qwf (Query op qt (qs @ [r]))" using op wf r(1) by auto
      moreover have "qsat D (Query op qt (qs @ [r])) =
          combine op (qsat D (Query op qt qs)) (qsat D r)" for D
        using op by (elim disjE) (auto simp: combine_def)
      ultimately show ?thesis unfolding e sq by (simp add: r(2))
    next
      case rl
      have e: "andOr q0 r0 op = Query op rt (rs @ [q])" using no rl by (auto simp: unf qq rr)
      have sr: "qsat D r0 = qsat D (Query op rt rs)" for D using rl r(2) rr by simp
      have "qwf (Query op rt (rs @ [q]))" using op wf q(1) by auto
      moreover have "qsat D (Query op rt (rs @ [q])) =
          combine op (qsat D q) (qsat D (Query op rt rs))" for D
        using op by (elim disjE) (auto simp: combine_def)
      ultimately show ?thesis unfolding e sr by (simp add: q(2))
    next
      case f
      obtain c a b where abc: "factor qt rt = (c, a, b)" by (cases "factor qt rt")
      have sets: "set qt = set c \<union> set a" "set rt = set c \<union> set b" using factor_sets [OF abc] by auto
      have oo: "qo = otherOp op" "ro = otherOp op" using f ops op by (auto simp: otherOp_def)
      let ?q = "Query qo a qs" and ?r = "Query ro b rs"
      have wf': "qwf ?q" "qwf ?r" using ops wf by auto
      have sem: "combine op (qsat D q) (qsat D r) =
          combine (otherOp op) (qsat D (Query (otherOp op) c [])) (combine op (qsat D ?q) (qsat D ?r))" for D
        using op by (elim disjE) (auto simp: qq rr oo otherOp_def combine_def list_all_ex_un [OF sets(1)]
            list_all_ex_un [OF sets(2)])
      show ?thesis
      proof (cases "c = []")
        case True
        have e: "andOr q0 r0 op = Query op [] [?q, ?r]"
          using no f abc True by (auto simp: unf qq rr)
        have "combine (otherOp op) (qsat D (Query (otherOp op) c [])) x = x" for D x
          using True op by (auto simp: otherOp_def combine_def)
        with sem have "combine op (qsat D q) (qsat D r) = combine op (qsat D ?q) (qsat D ?r)" for D
          by simp
        moreover have "qwf (Query op [] [?q, ?r])" using wf' op by auto
        ultimately show ?thesis
          unfolding e q(2) [symmetric] r(2) [symmetric] by (simp only: qsat_combine [OF op]) simp
      next
        case False
        let ?t = "Query (otherOp op) c []"
        have e: "andOr q0 r0 op = andOr ?t (andOr ?q ?r op) (otherOp op)"
          using no f abc False by (auto simp: unf qq rr)
        have cond: "\<not> implies q r" "\<not> implies r q" "\<not> (qOp q = op \<and> (qOp r = op \<or> qAtom r))"
          "\<not> (qOp r = op \<and> qAtom q)" "\<not> (qAtom q \<and> qAtom r)" "qOp q \<noteq> op" "qOp r \<noteq> op"
          using no f by (auto simp: qq rr)
        have abc': "(c, a, b) = factor (qTrigram q) (qTrigram r)" by (simp add: qq rr abc)
        have e': "?q = Query (qOp q) a (qSub q)" "?r = Query (qOp r) b (qSub r)" by (simp_all add: qq rr)
        have c0: "0 < length c" using False by simp
        note ih = "1.IH" [OF q_def r_def cond abc' refl e' c0]
        have i1: "qwf (andOr ?q ?r op) \<and> (\<forall>D. qsat D (andOr ?q ?r op) = combine op (qsat D ?q) (qsat D ?r))"
          by (rule ih(1) [OF wf' op])
        have "qwf ?t" "otherOp op = QAnd \<or> otherOp op = QOr" by (auto simp: otherOp_def)
        with ih(2) i1 have i2: "qwf (andOr ?t (andOr ?q ?r op) (otherOp op)) \<and>
            (\<forall>D. qsat D (andOr ?t (andOr ?q ?r op) (otherOp op)) =
                combine (otherOp op) (qsat D ?t) (qsat D (andOr ?q ?r op)))"
          by blast
        show ?thesis unfolding e q(2) [symmetric] r(2) [symmetric] using i1 i2 sem by simp
      qed
    qed
  qed
qed


lemma wf_constants [simp]:
  "qwf allQuery" "qwf noneQuery" "qsat D allQuery" "\<not> qsat D noneQuery"
  by (simp_all add: allQuery_def noneQuery_def)

lemma qand_ok: "qwf q \<Longrightarrow> qwf r \<Longrightarrow> qwf (qand q r) \<and> qsat D (qand q r) = (qsat D q \<and> qsat D r)"
  using andOr_sem [of q r QAnd] by (simp add: qand_def combine_def)

lemma qor_ok: "qwf q \<Longrightarrow> qwf r \<Longrightarrow> qwf (qor q r) \<and> qsat D (qor q r) = (qsat D q \<or> qsat D r)"
  using andOr_sem [of q r QOr] by (simp add: qor_def combine_def)

lemma or_of_strings:
  "qwf acc \<Longrightarrow>
   qwf (fold (\<lambda>tt acc. qor acc (Query QAnd (ss_clean False (trigrams_of tt)) [])) t acc) \<and>
   qsat D (fold (\<lambda>tt acc. qor acc (Query QAnd (ss_clean False (trigrams_of tt)) [])) t acc) =
     (qsat D acc \<or> (\<exists>tt \<in> set t. list_all D (trigrams_of tt)))"
proof (induction t arbitrary: acc)
  case (Cons tt t)
  let ?q = "Query QAnd (ss_clean False (trigrams_of tt)) []"
  have "qwf (qor acc ?q) \<and> qsat D (qor acc ?q) = (qsat D acc \<or> qsat D ?q)"
    using Cons.prems by (intro qor_ok) simp_all
  moreover have "qsat D ?q = list_all D (trigrams_of tt)" by (simp add: list_all_iff)
  ultimately show ?case using Cons.IH [of "qor acc ?q"] by auto
qed simp

text \<open>
  C15. Building queries keeps their meaning exactly.  On well-formed queries \<open>and\<close> and \<open>or\<close>,
  with all their simplifications (implication, merging, factoring of common trigrams), return
  a well-formed query that a document satisfies iff it satisfies both, respectively one, of
  the arguments.
\<close>

theorem query_and_or_exact:
  assumes "qwf q" "qwf r"
  shows "qwf (qand q r) \<and> (qsat D (qand q r) \<longleftrightarrow> qsat D q \<and> qsat D r) \<and>
         qwf (qor q r) \<and> (qsat D (qor q r) \<longleftrightarrow> qsat D q \<or> qsat D r)"
  using qand_ok [OF assms] qor_ok [OF assms] by blast

theorem query_and_or_exact_witness:
  "qsat (\<lambda>t. t = bytes_of ''def'')
     (qand (Query QOr [bytes_of ''abc'', bytes_of ''def'', bytes_of ''ghi''] [])
           (Query QOr [bytes_of ''abc'', bytes_of ''def'', bytes_of ''mno''] []))"
  by (rule query_and_or_exact [THEN conjunct2, THEN conjunct1, THEN iffD2]) simp_all

lemma andTrigrams_sem:
  assumes "qwf q"
  shows "qwf (andTrigrams q t) \<and>
    (qsat D (andTrigrams q t) \<longleftrightarrow> qsat D q \<and>
       ((\<exists>s \<in> set t. length s < 3) \<or> t = [] \<or> (\<exists>s \<in> set t. \<forall>x \<in> set (trigrams_of s). D x)))"
proof (cases "ss_minLen t < 3")
  case True
  then have "(\<exists>s \<in> set t. length s < 3) \<or> t = []" using ss_minLen_ge [of t] by (auto simp: not_le)
  with True assms show ?thesis by (auto simp: andTrigrams_def)
next
  case False
  then have "t \<noteq> []" "\<forall>s \<in> set t. 3 \<le> length s" using ss_minLen_ge [of t] by auto
  with False qand_ok [OF assms, of _ D] or_of_strings [of noneQuery t D] show ?thesis
    by (auto simp: andTrigrams_def list_all_iff not_less [symmetric])
qed

text \<open>
  \<open>andTrigrams\<close> adds to a query exactly the demand that, when no string of the set is
  shorter than three bytes, all trigrams of one of the strings occur; else it adds nothing.
\<close>

lemma andTrigrams_exact:
  assumes "qwf q"
  shows "qwf (andTrigrams q t) \<and>
    (qsat D (andTrigrams q t) \<longleftrightarrow> qsat D q \<and>
       ((\<exists>s \<in> set t. length s < 3) \<or> t = [] \<or> (\<exists>s \<in> set t. \<forall>x \<in> set (trigrams_of s). D x)))"
  using assms by (rule andTrigrams_sem)

lemma andTrigrams_exact_witness:
  "qsat (\<lambda>t. t = bytes_of ''xyz'') (andTrigrams allQuery [bytes_of ''abcd'', bytes_of ''xyz''])"
  by (rule andTrigrams_exact [THEN conjunct2, THEN iffD2]) (simp_all add: bytes_of_def)

text \<open>\<open>maybeRewrite\<close>, which nothing calls, overwrites the operator of an unwrapped child and
  so can change the meaning of a query.\<close>

lemma maybeRewrite_changes_meaning:
  "\<exists>D. let q = Query QOr [] [Query QOr [bytes_of ''abc'', bytes_of ''def''] []]
       in qsat D q \<noteq> qsat D (maybeRewrite QAnd q)"
  by (rule exI [of _ "\<lambda>t. t = bytes_of ''abc''"]) (simp add: maybeRewrite_def bytes_of_def Let_def)

end
