(* ===== verification/Index_Read.thy ===== *)
theory Index_Read
  imports Query Path Post_Writer
begin

text \<open>
  Reading an index, \<open>internal/codesearch/index/read.go\<close>: opening the file, names, posting
  lists and the evaluation of trigram queries.

  An index is the bytes of the file and the offsets its trailer gives.  Offsets are Go
  \<open>int\<close>s that come from the file, so they are integers, with the wrap-around of 64 bits where
  two are added.  \<open>corrupt\<close> is the fault \<open>Corrupt\<close>; a slice expression out of bounds is
  \<open>Range\<close>.  A nil slice of file numbers is \<open>None\<close>: the evaluation of queries distinguishes it
  from an empty one.  \<open>postingAnd\<close> overwrites the list it is given while it reads it; it
  writes only behind the place it reads, so the model returns a new list.
\<close>

unbundle bit_operations_syntax

section \<open>The index\<close>

record index =
  ixData :: "byte list"
  ixVersion :: nat
  ixPathData :: int
  ixNumPath :: int
  ixNameData :: int
  ixPostData :: int
  ixNameIndex :: int
  ixNumName :: int
  ixPostIndex :: int
  ixNumPost :: int
  ixNumPostBlock :: int

definition magicV1 :: gostr where "magicV1 = bytes_of (''csearch index 1'' @ [CHR 0x0A])"
definition magicV2 :: gostr where "magicV2 = bytes_of (''csearch index 2'' @ [CHR 0x0A])"
definition trailerMagicV1 :: gostr where
  "trailerMagicV1 = bytes_of ([CHR 0x0A] @ ''csearch trailr'' @ [CHR 0x0A])"
definition trailerMagicV2 :: gostr where
  "trailerMagicV2 = bytes_of ([CHR 0x0A] @ ''csearch trlr 2'' @ [CHR 0x0A])"

definition ixSlice :: "byte list \<Rightarrow> int \<Rightarrow> int \<Rightarrow> byte list res" where
  "ixSlice d off n =
     (if off < 0 then Inl Corrupt
      else if n < 0 then (if off > int (length d) then Inl Range else Inr (drop (nat off) d))
      else if wrap64 (off + n) < off \<or> wrap64 (off + n) > int (length d) then Inl Corrupt
      else Inr (take (nat n) (drop (nat off) d)))"

definition be_uint :: "byte list \<Rightarrow> nat" where
  "be_uint bs = fold (\<lambda>b n. n * 256 + unat b) bs 0"

definition ixUint32 :: "byte list \<Rightarrow> int \<Rightarrow> int res" where
  "ixUint32 d off = rbind (ixSlice d off 4) (\<lambda>s. Inr (int (be_uint s)))"

definition ixUint64 :: "byte list \<Rightarrow> int \<Rightarrow> int res" where
  "ixUint64 d off = rbind (ixSlice d off 8) (\<lambda>s.
     let v = be_uint s in if wrap64 (int v) < 0 then Inl Corrupt else Inr (int v))"

definition openIndex :: "byte list \<Rightarrow> index res" where
  "openIndex d =
     (if length d < length trailerMagicV1 then Inl Corrupt
      else let magic = drop (length d - length trailerMagicV1) d in
      if magic = trailerMagicV1 then
        let n = int (length d) - int (length trailerMagicV1) - 5 * 4 in
        if n < 0 then Inl Corrupt
        else rbind (ixUint32 d n) (\<lambda>pathData.
             rbind (ixUint32 d (n + 4)) (\<lambda>nameData.
             rbind (ixUint32 d (n + 8)) (\<lambda>postData.
             rbind (ixUint32 d (n + 12)) (\<lambda>nameIndex.
             rbind (ixUint32 d (n + 16)) (\<lambda>postIndex.
               Inr \<lparr>ixData = d, ixVersion = 1, ixPathData = pathData, ixNumPath = -1,
                 ixNameData = nameData, ixPostData = postData, ixNameIndex = nameIndex,
                 ixNumName = tdiv (postIndex - nameIndex) 4 - 1, ixPostIndex = postIndex,
                 ixNumPost = tdiv (n - postIndex) 11, ixNumPostBlock = 0\<rparr>)))))
      else if magic = trailerMagicV2 then
        let n = int (length d) - int (length trailerMagicV2) - 8 * 8 in
        if n < 0 then Inl Corrupt
        else rbind (ixUint64 d n) (\<lambda>pathData.
             rbind (ixUint64 d (n + 1 * 8)) (\<lambda>numPath.
             rbind (ixUint64 d (n + 2 * 8)) (\<lambda>nameData.
             rbind (ixUint64 d (n + 3 * 8)) (\<lambda>numName.
             rbind (ixUint64 d (n + 4 * 8)) (\<lambda>postData.
             rbind (ixUint64 d (n + 5 * 8)) (\<lambda>numPost.
             rbind (ixUint64 d (n + 6 * 8)) (\<lambda>nameIndex.
             rbind (ixUint64 d (n + 7 * 8)) (\<lambda>postIndex.
               Inr \<lparr>ixData = d, ixVersion = 2, ixPathData = pathData, ixNumPath = numPath,
                 ixNameData = nameData, ixPostData = postData, ixNameIndex = nameIndex,
                 ixNumName = numName, ixPostIndex = postIndex, ixNumPost = numPost,
                 ixNumPostBlock = tdiv (n - postIndex) 256\<rparr>))))))))
      else Inl Corrupt)"

section \<open>Names\<close>

definition ixRoots :: "index \<Rightarrow> pathReader res" where
  "ixRoots ix = rbind (ixSlice (ixData ix) (ixPathData ix) (wrap64 (ixNameData ix - ixPathData ix)))
     (\<lambda>d. NewPathReader (ixVersion ix) d (ixNumPath ix))"

text \<open>\<open>for range k { names.Next() }\<close>\<close>

primrec prSkip :: "nat \<Rightarrow> pathReader \<Rightarrow> pathReader" where
  "prSkip 0 r = r"
| "prSkip (Suc k) r = prSkip k (fst (prNext r))"

definition ixNamesAt :: "int \<Rightarrow> int \<Rightarrow> index \<Rightarrow> pathReader res" where
  "ixNamesAt mn mx ix =
     (if mn \<ge> ixNumName ix then NewPathReader 1 [] 0
      else
        rbind (if ixVersion ix = 1 then ixUint32 (ixData ix) (wrap64 (ixNameIndex ix + mn * 4))
               else ixUint64 (ixData ix) (wrap64 (ixNameIndex ix + tdiv mn 16 * 8))) (\<lambda>off.
          let limit = (if ixVersion ix = 1 then mx - mn else mx - mn + tmod mn 16);
              start = wrap64 (ixNameData ix + off)
          in rbind (ixSlice (ixData ix) start (wrap64 (ixPostData ix - start))) (\<lambda>d.
             rbind (NewPathReader (ixVersion ix) d limit) (\<lambda>names.
               Inr (if ixVersion ix = 2 then prSkip (nat (tmod mn 16)) names else names)))))"

definition ixNames :: "int \<Rightarrow> int \<Rightarrow> index \<Rightarrow> gostr list res" where
  "ixNames lo hi ix = rbind (ixNamesAt lo hi ix) (\<lambda>r.
     Inr (prAll (if prValid r then r\<lparr>prlimit := hi - lo - 1\<rparr> else r)))"

text \<open>The loop that fills the cache; the cells it does not reach stay empty.\<close>

primrec fillNames :: "nat \<Rightarrow> pathReader \<Rightarrow> gostr list" where
  "fillNames 0 r = []"
| "fillNames (Suc k) r =
     (if prValid r then prpath r # fillNames k (fst (prNext r)) else replicate (Suc k) [])"

definition buildNameCache :: "index \<Rightarrow> gostr list res" where
  "buildNameCache ix =
     (if ixNumName ix < 0 then Inl Range
      else rbind (ixNamesAt 0 (ixNumName ix) ix) (\<lambda>r. Inr (fillNames (nat (ixNumName ix)) r)))"

definition ixName :: "int \<Rightarrow> index \<Rightarrow> gostr res" where
  "ixName fileid ix = rbind (buildNameCache ix) (\<lambda>cache.
     Inr (if fileid \<ge> 0 \<and> fileid < int (length cache) then cache ! nat fileid else []))"

definition ixStr :: "int \<Rightarrow> index \<Rightarrow> gostr res" where
  "ixStr off ix = rbind (ixSlice (ixData ix) off (-1)) (\<lambda>str.
     case cut_nul str of None \<Rightarrow> Inl Corrupt | Some (before, _) \<Rightarrow> Inr before)"

section \<open>The posting index\<close>

text \<open>\<open>sort.Search\<close>: binary search for the smallest index at which the predicate holds.\<close>

function search_from :: "(nat \<Rightarrow> bool) \<Rightarrow> nat \<Rightarrow> nat \<Rightarrow> nat" where
  "search_from f i j =
     (if i < j then let h = (i + j) div 2
                    in if \<not> f h then search_from f (h + 1) j else search_from f i h
      else i)"
  by pat_completeness auto
termination by (relation "measure (\<lambda>(f, i, j). j - i)") auto

declare search_from.simps [simp del]

definition sortSearch :: "int \<Rightarrow> (nat \<Rightarrow> bool) \<Rightarrow> nat" where
  "sortSearch n f = search_from f 0 (nat n)"

definition tri_at :: "byte list \<Rightarrow> nat \<Rightarrow> u32" where
  "tri_at d i = read_tri (d ! i) (d ! (i + 1)) (d ! (i + 2))"

definition postIndexEntry :: "int \<Rightarrow> index \<Rightarrow> (u32 \<times> int \<times> int) res" where
  "postIndexEntry i ix =
     (if ixVersion ix \<noteq> 1 then Inl Panic
      else rbind (ixSlice (ixData ix) (wrap64 (ixPostIndex ix + i * 11)) 11) (\<lambda>d.
             Inr (tri_at d 0, int (be_uint (take 4 (drop 3 d))), int (be_uint (take 4 (drop 7 d))))))"

text \<open>The walk through one block of the version 2 posting index.\<close>

function walk_block :: "u32 \<Rightarrow> int \<Rightarrow> byte list \<Rightarrow> (int \<times> int) res" where
  "walk_block t offset b =
     (if length b < 3 then Inr (0, 0)
      else let u = tri_at b 0 in
      if u = 0 then Inr (0, 0)
      else case uvarint_dec (drop 3 b) of (cnt, n1) \<Rightarrow>
        if n1 < 0 then Inl Corrupt
        else case uvarint_dec (drop (3 + nat n1) b) of (d, n2) \<Rightarrow>
          if n2 < 0 then Inl Corrupt
          else let offset' = wrap64 (offset + int d)
               in if u = t then Inr (wrap64 (int cnt), offset')
                  else walk_block t offset' (drop (3 + nat n1 + nat n2) b))"
  by pat_completeness auto
termination by (relation "measure (\<lambda>(t, offset, b). length b)") auto

declare walk_block.simps [simp del]

definition findListV2 :: "u32 \<Rightarrow> index \<Rightarrow> (int \<times> int) res" where
  "findListV2 t ix =
     rbind (ixSlice (ixData ix) (ixPostIndex ix) (wrap64 (ixNumPostBlock ix * 256))) (\<lambda>b.
       let i = sortSearch (ixNumPostBlock ix) (\<lambda>i. tri_at b (i * 256) > t)
       in if i = 0 then Inr (0, 0)
          else walk_block t 0 (take 256 (drop ((i - 1) * 256) b)))"

definition findList :: "u32 \<Rightarrow> index \<Rightarrow> (int \<times> int) res" where
  "findList t ix =
     (if ixVersion ix = 2 then findListV2 t ix
      else rbind (ixSlice (ixData ix) (ixPostIndex ix) (wrap64 (ixNumPost ix * 11))) (\<lambda>d.
        let i = sortSearch (ixNumPost ix) (\<lambda>i. tri_at d (i * 11) \<ge> t)
        in if int i \<ge> ixNumPost ix then Inr (0, 0)
           else rbind (postIndexEntry (int i) ix) (\<lambda>(u, cnt, offset).
                  if u \<noteq> t then Inr (0, 0) else Inr (cnt, offset))))"

section \<open>Posting lists\<close>

text \<open>\<open>poSet\<close> is \<open>r.ix != nil\<close>: \<open>init\<close> leaves a reader of an absent list as it is.\<close>

record postReader =
  poSet :: bool
  poCount :: int
  poOffset :: int
  poFileid :: int
  poRestrict :: "int list option"
  poDelta :: deltaReader

definition postReaderInit :: "index \<Rightarrow> u32 \<Rightarrow> int list option \<Rightarrow> postReader res" where
  "postReaderInit ix t restrict =
     rbind (findList t ix) (\<lambda>(cnt, offset).
       if cnt = 0
       then Inr \<lparr>poSet = False, poCount = 0, poOffset = 0, poFileid = 0, poRestrict = None,
                 poDelta = drInit (ixVersion ix) []\<rparr>
       else rbind (ixSlice (ixData ix) (wrap64 (ixPostData ix + offset + 3)) (-1)) (\<lambda>d.
              Inr \<lparr>poSet = True, poCount = cnt, poOffset = offset, poFileid = -1,
                   poRestrict = restrict, poDelta = drInit (ixVersion ix) d\<rparr>))"

text \<open>The loop of \<open>next\<close>: \<open>Some\<close> state when it finds a file number, then the state behind it.\<close>

fun postLoop :: "nat \<Rightarrow> int \<Rightarrow> int list option \<Rightarrow> deltaReader
    \<Rightarrow> (bool \<times> nat \<times> int \<times> int list option \<times> deltaReader) res" where
  "postLoop 0 fid restr dr = Inr (False, 0, fid, restr, dr)"
| "postLoop (Suc cnt) fid restr dr =
     rbind (drNext dr) (\<lambda>(delta, dr1).
       if delta \<le> 0 then Inl Corrupt
       else let fid1 = wrap64 (fid + delta) in
         case restr of
           None \<Rightarrow> Inr (True, cnt, fid1, None, dr1)
         | Some rs \<Rightarrow>
             let rs1 = dropWhile (\<lambda>x. x < fid1) rs
             in if rs1 = [] \<or> hd rs1 \<noteq> fid1 then postLoop cnt fid1 (Some rs1) dr1
                else Inr (True, cnt, fid1, Some rs1, dr1))"

definition postReaderNext :: "postReader \<Rightarrow> (bool \<times> postReader) res" where
  "postReaderNext r =
     (if \<not> poSet r then Inr (False, r)
      else rbind (postLoop (nat (poCount r)) (poFileid r) (poRestrict r) (poDelta r))
        (\<lambda>(found, cnt, fid, restr, dr).
          if found
          then Inr (True, r\<lparr>poCount := int cnt, poFileid := fid, poRestrict := restr, poDelta := dr\<rparr>)
          else rbind (drNext dr) (\<lambda>(delta, dr1).
            if delta \<noteq> 0 then Inl Corrupt
            else Inr (False, r\<lparr>poCount := int cnt, poFileid := -1, poRestrict := restr,
                              poDelta := clearBits dr1\<rparr>))))"

text \<open>All file numbers a reader delivers; each one counts \<open>poCount\<close> down.  The slices the
  lists are collected in are made with the count as capacity; a negative one is a run-time
  error.\<close>

lemma postLoop_count:
  "postLoop c fid restr dr = Inr (True, c', fid', restr', dr') \<Longrightarrow> c' < c"
proof (induction c fid restr dr rule: postLoop.induct)
  case (2 cnt fid restr dr)
  from "2.prems" obtain delta dr1 where d: "drNext dr = Inr (delta, dr1)" "\<not> delta \<le> 0"
    by (auto simp: rbind_Inr_iff split: if_splits)
  show ?case
  proof (cases restr)
    case None
    with "2.prems" d show ?thesis by (simp add: Let_def)
  next
    case (Some rs)
    define rs1 where "rs1 = dropWhile (\<lambda>x. x < wrap64 (fid + delta)) rs"
    show ?thesis
    proof (cases "rs1 = [] \<or> hd rs1 \<noteq> wrap64 (fid + delta)")
      case True
      with "2.prems" d Some have
        "postLoop cnt (wrap64 (fid + delta)) (Some rs1) dr1 = Inr (True, c', fid', restr', dr')"
        by (simp add: Let_def rs1_def)
      with "2.IH" [OF d(1) refl d(2) refl Some rs1_def True] show ?thesis by simp
    next
      case False
      then have e: "(rs1 = [] \<or> hd rs1 \<noteq> wrap64 (fid + delta)) = False" by blast
      from "2.prems" d(1,2) show ?thesis
        by (simp only: postLoop.simps Some rbind_simps prod.case option.case Let_def
            rs1_def [symmetric] e if_False) simp
    qed
  qed
qed simp

function postAll :: "postReader \<Rightarrow> int list res" where
  "postAll r = rbind (postReaderNext r) (\<lambda>(ok, r').
     if ok then rbind (postAll r') (\<lambda>xs. Inr (poFileid r' # xs)) else Inr [])"
  by pat_completeness auto
termination
  by (relation "measure (nat \<circ> poCount)")
    (auto simp: postReaderNext_def rbind_Inr_iff split: if_splits dest: postLoop_count)

declare postAll.simps [simp del]

definition postingList :: "u32 \<Rightarrow> int list option \<Rightarrow> index \<Rightarrow> int list res" where
  "postingList t restrict ix = rbind (postReaderInit ix t restrict) (\<lambda>r.
     if poCount r < 0 then Inl Range else postAll r)"

text \<open>The loops of \<open>postingAnd\<close> and \<open>postingOr\<close>, over what the reader delivers.\<close>

fun and_loop :: "int list \<Rightarrow> int list \<Rightarrow> int list" where
  "and_loop xs [] = []"
| "and_loop xs (f # fs) =
     (let xs1 = dropWhile (\<lambda>x. x < f) xs
      in if xs1 \<noteq> [] \<and> hd xs1 = f then f # and_loop (tl xs1) fs else and_loop xs1 fs)"

definition postingAnd :: "int list \<Rightarrow> u32 \<Rightarrow> int list option \<Rightarrow> index \<Rightarrow> int list res" where
  "postingAnd xs t restrict ix =
     rbind (postReaderInit ix t restrict) (\<lambda>r. rbind (postAll r) (\<lambda>fs. Inr (and_loop xs fs)))"

fun or_loop :: "int list \<Rightarrow> int list \<Rightarrow> int list" where
  "or_loop xs [] = xs"
| "or_loop xs (f # fs) =
     (let low = takeWhile (\<lambda>x. x < f) xs; xs1 = dropWhile (\<lambda>x. x < f) xs
      in low @ f # or_loop (if xs1 \<noteq> [] \<and> hd xs1 = f then tl xs1 else xs1) fs)"

definition postingOr :: "int list \<Rightarrow> u32 \<Rightarrow> int list option \<Rightarrow> index \<Rightarrow> int list res" where
  "postingOr xs t restrict ix =
     rbind (postReaderInit ix t restrict) (\<lambda>r.
       if int (length xs) + poCount r < 0 then Inl Range
       else rbind (postAll r) (\<lambda>fs. Inr (or_loop xs fs)))"

fun mergeOr :: "int list \<Rightarrow> int list \<Rightarrow> int list" where
  "mergeOr [] [] = []"
| "mergeOr (x # xs) [] = x # mergeOr xs []"
| "mergeOr [] (y # ys) = y # mergeOr [] ys"
| "mergeOr (x # xs) (y # ys) =
     (if x < y then x # mergeOr xs (y # ys)
      else if x > y then y # mergeOr (x # xs) ys
      else x # mergeOr xs ys)"

section \<open>Queries\<close>

definition tri_of :: "gostr \<Rightarrow> u32 res" where
  "tri_of t = (case t of a # b # c # _ \<Rightarrow> Inr (read_tri a b c) | _ \<Rightarrow> Inl Range)"

definition olen :: "int list option \<Rightarrow> nat" where
  "olen l = (case l of None \<Rightarrow> 0 | Some xs \<Rightarrow> length xs)"

definition olist :: "int list option \<Rightarrow> int list" where
  "olist l = (case l of None \<Rightarrow> [] | Some xs \<Rightarrow> xs)"

text \<open>A loop of \<open>QAnd\<close> that may return early carries \<open>Inl ()\<close> from the moment the list is
  empty: \<open>return nil\<close>.\<close>

type_synonym early = "unit + int list option"

definition and_step :: "index \<Rightarrow> int list option \<Rightarrow> gostr \<Rightarrow> early \<Rightarrow> early res" where
  "and_step ix restrict t st = (case st of Inl u \<Rightarrow> Inr (Inl u) | Inr l \<Rightarrow>
     rbind (tri_of t) (\<lambda>tri.
     rbind (case l of None \<Rightarrow> postingList tri restrict ix | Some xs \<Rightarrow> postingAnd xs tri restrict ix) (\<lambda>l1.
       Inr (if length l1 = 0 then Inl () else Inr (Some l1)))))"

definition or_step :: "index \<Rightarrow> int list option \<Rightarrow> gostr \<Rightarrow> int list option \<Rightarrow> int list option res" where
  "or_step ix restrict t l =
     rbind (tri_of t) (\<lambda>tri.
     rbind (case l of None \<Rightarrow> postingList tri restrict ix | Some xs \<Rightarrow> postingOr xs tri restrict ix) (\<lambda>l1.
       Inr (Some l1)))"

definition merged :: "int list \<Rightarrow> int list option" where
  "merged xs = (if xs = [] then None else Some xs)"

fun postingQuery :: "index \<Rightarrow> query \<Rightarrow> int list option \<Rightarrow> int list option res"
  and and_subs :: "index \<Rightarrow> int list option \<Rightarrow> query list \<Rightarrow> early \<Rightarrow> early res"
  and or_subs :: "index \<Rightarrow> int list option \<Rightarrow> query list \<Rightarrow> int list option \<Rightarrow> int list option res"
where
  "postingQuery ix (Query QNone tr sub) restrict = Inr None"
| "postingQuery ix (Query QAll tr sub) restrict =
     (case restrict of
        Some rs \<Rightarrow> Inr (Some rs)
      | None \<Rightarrow> if ixNumName ix < 0 then Inl Range
                else Inr (Some (map int [0..<nat (ixNumName ix)])))"
| "postingQuery ix (Query QAnd tr sub) restrict =
     rbind (rfold (and_step ix restrict) tr (Inr None)) (\<lambda>st.
     rbind (and_subs ix restrict sub st) (\<lambda>st.
       Inr (case st of Inl _ \<Rightarrow> None | Inr l \<Rightarrow> l)))"
| "postingQuery ix (Query QOr tr sub) restrict =
     rbind (rfold (or_step ix restrict) tr None) (or_subs ix restrict sub)"
| "and_subs ix restrict [] st = Inr st"
| "and_subs ix restrict (q # qs) st = (case st of Inl u \<Rightarrow> Inr (Inl u) | Inr l \<Rightarrow>
     rbind (postingQuery ix q (case l of None \<Rightarrow> restrict | Some xs \<Rightarrow> Some xs)) (\<lambda>l1.
       and_subs ix restrict qs (if olen l1 = 0 then Inl () else Inr l1)))"
| "or_subs ix restrict [] l = Inr l"
| "or_subs ix restrict (q # qs) l =
     rbind (postingQuery ix q restrict) (\<lambda>l1.
       or_subs ix restrict qs (merged (mergeOr (olist l) (olist l1))))"

text \<open>The exported operations, without a restriction.\<close>

definition PostingList :: "u32 \<Rightarrow> index \<Rightarrow> int list res" where
  "PostingList t ix = postingList t None ix"

definition PostingAnd :: "int list \<Rightarrow> u32 \<Rightarrow> index \<Rightarrow> int list res" where
  "PostingAnd xs t ix = postingAnd xs t None ix"

definition PostingOr :: "int list \<Rightarrow> u32 \<Rightarrow> index \<Rightarrow> int list res" where
  "PostingOr xs t ix = postingOr xs t None ix"

definition PostingQuery :: "query \<Rightarrow> index \<Rightarrow> int list option res" where
  "PostingQuery q ix = postingQuery ix q None"

section \<open>What a reader of a posting list delivers\<close>

definition member :: "int list option \<Rightarrow> nat \<Rightarrow> bool" where
  "member restr i = (case restr of None \<Rightarrow> True | Some rs \<Rightarrow> int i \<in> set rs)"

definition restr_ok :: "int list option \<Rightarrow> bool" where
  "restr_ok restr = (case restr of None \<Rightarrow> True | Some rs \<Rightarrow> sorted_wrt (<) rs)"

lemma dropWhile_less_sorted:
  assumes "sorted_wrt (<) (rs :: int list)"
  shows "sorted_wrt (<) (dropWhile (\<lambda>x. x < i) rs)" "y \<ge> i \<Longrightarrow> y \<in> set (dropWhile (\<lambda>x. x < i) rs) \<longleftrightarrow> y \<in> set rs"
    "(dropWhile (\<lambda>x. x < i) rs \<noteq> [] \<and> hd (dropWhile (\<lambda>x. x < i) rs) = i) \<longleftrightarrow> i \<in> set rs"
  using assms by (induction rs) auto

lemma postLoop_ok:
  assumes "ver = 1 \<or> ver = 2" "pending ver dr (deltas fid ids @ [0]) rest" "restr_ok restr"
    "-1 \<le> fid" "ids_ok ids" "\<forall>i \<in> set ids. fid < int i"
  shows "case filter (member restr) ids of
      [] \<Rightarrow> \<exists>fid' restr' dr'. postLoop (length ids) fid restr dr = Inr (False, 0, fid', restr', dr') \<and>
              pending ver dr' [0] rest
    | i # is \<Rightarrow> \<exists>ids' restr' dr'. postLoop (length ids) fid restr dr = Inr (True, length ids', int i, restr', dr') \<and>
              pending ver dr' (deltas (int i) ids' @ [0]) rest \<and> restr_ok restr' \<and>
              filter (member restr') ids' = is \<and> ids_ok ids' \<and> (\<forall>j \<in> set ids'. i < j) \<and> length ids' < length ids"
  using assms(2-6)
proof (induction ids arbitrary: fid restr dr)
  case (Cons i "is")
  let ?d = "nat (int i - fid)"
  have h: "fid < int i" "i < 2 ^ 40" "ids_ok is" "\<forall>j \<in> set is. i < j" "-1 \<le> fid"
    "pending ver dr (?d # (deltas (int i) is @ [0])) rest"
    using Cons.prems by (auto simp: ids_ok_def)
  obtain dr1 where dr1: "drNext dr = Inr (int ?d, dr1)" "pending ver dr1 (deltas (int i) is @ [0]) rest"
    using pending_next [OF assms(1) h(6)] by blast
  have w: "\<not> int ?d \<le> 0" "wrap64 (fid + int ?d) = int i" using h(1,2,5) by simp_all
  show ?case
  proof (cases restr)
    case None
    have "postLoop (length (i # is)) fid restr dr = Inr (True, length is, int i, None, dr1)"
      using dr1(1) w None by (simp del: of_nat_nat add: Let_def)
    moreover have "filter (member None) js = js" for js by (simp add: member_def)
    ultimately show ?thesis using dr1(2) h(3,4) None by (auto simp: restr_ok_def member_def)
  next
    case (Some rs)
    define rs1 where "rs1 = dropWhile (\<lambda>x. x < int i) rs"
    have srt: "sorted_wrt (<) rs" using Cons.prems(2) Some by (simp add: restr_ok_def)
    note dw = dropWhile_less_sorted [OF srt, of "int i", folded rs1_def]
    have same: "filter (member (Some rs1)) is = filter (member restr) is"
      using h(4) dw(2) by (intro filter_cong) (auto simp: member_def Some)
    have ok1: "restr_ok (Some rs1)" using dw(1) by (simp add: restr_ok_def)
    have e: "(rs1 = [] \<or> hd rs1 \<noteq> int i) = (int i \<notin> set rs)" using dw(3) by blast
    have len: "length (i # is) = Suc (length is)" by simp
    have step: "postLoop (length (i # is)) fid restr dr =
        (if int i \<notin> set rs then postLoop (length is) (int i) (Some rs1) dr1
         else Inr (True, length is, int i, Some rs1, dr1))"
      unfolding len postLoop.simps dr1(1) rbind_simps prod.case Some option.case Let_def w(2)
        rs1_def [symmetric] e
      using w(1) by (simp only: if_False)
    show ?thesis
    proof (cases "int i \<in> set rs")
      case True
      then have "filter (member restr) (i # is) = i # filter (member restr) is"
        by (simp add: Some member_def)
      then show ?thesis using step True dr1(2) ok1 same h(3,4) by auto
    next
      case False
      then have f: "filter (member restr) (i # is) = filter (member (Some rs1)) is"
        by (simp add: Some member_def same [unfolded Some])
      have "case filter (member (Some rs1)) is of
          [] \<Rightarrow> \<exists>fid' restr' dr'. postLoop (length is) (int i) (Some rs1) dr1 = Inr (False, 0, fid', restr', dr') \<and>
                  pending ver dr' [0] rest
        | i' # is' \<Rightarrow> \<exists>ids' restr' dr'. postLoop (length is) (int i) (Some rs1) dr1 = Inr (True, length ids', int i', restr', dr') \<and>
                  pending ver dr' (deltas (int i') ids' @ [0]) rest \<and> restr_ok restr' \<and>
                  filter (member restr') ids' = is' \<and> ids_ok ids' \<and> (\<forall>j \<in> set ids'. i' < j) \<and> length ids' < length is"
        by (rule Cons.IH) (use dr1(2) ok1 h in auto)
      moreover have s2: "postLoop (length (i # is)) fid restr dr = postLoop (length is) (int i) (Some rs1) dr1"
        unfolding step using False by simp
      ultimately show ?thesis
      proof (cases "filter (member (Some rs1)) is")
        case (Cons i' is')
        assume "case filter (member (Some rs1)) is of
            [] \<Rightarrow> \<exists>fid' restr' dr'. postLoop (length is) (int i) (Some rs1) dr1 = Inr (False, 0, fid', restr', dr') \<and>
                    pending ver dr' [0] rest
          | i' # is' \<Rightarrow> \<exists>ids' restr' dr'. postLoop (length is) (int i) (Some rs1) dr1 = Inr (True, length ids', int i', restr', dr') \<and>
                    pending ver dr' (deltas (int i') ids' @ [0]) rest \<and> restr_ok restr' \<and>
                    filter (member restr') ids' = is' \<and> ids_ok ids' \<and> (\<forall>j \<in> set ids'. i' < j) \<and> length ids' < length is"
        with Cons obtain ids' restr' dr' where l:
          "postLoop (length is) (int i) (Some rs1) dr1 = Inr (True, length ids', int i', restr', dr')"
          "pending ver dr' (deltas (int i') ids' @ [0]) rest" "restr_ok restr'"
          "filter (member restr') ids' = is'" "ids_ok ids'" "\<forall>j \<in> set ids'. i' < j" "length ids' < length is"
          by auto
        have "length ids' < length (i # is)" using l(7) by simp
        with l show ?thesis unfolding f Cons list.case s2
          by (intro exI [of _ ids'] exI [of _ restr'] exI [of _ dr'] conjI)
      qed (unfold f s2, simp)
    qed
  qed
qed simp

lemma postAll_ok:
  assumes "ver = 1 \<or> ver = 2" "poSet r" "poCount r = int (length ids)" "-1 \<le> poFileid r"
    "ids_ok ids" "\<forall>i \<in> set ids. poFileid r < int i" "restr_ok (poRestrict r)"
    "pending ver (poDelta r) (deltas (poFileid r) ids @ [0]) rest"
  shows "postAll r = Inr (map int (filter (member (poRestrict r)) ids))"
  using assms(2-8)
proof (induction "length ids" arbitrary: ids r rule: less_induct)
  case less
  note loop = postLoop_ok [OF assms(1) less.prems(7,6,3,4,5)]
  show ?case
  proof (cases "filter (member (poRestrict r)) ids")
    case Nil
    with loop obtain fid' restr' dr' where l:
      "postLoop (length ids) (poFileid r) (poRestrict r) (poDelta r) = Inr (False, 0, fid', restr', dr')"
      "pending ver dr' [0] rest" by auto
    obtain dr2 where "drNext dr' = Inr (int 0, dr2)" using pending_next [OF assms(1) l(2)] by blast
    with l(1) less.prems(1,2) Nil show ?thesis
      by (subst postAll.simps) (simp add: postReaderNext_def)
  next
    case (Cons i "is")
    with loop obtain ids' restr' dr' where l:
      "postLoop (length ids) (poFileid r) (poRestrict r) (poDelta r) = Inr (True, length ids', int i, restr', dr')"
      "pending ver dr' (deltas (int i) ids' @ [0]) rest" "restr_ok restr'"
      "filter (member restr') ids' = is" "ids_ok ids'" "\<forall>j \<in> set ids'. i < j" "length ids' < length ids"
      by auto
    let ?r = "r\<lparr>poCount := int (length ids'), poFileid := int i, poRestrict := restr', poDelta := dr'\<rparr>"
    have "postReaderNext r = Inr (True, ?r)"
      using l(1) less.prems(1,2) by (simp add: postReaderNext_def)
    moreover have "postAll ?r = Inr (map int (filter (member (poRestrict ?r)) ids'))"
      by (rule less.hyps [OF l(7)]) (use l less.prems(1) in auto)
    ultimately show ?thesis using l(4) Cons by (subst postAll.simps) simp
  qed
qed

section \<open>Sorted lists of file numbers\<close>

lemma and_loop_ok:
  "sorted_wrt (<) xs \<Longrightarrow> sorted_wrt (<) fs \<Longrightarrow> and_loop xs fs = filter (\<lambda>x. x \<in> set xs) fs"
proof (induction xs fs rule: and_loop.induct)
  case (2 xs f fs)
  define xs1 where "xs1 = dropWhile (\<lambda>x. x < f) xs"
  note dw = dropWhile_less_sorted [OF "2.prems"(1), of f, folded xs1_def]
  have fs: "sorted_wrt (<) fs" "\<forall>y \<in> set fs. f < y" using "2.prems"(2) by auto
  show ?case
  proof (cases "xs1 \<noteq> [] \<and> hd xs1 = f")
    case True
    then have t: "xs1 = f # tl xs1" by (metis list.collapse)
    with dw(1) have s: "sorted_wrt (<) (tl xs1)" by (metis sorted_wrt.simps(2))
    have "filter (\<lambda>x. x \<in> set (tl xs1)) fs = filter (\<lambda>x. x \<in> set xs) fs"
    proof (rule filter_cong [OF refl])
      fix x assume x: "x \<in> set fs"
      then have "x \<in> set xs1 \<longleftrightarrow> x \<in> set (tl xs1)" using t fs(2) by (metis list.set_cases set_ConsD list.set_intros(2) less_irrefl)
      with x fs(2) dw(2) show "(x \<in> set (tl xs1)) = (x \<in> set xs)" by fastforce
    qed
    moreover have "and_loop (tl xs1) fs = filter (\<lambda>x. x \<in> set (tl xs1)) fs"
      using "2.IH"(1) [OF xs1_def True] s fs(1) by blast
    moreover have "f \<in> set xs" using True dw(3) by blast
    ultimately show ?thesis using True by (simp add: Let_def xs1_def [symmetric])
  next
    case False
    have "filter (\<lambda>x. x \<in> set xs1) fs = filter (\<lambda>x. x \<in> set xs) fs"
      using fs(2) dw(2) by (intro filter_cong [OF refl]) auto
    moreover have "and_loop xs1 fs = filter (\<lambda>x. x \<in> set xs1) fs"
      using "2.IH"(2) [OF xs1_def False] dw(1) fs(1) by blast
    moreover have "f \<notin> set xs" using False dw(3) by blast
    ultimately show ?thesis using False by (auto simp: Let_def xs1_def [symmetric])
  qed
qed simp

lemma or_loop_ok:
  "sorted_wrt (<) xs \<Longrightarrow> sorted_wrt (<) fs \<Longrightarrow>
   sorted_wrt (<) (or_loop xs fs) \<and> set (or_loop xs fs) = set xs \<union> set fs"
proof (induction xs fs rule: or_loop.induct)
  case (2 xs f fs)
  define low where "low = takeWhile (\<lambda>x. x < f) xs"
  define xs1 where "xs1 = dropWhile (\<lambda>x. x < f) xs"
  define xs2 where "xs2 = (if xs1 \<noteq> [] \<and> hd xs1 = f then tl xs1 else xs1)"
  note dw = dropWhile_less_sorted [OF "2.prems"(1), of f, folded xs1_def]
  have fs: "sorted_wrt (<) fs" "\<forall>y \<in> set fs. f < y" using "2.prems"(2) by auto
  have xs: "xs = low @ xs1" by (simp add: low_def xs1_def)
  have "\<forall>x \<in> set low. x < f" by (auto simp: low_def dest: set_takeWhileD)
  moreover have "sorted_wrt (<) (low @ xs1)" using "2.prems"(1) by (simp only: xs)
  ultimately have low: "\<forall>x \<in> set low. x < f" "sorted_wrt (<) low" by (simp_all add: sorted_wrt_append)
  have ge: "\<forall>x \<in> set xs1. f \<le> x"
  proof (cases xs1)
    case (Cons y ys)
    then have "\<not> y < f" using hd_dropWhile [of "\<lambda>x. x < f" xs] unfolding xs1_def [symmetric] by simp
    then show ?thesis using dw(1) Cons by auto
  qed simp
  have xs2: "sorted_wrt (<) xs2" "\<forall>x \<in> set xs2. f < x" "insert f (set xs1) = insert f (set xs2)"
  proof -
    show "sorted_wrt (<) xs2" using dw(1) by (cases xs1) (auto simp: xs2_def)
    show "\<forall>x \<in> set xs2. f < x" using dw(1) ge by (cases xs1) (auto simp: xs2_def)
    show "insert f (set xs1) = insert f (set xs2)" by (cases xs1) (auto simp: xs2_def)
  qed
  have ih: "sorted_wrt (<) (or_loop xs2 fs)" "set (or_loop xs2 fs) = set xs2 \<union> set fs"
    using "2.IH" [OF low_def xs1_def] xs2(1) fs(1) by (simp_all add: xs2_def)
  have e: "or_loop xs (f # fs) = low @ f # or_loop xs2 fs"
    by (simp add: Let_def xs1_def [symmetric] low_def [symmetric] xs2_def [symmetric])
  have "\<forall>x \<in> set (or_loop xs2 fs). f < x" using ih(2) xs2(2) fs(2) by auto
  then have "sorted_wrt (<) (low @ f # or_loop xs2 fs)"
    using low ih(1) by (force simp: sorted_wrt_append)
  moreover have "set (low @ f # or_loop xs2 fs) = set xs \<union> set (f # fs)"
    using ih(2) xs2(3) by (auto simp: xs)
  ultimately show ?case by (simp only: e)
qed simp

lemma mergeOr_ok:
  "sorted_wrt (<) xs \<Longrightarrow> sorted_wrt (<) ys \<Longrightarrow>
   sorted_wrt (<) (mergeOr xs ys) \<and> set (mergeOr xs ys) = set xs \<union> set ys"
  by (induction xs ys rule: mergeOr.induct) force+

end
