(* ===== verification/Index_Lookup.thy ===== *)
theory Index_Lookup
  imports Index_Read
begin

text \<open>
  What the lookups of \<open>internal/codesearch/index/read.go\<close> return.

  The locale \<open>posting_index\<close> is the contract of the evaluation of queries with the index it
  runs on: a reader of the list of a trigram delivers its file numbers, or those of them that
  a restriction contains.  Inside it, \<open>PostingQuery\<close> is shown to return exactly the files
  whose trigrams satisfy the query.

  The contract is proved for indexes of version 1 (the version the writer uses by default):
  \<open>rep_v1\<close> says which bytes such an index consists of, and binary search in its posting index
  is shown to find every list.
\<close>

section \<open>The contract of an index\<close>

definition tri3 :: "gostr \<Rightarrow> u32" where
  "tri3 t = read_tri (t ! 0) (t ! 1) (t ! 2)"

text \<open>The files a restriction leaves, and those that answer a query.\<close>

definition universe :: "nat \<Rightarrow> int list option \<Rightarrow> int set" where
  "universe n restr = {x. 0 \<le> x \<and> x < int n \<and> (case restr of None \<Rightarrow> True | Some rs \<Rightarrow> x \<in> set rs)}"

definition answers :: "(u32 \<Rightarrow> nat list) \<Rightarrow> query \<Rightarrow> int \<Rightarrow> bool" where
  "answers posts q x = qsat (\<lambda>t. x \<in> int ` set (posts (tri3 t))) q"

text \<open>Queries whose trigrams are trigrams and whose \<open>AND\<close> nodes are not empty: what
  \<open>andOr\<close> and \<open>andTrigrams\<close> build.\<close>

fun qlookup_ok :: "query \<Rightarrow> bool" where
  "qlookup_ok (Query op tr sub) \<longleftrightarrow> list_all (\<lambda>t. length t = 3) tr \<and> list_all qlookup_ok sub \<and>
     (op = QAnd \<longrightarrow> tr \<noteq> [] \<or> sub \<noteq> [])"

locale posting_index =
  fixes rep :: "index \<Rightarrow> (u32 \<Rightarrow> nat list) \<Rightarrow> nat \<Rightarrow> bool"
  assumes rep_num: "rep ix posts n \<Longrightarrow> ixNumName ix = int n"
    and rep_posts: "rep ix posts n \<Longrightarrow> sorted_wrt (<) (posts t) \<and> (\<forall>i \<in> set (posts t). i < n)"
    and rep_read: "rep ix posts n \<Longrightarrow> restr_ok restr \<Longrightarrow>
      \<exists>r. postReaderInit ix t restr = Inr r \<and> 0 \<le> poCount r \<and>
          postAll r = Inr (map int (filter (member restr) (posts t)))"
begin

lemma read_set:
  assumes "rep ix posts n" "restr_ok restr"
  shows "\<exists>r xs. postReaderInit ix t restr = Inr r \<and> 0 \<le> poCount r \<and> postAll r = Inr xs \<and>
    sorted_wrt (<) xs \<and> set xs = {x \<in> universe n restr. x \<in> int ` set (posts t)}"
proof -
  from rep_read [OF assms] obtain r where r: "postReaderInit ix t restr = Inr r" "0 \<le> poCount r"
      "postAll r = Inr (map int (filter (member restr) (posts t)))" by blast
  have s: "sorted_wrt (<) (posts t)" "\<forall>i \<in> set (posts t). i < n"
    using rep_posts [OF assms(1)] by blast+
  have "sorted_wrt (<) (map int (filter (member restr) (posts t)))"
    using s(1) by (simp add: sorted_wrt_map sorted_wrt_filter)
  moreover have "set (map int (filter (member restr) (posts t))) =
      {x \<in> universe n restr. x \<in> int ` set (posts t)}"
    using s(2) by (auto simp: universe_def member_def split: option.splits)
  ultimately show ?thesis using r by blast
qed

lemma list_ok:
  assumes "rep ix posts n" "restr_ok restr"
  shows "\<exists>xs. postingList t restr ix = Inr xs \<and> sorted_wrt (<) xs \<and>
    set xs = {x \<in> universe n restr. x \<in> int ` set (posts t)}"
  using read_set [OF assms, of t] by (auto simp: postingList_def)

lemma and_ok:
  assumes "rep ix posts n" "restr_ok restr" "sorted_wrt (<) ys" "set ys \<subseteq> universe n restr"
  shows "\<exists>xs. postingAnd ys t restr ix = Inr xs \<and> sorted_wrt (<) xs \<and>
    set xs = {x \<in> set ys. x \<in> int ` set (posts t)}"
proof -
  obtain r xs where r: "postReaderInit ix t restr = Inr r" "postAll r = Inr xs" "sorted_wrt (<) xs"
      "set xs = {x \<in> universe n restr. x \<in> int ` set (posts t)}"
    using read_set [OF assms(1,2)] by blast
  then have "postingAnd ys t restr ix = Inr (filter (\<lambda>x. x \<in> set ys) xs)"
    using and_loop_ok [OF assms(3) r(3)] by (simp add: postingAnd_def)
  moreover have "set (filter (\<lambda>x. x \<in> set ys) xs) = {x \<in> set ys. x \<in> int ` set (posts t)}"
    using r(4) assms(4) by auto
  ultimately show ?thesis using r(3) sorted_wrt_filter by blast
qed

lemma or_ok:
  assumes "rep ix posts n" "restr_ok restr" "sorted_wrt (<) ys"
  shows "\<exists>xs. postingOr ys t restr ix = Inr xs \<and> sorted_wrt (<) xs \<and>
    set xs = set ys \<union> {x \<in> universe n restr. x \<in> int ` set (posts t)}"
proof -
  obtain r xs where r: "postReaderInit ix t restr = Inr r" "0 \<le> poCount r" "postAll r = Inr xs"
      "sorted_wrt (<) xs" "set xs = {x \<in> universe n restr. x \<in> int ` set (posts t)}"
    using read_set [OF assms(1,2)] by blast
  then show ?thesis
    using or_loop_ok [OF assms(3) r(4)] by (auto simp: postingOr_def)
qed

text \<open>The state of an \<open>AND\<close> loop: the files left after the conjuncts \<open>P\<close>.\<close>

definition and_state :: "nat \<Rightarrow> int list option \<Rightarrow> (int \<Rightarrow> bool) \<Rightarrow> bool \<Rightarrow> early \<Rightarrow> bool" where
  "and_state n restr P seen st \<longleftrightarrow> (case st of
       Inl _ \<Rightarrow> {x \<in> universe n restr. P x} = {}
     | Inr None \<Rightarrow> \<not> seen \<and> (\<forall>x. P x)
     | Inr (Some xs) \<Rightarrow> sorted_wrt (<) xs \<and> set xs = {x \<in> universe n restr. P x})"

lemma tri_of_3: "length t = 3 \<Longrightarrow> tri_of t = Inr (tri3 t)"
  by (auto simp: tri_of_def tri3_def numeral_3_eq_3 length_Suc_conv)

lemma and_step_ok:
  assumes "rep ix posts n" "restr_ok restr" "length t = 3" "and_state n restr P seen st"
  shows "\<exists>st'. and_step ix restr t st = Inr st' \<and>
    and_state n restr (\<lambda>x. P x \<and> x \<in> int ` set (posts (tri3 t))) True st'"
proof (cases st)
  case (Inl u)
  with assms(4) show ?thesis by (auto simp: and_step_def and_state_def)
next
  case (Inr l)
  have "\<exists>xs. (case l of None \<Rightarrow> postingList (tri3 t) restr ix
        | Some ys \<Rightarrow> postingAnd ys (tri3 t) restr ix) = Inr xs \<and> sorted_wrt (<) xs \<and>
      set xs = {x \<in> universe n restr. P x \<and> x \<in> int ` set (posts (tri3 t))}"
  proof (cases l)
    case None
    with assms(4) Inr list_ok [OF assms(1,2), of "tri3 t"] show ?thesis by (auto simp: and_state_def)
  next
    case (Some ys)
    with assms(4) Inr have ys: "sorted_wrt (<) ys" "set ys = {x \<in> universe n restr. P x}"
      by (simp_all add: and_state_def)
    then have "set ys \<subseteq> universe n restr" by auto
    from and_ok [OF assms(1,2) ys(1) this, of "tri3 t"] ys(2) Some show ?thesis by auto
  qed
  then obtain xs where xs: "(case l of None \<Rightarrow> postingList (tri3 t) restr ix
        | Some ys \<Rightarrow> postingAnd ys (tri3 t) restr ix) = Inr xs" "sorted_wrt (<) xs"
      "set xs = {x \<in> universe n restr. P x \<and> x \<in> int ` set (posts (tri3 t))}" by blast
  have "and_step ix restr t st = Inr (if length xs = 0 then Inl () else Inr (Some xs))"
    using Inr xs(1) tri_of_3 [OF assms(3)] by (simp add: and_step_def)
  moreover have "and_state n restr (\<lambda>x. P x \<and> x \<in> int ` set (posts (tri3 t))) True
      (if length xs = 0 then Inl () else Inr (Some xs))"
    using xs(2,3) by (auto simp: and_state_def)
  ultimately show ?thesis by blast
qed

lemma and_steps_ok:
  assumes "rep ix posts n" "restr_ok restr" "list_all (\<lambda>t. length t = 3) tr" "and_state n restr P seen st"
  shows "\<exists>st'. rfold (and_step ix restr) tr st = Inr st' \<and>
    and_state n restr (\<lambda>x. P x \<and> list_all (\<lambda>t. x \<in> int ` set (posts (tri3 t))) tr) (seen \<or> tr \<noteq> []) st'"
  using assms(3,4)
proof (induction tr arbitrary: P seen st)
  case (Cons t tr)
  then have t: "length t = 3" "list_all (\<lambda>t. length t = 3) tr" by simp_all
  from and_step_ok [OF assms(1,2) t(1) Cons.prems(2)] obtain st1 where st1:
    "and_step ix restr t st = Inr st1"
    "and_state n restr (\<lambda>x. P x \<and> x \<in> int ` set (posts (tri3 t))) True st1" by blast
  from Cons.IH [OF t(2) st1(2)] st1(1) show ?case by (simp add: conj_assoc)
qed simp

lemma or_steps_ok:
  assumes "rep ix posts n" "restr_ok restr" "list_all (\<lambda>t. length t = 3) tr"
    and "sorted_wrt (<) (olist l)" "set (olist l) = {x \<in> universe n restr. P x}"
  shows "\<exists>l'. rfold (or_step ix restr) tr l = Inr l' \<and> sorted_wrt (<) (olist l') \<and>
    set (olist l') = {x \<in> universe n restr. P x \<or> list_ex (\<lambda>t. x \<in> int ` set (posts (tri3 t))) tr}"
  using assms(3-5)
proof (induction tr arbitrary: P l)
  case (Cons t tr)
  then have t: "length t = 3" "list_all (\<lambda>t. length t = 3) tr" by simp_all
  have "\<exists>xs. (case l of None \<Rightarrow> postingList (tri3 t) restr ix
        | Some ys \<Rightarrow> postingOr ys (tri3 t) restr ix) = Inr xs \<and> sorted_wrt (<) xs \<and>
      set xs = {x \<in> universe n restr. P x \<or> x \<in> int ` set (posts (tri3 t))}"
  proof (cases l)
    case None
    with list_ok [OF assms(1,2), of "tri3 t"] Cons.prems(3) show ?thesis by (auto simp: olist_def)
  next
    case (Some ys)
    with Cons.prems(2,3) or_ok [OF assms(1,2), of ys "tri3 t"] show ?thesis
      by (auto simp: olist_def)
  qed
  then obtain xs where xs: "or_step ix restr t l = Inr (Some xs)" "sorted_wrt (<) xs"
      "set xs = {x \<in> universe n restr. P x \<or> x \<in> int ` set (posts (tri3 t))}"
    using tri_of_3 [OF t(1)] by (auto simp: or_step_def)
  from Cons.IH [OF t(2), of "Some xs" "\<lambda>x. P x \<or> x \<in> int ` set (posts (tri3 t))"] xs show ?case
    by (simp add: olist_def disj_assoc)
qed simp

lemma query_ok:
  shows "rep ix posts n \<Longrightarrow> restr_ok restr \<Longrightarrow> qlookup_ok q \<Longrightarrow>
      (\<forall>rs. restr = Some rs \<longrightarrow> set rs \<subseteq> {0..<int n}) \<Longrightarrow>
      \<exists>l. postingQuery ix q restr = Inr l \<and> sorted_wrt (<) (olist l) \<and>
          set (olist l) = {x \<in> universe n restr. answers posts q x}"
    and "rep ix posts n \<Longrightarrow> restr_ok restr \<Longrightarrow> list_all qlookup_ok qs \<Longrightarrow>
      (\<forall>rs. restr = Some rs \<longrightarrow> set rs \<subseteq> {0..<int n}) \<Longrightarrow> and_state n restr P seen st \<Longrightarrow>
      \<exists>st'. and_subs ix restr qs st = Inr st' \<and>
        and_state n restr (\<lambda>x. P x \<and> list_all (\<lambda>q. answers posts q x) qs) (seen \<or> qs \<noteq> []) st'"
    and "rep ix posts n \<Longrightarrow> restr_ok restr \<Longrightarrow> list_all qlookup_ok qs \<Longrightarrow>
      (\<forall>rs. restr = Some rs \<longrightarrow> set rs \<subseteq> {0..<int n}) \<Longrightarrow>
      sorted_wrt (<) (olist l) \<Longrightarrow> set (olist l) = {x \<in> universe n restr. P' x} \<Longrightarrow>
      \<exists>l'. or_subs ix restr qs l = Inr l' \<and> sorted_wrt (<) (olist l') \<and>
        set (olist l') = {x \<in> universe n restr. P' x \<or> list_ex (\<lambda>q. answers posts q x) qs}"
proof (induction ix q restr and ix restr qs st and ix restr qs l arbitrary: and P seen and P'
    rule: postingQuery_and_subs_or_subs.induct)
  case (1 ix tr sub restrict)
  then show ?case by (simp add: answers_def olist_def)
next
  case (2 ix tr sub restrict)
  show ?case
  proof (cases restrict)
    case None
    have "sorted_wrt (<) (map int [0..<n])" by (simp add: sorted_wrt_map)
    moreover have "set (map int [0..<n]) = {x. 0 \<le> x \<and> x < int n}"
    proof (intro set_eqI iffI)
      fix x assume "x \<in> {x. 0 \<le> x \<and> x < int n}"
      then have "x = int (nat x)" "nat x < n" by auto
      then show "x \<in> set (map int [0..<n])" by force
    qed auto
    ultimately show ?thesis using rep_num [OF 2(1)] None
      by (simp add: olist_def answers_def universe_def)
  next
    case (Some rs)
    with 2 show ?thesis by (auto simp: olist_def answers_def universe_def restr_ok_def)
  qed
next
  case (3 ix tr sub restrict)
  have s0: "and_state n restrict (\<lambda>x. True) False (Inr None)" by (simp add: and_state_def)
  have tr: "list_all (\<lambda>t. length t = 3) tr" "list_all qlookup_ok sub" "tr \<noteq> [] \<or> sub \<noteq> []"
    using 3(4) by simp_all
  from and_steps_ok [OF 3(2,3) tr(1) s0] obtain st1 where st1:
    "rfold (and_step ix restrict) tr (Inr None) = Inr st1"
    "and_state n restrict (\<lambda>x. list_all (\<lambda>t. x \<in> int ` set (posts (tri3 t))) tr) (tr \<noteq> []) st1"
    by auto
  from "3.IH" [OF st1(1) 3(2,3) tr(2) 3(5) st1(2)] obtain st2 where st2:
    "and_subs ix restrict sub st1 = Inr st2"
    "and_state n restrict (\<lambda>x. list_all (\<lambda>t. x \<in> int ` set (posts (tri3 t))) tr \<and>
       list_all (\<lambda>q. answers posts q x) sub) (tr \<noteq> [] \<or> sub \<noteq> []) st2" by blast
  have a: "answers posts (Query QAnd tr sub) x \<longleftrightarrow>
      list_all (\<lambda>t. x \<in> int ` set (posts (tri3 t))) tr \<and> list_all (\<lambda>q. answers posts q x) sub" for x
    by (simp add: answers_def)
  show ?case
  proof (cases st2)
    case (Inl u)
    with st1(1) st2 show ?thesis by (simp add: a olist_def and_state_def)
  next
    case (Inr l)
    with st2(2) tr(3) obtain xs where "l = Some xs" by (cases l) (auto simp: and_state_def)
    with Inr st1(1) st2 show ?thesis by (simp add: a olist_def and_state_def)
  qed
next
  case (4 ix tr sub restrict)
  have tr: "list_all (\<lambda>t. length t = 3) tr" "list_all qlookup_ok sub" using 4(4) by simp_all
  have l0: "sorted_wrt (<) (olist None)" "set (olist None) = {x \<in> universe n restrict. False}"
    by (simp_all add: olist_def)
  from or_steps_ok [OF 4(2,3) tr(1) l0] obtain l1 where l1:
    "rfold (or_step ix restrict) tr None = Inr l1" "sorted_wrt (<) (olist l1)"
    "set (olist l1) = {x \<in> universe n restrict. list_ex (\<lambda>t. x \<in> int ` set (posts (tri3 t))) tr}"
    by auto
  from "4.IH" [OF l1(1) 4(2,3) tr(2) 4(5) l1(2,3)] l1(1) show ?case
    by (simp add: answers_def)
next
  case (5 ix restrict st)
  then show ?case by simp
next
  case (6 ix restrict q qs st)
  show ?case
  proof (cases st)
    case (Inl u)
    with 6(7) show ?thesis by (auto simp: and_state_def)
  next
    case (Inr l)
    define restr' where "restr' = (case l of None \<Rightarrow> restrict | Some xs \<Rightarrow> Some xs)"
    have st: "and_state n restrict P seen (Inr l)" using 6(7) Inr by simp
    have r': "restr_ok restr'" "\<forall>rs. restr' = Some rs \<longrightarrow> set rs \<subseteq> {0..<int n}"
      "universe n restr' = {x \<in> universe n restrict. P x}"
    proof (atomize (full), cases l)
      case None
      with st have "P x" for x by (simp add: and_state_def)
      then show "restr_ok restr' \<and> (\<forall>rs. restr' = Some rs \<longrightarrow> set rs \<subseteq> {0..<int n}) \<and>
          universe n restr' = {x \<in> universe n restrict. P x}"
        using None 6(4,6) by (simp add: restr'_def)
    next
      case (Some xs)
      with st have xs: "sorted_wrt (<) xs" "set xs = {x \<in> universe n restrict. P x}"
        by (simp_all add: and_state_def)
      have sub: "set xs \<subseteq> {0..<int n}" unfolding xs(2) by (auto simp: universe_def)
      then have "universe n (Some xs) = set xs" by (auto simp: universe_def)
      with sub xs show "restr_ok restr' \<and> (\<forall>rs. restr' = Some rs \<longrightarrow> set rs \<subseteq> {0..<int n}) \<and>
          universe n restr' = {x \<in> universe n restrict. P x}"
        using Some by (simp add: restr'_def restr_ok_def)
    qed
    have q: "qlookup_ok q" "list_all qlookup_ok qs" using 6(5) by simp_all
    from "6.IH"(1) [OF Inr 6(3) r'(1) [unfolded restr'_def] q(1) r'(2) [unfolded restr'_def]]
    obtain l1 where l1: "postingQuery ix q restr' = Inr l1" "sorted_wrt (<) (olist l1)"
      "set (olist l1) = {x \<in> universe n restr'. answers posts q x}"
      by (auto simp: restr'_def)
    define st1 :: early where "st1 = (if olen l1 = 0 then Inl () else Inr l1)"
    have "and_state n restrict (\<lambda>x. P x \<and> answers posts q x) True st1"
    proof (cases l1)
      case None
      then show ?thesis using l1(3) r'(3) by (auto simp: st1_def olen_def olist_def and_state_def)
    next
      case (Some xs)
      then show ?thesis using l1(2,3) r'(3) by (auto simp: st1_def olen_def olist_def and_state_def)
    qed
    from "6.IH"(2) [OF Inr l1(1) [unfolded restr'_def] 6(3,4) q(2) 6(6) this [unfolded st1_def]]
    show ?thesis using Inr l1(1)
      by (simp add: restr'_def [symmetric] conj_assoc)
  qed
next
  case (7 ix restrict l)
  then show ?case by simp
next
  case (8 ix restrict q qs l)
  have q: "qlookup_ok q" "list_all qlookup_ok qs" using 8(5) by simp_all
  from "8.IH"(1) [OF 8(3,4) q(1) 8(6)] obtain l1 where l1:
    "postingQuery ix q restrict = Inr l1" "sorted_wrt (<) (olist l1)"
    "set (olist l1) = {x \<in> universe n restrict. answers posts q x}" by blast
  have m: "olist (merged (mergeOr (olist l) (olist l1))) = mergeOr (olist l) (olist l1)"
    by (simp add: merged_def olist_def)
  have "sorted_wrt (<) (olist (merged (mergeOr (olist l) (olist l1))))"
    "set (olist (merged (mergeOr (olist l) (olist l1)))) =
       {x \<in> universe n restrict. P' x \<or> answers posts q x}"
    unfolding m using mergeOr_ok [OF 8(7) l1(2)] 8(8) l1(3) by auto
  from "8.IH"(2) [OF l1(1) 8(3,4) q(2) 8(6) this] l1(1) show ?case by (simp add: disj_assoc)
qed

end

section \<open>Bytes and numbers\<close>

lemma unat_byte_of: "unat (ucast (drop_bit k (w :: 'a::len word)) :: byte) = unat w div 2 ^ k mod 256"
  by (simp add: unsigned_ucast_eq unsigned_drop_bit_eq) (simp add: take_bit_eq_mod drop_bit_eq_div)

lemma unat_byte_of_0: "unat (ucast (w :: 'a::len word) :: byte) = unat w mod 256"
  using unat_byte_of [of 0 w] by simp

lemma be_uint_be32: "be_uint (be32 w) = unat w"
proof -
  define n where "n = unat w"
  have n: "n < 2 ^ 32" using unsigned_less [of w] by (simp add: n_def)
  have "n div 2 ^ 24 mod 256 = n div 2 ^ 24" using n by (simp add: less_mult_imp_div_less)
  moreover have "n div 2 ^ 16 = n div 2 ^ 24 * 256 + n div 2 ^ 16 mod 256"
    using div_mod_decomp [of "n div 2 ^ 16" 256] by (simp flip: div_mult2_eq)
  moreover have "n div 2 ^ 8 = n div 2 ^ 16 * 256 + n div 2 ^ 8 mod 256"
    using div_mod_decomp [of "n div 2 ^ 8" 256] by (simp flip: div_mult2_eq)
  moreover have "n = n div 2 ^ 8 * 256 + n mod 256" by simp
  moreover have "unat (drop_bit k w) = n div 2 ^ k" for k
    using n by (simp add: unsigned_drop_bit_eq n_def [symmetric])
      (simp add: drop_bit_eq_div take_bit_nat_eq_self)
  ultimately show ?thesis
    by (simp add: be_uint_def be32_def unat_byte_of unat_byte_of_0 n_def [symmetric])
qed

lemma length_be32 [simp]: "length (be32 w) = 4"
  by (simp add: be32_def)

lemma length_tri_bytes [simp]: "length (tri_bytes t) = 3"
  by (simp add: tri_bytes_def)

lemma tri_at_bytes: "t \<le> 0xFFFFFF \<Longrightarrow> take 3 (drop i d) = tri_bytes t \<Longrightarrow> tri_at d i = t"
proof -
  assume t: "t \<le> 0xFFFFFF" and d: "take 3 (drop i d) = tri_bytes t"
  obtain a b c where abc: "tri_bytes t = [a, b, c]" "read_tri a b c = t"
    using tri_bytes_eq [OF t] by blast
  have len: "i + 2 < length d" using arg_cong [OF d, of length] by simp
  have "d ! (i + k) = tri_bytes t ! k" if "k < 3" for k
    using that len by (simp flip: d)
  from this [of 0] this [of 1] this [of 2] show ?thesis
    using abc by (simp add: tri_at_def)
qed

section \<open>Binary search\<close>

lemma search_from_ok:
  assumes "\<And>a b. a \<le> b \<Longrightarrow> b < n \<Longrightarrow> f a \<Longrightarrow> f b" "i \<le> j" "j \<le> n"
    and "\<forall>k < i. \<not> f k" "\<forall>k. j \<le> k \<and> k < n \<longrightarrow> f k"
  shows "search_from f i j \<le> n \<and> (\<forall>k < search_from f i j. \<not> f k) \<and>
    (\<forall>k. search_from f i j \<le> k \<and> k < n \<longrightarrow> f k)"
  using assms
proof (induction f i j rule: search_from.induct)
  case (1 f i j)
  show ?case
  proof (cases "i < j")
    case True
    define h where "h = (i + j) div 2"
    have h: "i \<le> h" "h < j" using True by (auto simp: h_def)
    show ?thesis
    proof (cases "f h")
      case True
      then have "\<forall>k. h \<le> k \<and> k < n \<longrightarrow> f k" using "1.prems"(1) by blast
      with "1.IH"(2) [OF \<open>i < j\<close> h_def] True "1.prems" h
      show ?thesis by (simp add: search_from.simps [of f i j] Let_def h_def [symmetric])
    next
      case False
      have "\<forall>k < h + 1. \<not> f k"
      proof (intro allI impI notI)
        fix k assume "k < h + 1" "f k"
        with "1.prems"(1) [of k h] h(2) "1.prems"(3) False show False by simp
      qed
      with "1.IH"(1) [OF \<open>i < j\<close> h_def] False "1.prems" h
      show ?thesis by (simp add: search_from.simps [of f i j] Let_def h_def [symmetric])
    qed
  next
    case False
    then have "i = j" using "1.prems"(2) by simp
    then have "search_from f i j = j" by (subst search_from.simps) simp
    with "1.prems" \<open>i = j\<close> show ?thesis by simp
  qed
qed

lemma sortSearch_ok:
  assumes "\<And>a b. a \<le> b \<Longrightarrow> b < n \<Longrightarrow> f a \<Longrightarrow> f b"
  shows "sortSearch (int n) f \<le> n \<and> (\<forall>k < sortSearch (int n) f. \<not> f k) \<and>
    (\<forall>k. sortSearch (int n) f \<le> k \<and> k < n \<longrightarrow> f k)"
  unfolding sortSearch_def nat_int by (rule search_from_ok [OF assms]) auto

section \<open>The bytes of a version 1 index\<close>

definition index1_entry :: "nat \<Rightarrow> posting \<Rightarrow> byte list" where
  "index1_entry off = (\<lambda>(t, ids). tri_bytes t @ be32 (of_nat (length ids)) @ be32 (of_nat off))"

fun index1 :: "nat \<Rightarrow> posting list \<Rightarrow> byte list list" where
  "index1 off [] = []"
| "index1 off (g # gs) = index1_entry off g # index1 (off + length (posting_bytes 1 g)) gs"

text \<open>Lists as the reader needs them: the end marker's empty list is one of them.\<close>

definition lists_ok :: "posting list \<Rightarrow> bool" where
  "lists_ok gs \<longleftrightarrow> sorted_wrt (\<lambda>g h. fst g < fst h) gs \<and>
     (\<forall>g \<in> set gs. fst g \<le> 0xFFFFFF \<and> ids_ok (snd g))"

definition list_of :: "posting list \<Rightarrow> u32 \<Rightarrow> nat list" where
  "list_of gs t = (case map_of gs t of None \<Rightarrow> [] | Some ids \<Rightarrow> ids)"

definition rep_v1 :: "index \<Rightarrow> (u32 \<Rightarrow> nat list) \<Rightarrow> nat \<Rightarrow> bool" where
  "rep_v1 ix posts n \<longleftrightarrow> (\<exists>gs pre mid post.
     posts = list_of gs \<and> lists_ok gs \<and> (\<forall>g \<in> set gs. \<forall>i \<in> set (snd g). i < n) \<and>
     ixVersion ix = 1 \<and> ixNumName ix = int n \<and> ixNumPost ix = int (length gs) \<and>
     ixData ix = pre @ postings_bytes 1 gs @ mid @ concat (index1 0 gs) @ post \<and>
     length (ixData ix) < 2 ^ 32 \<and> ixPostData ix = int (length pre) \<and>
     ixPostIndex ix = int (length pre + length (postings_bytes 1 gs) + length mid))"

lemma length_index1 [simp]: "length (index1 off gs) = length gs"
  by (induction gs arbitrary: off) auto

lemma length_index1_entry [simp]: "length (index1_entry off g) = 11"
  by (cases g) (simp add: index1_entry_def)

lemma length_concat_index1: "length (concat (index1 off gs)) = length gs * 11"
  by (induction gs arbitrary: off) simp_all

lemma nth_index1:
  "i < length gs \<Longrightarrow> index1 off gs ! i = index1_entry (off + length (postings_bytes 1 (take i gs))) (gs ! i)"
proof (induction gs arbitrary: off i)
  case (Cons g gs)
  then show ?case by (cases i) (simp_all add: postings_bytes_def add.assoc)
qed simp

lemma take_drop_concat:
  "(\<forall>x \<in> set xs. length x = k) \<Longrightarrow> i < length xs \<Longrightarrow> take k (drop (i * k) (concat xs)) = xs ! i"
proof (induction xs arbitrary: i)
  case (Cons x xs)
  then show ?case by (cases i) simp_all
qed simp

lemma index1_at:
  assumes "i < length gs"
  shows "take 11 (drop (i * 11) (concat (index1 off gs))) =
    index1_entry (off + length (postings_bytes 1 (take i gs))) (gs ! i)"
proof -
  have "\<forall>x \<in> set (index1 off gs). length x = 11"
    by (induction gs arbitrary: off) auto
  from take_drop_concat [OF this, of i] nth_index1 [OF assms] assms show ?thesis by simp
qed

lemma tri_at_index1:
  assumes "i < length gs" "fst (gs ! i) \<le> 0xFFFFFF"
  shows "tri_at (concat (index1 off gs)) (i * 11) = fst (gs ! i)"
proof -
  have "take 3 (drop (i * 11) (concat (index1 off gs))) =
      take 3 (take 11 (drop (i * 11) (concat (index1 off gs))))" by simp
  also have "\<dots> = tri_bytes (fst (gs ! i))"
    by (simp only: index1_at [OF assms(1)]) (cases "gs ! i", simp add: index1_entry_def)
  finally show ?thesis by (rule tri_at_bytes [OF assms(2)])
qed

text \<open>A number a delta list is written with takes at least one byte.\<close>

lemma length_delta_enc1: "length ds \<le> length (delta_enc 1 ds)"
proof -
  have "length ds \<le> length (concat (map uvarint_enc ds))"
  proof (induction ds)
    case (Cons d ds)
    have "1 \<le> length (uvarint_enc d)" by (simp add: Suc_le_eq)
    with Cons show ?case
      unfolding list.map concat.simps length_append list.size by linarith
  qed simp
  then show ?thesis by (simp add: delta_enc_def)
qed

lemma length_deltas [simp]: "length (deltas p ids) = length ids"
  by (induction p ids rule: deltas.induct) auto

lemma posting_count: "g \<in> set gs \<Longrightarrow> length (snd g) \<le> length (postings_bytes 1 gs)"
proof (induction gs)
  case (Cons h gs)
  have "length (snd h) \<le> length (posting_bytes 1 h)"
    using length_delta_enc1 [of "deltas (-1) (snd h) @ [0]"]
    by (cases h) (simp add: posting_bytes_def)
  with Cons show ?case by (auto simp: postings_bytes_def)
qed simp

text \<open>The search finds the list of a trigram, or that there is none.\<close>

lemma findList_v1:
  assumes "lists_ok gs" "ixVersion ix = 1" "ixNumPost ix = int (length gs)"
    and "ixData ix = pre @ postings_bytes 1 gs @ mid @ concat (index1 0 gs) @ post"
    and "length (ixData ix) < 2 ^ 32"
    and "ixPostIndex ix = int (length pre + length (postings_bytes 1 gs) + length mid)"
  shows "findList t ix = Inr (case map_of gs t of
      None \<Rightarrow> (0, 0)
    | Some ids \<Rightarrow> (int (length ids),
        int (length (postings_bytes 1 (takeWhile (\<lambda>g. fst g \<noteq> t) gs)))))"
proof -
  define D where "D = concat (index1 0 gs)"
  define b where "b = length pre + length (postings_bytes 1 gs) + length mid"
  have d: "drop b (ixData ix) = D @ post" by (simp add: assms(4) b_def D_def)
  have pI: "ixPostIndex ix = int b" by (simp add: assms(6) b_def)
  have lenD: "length D = length gs * 11" by (simp add: D_def length_concat_index1)
  have tot: "b + length gs * 11 \<le> length (ixData ix)"
    by (simp add: assms(4) b_def length_concat_index1)
  have sl: "ixSlice (ixData ix) (ixPostIndex ix) (wrap64 (ixNumPost ix * 11)) = Inr D"
    using tot assms(5) lenD d
    by (simp add: assms(3) pI ixSlice_def nat_mult_distrib)
  define f where "f = (\<lambda>i. tri_at D (i * 11) \<ge> t)"
  have le: "fst (gs ! i) \<le> 0xFFFFFF" if "i < length gs" for i
    using assms(1) that by (simp add: lists_ok_def)
  have tri: "tri_at D (i * 11) = fst (gs ! i)" if "i < length gs" for i
    using tri_at_index1 [OF that le [OF that]] by (simp add: D_def)
  have mono: "f c" if "a \<le> c" "c < length gs" "f a" for a c
  proof (cases "a = c")
    case False
    with that assms(1) have "fst (gs ! a) < fst (gs ! c)"
      by (auto simp: lists_ok_def sorted_wrt_iff_nth_less)
    with that show ?thesis by (simp add: f_def tri)
  qed (use that in simp)
  define i where "i = sortSearch (int (length gs)) f"
  have i: "i \<le> length gs" "\<forall>k < i. \<not> f k" "\<forall>k. i \<le> k \<and> k < length gs \<longrightarrow> f k"
    using sortSearch_ok [of "length gs" f, OF mono] by (simp_all add: i_def)
  have fl: "findList t ix = (if int i \<ge> int (length gs) then Inr (0, 0)
      else rbind (postIndexEntry (int i) ix) (\<lambda>(u, cnt, offset).
             if u \<noteq> t then Inr (0, 0) else Inr (cnt, offset)))"
    using assms(2) by (simp add: findList_def sl [unfolded assms(3)] assms(3) f_def [symmetric] i_def [symmetric] Let_def)
  have dist: "fst (gs ! a) \<noteq> fst (gs ! c)" if "a < c" "c < length gs" for a c
    using assms(1) that by (fastforce simp: lists_ok_def sorted_wrt_iff_nth_less)
  show ?thesis
  proof (cases "i < length gs \<and> fst (gs ! i) = t")
    case True
    then have il: "i < length gs" and it: "fst (gs ! i) = t" by simp_all
    have tw: "takeWhile (\<lambda>g. fst g \<noteq> t) gs = take i gs"
      using il it dist by (intro takeWhile_eq_take_P_nth) auto
    have "map_of gs t = Some (snd (gs ! i))"
    proof (rule map_of_is_SomeI)
      show "distinct (map fst gs)"
        unfolding distinct_conv_nth
      proof (intro allI impI)
        fix a c assume "a < length (map fst gs)" "c < length (map fst gs)" "a \<noteq> c"
        then show "map fst gs ! a \<noteq> map fst gs ! c"
          using dist [of a c] dist [of c a] by (cases a c rule: linorder_cases) auto
      qed
      show "(t, snd (gs ! i)) \<in> set gs" using il it by (metis nth_mem prod.collapse)
    qed
    moreover have "postIndexEntry (int i) ix =
        Inr (t, int (length (snd (gs ! i))), int (length (postings_bytes 1 (take i gs))))"
    proof -
      let ?off = "length (postings_bytes 1 (take i gs))"
      have bnd: "b + i * 11 + 11 \<le> length (ixData ix)" using tot il by linarith
      have "drop (b + i * 11) (ixData ix) = drop (i * 11) (D @ post)"
        by (simp add: d [symmetric] add.commute)
      then have "take 11 (drop (b + i * 11) (ixData ix)) = index1_entry ?off (gs ! i)"
        using index1_at [OF il, of 0] il by (simp add: D_def lenD [unfolded D_def])
      moreover have "nat (int b + int i * 11) = b + i * 11" by simp
      ultimately have "ixSlice (ixData ix) (wrap64 (ixPostIndex ix + int i * 11)) 11 =
          Inr (index1_entry ?off (gs ! i))"
        using bnd assms(5) by (simp add: pI ixSlice_def)
      moreover have "postings_bytes 1 gs = postings_bytes 1 (take i gs) @ postings_bytes 1 (drop i gs)"
        by (simp add: postings_bytes_def flip: map_append concat_append)
      then have "?off \<le> length (postings_bytes 1 gs)" by simp
      then have "?off < 2 ^ 32" using assms(4,5) by simp
      moreover have "length (snd (gs ! i)) < 2 ^ 32"
        using posting_count [of "gs ! i" gs] il assms(4,5) by simp
      moreover have "tri_at (index1_entry ?off (gs ! i)) 0 = t"
        using le [OF il] it by (intro tri_at_bytes) (auto simp: index1_entry_def split: prod.split)
      moreover obtain ids where "gs ! i = (t, ids)" using it by (cases "gs ! i") auto
      ultimately show ?thesis
        using assms(2)
        by (simp add: postIndexEntry_def index1_entry_def be_uint_be32 unsigned_of_nat take_bit_nat_eq_self)
    qed
    ultimately show ?thesis using il by (simp add: fl tw)
  next
    case False
    have "t \<notin> fst ` set gs"
    proof
      assume "t \<in> fst ` set gs"
      then obtain k where k: "k < length gs" "fst (gs ! k) = t" by (metis imageE in_set_conv_nth)
      then have "f k" by (simp add: f_def tri)
      then have "i \<le> k" using i(2) by (meson not_le)
      with False k have "i < k" by (cases "i = k") auto
      then have "fst (gs ! i) < t"
        using k assms(1) by (auto simp: lists_ok_def sorted_wrt_iff_nth_less)
      moreover have "f i" using i(3) \<open>i < k\<close> k(1) by simp
      ultimately show False using \<open>i < k\<close> k(1) by (simp add: f_def tri)
    qed
    then have none: "map_of gs t = None" by (simp add: map_of_eq_None_iff)
    show ?thesis
    proof (cases "i < length gs")
      case True
      have "\<exists>c off. postIndexEntry (int i) ix = Inr (fst (gs ! i), c, off)"
      proof -
        have bnd: "b + i * 11 + 11 \<le> length (ixData ix)" using tot True by linarith
        have "drop (b + i * 11) (ixData ix) = drop (i * 11) (D @ post)"
          by (simp add: d [symmetric] add.commute)
        then have "take 3 (take 11 (drop (b + i * 11) (ixData ix))) = tri_bytes (fst (gs ! i))"
          using index1_at [OF True, of 0] True
          by (simp add: D_def lenD [unfolded D_def] index1_entry_def split: prod.split)
        moreover have "nat (int b + int i * 11) = b + i * 11" by simp
        ultimately show ?thesis
          using bnd assms(2,5) tri_at_bytes [OF le [OF True], of 0]
          by (simp add: postIndexEntry_def pI ixSlice_def)
      qed
      with False True none show ?thesis by (auto simp: fl)
    qed (simp add: fl none)
  qed
qed

section \<open>Version 1 indexes keep the contract\<close>

lemma map_of_split:
  "map_of gs t = Some ids \<Longrightarrow> \<exists>hs. gs = takeWhile (\<lambda>g. fst g \<noteq> t) gs @ (t, ids) # hs"
  by (induction gs) (auto split: if_splits)

lemma list_of_props:
  assumes "lists_ok gs" "\<forall>g \<in> set gs. \<forall>i \<in> set (snd g). i < n"
  shows "ids_ok (list_of gs t)" "\<forall>i \<in> set (list_of gs t). i < n"
proof -
  have "ids_ok (list_of gs t) \<and> (\<forall>i \<in> set (list_of gs t). i < n)"
  proof (cases "map_of gs t")
    case None
    then show ?thesis by (simp add: list_of_def ids_ok_def)
  next
    case (Some ids)
    from map_of_SomeD [OF this] have "ids_ok ids" "\<forall>i \<in> set ids. i < n"
      using assms by (force simp: lists_ok_def)+
    with Some show ?thesis by (simp add: list_of_def)
  qed
  then show "ids_ok (list_of gs t)" "\<forall>i \<in> set (list_of gs t). i < n" by blast+
qed

lemma postingList_v1:
  assumes "rep_v1 ix posts n" "restr_ok restr"
  shows "\<exists>r. postReaderInit ix t restr = Inr r \<and> 0 \<le> poCount r \<and>
    postAll r = Inr (map int (filter (member restr) (posts t)))"
proof -
  obtain gs pre mid post where h: "posts = list_of gs" "lists_ok gs" "ixVersion ix = 1"
    "ixNumPost ix = int (length gs)"
    "ixData ix = pre @ postings_bytes 1 gs @ mid @ concat (index1 0 gs) @ post"
    "length (ixData ix) < 2 ^ 32" "ixPostData ix = int (length pre)"
    "ixPostIndex ix = int (length pre + length (postings_bytes 1 gs) + length mid)"
    using assms(1) unfolding rep_v1_def by blast
  note fl = findList_v1 [OF h(2-6,8), of t]
  show ?thesis
  proof (cases "list_of gs t = []")
    case True
    then have "\<exists>off. findList t ix = Inr (0, off)"
      using fl by (auto simp: list_of_def split: option.splits)
    then obtain off where "findList t ix = Inr (0, off)" by blast
    then show ?thesis
      using True h(1) by (auto simp: postReaderInit_def postAll.simps postReaderNext_def)
  next
    case False
    then obtain ids where ids: "map_of gs t = Some ids" "ids \<noteq> []" "list_of gs t = ids"
      by (auto simp: list_of_def split: option.splits)
    define hs where "hs = takeWhile (\<lambda>g. fst g \<noteq> t) gs"
    obtain ks where gs: "gs = hs @ (t, ids) # ks" using map_of_split [OF ids(1)] by (auto simp: hs_def)
    define off where "off = length (postings_bytes 1 hs)"
    define rest where "rest = postings_bytes 1 ks @ mid @ concat (index1 0 gs) @ post"
    have data: "ixData ix = (pre @ postings_bytes 1 hs @ tri_bytes t) @
        delta_enc 1 (deltas (-1) ids @ [0]) @ rest"
      unfolding h(5) rest_def by (subst gs) (simp add: postings_bytes_def posting_bytes_def)
    have "findList t ix = Inr (int (length ids), int off)"
      using fl ids(1) by (simp add: off_def hs_def)
    moreover have "ixSlice (ixData ix) (wrap64 (ixPostData ix + int off + 3)) (-1) =
        Inr (delta_enc 1 (deltas (-1) ids @ [0]) @ rest)"
    proof -
      have len: "length (pre @ postings_bytes 1 hs @ tri_bytes t) = length pre + off + 3"
        by (simp add: off_def)
      have le: "length pre + off + 3 \<le> length (ixData ix)" unfolding data by (simp add: len [simplified])
      then have "wrap64 (ixPostData ix + int off + 3) = int (length pre + off + 3)"
        using h(6,7) by simp
      moreover have "drop (length pre + off + 3) (ixData ix) = delta_enc 1 (deltas (-1) ids @ [0]) @ rest"
        unfolding data len [symmetric] by simp
      ultimately show ?thesis using le by (simp add: ixSlice_def del: of_nat_add)
    qed
    ultimately have init: "postReaderInit ix t restr =
      Inr \<lparr>poSet = True, poCount = int (length ids), poOffset = int off, poFileid = -1,
           poRestrict = restr, poDelta = drInit 1 (delta_enc 1 (deltas (-1) ids @ [0]) @ rest)\<rparr>"
      using ids(2) h(3) by (simp add: postReaderInit_def)
    have iok: "ids_ok ids" using ids(1) h(2) by (auto simp: lists_ok_def dest!: map_of_SomeD)
    then have io: "sorted_wrt (<) ids" "\<forall>i \<in> set ids. -1 < int i \<and> i < 2 ^ 40" by (auto simp: ids_ok_def)
    have "\<forall>d \<in> set (deltas (-1) ids @ [0]). d < 2 ^ 62"
      using deltas_bound [OF io] by auto
    then have "pending 1 (drInit 1 (delta_enc 1 (deltas (-1) ids @ [0]) @ rest)) (deltas (-1) ids @ [0]) rest"
      by (intro pending_init_ok) simp_all
    then have "postAll \<lparr>poSet = True, poCount = int (length ids), poOffset = int off, poFileid = -1,
           poRestrict = restr, poDelta = drInit 1 (delta_enc 1 (deltas (-1) ids @ [0]) @ rest)\<rparr> =
        Inr (map int (filter (member restr) ids))"
      using postAll_ok [of 1 "\<lparr>poSet = True, poCount = int (length ids), poOffset = int off, poFileid = -1,
           poRestrict = restr, poDelta = drInit 1 (delta_enc 1 (deltas (-1) ids @ [0]) @ rest)\<rparr>" ids rest]
        iok io(2) assms(2) by auto
    with init h(1) ids(3) show ?thesis by simp
  qed
qed

interpretation ix1: posting_index rep_v1
proof
  show "ixNumName ix = int n" if "rep_v1 ix posts n" for ix posts n
    using that by (auto simp: rep_v1_def)
  show "sorted_wrt (<) (posts t) \<and> (\<forall>i \<in> set (posts t). i < n)" if rep: "rep_v1 ix posts n" for ix posts n t
  proof -
    obtain gs where "posts = list_of gs" "lists_ok gs" "\<forall>g \<in> set gs. \<forall>i \<in> set (snd g). i < n"
      using rep unfolding rep_v1_def by blast
    with list_of_props [of gs n t] show ?thesis by (simp add: ids_ok_def)
  qed
qed (rule postingList_v1)

text \<open>
  C12. On a version 1 index, the evaluation of a trigram query ends without a fault and returns,
  in ascending order, exactly the numbers of the files that satisfy the query.
\<close>

theorem posting_query_answers:
  assumes "rep_v1 ix posts n" "qlookup_ok q"
  shows "\<exists>l. postingQuery ix q None = Inr l \<and> sorted_wrt (<) (olist l) \<and>
    set (olist l) = {x. 0 \<le> x \<and> x < int n \<and> answers posts q x}"
  using ix1.query_ok(1) [OF assms(1) _ assms(2), of None] by (auto simp: restr_ok_def universe_def)

text \<open>An index of three files, of which the first and the last contain \<open>abc\<close>.\<close>

definition sample_lists :: "posting list" where
  "sample_lists = [(tri3 (bytes_of ''abc''), [0, 2])]"

definition sample_index :: index where
  "sample_index = \<lparr>ixData = postings_bytes 1 sample_lists @ concat (index1 0 sample_lists),
     ixVersion = 1, ixPathData = 0, ixNumPath = -1, ixNameData = 0, ixPostData = 0, ixNameIndex = 0,
     ixNumName = 3, ixPostIndex = int (length (postings_bytes 1 sample_lists)), ixNumPost = 1,
     ixNumPostBlock = 0\<rparr>"

lemma sample_rep: "rep_v1 sample_index (list_of sample_lists) 3"
proof -
  have "lists_ok sample_lists"
    by (simp add: sample_lists_def lists_ok_def ids_ok_def tri3_def bytes_of_def read_tri_def)
  moreover have "length (ixData sample_index) < 2 ^ 32"
    by (simp add: sample_index_def length_concat_index1)
      (simp add: sample_lists_def postings_bytes_def posting_bytes_def delta_enc_def uvarint_enc.simps)
  ultimately show ?thesis
    unfolding rep_v1_def
    by (intro exI [of _ sample_lists] exI [of _ "[]"]) (simp add: sample_index_def, simp add: sample_lists_def)
qed

theorem posting_query_answers_witness:
  "\<exists>l. postingQuery sample_index (Query QAnd [bytes_of ''abc''] []) None = Inr l \<and>
     sorted_wrt (<) (olist l) \<and> set (olist l) = {0, 2}"
proof -
  have "{x. 0 \<le> x \<and> x < int 3 \<and>
      answers (list_of sample_lists) (Query QAnd [bytes_of ''abc''] []) x} = {0, 2}"
    by (auto simp: answers_def list_of_def sample_lists_def)
  with posting_query_answers [OF sample_rep, of "Query QAnd [bytes_of ''abc''] []"] show ?thesis
    by (simp add: bytes_of_def)
qed

end
