(* ===== verification/Index_Writer.thy ===== *)
theory Index_Writer
  imports Sparse_Set Path Post_Merge Index_Lookup
begin

text \<open>
  The index writer, \<open>internal/codesearch/index/write.go\<close>: scanning a file into its set of
  trigrams, naming and numbering it, the in-memory list of post entries with its flushes, and
  the final assembly of the index file.

  \<open>iwNames\<close> holds the buffers of the names and of their index, which the code also reaches
  through the writer (\<open>nameData\<close>, \<open>nameIndex\<close>).  The capacity of the entry list, a constant
  of the code, is a field, and so is the scratch array of the sort, a global variable.  An
  \<open>io.Reader\<close> is what its \<open>Read\<close> calls return: chunks of bytes (an empty one is a read of
  length 0 without an error), then the end of the file or an error.  The files of a zip archive, which the
  standard library reads, are an argument; the program never switches their indexing on.
  \<open>log.Printf\<close> is not modelled.
\<close>

unbundle bit_operations_syntax

section \<open>State\<close>

record indexWriter =
  iwZip :: bool
  iwTrigram :: sset
  iwRoots :: "gostr list"
  iwNames :: pathWriter
  iwNumName :: nat
  iwNameLast :: gostr
  iwTotalBytes :: int
  iwPost :: "u64 list"
  iwPostCap :: nat
  iwPostFile :: buffer
  iwPostEnds :: "nat list"
  iwPostIndex :: buffer
  iwNumTrigram :: nat
  iwMain :: buffer
  iwSortTmp :: "u64 list"

definition npost :: nat where
  "npost = 8388608"

definition Create :: "nat \<Rightarrow> (nat \<Rightarrow> nat) \<Rightarrow> u64 list \<Rightarrow> indexWriter res" where
  "Create wv g sortTmp =
     rbind (NewPathWriter (bufCreate g) (Some (bufCreate g)) wv 16) (\<lambda>names.
       Inr \<lparr>iwZip = False, iwTrigram = NewSet (2 ^ 24), iwRoots = [], iwNames = names, iwNumName = 0,
            iwNameLast = [], iwTotalBytes = 0, iwPost = [], iwPostCap = npost,
            iwPostFile = bufCreate g, iwPostEnds = [], iwPostIndex = bufCreate g, iwNumTrigram = 0,
            iwMain = bufCreate g, iwSortTmp = sortTmp\<rparr>)"

definition AddRoots :: "gostr list \<Rightarrow> indexWriter \<Rightarrow> indexWriter" where
  "AddRoots roots ix = ix\<lparr>iwRoots := iwRoots ix @ roots\<rparr>"

definition isValidName :: "gostr \<Rightarrow> bool" where
  "isValidName name \<longleftrightarrow> name \<noteq> [] \<and> list_all (\<lambda>c. \<not> c < 32) name"

definition validUTF8 :: "u32 \<Rightarrow> u32 \<Rightarrow> bool" where
  "validUTF8 c1 c2 =
     (if c1 < 0x80 then c2 < 0x80 \<or> 0xc0 \<le> c2 \<and> c2 < 0xf8
      else if c1 < 0xc0 then c2 < 0xf8
      else if c1 < 0xf8 then 0x80 \<le> c2 \<and> c2 < 0xc0
      else False)"

section \<open>Scanning a file\<close>

definition maxFileLen :: nat where "maxFileLen = 2 ^ 30"
definition maxLineLen :: nat where "maxLineLen = 2000"
definition maxTextTrigrams :: nat where "maxTextTrigrams = 20000"

record scan =
  scSet :: sset
  scTv :: u32
  scN :: nat
  scLine :: nat

text \<open>One byte: whether the scan goes on, and the state.\<close>

definition scanByte :: "byte \<Rightarrow> scan \<Rightarrow> (bool \<times> scan) res" where
  "scanByte c s0 =
     (let tv = (push_bit 8 (scTv s0) AND mask 24) OR ucast c; n = scN s0 + 1
      in rbind (if n \<ge> 3 then Add tv (scSet s0) else Inr (scSet s0)) (\<lambda>st.
        let s = s0\<lparr>scSet := st, scTv := tv, scN := n\<rparr> in
        if c = 0 then Inr (False, s)
        else if \<not> validUTF8 (drop_bit 8 tv AND 0xFF) (tv AND 0xFF) then Inr (False, s)
        else if n > maxFileLen then Inr (False, s)
        else let linelen = scLine s + 1 in
          if linelen > maxLineLen then Inr (False, s\<lparr>scLine := linelen\<rparr>)
          else Inr (True, s\<lparr>scLine := (if c = 10 then 0 else linelen)\<rparr>)))"

fun scanBytes :: "byte list \<Rightarrow> scan \<Rightarrow> (bool \<times> scan) res" where
  "scanBytes [] s = Inr (True, s)"
| "scanBytes (c # cs) s = rbind (scanByte c s) (\<lambda>(ok, s'). if ok then scanBytes cs s' else Inr (False, s'))"

datatype addErr = Malformed gostr | ReadFailed | ZipFailed | OpenFailed

datatype outcome = Scanned | Ignored | Failed addErr

type_synonym reader = "byte list list \<times> bool"

text \<open>The read loop, over the chunks the reader returns and what comes after them.\<close>

fun scanReads :: "byte list list \<Rightarrow> bool \<Rightarrow> scan \<Rightarrow> (outcome \<times> scan) res" where
  "scanReads [] eof s = Inr (if eof then Scanned else Failed ReadFailed, s)"
| "scanReads (c # cs) eof s =
     (if c = [] then Inr (Failed ReadFailed, s)
      else rbind (scanBytes c s) (\<lambda>(ok, s'). if ok then scanReads cs eof s' else Inr (Ignored, s')))"

section \<open>Names and entries\<close>

definition addName :: "nat \<Rightarrow> gostr \<Rightarrow> indexWriter \<Rightarrow> (nat \<times> indexWriter) res" where
  "addName wv name ix =
     (if wv = 2 \<and> name = [] then Inl Fatal
      else if wv = 2 \<and> Compare name (iwNameLast ix) \<le> 0 then Inl Fatal
      else rbind (pathWrite wv name (iwNames ix)) (\<lambda>names.
             Inr (iwNumName ix, ix\<lparr>iwNumName := iwNumName ix + 1, iwNames := names\<rparr>)))"

definition flushPost :: "nat \<Rightarrow> indexWriter \<Rightarrow> indexWriter res" where
  "flushPost wv ix =
     rbind (flushChunk wv (iwSortTmp ix) (iwPost ix) (iwPostFile ix)) (\<lambda>(tmp, f, end).
       Inr (ix\<lparr>iwSortTmp := tmp, iwPost := [], iwPostFile := f,
               iwPostEnds := iwPostEnds ix @ [end]\<rparr>))"

definition addEntry :: "nat \<Rightarrow> nat \<Rightarrow> u32 \<Rightarrow> indexWriter \<Rightarrow> indexWriter res" where
  "addEntry wv fid t ix =
     rbind (if length (iwPost ix) \<ge> iwPostCap ix then flushPost wv ix else Inr ix) (\<lambda>ix1.
     rbind (makePostEntry t (int fid)) (\<lambda>e. Inr (ix1\<lparr>iwPost := iwPost ix1 @ [e]\<rparr>)))"

text \<open>\<open>add\<close>; the result is the error it returns, if any.\<close>

definition addReader :: "nat \<Rightarrow> gostr \<Rightarrow> reader \<Rightarrow> indexWriter \<Rightarrow> (addErr option \<times> indexWriter) res" where
  "addReader wv name f ix =
     rbind (scanReads (fst f) (snd f) \<lparr>scSet = Reset (iwTrigram ix), scTv = 0, scN = 0, scLine = 0\<rparr>)
       (\<lambda>(r, s). let ix0 = ix\<lparr>iwTrigram := scSet s\<rparr> in case r of
          Failed e \<Rightarrow> Inr (Some e, ix0)
        | Ignored \<Rightarrow> Inr (None, ix0)
        | Scanned \<Rightarrow>
            if Len (scSet s) > maxTextTrigrams then Inr (None, ix0)
            else rbind (addName wv (MakePath name) (ix0\<lparr>iwTotalBytes := iwTotalBytes ix0 + int (scN s)\<rparr>))
                   (\<lambda>(fid, ix1). rbind (rfold (addEntry wv fid) (Dense (scSet s)) ix1) (\<lambda>ix2. Inr (None, ix2))))"

text \<open>Name components, and the order of the files of a zip archive: slashes first.\<close>

fun split_sep :: "gostr \<Rightarrow> gostr \<Rightarrow> gostr list" where
  "split_sep acc [] = [acc]"
| "split_sep acc (c # cs) = (if c = 47 then acc # split_sep [] cs else split_sep (acc @ [c]) cs)"

definition zip_key :: "gostr \<Rightarrow> int list" where
  "zip_key s = map (\<lambda>c. if c = 47 then -1 else uint c) s"

fun addZipFiles :: "nat \<Rightarrow> gostr \<Rightarrow> (gostr \<times> reader option) list \<Rightarrow> indexWriter \<Rightarrow> indexWriter res" where
  "addZipFiles wv name [] ix = Inr ix"
| "addZipFiles wv name ((fname, r) # fs) ix = (case r of
      None \<Rightarrow> addZipFiles wv name fs ix
    | Some f \<Rightarrow> rbind (addReader wv (name @ [1] @ fname) f ix) (\<lambda>(_, ix1). addZipFiles wv name fs ix1))"

datatype zip_view = NotRegular | BadZip | ZipFiles "(gostr \<times> reader option) list"

definition AddReaderNamed :: "nat \<Rightarrow> gostr \<Rightarrow> reader \<Rightarrow> zip_view \<Rightarrow> indexWriter
    \<Rightarrow> (addErr option \<times> indexWriter) res" where
  "AddReaderNamed wv name f zv ix =
     (if \<not> isValidName name
      then Inr (Some (Malformed (case filter (\<lambda>p. \<not> isValidName p) (split_sep [] name) of
                                   p # _ \<Rightarrow> p | [] \<Rightarrow> name)), ix)
      else if length name \<ge> 4 \<and> drop (length name - 4) name = bytes_of ''.zip'' \<and> iwZip ix
      then (case zv of
              NotRegular \<Rightarrow> addReader wv name f ix
            | BadZip \<Rightarrow> Inr (Some ZipFailed, ix)
            | ZipFiles files \<Rightarrow>
                rbind (addZipFiles wv name (sort_key (zip_key \<circ> fst) files) ix) (\<lambda>ix1. Inr (None, ix1)))
      else addReader wv name f ix)"

text \<open>The file system is an argument: what opening a path gives.\<close>

definition AddFile :: "nat \<Rightarrow> (gostr \<Rightarrow> (reader \<times> zip_view) option) \<Rightarrow> gostr \<Rightarrow> indexWriter
    \<Rightarrow> (addErr option \<times> indexWriter) res" where
  "AddFile wv fs name ix = (case fs name of
      None \<Rightarrow> Inr (Some OpenFailed, ix)
    | Some (f, zv) \<Rightarrow> AddReaderNamed wv name f zv ix)"

section \<open>The index file\<close>

definition copyFile :: "buffer \<Rightarrow> buffer \<Rightarrow> buffer" where
  "copyFile dst src = fileWrite (bufFinish src) (bufFlush dst)"

definition writeTrailer :: "nat \<Rightarrow> nat list \<Rightarrow> buffer \<Rightarrow> buffer res" where
  "writeTrailer wv off b =
     (if wv = 1
      then rbind (rfold (\<lambda>v. bufWriteUint wv (int v)) [off ! 0, off ! 2, off ! 4, off ! 6, off ! 7] b)
             (\<lambda>b. Inr (bufWriteString trailerMagicV1 b))
      else rbind (rfold (\<lambda>v. bufWriteUint wv (int v)) off b)
             (\<lambda>b. Inr (bufWriteString trailerMagicV2 b)))"

text \<open>\<open>None\<close> if the merge does not end; the value is the file written.\<close>

definition Flush :: "nat \<Rightarrow> indexWriter \<Rightarrow> indexWriter res option" where
  "Flush wv ix0 =
     (case rbind (if wv = 1 then rbind (addName wv [] ix0) (\<lambda>(_, ix). Inr ix) else Inr ix0) (\<lambda>ix.
             let main1 = bufWriteString (if wv = 1 then magicV1 else magicV2) (iwMain ix) in
             rbind (NewPathWriter main1 None wv 0) (\<lambda>roots0.
             rbind (pathCollect wv (iwRoots ix) roots0) (\<lambda>roots1.
             rbind (if wv = 1 then pathWrite wv [] roots1 else Inr roots1) (\<lambda>roots.
               let main2 = bufAlign wv 16 (pdata roots);
                   main3 = bufAlign wv 16 (copyFile main2 (pdata (iwNames ix)))
               in Inr (ix, bufOffset main1, pathCount roots, bufOffset main2, main3))))) of
        Inl x \<Rightarrow> Some (Inl x)
      | Inr (ix, off0, off1, off2, main3) \<Rightarrow>
          (case mergePost wv (iwSortTmp ix) (iwPost ix) (iwPostFile ix) (iwPostEnds ix) (iwPostIndex ix) main3 of
             None \<Rightarrow> None
           | Some m \<Rightarrow> Some (rbind m (\<lambda>(tmp, w).
               let main4 = bufAlign wv 16 (pwOut w);
                   nameIndex = (case pindex (iwNames ix) of None \<Rightarrow> bufCreate id | Some b \<Rightarrow> b);
                   main5 = bufAlign wv 16 (copyFile main4 nameIndex);
                   postIndex = (case pwIndex w of None \<Rightarrow> bufCreate id | Some b \<Rightarrow> b);
                   main6 = copyFile main5 postIndex;
                   off = [off0, off1, off2, iwNumName ix, bufOffset main3, pwNumTrigram w,
                          bufOffset main4, bufOffset main5]
               in rbind (writeTrailer wv off main6) (\<lambda>main7.
                    Inr (ix\<lparr>iwSortTmp := tmp, iwMain := bufFlush main7, iwNumTrigram := pwNumTrigram w\<rparr>))))))"

definition written_file :: "indexWriter \<Rightarrow> byte list" where
  "written_file ix = (case bfile (iwMain ix) of None \<Rightarrow> [] | Some f \<Rightarrow> f)"

end
