(* ===== verification/Index_Build.thy ===== *)
theory Index_Build
  imports Index_Writer
begin

text \<open>
  What the index writer of \<open>internal/codesearch/index/write.go\<close> builds.

  First the scan: a file is indexed iff it is text (no NUL byte, only byte pairs that occur in
  UTF-8, no long lines, not too long), and then the sparse set holds exactly its trigrams.
  Then the writer: an invariant says which entries are in memory and in the temporary file
  after any sequence of additions, flushes included.
\<close>

unbundle bit_operations_syntax

section \<open>Text files\<close>

fun pairs_ok :: "byte \<Rightarrow> byte list \<Rightarrow> bool" where
  "pairs_ok prev [] = True"
| "pairs_ok prev (c # cs) = (validUTF8 (ucast prev) (ucast c) \<and> pairs_ok c cs)"

fun lines_ok :: "nat \<Rightarrow> byte list \<Rightarrow> bool" where
  "lines_ok k [] = True"
| "lines_ok k (c # cs) = (k + 1 \<le> maxLineLen \<and> lines_ok (if c = 10 then 0 else k + 1) cs)"

definition text_bytes :: "byte list \<Rightarrow> bool" where
  "text_bytes cs \<longleftrightarrow> 0 \<notin> set cs \<and> pairs_ok 0 cs \<and> length cs \<le> maxFileLen \<and> lines_ok 0 cs"

text \<open>The trigrams of a content, as the numbers of the index.\<close>

definition content_tris :: "byte list \<Rightarrow> u32 set" where
  "content_tris cs = tri3 ` set (trigrams_of cs)"

lemma trigrams_of_snoc:
  "trigrams_of (cs @ [c]) = trigrams_of cs @ (if length cs \<ge> 2 then [drop (length cs - 2) cs @ [c]] else [])"
proof (induction cs rule: trigrams_of.induct)
  case (1 a b d s)
  then show ?case by (cases s) (auto simp: Suc_diff_le)
qed simp_all

text \<open>The value of the code's \<open>tv\<close> after some bytes.\<close>

definition tv_step :: "byte \<Rightarrow> u32 \<Rightarrow> u32" where
  "tv_step c tv = (push_bit 8 tv AND mask 24) OR ucast c"

lemma tv_three: "tv_step c (tv_step b (tv_step a tv)) = read_tri a b c"
proof (rule bit_word_eqI)
  fix n assume "n < LENGTH(32)"
  then show "bit (tv_step c (tv_step b (tv_step a tv))) n = bit (read_tri a b c) n"
    by (cases "n < 8"; cases "n < 16"; cases "n < 24")
      (auto simp: tv_step_def read_tri_def bit_simps dest: bit_imp_le_length)
qed

lemma tv_low: "tv_step c tv AND 0xFF = ucast c"
proof -
  have "tv_step c tv AND mask 8 = ucast c"
  proof (rule bit_word_eqI)
    fix n assume "n < LENGTH(32)"
    then show "bit (tv_step c tv AND mask 8) n = bit (ucast c :: u32) n"
      by (auto simp: tv_step_def bit_simps dest: bit_imp_le_length)
  qed
  moreover have "(0xFF :: u32) = mask 8" by (simp add: mask_eq_exp_minus_1)
  ultimately show ?thesis by simp
qed

lemma tv_high: "drop_bit 8 (tv_step c tv) AND 0xFF = tv AND 0xFF"
proof -
  have "drop_bit 8 (tv_step c tv) AND mask 8 = tv AND mask 8"
  proof (rule bit_word_eqI)
    fix n assume "n < LENGTH(32)"
    then show "bit (drop_bit 8 (tv_step c tv) AND mask 8) n = bit (tv AND mask 8) n"
      by (auto simp: tv_step_def bit_simps dest: bit_imp_le_length)
  qed
  moreover have "(0xFF :: u32) = mask 8" by (simp add: mask_eq_exp_minus_1)
  ultimately show ?thesis by simp
qed

lemma tv_bound: "unat (tv_step c tv) < 2 ^ 24"
proof -
  have "take_bit 24 (tv_step c tv) = tv_step c tv"
    by (rule bit_word_eqI) (auto simp: tv_step_def bit_simps dest: bit_imp_le_length)
  then have "unat (tv_step c tv) = take_bit 24 (unat (tv_step c tv))"
    by (metis unsigned_take_bit_eq)
  then show ?thesis by (metis take_bit_nat_less_exp)
qed

section \<open>The scan\<close>

text \<open>The state after the bytes \<open>p\<close> of a file.\<close>

definition scan_inv :: "byte list \<Rightarrow> scan \<Rightarrow> bool" where
  "scan_inv p s \<longleftrightarrow> scN s = length p \<and> scTv s = fold tv_step p 0 \<and> sset_inv (scSet s) \<and>
     smax (scSet s) = 2 ^ 24 \<and> set (dense (scSet s)) = content_tris p"

lemma tv_last: "fold tv_step (p @ [c]) 0 AND 0xFF = ucast c"
  by (simp add: tv_low)

lemma list_two: "length xs = 2 \<Longrightarrow> \<exists>a b. xs = [a, b]"
  by (cases xs; cases "tl xs") auto

lemma tv_content:
  assumes "2 \<le> length p"
  shows "fold tv_step (p @ [c]) 0 = tri3 (drop (length p - 2) p @ [c])"
proof -
  obtain q a b where p: "p = q @ [a, b]"
  proof -
    have "length (drop (length p - 2) p) = 2" using assms by simp
    then obtain a b where "drop (length p - 2) p = [a, b]"
      using list_two by blast
    then have "p = take (length p - 2) p @ [a, b]" by (metis append_take_drop_id)
    then show ?thesis by (rule that)
  qed
  then show ?thesis by (simp add: tv_three tri3_def)
qed

lemma scanByte_ok:
  assumes "scan_inv p s"
  shows "\<exists>s'. scanByte c s = Inr (c \<noteq> 0 \<and> validUTF8 (scTv s AND 0xFF) (ucast c) \<and>
      length p + 1 \<le> maxFileLen \<and> scLine s + 1 \<le> maxLineLen, s') \<and> scan_inv (p @ [c]) s' \<and>
    (c \<noteq> 0 \<and> validUTF8 (scTv s AND 0xFF) (ucast c) \<and> length p + 1 \<le> maxFileLen \<and>
      scLine s + 1 \<le> maxLineLen \<longrightarrow> scLine s' = (if c = 10 then 0 else scLine s + 1))"
proof -
  define tv where "tv = tv_step c (scTv s)"
  have h: "scN s = length p" "sset_inv (scSet s)" "smax (scSet s) = 2 ^ 24"
    "set (dense (scSet s)) = content_tris p" "scTv s = fold tv_step p 0"
    using assms by (simp_all add: scan_inv_def)
  have tvp: "tv = fold tv_step (p @ [c]) 0" by (simp add: tv_def h(5))
  have "\<exists>st. (if scN s + 1 \<ge> 3 then Add tv (scSet s) else Inr (scSet s)) = Inr st \<and>
      sset_inv st \<and> smax st = 2 ^ 24 \<and> set (dense st) = content_tris (p @ [c])"
  proof (cases "2 \<le> length p")
    case True
    have "unat tv < smax (scSet s)" using h(3) tv_bound by (simp add: tv_def)
    from Add_ok [OF h(2) this] obtain st where st: "Add tv (scSet s) = Inr st" "sset_inv st"
        "smax st = 2 ^ 24" "set (dense st) = insert tv (set (dense (scSet s)))"
      using h(3) by (auto split: if_splits simp: insert_absorb)
    moreover have "insert tv (content_tris p) = content_tris (p @ [c])"
      using True tv_content [OF True, of c] by (simp add: content_tris_def trigrams_of_snoc tvp)
    ultimately show ?thesis using True h(1,4) by simp
  next
    case False
    then show ?thesis using h by (simp add: content_tris_def trigrams_of_snoc)
  qed
  then obtain st where st: "(if scN s + 1 \<ge> 3 then Add tv (scSet s) else Inr (scSet s)) = Inr st"
      "sset_inv st" "smax st = 2 ^ 24" "set (dense st) = content_tris (p @ [c])" by blast
  have inv: "scan_inv (p @ [c]) (s\<lparr>scSet := st, scTv := tv, scN := scN s + 1, scLine := k\<rparr>)" for k
    using st(2-4) h(1) by (simp add: scan_inv_def tvp)
  have inv': "scan_inv (p @ [c]) (s\<lparr>scSet := st, scTv := tv, scN := scN s + 1\<rparr>)"
    using st(2-4) h(1) by (simp add: scan_inv_def tvp)
  have u: "validUTF8 (drop_bit 8 tv AND 0xFF) (tv AND 0xFF) = validUTF8 (scTv s AND 0xFF) (ucast c)"
    by (simp only: tv_def tv_low tv_high)
  have e: "scanByte c s =
      (let s1 = s\<lparr>scSet := st, scTv := tv, scN := scN s + 1\<rparr> in
       if c = 0 then Inr (False, s1)
       else if \<not> validUTF8 (scTv s AND 0xFF) (ucast c) then Inr (False, s1)
       else if scN s + 1 > maxFileLen then Inr (False, s1)
       else if scLine s + 1 > maxLineLen then Inr (False, s1\<lparr>scLine := scLine s + 1\<rparr>)
       else Inr (True, s1\<lparr>scLine := (if c = 10 then 0 else scLine s + 1)\<rparr>))"
    unfolding scanByte_def tv_step_def [symmetric] tv_def [symmetric] Let_def st(1) rbind_simps u
    by simp
  show ?thesis
    using inv inv' by (auto simp: e h(1) Let_def)
qed


lemma scanBytes_append:
  "scanBytes (a @ b) s = rbind (scanBytes a s) (\<lambda>(ok, s'). if ok then scanBytes b s' else Inr (False, s'))"
proof (induction a arbitrary: s)
  case (Cons c a)
  then show ?case by (cases "scanByte c s") auto
qed simp

text \<open>How the reader cuts the file into chunks does not matter.\<close>

lemma scanReads_concat:
  "[] \<notin> set chunks \<Longrightarrow> scanReads chunks eof s = rbind (scanBytes (concat chunks) s) (\<lambda>(ok, s').
     Inr (if ok then (if eof then Scanned else Failed ReadFailed) else Ignored, s'))"
proof (induction chunks arbitrary: s)
  case (Cons c chunks)
  then show ?case by (cases "scanBytes c s") (auto simp: scanBytes_append)
qed simp

lemma ucast_ucast_byte: "(ucast (ucast (c :: byte) :: u32) :: byte) = c"
  "(ucast (ucast (x :: u32) :: byte) :: u32) = x AND 0xFF"
proof -
  show "(ucast (ucast c :: u32) :: byte) = c" by (rule bit_word_eqI) (auto simp: bit_simps)
  have "(ucast (ucast x :: byte) :: u32) = x AND mask 8"
    by (rule bit_word_eqI) (auto simp: bit_simps)
  then show "(ucast (ucast x :: byte) :: u32) = x AND 0xFF" by (simp add: mask_eq_exp_minus_1)
qed

lemma scanBytes_ok:
  assumes "scan_inv p s"
  shows "\<exists>s'. scanBytes cs s = Inr (0 \<notin> set cs \<and> pairs_ok (ucast (scTv s)) cs \<and>
      (cs = [] \<or> length p + length cs \<le> maxFileLen) \<and> lines_ok (scLine s) cs, s') \<and>
    (0 \<notin> set cs \<and> pairs_ok (ucast (scTv s)) cs \<and> (cs = [] \<or> length p + length cs \<le> maxFileLen) \<and>
      lines_ok (scLine s) cs \<longrightarrow> scan_inv (p @ cs) s') \<and>
    sset_inv (scSet s') \<and> smax (scSet s') = 2 ^ 24"
  using assms
proof (induction cs arbitrary: p s)
  case Nil
  then show ?case by (auto simp: scan_inv_def)
next
  case (Cons c cs)
  let ?ok = "c \<noteq> 0 \<and> validUTF8 (scTv s AND 0xFF) (ucast c) \<and> length p + 1 \<le> maxFileLen \<and>
      scLine s + 1 \<le> maxLineLen"
  from scanByte_ok [OF Cons.prems, of c] obtain s1 where s1: "scanByte c s = Inr (?ok, s1)"
      "scan_inv (p @ [c]) s1" "?ok \<longrightarrow> scLine s1 = (if c = 10 then 0 else scLine s + 1)" by blast
  have prev: "(ucast (scTv s1) :: byte) = c"
  proof -
    have "scTv s1 AND 0xFF = ucast c" using s1(2) tv_last [of p c] by (simp add: scan_inv_def)
    then show ?thesis by (metis ucast_ucast_byte)
  qed
  have inv1: "sset_inv (scSet s1)" "smax (scSet s1) = 2 ^ 24" using s1(2) by (simp_all add: scan_inv_def)
  show ?case
  proof (cases ?ok)
    case False
    have "scanByte c s = Inr (False, s1)"
      unfolding s1(1) using False by (simp only: sum.inject prod.inject simp_thms)
    then have "scanBytes (c # cs) s = Inr (False, s1)" by simp
    moreover have "\<not> (0 \<notin> set (c # cs) \<and> pairs_ok (ucast (scTv s)) (c # cs) \<and>
        length p + length (c # cs) \<le> maxFileLen \<and> lines_ok (scLine s) (c # cs))"
      using False by (auto simp: ucast_ucast_byte)
    ultimately show ?thesis using inv1 by auto
  next
    case True
    let ?P = "0 \<notin> set cs \<and> pairs_ok c cs \<and> (cs = [] \<or> length (p @ [c]) + length cs \<le> maxFileLen) \<and>
         lines_ok (scLine s1) cs"
    from Cons.IH [OF s1(2)] obtain s2 where s2: "scanBytes cs s1 = Inr (?P, s2)"
      "?P \<longrightarrow> scan_inv ((p @ [c]) @ cs) s2" "sset_inv (scSet s2)" "smax (scSet s2) = 2 ^ 24"
      unfolding prev by blast
    have e: "?P \<longleftrightarrow> 0 \<notin> set (c # cs) \<and> pairs_ok (ucast (scTv s)) (c # cs) \<and>
        (c # cs = [] \<or> length p + length (c # cs) \<le> maxFileLen) \<and> lines_ok (scLine s) (c # cs)"
      using True s1(3) by (auto simp: ucast_ucast_byte)
    have "scanByte c s = Inr (True, s1)"
      unfolding s1(1) using True by (simp only: sum.inject prod.inject simp_thms)
    then have "scanBytes (c # cs) s = scanBytes cs s1" by simp
    then show ?thesis using s2 unfolding e by (intro exI [of _ s2]) simp
  qed
qed

definition scan_start :: "sset \<Rightarrow> scan" where
  "scan_start st = \<lparr>scSet = Reset st, scTv = 0, scN = 0, scLine = 0\<rparr>"

lemma scan_ok:
  assumes "sset_inv st" "smax st = 2 ^ 24" "[] \<notin> set chunks"
  shows "\<exists>s. scanReads chunks eof (scan_start st) = Inr (
      if text_bytes (concat chunks) then (if eof then Scanned else Failed ReadFailed) else Ignored, s) \<and>
    (text_bytes (concat chunks) \<longrightarrow> scan_inv (concat chunks) s) \<and>
    sset_inv (scSet s) \<and> smax (scSet s) = 2 ^ 24"
proof -
  have "smax st < 2 ^ 32" using assms(2) by simp
  from Reset_inv [OF this] have "scan_inv [] (scan_start st)"
    using assms(2) by (simp add: scan_inv_def scan_start_def content_tris_def Reset_def)
  note ok = scanBytes_ok [OF this, of "concat chunks"]
  have e: "(0 \<notin> set (concat chunks) \<and> pairs_ok (ucast (scTv (scan_start st))) (concat chunks) \<and>
      (concat chunks = [] \<or> length ([] :: byte list) + length (concat chunks) \<le> maxFileLen) \<and>
      lines_ok (scLine (scan_start st)) (concat chunks)) = text_bytes (concat chunks)"
    by (cases "concat chunks = []") (simp_all only: text_bytes_def scan_start_def scan.simps
      list.size add_0 le0 simp_thms ucast_0 unsigned_0)
  from ok [unfolded e append_Nil] obtain s where
    "scanBytes (concat chunks) (scan_start st) = Inr (text_bytes (concat chunks), s)"
    "text_bytes (concat chunks) \<longrightarrow> scan_inv (concat chunks) s"
    "sset_inv (scSet s)" "smax (scSet s) = 2 ^ 24"
    by blast
  then show ?thesis by (auto simp: scanReads_concat [OF assms(3)])
qed

text \<open>
  C38. A file is scanned to its end iff it is text, however the reader cuts it into chunks, and
  the set then lists each of its trigrams exactly once; otherwise it is ignored, and no
  input makes the scan fault.
\<close>

theorem scan_accepts_text:
  assumes "sset_inv st" "smax st = 2 ^ 24" "[] \<notin> set chunks"
  shows "\<exists>s. scanReads chunks True \<lparr>scSet = Reset st, scTv = 0, scN = 0, scLine = 0\<rparr> =
      Inr (if text_bytes (concat chunks) then Scanned else Ignored, s) \<and>
    (text_bytes (concat chunks) \<longrightarrow> distinct (Dense (scSet s)) \<and>
       set (Dense (scSet s)) = content_tris (concat chunks) \<and> scN s = length (concat chunks))"
  using scan_ok [OF assms, of True]
  by (auto simp: scan_start_def scan_inv_def Dense_def sset_inv_def)

theorem scan_accepts_text_witness:
  "\<exists>s. scanReads [bytes_of ''ab'', bytes_of ''cab'']  True
      \<lparr>scSet = Reset (NewSet (2 ^ 24)), scTv = 0, scN = 0, scLine = 0\<rparr> = Inr (Scanned, s) \<and>
    distinct (Dense (scSet s)) \<and> set (Dense (scSet s)) = content_tris (bytes_of ''abcab'')"
proof -
  have "text_bytes (concat [bytes_of ''ab'', bytes_of ''cab''])"
    by (simp add: text_bytes_def bytes_of_def validUTF8_def maxFileLen_def maxLineLen_def)
  moreover have "concat [bytes_of ''ab'', bytes_of ''cab''] = bytes_of ''abcab''"
    by (simp add: bytes_of_def)
  moreover have "sset_inv (NewSet (2 ^ 24))" "smax (NewSet (2 ^ 24)) = 2 ^ 24"
    by (simp_all add: sset_inv_def NewSet_def)
  moreover have "[] \<notin> set [bytes_of ''ab'', bytes_of ''cab'']" by (simp add: bytes_of_def)
  ultimately show ?thesis
    using scan_accepts_text [of "NewSet (2 ^ 24)" "[bytes_of ''ab'', bytes_of ''cab'']"]
    by (auto simp del: scanReads.simps concat.simps)
qed

end
