(* ===== verification/Index_Add.thy ===== *)
theory Index_Add
  imports Index_Build
begin

text \<open>
  The state of the index writer after a sequence of additions
  (\<open>internal/codesearch/index/write.go\<close>).

  \<open>iw_inv\<close> relates the state to the list of the files accepted so far, with their contents:
  the entries in memory and in the chunks of the temporary file are, without repetition, one
  per file and trigram of the file, and the name list holds their names in order.  It holds of
  a new writer and every \<open>AddReaderNamed\<close> keeps it, whatever number of flushes happens in
  between.
\<close>

unbundle bit_operations_syntax

section \<open>Trigrams of text\<close>

lemma validUTF8_bounds: "validUTF8 x c \<Longrightarrow> c < 0xf8"
  by (auto simp: validUTF8_def word_less_nat_alt split: if_splits)

lemma pairs_ok_bytes: "pairs_ok p cs \<Longrightarrow> c \<in> set cs \<Longrightarrow> c \<noteq> 0xFF"
proof (induction p cs rule: pairs_ok.induct)
  case (2 p x cs)
  then show ?case using validUTF8_bounds [of "ucast p" "ucast x"] by auto
qed simp

lemma trigrams_of_bytes: "tg \<in> set (trigrams_of cs) \<Longrightarrow> \<exists>a b c. tg = [a, b, c] \<and> {a, b, c} \<subseteq> set cs"
  by (induction cs rule: trigrams_of.induct) auto

lemma read_tri_bounds:
  assumes "c \<noteq> 0" "c \<noteq> 0xFF"
  shows "0 < read_tri a b c" "read_tri a b c < invalidTrigram"
proof -
  have u: "(ucast (read_tri a b c) :: byte) = c"
    by (rule bit_word_eqI) (auto simp: read_tri_def bit_simps)
  then show "0 < read_tri a b c" using assms(1) by (metis unsigned_0 word_neq_0_conv)
  have "(ucast invalidTrigram :: byte) = 0xFF" by (simp add: invalidTrigram_def)
  then have ne: "read_tri a b c \<noteq> invalidTrigram" using u assms(2) by auto
  have "read_tri a b c = tv_step c (tv_step b (tv_step a 0))" by (simp add: tv_three)
  then have "unat (read_tri a b c) < 2 ^ 24" using tv_bound by simp
  then have "read_tri a b c \<le> invalidTrigram"
    by (simp add: invalidTrigram_def word_le_nat_alt)
  with ne show "read_tri a b c < invalidTrigram" by simp
qed

lemma content_tris_bounds:
  assumes "text_bytes cs" "t \<in> content_tris cs"
  shows "0 < t" "t < invalidTrigram"
proof -
  obtain tg where tg: "tg \<in> set (trigrams_of cs)" "t = tri3 tg" using assms(2) by (auto simp: content_tris_def)
  then obtain a b c where abc: "tg = [a, b, c]" "c \<in> set cs" using trigrams_of_bytes [of tg cs] by blast
  have "c \<noteq> 0" "c \<noteq> 0xFF" using assms(1) abc(2) pairs_ok_bytes [of 0 cs c] by (auto simp: text_bytes_def)
  from read_tri_bounds [OF this] show "0 < t" "t < invalidTrigram" by (simp_all add: tg(2) abc(1) tri3_def)
qed

section \<open>Entries\<close>

text \<open>The entries \<open>E\<close> are split between the chunks \<open>gss\<close> of the temporary file and the memory.\<close>

definition ent_inv :: "nat \<Rightarrow> indexWriter \<Rightarrow> posting list list \<Rightarrow> u64 set \<Rightarrow> nat \<Rightarrow> bool" where
  "ent_inv wv ix gss E n \<longleftrightarrow>
     buf_inv (iwPostFile ix) \<and> contents (iwPostFile ix) = file_chunks wv gss \<and>
     iwPostEnds ix = chunk_ends wv 0 gss \<and> (\<forall>gs \<in> set gss. postings_ok gs) \<and>
     post_ok (iwPost ix) \<and> (\<forall>e \<in> set (iwPost ix). entry_fileid e < n) \<and>
     distinct (concat (map entries gss) @ iwPost ix) \<and>
     set (concat (map entries gss) @ iwPost ix) = E"

lemma chunk_ends_snoc:
  "chunk_ends wv k (gss @ [gs]) = chunk_ends wv k gss @ [k + length (file_chunks wv gss) + length (postings_bytes wv gs)]"
  by (induction gss arbitrary: k) (simp_all add: file_chunks_def)

lemma file_chunks_snoc: "file_chunks wv (gss @ [gs]) = file_chunks wv gss @ postings_bytes wv gs"
  by (simp add: file_chunks_def)

definition iw_frame :: "indexWriter \<Rightarrow> indexWriter \<Rightarrow> bool" where
  "iw_frame ix ix' \<longleftrightarrow> iwZip ix' = iwZip ix \<and> iwTrigram ix' = iwTrigram ix \<and> iwRoots ix' = iwRoots ix \<and>
     iwNames ix' = iwNames ix \<and> iwNumName ix' = iwNumName ix \<and> iwNameLast ix' = iwNameLast ix \<and>
     iwTotalBytes ix' = iwTotalBytes ix \<and> iwPostIndex ix' = iwPostIndex ix \<and> iwMain ix' = iwMain ix"

lemma flushPost_ok:
  assumes "wv = 1 \<or> wv = 2" "ent_inv wv ix gss E n"
  shows "\<exists>ix' gs. flushPost wv ix = Inr ix' \<and> ent_inv wv ix' (gss @ [gs]) E n \<and> iw_frame ix ix' \<and>
    iwPost ix' = []"
proof -
  have h: "buf_inv (iwPostFile ix)" "post_ok (iwPost ix)" "contents (iwPostFile ix) = file_chunks wv gss"
    "iwPostEnds ix = chunk_ends wv 0 gss" "\<forall>gs \<in> set gss. postings_ok gs"
    "distinct (concat (map entries gss) @ iwPost ix)" "set (concat (map entries gss) @ iwPost ix) = E"
    using assms(2) by (simp_all add: ent_inv_def)
  note sp = post_ok_sortPost [OF h(2), of "iwSortTmp ix"]
  define gs where "gs = groups (sort (iwPost ix))"
  have gs: "postings_ok gs" "entries gs = sort (iwPost ix)"
    using sp(1,2) by (simp_all add: gs_def groups_ok entries_groups)
  obtain f' where f': "flushChunk wv (iwSortTmp ix) (iwPost ix) (iwPostFile ix) =
      Inr (fst (sortPost (iwSortTmp ix) (iwPost ix)), f', bufOffset f')" "buf_inv f'"
    "contents f' = contents (iwPostFile ix) @ postings_bytes wv gs"
    using flushChunk_ok [OF assms(1) h(1) sp(1)] unfolding sp(2) gs_def by blast
  let ?ix = "ix\<lparr>iwSortTmp := fst (sortPost (iwSortTmp ix) (iwPost ix)), iwPost := [], iwPostFile := f',
      iwPostEnds := iwPostEnds ix @ [bufOffset f']\<rparr>"
  have "flushPost wv ix = Inr ?ix" using f'(1) by (simp add: flushPost_def)
  moreover have "ent_inv wv ?ix (gss @ [gs]) E n"
    using h f' gs offset_contents [OF f'(2)]
    by (simp add: ent_inv_def chunk_ends_snoc file_chunks_snoc post_ok_def)
  ultimately show ?thesis by (auto simp: iw_frame_def)
qed

lemma addEntry_ok:
  assumes "wv = 1 \<or> wv = 2" "ent_inv wv ix gss E (Suc n)" "n < 2 ^ 40" "0 < t" "t < invalidTrigram"
    and "pack t n \<notin> E"
  shows "\<exists>ix' gss'. addEntry wv n t ix = Inr ix' \<and> ent_inv wv ix' gss' (insert (pack t n) E) (Suc n) \<and>
    iw_frame ix ix'"
proof -
  obtain ix1 gss1 where ix1: "(if length (iwPost ix) \<ge> iwPostCap ix then flushPost wv ix else Inr ix) = Inr ix1"
    "ent_inv wv ix1 gss1 E (Suc n)" "iw_frame ix ix1"
  proof (cases "length (iwPost ix) \<ge> iwPostCap ix")
    case True
    with flushPost_ok [OF assms(1,2)] that show ?thesis by auto
  next
    case False
    with assms(2) that [of ix gss] show ?thesis by (simp add: iw_frame_def)
  qed
  let ?ix = "ix1\<lparr>iwPost := iwPost ix1 @ [pack t n]\<rparr>"
  have f: "entry_trigram (pack t n) = t" "entry_fileid (pack t n) = n"
    using assms(3,5) by (intro pack_fields; simp add: invalidTrigram_def)+
  have "addEntry wv n t ix = Inr ?ix"
    using ix1(1) makePostEntry_ok [OF assms(3), of t] by (simp add: addEntry_def)
  moreover have "ent_inv wv ?ix gss1 (insert (pack t n) E) (Suc n)"
    using ix1(2) assms(4-6) f by (auto simp: ent_inv_def post_ok_def sorted_append less_Suc_eq_le)
  moreover have "iw_frame ix ?ix" using ix1(3) by (simp add: iw_frame_def)
  ultimately show ?thesis by blast
qed

lemma addEntries_ok:
  assumes "wv = 1 \<or> wv = 2" "n < 2 ^ 40"
  shows "ent_inv wv ix gss E (Suc n) \<Longrightarrow> \<forall>t \<in> set ts. 0 < t \<and> t < invalidTrigram \<Longrightarrow> distinct ts \<Longrightarrow>
      \<forall>t \<in> set ts. pack t n \<notin> E \<Longrightarrow>
    \<exists>ix' gss'. rfold (addEntry wv n) ts ix = Inr ix' \<and>
      ent_inv wv ix' gss' (E \<union> (\<lambda>t. pack t n) ` set ts) (Suc n) \<and> iw_frame ix ix'"
proof (induction ts arbitrary: ix gss E)
  case Nil
  then show ?case by (auto simp: iw_frame_def)
next
  case (Cons t ts)
  have t: "0 < t" "t < invalidTrigram" "pack t n \<notin> E" using Cons.prems by simp_all
  from addEntry_ok [OF assms(1) Cons.prems(1) assms(2) t] obtain ix1 gss1 where
    ix1: "addEntry wv n t ix = Inr ix1" "ent_inv wv ix1 gss1 (insert (pack t n) E) (Suc n)"
      "iw_frame ix ix1" by blast
  have "\<forall>u \<in> set ts. pack u n \<notin> insert (pack t n) E"
  proof
    fix u assume u: "u \<in> set ts"
    then have "u \<noteq> t" "u \<le> 0xFFFFFF" "t \<le> 0xFFFFFF" using Cons.prems(2,3) t(2)
      by (auto simp: invalidTrigram_def less_imp_le)
    then have "pack u n \<noteq> pack t n" using pack_fields(1) [OF _ assms(2)] by metis
    with u Cons.prems(4) show "pack u n \<notin> insert (pack t n) E" by simp
  qed
  with Cons.IH [OF ix1(2)] Cons.prems(2,3) obtain ix2 gss2 where
    "rfold (addEntry wv n) ts ix1 = Inr ix2"
    "ent_inv wv ix2 gss2 (insert (pack t n) E \<union> (\<lambda>t. pack t n) ` set ts) (Suc n)" "iw_frame ix1 ix2"
    by auto
  with ix1 show ?case by (auto simp: iw_frame_def)
qed

section \<open>Names\<close>

text \<open>The bytes of the name list and of its index, version 1.\<close>

definition name_bytes :: "gostr list \<Rightarrow> byte list" where
  "name_bytes ps = concat (map (\<lambda>p. p @ [0]) ps)"

fun name_offsets :: "nat \<Rightarrow> gostr list \<Rightarrow> byte list" where
  "name_offsets off [] = []"
| "name_offsets off (p # ps) = be32 (of_nat off) @ name_offsets (off + length p + 1) ps"

lemma name_bytes_snoc: "name_bytes (ps @ [p]) = name_bytes ps @ p @ [0]"
  by (simp add: name_bytes_def)

lemma name_offsets_snoc:
  "name_offsets off (ps @ [p]) = name_offsets off ps @ be32 (of_nat (off + length (name_bytes ps)))"
  by (induction ps arbitrary: off) (simp_all add: name_bytes_def algebra_simps)

lemma length_name_offsets [simp]: "length (name_offsets off ps) = 4 * length ps"
  by (induction ps arbitrary: off) (simp_all add: be32_def)

definition names_inv :: "indexWriter \<Rightarrow> gostr list \<Rightarrow> bool" where
  "names_inv ix ps \<longleftrightarrow> pw_inv (iwNames ix) \<and> pver (iwNames ix) = 1 \<and> pstart (iwNames ix) = 0 \<and>
     pindex (iwNames ix) \<noteq> None \<and> contents (pdata (iwNames ix)) = name_bytes ps \<and>
     idx_contents (iwNames ix) = name_offsets 0 ps \<and> iwNumName ix = length ps"

lemma addName_ok:
  assumes "names_inv ix ps" "length (name_bytes ps) < 2 ^ 32"
  shows "\<exists>w. addName 1 p ix = Inr (length ps, ix\<lparr>iwNumName := iwNumName ix + 1, iwNames := w\<rparr>) \<and>
    names_inv (ix\<lparr>iwNumName := iwNumName ix + 1, iwNames := w\<rparr>) (ps @ [p])"
proof -
  have h: "pw_inv (iwNames ix)" "pver (iwNames ix) = 1" "pstart (iwNames ix) = 0" "iwNumName ix = length ps"
    "contents (pdata (iwNames ix)) = name_bytes ps" "idx_contents (iwNames ix) = name_offsets 0 ps"
    "pindex (iwNames ix) \<noteq> None"
    using assms(1) by (simp_all add: names_inv_def)
  have off: "bufOffset (pdata (iwNames ix)) = length (name_bytes ps)"
    using h(1,5) by (simp add: pw_inv_def offset_contents)
  obtain w where w: "pathWrite 1 p (iwNames ix) = Inr w" "pw_inv w" "pver w = pver (iwNames ix)"
    "pstart w = pstart (iwNames ix)" "pindex w = None \<longleftrightarrow> pindex (iwNames ix) = None"
    "contents (pdata w) = contents (pdata (iwNames ix)) @ path_entry (pver (iwNames ix)) (pgroup (iwNames ix))
       (pn (iwNames ix)) (plast (iwNames ix)) p"
    "idx_contents w = idx_contents (iwNames ix) @
      (if pindex (iwNames ix) \<noteq> None \<and> (pver (iwNames ix) = 1 \<or> is_first (pgroup (iwNames ix)) (pn (iwNames ix)))
       then uint_bytes 1 (bufOffset (pdata (iwNames ix)) - pstart (iwNames ix)) else [])"
    using pathWrite_ok [OF h(1), of 1 p] h(2,3) off assms(2) by auto
  have "names_inv (ix\<lparr>iwNumName := iwNumName ix + 1, iwNames := w\<rparr>) (ps @ [p])"
    using w(2-) h off by (simp add: names_inv_def name_bytes_snoc name_offsets_snoc path_entry_def uint_bytes_def)
  then show ?thesis using w(1) h(4) by (auto simp: addName_def)
qed

section \<open>Additions\<close>

text \<open>An accepted file: its name and its content.\<close>

type_synonym source_file = "gostr \<times> byte list"

definition all_entries :: "source_file list \<Rightarrow> u64 set" where
  "all_entries fs = (\<Union>i < length fs. (\<lambda>t. pack t i) ` content_tris (snd (fs ! i)))"

definition iw_inv :: "indexWriter \<Rightarrow> source_file list \<Rightarrow> posting list list \<Rightarrow> bool" where
  "iw_inv ix fs gss \<longleftrightarrow> \<not> iwZip ix \<and> sset_inv (iwTrigram ix) \<and> smax (iwTrigram ix) = 2 ^ 24 \<and>
     names_inv ix (map fst fs) \<and> ent_inv 1 ix gss (all_entries fs) (length fs) \<and>
     (\<forall>f \<in> set fs. isValidName (fst f) \<and> text_bytes (snd f)) \<and>
     buf_inv (iwPostIndex ix) \<and> contents (iwPostIndex ix) = [] \<and>
     buf_inv (iwMain ix) \<and> contents (iwMain ix) = []"

definition accepts :: "gostr \<Rightarrow> reader \<Rightarrow> bool" where
  "accepts name f \<longleftrightarrow> isValidName name \<and> snd f \<and> text_bytes (concat (fst f)) \<and>
     card (content_tris (concat (fst f))) \<le> maxTextTrigrams"

definition accepted :: "gostr \<times> reader \<times> zip_view \<Rightarrow> source_file list" where
  "accepted = (\<lambda>(name, f, zv). if accepts name f then [(name, concat (fst f))] else [])"

lemma all_entries_snoc:
  "all_entries (fs @ [f]) = all_entries fs \<union> (\<lambda>t. pack t (length fs)) ` content_tris (snd f)"
proof -
  have "(\<Union>i < length fs. (\<lambda>t. pack t i) ` content_tris (snd ((fs @ [f]) ! i))) = all_entries fs"
    unfolding all_entries_def by (rule SUP_cong) (simp_all add: nth_append)
  then show ?thesis by (simp add: all_entries_def lessThan_Suc Un_commute)
qed

lemma all_entries_id:
  assumes "\<forall>f \<in> set fs. text_bytes (snd f)" "length fs \<le> 2 ^ 40" "e \<in> all_entries fs"
  shows "entry_fileid e < length fs"
proof -
  obtain i t where e: "i < length fs" "e = pack t i" "t \<in> content_tris (snd (fs ! i))"
    using assms(3) by (auto simp: all_entries_def)
  then have "text_bytes (snd (fs ! i))" using assms(1) by simp
  then have "t < invalidTrigram" using e(3) by (rule content_tris_bounds(2))
  then have "entry_fileid e = i" using e assms(2) pack_fields(2) [of t i] by (simp add: invalidTrigram_def)
  with e(1) show ?thesis by simp
qed

lemma iw_inv_set: "iw_inv ix fs gss \<Longrightarrow> sset_inv st \<Longrightarrow> smax st = 2 ^ 24 \<Longrightarrow> iw_inv (ix\<lparr>iwTrigram := st\<rparr>) fs gss"
  by (simp add: iw_inv_def names_inv_def ent_inv_def)

lemma length_le_name_bytes: "length ps \<le> length (name_bytes ps)"
  by (induction ps) (simp_all add: name_bytes_def)

text \<open>An accepted content gets the next number, its name and one entry per trigram.\<close>

lemma nameAndEntries_ok:
  assumes "iw_inv ix fs gss" "text_bytes c" "isValidName name" "distinct ts" "set ts = content_tris c"
    and "length (name_bytes (map fst fs)) < 2 ^ 32"
  shows "\<exists>ix1 ix' gss'. addName 1 name (ix\<lparr>iwTotalBytes := b\<rparr>) = Inr (length fs, ix1) \<and>
    rfold (addEntry 1 (length fs)) ts ix1 = Inr ix' \<and>
    iw_inv ix' (fs @ [(name, c)]) gss' \<and> iwRoots ix' = iwRoots ix"
proof -
  define ix1 where "ix1 = ix\<lparr>iwTotalBytes := b\<rparr>"
  have n1: "names_inv ix1 (map fst fs)" "ent_inv 1 ix1 gss (all_entries fs) (length fs)"
    using assms(1) by (simp_all add: iw_inv_def ix1_def names_inv_def ent_inv_def)
  from addName_ok [OF n1(1) assms(6), of name] obtain w where
    w: "addName 1 name ix1 = Inr (length fs, ix1\<lparr>iwNumName := iwNumName ix1 + 1, iwNames := w\<rparr>)"
      "names_inv (ix1\<lparr>iwNumName := iwNumName ix1 + 1, iwNames := w\<rparr>) (map fst fs @ [name])"
    by auto
  define ix2 where "ix2 = ix1\<lparr>iwNumName := iwNumName ix1 + 1, iwNames := w\<rparr>"
  have e2: "ent_inv 1 ix2 gss (all_entries fs) (Suc (length fs))"
    using n1(2) by (auto simp: ix2_def ent_inv_def less_Suc_eq)
  have lt: "length fs < 2 ^ 40" using length_le_name_bytes [of "map fst fs"] assms(6) by simp
  have txts: "\<forall>f \<in> set fs. text_bytes (snd f)" using assms(1) by (simp add: iw_inv_def)
  have b: "\<forall>t \<in> set ts. 0 < t \<and> t < invalidTrigram"
    using content_tris_bounds [OF assms(2)] by (simp add: assms(5))
  have fresh: "\<forall>t \<in> set ts. pack t (length fs) \<notin> all_entries fs"
  proof (intro ballI notI)
    fix t assume t: "t \<in> set ts" "pack t (length fs) \<in> all_entries fs"
    then have "t \<le> 0xFFFFFF" using b by (auto simp: invalidTrigram_def)
    then have "entry_fileid (pack t (length fs)) = length fs" using lt by (intro pack_fields)
    with all_entries_id [OF txts _ t(2)] lt show False by simp
  qed
  from addEntries_ok [of 1, OF _ lt e2 b assms(4) fresh] obtain ix3 gss3 where
    ix3: "rfold (addEntry 1 (length fs)) ts ix2 = Inr ix3"
      "ent_inv 1 ix3 gss3 (all_entries fs \<union> (\<lambda>t. pack t (length fs)) ` content_tris c) (Suc (length fs))"
      "iw_frame ix2 ix3" by (auto simp: assms(5))
  have "names_inv ix2 (map fst fs @ [name])" using w(2) by (simp only: ix2_def)
  then have "names_inv ix3 (map fst (fs @ [(name, c)]))"
    using ix3(3) by (simp add: iw_frame_def names_inv_def)
  then have "iw_inv ix3 (fs @ [(name, c)]) gss3"
    using assms(1-3) ix3(2,3)
    by (auto simp: iw_inv_def iw_frame_def ix2_def ix1_def all_entries_snoc)
  moreover have "iwRoots ix3 = iwRoots ix" using ix3(3) by (simp add: iw_frame_def ix2_def ix1_def)
  moreover have "addName 1 name ix1 = Inr (length fs, ix2)" using w(1) by (simp only: ix2_def)
  ultimately show ?thesis using ix3(1) unfolding ix1_def by blast
qed

lemma addReader_ok:
  assumes "iw_inv ix fs gss" "[] \<notin> set (fst f)" "isValidName name"
    and "length (name_bytes (map fst fs)) < 2 ^ 32"
  shows "\<exists>ix' gss'. addReader 1 name f ix =
      Inr (if text_bytes (concat (fst f)) \<and> \<not> snd f then Some ReadFailed else None, ix') \<and>
    iw_inv ix' (fs @ accepted (name, f, zv)) gss' \<and> iwRoots ix' = iwRoots ix"
proof -
  let ?c = "concat (fst f)"
  have h: "sset_inv (iwTrigram ix)" "smax (iwTrigram ix) = 2 ^ 24" using assms(1) by (simp_all add: iw_inv_def)
  obtain s where s: "scanReads (fst f) (snd f) (scan_start (iwTrigram ix)) = Inr (
      if text_bytes ?c then (if snd f then Scanned else Failed ReadFailed) else Ignored, s)"
    "text_bytes ?c \<longrightarrow> scan_inv ?c s" "sset_inv (scSet s)" "smax (scSet s) = 2 ^ 24"
    using scan_ok [OF h assms(2), of "snd f"] by blast
  define ix0 where "ix0 = ix\<lparr>iwTrigram := scSet s\<rparr>"
  have i0: "iw_inv ix0 fs gss" using iw_inv_set [OF assms(1) s(3,4)] by (simp add: ix0_def)
  have r0: "iwRoots ix0 = iwRoots ix" by (simp add: ix0_def)
  have d: "distinct (dense (scSet s))" "text_bytes ?c \<Longrightarrow> set (dense (scSet s)) = content_tris ?c"
    using s(2,3) by (simp_all add: sset_inv_def scan_inv_def)
  then have len: "text_bytes ?c \<Longrightarrow> Len (scSet s) = card (content_tris ?c)"
    using distinct_card [OF d(1)] by (simp add: Len_def)
  show ?thesis
  proof (cases "accepts name f")
    case False
    then have "addReader 1 name f ix =
        Inr (if text_bytes ?c \<and> \<not> snd f then Some ReadFailed else None, ix0)"
      using s(1) len assms(3) by (auto simp: addReader_def scan_start_def ix0_def Let_def accepts_def)
    moreover have "accepted (name, f, zv) = []" using False by (simp add: accepted_def)
    ultimately show ?thesis using i0 r0 by auto
  next
    case True
    then have a: "text_bytes ?c" "snd f" "card (content_tris ?c) \<le> maxTextTrigrams"
      by (simp_all add: accepts_def)
    from nameAndEntries_ok [OF i0 a(1) assms(3) d(1) d(2) [OF a(1)] assms(4),
        of "iwTotalBytes ix0 + int (scN s)"] obtain ix1 ix3 gss3 where
      ix3: "addName 1 name (ix0\<lparr>iwTotalBytes := iwTotalBytes ix0 + int (scN s)\<rparr>) = Inr (length fs, ix1)"
        "rfold (addEntry 1 (length fs)) (dense (scSet s)) ix1 = Inr ix3"
        "iw_inv ix3 (fs @ [(name, ?c)]) gss3" "iwRoots ix3 = iwRoots ix0" by blast
    then have "addReader 1 name f ix = Inr (None, ix3)"
      using s(1) len a
      by (simp add: addReader_def scan_start_def ix0_def [symmetric] MakePath_def Dense_def)
    moreover have "accepted (name, f, zv) = [(name, ?c)]" using True by (simp add: accepted_def)
    ultimately show ?thesis using a(2) ix3(3,4) r0 by auto
  qed
qed

section \<open>Sequences of additions\<close>

definition addAll :: "nat \<Rightarrow> (gostr \<times> reader \<times> zip_view) list \<Rightarrow> indexWriter \<Rightarrow> indexWriter res" where
  "addAll wv = rfold (\<lambda>(name, f, zv) ix. rbind (AddReaderNamed wv name f zv ix) (\<lambda>(_, ix'). Inr ix'))"

lemma Create_ok:
  "\<exists>ix. Create 1 g tmp = Inr ix \<and> iw_inv ix [] [] \<and> iwRoots ix = []"
  by (simp add: Create_def NewPathWriter_def iw_inv_def names_inv_def ent_inv_def pw_inv_def
      idx_contents_def NewSet_def sset_inv_def post_ok_def all_entries_def name_bytes_def
      file_chunks_def bufOffset_def bufCreate_def buf_inv_def contents_def)

lemma AddReaderNamed_ok:
  assumes "iw_inv ix fs gss" "[] \<notin> set (fst f)" "length (name_bytes (map fst fs)) < 2 ^ 32"
  shows "\<exists>err ix' gss'. AddReaderNamed 1 name f zv ix = Inr (err, ix') \<and>
    iw_inv ix' (fs @ accepted (name, f, zv)) gss' \<and> iwRoots ix' = iwRoots ix \<and>
    (err = None \<longleftrightarrow> isValidName name \<and> (text_bytes (concat (fst f)) \<longrightarrow> snd f))"
proof (cases "isValidName name")
  case True
  have "\<not> iwZip ix" using assms(1) by (simp add: iw_inv_def)
  then have "AddReaderNamed 1 name f zv ix = addReader 1 name f ix"
    using True by (simp add: AddReaderNamed_def)
  with addReader_ok [OF assms(1,2) True assms(3), of zv] True show ?thesis by auto
next
  case False
  then have "accepted (name, f, zv) = []" by (simp add: accepted_def accepts_def)
  with False assms(1) show ?thesis by (auto simp: AddReaderNamed_def)
qed

lemma addAll_ok:
  assumes "iw_inv ix fs gss" "\<forall>(name, f, zv) \<in> set adds. [] \<notin> set (fst f)"
    and "length (name_bytes (map fst (fs @ concat (map accepted adds)))) < 2 ^ 32"
  shows "\<exists>ix' gss'. addAll 1 adds ix = Inr ix' \<and> iw_inv ix' (fs @ concat (map accepted adds)) gss' \<and>
    iwRoots ix' = iwRoots ix"
  using assms
proof (induction adds arbitrary: ix fs gss)
  case Nil
  then show ?case by (auto simp: addAll_def)
next
  case (Cons a adds)
  obtain name f zv where a: "a = (name, f, zv)" by (cases a)
  have "length (name_bytes (map fst fs)) < 2 ^ 32" "[] \<notin> set (fst f)"
    using Cons.prems(2,3) by (auto simp: name_bytes_def a)
  with AddReaderNamed_ok [OF Cons.prems(1)] obtain err ix1 gss1 where
    ix1: "AddReaderNamed 1 name f zv ix = Inr (err, ix1)" "iw_inv ix1 (fs @ accepted a) gss1"
      "iwRoots ix1 = iwRoots ix" unfolding a by blast
  from Cons.IH [OF ix1(2)] Cons.prems(2,3) obtain ix' gss' where
    "addAll 1 adds ix1 = Inr ix'" "iw_inv ix' (fs @ accepted a @ concat (map accepted adds)) gss'"
    "iwRoots ix' = iwRoots ix1" by auto
  then show ?case using ix1 by (auto simp: addAll_def a)
qed

end
