(* ===== verification/Index_File.thy ===== *)
theory Index_File
  imports Index_Add
begin

text \<open>
  The index file: \<open>Flush\<close> of \<open>internal/codesearch/index/write.go\<close> and \<open>Open\<close> and
  \<open>Name\<close> of \<open>read.go\<close>, index version 1.

  \<open>index1_file\<close> is the file as a function of the roots and of the accepted files, with no
  buffer, chunk or heap in it.  The lemmas show that the writer writes exactly this file, whatever
  the flushes in between, and that opening it gives an index of these files; with the
  evaluation of queries this is the correctness of a search index from end to end.
\<close>

unbundle bit_operations_syntax

section \<open>The posting lists and their index\<close>

lemma notePosting_v1:
  assumes "pwIndex w = Some b" "buf_inv b" "pwCount w < 2 ^ 32" "pwBase w \<le> pwOffset w"
    "pwOffset w - pwBase w < 2 ^ 32"
  shows "\<exists>b'. notePosting 1 w = Inr (w\<lparr>pwIndex := Some b'\<rparr>) \<and> buf_inv b' \<and>
    contents b' = contents b @ tri_bytes (pwT w) @ be32 (of_nat (pwCount w)) @
      be32 (of_nat (pwOffset w - pwBase w))"
proof -
  have b0: "buf_inv (bufWriteTrigram (pwT w) b)" using assms(2) by (rule buf_ok)
  obtain b1 where b1: "bufWriteUint 1 (int (pwCount w)) (bufWriteTrigram (pwT w) b) = Inr b1" "buf_inv b1"
      "contents b1 = contents (bufWriteTrigram (pwT w) b) @ be32 (of_nat (pwCount w))"
    using bufWriteUint_ok [OF b0, of 1 "pwCount w"] assms(3) by (auto simp: uint_bytes_def)
  obtain b2 where b2: "bufWriteUint 1 (int (pwOffset w - pwBase w)) b1 = Inr b2" "buf_inv b2"
      "contents b2 = contents b1 @ be32 (of_nat (pwOffset w - pwBase w))"
    using bufWriteUint_ok [OF b1(2), of 1 "pwOffset w - pwBase w"] assms(5) by (auto simp: uint_bytes_def)
  have d: "int (pwOffset w) - int (pwBase w) = int (pwOffset w - pwBase w)" using assms(4) by (simp add: of_nat_diff)
  have "notePosting 1 w = Inr (w\<lparr>pwIndex := Some b2\<rparr>)"
    unfolding notePosting_def assms(1) option.case d using b1(1) b2(1) by simp
  then show ?thesis using b1 b2 assms(2) by (auto simp: buf_ok)
qed

lemma writePostings_index1:
  assumes "pw_clean w" "pwIndex w = Some b" "buf_inv b" "pwBase w \<le> length (contents (pwOut w))"
    and "\<forall>g \<in> set gs. 0 < fst g \<and> ids_ok (snd g)"
    and "length (contents (pwOut w)) + length (postings_bytes 1 gs) < 2 ^ 32 + pwBase w"
  shows "\<exists>w' b'. rfold (writePosting 1) gs w = Inr w' \<and> pw_clean w' \<and> pwIndex w' = Some b' \<and> buf_inv b' \<and>
    contents (pwOut w') = contents (pwOut w) @ postings_bytes 1 gs \<and>
    contents b' = contents b @ concat (index1 (length (contents (pwOut w)) - pwBase w) gs) \<and>
    pwLen w' = pwLen w"
  using assms
proof (induction gs arbitrary: w b)
  case Nil
  then show ?case by (auto simp: postings_bytes_def)
next
  case (Cons g gs)
  obtain t ids where g: "g = (t, ids)" by (cases g)
  have ok: "0 < t" "ids_ok ids" using Cons.prems(5) by (simp_all add: g)
  from writePosting_data [of 1, OF _ Cons.prems(1) ok] obtain w1 where w1:
    "writePosting 1 (t, ids) w = notePosting 1 w1" "pw_clean w1"
    "contents (pwOut w1) = contents (pwOut w) @ posting_bytes 1 (t, ids)" "pwIndex w1 = pwIndex w"
    "pwBase w1 = pwBase w" "pwT w1 = t" "pwCount w1 = length ids"
    "pwOffset w1 = length (contents (pwOut w))" "pwLen w1 = pwLen w"
    by auto
  have split: "length (postings_bytes 1 (g # gs)) = length (posting_bytes 1 (t, ids)) + length (postings_bytes 1 gs)"
    by (simp add: postings_bytes_def g)
  have "length ids \<le> length (postings_bytes 1 (g # gs))"
    using posting_count [of g "g # gs"] by (simp add: g)
  then have cnt: "length ids < 2 ^ 32" using Cons.prems(4,6) by simp
  obtain b1 where b1: "notePosting 1 w1 = Inr (w1\<lparr>pwIndex := Some b1\<rparr>)" "buf_inv b1"
    "contents b1 = contents b @ index1_entry (length (contents (pwOut w)) - pwBase w) (t, ids)"
  proof -
    have "pwOffset w1 - pwBase w1 < 2 ^ 32" using w1(5,8) Cons.prems(4,6) split by simp
    from notePosting_v1 [OF _ Cons.prems(3) _ _ this] that w1(4-8) cnt Cons.prems(2,4) show ?thesis
      by (auto simp: index1_entry_def simp del: of_nat_diff)
  qed
  have out: "pwOut (w1\<lparr>pwIndex := Some b1\<rparr>) = pwOut w1" "pw_clean (w1\<lparr>pwIndex := Some b1\<rparr>)"
    using w1(2) by (simp_all add: pwOut_def pw_clean_def)
  have "\<exists>w' b'. rfold (writePosting 1) gs (w1\<lparr>pwIndex := Some b1\<rparr>) = Inr w' \<and> pw_clean w' \<and>
      pwIndex w' = Some b' \<and> buf_inv b' \<and>
      contents (pwOut w') = contents (pwOut w1) @ postings_bytes 1 gs \<and>
      contents b' = contents b1 @ concat (index1 (length (contents (pwOut w1)) - pwBase w) gs) \<and>
      pwLen w' = pwLen w1"
    using Cons.IH [OF out(2), of b1] b1(2) w1(3,5) out(1) Cons.prems(4-6) split by simp
  moreover have "length (contents (pwOut w1)) - pwBase w =
      length (contents (pwOut w)) - pwBase w + length (posting_bytes 1 (t, ids))"
    using w1(3) Cons.prems(4) by simp
  ultimately show ?case
    using w1(1,3,9) b1(1,3) by (auto simp: g postings_bytes_def)
qed

section \<open>The file\<close>

definition final_lists :: "source_file list \<Rightarrow> posting list" where
  "final_lists fs = groups (sorted_list_of_set (all_entries fs)) @ [(invalidTrigram, [])]"

definition index1_body :: "gostr list \<Rightarrow> source_file list \<Rightarrow> byte list list" where
  "index1_body roots fs =
     [magicV1, name_bytes (roots @ [[]]), name_bytes (map fst fs @ [[]]), postings_bytes 1 (final_lists fs),
      name_offsets 0 (map fst fs @ [[]]), concat (index1 0 (final_lists fs))]"

text \<open>The start of a section of the file.\<close>

definition sect :: "byte list list \<Rightarrow> nat \<Rightarrow> nat" where
  "sect bss k = length (concat (take k bss))"

definition index1_file :: "gostr list \<Rightarrow> source_file list \<Rightarrow> byte list" where
  "index1_file roots fs = concat (index1_body roots fs) @
     concat (map (\<lambda>k. be32 (of_nat (sect (index1_body roots fs) k))) [1, 2, 3, 4, 5]) @ trailerMagicV1"

lemma path_entries_v1: "path_entries 1 g n l ps = name_bytes ps"
  by (induction ps arbitrary: n l) (simp_all add: name_bytes_def path_entry_def)

lemma entries_distinct:
  assumes "iw_inv ix fs gss"
  shows "sort (concat (map entries gss) @ iwPost ix) = sorted_list_of_set (all_entries fs)"
proof -
  have "distinct (concat (map entries gss) @ iwPost ix)"
    "set (concat (map entries gss) @ iwPost ix) = all_entries fs"
    using assms by (simp_all add: iw_inv_def ent_inv_def)
  then show ?thesis by (metis sorted_list_of_set_sort_remdups distinct_remdups_id)
qed

lemma finite_entries: "iw_inv ix fs gss \<Longrightarrow> finite (all_entries fs)"
  unfolding iw_inv_def ent_inv_def by (metis List.finite_set)

lemma sorted_entries_ok:
  assumes "\<forall>f \<in> set fs. text_bytes (snd f)" "finite (all_entries fs)" "length fs \<le> 2 ^ 40"
  shows "entries_ok (sorted_list_of_set (all_entries fs))"
proof -
  have "0 < entry_trigram e \<and> entry_trigram e < invalidTrigram" if mem: "e \<in> all_entries fs" for e
  proof -
    obtain i t where e: "i < length fs" "e = pack t i" "t \<in> content_tris (snd (fs ! i))"
      using mem by (auto simp: all_entries_def)
    then have x: "text_bytes (snd (fs ! i))" using assms(1) by simp
    have t: "0 < t" "t < invalidTrigram" using content_tris_bounds [OF x e(3)] by auto
    then have "entry_trigram e = t" using e assms(3) pack_fields(1) [of t i] by (simp add: invalidTrigram_def)
    with t show ?thesis by simp
  qed
  with assms(2) show ?thesis by (simp add: entries_ok_def)
qed

lemma final_lists_ok:
  assumes "\<forall>f \<in> set fs. text_bytes (snd f)" "finite (all_entries fs)" "length fs \<le> 2 ^ 40"
  shows "lists_ok (final_lists fs)" "\<forall>g \<in> set (final_lists fs). 0 < fst g \<and> ids_ok (snd g)"
proof -
  have "postings_ok (groups (sorted_list_of_set (all_entries fs)))"
    by (rule groups_ok [OF sorted_entries_ok [OF assms]])
  then have "\<forall>g \<in> set (groups (sorted_list_of_set (all_entries fs))).
      0 < fst g \<and> fst g < invalidTrigram \<and> ids_ok (snd g)"
    "sorted_wrt (\<lambda>g h. fst g < fst h) (groups (sorted_list_of_set (all_entries fs)))"
    by (auto simp: postings_ok_def posting_ok_def list_all_iff)
  then show "lists_ok (final_lists fs)" "\<forall>g \<in> set (final_lists fs). 0 < fst g \<and> ids_ok (snd g)"
    by (auto simp: lists_ok_def final_lists_def sorted_wrt_append invalidTrigram_def ids_ok_def
        intro: less_imp_le)
qed

section \<open>Writing the file\<close>

lemma pathCollect_v1:
  assumes "buf_inv b" "length (name_bytes ps) < 2 ^ 32"
  shows "\<exists>w. rbind (NewPathWriter b None 1 0) (pathCollect 1 ps) = Inr w \<and> buf_inv (pdata w) \<and>
    contents (pdata w) = contents b @ name_bytes ps"
proof -
  let ?w = "\<lparr>pdata = b, pindex = None, pver = 1, pgroup = 0, pstart = bufOffset b, pn = 0, plast = []\<rparr>"
  have "pw_inv ?w" using assms(1) by (simp add: pw_inv_def)
  from pathCollect_ok [OF this, of 1 ps] assms(2) show ?thesis
    by (auto simp: NewPathWriter_def path_entries_v1 [unfolded One_nat_def] pw_inv_def)
qed

lemma copyFile_ok:
  "buf_inv d \<Longrightarrow> buf_inv s \<Longrightarrow> buf_inv (copyFile d s) \<and> contents (copyFile d s) = contents d @ contents s"
  using fileWrite_ok [of "bufFlush d" "bufFinish s"]
  by (simp add: copyFile_def bufFinish_ok buf_ok bbuf_bufFlush)

lemma writeUints_ok:
  assumes "buf_inv b" "\<forall>n \<in> set ns. n < 2 ^ 32"
  shows "\<exists>b'. rfold (\<lambda>v. bufWriteUint 1 (int v)) ns b = Inr b' \<and> buf_inv b' \<and>
    contents b' = contents b @ concat (map (\<lambda>n. be32 (of_nat n)) ns)"
  using assms
proof (induction ns arbitrary: b)
  case (Cons n ns)
  obtain b1 where b1: "bufWriteUint 1 (int n) b = Inr b1" "buf_inv b1" "contents b1 = contents b @ be32 (of_nat n)"
    using bufWriteUint_ok [OF Cons.prems(1), of 1 n] Cons.prems(2) by (auto simp: uint_bytes_def)
  from Cons.IH [OF b1(2)] Cons.prems(2) b1 show ?case by auto
qed simp

text \<open>The part of \<open>Flush\<close> before the merge: magic, roots and names.\<close>

lemma Flush_head:
  assumes "iw_inv ix fs gss"
    and "length magicV1 + length (name_bytes (iwRoots ix @ [[]])) + length (name_bytes (map fst fs @ [[]])) < 2 ^ 32"
  shows "\<exists>names roots. addName 1 [] ix = Inr (length fs, ix\<lparr>iwNumName := iwNumName ix + 1, iwNames := names\<rparr>) \<and>
    names_inv (ix\<lparr>iwNumName := iwNumName ix + 1, iwNames := names\<rparr>) (map fst fs @ [[]]) \<and>
    rbind (NewPathWriter (bufWriteString magicV1 (iwMain ix)) None 1 0) (pathCollect 1 (iwRoots ix @ [[]])) = Inr roots \<and>
    buf_inv (pdata roots) \<and> contents (pdata roots) = magicV1 @ name_bytes (iwRoots ix @ [[]])"
proof -
  have h: "names_inv ix (map fst fs)" "buf_inv (iwMain ix)" "contents (iwMain ix) = []"
    using assms(1) by (simp_all add: iw_inv_def)
  have "length (name_bytes (map fst fs)) < 2 ^ 32" using assms(2) by (simp add: name_bytes_snoc)
  from addName_ok [OF h(1) this, of "[]"] obtain names where
    "addName 1 [] ix = Inr (length fs, ix\<lparr>iwNumName := iwNumName ix + 1, iwNames := names\<rparr>)"
    "names_inv (ix\<lparr>iwNumName := iwNumName ix + 1, iwNames := names\<rparr>) (map fst fs @ [[]])" by auto
  moreover have "buf_inv (bufWriteString magicV1 (iwMain ix))"
    "contents (bufWriteString magicV1 (iwMain ix)) = magicV1"
    using h(2,3) by (simp_all add: buf_ok)
  moreover have "length (name_bytes (iwRoots ix @ [[]])) < 2 ^ 32" using assms(2) by simp
  ultimately show ?thesis using pathCollect_v1 [of "bufWriteString magicV1 (iwMain ix)" "iwRoots ix @ [[]]"]
    by auto
qed

text \<open>The merge.\<close>

lemma Flush_merge:
  assumes "iw_inv ix fs gss" "buf_inv out" "length fs \<le> 2 ^ 40" "length (postings_bytes 1 (final_lists fs)) < 2 ^ 32"
  shows "\<exists>w b. mergePost 1 (iwSortTmp ix) (iwPost ix) (iwPostFile ix) (iwPostEnds ix) (iwPostIndex ix) out =
      Some (Inr (fst (sortPost (iwSortTmp ix) (iwPost ix)), w)) \<and> buf_inv (pwOut w) \<and> pwIndex w = Some b \<and> buf_inv b \<and>
    contents (pwOut w) = contents out @ postings_bytes 1 (final_lists fs) \<and>
    contents b = concat (index1 0 (final_lists fs))"
proof -
  have h: "buf_inv (iwPostFile ix)" "\<forall>gs \<in> set gss. postings_ok gs" "contents (iwPostFile ix) = file_chunks 1 gss"
    "iwPostEnds ix = chunk_ends 1 0 gss" "post_ok (iwPost ix)" "buf_inv (iwPostIndex ix)"
    "contents (iwPostIndex ix) = []" "\<forall>f \<in> set fs. text_bytes (snd f)"
    using assms(1) by (simp_all add: iw_inv_def ent_inv_def)
  note e = entries_distinct [OF assms(1)]
  note ok = sorted_entries_ok [OF h(8) finite_entries [OF assms(1)] assms(3)]
    final_lists_ok(2) [OF h(8) finite_entries [OF assms(1)] assms(3)]
  let ?w = "pwInit out (Some (iwPostIndex ix))"
  have w0: "pw_clean ?w" "pwIndex ?w = Some (iwPostIndex ix)" "pwBase ?w = length (contents (pwOut ?w))"
    "pwOut ?w = out" "pwLen ?w = 0"
    using assms(2) offset_contents [OF assms(2)]
    by (simp_all add: pwInit_def pw_clean_def dw_clean_def dwInit_def pwOut_def)
  obtain w b where w: "rfold (writePosting 1) (final_lists fs) ?w = Inr w" "pw_clean w" "pwIndex w = Some b"
    "buf_inv b" "contents (pwOut w) = contents out @ postings_bytes 1 (final_lists fs)"
    "contents b = concat (index1 0 (final_lists fs))" "pwLen w = 0"
    using writePostings_index1 [OF w0(1,2) h(6) _ ok(2)] w0(3-5) assms(4) h(7) by auto
  have "rfold (writePosting 1) (groups (sort (concat (map entries gss) @ iwPost ix)) @ [(invalidTrigram, [])]) ?w = Inr w"
    using w(1) by (simp add: e final_lists_def)
  from mergePost_writes [of 1, OF _ h(1-5) _ this] ok(1) have
    "mergePost 1 (iwSortTmp ix) (iwPost ix) (iwPostFile ix) (iwPostEnds ix) (iwPostIndex ix) out =
      Some (Inr (fst (sortPost (iwSortTmp ix) (iwPost ix)), pwFlush w))"
    by (simp add: e)
  moreover have "pwFlush w = w" using w(3,7) by (simp add: pwFlush_def)
  moreover have "buf_inv (pwOut w)" using w(2) by (simp add: pw_clean_def dw_clean_def pwOut_def)
  ultimately show ?thesis using w(3-6) by auto
qed

text \<open>The parts of the file, and what their bound gives.\<close>

lemma index1_sections:
  "sect (index1_body roots fs) 1 = length magicV1"
  "sect (index1_body roots fs) 2 = length magicV1 + length (name_bytes (roots @ [[]]))"
  "sect (index1_body roots fs) 3 = sect (index1_body roots fs) 2 + length (name_bytes (map fst fs @ [[]]))"
  "sect (index1_body roots fs) 4 = sect (index1_body roots fs) 3 + length (postings_bytes 1 (final_lists fs))"
  "sect (index1_body roots fs) 5 = sect (index1_body roots fs) 4 + length (name_offsets 0 (map fst fs @ [[]]))"
  by (simp_all add: sect_def index1_body_def)

lemma length_index1_file: "length (index1_file roots fs) = sect (index1_body roots fs) 5 +
    length (concat (index1 0 (final_lists fs))) + 36"
  by (simp add: index1_file_def index1_sections)
    (simp add: index1_body_def be32_def trailerMagicV1_def)

lemma Flush_ok:
  assumes "iw_inv ix fs gss" "length (index1_file (iwRoots ix) fs) < 2 ^ 32"
  shows "\<exists>ix'. Flush 1 ix = Some (Inr ix') \<and> written_file ix' = index1_file (iwRoots ix) fs"
proof -
  let ?b = "index1_body (iwRoots ix) fs"
  note sz = length_index1_file [of "iwRoots ix" fs] index1_sections [of "iwRoots ix" fs]
  have len: "length fs \<le> 2 ^ 40"
    using assms(2) sz length_le_name_bytes [of "map fst fs @ [[]]"] by simp
  have "length magicV1 + length (name_bytes (iwRoots ix @ [[]])) + length (name_bytes (map fst fs @ [[]])) < 2 ^ 32"
    using assms(2) sz by simp
  from Flush_head [OF assms(1) this] obtain names roots where head:
    "addName 1 [] ix = Inr (length fs, ix\<lparr>iwNumName := iwNumName ix + 1, iwNames := names\<rparr>)"
    "names_inv (ix\<lparr>iwNumName := iwNumName ix + 1, iwNames := names\<rparr>) (map fst fs @ [[]])"
    "rbind (NewPathWriter (bufWriteString magicV1 (iwMain ix)) None 1 0) (pathCollect 1 (iwRoots ix @ [[]])) = Inr roots"
    "buf_inv (pdata roots)" "contents (pdata roots) = magicV1 @ name_bytes (iwRoots ix @ [[]])" by blast
  obtain r0 r1 where r: "NewPathWriter (bufWriteString magicV1 (iwMain ix)) None 1 0 = Inr r0"
    "pathCollect 1 (iwRoots ix) r0 = Inr r1" "pathWrite 1 [] r1 = Inr roots"
    using head(3) by (auto simp: rbind_Inr_iff pathCollect_def rfold_append)
  obtain nix where nix: "pindex names = Some nix" "buf_inv nix" "contents nix = name_offsets 0 (map fst fs @ [[]])"
    "buf_inv (pdata names)" "contents (pdata names) = name_bytes (map fst fs @ [[]])"
    using head(2) by (auto simp: names_inv_def pw_inv_def idx_contents_def)
  define m3 where "m3 = copyFile (pdata roots) (pdata names)"
  have m3: "buf_inv m3" "contents m3 = concat (take 3 ?b)"
    using copyFile_ok [OF head(4) nix(4)] head(5) nix(5) by (simp_all add: m3_def index1_body_def)
  have "length (postings_bytes 1 (final_lists fs)) < 2 ^ 32" using assms(2) sz by simp
  from Flush_merge [OF assms(1) m3(1) len this] obtain w b where w:
    "mergePost 1 (iwSortTmp ix) (iwPost ix) (iwPostFile ix) (iwPostEnds ix) (iwPostIndex ix) m3 =
      Some (Inr (fst (sortPost (iwSortTmp ix) (iwPost ix)), w))" "buf_inv (pwOut w)" "pwIndex w = Some b" "buf_inv b"
    "contents (pwOut w) = contents m3 @ postings_bytes 1 (final_lists fs)"
    "contents b = concat (index1 0 (final_lists fs))" by blast
  define m5 where "m5 = copyFile (pwOut w) nix"
  define m6 where "m6 = copyFile m5 b"
  have m4: "contents (pwOut w) = concat (take 4 ?b)" using w(5) m3(2) by (simp add: index1_body_def)
  have m5: "buf_inv m5" "contents m5 = concat (take 5 ?b)"
    using copyFile_ok [OF w(2) nix(2)] m4 nix(3) by (simp_all add: m5_def index1_body_def)
  have m6: "buf_inv m6" "contents m6 = concat ?b"
    using copyFile_ok [OF m5(1) w(4)] m5(2) w(6) by (simp_all add: m6_def index1_body_def)
  have offs: "bufOffset (bufWriteString magicV1 (iwMain ix)) = sect ?b 1" "bufOffset (pdata roots) = sect ?b 2"
    "bufOffset m3 = sect ?b 3" "bufOffset (pwOut w) = sect ?b 4" "bufOffset m5 = sect ?b 5"
    using offset_contents [OF head(4)] offset_contents [OF m3(1)] offset_contents [OF w(2)]
      offset_contents [OF m5(1)] head(5) m3(2) m4 m5(2) assms(1)
    by (simp_all add: iw_inv_def buf_ok offset_contents sect_def) (simp_all add: index1_body_def)
  have "\<forall>n \<in> set (map (sect ?b) [1, 2, 3, 4, 5]). n < 2 ^ 32" using assms(2) sz by auto
  from writeUints_ok [OF m6(1) this] obtain m7 where m7:
    "rfold (\<lambda>v. bufWriteUint 1 (int v)) (map (sect ?b) [1, 2, 3, 4, 5]) m6 = Inr m7" "buf_inv m7"
    "contents m7 = concat ?b @ concat (map (\<lambda>k. be32 (of_nat (sect ?b k))) [1, 2, 3, 4, 5])"
    unfolding m6(2) by (auto simp: comp_def)
  let ?ix = "ix\<lparr>iwNumName := iwNumName ix + 1, iwNames := names,
    iwSortTmp := fst (sortPost (iwSortTmp ix) (iwPost ix)),
    iwMain := bufFlush (bufWriteString trailerMagicV1 m7), iwNumTrigram := pwNumTrigram w\<rparr>"
  have "Flush 1 ix = Some (Inr ?ix)"
    unfolding Flush_def head(1) using r w(1) m7(1)
    by (simp add: writeTrailer_def bufAlign_def nix(1) w(3) offs m3_def [symmetric] m5_def [symmetric]
        m6_def [symmetric] del: One_nat_def)
  moreover have "written_file ?ix = contents (bufWriteString trailerMagicV1 m7)"
    using bufFinish_ok [of "bufWriteString trailerMagicV1 m7"] m7(2)
    by (simp add: written_file_def bufFinish_def buf_ok)
  then have "written_file ?ix = index1_file (iwRoots ix) fs" using m7(2,3) by (simp add: index1_file_def buf_ok)
  ultimately show ?thesis by blast
qed

section \<open>Opening the file\<close>

lemma ixUint32_at:
  assumes "d = pre @ be32 (of_nat v) @ post" "off = int (length pre)" "v < 2 ^ 32" "length d < 2 ^ 63"
  shows "ixUint32 d off = Inr (int v)"
proof -
  have "int (length pre) + 4 \<le> int (length d)" using assms(1) by simp
  then have "ixSlice d off 4 = Inr (be32 (of_nat v))"
    using assms(1,2,4) by (simp add: ixSlice_def del: of_nat_add)
  then show ?thesis
    using assms(3) by (simp add: ixUint32_def be_uint_be32 unsigned_of_nat take_bit_nat_eq_self)
qed

lemma ixUint32_nth:
  assumes "d = pre @ concat (map (\<lambda>n. be32 (of_nat n)) vs) @ post" "j < length vs" "\<forall>v \<in> set vs. v < 2 ^ 32"
    "length d < 2 ^ 63" "off = int (length pre) + 4 * int j"
  shows "ixUint32 d off = Inr (int (vs ! j))"
proof (rule ixUint32_at [OF _ _ _ assms(4)])
  let ?f = "\<lambda>vs. concat (map (\<lambda>n. be32 (of_nat n)) vs)"
  have len: "length (?f xs) = 4 * length xs" for xs by (induction xs) simp_all
  have "vs = take j vs @ vs ! j # drop (Suc j) vs" using assms(2) by (rule id_take_nth_drop)
  then have "?f vs = ?f (take j vs) @ be32 (of_nat (vs ! j)) @ ?f (drop (Suc j) vs)"
    by (metis concat.simps(2) concat_append list.simps(9) map_append)
  then show "d = (pre @ ?f (take j vs)) @ be32 (of_nat (vs ! j)) @ ?f (drop (Suc j) vs) @ post"
    by (simp add: assms(1))
  show "off = int (length (pre @ ?f (take j vs)))" using assms(2,5) by (simp only: len length_append) simp
  show "vs ! j < 2 ^ 32" using assms(2,3) by simp
qed

definition opened1 :: "gostr list \<Rightarrow> source_file list \<Rightarrow> index" where
  "opened1 roots fs = (let b = index1_body roots fs in
     \<lparr>ixData = index1_file roots fs, ixVersion = 1, ixPathData = int (sect b 1), ixNumPath = -1,
      ixNameData = int (sect b 2), ixPostData = int (sect b 3), ixNameIndex = int (sect b 4),
      ixNumName = int (length fs), ixPostIndex = int (sect b 5),
      ixNumPost = int (length (final_lists fs)), ixNumPostBlock = 0\<rparr>)"

lemma open_index1:
  assumes "length (index1_file roots fs) < 2 ^ 32"
  shows "openIndex (index1_file roots fs) = Inr (opened1 roots fs)"
proof -
  define b where "b = index1_body roots fs"
  define d where "d = index1_file roots fs"
  define n where "n = length (concat b)"
  have d: "d = concat b @ be32 (of_nat (sect b 1)) @ be32 (of_nat (sect b 2)) @ be32 (of_nat (sect b 3)) @
      be32 (of_nat (sect b 4)) @ be32 (of_nat (sect b 5)) @ trailerMagicV1"
    by (simp add: d_def b_def index1_file_def)
  have tl: "length trailerMagicV1 = 16" by (simp add: trailerMagicV1_def)
  have len: "length d = n + 36" using tl by (simp add: d n_def)
  have small: "length d < 2 ^ 32" using assms by (simp add: d_def)
  have le: "sect b k \<le> n" for k
  proof -
    have "length (concat b) = length (concat (take k b)) + length (concat (drop k b))"
      by (metis append_take_drop_id concat_append length_append)
    then show ?thesis by (simp only: sect_def n_def)
  qed
  have s: "sect b k < 2 ^ 32" for k using le [of k] small len by simp
  have magic: "drop (length d - length trailerMagicV1) d = trailerMagicV1"
    using tl len by (simp add: d n_def)
  define vs where "vs = map (sect b) [1, 2, 3, 4, 5]"
  have dv: "d = concat b @ concat (map (\<lambda>n. be32 (of_nat n)) vs) @ trailerMagicV1"
    by (simp add: d vs_def)
  have sv: "\<forall>v \<in> set vs. v < 2 ^ 32" "length d < 2 ^ 63" using s small by (auto simp: vs_def)
  have u: "ixUint32 d (int n) = Inr (int (sect b 1))" "ixUint32 d (int n + 4) = Inr (int (sect b 2))"
    "ixUint32 d (int n + 8) = Inr (int (sect b 3))" "ixUint32 d (int n + 12) = Inr (int (sect b 4))"
    "ixUint32 d (int n + 16) = Inr (int (sect b 5))"
    using ixUint32_nth [OF dv _ sv, of 0 "int n"] ixUint32_nth [OF dv _ sv, of 1 "int n + 4"]
      ixUint32_nth [OF dv _ sv, of 2 "int n + 8"] ixUint32_nth [OF dv _ sv, of 3 "int n + 12"]
      ixUint32_nth [OF dv _ sv, of 4 "int n + 16"]
    by (simp_all add: vs_def n_def)
  have names: "tdiv (int (sect b 5) - int (sect b 4)) 4 - 1 = int (length fs)"
    using index1_sections(5) [of roots fs] by (simp add: b_def)
  have posts: "tdiv (int n - int (sect b 5)) 11 = int (length (final_lists fs))"
  proof -
    have "n = sect b 5 + length (final_lists fs) * 11"
      using length_index1_file [of roots fs] len by (simp add: d_def b_def length_concat_index1)
    then show ?thesis by simp
  qed
  have base: "int (length d) - int (length trailerMagicV1) - 5 * 4 = int n" using len tl by simp
  have "openIndex d = Inr (opened1 roots fs)"
    unfolding openIndex_def Let_def magic base using tl len
    by (simp add: u names posts opened1_def Let_def b_def [symmetric] d_def [symmetric])
  then show ?thesis by (simp add: d_def)
qed

end
