(* ===== verification/Index_Search.thy ===== *)
theory Index_Search
  imports Index_File
begin

text \<open>
  From files to answers: what the index built from a list of additions says.

  A written version 1 file, opened, is an index in the sense of \<open>rep_v1\<close> whose posting lists
  are the numbers of the accepted files that contain the trigram, and its names are the names of
  these files.  So the queries of \<open>Query\<close>, evaluated on it, give exactly the files that satisfy
  them.
\<close>

section \<open>Posting lists\<close>

lemma tri3_inj:
  assumes "length t = 3" "length u = 3" "tri3 t = tri3 u"
  shows "t = u"
proof -
  have g: "\<exists>a b c. v = [a, b, c]" if "length v = 3" for v :: gostr
    using that by (auto simp: numeral_3_eq_3 length_Suc_conv)
  obtain a b c where t: "t = [a, b, c]" using g [OF assms(1)] by blast
  obtain d e f where u: "u = [d, e, f]" using g [OF assms(2)] by blast
  have eq: "read_tri a b c = read_tri d e f" using assms(3) by (simp add: t u tri3_def)
  have bits: "bit (read_tri a b c) n = bit (read_tri d e f) n" for n by (simp add: eq)
  have "c = f"
  proof (rule bit_word_eqI)
    fix n assume "n < LENGTH(8)"
    then show "bit c n = bit f n" using bits [of n]
      by (auto simp: read_tri_def bit_simps dest: bit_imp_le_length)
  qed
  moreover have "b = e"
  proof (rule bit_word_eqI)
    fix n assume "n < LENGTH(8)"
    then show "bit b n = bit e n" using bits [of "n + 8"]
      by (auto simp: read_tri_def bit_simps dest: bit_imp_le_length)
  qed
  moreover have "a = d"
  proof (rule bit_word_eqI)
    fix n assume "n < LENGTH(8)"
    then show "bit a n = bit d n" using bits [of "n + 16"]
      by (auto simp: read_tri_def bit_simps dest: bit_imp_le_length)
  qed
  ultimately show ?thesis by (simp add: t u)
qed

lemma trigrams_of_length: "t \<in> set (trigrams_of cs) \<Longrightarrow> length t = 3"
  by (auto dest!: trigrams_of_bytes)

lemma tri3_content: "length t = 3 \<Longrightarrow> tri3 t \<in> content_tris cs \<longleftrightarrow> t \<in> set (trigrams_of cs)"
  using tri3_inj trigrams_of_length by (auto simp: content_tris_def)

lemma map_of_groups:
  "entries_ok es \<Longrightarrow> t \<noteq> invalidTrigram \<Longrightarrow>
   (case map_of (groups es) t of None \<Rightarrow> [] | Some ids \<Rightarrow> ids) =
     map entry_fileid (filter (\<lambda>e. entry_trigram e = t) es)"
proof (induction es)
  case (Cons e es)
  have ok: "entries_ok es" using Cons.prems(1) by (simp add: entries_ok_def)
  note ih = Cons.IH [OF ok Cons.prems(2)]
  show ?case
  proof (cases "groups es")
    case Nil
    with ih show ?thesis by (auto simp: groups_nil)
  next
    case (Cons g gs)
    obtain u ids where g: "g = (u, ids)" by (cases g)
    have e_le: "entry_trigram e \<le> u"
    proof -
      obtain e1 es' where "es = e1 # es'" "u = entry_trigram e1"
        using groups_hd Cons g by blast
      with \<open>entries_ok (e # es)\<close> have "e < e1" "u = entry_trigram e1" by (auto simp: entries_ok_def)
      then show ?thesis by (auto simp: entry_less_iff)
    qed
    have gt: "\<forall>h \<in> set gs. u < fst h"
      using groups_ok [OF ok] Cons g by (auto simp: postings_ok_def)
    have "map_of gs (entry_trigram e) = None" if "entry_trigram e \<noteq> u"
    proof -
      have "entry_trigram e \<notin> fst ` set gs" using gt e_le by fastforce
      then show ?thesis by (simp add: map_of_eq_None_iff)
    qed
    with ih Cons g show ?thesis by (auto split: option.splits)
  qed
qed simp

lemma final_posts:
  assumes "\<forall>f \<in> set fs. text_bytes (snd f)" "finite (all_entries fs)" "length fs \<le> 2 ^ 40"
  shows "set (list_of (final_lists fs) t) = {i. i < length fs \<and> t \<in> content_tris (snd (fs ! i))}"
proof -
  let ?es = "sorted_list_of_set (all_entries fs)"
  have ok: "entries_ok ?es" using sorted_entries_ok [OF assms] .
  have low: "t < invalidTrigram" if "i < length fs" "t \<in> content_tris (snd (fs ! i))" for i
    using content_tris_bounds(2) [OF _ that(2)] assms(1) that(1) by simp
  show ?thesis
  proof (cases "t = invalidTrigram")
    case True
    have "t \<notin> fst ` set (groups ?es)"
      using groups_ok [OF ok] True by (auto simp: postings_ok_def posting_ok_def list_all_iff)
    then have "map_of (groups ?es) invalidTrigram = None" using True by (simp add: map_of_eq_None_iff)
    then have "list_of (final_lists fs) t = []"
      using True by (simp add: list_of_def final_lists_def map_add_def)
    with low True show ?thesis by auto
  next
    case False
    then have "list_of (final_lists fs) t = map entry_fileid (filter (\<lambda>e. entry_trigram e = t) ?es)"
      using map_of_groups [OF ok False]
      by (simp add: list_of_def final_lists_def map_add_def split: option.splits)
    then have "set (list_of (final_lists fs) t) = entry_fileid ` {e \<in> all_entries fs. entry_trigram e = t}"
      using assms(2) by auto
    also have "\<dots> = {i. i < length fs \<and> t \<in> content_tris (snd (fs ! i))}"
    proof -
      have f: "entry_trigram (pack u i) = u" "entry_fileid (pack u i) = i"
        if "i < length fs" "u \<in> content_tris (snd (fs ! i))" for u i
      proof -
        have "u \<le> 0xFFFFFF" "i < 2 ^ 40"
          using content_tris_bounds(2) [OF _ that(2)] assms(1,3) that(1) by (auto simp: invalidTrigram_def less_imp_le)
        then show "entry_trigram (pack u i) = u" "entry_fileid (pack u i) = i" by (rule pack_fields)+
      qed
      show ?thesis
      proof (intro set_eqI iffI)
        fix i assume "i \<in> entry_fileid ` {e \<in> all_entries fs. entry_trigram e = t}"
        then show "i \<in> {i. i < length fs \<and> t \<in> content_tris (snd (fs ! i))}"
          using f by (auto simp: all_entries_def)
      next
        fix i assume i: "i \<in> {i. i < length fs \<and> t \<in> content_tris (snd (fs ! i))}"
        then have "pack t i \<in> all_entries fs" by (auto simp: all_entries_def)
        with i f [of i t] show "i \<in> entry_fileid ` {e \<in> all_entries fs. entry_trigram e = t}"
          by (intro image_eqI [of _ _ "pack t i"]) auto
      qed
    qed
    finally show ?thesis .
  qed
qed

lemma opened_rep:
  assumes "\<forall>f \<in> set fs. text_bytes (snd f)" "finite (all_entries fs)" "length (index1_file roots fs) < 2 ^ 32"
  shows "rep_v1 (opened1 roots fs) (list_of (final_lists fs)) (length fs)"
proof -
  have len: "length fs \<le> 2 ^ 40"
    using assms(3) length_index1_file [of roots fs] index1_sections [of roots fs]
      length_le_name_bytes [of "map fst fs @ [[]]"] by simp
  note ok = final_lists_ok(1) [OF assms(1,2) len]
  have "\<forall>g \<in> set (final_lists fs). \<forall>i \<in> set (snd g). i < length fs"
  proof (intro ballI)
    fix g i assume g: "g \<in> set (final_lists fs)" "i \<in> set (snd g)"
    have "distinct (map fst (final_lists fs))"
      using ok by (auto simp: lists_ok_def distinct_map inj_on_def sorted_wrt_iff_nth_less distinct_conv_nth
          in_set_conv_nth) (metis less_irrefl linorder_neqE_nat)+
    then have "map_of (final_lists fs) (fst g) = Some (snd g)" using g(1) by (simp add: map_of_is_SomeI)
    then have "i \<in> set (list_of (final_lists fs) (fst g))" using g(2) by (simp add: list_of_def)
    then show "i < length fs" by (simp add: final_posts [OF assms(1,2) len])
  qed
  moreover have "ixData (opened1 roots fs) = concat (take 3 (index1_body roots fs)) @
      postings_bytes 1 (final_lists fs) @ name_offsets 0 (map fst fs @ [[]]) @
      concat (index1 0 (final_lists fs)) @
      (concat (map (\<lambda>k. be32 (of_nat (sect (index1_body roots fs) k))) [1, 2, 3, 4, 5]) @ trailerMagicV1)"
    by (simp add: opened1_def Let_def index1_file_def) (simp add: index1_body_def)
  ultimately show ?thesis
    unfolding rep_v1_def
    using ok assms(3) index1_sections [of roots fs]
    by (intro exI conjI) (auto simp: opened1_def Let_def sect_def)
qed

section \<open>Names\<close>

lemma fillNames_v1:
  assumes "prver r = 1" "list_all (path_ok 1) (p # ps)" "prpath r = p"
    and "prdata r = name_bytes ps @ rest" "prlimit r = int (length ps)"
  shows "fillNames (Suc (length ps)) r = p # ps"
  using assms
proof (induction ps arbitrary: r p)
  case Nil
  then show ?case by (simp add: prValid_def path_ok_def)
next
  case (Cons q qs)
  have "prNext r = (r\<lparr>prlimit := prlimit r - 1, prdata := name_bytes qs @ rest, prpath := q\<rparr>, True)"
    by (rule prNext_entry [where ver = 1 and g = 0 and n = 0 and lst = "[]"])
      (use Cons.prems in \<open>simp_all add: path_entry_def name_bytes_def\<close>)
  moreover have "fillNames (Suc (length qs)) (r\<lparr>prlimit := prlimit r - 1, prdata := name_bytes qs @ rest, prpath := q\<rparr>) = q # qs"
    by (rule Cons.IH) (use Cons.prems in simp_all)
  ultimately show ?case using Cons.prems by (simp add: prValid_def path_ok_def)
qed

lemma valid_name_path: "isValidName p \<Longrightarrow> path_ok 1 p"
  by (auto simp: isValidName_def path_ok_def list_all_iff)

lemma name_offset_first: "ps \<noteq> [] \<Longrightarrow> \<exists>rest. name_offsets 0 ps = be32 0 @ rest"
  by (cases ps) auto

lemma opened_names:
  assumes "\<forall>f \<in> set fs. isValidName (fst f)" "length (index1_file roots fs) < 2 ^ 32"
  shows "buildNameCache (opened1 roots fs) = Inr (map fst fs)"
proof -
  let ?b = "index1_body roots fs" and ?ix = "opened1 roots fs"
  define d where "d = index1_file roots fs"
  have small: "length d < 2 ^ 32" using assms(2) by (simp add: d_def)
  have d: "d = concat (take 2 ?b) @ name_bytes (map fst fs @ [[]]) @ concat (drop 3 ?b) @
      concat (map (\<lambda>k. be32 (of_nat (sect ?b k))) [1, 2, 3, 4, 5]) @ trailerMagicV1"
    by (simp add: d_def index1_file_def) (simp add: index1_body_def numeral_3_eq_3 numeral_2_eq_2)
  obtain rest where no: "name_offsets 0 (map fst fs @ [[]]) = be32 0 @ rest"
    using name_offset_first [of "map fst fs @ [[]]"] by auto
  have off: "ixUint32 d (int (sect ?b 4)) = Inr 0"
  proof -
    have "d = concat (take 4 ?b) @ be32 (of_nat 0) @ rest @ concat (index1 0 (final_lists fs)) @
      concat (map (\<lambda>k. be32 (of_nat (sect ?b k))) [1, 2, 3, 4, 5]) @ trailerMagicV1"
      using no by (simp add: d_def index1_file_def) (simp add: index1_body_def)
    from ixUint32_at [OF this] small show ?thesis by (simp add: sect_def)
  qed
  have s3: "sect ?b 3 = sect ?b 2 + length (name_bytes (map fst fs @ [[]]))" by (rule index1_sections(3))
  have s3d: "sect ?b 3 \<le> length d" by (simp add: d s3) (simp add: sect_def)
  have "length (concat (take 2 ?b)) = sect ?b 2" by (simp add: sect_def)
  then have sl: "ixSlice d (int (sect ?b 2)) (int (length (name_bytes (map fst fs @ [[]])))) =
      Inr (name_bytes (map fst fs @ [[]]))"
    using small s3 s3d by (simp add: ixSlice_def d [symmetric] del: of_nat_add) (simp add: d)
  show ?thesis
  proof (cases fs)
    case Nil
    then show ?thesis
      by (simp add: buildNameCache_def opened1_def Let_def ixNamesAt_def NewPathReader_def)
  next
    case (Cons f gs)
    have wr: "wrap64 (int (sect ?b 2)) = int (sect ?b 2)" "wrap64 (int (sect ?b 4)) = int (sect ?b 4)"
      "wrap64 (int (sect ?b 3) - int (sect ?b 2)) = int (length (name_bytes (map fst fs @ [[]])))"
      using small s3 s3d index1_sections(4) [of roots fs] length_index1_file [of roots fs] index1_sections(5) [of roots fs]
      by (simp_all add: d_def)
    have pos: "0 < int (length fs)" using Cons by simp
    define r0 where "r0 = \<lparr>prver = 1, prdata = name_bytes (map fst fs @ [[]]), prpath = [], prlimit = int (length fs)\<rparr>"
    have at: "ixNamesAt 0 (int (length fs)) ?ix = Inr (fst (prNext r0))"
      using pos off wr sl
      by (simp add: ixNamesAt_def opened1_def Let_def d_def [symmetric] NewPathReader_def r0_def)
    have ok: "list_all (path_ok 1) (map fst fs)" using assms(1) valid_name_path by (auto simp: list_all_iff)
    have nx: "prNext r0 = (r0\<lparr>prlimit := prlimit r0 - 1, prdata := name_bytes (map fst gs @ [[]]), prpath := fst f\<rparr>, True)"
      by (rule prNext_entry [where ver = 1 and g = 0 and n = 0 and lst = "[]"])
        (use ok Cons in \<open>simp_all add: r0_def path_entry_def name_bytes_def\<close>)
    have "fillNames (Suc (length (map fst gs))) (fst (prNext r0)) = fst f # map fst gs"
      unfolding nx by (rule fillNames_v1 [where rest = "[0]"])
        (use ok Cons in \<open>simp_all add: r0_def name_bytes_def\<close>)
    moreover have n: "nat (int (length fs)) = Suc (length (map fst gs))" unfolding nat_int using Cons by simp
    ultimately have "fillNames (nat (int (length fs))) (fst (prNext r0)) = map fst fs"
      unfolding n using Cons by (simp del: fillNames.simps)
    moreover have "ixNumName ?ix = int (length fs)" by (simp add: opened1_def Let_def)
    ultimately show ?thesis using at by (simp add: buildNameCache_def)
  qed
qed

lemma opened_name:
  assumes "\<forall>f \<in> set fs. isValidName (fst f)" "length (index1_file roots fs) < 2 ^ 32" "i < length fs"
  shows "ixName (int i) (opened1 roots fs) = Inr (fst (fs ! i))"
  using assms(3) opened_names [OF assms(1,2)] by (simp add: ixName_def)

section \<open>From files to answers\<close>

lemma qsat_cong3:
  "qlookup_ok q \<Longrightarrow> (\<And>t. length t = 3 \<Longrightarrow> D t = D' t) \<Longrightarrow> qsat D q = qsat D' q"
proof (induction q)
  case (Query op tr sub)
  have "list_all D tr = list_all D' tr" "list_ex D tr = list_ex D' tr"
    using Query.prems by (auto simp: list_all_iff list_ex_iff)
  moreover have "list_all (qsat D) sub = list_all (qsat D') sub" "list_ex (qsat D) sub = list_ex (qsat D') sub"
    using Query by (auto simp: list_all_iff list_ex_iff)
  ultimately show ?case by (cases op) auto
qed

lemma AddRoots_ok: "iw_inv ix fs gss \<Longrightarrow> iw_inv (AddRoots roots ix) fs gss"
  by (simp add: iw_inv_def AddRoots_def names_inv_def ent_inv_def)

lemma writer_file:
  assumes "\<forall>(name, f, zv) \<in> set adds. [] \<notin> set (fst f)"
    and "length (index1_file roots (concat (map accepted adds))) < 2 ^ 32"
  shows "\<exists>ix0 ix1 ix2. Create 1 g tmp = Inr ix0 \<and> addAll 1 adds (AddRoots roots ix0) = Inr ix1 \<and>
    Flush 1 ix1 = Some (Inr ix2) \<and>
    written_file ix2 = index1_file roots (concat (map accepted adds))"
proof -
  obtain ix0 where ix0: "Create 1 g tmp = Inr ix0" "iw_inv ix0 [] []" "iwRoots ix0 = []"
    using Create_ok by blast
  have "length (name_bytes (map fst ([] @ concat (map accepted adds)))) < 2 ^ 32"
    using assms(2) length_index1_file [of roots "concat (map accepted adds)"]
      index1_sections [of roots "concat (map accepted adds)"] by (simp add: name_bytes_snoc)
  from addAll_ok [OF AddRoots_ok [OF ix0(2), of roots] assms(1) this] obtain ix1 gss where
    ix1: "addAll 1 adds (AddRoots roots ix0) = Inr ix1" "iw_inv ix1 (concat (map accepted adds)) gss"
      "iwRoots ix1 = roots" using ix0(3) by (auto simp: AddRoots_def)
  with Flush_ok [OF ix1(2)] assms(2) ix0(1) show ?thesis by auto
qed

text \<open>A sample: a text file, a file with a NUL byte, and an invalid name.\<close>

definition sample_adds :: "(gostr \<times> reader \<times> zip_view) list" where
  "sample_adds = [(bytes_of ''a'', ([bytes_of ''ab'', bytes_of ''c''], True), NotRegular),
     (bytes_of ''b'', ([[97, 0, 98]], True), NotRegular), ([], ([bytes_of ''abc''], True), NotRegular)]"

lemma sample_accepted: "concat (map accepted sample_adds) = [(bytes_of ''a'', bytes_of ''abc'')]"
  by (simp add: sample_adds_def accepted_def accepts_def isValidName_def text_bytes_def bytes_of_def
      validUTF8_def maxFileLen_def maxLineLen_def maxTextTrigrams_def content_tris_def)

lemma abc_small:
  assumes "length n < 1000" "length (name_bytes (roots @ [[]])) < 1000"
  shows "length (index1_file roots [(n, bytes_of ''abc'')]) < 2 ^ 32"
proof -
  define t where "t = tri3 (bytes_of ''abc'')"
  have "t \<le> 0xFFFFFF" by (simp add: t_def tri3_def bytes_of_def read_tri_def)
  then have "entry_trigram (pack t 0) = t" "entry_fileid (pack t 0) = 0" by (simp_all add: pack_fields)
  moreover have "all_entries [(n, bytes_of ''abc'')] = {pack t 0}"
    by (simp add: all_entries_def content_tris_def t_def bytes_of_def lessThan_Suc)
  ultimately have "final_lists [(n, bytes_of ''abc'')] = [(t, [0]), (invalidTrigram, [])]"
    by (simp add: final_lists_def)
  moreover have "length (name_bytes [n, []]) < 1010" using assms(1) by (simp add: name_bytes_def)
  ultimately show ?thesis
    using assms(2) unfolding length_index1_file index1_sections
    by (simp add: length_concat_index1 magicV1_def)
      (simp add: postings_bytes_def posting_bytes_def delta_enc_def uvarint_enc.simps)
qed

lemma sample_small: "length (index1_file [] [(bytes_of ''a'', bytes_of ''abc'')]) < 2 ^ 32"
  by (rule abc_small) (simp_all add: name_bytes_def bytes_of_def)

text \<open>
  C7. The index writer refines the file \<open>index1_file\<close>: whatever the buffers' capacities, the stale
  contents of the sort array, the chunks the readers return and the flushes that happen, creating
  an index, adding files and flushing never fails and writes exactly the file of the roots and
  of the accepted files, as long as that file is shorter than 4 GB.
\<close>

theorem writer_refines_file:
  assumes "\<forall>(name, f, zv) \<in> set adds. [] \<notin> set (fst f)"
    and "length (index1_file roots (concat (map accepted adds))) < 2 ^ 32"
  shows "\<exists>ix0 ix1 ix2. Create 1 g tmp = Inr ix0 \<and> addAll 1 adds (AddRoots roots ix0) = Inr ix1 \<and>
    Flush 1 ix1 = Some (Inr ix2) \<and>
    written_file ix2 = index1_file roots (concat (map accepted adds))"
  using assms by (rule writer_file)

theorem writer_refines_file_witness:
  "\<exists>ix0 ix1 ix2. Create 1 id [7] = Inr ix0 \<and> addAll 1 sample_adds (AddRoots [] ix0) = Inr ix1 \<and>
    Flush 1 ix1 = Some (Inr ix2) \<and> written_file ix2 = index1_file [] [(bytes_of ''a'', bytes_of ''abc'')]"
  using writer_refines_file [of sample_adds "[]" id "[7]"] sample_small unfolding sample_accepted
  by (simp add: sample_adds_def bytes_of_def del: concat.simps)

lemma accepted_ok:
  "\<forall>f \<in> set (concat (map accepted adds)). isValidName (fst f) \<and> text_bytes (snd f)"
  by (auto simp: accepted_def accepts_def)

lemma finite_all_entries: "finite (all_entries fs)"
  by (simp add: all_entries_def content_tris_def)

lemma search_ok:
  assumes "\<forall>(name, f, zv) \<in> set adds. [] \<notin> set (fst f)"
    and "fs = concat (map accepted adds)" "length (index1_file roots fs) < 2 ^ 32" "qlookup_ok q"
  shows "\<exists>ix0 ix1 ix2 ix l. Create 1 g tmp = Inr ix0 \<and> addAll 1 adds (AddRoots roots ix0) = Inr ix1 \<and>
    Flush 1 ix1 = Some (Inr ix2) \<and> openIndex (written_file ix2) = Inr ix \<and>
    postingQuery ix q None = Inr l \<and> sorted_wrt (<) (olist l) \<and>
    set (olist l) = int ` {i. i < length fs \<and> qsat (\<lambda>t. t \<in> set (trigrams_of (snd (fs ! i)))) q} \<and>
    (\<forall>i < length fs. ixName (int i) ix = Inr (fst (fs ! i)))"
proof -
  obtain ix0 ix1 ix2 where w: "Create 1 g tmp = Inr ix0" "addAll 1 adds (AddRoots roots ix0) = Inr ix1"
    "Flush 1 ix1 = Some (Inr ix2)" "written_file ix2 = index1_file roots fs"
    using writer_file [OF assms(1), of roots g tmp] assms(2,3) by blast
  have ok: "\<forall>f \<in> set fs. isValidName (fst f)" "\<forall>f \<in> set fs. text_bytes (snd f)"
    using accepted_ok assms(2) by auto
  have len: "length fs \<le> 2 ^ 40"
    using assms(3) length_index1_file [of roots fs] index1_sections [of roots fs]
      length_le_name_bytes [of "map fst fs @ [[]]"] by simp
  have o: "openIndex (written_file ix2) = Inr (opened1 roots fs)"
    using open_index1 [OF assms(3)] w(4) by simp
  from ix1.query_ok(1) [OF opened_rep [OF ok(2) finite_all_entries assms(3)] _ assms(4), of None]
  obtain l where l: "postingQuery (opened1 roots fs) q None = Inr l" "sorted_wrt (<) (olist l)"
    "set (olist l) = {x \<in> universe (length fs) None. answers (list_of (final_lists fs)) q x}"
    by (auto simp: restr_ok_def)
  have a: "answers (list_of (final_lists fs)) q (int i) = qsat (\<lambda>t. t \<in> set (trigrams_of (snd (fs ! i)))) q"
    if "i < length fs" for i
    unfolding answers_def
    by (rule qsat_cong3 [OF assms(4)])
      (use that in \<open>simp add: final_posts [OF ok(2) finite_all_entries len] tri3_content image_iff\<close>)
  have "set (olist l) = int ` {i. i < length fs \<and> qsat (\<lambda>t. t \<in> set (trigrams_of (snd (fs ! i)))) q}"
  proof (intro set_eqI iffI)
    fix x assume "x \<in> set (olist l)"
    then have "0 \<le> x" "x < int (length fs)" "answers (list_of (final_lists fs)) q x"
      by (auto simp: l(3) universe_def)
    then show "x \<in> int ` {i. i < length fs \<and> qsat (\<lambda>t. t \<in> set (trigrams_of (snd (fs ! i)))) q}"
      using a [of "nat x"] by (intro image_eqI [of _ _ "nat x"]) auto
  qed (auto simp: l(3) universe_def a)
  with w o l(1,2) opened_name [OF ok(1) assms(3)] show ?thesis by blast
qed

text \<open>
  C2. Search from end to end: opening the file written for any additions gives an index on which
  every query is answered, without a fault and in ascending order, by exactly the numbers of the
  accepted files whose trigrams satisfy it, and the name of each number is the name of its file.
\<close>

theorem index_search_end_to_end:
  assumes "\<forall>(name, f, zv) \<in> set adds. [] \<notin> set (fst f)"
    and "fs = concat (map accepted adds)" "length (index1_file roots fs) < 2 ^ 32" "qlookup_ok q"
  shows "\<exists>ix0 ix1 ix2 ix l. Create 1 g tmp = Inr ix0 \<and> addAll 1 adds (AddRoots roots ix0) = Inr ix1 \<and>
    Flush 1 ix1 = Some (Inr ix2) \<and> openIndex (written_file ix2) = Inr ix \<and>
    postingQuery ix q None = Inr l \<and> sorted_wrt (<) (olist l) \<and>
    set (olist l) = int ` {i. i < length fs \<and> qsat (\<lambda>t. t \<in> set (trigrams_of (snd (fs ! i)))) q} \<and>
    (\<forall>i < length fs. ixName (int i) ix = Inr (fst (fs ! i)))"
  using assms by (rule search_ok)

theorem index_search_end_to_end_witness:
  "\<exists>ix0 ix1 ix2 ix l. Create 1 id [7] = Inr ix0 \<and> addAll 1 sample_adds (AddRoots [] ix0) = Inr ix1 \<and>
    Flush 1 ix1 = Some (Inr ix2) \<and> openIndex (written_file ix2) = Inr ix \<and>
    postingQuery ix (Query QAnd [bytes_of ''abc''] []) None = Inr l \<and> set (olist l) = {0} \<and>
    ixName 0 ix = Inr (bytes_of ''a'')"
proof -
  have h: "\<forall>(name, f, zv) \<in> set sample_adds. [] \<notin> set (fst f)" by (simp add: sample_adds_def bytes_of_def)
  have q: "qlookup_ok (Query QAnd [bytes_of ''abc''] [])" by (simp add: bytes_of_def)
  have s: "int ` {i. i < length [(bytes_of ''a'', bytes_of ''abc'')] \<and>
      qsat (\<lambda>t. t \<in> set (trigrams_of (snd ([(bytes_of ''a'', bytes_of ''abc'')] ! i))))
        (Query QAnd [bytes_of ''abc''] [])} = {0}"
    by (auto simp: bytes_of_def)
  obtain ix0 ix1 ix2 ix l where
    "Create 1 id [7] = Inr ix0" "addAll 1 sample_adds (AddRoots [] ix0) = Inr ix1"
    "Flush 1 ix1 = Some (Inr ix2)" "openIndex (written_file ix2) = Inr ix"
    "postingQuery ix (Query QAnd [bytes_of ''abc''] []) None = Inr l" "set (olist l) = {0}"
    "\<forall>i < length [(bytes_of ''a'', bytes_of ''abc'')].
       ixName (int i) ix = Inr (fst ([(bytes_of ''a'', bytes_of ''abc'')] ! i))"
    using index_search_end_to_end [OF h sample_accepted [symmetric] sample_small q, of id "[7]"]
    unfolding s by blast
  then show ?thesis by auto
qed

end
