(* ===== verification/Matcher.thy ===== *)
theory Matcher
  imports Sparse_Set Buffer_IO
begin

text \<open>
  The matcher of \<open>internal/codesearch/regexp/match.go\<close>: a deterministic automaton that is built
  while it runs, out of sets of instructions of a compiled program.

  A program is what \<open>syntax.Prog\<close> holds after \<open>toByteProg\<close>.  A state of the automaton is known
  by its encoding: the map \<open>mdstate\<close> takes an encoding to what has been computed for it, and a
  pointer to a state is \<open>DMatch\<close> (the one state behind a match) or \<open>DRef\<close> of an encoding.  The two
  scratch sets \<open>z1\<close> and \<open>z2\<close> are part of the state.  An index outside the program or the set is the
  run-time error \<open>Range\<close>.

  \<open>addq\<close> and \<open>cacheState\<close> recurse along the program and along the automaton; they are partial
  functions (\<open>None\<close> is a call that does not end), and \<open>Matcher_Correct\<close> shows that they end.
\<close>

unbundle bit_operations_syntax

section \<open>Programs\<close>

datatype iop = InstAlt | InstAltMatch | InstCapture | InstEmptyWidth | InstMatch | InstFail | InstNop
  | InstRune | InstRune1 | InstRuneAny | InstRuneAnyNotNL | InstByteRange

record inst =
  iOp :: iop
  iOut :: u32
  iArg :: u32

record prog =
  pInst :: "inst list"
  pStart :: u32

definition argFold :: u32 where "argFold = 0x10000"

text \<open>\<open>syntax.EmptyOp\<close>, a \<open>uint8\<close>, and the flags of a state.\<close>

type_synonym emptyOp = "8 word"

definition EmptyBeginLine :: emptyOp where "EmptyBeginLine = 1"
definition EmptyEndLine :: emptyOp where "EmptyEndLine = 2"
definition EmptyBeginText :: emptyOp where "EmptyBeginText = 4"
definition EmptyEndText :: emptyOp where "EmptyEndText = 8"
definition EmptyWordBoundary :: emptyOp where "EmptyWordBoundary = 16"
definition EmptyNoWordBoundary :: emptyOp where "EmptyNoWordBoundary = 32"

definition flagBOL :: u32 where "flagBOL = 1"
definition flagBOT :: u32 where "flagBOT = 4"
definition flagWord :: u32 where "flagWord = 16"

definition endText :: int where "endText = -1"

definition isWordByte :: "int \<Rightarrow> bool" where
  "isWordByte c \<longleftrightarrow> 65 \<le> c \<and> c \<le> 90 \<or> 97 \<le> c \<and> c \<le> 122 \<or> 48 \<le> c \<and> c \<le> 57 \<or> c = 95"

section \<open>States\<close>

record nstate =
  nq :: sset
  npartial :: u32
  nflag :: u32

datatype dref = DMatch | DRef gostr

record dstate =
  dnext :: "byte \<Rightarrow> dref option"
  matchNL :: bool
  matchEOT :: bool

record matcher =
  mprog :: prog
  mdstate :: "gostr \<Rightarrow> dstate option"
  mstart :: dref
  mstartLine :: dref
  mz1 :: nstate
  mz2 :: nstate

section \<open>Encoding\<close>

fun enc_ids :: "u32 \<Rightarrow> u32 list \<Rightarrow> byte list" where
  "enc_ids prev [] = []"
| "enc_ids prev (x # xs) = uvarint_enc (unat (x - prev)) @ enc_ids x xs"

definition nenc :: "nstate \<Rightarrow> gostr" where
  "nenc z = uvarint_enc (unat (scast (npartial z) :: u64)) @ uvarint_enc (unat (nflag z)) @
     enc_ids (-1) (sort (Dense (nq z)))"

function dec_ids :: "u32 \<Rightarrow> byte list \<Rightarrow> sset \<Rightarrow> sset res" where
  "dec_ids prev b q =
     (if b = [] then Inr q
      else case uvarint_dec b of (i, n) \<Rightarrow>
        if n \<le> 0 then Inl Panic
        else let x = prev + of_nat i
             in rbind (Add x q) (dec_ids x (drop (nat n) b)))"
  by pat_completeness auto
termination by (relation "measure (\<lambda>(prev, b, q). length b)") auto

declare dec_ids.simps [simp del]

definition ndec :: "gostr \<Rightarrow> nstate \<Rightarrow> nstate res" where
  "ndec s z = (case uvarint_dec s of (i, n) \<Rightarrow>
     if n \<le> 0 then Inl Panic
     else case uvarint_dec (drop (nat n) s) of (f, n2) \<Rightarrow>
       if n2 \<le> 0 then Inl Panic
       else rbind (dec_ids (-1) (drop (nat n + nat n2) s) (Reset (nq z))) (\<lambda>q.
              Inr \<lparr>nq = q, npartial = of_nat i, nflag = of_nat f\<rparr>))"

section \<open>Queues of instructions\<close>

definition getInst :: "prog \<Rightarrow> u32 \<Rightarrow> inst res" where
  "getInst p i = (if unat i < length (pInst p) then Inr (pInst p ! unat i) else Inl Range)"

partial_function (option) addq :: "prog \<Rightarrow> emptyOp \<Rightarrow> u32 \<Rightarrow> sset \<Rightarrow> sset res option" where
  "addq p flag i q =
     obind (Some (Has q i)) (\<lambda>h.
       if h then Some (Inr q)
       else obind (Some (Add i q)) (\<lambda>q1.
            obind (Some (getInst p i)) (\<lambda>ins.
              if iOp ins = InstCapture \<or> iOp ins = InstNop then addq p flag (iOut ins) q1
              else if iOp ins = InstAlt \<or> iOp ins = InstAltMatch
              then obind (addq p flag (iOut ins) q1) (\<lambda>q2. addq p flag (iArg ins) q2)
              else if iOp ins = InstEmptyWidth \<and> (ucast (iArg ins) AND NOT flag :: emptyOp) = 0
              then addq p flag (iOut ins) q1
              else Some (Inr q1))))"

declare addq.simps [code]

fun addAllq :: "prog \<Rightarrow> emptyOp \<Rightarrow> u32 list \<Rightarrow> sset \<Rightarrow> sset res option" where
  "addAllq p flag [] q = Some (Inr q)"
| "addAllq p flag (i # is) q = obind (addq p flag i q) (addAllq p flag is)"

definition stepEmpty :: "prog \<Rightarrow> sset \<Rightarrow> sset \<Rightarrow> emptyOp \<Rightarrow> sset res option" where
  "stepEmpty p runq nextq flag = addAllq p flag (Dense runq) (Reset nextq)"

definition byteMatches :: "inst \<Rightarrow> int \<Rightarrow> bool" where
  "byteMatches ins c \<longleftrightarrow> c \<noteq> endText \<and>
     (let lo = uint (drop_bit 8 (iArg ins) AND 0xFF); hi = uint (iArg ins AND 0xFF);
          ch = (if iArg ins AND argFold \<noteq> 0 \<and> 97 \<le> c \<and> c \<le> 122 then c - 32 else c)
      in lo \<le> ch \<and> ch \<le> hi)"

fun stepIds :: "prog \<Rightarrow> int \<Rightarrow> emptyOp \<Rightarrow> u32 list \<Rightarrow> bool \<Rightarrow> sset \<Rightarrow> (bool \<times> sset) res option" where
  "stepIds p c flag [] mat q = Some (Inr (mat, q))"
| "stepIds p c flag (i # is) mat q =
     obind (Some (getInst p i)) (\<lambda>ins.
       if iOp ins = InstMatch then stepIds p c flag is True q
       else if iOp ins = InstByteRange \<and> byteMatches ins c
       then obind (addq p flag (iOut ins) q) (stepIds p c flag is mat)
       else stepIds p c flag is mat q)"

definition stepByte :: "prog \<Rightarrow> sset \<Rightarrow> sset \<Rightarrow> int \<Rightarrow> emptyOp \<Rightarrow> (bool \<times> sset) res option" where
  "stepByte p runq nextq c flag =
     obind (addq p flag (pStart p) (Reset nextq)) (stepIds p c flag (Dense runq) False)"

section \<open>The automaton\<close>

text \<open>The flags in effect before \<open>c\<close> in a state with flags \<open>fl\<close>; and those after it.\<close>

definition flagsBefore :: "u32 \<Rightarrow> int \<Rightarrow> emptyOp" where
  "flagsBefore fl c =
     (if fl AND flagBOL \<noteq> 0 then EmptyBeginLine else 0) OR
     (if fl AND flagBOT \<noteq> 0 then EmptyBeginText else 0) OR
     (if (fl AND flagWord \<noteq> 0) \<noteq> isWordByte c then EmptyWordBoundary else EmptyNoWordBoundary) OR
     (if c = 10 then EmptyEndLine else 0) OR
     (if c = endText then EmptyEndLine OR EmptyEndText else 0)"

definition flagsAfter :: "int \<Rightarrow> u32" where
  "flagsAfter c = (if c = 10 then flagBOL else 0) OR (if isWordByte c then flagWord else 0)"

text \<open>\<open>computeNext\<close> up to the call of \<open>cache\<close>: whether a match ends before \<open>c\<close>; the next state is
  in \<open>z1\<close>.\<close>

definition computeStep :: "gostr \<Rightarrow> int \<Rightarrow> matcher \<Rightarrow> (bool \<times> matcher) res option" where
  "computeStep e c m =
     obind (Some (ndec e (mz1 m))) (\<lambda>z1.
       let flag = flagsBefore (nflag z1) c
       in obind (stepEmpty (mprog m) (nq z1) (nq (mz2 m)) flag) (\<lambda>q2.
          obind (stepByte (mprog m) q2 (nq z1) c (if c = 10 then EmptyBeginLine else 0)) (\<lambda>(mat, q1).
            Some (Inr (mat, m\<lparr>mz1 := z1\<lparr>nq := q1, nflag := flagsAfter c\<rparr>,
                               mz2 := (mz2 m)\<lparr>nq := q2\<rparr>\<rparr>)))))"

definition setState :: "gostr \<Rightarrow> (dstate \<Rightarrow> dstate) \<Rightarrow> matcher \<Rightarrow> matcher" where
  "setState e f m = m\<lparr>mdstate := (mdstate m)(e := map_option f (mdstate m e))\<rparr>"

text \<open>\<open>cache\<close> of \<open>z1\<close>, with the two calls of \<open>computeNext\<close> it makes.\<close>

partial_function (option) cacheState :: "matcher \<Rightarrow> (dref \<times> matcher) res option" where
  "cacheState m =
     (let e = nenc (mz1 m)
      in if mdstate m e \<noteq> None then Some (Inr (DRef e, m))
         else let m0 = m\<lparr>mdstate := (mdstate m)(e \<mapsto> \<lparr>dnext = (\<lambda>_. None), matchNL = False, matchEOT = False\<rparr>)\<rparr>
         in obind (computeStep e 10 m0) (\<lambda>(nl, m1).
            obind (if nl then Some (Inr (DMatch, m1)) else cacheState m1) (\<lambda>(d1, m2).
            obind (computeStep e endText (setState e (matchNL_update (\<lambda>_. d1 = DMatch)) m2)) (\<lambda>(et, m3).
            obind (if et then Some (Inr (DMatch, m3)) else cacheState m3) (\<lambda>(d2, m4).
              Some (Inr (DRef e, setState e (matchEOT_update (\<lambda>_. d2 = DMatch)) m4)))))))"

declare cacheState.simps [code]

definition computeNext :: "gostr \<Rightarrow> int \<Rightarrow> matcher \<Rightarrow> (dref \<times> matcher) res option" where
  "computeNext e c m = obind (computeStep e c m) (\<lambda>(mat, m1).
     if mat then Some (Inr (DMatch, m1)) else cacheState m1)"

definition matcherInit :: "prog \<Rightarrow> matcher res option" where
  "matcherInit p =
     (let n = of_nat (length (pInst p)) :: u32;
          q0 = Init n \<lparr>dense = [], sparse = (\<lambda>_. 0), smax = 0\<rparr>;
          z = \<lparr>nq = q0, npartial = 0, nflag = 0\<rparr>;
          m = \<lparr>mprog = p, mdstate = (\<lambda>_. None), mstart = DMatch, mstartLine = DMatch, mz1 = z, mz2 = z\<rparr>
      in obind (addq p (EmptyBeginLine OR EmptyBeginText) (pStart p) q0) (\<lambda>q.
         obind (cacheState (m\<lparr>mz1 := z\<lparr>nq := q, nflag := flagBOL OR flagBOT\<rparr>\<rparr>)) (\<lambda>(d, m1).
         obind (addq p EmptyBeginLine (pStart p) (Reset (nq (mz1 m1)))) (\<lambda>q1.
         obind (cacheState (m1\<lparr>mz1 := (mz1 m1)\<lparr>nq := q1, nflag := flagBOL\<rparr>\<rparr>)) (\<lambda>(d1, m2).
           Some (Inr (m2\<lparr>mstart := d, mstartLine := d1\<rparr>)))))))"

section \<open>Matching\<close>

text \<open>What a pointer leads to; \<open>dmatch\<close> is a constant.\<close>

definition dderef :: "dref \<Rightarrow> matcher \<Rightarrow> dstate" where
  "dderef d m = (case d of
      DMatch \<Rightarrow> \<lparr>dnext = (\<lambda>c. if c = 10 then None else Some DMatch), matchNL = True, matchEOT = True\<rparr>
    | DRef e \<Rightarrow> (case mdstate m e of Some s \<Rightarrow> s
                | None \<Rightarrow> \<lparr>dnext = (\<lambda>_. None), matchNL = False, matchEOT = False\<rparr>))"

definition setNext :: "dref \<Rightarrow> byte \<Rightarrow> dref \<Rightarrow> matcher \<Rightarrow> matcher" where
  "setNext d c d1 m = (case d of
      DMatch \<Rightarrow> m
    | DRef e \<Rightarrow> setState e (dnext_update (\<lambda>f. f(c \<mapsto> d1))) m)"

text \<open>\<open>None\<close> inside the result: the loop ran through to the end in the state returned.\<close>

fun matchLoop :: "dref \<Rightarrow> nat \<Rightarrow> byte list \<Rightarrow> matcher \<Rightarrow> (nat option \<times> dref \<times> matcher) res option" where
  "matchLoop d i [] m = Some (Inr (None, d, m))"
| "matchLoop d i (c # b) m =
     (case dnext (dderef d m) c of
        Some d1 \<Rightarrow> matchLoop d1 (i + 1) b m
      | None \<Rightarrow>
          if c = 10
          then if matchNL (dderef d m) then Some (Inr (Some i, d, m))
               else matchLoop (mstartLine m) (i + 1) b (setNext d c (mstartLine m) m)
          else (case d of
              DMatch \<Rightarrow> Some (Inl Panic)
            | DRef e \<Rightarrow> obind (computeNext e (uint c) m) (\<lambda>(d1, m1).
                matchLoop d1 (i + 1) b (setNext d c d1 m1))))"

definition matchBytes :: "byte list \<Rightarrow> bool \<Rightarrow> bool \<Rightarrow> matcher \<Rightarrow> (int \<times> matcher) res option" where
  "matchBytes b beginText endTxt m =
     obind (matchLoop (if beginText then mstart m else mstartLine m) 0 b m) (\<lambda>(r, d, m1).
       Some (Inr (case r of
           Some i \<Rightarrow> (int i, m1)
         | None \<Rightarrow> (if matchNL (dderef d m1) \<or> endTxt \<and> matchEOT (dderef d m1)
                   then (int (length b), m1) else (-1, m1)))))"

end
