(* ===== verification/Matcher_Queue.thy ===== *)
theory Matcher_Queue
  imports Matcher
begin

text \<open>
  The queue operations of the matcher: \<open>addq\<close> ends and adds exactly the instructions that can be
  reached without a byte, \<open>stepEmpty\<close> and \<open>stepByte\<close> compute the sets of the simulation of the
  program, and a state is recovered from its encoding.
\<close>

unbundle bit_operations_syntax

section \<open>Steps without a byte\<close>

definition eps_succ :: "prog \<Rightarrow> emptyOp \<Rightarrow> u32 \<Rightarrow> u32 set" where
  "eps_succ p fl i = (let ins = pInst p ! unat i in
     if iOp ins = InstCapture \<or> iOp ins = InstNop then {iOut ins}
     else if iOp ins = InstAlt \<or> iOp ins = InstAltMatch then {iOut ins, iArg ins}
     else if iOp ins = InstEmptyWidth \<and> (ucast (iArg ins) AND NOT fl :: emptyOp) = 0 then {iOut ins}
     else {})"

definition eps :: "prog \<Rightarrow> emptyOp \<Rightarrow> u32 \<Rightarrow> u32 \<Rightarrow> bool" where
  "eps p fl i j \<longleftrightarrow> unat i < length (pInst p) \<and> j \<in> eps_succ p fl i"

definition clo :: "prog \<Rightarrow> emptyOp \<Rightarrow> u32 set \<Rightarrow> u32 set" where
  "clo p fl S = {y. \<exists>x \<in> S. (eps p fl)\<^sup>*\<^sup>* x y}"

definition closed :: "prog \<Rightarrow> emptyOp \<Rightarrow> u32 set \<Rightarrow> bool" where
  "closed p fl S \<longleftrightarrow> (\<forall>x \<in> S. \<forall>y. eps p fl x y \<longrightarrow> y \<in> S)"

text \<open>Programs whose targets exist.\<close>

definition valid_ids :: "prog \<Rightarrow> u32 set \<Rightarrow> bool" where
  "valid_ids p S \<longleftrightarrow> (\<forall>i \<in> S. unat i < length (pInst p))"

definition inst_ok :: "prog \<Rightarrow> inst \<Rightarrow> bool" where
  "inst_ok p ins \<longleftrightarrow>
     (iOp ins \<in> {InstCapture, InstNop, InstAlt, InstAltMatch, InstEmptyWidth, InstByteRange} \<longrightarrow>
        unat (iOut ins) < length (pInst p)) \<and>
     (iOp ins \<in> {InstAlt, InstAltMatch} \<longrightarrow> unat (iArg ins) < length (pInst p))"

definition prog_ok :: "prog \<Rightarrow> bool" where
  "prog_ok p \<longleftrightarrow> length (pInst p) < 2 ^ 32 \<and> unat (pStart p) < length (pInst p) \<and> list_all (inst_ok p) (pInst p)"

lemma prog_inst_ok: "prog_ok p \<Longrightarrow> unat i < length (pInst p) \<Longrightarrow> inst_ok p (pInst p ! unat i)"
  by (simp add: prog_ok_def list_all_length)

lemma eps_valid: "prog_ok p \<Longrightarrow> eps p fl i j \<Longrightarrow> unat j < length (pInst p)"
  using prog_inst_ok [of p i]
  by (auto simp: eps_def eps_succ_def inst_ok_def Let_def split: if_splits)

lemma eps_star_valid: "(eps p fl)\<^sup>*\<^sup>* i j \<Longrightarrow> prog_ok p \<Longrightarrow> unat i < length (pInst p) \<Longrightarrow> unat j < length (pInst p)"
  by (induction rule: rtranclp_induct) (auto intro: eps_valid)

lemma clo_valid: "prog_ok p \<Longrightarrow> valid_ids p S \<Longrightarrow> valid_ids p (clo p fl S)"
  by (auto simp: clo_def valid_ids_def intro: eps_star_valid)

lemma clo_sub: "S \<subseteq> clo p fl S"
  by (auto simp: clo_def)

lemma clo_closed: "closed p fl (clo p fl S)"
  by (auto simp: closed_def clo_def intro: rtranclp.rtrancl_into_rtrancl)

lemma closed_star: "(eps p fl)\<^sup>*\<^sup>* x y \<Longrightarrow> closed p fl S \<Longrightarrow> x \<in> S \<Longrightarrow> y \<in> S"
  by (induction rule: rtranclp_induct) (auto simp: closed_def)

lemma clo_least: "closed p fl T \<Longrightarrow> S \<subseteq> T \<Longrightarrow> clo p fl S \<subseteq> T"
  using closed_star by (fastforce simp: clo_def)

lemma clo_Un: "clo p fl (S \<union> T) = clo p fl S \<union> clo p fl T"
  by (auto simp: clo_def)

lemma clo_empty [simp]: "clo p fl {} = {}"
  by (simp add: clo_def)

text \<open>More flags allow more steps.\<close>

lemma eps_mono:
  assumes "fl AND NOT fl' = 0" "eps p fl x y"
  shows "eps p fl' x y"
proof -
  have "a AND NOT fl' = 0" if a: "a AND NOT fl = 0" for a :: emptyOp
  proof (rule bit_word_eqI)
    fix n assume n: "n < LENGTH(8)"
    have "\<not> (bit a n \<and> \<not> bit fl n)" "\<not> (bit fl n \<and> \<not> bit fl' n)"
      using arg_cong [OF a, of "\<lambda>w. bit w n"] arg_cong [OF assms(1), of "\<lambda>w. bit w n"] n
      by (auto simp: bit_simps)
    then show "bit (a AND NOT fl') n = bit 0 n" using n by (auto simp: bit_simps)
  qed
  with assms(2) show ?thesis by (auto simp: eps_def eps_succ_def Let_def split: if_splits)
qed

lemma clo_mono_flags:
  assumes "fl AND NOT fl' = 0"
  shows "clo p fl' (clo p fl S) = clo p fl' S"
proof
  have "closed p fl (clo p fl' S)"
    using eps_mono [OF assms] clo_closed [of p fl' S] by (auto simp: closed_def)
  then have "clo p fl S \<subseteq> clo p fl' S" using clo_sub by (rule clo_least)
  with clo_closed show "clo p fl' (clo p fl S) \<subseteq> clo p fl' S" by (rule clo_least)
  show "clo p fl' S \<subseteq> clo p fl' (clo p fl S)" using clo_sub by (fastforce simp: clo_def)
qed

section \<open>Adding to a queue\<close>

definition qinv :: "prog \<Rightarrow> sset \<Rightarrow> bool" where
  "qinv p q \<longleftrightarrow> sset_inv q \<and> smax q = length (pInst p)"

definition addq_post :: "prog \<Rightarrow> emptyOp \<Rightarrow> u32 \<Rightarrow> sset \<Rightarrow> sset \<Rightarrow> bool" where
  "addq_post p fl i q q' \<longleftrightarrow> qinv p q' \<and> insert i (set (dense q)) \<subseteq> set (dense q') \<and>
     set (dense q') \<subseteq> set (dense q) \<union> clo p fl {i} \<and>
     (\<forall>x \<in> set (dense q') - set (dense q). \<forall>y. eps p fl x y \<longrightarrow> y \<in> set (dense q'))"

lemma qinv_length:
  assumes "qinv p q" shows "length (dense q) = card (set (dense q))" "length (dense q) \<le> length (pInst p)"
proof -
  have i: "sset_inv q" "smax q = length (pInst p)" using assms by (simp_all add: qinv_def)
  then show "length (dense q) \<le> length (pInst p)" using sset_inv_length [OF i(1)] by simp
  have "distinct (dense q)" using i(1) by (simp add: sset_inv_def)
  then show "length (dense q) = card (set (dense q))" by (simp add: distinct_card)
qed

text \<open>What the recursive calls contribute: the instruction's own place, then its successors.\<close>

lemma addq_postD:
  assumes "addq_post p fl i q q'"
  shows "qinv p q'" "i \<in> set (dense q')" "set (dense q) \<subseteq> set (dense q')"
    "set (dense q') \<subseteq> set (dense q) \<union> clo p fl {i}"
    "x \<in> set (dense q') \<Longrightarrow> x \<notin> set (dense q) \<Longrightarrow> eps p fl x y \<Longrightarrow> y \<in> set (dense q')"
  using assms by (auto simp only: addq_post_def insert_subset Diff_iff)

lemma addq_postI:
  assumes "qinv p q'" "i \<in> set (dense q')" "set (dense q) \<subseteq> set (dense q')"
    "set (dense q') \<subseteq> set (dense q) \<union> clo p fl {i}"
    "\<And>x y. x \<in> set (dense q') \<Longrightarrow> x \<notin> set (dense q) \<Longrightarrow> eps p fl x y \<Longrightarrow> y \<in> set (dense q')"
  shows "addq_post p fl i q q'"
  unfolding addq_post_def using assms(1-4) by (auto intro: assms(5))

lemma clo_step: "eps p fl i j \<Longrightarrow> clo p fl {j} \<subseteq> clo p fl {i}"
  by (rule clo_least [OF clo_closed]) (auto simp: clo_def)

lemma addq_post_one:
  assumes "addq_post p fl j q1 q'" "set (dense q1) = insert i (set (dense q))" "eps_succ p fl i = {j}"
    "unat i < length (pInst p)"
  shows "addq_post p fl i q q'"
proof (rule addq_postI)
  note d = addq_postD [OF assms(1)]
  have "eps p fl i j" using assms(3,4) by (simp add: eps_def)
  then have "clo p fl {j} \<subseteq> clo p fl {i}" by (rule clo_step)
  moreover have "i \<in> clo p fl {i}" using clo_sub [of "{i}"] by simp
  ultimately show "set (dense q') \<subseteq> set (dense q) \<union> clo p fl {i}" using d(4) assms(2) by auto
  show "qinv p q'" "i \<in> set (dense q')" "set (dense q) \<subseteq> set (dense q')" using d(1,3) assms(2) by simp_all
  show "y \<in> set (dense q')" if x: "x \<in> set (dense q')" "x \<notin> set (dense q)" "eps p fl x y" for x y
  proof (cases "x = i")
    case True
    then have "y = j" using x(3) assms(3) by (simp add: eps_def)
    then show ?thesis using d(2) by simp
  next
    case False
    then show ?thesis using d(5) [OF x(1) _ x(3)] x(2) assms(2) by simp
  qed
qed

lemma addq_post_two:
  assumes "addq_post p fl j q1 q2" "addq_post p fl k q2 q'" "set (dense q1) = insert i (set (dense q))"
    "eps_succ p fl i = {j, k}" "unat i < length (pInst p)"
  shows "addq_post p fl i q q'"
proof (rule addq_postI)
  note d = addq_postD [OF assms(1)] and e = addq_postD [OF assms(2)]
  have "eps p fl i j" "eps p fl i k" using assms(4,5) by (simp_all add: eps_def)
  then have "clo p fl {j} \<subseteq> clo p fl {i}" "clo p fl {k} \<subseteq> clo p fl {i}" by (intro clo_step; simp)+
  moreover have "i \<in> clo p fl {i}" using clo_sub [of "{i}"] by simp
  ultimately show "set (dense q') \<subseteq> set (dense q) \<union> clo p fl {i}" using d(4) e(4) assms(3) by auto
  show "qinv p q'" "i \<in> set (dense q')" "set (dense q) \<subseteq> set (dense q')"
    using d(3) e(1,3) assms(3) by auto
  show "y \<in> set (dense q')" if x: "x \<in> set (dense q')" "x \<notin> set (dense q)" "eps p fl x y" for x y
  proof (cases "x = i")
    case True
    then have "y = j \<or> y = k" using x(3) assms(4) by (simp add: eps_def)
    then show ?thesis using d(2) e(2,3) by auto
  next
    case False
    then have n: "x \<notin> set (dense q1)" using x(2) assms(3) by simp
    show ?thesis
    proof (cases "x \<in> set (dense q2)")
      case True
      then show ?thesis using d(5) [OF True n x(3)] e(3) by auto
    next
      case False
      then show ?thesis using e(5) [OF x(1) _ x(3)] by simp
    qed
  qed
qed

lemma addq_ok:
  assumes "prog_ok p"
  shows "qinv p q \<Longrightarrow> unat i < length (pInst p) \<Longrightarrow> \<exists>q'. addq p fl i q = Some (Inr q') \<and> addq_post p fl i q q'"
proof (induction "length (pInst p) - length (dense q)" arbitrary: q i rule: less_induct)
  case less
  have has: "Has q i = Inr (i \<in> set (dense q))"
    using Has_iff [of q i] less.prems by (simp add: qinv_def)
  show ?case
  proof (cases "i \<in> set (dense q)")
    case True
    then have "addq p fl i q = Some (Inr q)" using has by (subst addq.simps) simp
    then show ?thesis using True less.prems by (auto simp: addq_post_def)
  next
    case False
    obtain q1 where q1: "Add i q = Inr q1" "sset_inv q1" "smax q1 = smax q" "dense q1 = dense q @ [i]"
      using Add_ok [of q i] False less.prems by (auto simp: qinv_def)
    then have q1i: "qinv p q1" using less.prems(1) by (simp add: qinv_def)
    have dec: "length (pInst p) - length (dense q') < length (pInst p) - length (dense q)"
      if "qinv p q'" "set (dense q1) \<subseteq> set (dense q')" for q'
    proof -
      have "length (dense q1) \<le> length (dense q')"
        using that qinv_length(1) [OF q1i] qinv_length(1) [OF that(1)] by (simp add: card_mono)
      then show ?thesis using qinv_length(2) [OF that(1)] q1(4) by simp
    qed
    define ins where "ins = pInst p ! unat i"
    have gi: "getInst p i = Inr ins" using less.prems(2) by (simp add: getInst_def ins_def)
    have iok: "inst_ok p ins" using prog_inst_ok [OF assms less.prems(2)] by (simp add: ins_def)
    have set1: "set (dense q1) = insert i (set (dense q))" using q1(4) by simp
    have go: "\<exists>q'. addq p fl j q1 = Some (Inr q') \<and> addq_post p fl j q1 q'" if "unat j < length (pInst p)" for j
      using less.hyps [OF dec [OF q1i] q1i that] by simp
    consider (one) "iOp ins = InstCapture \<or> iOp ins = InstNop \<or>
        iOp ins = InstEmptyWidth \<and> (ucast (iArg ins) AND NOT fl :: emptyOp) = 0"
      | (two) "iOp ins = InstAlt \<or> iOp ins = InstAltMatch"
      | (none) "\<not> (iOp ins = InstCapture \<or> iOp ins = InstNop \<or> iOp ins = InstAlt \<or> iOp ins = InstAltMatch)"
        "\<not> (iOp ins = InstEmptyWidth \<and> (ucast (iArg ins) AND NOT fl :: emptyOp) = 0)" by blast
    then show ?thesis
    proof cases
      case one
      then have "unat (iOut ins) < length (pInst p)" using iok by (auto simp: inst_ok_def)
      then obtain q' where q': "addq p fl (iOut ins) q1 = Some (Inr q')" "addq_post p fl (iOut ins) q1 q'"
        using go by blast
      have "addq p fl i q = Some (Inr q')"
        using one q'(1) has False q1(1) gi by (subst addq.simps) auto
      moreover have "eps_succ p fl i = {iOut ins}" using one by (auto simp: eps_succ_def ins_def [symmetric])
      ultimately show ?thesis using addq_post_one [OF q'(2) set1 _ less.prems(2)] by blast
    next
      case two
      then have t: "unat (iOut ins) < length (pInst p)" "unat (iArg ins) < length (pInst p)"
        using iok by (auto simp: inst_ok_def)
      then obtain q2 where q2: "addq p fl (iOut ins) q1 = Some (Inr q2)" "addq_post p fl (iOut ins) q1 q2"
        using go by blast
      then have q2i: "qinv p q2" "set (dense q1) \<subseteq> set (dense q2)" by (auto simp: addq_post_def)
      from less.hyps [OF dec [OF q2i] q2i(1) t(2)] obtain q3 where
        q3: "addq p fl (iArg ins) q2 = Some (Inr q3)" "addq_post p fl (iArg ins) q2 q3" by blast
      have "addq p fl i q = Some (Inr q3)"
        using two q2(1) q3(1) has False q1(1) gi by (subst addq.simps) auto
      moreover have "eps_succ p fl i = {iOut ins, iArg ins}" using two by (auto simp: eps_succ_def ins_def [symmetric])
      ultimately show ?thesis using addq_post_two [OF q2(2) q3(2) set1 _ less.prems(2)] by blast
    next
      case none
      have "addq p fl i q = Some (Inr q1)"
        using none has False q1(1) gi by (subst addq.simps) auto
      moreover have "eps_succ p fl i = {}" using none by (auto simp: eps_succ_def ins_def [symmetric])
      then have "addq_post p fl i q q1"
        using q1i set1 clo_sub [of "{i}"] by (auto simp: addq_post_def eps_def)
      ultimately show ?thesis by blast
    qed
  qed
qed

lemma addq_closed:
  assumes "addq_post p fl i q q'" "closed p fl (set (dense q))"
  shows "closed p fl (set (dense q'))" "set (dense q') = set (dense q) \<union> clo p fl {i}"
proof -
  show c: "closed p fl (set (dense q'))" using assms unfolding addq_post_def closed_def by blast
  have "clo p fl {i} \<subseteq> set (dense q')"
    by (rule clo_least [OF c]) (use assms(1) in \<open>auto simp: addq_post_def\<close>)
  then show "set (dense q') = set (dense q) \<union> clo p fl {i}" using assms(1) by (auto simp: addq_post_def)
qed

lemma qinv_Reset: "prog_ok p \<Longrightarrow> qinv p q \<Longrightarrow> qinv p (Reset q) \<and> dense (Reset q) = []"
  by (simp add: qinv_def Reset_def sset_inv_def)

lemma addAllq_ok:
  assumes "prog_ok p"
  shows "qinv p q \<Longrightarrow> closed p fl (set (dense q)) \<Longrightarrow> valid_ids p (set is) \<Longrightarrow>
    \<exists>q'. addAllq p fl is q = Some (Inr q') \<and> qinv p q' \<and> set (dense q') = set (dense q) \<union> clo p fl (set is)"
proof (induction "is" arbitrary: q)
  case (Cons i "is")
  have "unat i < length (pInst p)" using Cons.prems(3) by (simp add: valid_ids_def)
  from addq_ok [OF assms Cons.prems(1) this] obtain q1 where
    q1: "addq p fl i q = Some (Inr q1)" "addq_post p fl i q q1" by blast
  have "qinv p q1" "valid_ids p (set is)" using q1(2) Cons.prems(3) by (simp_all add: addq_post_def valid_ids_def)
  from Cons.IH [OF this(1) addq_closed(1) [OF q1(2) Cons.prems(2)] this(2)] q1(1)
    addq_closed(2) [OF q1(2) Cons.prems(2)] show ?case
    using clo_Un [of p fl "{i}" "set is"] by auto
qed simp

lemma stepEmpty_ok:
  assumes "prog_ok p" "qinv p nextq" "valid_ids p (set (dense runq))"
  shows "\<exists>q'. stepEmpty p runq nextq fl = Some (Inr q') \<and> qinv p q' \<and>
    set (dense q') = clo p fl (set (dense runq))"
  using addAllq_ok [OF assms(1), of "Reset nextq" fl "dense runq"] assms(3) qinv_Reset [OF assms(1,2)]
  by (simp add: stepEmpty_def closed_def Dense_def)

text \<open>The instructions behind a byte, and whether there is a match.\<close>

definition outs :: "prog \<Rightarrow> u32 set \<Rightarrow> int \<Rightarrow> u32 set" where
  "outs p R c = {iOut (pInst p ! unat i) | i. i \<in> R \<and> iOp (pInst p ! unat i) = InstByteRange \<and>
     byteMatches (pInst p ! unat i) c}"

definition hasMatch :: "prog \<Rightarrow> u32 set \<Rightarrow> bool" where
  "hasMatch p R \<longleftrightarrow> (\<exists>i \<in> R. iOp (pInst p ! unat i) = InstMatch)"

lemma outs_valid: "prog_ok p \<Longrightarrow> valid_ids p R \<Longrightarrow> valid_ids p (outs p R c)"
proof -
  assume p: "prog_ok p" and r: "valid_ids p R"
  have "unat (iOut (pInst p ! unat i)) < length (pInst p)"
    if "i \<in> R" "iOp (pInst p ! unat i) = InstByteRange" for i
    using prog_inst_ok [OF p, of i] r that by (auto simp: valid_ids_def inst_ok_def)
  then show "valid_ids p (outs p R c)" by (auto simp: valid_ids_def outs_def)
qed

lemma stepIds_ok:
  assumes "prog_ok p"
  shows "qinv p q \<Longrightarrow> closed p fl (set (dense q)) \<Longrightarrow> valid_ids p (set is) \<Longrightarrow>
    \<exists>q'. stepIds p c fl is mat q = Some (Inr (mat \<or> hasMatch p (set is), q')) \<and> qinv p q' \<and>
      set (dense q') = set (dense q) \<union> clo p fl (outs p (set is) c)"
proof (induction "is" arbitrary: mat q)
  case Nil
  then show ?case by (simp add: hasMatch_def outs_def)
next
  case (Cons i "is")
  define ins where "ins = pInst p ! unat i"
  have i: "unat i < length (pInst p)" "valid_ids p (set is)" using Cons.prems(3) by (simp_all add: valid_ids_def)
  have gi: "getInst p i = Inr ins" using i(1) by (simp add: getInst_def ins_def)
  have iok: "inst_ok p ins" using prog_inst_ok [OF assms i(1)] by (simp add: ins_def)
  have hm: "hasMatch p (insert i (set is)) \<longleftrightarrow> iOp ins = InstMatch \<or> hasMatch p (set is)"
    by (auto simp: hasMatch_def ins_def)
  have ou: "outs p (insert i (set is)) c = (if iOp ins = InstByteRange \<and> byteMatches ins c then {iOut ins} else {}) \<union>
      outs p (set is) c"
    by (auto simp: outs_def ins_def)
  consider (m) "iOp ins = InstMatch" | (b) "iOp ins = InstByteRange" "byteMatches ins c"
    | (o) "iOp ins \<noteq> InstMatch" "\<not> (iOp ins = InstByteRange \<and> byteMatches ins c)" by blast
  then show ?case
  proof cases
    case m
    with Cons.IH [OF Cons.prems(1,2) i(2), of True] show ?thesis by (simp add: gi hm ou del: fun_upd_apply)
  next
    case b
    then have t: "unat (iOut ins) < length (pInst p)" using iok by (simp add: inst_ok_def)
    from addq_ok [OF assms Cons.prems(1) t] obtain q1 where
      q1: "addq p fl (iOut ins) q = Some (Inr q1)" "addq_post p fl (iOut ins) q q1" by blast
    have "qinv p q1" using q1(2) by (rule addq_postD)
    from Cons.IH [OF this addq_closed(1) [OF q1(2) Cons.prems(2)] i(2), of mat] obtain q' where
      q': "stepIds p c fl is mat q1 = Some (Inr (mat \<or> hasMatch p (set is), q'))" "qinv p q'"
        "set (dense q') = set (dense q1) \<union> clo p fl (outs p (set is) c)" by blast
    have "stepIds p c fl (i # is) mat q = Some (Inr (mat \<or> hasMatch p (set (i # is)), q'))"
      using b q1(1) q'(1) by (simp add: gi hm)
    moreover have "set (dense q') = set (dense q) \<union> clo p fl (outs p (set (i # is)) c)"
      using b q'(3) addq_closed(2) [OF q1(2) Cons.prems(2)] clo_Un [of p fl "{iOut ins}" "outs p (set is) c"]
      by (simp add: ou Un_assoc)
    ultimately show ?thesis using q'(2) by blast
  next
    case o
    with Cons.IH [OF Cons.prems(1,2) i(2), of mat] show ?thesis by (auto simp: gi hm ou)
  qed
qed

lemma stepByte_ok:
  assumes "prog_ok p" "qinv p nextq" "valid_ids p (set (dense runq))"
  shows "\<exists>q'. stepByte p runq nextq c fl = Some (Inr (hasMatch p (set (dense runq)), q')) \<and> qinv p q' \<and>
    set (dense q') = clo p fl (insert (pStart p) (outs p (set (dense runq)) c))"
proof -
  have r: "qinv p (Reset nextq)" "closed p fl (set (dense (Reset nextq)))" "dense (Reset nextq) = []"
    using qinv_Reset [OF assms(1,2)] by (simp_all add: closed_def)
  have "unat (pStart p) < length (pInst p)" using assms(1) by (simp add: prog_ok_def)
  from addq_ok [OF assms(1) r(1) this] obtain q1 where
    q1: "addq p fl (pStart p) (Reset nextq) = Some (Inr q1)" "addq_post p fl (pStart p) (Reset nextq) q1" by blast
  have "qinv p q1" using q1(2) by (rule addq_postD)
  from stepIds_ok [OF assms(1) this addq_closed(1) [OF q1(2) r(2)] assms(3), of c False] obtain q' where
    q': "stepIds p c fl (dense runq) False q1 = Some (Inr (False \<or> hasMatch p (set (dense runq)), q'))" "qinv p q'"
      "set (dense q') = set (dense q1) \<union> clo p fl (outs p (set (dense runq)) c)" by blast
  have "stepByte p runq nextq c fl = Some (Inr (hasMatch p (set (dense runq)), q'))"
    using q1(1) q'(1) by (simp add: stepByte_def Dense_def)
  moreover have "set (dense q') = clo p fl (insert (pStart p) (outs p (set (dense runq)) c))"
    using q'(3) addq_closed(2) [OF q1(2) r(2)] r(3) clo_Un [of p fl "{pStart p}" "outs p (set (dense runq)) c"]
    by simp
  ultimately show ?thesis using q'(2) by blast
qed

end
