(* ===== verification/Matcher_State.thy ===== *)
theory Matcher_State
  imports Matcher_Queue
begin

text \<open>
  States of the matcher and their encodings, and one step of the automaton.

  A state is a set of instructions with three flags; its encoding is a normal form, from which
  \<open>ndec\<close> recovers it.  \<open>semStep\<close> is the step of the automaton on sets, without scratch memory;
  \<open>computeStep\<close> computes it.
\<close>

unbundle bit_operations_syntax

section \<open>Encodings\<close>

definition encS :: "u32 \<Rightarrow> u32 set \<Rightarrow> gostr" where
  "encS F S = uvarint_enc 0 @ uvarint_enc (unat F) @ enc_ids (-1) (sorted_list_of_set S)"

lemma nenc_eq:
  assumes "qinv p (nq z)" "npartial z = 0"
  shows "nenc z = encS (nflag z) (set (dense (nq z)))"
proof -
  have "distinct (dense (nq z))" using assms(1) by (simp add: qinv_def sset_inv_def)
  then have "sort (dense (nq z)) = sorted_list_of_set (set (dense (nq z)))"
    by (metis sorted_list_of_set_sort_remdups distinct_remdups_id)
  then show ?thesis by (simp add: nenc_def encS_def Dense_def assms(2))
qed

lemma nub_acc_distinct: "distinct (seen @ xs) \<Longrightarrow> nub_acc seen xs = seen @ xs"
  by (induction seen xs rule: nub_acc.induct) auto

lemma dec_ids_enc: "dec_ids prev (enc_ids prev xs) q = rfold Add xs q"
proof (induction xs arbitrary: prev q)
  case Nil
  then show ?case by (simp add: dec_ids.simps)
next
  case (Cons x xs)
  have "unat (x - prev) < 2 ^ 64"
    using unsigned_less [of "x - prev"] by (rule less_trans) simp
  from uvarint_roundtrip [OF this] have
    "uvarint_dec (uvarint_enc (unat (x - prev)) @ enc_ids x xs) =
      (unat (x - prev), int (length (uvarint_enc (unat (x - prev)))))" .
  then show ?case using Cons.IH by (subst dec_ids.simps) (simp cong: rbind_cong)
qed

lemma rfold_Add_distinct:
  assumes "prog_ok p" "qinv p q" "valid_ids p (set xs)" "distinct xs"
  shows "\<exists>q'. rfold Add xs (Reset q) = Inr q' \<and> qinv p q' \<and> dense q' = xs"
proof -
  have "sset_inv q" "\<forall>x \<in> set xs. unat x < smax q"
    using assms(2,3) by (auto simp: qinv_def valid_ids_def)
  from sp.reset_add_all [OF this] obtain q' where
    "rfold Add xs (Reset q) = Inr q'" "sset_inv q'" "smax q' = smax q" "dense q' = nub_acc [] xs" by blast
  then show ?thesis using assms(2,4) nub_acc_distinct [of "[]" xs] by (simp add: qinv_def)
qed

lemma ndec_parts:
  assumes "unat F < 2 ^ 64"
  shows "ndec (uvarint_enc 0 @ uvarint_enc (unat (F :: u32)) @ enc_ids (-1) xs) z =
    rbind (rfold Add xs (Reset (nq z))) (\<lambda>q. Inr \<lparr>nq = q, npartial = 0, nflag = F\<rparr>)"
proof -
  let ?rest = "enc_ids (-1) xs"
  have d0: "uvarint_dec (uvarint_enc 0 @ uvarint_enc (unat F) @ ?rest) = (0, int (length (uvarint_enc 0)))"
    by (rule uvarint_roundtrip) simp
  have d1: "uvarint_dec (uvarint_enc (unat F) @ ?rest) = (unat F, int (length (uvarint_enc (unat F))))"
    by (rule uvarint_roundtrip [OF assms])
  have n: "drop (length (uvarint_enc 0) + length (uvarint_enc (unat F))) (uvarint_enc 0 @ uvarint_enc (unat F) @ ?rest) = ?rest"
    by simp
  have n0: "drop (length (uvarint_enc 0)) (uvarint_enc 0 @ uvarint_enc (unat F) @ ?rest) = uvarint_enc (unat F) @ ?rest"
    by simp
  have pos: "0 < length (uvarint_enc x)" for x by (simp del: length_greater_0_conv add: length_greater_0_conv)
  show ?thesis
    using pos [of 0] pos [of "unat F"]
    by (simp add: ndec_def d0 d1 n0 n dec_ids_enc not_le del: length_greater_0_conv drop_append)
qed

lemma ndec_encS:
  assumes "prog_ok p" "qinv p (nq z)" "valid_ids p S"
  shows "\<exists>z'. ndec (encS F S) z = Inr z' \<and> qinv p (nq z') \<and> set (dense (nq z')) = S \<and>
    dense (nq z') = sorted_list_of_set S \<and> nflag z' = F \<and> npartial z' = 0"
proof -
  have fin: "finite S" by simp
  then have "valid_ids p (set (sorted_list_of_set S))" using assms(3) by simp
  from rfold_Add_distinct [OF assms(1,2) this] obtain q' where
    "rfold Add (sorted_list_of_set S) (Reset (nq z)) = Inr q'" "qinv p q'" "dense q' = sorted_list_of_set S"
    by auto
  moreover have "unat F < 2 ^ 64" using unsigned_less [of F] by (rule less_trans) simp
  ultimately show ?thesis using ndec_parts [of F] fin by (simp add: encS_def)
qed

lemma encS_inj:
  assumes "prog_ok p" "valid_ids p S" "valid_ids p T" "encS F S = encS G T"
  shows "F = G" "S = T"
proof -
  have "length (pInst p) < 2 ^ 32" using assms(1) by (simp add: prog_ok_def)
  then have q: "qinv p (nq \<lparr>nq = \<lparr>dense = [], sparse = (\<lambda>_. 0), smax = length (pInst p)\<rparr>, npartial = 0, nflag = 0\<rparr>)"
    (is "qinv p (nq ?z)") by (simp add: qinv_def sset_inv_def)
  obtain z1 where z1: "ndec (encS F S) ?z = Inr z1" "set (dense (nq z1)) = S" "nflag z1 = F"
    using ndec_encS [OF assms(1) q assms(2)] by blast
  obtain z2 where z2: "ndec (encS G T) ?z = Inr z2" "set (dense (nq z2)) = T" "nflag z2 = G"
    using ndec_encS [OF assms(1) q assms(3)] by blast
  show "F = G" "S = T" using z1 z2 assms(4) by auto
qed

text \<open>
  A state is recovered from its encoding, whatever the scratch memory held: the flags and the
  set of instructions are the same, the instructions now in ascending order; so two states
  have the same encoding only if they are the same state.
\<close>

lemma state_encoding_roundtrip:
  assumes "prog_ok p" "qinv p (nq z)" "npartial z = 0" "qinv p (nq z0)"
  shows "\<exists>z'. ndec (nenc z) z0 = Inr z' \<and> nflag z' = nflag z \<and> npartial z' = 0 \<and>
    Dense (nq z') = sort (Dense (nq z)) \<and> nenc z' = nenc z"
proof -
  let ?S = "set (dense (nq z))"
  have "valid_ids p ?S"
    using assms(2) by (auto simp: valid_ids_def qinv_def sset_inv_def in_set_conv_nth)
  from ndec_encS [OF assms(1,4) this, of "nflag z"] obtain z' where
    z': "ndec (encS (nflag z) ?S) z0 = Inr z'" "qinv p (nq z')" "set (dense (nq z')) = ?S"
      "dense (nq z') = sorted_list_of_set ?S" "nflag z' = nflag z" "npartial z' = 0" by blast
  have "distinct (dense (nq z))" using assms(2) by (simp add: qinv_def sset_inv_def)
  then have "sort (dense (nq z)) = sorted_list_of_set ?S"
    by (metis sorted_list_of_set_sort_remdups distinct_remdups_id)
  then show ?thesis
    using z' nenc_eq [OF assms(2,3)] nenc_eq [OF z'(2,6)] by (auto simp: Dense_def)
qed

lemma state_encoding_roundtrip_witness:
  "\<exists>z'. ndec (nenc \<lparr>nq = \<lparr>dense = [2, 0], sparse = (\<lambda>_. 0)(0 := 1, 2 := 0), smax = 3\<rparr>, npartial = 0, nflag = 17\<rparr>)
     \<lparr>nq = \<lparr>dense = [1], sparse = (\<lambda>_. 0), smax = 3\<rparr>, npartial = 5, nflag = 1\<rparr> = Inr z' \<and>
     nflag z' = 17 \<and> npartial z' = 0 \<and> Dense (nq z') = [0, 2]"
proof -
  define p where "p = \<lparr>pInst = replicate 3 \<lparr>iOp = InstMatch, iOut = 0, iArg = 0\<rparr>, pStart = 0\<rparr>"
  have "prog_ok p" by (simp add: p_def prog_ok_def inst_ok_def numeral_3_eq_3)
  moreover have "qinv p \<lparr>dense = [2, 0], sparse = (\<lambda>_. 0)(0 := 1, 2 := 0), smax = 3\<rparr>"
    "qinv p \<lparr>dense = [1], sparse = (\<lambda>_. 0), smax = 3\<rparr>"
    by (auto simp: p_def qinv_def sset_inv_def less_Suc_eq)
  ultimately show ?thesis
    using state_encoding_roundtrip [of p
        "\<lparr>nq = \<lparr>dense = [2, 0], sparse = (\<lambda>_. 0)(0 := 1, 2 := 0), smax = 3\<rparr>, npartial = 0, nflag = 17\<rparr>"
        "\<lparr>nq = \<lparr>dense = [1], sparse = (\<lambda>_. 0), smax = 3\<rparr>, npartial = 5, nflag = 1\<rparr>"]
    by (auto simp: Dense_def)
qed

section \<open>One step of the automaton\<close>

definition semRun :: "prog \<Rightarrow> u32 \<Rightarrow> u32 set \<Rightarrow> int \<Rightarrow> u32 set" where
  "semRun p F S c = clo p (flagsBefore F c) S"

definition semMat :: "prog \<Rightarrow> u32 \<Rightarrow> u32 set \<Rightarrow> int \<Rightarrow> bool" where
  "semMat p F S c \<longleftrightarrow> hasMatch p (semRun p F S c)"

definition semNext :: "prog \<Rightarrow> u32 \<Rightarrow> u32 set \<Rightarrow> int \<Rightarrow> u32 set" where
  "semNext p F S c = clo p (if c = 10 then EmptyBeginLine else 0)
     (insert (pStart p) (outs p (semRun p F S c) c))"

lemma semRun_valid: "prog_ok p \<Longrightarrow> valid_ids p S \<Longrightarrow> valid_ids p (semRun p F S c)"
  by (simp add: semRun_def clo_valid)

lemma semNext_valid: "prog_ok p \<Longrightarrow> valid_ids p S \<Longrightarrow> valid_ids p (semNext p F S c)"
  unfolding semNext_def
  by (intro clo_valid) (use outs_valid [OF _ semRun_valid] in \<open>auto simp: valid_ids_def prog_ok_def\<close>)

text \<open>The scratch memory is usable.\<close>

definition scratch_ok :: "matcher \<Rightarrow> bool" where
  "scratch_ok m \<longleftrightarrow> qinv (mprog m) (nq (mz1 m)) \<and> qinv (mprog m) (nq (mz2 m)) \<and> npartial (mz1 m) = 0"

definition at_state :: "matcher \<Rightarrow> u32 \<Rightarrow> u32 set \<Rightarrow> bool" where
  "at_state m F S \<longleftrightarrow> nflag (mz1 m) = F \<and> npartial (mz1 m) = 0 \<and> set (dense (nq (mz1 m))) = S"

lemma at_state_enc: "scratch_ok m \<Longrightarrow> at_state m F S \<Longrightarrow> nenc (mz1 m) = encS F S"
  using nenc_eq [of "mprog m" "mz1 m"] by (simp add: scratch_ok_def at_state_def)

lemma computeStep_ok:
  assumes "prog_ok (mprog m)" "scratch_ok m" "valid_ids (mprog m) S"
  shows "\<exists>z1 z2. computeStep (encS F S) c m = Some (Inr (semMat (mprog m) F S c, m\<lparr>mz1 := z1, mz2 := z2\<rparr>)) \<and>
    scratch_ok (m\<lparr>mz1 := z1, mz2 := z2\<rparr>) \<and>
    at_state (m\<lparr>mz1 := z1, mz2 := z2\<rparr>) (flagsAfter c) (semNext (mprog m) F S c)"
proof -
  let ?p = "mprog m"
  have q: "qinv ?p (nq (mz1 m))" "qinv ?p (nq (mz2 m))" using assms(2) by (simp_all add: scratch_ok_def)
  from ndec_encS [OF assms(1) q(1) assms(3), of F] obtain z where z: "ndec (encS F S) (mz1 m) = Inr z"
    "qinv ?p (nq z)" "set (dense (nq z)) = S" "nflag z = F" "npartial z = 0" by blast
  from stepEmpty_ok [OF assms(1) q(2), of "nq z" "flagsBefore F c"] z(3) assms(3) obtain q2 where
    q2: "stepEmpty ?p (nq z) (nq (mz2 m)) (flagsBefore F c) = Some (Inr q2)" "qinv ?p q2"
      "set (dense q2) = semRun ?p F S c" by (auto simp: semRun_def)
  have "valid_ids ?p (set (dense q2))" using q2(3) semRun_valid [OF assms(1,3)] by simp
  from stepByte_ok [OF assms(1) z(2) this, of c "if c = 10 then EmptyBeginLine else 0"] obtain q1 where
    q1: "stepByte ?p q2 (nq z) c (if c = 10 then EmptyBeginLine else 0) = Some (Inr (semMat ?p F S c, q1))"
      "qinv ?p q1" "set (dense q1) = semNext ?p F S c" by (auto simp: semMat_def semNext_def q2(3))
  let ?m = "m\<lparr>mz1 := z\<lparr>nq := q1, nflag := flagsAfter c\<rparr>, mz2 := (mz2 m)\<lparr>nq := q2\<rparr>\<rparr>"
  have "computeStep (encS F S) c m = Some (Inr (semMat ?p F S c, ?m))"
    using z(1,4) q2(1) q1(1) by (simp add: computeStep_def)
  moreover have "scratch_ok ?m" using q1(2) q2(2) z(5) by (simp add: scratch_ok_def)
  moreover have "at_state ?m (flagsAfter c) (semNext ?p F S c)" using q1(3) z(5) by (simp add: at_state_def)
  ultimately show ?thesis by blast
qed

end
