(* ===== verification/Matcher_Correct.thy ===== *)
theory Matcher_Correct
  imports Matcher_State
begin

text \<open>
  The cache of the matcher: \<open>cacheState\<close> ends, since every recursive call adds a state and there are
  finitely many; and what the cache says of a state is what the automaton on sets does there.
  Then the start states: \<open>matcherInit\<close> ends in a matcher with \<open>matcher_ok\<close>, the invariant of a
  matcher between calls.
\<close>

unbundle bit_operations_syntax

section \<open>The cache\<close>

definition next_ok :: "matcher \<Rightarrow> u32 \<Rightarrow> u32 set \<Rightarrow> byte \<Rightarrow> dref \<Rightarrow> bool" where
  "next_ok m F S c r \<longleftrightarrow>
     (if c = 10 then r = mstartLine m \<and> \<not> semMat (mprog m) F S 10
      else if semMat (mprog m) F S (uint c) then r = DMatch
      else r = DRef (encS (flagsAfter (uint c)) (semNext (mprog m) F S (uint c))) \<and>
           encS (flagsAfter (uint c)) (semNext (mprog m) F S (uint c)) \<in> dom (mdstate m))"

text \<open>All states but those in \<open>P\<close>, which are still being made, are complete.\<close>

definition entry_ok :: "matcher \<Rightarrow> gostr set \<Rightarrow> u32 \<Rightarrow> u32 set \<Rightarrow> dstate \<Rightarrow> bool" where
  "entry_ok m P F S d \<longleftrightarrow>
     (encS F S \<notin> P \<longrightarrow> matchNL d = semMat (mprog m) F S 10 \<and> matchEOT d = semMat (mprog m) F S endText) \<and>
     (\<forall>c r. dnext d c = Some r \<longrightarrow> next_ok m F S c r)"

definition cache_ok :: "matcher \<Rightarrow> gostr set \<Rightarrow> bool" where
  "cache_ok m P \<longleftrightarrow> scratch_ok m \<and>
     (\<forall>F S d. valid_ids (mprog m) S \<and> mdstate m (encS F S) = Some d \<longrightarrow> entry_ok m P F S d)"

text \<open>What a call keeps.\<close>

definition keeps :: "matcher \<Rightarrow> matcher \<Rightarrow> bool" where
  "keeps m m' \<longleftrightarrow> mprog m' = mprog m \<and> mstart m' = mstart m \<and> mstartLine m' = mstartLine m \<and>
     (\<forall>e d. mdstate m e = Some d \<longrightarrow> mdstate m' e = Some d) \<and>
     (\<forall>e d. mdstate m e = None \<and> mdstate m' e = Some d \<longrightarrow> dnext d = (\<lambda>_. None))"

lemma keeps_refl [simp]: "keeps m m"
  by (auto simp: keeps_def)

lemma keeps_old: "keeps m m' \<Longrightarrow> mdstate m e = Some d \<Longrightarrow> mdstate m' e = Some d"
  by (simp add: keeps_def)

lemma keeps_same: "keeps m m' \<Longrightarrow> mprog m' = mprog m \<and> mstart m' = mstart m \<and> mstartLine m' = mstartLine m"
  by (simp add: keeps_def)

lemma keeps_new: "keeps m m' \<Longrightarrow> mdstate m e = None \<Longrightarrow> mdstate m' e = Some d \<Longrightarrow> dnext d = (\<lambda>_. None)"
  by (simp add: keeps_def)

lemma keeps_trans: 
  assumes "keeps m m'" "keeps m' m''"
  shows "keeps m m''"
proof -
  have "dnext d = (\<lambda>_. None)" if "mdstate m e = None" "mdstate m'' e = Some d" for e d
  proof (cases "mdstate m' e")
    case None
    then show ?thesis using keeps_new [OF assms(2)] that by blast
  next
    case (Some d')
    then have "d' = d" using assms(2) that by (auto simp: keeps_def)
    then show ?thesis using keeps_new [OF assms(1) that(1)] Some by blast
  qed
  then have "\<forall>e d. mdstate m e = None \<and> mdstate m'' e = Some d \<longrightarrow> dnext d = (\<lambda>_. None)" by blast
  then show ?thesis using assms by (simp add: keeps_def)
qed

lemma keeps_dom: "keeps m m' \<Longrightarrow> dom (mdstate m) \<subseteq> dom (mdstate m')"
  by (auto simp: keeps_def)

lemma next_ok_keeps: "keeps m m' \<Longrightarrow> next_ok m F S c r \<Longrightarrow> next_ok m' F S c r"
  using keeps_dom [of m m'] by (auto simp: next_ok_def keeps_def split: if_splits)

lemma scratch_cache:
  assumes "cache_ok m P" "scratch_ok (m\<lparr>mz1 := z1, mz2 := z2\<rparr>)"
  shows "cache_ok (m\<lparr>mz1 := z1, mz2 := z2\<rparr>) P"
proof -
  let ?m = "m\<lparr>mz1 := z1, mz2 := z2\<rparr>"
  have f: "mprog ?m = mprog m" "mdstate ?m = mdstate m" "mstartLine ?m = mstartLine m" by simp_all
  have "entry_ok ?m P F S d = entry_ok m P F S d" for F S d
    unfolding entry_ok_def next_ok_def f by (rule refl)
  then show ?thesis using assms unfolding cache_ok_def f by blast
qed

text \<open>The codes of states, of which there are finitely many.\<close>

definition all_codes :: "prog \<Rightarrow> gostr set" where
  "all_codes p = (\<lambda>(F, S). encS F S) ` {(F, S). valid_ids p S}"

lemma finite_codes: "finite (all_codes p)"
  unfolding all_codes_def by (rule finite_imageI) (rule finite)

definition missing :: "matcher \<Rightarrow> nat" where
  "missing m = card (all_codes (mprog m) - dom (mdstate m))"

lemma missing_mono: "keeps m m' \<Longrightarrow> missing m' \<le> missing m"
  unfolding missing_def using keeps_dom [of m m'] finite_codes
  by (intro card_mono) (auto simp: keeps_def)

lemma missing_less:
  assumes "valid_ids (mprog m) S" "mdstate m (encS F S) = None"
    "mprog m' = mprog m" "dom (mdstate m') = insert (encS F S) (dom (mdstate m))"
  shows "missing m' < missing m"
proof -
  have "encS F S \<in> all_codes (mprog m) - dom (mdstate m)"
    using assms(1,2) by (auto simp: all_codes_def)
  moreover have "all_codes (mprog m') - dom (mdstate m') = (all_codes (mprog m) - dom (mdstate m)) - {encS F S}"
    using assms(3,4) by auto
  moreover have "finite (all_codes (mprog m) - dom (mdstate m))" using finite_codes by simp
  ultimately show ?thesis unfolding missing_def by (metis card_Diff1_less)
qed

text \<open>Filling in a field of a state that is being made.\<close>

lemma setState_fields [simp]:
  "mprog (setState e f m) = mprog m" "mstart (setState e f m) = mstart m"
  "mstartLine (setState e f m) = mstartLine m" "mz1 (setState e f m) = mz1 m" "mz2 (setState e f m) = mz2 m"
  "dom (mdstate (setState e f m)) = dom (mdstate m)"
  by (auto simp: setState_def)

lemma setState_lookup: "mdstate (setState e f m) e' = (if e' = e then map_option f (mdstate m e) else mdstate m e')"
  by (simp add: setState_def)

lemma setState_scratch [simp]: "scratch_ok (setState e f m) = scratch_ok m"
  by (simp add: scratch_ok_def)

lemma setState_next_ok [simp]: "next_ok (setState e f m) F S c r = next_ok m F S c r"
  by (simp add: next_ok_def)

lemma cache_set_open:
  assumes "cache_ok m P" "encS F S \<in> P" "\<And>d. dnext (f d) = dnext d" "prog_ok (mprog m)" "valid_ids (mprog m) S"
  shows "cache_ok (setState (encS F S) f m) P"
proof -
  have "entry_ok (setState (encS F S) f m) P G T d"
    if d: "valid_ids (mprog m) T" "mdstate (setState (encS F S) f m) (encS G T) = Some d" for G T d
  proof (cases "encS G T = encS F S")
    case True
    with d obtain d0 where "mdstate m (encS G T) = Some d0" "d = f d0"
      by (auto simp: setState_lookup split: if_splits)
    with True assms(1-3) d(1) show ?thesis by (auto simp: cache_ok_def entry_ok_def)
  next
    case False
    with d assms(1) show ?thesis by (auto simp: cache_ok_def entry_ok_def setState_lookup)
  qed
  with assms(1) show ?thesis by (simp add: cache_ok_def)
qed

text \<open>The state is complete once both fields are right.\<close>

lemma cache_close:
  assumes "cache_ok m (insert (encS F S) P)" "prog_ok (mprog m)" "valid_ids (mprog m) S"
    and "\<And>d. mdstate m (encS F S) = Some d \<Longrightarrow>
      matchNL d = semMat (mprog m) F S 10 \<and> matchEOT d = semMat (mprog m) F S endText"
  shows "cache_ok m P"
proof -
  have "entry_ok m P G T d" if d: "valid_ids (mprog m) T" "mdstate m (encS G T) = Some d" for G T d
  proof (cases "encS G T = encS F S")
    case True
    with encS_inj [OF assms(2) d(1) assms(3)] have "G = F" "T = S" by blast+
    with assms(1,4) d show ?thesis by (auto simp: cache_ok_def entry_ok_def)
  next
    case False
    with d assms(1) show ?thesis by (auto simp: cache_ok_def entry_ok_def)
  qed
  with assms(1) show ?thesis by (simp add: cache_ok_def)
qed

definition caches :: "matcher \<Rightarrow> gostr set \<Rightarrow> u32 \<Rightarrow> u32 set \<Rightarrow> matcher \<Rightarrow> bool" where
  "caches m P F S m' \<longleftrightarrow> cacheState m = Some (Inr (DRef (encS F S), m')) \<and> cache_ok m' P \<and> keeps m m' \<and>
     encS F S \<in> dom (mdstate m')"

text \<open>A step and, unless it is a match, the cache of the state it leads to.\<close>

lemma step_then_cache:
  assumes "prog_ok (mprog m)" "cache_ok m P" "valid_ids (mprog m) S"
    and ih: "\<And>m1. mprog m1 = mprog m \<Longrightarrow> mdstate m1 = mdstate m \<Longrightarrow> cache_ok m1 P \<Longrightarrow>
      at_state m1 (flagsAfter c) (semNext (mprog m) F S c) \<Longrightarrow>
      \<exists>m2. caches m1 P (flagsAfter c) (semNext (mprog m) F S c) m2"
  shows "\<exists>m1 m2 d. computeStep (encS F S) c m = Some (Inr (semMat (mprog m) F S c, m1)) \<and>
    (if semMat (mprog m) F S c then Some (Inr (DMatch, m1)) else cacheState m1) = Some (Inr (d, m2)) \<and>
    d = (if semMat (mprog m) F S c then DMatch else DRef (encS (flagsAfter c) (semNext (mprog m) F S c))) \<and>
    cache_ok m2 P \<and> keeps m m2 \<and>
    (\<not> semMat (mprog m) F S c \<longrightarrow> encS (flagsAfter c) (semNext (mprog m) F S c) \<in> dom (mdstate m2))"
proof -
  have "scratch_ok m" using assms(2) by (simp add: cache_ok_def)
  from computeStep_ok [OF assms(1) this assms(3), of F c] obtain z1 z2 where
    s: "computeStep (encS F S) c m = Some (Inr (semMat (mprog m) F S c, m\<lparr>mz1 := z1, mz2 := z2\<rparr>))"
    "scratch_ok (m\<lparr>mz1 := z1, mz2 := z2\<rparr>)"
    "at_state (m\<lparr>mz1 := z1, mz2 := z2\<rparr>) (flagsAfter c) (semNext (mprog m) F S c)" by blast
  let ?m1 = "m\<lparr>mz1 := z1, mz2 := z2\<rparr>"
  have c1: "cache_ok ?m1 P" by (rule scratch_cache [OF assms(2) s(2)])
  have k1: "keeps m ?m1" by (auto simp: keeps_def)
  show ?thesis
  proof (cases "semMat (mprog m) F S c")
    case True
    with s(1) c1 k1 show ?thesis by auto
  next
    case False
    from ih [OF _ _ c1 s(3)] obtain m2 where "caches ?m1 P (flagsAfter c) (semNext (mprog m) F S c) m2"
      by auto
    with False s(1) keeps_trans [OF k1, of m2] show ?thesis by (auto simp: caches_def)
  qed
qed

lemma cache_open:
  assumes "cache_ok m P" "mdstate m e = None"
  shows "cache_ok (m\<lparr>mdstate := (mdstate m)(e \<mapsto> \<lparr>dnext = (\<lambda>_. None), matchNL = False, matchEOT = False\<rparr>)\<rparr>) (insert e P)"
    (is "cache_ok ?m _")
proof -
  have k: "keeps m ?m" using assms(2) by (auto simp: keeps_def)
  have "entry_ok ?m (insert e P) G T d" if d: "valid_ids (mprog m) T" "mdstate ?m (encS G T) = Some d" for G T d
  proof (cases "encS G T = e")
    case True
    with d have "dnext d = (\<lambda>_. None)" by auto
    with True show ?thesis by (simp add: entry_ok_def)
  next
    case False
    with d assms(1) have "entry_ok m P G T d" by (simp add: cache_ok_def)
    with False next_ok_keeps [OF k] show ?thesis by (auto simp: entry_ok_def)
  qed
  moreover have "scratch_ok ?m" using assms(1) by (simp add: cache_ok_def scratch_ok_def)
  ultimately show ?thesis by (simp add: cache_ok_def)
qed

lemma cacheState_ok:
  "prog_ok (mprog m) \<Longrightarrow> cache_ok m P \<Longrightarrow> valid_ids (mprog m) S \<Longrightarrow> at_state m F S \<Longrightarrow> \<exists>m'. caches m P F S m'"
proof (induction "missing m" arbitrary: m P F S rule: less_induct)
  case less
  define e where "e = encS F S"
  have enc: "nenc (mz1 m) = e"
    using at_state_enc less.prems(2,4) by (simp add: cache_ok_def e_def)
  show ?case
  proof (cases "mdstate m e = None")
    case False
    then have "cacheState m = Some (Inr (DRef e, m))" using enc by (subst cacheState.simps) (simp add: Let_def)
    with False less.prems(2) have "caches m P F S m" by (auto simp: caches_def e_def [symmetric])
    then show ?thesis by blast
  next
    case True
    define d0 where "d0 = \<lparr>dnext = (\<lambda>_. None), matchNL = False, matchEOT = False\<rparr>"
    define m0 where "m0 = m\<lparr>mdstate := (mdstate m)(e \<mapsto> d0)\<rparr>"
    have m0: "mprog m0 = mprog m" "mdstate m0 e = Some d0" "keeps m m0"
      using True by (auto simp: m0_def d0_def keeps_def)
    have c0: "cache_ok m0 (insert e P)"
      using cache_open [OF less.prems(2) True] by (simp add: m0_def d0_def)
    have dec: "missing m0 < missing m"
      by (rule missing_less [OF less.prems(3), of F]) (use True in \<open>auto simp: m0_def e_def\<close>)
    have go: "\<exists>m2. caches m1 Q (flagsAfter c) (semNext (mprog m) F S c) m2"
      if "mprog m1 = mprog m" "missing m1 \<le> missing m0" "cache_ok m1 Q"
        "at_state m1 (flagsAfter c) (semNext (mprog m) F S c)" for m1 Q c
      using less.hyps [of m1 Q "semNext (mprog m) F S c" "flagsAfter c"] that dec less.prems(1,3)
        semNext_valid by simp
    have "\<exists>m1 m2 d. computeStep (encS F S) 10 m0 = Some (Inr (semMat (mprog m0) F S 10, m1)) \<and>
      (if semMat (mprog m0) F S 10 then Some (Inr (DMatch, m1)) else cacheState m1) = Some (Inr (d, m2)) \<and>
      d = (if semMat (mprog m0) F S 10 then DMatch else DRef (encS (flagsAfter 10) (semNext (mprog m0) F S 10))) \<and>
      cache_ok m2 (insert e P) \<and> keeps m0 m2 \<and>
      (\<not> semMat (mprog m0) F S 10 \<longrightarrow> encS (flagsAfter 10) (semNext (mprog m0) F S 10) \<in> dom (mdstate m2))"
    proof (rule step_then_cache)
      fix m1 assume m1: "mprog m1 = mprog m0" "mdstate m1 = mdstate m0" "cache_ok m1 (insert e P)"
        "at_state m1 (flagsAfter 10) (semNext (mprog m0) F S 10)"
      then show "\<exists>m2. caches m1 (insert e P) (flagsAfter 10) (semNext (mprog m0) F S 10) m2"
        using go [of m1 "insert e P" 10] m0(1) by (simp add: missing_def)
    qed (use less.prems c0 m0(1) in simp_all)
    then obtain m1 m2 d1 where nl: "computeStep e 10 m0 = Some (Inr (semMat (mprog m) F S 10, m1))"
      "(if semMat (mprog m) F S 10 then Some (Inr (DMatch, m1)) else cacheState m1) = Some (Inr (d1, m2))"
      "d1 = DMatch \<longleftrightarrow> semMat (mprog m) F S 10" "cache_ok m2 (insert e P)" "keeps m0 m2"
      unfolding m0(1) e_def by (auto split: if_splits)
    define m2' where "m2' = setState e (matchNL_update (\<lambda>_. d1 = DMatch)) m2"
    have p2: "mprog m2 = mprog m" "mdstate m2 e = Some d0" using nl(5) m0(1,2) by (auto simp: keeps_def)
    have c2: "cache_ok m2' (insert e P)"
      unfolding m2'_def e_def by (rule cache_set_open) (use nl(4) p2(1) less.prems in \<open>simp_all add: e_def\<close>)
    have l2: "mdstate m2' e = Some (d0\<lparr>matchNL := d1 = DMatch\<rparr>)" using p2(2) by (simp add: m2'_def setState_lookup)
    have miss2: "missing m2' \<le> missing m0"
      using missing_mono [OF nl(5)] by (simp add: m2'_def missing_def)
    have "\<exists>m3 m4 d. computeStep (encS F S) endText m2' = Some (Inr (semMat (mprog m2') F S endText, m3)) \<and>
      (if semMat (mprog m2') F S endText then Some (Inr (DMatch, m3)) else cacheState m3) = Some (Inr (d, m4)) \<and>
      d = (if semMat (mprog m2') F S endText then DMatch
           else DRef (encS (flagsAfter endText) (semNext (mprog m2') F S endText))) \<and>
      cache_ok m4 (insert e P) \<and> keeps m2' m4 \<and>
      (\<not> semMat (mprog m2') F S endText \<longrightarrow>
         encS (flagsAfter endText) (semNext (mprog m2') F S endText) \<in> dom (mdstate m4))"
    proof (rule step_then_cache)
      fix m3 assume m3: "mprog m3 = mprog m2'" "mdstate m3 = mdstate m2'" "cache_ok m3 (insert e P)"
        "at_state m3 (flagsAfter endText) (semNext (mprog m2') F S endText)"
      then show "\<exists>m4. caches m3 (insert e P) (flagsAfter endText) (semNext (mprog m2') F S endText) m4"
        using go [of m3 "insert e P" endText] p2(1) miss2 by (simp add: m2'_def missing_def)
    qed (use less.prems c2 p2(1) in \<open>simp_all add: m2'_def\<close>)
    then obtain m3 m4 d2 where et: "computeStep e endText m2' = Some (Inr (semMat (mprog m) F S endText, m3))"
      "(if semMat (mprog m) F S endText then Some (Inr (DMatch, m3)) else cacheState m3) = Some (Inr (d2, m4))"
      "d2 = DMatch \<longleftrightarrow> semMat (mprog m) F S endText" "cache_ok m4 (insert e P)" "keeps m2' m4"
      using p2(1) unfolding e_def by (auto simp: m2'_def split: if_splits)
    define m5 where "m5 = setState e (matchEOT_update (\<lambda>_. d2 = DMatch)) m4"
    have p4: "mprog m4 = mprog m" "mdstate m4 e = Some (d0\<lparr>matchNL := d1 = DMatch\<rparr>)"
      using et(5) p2(1) l2 by (auto simp: keeps_def m2'_def)
    have c5: "cache_ok m5 (insert e P)"
      unfolding m5_def e_def by (rule cache_set_open) (use et(4) p4(1) less.prems in \<open>simp_all add: e_def\<close>)
    have c5': "cache_ok m5 P"
      by (rule cache_close [OF c5 [unfolded e_def]])
        (use less.prems p4 nl(3) et(3) in \<open>auto simp: m5_def setState_lookup e_def [symmetric]\<close>)
    have "cacheState m = Some (Inr (DRef e, m5))"
      using True nl(1,2) et(1,2) enc
      by (subst cacheState.simps)
        (simp add: Let_def d0_def [symmetric] m0_def [symmetric] m2'_def [symmetric] m5_def [symmetric])
    moreover have "keeps m m5"
    proof -
      have "mdstate m5 e' = Some d" if "mdstate m e' = Some d" for e' d
      proof -
        have "e' \<noteq> e" using that True by auto
        moreover from this have "mdstate m0 e' = Some d" using that by (simp add: m0_def)
        then have "mdstate m2 e' = Some d" using keeps_old [OF nl(5)] by blast
        ultimately have "mdstate m2' e' = Some d" by (simp add: m2'_def setState_lookup)
        then have "mdstate m4 e' = Some d" using keeps_old [OF et(5)] by blast
        then show ?thesis using \<open>e' \<noteq> e\<close> by (simp add: m5_def setState_lookup)
      qed
      moreover have "dnext d = (\<lambda>_. None)" if n: "mdstate m e' = None" "mdstate m5 e' = Some d" for e' d
      proof (cases "e' = e")
        case True
        then show ?thesis using n(2) p4(2) by (auto simp: m5_def setState_lookup d0_def)
      next
        case False
        then have n4: "mdstate m0 e' = None" "mdstate m4 e' = Some d"
          using n by (simp_all add: m0_def m5_def setState_lookup)
        show ?thesis
        proof (cases "mdstate m2' e'")
          case None
          then show ?thesis using keeps_new [OF et(5)] n4(2) by blast
        next
          case (Some d')
          then have "d' = d" using et(5) n4(2) by (auto simp: keeps_def)
          then show ?thesis using keeps_new [OF nl(5) n4(1)] Some False by (simp add: m2'_def setState_lookup)
        qed
      qed
      moreover have "mprog m5 = mprog m" "mstart m5 = mstart m" "mstartLine m5 = mstartLine m"
        using m0(3) nl(5) et(5) by (auto simp: m5_def m2'_def keeps_def)
      ultimately show ?thesis unfolding keeps_def by blast
    qed
    moreover have "e \<in> dom (mdstate m5)" using p4(2) by (auto simp: m5_def)
    ultimately have "caches m P F S m5" using c5' by (simp add: caches_def e_def [symmetric])
    then show ?thesis by blast
  qed
qed

section \<open>The two start states\<close>

definition refs :: "matcher \<Rightarrow> dref \<Rightarrow> u32 \<Rightarrow> u32 set \<Rightarrow> bool" where
  "refs m d F S \<longleftrightarrow> d = DRef (encS F S) \<and> encS F S \<in> dom (mdstate m) \<and> valid_ids (mprog m) S"

definition startSet :: "prog \<Rightarrow> emptyOp \<Rightarrow> u32 set" where
  "startSet p fl = clo p fl {pStart p}"

definition matcher_ok :: "prog \<Rightarrow> matcher \<Rightarrow> bool" where
  "matcher_ok p m \<longleftrightarrow> mprog m = p \<and> cache_ok m {} \<and>
     refs m (mstart m) (flagBOL OR flagBOT) (startSet p (EmptyBeginLine OR EmptyBeginText)) \<and>
     refs m (mstartLine m) flagBOL (startSet p EmptyBeginLine)"

lemma startSet_valid: "prog_ok p \<Longrightarrow> valid_ids p (startSet p fl)"
  unfolding startSet_def by (rule clo_valid) (auto simp: prog_ok_def valid_ids_def)

text \<open>A start state: the start instruction is added to an empty queue, and the state is cached.\<close>

lemma start_cached:
  assumes "prog_ok (mprog m)" "cache_ok m {}" "qinv (mprog m) q" "dense q = []" "npartial z = 0"
  shows "\<exists>q' m'. addq (mprog m) fl (pStart (mprog m)) q = Some (Inr q') \<and>
    cacheState (m\<lparr>mz1 := z\<lparr>nq := q', nflag := F\<rparr>\<rparr>) = Some (Inr (DRef (encS F (startSet (mprog m) fl)), m')) \<and>
    cache_ok m' {} \<and> keeps (m\<lparr>mz1 := z\<lparr>nq := q', nflag := F\<rparr>\<rparr>) m' \<and>
    refs m' (DRef (encS F (startSet (mprog m) fl))) F (startSet (mprog m) fl)"
proof -
  let ?p = "mprog m"
  have "unat (pStart ?p) < length (pInst ?p)" using assms(1) by (simp add: prog_ok_def)
  from addq_ok [OF assms(1,3) this] obtain q' where
    q': "addq ?p fl (pStart ?p) q = Some (Inr q')" "addq_post ?p fl (pStart ?p) q q'" by blast
  have cl: "closed ?p fl (set (dense q))" by (simp add: assms(4) closed_def)
  have S: "set (dense q') = startSet ?p fl"
    using addq_closed(2) [OF q'(2) cl] assms(4) by (simp add: startSet_def)
  let ?m = "m\<lparr>mz1 := z\<lparr>nq := q', nflag := F\<rparr>\<rparr>"
  have "scratch_ok ?m"
    using addq_postD(1) [OF q'(2)] assms(2,5) by (simp add: scratch_ok_def cache_ok_def)
  then have c: "cache_ok ?m {}"
    using scratch_cache [OF assms(2), of "mz2 m" "z\<lparr>nq := q', nflag := F\<rparr>"] by simp
  have "at_state ?m F (startSet ?p fl)" using S assms(5) by (simp add: at_state_def)
  from cacheState_ok [OF _ c _ this] obtain m' where "caches ?m {} F (startSet ?p fl) m'"
    using assms(1) startSet_valid [OF assms(1)] by auto
  then show ?thesis using q'(1) startSet_valid [OF assms(1)]
    by (auto simp: caches_def refs_def keeps_def)
qed

text \<open>Setting the start states while no transition is recorded.\<close>

lemma cache_ok_setStart:
  assumes "cache_ok m P" "\<forall>e d. mdstate m e = Some d \<longrightarrow> dnext d = (\<lambda>_. None)"
  shows "cache_ok (m\<lparr>mstart := a, mstartLine := b\<rparr>) P"
proof -
  have "entry_ok (m\<lparr>mstart := a, mstartLine := b\<rparr>) P F S d"
    if "mdstate m (encS F S) = Some d" "valid_ids (mprog m) S" for F S d
    using assms that by (auto simp: cache_ok_def entry_ok_def)
  then show ?thesis using assms(1) by (simp add: cache_ok_def scratch_ok_def)
qed

lemma matcherInit_ok:
  assumes "prog_ok p"
  shows "\<exists>m. matcherInit p = Some (Inr m) \<and> matcher_ok p m"
proof -
  define q0 where "q0 = Init (of_nat (length (pInst p)) :: u32) \<lparr>dense = [], sparse = (\<lambda>_. 0), smax = 0\<rparr>"
  define z where "z = \<lparr>nq = q0, npartial = 0, nflag = 0\<rparr>"
  define m where "m = \<lparr>mprog = p, mdstate = (\<lambda>_. None :: dstate option), mstart = DMatch, mstartLine = DMatch, mz1 = z, mz2 = z\<rparr>"
  have len: "unat (of_nat (length (pInst p)) :: u32) = length (pInst p)"
    using assms by (simp add: prog_ok_def unat_of_nat take_bit_nat_eq_self)
  have q0: "qinv p q0" "dense q0 = []"
    using assms by (simp_all add: qinv_def q0_def Init_def sset_inv_def len prog_ok_def)
  have m: "mprog m = p" "npartial z = 0" by (simp_all add: m_def z_def)
  have c: "cache_ok m {}" using q0 by (simp add: cache_ok_def scratch_ok_def m_def z_def)
  have "prog_ok (mprog m)" "qinv (mprog m) q0" using assms m(1) q0(1) by simp_all
  from start_cached [OF this(1) c this(2) q0(2) m(2), of "EmptyBeginLine OR EmptyBeginText" "flagBOL OR flagBOT"]
  obtain q d m1 where s: "addq p (EmptyBeginLine OR EmptyBeginText) (pStart p) q0 = Some (Inr q)"
      "cacheState (m\<lparr>mz1 := z\<lparr>nq := q, nflag := flagBOL OR flagBOT\<rparr>\<rparr>) = Some (Inr (d, m1))"
      "cache_ok m1 {}" "keeps (m\<lparr>mz1 := z\<lparr>nq := q, nflag := flagBOL OR flagBOT\<rparr>\<rparr>) m1"
      "refs m1 d (flagBOL OR flagBOT) (startSet p (EmptyBeginLine OR EmptyBeginText))"
    by (auto simp: m(1))
  have m1: "mprog m1 = p" using s(4) m(1) by (simp add: keeps_def)
  have "qinv p (nq (mz1 m1))" using s(3) m1 by (simp add: cache_ok_def scratch_ok_def)
  then have r: "qinv p (Reset (nq (mz1 m1)))" "dense (Reset (nq (mz1 m1))) = []"
    using qinv_Reset [OF assms] by blast+
  have "prog_ok (mprog m1)" "qinv (mprog m1) (Reset (nq (mz1 m1)))" using assms m1 r(1) by simp_all
  moreover have "npartial (mz1 m1) = 0" using s(3) by (simp add: cache_ok_def scratch_ok_def)
  ultimately obtain q' d' m2 where t: "addq p EmptyBeginLine (pStart p) (Reset (nq (mz1 m1))) = Some (Inr q')"
      "cacheState (m1\<lparr>mz1 := (mz1 m1)\<lparr>nq := q', nflag := flagBOL\<rparr>\<rparr>) = Some (Inr (d', m2))"
      "cache_ok m2 {}" "keeps (m1\<lparr>mz1 := (mz1 m1)\<lparr>nq := q', nflag := flagBOL\<rparr>\<rparr>) m2"
      "refs m2 d' flagBOL (startSet p EmptyBeginLine)"
    using start_cached [OF _ s(3) _ r(2), of "mz1 m1" EmptyBeginLine flagBOL] by (auto simp: m1)
  have new: "dnext e = (\<lambda>_. None)" if "mdstate m2 x = Some e" for x e
  proof (cases "mdstate m1 x")
    case None
    then show ?thesis using keeps_new [OF t(4), of x e] that by simp
  next
    case (Some e')
    then have "e' = e" using keeps_old [OF t(4), of x e'] that by simp
    moreover have "mdstate m x = None" by (simp add: m_def)
    ultimately show ?thesis using keeps_new [OF s(4), of x e] Some by simp
  qed
  let ?m = "m2\<lparr>mstart := d, mstartLine := d'\<rparr>"
  have "cache_ok ?m {}" by (rule cache_ok_setStart [OF t(3)]) (use new in blast)
  moreover have "mprog m2 = p" using keeps_same [OF t(4)] m1 by simp
  moreover have "refs ?m d (flagBOL OR flagBOT) (startSet p (EmptyBeginLine OR EmptyBeginText))"
    using s(5) keeps_dom [OF t(4)] m1 \<open>mprog m2 = p\<close> by (auto simp: refs_def)
  moreover have "refs ?m d' flagBOL (startSet p EmptyBeginLine)" using t(5) by (simp add: refs_def)
  ultimately have "matcher_ok p ?m" by (simp add: matcher_ok_def)
  moreover have "matcherInit p = Some (Inr ?m)"
    unfolding matcherInit_def Let_def q0_def [symmetric] z_def [symmetric] m_def [symmetric]
    by (simp add: s(1,2) t(1,2))
  ultimately show ?thesis by blast
qed

end
