(* ===== verification/Matcher_Lines.thy ===== *)
theory Matcher_Lines
  imports Matcher_Correct
begin

text \<open>
  Matching of lines.

  \<open>reaches\<close> is the simulation of the program on one line, an inductive relation between
  positions and instructions with the flags of the position; a line matches if an
  \<open>InstMatch\<close> is reached anywhere.  The property is that \<open>matchBytes\<close>, whatever the cache holds from
  earlier calls, returns the end of the first matching line.
\<close>

unbundle bit_operations_syntax

section \<open>The automaton without a cache\<close>

type_synonym astate = "(u32 \<times> u32 set) option"

definition aMat :: "prog \<Rightarrow> int \<Rightarrow> astate \<Rightarrow> bool" where
  "aMat p c r = (case r of None \<Rightarrow> True | Some (F, S) \<Rightarrow> semMat p F S c)"

definition aNext :: "prog \<Rightarrow> byte \<Rightarrow> astate \<Rightarrow> astate" where
  "aNext p c r = (case r of None \<Rightarrow> None | Some (F, S) \<Rightarrow>
     if semMat p F S (uint c) then None else Some (flagsAfter (uint c), semNext p F S (uint c)))"

definition aStart :: "prog \<Rightarrow> bool \<Rightarrow> astate" where
  "aStart p bt = (if bt then Some (flagBOL OR flagBOT, startSet p (EmptyBeginLine OR EmptyBeginText))
                  else Some (flagBOL, startSet p EmptyBeginLine))"

fun aLoop :: "prog \<Rightarrow> astate \<Rightarrow> nat \<Rightarrow> byte list \<Rightarrow> nat option \<times> astate" where
  "aLoop p r i [] = (None, r)"
| "aLoop p r i (c # b) =
     (if c = 10 then (if aMat p 10 r then (Some i, r) else aLoop p (aStart p False) (i + 1) b)
      else aLoop p (aNext p c r) (i + 1) b)"

definition arefs :: "matcher \<Rightarrow> dref \<Rightarrow> astate \<Rightarrow> bool" where
  "arefs m d r = (case r of None \<Rightarrow> d = DMatch | Some (F, S) \<Rightarrow> refs m d F S)"

lemma refs_keeps: "keeps m m' \<Longrightarrow> refs m d F S \<Longrightarrow> refs m' d F S"
  using keeps_dom [of m m'] keeps_same [of m m'] by (auto simp: refs_def)

lemma matcher_ok_keeps: "matcher_ok p m \<Longrightarrow> keeps m m' \<Longrightarrow> cache_ok m' {} \<Longrightarrow> matcher_ok p m'"
  using keeps_same [of m m'] refs_keeps [of m m'] by (simp add: matcher_ok_def)

lemma matcher_ok_start: "matcher_ok p m \<Longrightarrow> arefs m (if bt then mstart m else mstartLine m) (aStart p bt)"
  by (simp add: matcher_ok_def arefs_def aStart_def)

lemma refs_lookup:
  assumes "cache_ok m {}" "refs m d F S"
  shows "\<exists>s. mdstate m (encS F S) = Some s \<and> dderef d m = s \<and> entry_ok m {} F S s"
  using assms by (auto simp: refs_def dderef_def cache_ok_def)

lemma arefs_mat:
  assumes "cache_ok m {}" "arefs m d r"
  shows "matchNL (dderef d m) = aMat (mprog m) 10 r" "matchEOT (dderef d m) = aMat (mprog m) endText r"
  using assms refs_lookup [of m d]
  by (auto simp: arefs_def aMat_def entry_ok_def split: option.splits) (auto simp: dderef_def)

lemma arefs_next:
  assumes "cache_ok m {}" "arefs m d r" "dnext (dderef d m) c = Some d1" "prog_ok (mprog m)"
  shows "if c = 10 then d1 = mstartLine m \<and> \<not> aMat (mprog m) 10 r else arefs m d1 (aNext (mprog m) c r)"
proof (cases r)
  case None
  then show ?thesis using assms by (auto simp: arefs_def dderef_def aNext_def split: if_splits)
next
  case (Some FS)
  obtain F S where FS: "FS = (F, S)" by (cases FS)
  have rf: "refs m d F S" using assms(2) Some FS by (simp add: arefs_def)
  then have "next_ok m F S c d1" using refs_lookup [OF assms(1)] assms(3) by (auto simp: entry_ok_def)
  then show ?thesis using Some FS semNext_valid [OF assms(4)] rf
    by (auto simp: next_ok_def arefs_def aNext_def aMat_def refs_def split: if_splits)
qed

text \<open>Recording a transition.\<close>

lemma setNext_ok:
  assumes "matcher_ok p m" "prog_ok p" "refs m d F S" "next_ok m F S c d1"
  shows "matcher_ok p (setNext d c d1 m)" "arefs m d' r \<Longrightarrow> arefs (setNext d c d1 m) d' r"
proof -
  let ?m = "setNext d c d1 m"
  have mp: "mprog m = p" "cache_ok m {}" using assms(1) by (simp_all add: matcher_ok_def)
  have d: "d = DRef (encS F S)" "valid_ids p S" using assms(3) mp(1) by (simp_all add: refs_def)
  have f: "mprog ?m = mprog m" "mstart ?m = mstart m" "mstartLine ?m = mstartLine m"
    "dom (mdstate ?m) = dom (mdstate m)" "scratch_ok ?m = scratch_ok m"
    by (simp_all add: setNext_def d(1))
  have n: "next_ok ?m G T x y = next_ok m G T x y" for G T x y by (simp add: next_ok_def f)
  have "entry_ok ?m {} G T e" if e: "valid_ids p T" "mdstate ?m (encS G T) = Some e" for G T e
  proof (cases "encS G T = encS F S")
    case True
    with encS_inj [OF assms(2) e(1) d(2)] have GT: "G = F" "T = S" by blast+
    obtain e0 where e0: "mdstate m (encS F S) = Some e0" "e = e0\<lparr>dnext := (dnext e0)(c \<mapsto> d1)\<rparr>"
      using e(2) by (auto simp: setNext_def d(1) GT setState_lookup)
    have "entry_ok m {} F S e0" using mp d(2) e0(1) by (simp add: cache_ok_def)
    then show ?thesis using assms(4) by (auto simp: entry_ok_def e0(2) GT n f)
  next
    case False
    then have "entry_ok m {} G T e"
      using mp e by (simp add: cache_ok_def setNext_def d(1) setState_lookup)
    then show ?thesis by (simp add: entry_ok_def n f)
  qed
  then have "cache_ok ?m {}" using mp by (simp add: cache_ok_def f)
  moreover have rf: "refs ?m x G T = refs m x G T" for x G T by (simp add: refs_def f)
  ultimately show "matcher_ok p ?m" using assms(1) by (simp add: matcher_ok_def f)
  show "arefs m d' r \<Longrightarrow> arefs ?m d' r" by (simp add: arefs_def rf split: option.splits prod.splits)
qed

lemma computeNext_ok:
  assumes "matcher_ok p m" "prog_ok p" "refs m (DRef e) F S" "c \<noteq> 10"
  shows "\<exists>d1 m1. computeNext e (uint c) m = Some (Inr (d1, m1)) \<and> matcher_ok p m1 \<and>
    arefs m1 d1 (aNext p c (Some (F, S))) \<and> next_ok m1 F S c d1 \<and> refs m1 (DRef e) F S"
proof -
  have mp: "mprog m = p" "cache_ok m {}" using assms(1) by (simp_all add: matcher_ok_def)
  have e: "e = encS F S" "valid_ids p S" using assms(3) mp(1) by (simp_all add: refs_def)
  have sv: "valid_ids p (semNext p F S (uint c))" using semNext_valid assms(2) e(2) by blast
  have "\<exists>m1 m2 d. computeStep (encS F S) (uint c) m = Some (Inr (semMat (mprog m) F S (uint c), m1)) \<and>
    (if semMat (mprog m) F S (uint c) then Some (Inr (DMatch, m1)) else cacheState m1) = Some (Inr (d, m2)) \<and>
    d = (if semMat (mprog m) F S (uint c) then DMatch
         else DRef (encS (flagsAfter (uint c)) (semNext (mprog m) F S (uint c)))) \<and>
    cache_ok m2 {} \<and> keeps m m2 \<and>
    (\<not> semMat (mprog m) F S (uint c) \<longrightarrow> encS (flagsAfter (uint c)) (semNext (mprog m) F S (uint c)) \<in> dom (mdstate m2))"
  proof (rule step_then_cache)
    fix m1 assume m1: "mprog m1 = mprog m" "cache_ok m1 {}"
      "at_state m1 (flagsAfter (uint c)) (semNext (mprog m) F S (uint c))"
    show "\<exists>m2. caches m1 {} (flagsAfter (uint c)) (semNext (mprog m) F S (uint c)) m2"
      by (rule cacheState_ok [OF _ m1(2) _ m1(3)]) (use m1(1) mp(1) sv assms(2) in simp_all)
  qed (use assms(2) e mp in simp_all)
  then obtain m1 m2 d where s: "computeStep e (uint c) m = Some (Inr (semMat p F S (uint c), m1))"
    "(if semMat p F S (uint c) then Some (Inr (DMatch, m1)) else cacheState m1) = Some (Inr (d, m2))"
    "d = (if semMat p F S (uint c) then DMatch
          else DRef (encS (flagsAfter (uint c)) (semNext p F S (uint c))))"
    "cache_ok m2 {}" "keeps m m2"
    "\<not> semMat p F S (uint c) \<longrightarrow> encS (flagsAfter (uint c)) (semNext p F S (uint c)) \<in> dom (mdstate m2)"
    unfolding mp(1) e(1) by blast
  have m2: "mprog m2 = p" using keeps_same [OF s(5)] mp(1) by simp
  have "computeNext e (uint c) m = Some (Inr (d, m2))" using s(1,2) by (simp add: computeNext_def)
  moreover have "matcher_ok p m2" by (rule matcher_ok_keeps [OF assms(1) s(5,4)])
  moreover have "arefs m2 d (aNext p c (Some (F, S)))"
    using s(3,6) sv m2 by (simp add: arefs_def aNext_def refs_def)
  moreover have "next_ok m2 F S c d" using s(3,6) assms(4) m2 by (simp add: next_ok_def)
  moreover have "refs m2 (DRef e) F S" by (rule refs_keeps [OF s(5) assms(3)])
  ultimately show ?thesis by blast
qed

lemma matchLoop_ok:
  assumes "prog_ok p"
  shows "matcher_ok p m \<Longrightarrow> arefs m d r \<Longrightarrow>
    \<exists>d' m'. matchLoop d i b m = Some (Inr (fst (aLoop p r i b), d', m')) \<and> matcher_ok p m' \<and>
      arefs m' d' (snd (aLoop p r i b))"
proof (induction b arbitrary: d i m r)
  case Nil
  then show ?case by simp
next
  case (Cons c b)
  have mp: "mprog m = p" "cache_ok m {}" using Cons.prems(1) by (simp_all add: matcher_ok_def)
  show ?case
  proof (cases "dnext (dderef d m) c")
    case (Some d1)
    from arefs_next [OF mp(2) Cons.prems(2) Some] assms
    have "if c = 10 then d1 = mstartLine m \<and> \<not> aMat p 10 r else arefs m d1 (aNext p c r)"
      unfolding mp(1) by blast
    then show ?thesis
      using Cons.IH [OF Cons.prems(1), of d1 _ "i + 1"] matcher_ok_start [OF Cons.prems(1), of False] Some
      by (auto split: if_splits)
  next
    case None
    show ?thesis
    proof (cases "c = 10")
      case True
      show ?thesis
      proof (cases "aMat p 10 r")
        case True
        with \<open>c = 10\<close> None Cons.prems show ?thesis
          using arefs_mat(1) [OF mp(2) Cons.prems(2)] by (simp add: mp(1))
      next
        case False
        then obtain F S where r: "r = Some (F, S)" by (auto simp: aMat_def split: option.splits)
        have rf: "refs m d F S" using Cons.prems(2) r by (simp add: arefs_def)
        have nx: "next_ok m F S c (mstartLine m)" using False r \<open>c = 10\<close> by (simp add: next_ok_def aMat_def mp(1))
        note sn = setNext_ok [OF Cons.prems(1) assms rf nx]
        have "arefs (setNext d c (mstartLine m) m) (mstartLine m) (aStart p False)"
          using sn(2) matcher_ok_start [OF Cons.prems(1), of False] by simp
        from Cons.IH [OF sn(1) this, of "i + 1"] show ?thesis
          using \<open>c = 10\<close> None False arefs_mat(1) [OF mp(2) Cons.prems(2)] by (simp add: mp(1))
      qed
    next
      case False
      then obtain F S where r: "r = Some (F, S)"
        using None Cons.prems(2) by (auto simp: arefs_def dderef_def split: option.splits)
      have rf: "refs m d F S" using Cons.prems(2) r by (simp add: arefs_def)
      then obtain e where e: "d = DRef e" by (simp add: refs_def)
      from computeNext_ok [OF Cons.prems(1) assms rf [unfolded e] False] obtain d1 m1 where
        n: "computeNext e (uint c) m = Some (Inr (d1, m1))" "matcher_ok p m1"
          "arefs m1 d1 (aNext p c (Some (F, S)))" "next_ok m1 F S c d1" "refs m1 (DRef e) F S" by blast
      note sn = setNext_ok [OF n(2) assms n(5,4)]
      from Cons.IH [OF sn(1) sn(2) [OF n(3)], of "i + 1"] show ?thesis
        using False None n(1) by (simp add: e r)
    qed
  qed
qed

section \<open>Lines\<close>

text \<open>What holds at position \<open>j\<close> of a line: its start, its end, the start of the text in the first
  line, the end of the text in a last line without newline, and word boundaries.\<close>

definition wordAt :: "byte list \<Rightarrow> nat \<Rightarrow> bool" where
  "wordAt ls j \<longleftrightarrow> j < length ls \<and> isWordByte (uint (ls ! j))"

definition posFlags :: "bool \<Rightarrow> bool \<Rightarrow> byte list \<Rightarrow> nat \<Rightarrow> emptyOp" where
  "posFlags bt et ls j =
     (if j = 0 then EmptyBeginLine else 0) OR (if j = 0 \<and> bt then EmptyBeginText else 0) OR
     (if (0 < j \<and> wordAt ls (j - 1)) \<noteq> wordAt ls j then EmptyWordBoundary else EmptyNoWordBoundary) OR
     (if j = length ls then EmptyEndLine else 0) OR (if j = length ls \<and> et then EmptyEndText else 0)"

text \<open>The instructions a match that started anywhere in the line can have come to at position \<open>j\<close>.\<close>

inductive reaches :: "prog \<Rightarrow> (nat \<Rightarrow> emptyOp) \<Rightarrow> byte list \<Rightarrow> nat \<Rightarrow> u32 \<Rightarrow> bool"
  for p fl ls where
  start: "j \<le> length ls \<Longrightarrow> reaches p fl ls j (pStart p)"
| empty: "reaches p fl ls j x \<Longrightarrow> eps p (fl j) x y \<Longrightarrow> reaches p fl ls j y"
| byte: "reaches p fl ls j x \<Longrightarrow> j < length ls \<Longrightarrow> iOp (pInst p ! unat x) = InstByteRange \<Longrightarrow>
    byteMatches (pInst p ! unat x) (uint (ls ! j)) \<Longrightarrow> reaches p fl ls (j + 1) (iOut (pInst p ! unat x))"

definition lineMatches :: "prog \<Rightarrow> bool \<Rightarrow> bool \<Rightarrow> byte list \<Rightarrow> bool" where
  "lineMatches p bt et ls \<longleftrightarrow>
     (\<exists>j x. reaches p (posFlags bt et ls) ls j x \<and> iOp (pInst p ! unat x) = InstMatch)"

text \<open>The end of the first matching line of \<open>b\<close>.\<close>

function firstMatch :: "prog \<Rightarrow> bool \<Rightarrow> bool \<Rightarrow> nat \<Rightarrow> byte list \<Rightarrow> int" where
  "firstMatch p bt et i b =
     (let ls = takeWhile (\<lambda>c. c \<noteq> 10) b; e = i + length ls
      in if length ls = length b then (if lineMatches p bt et ls then int e else -1)
         else if lineMatches p bt False ls then int e
         else firstMatch p False et (e + 1) (drop (length ls + 1) b))"
  by pat_completeness auto
termination
proof (relation "measure (\<lambda>(p, bt, et, i, b). length b)", goal_cases)
  case (2 p bt et i b)
  then have "b \<noteq> []" by auto
  then show ?case by simp
qed simp

declare firstMatch.simps [simp del]

text \<open>The sets of the automaton inside a line: what is reached at position \<open>j\<close> before the flags of what
  follows are known.\<close>

definition before :: "bool \<Rightarrow> byte list \<Rightarrow> nat \<Rightarrow> u32" where
  "before bt ls j = (if j = 0 then flagBOL OR (if bt then flagBOT else 0) else flagsAfter (uint (ls ! (j - 1))))"

definition at_pos :: "prog \<Rightarrow> bool \<Rightarrow> bool \<Rightarrow> byte list \<Rightarrow> nat \<Rightarrow> u32 set" where
  "at_pos p bt et ls j = {x. reaches p (posFlags bt et ls) ls j x}"

definition follows :: "bool \<Rightarrow> byte list \<Rightarrow> nat \<Rightarrow> int" where
  "follows et ls j = (if j < length ls then uint (ls ! j) else if et then endText else 10)"

lemma uint_newline: "uint (c :: byte) = 10 \<longleftrightarrow> c = 10"
  by (simp add: word_uint_eq_iff)

lemma nth_not_newline: "10 \<notin> set ls \<Longrightarrow> j < length ls \<Longrightarrow> ls ! j \<noteq> (10 :: byte)"
  by (metis nth_mem)

lemma before_bits:
  assumes "10 \<notin> set ls" "j \<le> length ls"
  shows "before bt ls j AND flagBOL \<noteq> 0 \<longleftrightarrow> j = 0" "before bt ls j AND flagBOT \<noteq> 0 \<longleftrightarrow> j = 0 \<and> bt"
    "before bt ls j AND flagWord \<noteq> 0 \<longleftrightarrow> 0 < j \<and> wordAt ls (j - 1)"
proof -
  have "uint (ls ! (j - 1)) \<noteq> 10" if "0 < j"
    using that assms nth_not_newline [of ls "j - 1"] by (simp add: uint_newline)
  then show "before bt ls j AND flagBOL \<noteq> 0 \<longleftrightarrow> j = 0" "before bt ls j AND flagBOT \<noteq> 0 \<longleftrightarrow> j = 0 \<and> bt"
    "before bt ls j AND flagWord \<noteq> 0 \<longleftrightarrow> 0 < j \<and> wordAt ls (j - 1)"
    using assms(2)
    by (auto simp: before_def flagsAfter_def wordAt_def flagBOL_def flagBOT_def flagWord_def)
qed

lemma flags_agree:
  assumes "10 \<notin> set ls" "j \<le> length ls"
  shows "flagsBefore (before bt ls j) (follows et ls j) = posFlags bt et ls j"
proof -
  have "uint (ls ! j) \<noteq> 10" if "j < length ls"
    using that assms(1) nth_not_newline by (simp add: uint_newline)
  moreover have "uint (ls ! j) \<noteq> endText" using uint_ge_0 [of "ls ! j"] unfolding endText_def by linarith
  ultimately have f: "isWordByte (follows et ls j) \<longleftrightarrow> wordAt ls j"
    "follows et ls j = 10 \<longleftrightarrow> j = length ls \<and> \<not> et" "follows et ls j = endText \<longleftrightarrow> j = length ls \<and> et"
    using assms(2) by (auto simp: follows_def wordAt_def isWordByte_def endText_def)
  show ?thesis
    unfolding flagsBefore_def posFlags_def before_bits [OF assms] f
    by (auto simp: or.left_commute or.assoc)
qed

section \<open>The automaton follows the simulation\<close>

fun pre :: "prog \<Rightarrow> bool \<Rightarrow> byte list \<Rightarrow> nat \<Rightarrow> u32 set" where
  "pre p bt ls 0 = startSet p (if bt then EmptyBeginLine OR EmptyBeginText else EmptyBeginLine)"
| "pre p bt ls (Suc j) = semNext p (before bt ls j) (pre p bt ls j) (uint (ls ! j))"

lemma at_pos_0: "at_pos p bt et ls 0 = clo p (posFlags bt et ls 0) {pStart p}"
proof
  have "x \<in> clo p (posFlags bt et ls 0) {pStart p}" if "reaches p (posFlags bt et ls) ls j x" "j = 0" for j x
    using that
    by (induction rule: reaches.induct) (auto simp: clo_def intro: rtranclp.rtrancl_into_rtrancl)
  then show "at_pos p bt et ls 0 \<subseteq> clo p (posFlags bt et ls 0) {pStart p}" by (auto simp: at_pos_def)
  have "closed p (posFlags bt et ls 0) (at_pos p bt et ls 0)"
    by (auto simp: closed_def at_pos_def intro: reaches.empty)
  then show "clo p (posFlags bt et ls 0) {pStart p} \<subseteq> at_pos p bt et ls 0"
    by (rule clo_least) (simp add: at_pos_def reaches.start)
qed

lemma at_pos_Suc:
  assumes "j < length ls"
  shows "at_pos p bt et ls (Suc j) =
    clo p (posFlags bt et ls (Suc j)) (insert (pStart p) (outs p (at_pos p bt et ls j) (uint (ls ! j))))"
    (is "_ = clo p ?fl ?S")
proof
  have "x \<in> clo p ?fl ?S" if "reaches p (posFlags bt et ls) ls k x" "k = Suc j" for k x
    using that
  proof (induction rule: reaches.induct)
    case (start k)
    then show ?case using clo_sub by fastforce
  next
    case (empty k x y)
    then show ?case using clo_closed by (auto simp: closed_def)
  next
    case (byte k x)
    then have "iOut (pInst p ! unat x) \<in> ?S" by (auto simp: outs_def at_pos_def)
    then show ?case using clo_sub by fastforce
  qed
  then show "at_pos p bt et ls (Suc j) \<subseteq> clo p ?fl ?S" by (auto simp: at_pos_def)
  have "closed p ?fl (at_pos p bt et ls (Suc j))"
    by (auto simp: closed_def at_pos_def intro: reaches.empty)
  moreover have "?S \<subseteq> at_pos p bt et ls (Suc j)"
    using assms reaches.byte [of p _ ls j] by (auto simp: at_pos_def outs_def intro: reaches.start)
  ultimately show "clo p ?fl ?S \<subseteq> at_pos p bt et ls (Suc j)" by (rule clo_least)
qed

lemma pre_at_pos:
  assumes "10 \<notin> set ls"
  shows "j \<le> length ls \<Longrightarrow> semRun p (before bt ls j) (pre p bt ls j) (follows et ls j) = at_pos p bt et ls j"
proof (induction j)
  case 0
  have "clo p (posFlags bt et ls 0) (startSet p fl) = clo p (posFlags bt et ls 0) {pStart p}"
    if "fl = (if bt then EmptyBeginLine OR EmptyBeginText else EmptyBeginLine)" for fl
    unfolding startSet_def
    by (rule clo_mono_flags, rule bit_word_eqI) (auto simp: that posFlags_def bit_simps)
  then show ?case unfolding semRun_def flags_agree [OF assms 0] pre.simps at_pos_0 by simp
next
  case (Suc j)
  have "ls ! j \<noteq> 10" using Suc.prems assms nth_not_newline by simp
  then have nx: "semNext p F S (uint (ls ! j)) = clo p 0 (insert (pStart p) (outs p (semRun p F S (uint (ls ! j))) (uint (ls ! j))))"
    for F S by (simp add: semNext_def uint_newline)
  have "follows et ls j = uint (ls ! j)" using Suc.prems by (simp add: follows_def)
  then have "semRun p (before bt ls j) (pre p bt ls j) (uint (ls ! j)) = at_pos p bt et ls j"
    using Suc by simp
  then show ?case
    unfolding semRun_def flags_agree [OF assms Suc.prems] pre.simps nx
    using at_pos_Suc [of j ls p bt et] Suc.prems clo_mono_flags [of 0 "posFlags bt et ls (Suc j)" p]
    by (simp add: semRun_def)
qed

lemma reaches_le: "reaches p fl ls j x \<Longrightarrow> j \<le> length ls"
  by (induction rule: reaches.induct) auto

lemma lineMatches_iff:
  assumes "10 \<notin> set ls"
  shows "lineMatches p bt et ls \<longleftrightarrow>
    (\<exists>j \<le> length ls. semMat p (before bt ls j) (pre p bt ls j) (follows et ls j))"
proof -
  have "lineMatches p bt et ls \<longleftrightarrow> (\<exists>j \<le> length ls. hasMatch p (at_pos p bt et ls j))"
    using reaches_le by (fastforce simp: lineMatches_def hasMatch_def at_pos_def)
  then show ?thesis using pre_at_pos [OF assms] by (auto simp: semMat_def)
qed

text \<open>A line that matches before a newline matches at the end of the text too.\<close>

lemma lineMatches_NL:
  assumes "10 \<notin> set ls" "lineMatches p bt False ls"
  shows "lineMatches p bt True ls"
proof -
  have e: "eps p (posFlags bt True ls j) x y" if "eps p (posFlags bt False ls j) x y" for j x y
    by (rule eps_mono [OF _ that], rule bit_word_eqI) (auto simp: posFlags_def bit_simps)
  have "reaches p (posFlags bt True ls) ls j x" if "reaches p (posFlags bt False ls) ls j x" for j x
    using that by (induction rule: reaches.induct) (auto intro: reaches.intros [unfolded Suc_eq_plus1 [symmetric]] e)
  then show ?thesis using assms(2) by (auto simp: lineMatches_def)
qed

definition lineState :: "prog \<Rightarrow> bool \<Rightarrow> byte list \<Rightarrow> nat \<Rightarrow> astate" where
  "lineState p bt ls j = (if \<exists>k < j. semMat p (before bt ls k) (pre p bt ls k) (uint (ls ! k)) then None
     else Some (before bt ls j, pre p bt ls j))"

lemma lineState_0: "lineState p bt ls 0 = aStart p bt"
  by (simp add: lineState_def aStart_def before_def)

lemma lineState_Suc: "aNext p (ls ! j) (lineState p bt ls j) = lineState p bt ls (Suc j)"
proof -
  let ?Q = "\<lambda>k. semMat p (before bt ls k) (pre p bt ls k) (uint (ls ! k))"
  have "(\<exists>k < Suc j. ?Q k) \<longleftrightarrow> (\<exists>k < j. ?Q k) \<or> ?Q j" by (auto simp: less_Suc_eq)
  moreover have "before bt ls (Suc j) = flagsAfter (uint (ls ! j))" by (simp add: before_def)
  ultimately show ?thesis by (simp add: lineState_def aNext_def)
qed

lemma lineState_end:
  assumes "10 \<notin> set ls"
  shows "aMat p (if et then endText else 10) (lineState p bt ls (length ls)) = lineMatches p bt et ls"
proof -
  have "follows et ls (length ls) = (if et then endText else 10)" "k < length ls \<Longrightarrow> follows et ls k = uint (ls ! k)" for k
    by (simp_all add: follows_def)
  then show ?thesis
    unfolding lineMatches_iff [OF assms] by (auto simp: lineState_def aMat_def le_less)
qed

lemma aLoop_line:
  "10 \<notin> set ls \<Longrightarrow> j \<le> length ls \<Longrightarrow>
    aLoop p (lineState p bt ls j) i (drop j ls @ b) = aLoop p (lineState p bt ls (length ls)) (i + (length ls - j)) b"
proof (induction "length ls - j" arbitrary: j i)
  case (Suc n)
  then have j: "j < length ls" by simp
  then have d: "drop j ls = ls ! j # drop (Suc j) ls" by (rule Cons_nth_drop_Suc [symmetric])
  have "ls ! j \<noteq> 10" using j Suc.prems(1) nth_not_newline by blast
  then show ?case using Suc.hyps(1) [of "Suc j" "i + 1"] Suc.hyps(2) Suc.prems(1) j
    by (simp add: d lineState_Suc Suc_diff_Suc)
qed simp

lemma aLoop_firstMatch:
  "firstMatch p bt et i b = (case aLoop p (aStart p bt) i b of
      (Some k, r) \<Rightarrow> int k
    | (None, r) \<Rightarrow> if aMat p 10 r \<or> et \<and> aMat p endText r then int (i + length b) else -1)"
proof (induction p bt et i b rule: firstMatch.induct)
  case (1 p bt et i b)
  define ls where "ls = takeWhile (\<lambda>c. c \<noteq> 10) b"
  have n: "10 \<notin> set ls" by (auto simp: ls_def dest: set_takeWhileD)
  have b: "b = ls @ dropWhile (\<lambda>c. c \<noteq> 10) b" by (simp add: ls_def)
  have line: "aLoop p (aStart p bt) i (ls @ c) = aLoop p (lineState p bt ls (length ls)) (i + length ls) c" for c
    using aLoop_line [OF n, of 0 p bt i c] by (simp add: lineState_0)
  show ?case
  proof (cases "dropWhile (\<lambda>c. c \<noteq> 10) b")
    case Nil
    then have eq: "b = ls" using b by (metis append_Nil2)
    then have "firstMatch p bt et i b = (if lineMatches p bt et ls then int (i + length b) else -1)"
      by (subst firstMatch.simps) (simp add: Let_def ls_def)
    moreover have "aLoop p (aStart p bt) i b = (None, lineState p bt ls (length ls))"
      using line [of "[]"] eq by simp
    ultimately show ?thesis
      using lineState_end [OF n, of p True bt] lineState_end [OF n, of p False bt]
        lineMatches_NL [OF n, of p bt] by (cases et) simp_all
  next
    case (Cons c b')
    then have c: "c = 10" using hd_dropWhile [of "\<lambda>c. c \<noteq> 10" b] by simp
    have eq: "b = ls @ 10 # b'" using b Cons c by simp
    have f: "firstMatch p bt et i b = (if lineMatches p bt False ls then int (i + length ls)
        else firstMatch p False et (i + length ls + 1) b')"
      unfolding firstMatch.simps [of p bt et i b] ls_def [symmetric] Let_def using eq by simp
    have le: "i + length ls + 1 + length b' = i + length b" using eq by simp
    have dr: "drop (length ls + 1) b = b'" using eq by simp
    have "\<not> lineMatches p bt False ls \<Longrightarrow>
      firstMatch p False et (i + length ls + 1) b' = (case aLoop p (aStart p False) (i + length ls + 1) b' of
        (Some k, r) \<Rightarrow> int k
      | (None, r) \<Rightarrow> if aMat p 10 r \<or> et \<and> aMat p endText r then int (i + length b) else -1)"
      using 1 [OF ls_def [unfolded atomize_eq] refl] eq unfolding dr le by simp
    with f show ?thesis
      using line [of "10 # b'"] lineState_end [OF n, of p False bt] eq
      by (cases "lineMatches p bt False ls") simp_all
  qed
qed

section \<open>Matching\<close>

text \<open>The matchers that occur: made by \<open>matcherInit\<close>, then used any number of times.\<close>

inductive usable :: "prog \<Rightarrow> matcher \<Rightarrow> bool" for p where
  made: "matcherInit p = Some (Inr m) \<Longrightarrow> usable p m"
| used: "usable p m \<Longrightarrow> matchBytes b bt et m = Some (Inr (r, m')) \<Longrightarrow> usable p m'"

lemma matchBytes_ok:
  assumes "prog_ok p" "matcher_ok p m"
  shows "\<exists>m'. matchBytes b bt et m = Some (Inr (firstMatch p bt et 0 b, m')) \<and> matcher_ok p m'"
proof -
  from matchLoop_ok [OF assms matcher_ok_start [OF assms(2)], of bt 0 b] obtain d' m' where
    l: "matchLoop (if bt then mstart m else mstartLine m) 0 b m =
        Some (Inr (fst (aLoop p (aStart p bt) 0 b), d', m'))" "matcher_ok p m'"
      "arefs m' d' (snd (aLoop p (aStart p bt) 0 b))" by blast
  have "mprog m' = p" "cache_ok m' {}" using l(2) by (simp_all add: matcher_ok_def)
  then have "matchNL (dderef d' m') = aMat p 10 (snd (aLoop p (aStart p bt) 0 b))"
    "matchEOT (dderef d' m') = aMat p endText (snd (aLoop p (aStart p bt) 0 b))"
    using arefs_mat [OF _ l(3)] by simp_all
  then have "matchBytes b bt et m = Some (Inr (firstMatch p bt et 0 b, m'))"
    using l(1) by (auto simp: matchBytes_def aLoop_firstMatch split: prod.splits option.splits)
  then show ?thesis using l(2) by blast
qed

lemma usable_ok: "usable p m \<Longrightarrow> prog_ok p \<Longrightarrow> matcher_ok p m"
proof (induction rule: usable.induct)
  case (made m)
  then show ?case using matcherInit_ok [of p] by auto
next
  case (used m b bt et r m')
  then show ?case using matchBytes_ok [of p m b bt et] by auto
qed

lemma matchBytes_usable:
  assumes "prog_ok p" "usable p m"
  shows "\<exists>m'. matchBytes b bt et m = Some (Inr (firstMatch p bt et 0 b, m')) \<and> usable p m'"
  using matchBytes_ok [OF assms(1) usable_ok [OF assms(2,1)], of b bt et] usable.used [OF assms(2), of b bt et] by blast

text \<open>
  C4. A matcher for a well-formed program, made by \<open>matcherInit\<close> and used for any number of earlier
  calls, matches line by line: \<open>matchBytes\<close> always returns, does not panic, and its result is the
  offset of the end of the first line of \<open>b\<close> in which an \<open>InstMatch\<close> can be reached (with
  the newline, or the end of the text, as the line's end), or -1 if there is none.  The cache
  never changes a result.
\<close>

theorem matchBytes_first_line:
  assumes "prog_ok p" "usable p m"
  shows "\<exists>m'. matchBytes b bt et m = Some (Inr (firstMatch p bt et 0 b, m')) \<and> usable p m'"
  using assms by (rule matchBytes_usable)

text \<open>The program of \<open>(?m)^a$\<close>.\<close>

definition sampleProg :: prog where
  "sampleProg = \<lparr>pInst = [\<lparr>iOp = InstFail, iOut = 0, iArg = 0\<rparr>, \<lparr>iOp = InstEmptyWidth, iOut = 2, iArg = 1\<rparr>,
     \<lparr>iOp = InstByteRange, iOut = 3, iArg = 0x6161\<rparr>, \<lparr>iOp = InstEmptyWidth, iOut = 4, iArg = 2\<rparr>,
     \<lparr>iOp = InstMatch, iOut = 0, iArg = 0\<rparr>], pStart = 1\<rparr>"

lemma sampleProg_ok: "prog_ok sampleProg"
  by (simp add: prog_ok_def sampleProg_def inst_ok_def)

lemma sampleProg_made: "\<exists>m. matcherInit sampleProg = Some (Inr m) \<and> usable sampleProg m"
  using matcherInit_ok [OF sampleProg_ok] usable.made by blast

theorem matchBytes_first_line_witness:
  "\<exists>m m'. matcherInit sampleProg = Some (Inr m) \<and>
     matchBytes [98, 10, 97, 10] True True m = Some (Inr (firstMatch sampleProg True True 0 [98, 10, 97, 10], m'))"
  using sampleProg_made matchBytes_first_line [OF sampleProg_ok] by blast

text \<open>
  C36. Between calls a matcher keeps its invariant: its scratch sets fit the program, both start states
  are cached, every cached state is the state its encoding says, and every transition recorded in it
  leads where the automaton on sets of instructions goes.
\<close>

theorem usable_invariant:
  assumes "prog_ok p" "usable p m"
  shows "matcher_ok p m"
  by (rule usable_ok [OF assms(2,1)])

theorem usable_invariant_witness: "\<exists>m. matcherInit sampleProg = Some (Inr m) \<and> matcher_ok sampleProg m"
  using sampleProg_made usable_invariant [OF sampleProg_ok] by blast

end
