(* ===== verification/Grep_File.thy ===== *)
theory Grep_File
  imports Matcher_Lines
begin

text \<open>
  Searching the contents of one file: \<open>grepData\<close> of \<open>internal/index/index.go\<close> with the
  context and truncation of lines.

  The matcher is the one of \<open>Matcher\<close>, threaded through the calls of \<open>Match\<close>.  The standard
  regular expression that locates the match in a long line is an argument, what
  \<open>FindStringIndex\<close> returns as its first component; \<open>None\<close> is the nil pointer.
\<close>

section \<open>The functions of package bytes\<close>

definition indexByte :: "byte \<Rightarrow> byte list \<Rightarrow> int" where
  "indexByte c b = (if c \<in> set b then int (length (takeWhile (\<lambda>x. x \<noteq> c) b)) else -1)"

definition lastIndexByte :: "byte \<Rightarrow> byte list \<Rightarrow> int" where
  "lastIndexByte c b =
     (if c \<in> set b then int (length b) - 1 - int (length (takeWhile (\<lambda>x. x \<noteq> c) (rev b))) else -1)"

definition trimRight :: "byte set \<Rightarrow> byte list \<Rightarrow> byte list" where
  "trimRight cs b = rev (dropWhile (\<lambda>c. c \<in> cs) (rev b))"

section \<open>Lines and their context\<close>

definition maxLineLen_match :: nat where "maxLineLen_match = 250"
definition truncateRadius :: int where "truncateRadius = 100"

record match =
  mLine :: gostr
  mLineNumber :: nat
  mBefore :: "gostr list"
  mAfter :: "gostr list"

function countNL :: "byte list \<Rightarrow> nat" where
  "countNL b = (let i = indexByte 10 b in if i < 0 then 0 else 1 + countNL (drop (nat i + 1) b))"
  by pat_completeness auto
termination
proof (relation "measure length", goal_cases)
  case (2 b)
  then have "b \<noteq> []" by (auto simp: indexByte_def)
  then show ?case by simp
qed simp

declare countNL.simps [simp del]

fun beforeLoop :: "byte list \<Rightarrow> nat \<Rightarrow> nat \<Rightarrow> gostr list" where
  "beforeLoop buf e 0 = []"
| "beforeLoop buf e (Suc n) =
     (if e = 0 then []
      else let start = nat (lastIndexByte 10 (take e buf) + 1)
           in take (e - start) (drop start buf) # beforeLoop buf (if start > 0 then start - 1 else start) n)"

definition extractBeforeContext :: "byte list \<Rightarrow> nat \<Rightarrow> nat \<Rightarrow> gostr list res" where
  "extractBeforeContext buf lineStart n =
     (if lineStart = 0 \<or> n = 0 then Inr []
      else if lineStart > length buf then Inl Range
      else Inr (rev (beforeLoop buf (if buf ! (lineStart - 1) = 10 then lineStart - 1 else lineStart) n)))"

fun afterLoop :: "byte list \<Rightarrow> nat \<Rightarrow> nat \<Rightarrow> gostr list" where
  "afterLoop buf pos 0 = []"
| "afterLoop buf pos (Suc n) =
     (if pos \<ge> length buf then []
      else let i = indexByte 10 (drop pos buf)
           in if i < 0 then [drop pos buf]
              else take (nat i) (drop pos buf) # afterLoop buf (pos + nat i + 1) n)"

definition extractAfterContext :: "byte list \<Rightarrow> nat \<Rightarrow> nat \<Rightarrow> gostr list" where
  "extractAfterContext buf lineEnd n =
     (if lineEnd \<ge> length buf \<or> n = 0 then [] else afterLoop buf lineEnd n)"

definition truncateMatchLine :: "gostr \<Rightarrow> (gostr \<Rightarrow> nat option) option \<Rightarrow> gostr res" where
  "truncateMatchLine line fre =
     (if length line \<le> maxLineLen_match then Inr line
      else let center = (case fre of None \<Rightarrow> 0 | Some f \<Rightarrow> (case f line of None \<Rightarrow> 0 | Some l \<Rightarrow> int l));
               start = max (center - truncateRadius) 0;
               e = min (center + truncateRadius) (int (length line))
           in if start \<le> e then Inr (take (nat (e - start)) (drop (nat start) line)) else Inl Range)"

definition truncateContextLines :: "gostr list \<Rightarrow> gostr list" where
  "truncateContextLines = map (\<lambda>line. if length line > maxLineLen_match then take maxLineLen_match line else line)"

section \<open>grepData\<close>

function grepLoop :: "(gostr \<Rightarrow> nat option) option \<Rightarrow> nat \<Rightarrow> int \<Rightarrow> byte list \<Rightarrow>
    nat \<Rightarrow> bool \<Rightarrow> nat \<Rightarrow> match list \<Rightarrow> matcher \<Rightarrow> (match list \<times> matcher) res option" where
  "grepLoop fre contextLines maxMatches buf chunkStart beginText lineno matches re =
     (if chunkStart < length buf \<and> int (length matches) < maxMatches
      then obind (matchBytes (drop chunkStart buf) beginText True re) (\<lambda>(r, re).
        if r < 0 then Some (Inr (matches, re))
        else let m = nat r + chunkStart in
        if m > length buf then Some (Inl Range)
        else let lineStart = nat (lastIndexByte 10 (take (m - chunkStart) (drop chunkStart buf)) + 1) + chunkStart;
                 lineEnd = min (m + 1) (length buf);
                 lineno = lineno + countNL (take (lineStart - chunkStart) (drop chunkStart buf))
        in obind (Some (truncateMatchLine (trimRight {13, 10} (take (lineEnd - lineStart) (drop lineStart buf))) fre)) (\<lambda>line.
           obind (Some (if contextLines > 0 then extractBeforeContext buf lineStart contextLines else Inr [])) (\<lambda>before.
             let match = \<lparr>mLine = line, mLineNumber = lineno,
                   mBefore = truncateContextLines before,
                   mAfter = (if contextLines > 0
                     then truncateContextLines (extractAfterContext buf lineEnd contextLines) else [])\<rparr>
             in grepLoop fre contextLines maxMatches buf lineEnd False (lineno + 1) (matches @ [match]) re)))
      else Some (Inr (matches, re)))"
  by pat_completeness auto
termination
  by (relation "measure (\<lambda>(fre, ctx, mx, buf, cs, bt, ln, ms, re). length buf - cs)") auto

declare grepLoop.simps [simp del]

definition grepData :: "byte list \<Rightarrow> matcher \<Rightarrow> (gostr \<Rightarrow> nat option) option \<Rightarrow> nat \<Rightarrow> int \<Rightarrow>
    (match list \<times> matcher) res option" where
  "grepData buf re fre contextLines maxMatches = grepLoop fre contextLines maxMatches buf 0 True 1 [] re"

section \<open>Lines of a buffer\<close>

text \<open>The segments between newlines; \<open>joinL\<close> puts whole lines together again.\<close>

fun segs :: "byte list \<Rightarrow> byte list list" where
  "segs [] = [[]]"
| "segs (c # b) = (if c = 10 then [] # segs b else (c # hd (segs b)) # tl (segs b))"

definition joinL :: "byte list list \<Rightarrow> byte list" where
  "joinL ls = concat (map (\<lambda>l. l @ [10]) ls)"

abbreviation plain :: "byte list \<Rightarrow> bool" where "plain l \<equiv> 10 \<notin> set l"

lemma joinL_simps [simp]:
  "joinL [] = []" "joinL (l # ls) = l @ 10 # joinL ls" "joinL (ls @ ms) = joinL ls @ joinL ms"
  by (simp_all add: joinL_def)

lemma segs_plain [simp]: "plain l \<Longrightarrow> segs l = [l]"
  by (induction l) auto

lemma segs_append_nl: "plain l \<Longrightarrow> segs (l @ 10 # b) = l # segs b"
  by (induction l) auto

lemma segs_joinL: "\<forall>l \<in> set ls. plain l \<Longrightarrow> segs (joinL ls @ b) = ls @ segs b"
  by (induction ls) (auto simp: segs_append_nl)

lemma segs_ne [simp]: "segs b \<noteq> []"
  by (cases b) auto

lemma segs_all_plain: "l \<in> set (segs b) \<Longrightarrow> plain l"
proof (induction b arbitrary: l)
  case (Cons c b)
  obtain m ms where "segs b = m # ms" by (cases "segs b") auto
  with Cons show ?case by (auto split: if_splits)
qed simp

lemma segs_join: "joinL (butlast (segs b)) @ last (segs b) = b"
proof (induction b)
  case (Cons c b)
  obtain l ls where l: "segs b = l # ls" by (cases "segs b") auto
  with Cons show ?case by (cases ls) auto
qed simp

text \<open>Where a newline is.\<close>

lemma indexByte_plain [simp]: "plain l \<Longrightarrow> indexByte 10 l = -1"
  by (simp add: indexByte_def)

lemma indexByte_line [simp]: "plain l \<Longrightarrow> indexByte 10 (l @ 10 # b) = int (length l)"
proof -
  assume "plain l"
  then have "takeWhile (\<lambda>x. x \<noteq> 10) (l @ 10 # b) = l" by (subst takeWhile_append2) auto
  then show ?thesis by (simp add: indexByte_def)
qed

lemma lastIndexByte_plain [simp]: "plain l \<Longrightarrow> lastIndexByte 10 l = -1"
  by (simp add: lastIndexByte_def)

lemma lastIndexByte_line: "plain l \<Longrightarrow> lastIndexByte 10 (joinL ls @ l) + 1 = int (length (joinL ls))"
proof (cases ls rule: rev_cases)
  case (snoc ms m)
  assume l: "plain l"
  have r: "rev (joinL ls @ l) = rev l @ 10 # rev m @ rev (joinL ms)" by (simp add: snoc)
  have "takeWhile (\<lambda>x. x \<noteq> 10) (rev (joinL ls @ l)) = rev l"
    unfolding r using l by (subst takeWhile_append2) auto
  moreover have "10 \<in> set (joinL ls @ l)" by (simp add: snoc)
  ultimately show ?thesis by (simp add: lastIndexByte_def)
qed simp

lemma countNL_plain [simp]: "plain l \<Longrightarrow> countNL l = 0"
  by (simp add: countNL.simps)

lemma countNL_line [simp]: "plain l \<Longrightarrow> countNL (l @ 10 # b) = Suc (countNL b)"
  by (subst countNL.simps) (simp add: Let_def)

lemma countNL_joinL: "\<forall>l \<in> set ls. plain l \<Longrightarrow> countNL (joinL ls @ b) = length ls + countNL b"
  by (induction ls) auto

section \<open>Context\<close>

text \<open>An empty first line is never part of the lines before.\<close>

fun dropEmptyFirst :: "byte list list \<Rightarrow> byte list list" where
  "dropEmptyFirst ([] # ls) = ls"
| "dropEmptyFirst ls = ls"

lemma beforeLoop_0 [simp]: "beforeLoop buf 0 n = []"
  by (cases n) simp_all

lemma beforeLoop_lines:
  assumes "\<forall>l \<in> set (ls @ [l]). plain l"
  shows "beforeLoop (joinL ls @ l @ 10 # b) (length (joinL ls) + length l) n = take n (rev (dropEmptyFirst (ls @ [l])))"
  using assms
proof (induction n arbitrary: ls l b)
  case (Suc n)
  let ?buf = "joinL ls @ l @ 10 # b" and ?e = "length (joinL ls) + length l"
  have te: "take ?e ?buf = joinL ls @ l" by simp
  have st: "nat (lastIndexByte 10 (take ?e ?buf) + 1) = length (joinL ls)"
    unfolding te using lastIndexByte_line [of l ls] Suc.prems by simp
  show ?case
  proof (cases ls rule: rev_cases)
    case Nil
    then show ?thesis
    proof (cases l)
      case (Cons x xs)
      then have "dropEmptyFirst (ls @ [l]) = [l]" using Nil by simp
      then show ?thesis unfolding beforeLoop.simps Let_def st using Nil Cons by simp
    qed simp
  next
    case (snoc ms m)
    have "dropEmptyFirst (ls @ [l]) = dropEmptyFirst ls @ [l]" by (cases ls rule: dropEmptyFirst.cases) (auto simp: snoc)
    moreover have "length (joinL ls) = length (joinL ms) + length m + 1" by (simp add: snoc)
    moreover have "beforeLoop ?buf (length (joinL ms) + length m) n = take n (rev (dropEmptyFirst ls))"
      using Suc.IH [of ms m "l @ 10 # b"] Suc.prems by (simp add: snoc)
    ultimately show ?thesis unfolding beforeLoop.simps Let_def st by simp
  qed
qed simp

lemma extractBefore_lines:
  assumes "\<forall>l \<in> set ls. plain l" 
  shows "extractBeforeContext (joinL ls @ b) (length (joinL ls)) n = Inr (drop (length (dropEmptyFirst ls) - n) (dropEmptyFirst ls))"
proof (cases ls rule: rev_cases)
  case Nil
  then show ?thesis by (simp add: extractBeforeContext_def)
next
  case (snoc ms m)
  have "(joinL ls @ b) ! (length (joinL ls) - 1) = 10" by (simp add: snoc nth_append)
  moreover have "beforeLoop (joinL ls @ b) (length (joinL ls) - 1) n = take n (rev (dropEmptyFirst ls))"
    using beforeLoop_lines [of ms m b n] assms by (simp add: snoc)
  ultimately show ?thesis
    by (cases n) (simp_all add: extractBeforeContext_def snoc rev_take del: beforeLoop.simps)
qed

lemma afterLoop_lines:
  assumes "\<forall>l \<in> set ls. plain l" "plain l"
  shows "afterLoop (c @ joinL ls @ l) (length c) n = take n (ls @ (if l = [] then [] else [l]))"
  using assms
proof (induction n arbitrary: ls c)
  case (Suc n)
  show ?case
  proof (cases ls)
    case Nil
    with Suc.prems show ?thesis by simp
  next
    case (Cons m ms)
    have "afterLoop ((c @ m @ [10]) @ joinL ms @ l) (length (c @ m @ [10])) n = take n (ms @ (if l = [] then [] else [l]))"
      by (rule Suc.IH) (use Suc.prems Cons in auto)
    then show ?thesis using Suc.prems Cons by (simp add: Let_def)
  qed
qed simp

lemma extractAfter_lines:
  assumes "\<forall>l \<in> set ls. plain l" "plain l"
  shows "extractAfterContext (c @ joinL ls @ l) (length c) n = take n (ls @ (if l = [] then [] else [l]))"
  using afterLoop_lines [OF assms, of c n] by (cases ls) (auto simp: extractAfterContext_def)

section \<open>The lines that match\<close>

text \<open>
  The lines reported, by number, start and end.  A buffer that ends in a newline has an empty last
  segment; it is looked at only if the line before it does not match.
\<close>

function hits :: "prog \<Rightarrow> bool \<Rightarrow> nat \<Rightarrow> nat \<Rightarrow> nat \<Rightarrow> byte list \<Rightarrow> (nat \<times> nat \<times> nat) list" where
  "hits p bt n off k b =
     (if b = [] \<or> n = 0 then []
      else let l = takeWhile (\<lambda>c. c \<noteq> 10) b; e = off + length l in
      if length l = length b then (if lineMatches p bt True l then [(k, off, e)] else [])
      else let rest = drop (length l + 1) b in
      if lineMatches p bt False l then (k, off, e + 1) # hits p False (n - 1) (e + 1) (k + 1) rest
      else if rest = [] then (if lineMatches p False True [] then [(k + 1, e + 1, e + 1)] else [])
      else hits p False n (e + 1) (k + 1) rest)"
  by pat_completeness auto
termination
  by (relation "measure (\<lambda>(p, bt, n, off, k, b). length b)") auto

declare hits.simps [simp del]

lemma takeWhile_plain: "plain l \<Longrightarrow> takeWhile (\<lambda>c. c \<noteq> 10) l = l"
  by (induction l) auto

lemma takeWhile_line: "plain l \<Longrightarrow> takeWhile (\<lambda>c. c \<noteq> 10) (l @ 10 # b) = l"
  by (induction l) auto

lemma hits_last:
  "plain l \<Longrightarrow> l \<noteq> [] \<Longrightarrow> 0 < n \<Longrightarrow>
    hits p bt n off k l = (if lineMatches p bt True l then [(k, off, off + length l)] else [])"
  by (subst hits.simps) (simp add: Let_def takeWhile_plain)

lemma hits_line:
  "plain l \<Longrightarrow> 0 < n \<Longrightarrow> hits p bt n off k (l @ 10 # b) =
     (if lineMatches p bt False l then (k, off, off + length l + 1) # hits p False (n - 1) (off + length l + 1) (k + 1) b
      else if b = [] then (if lineMatches p False True [] then [(k + 1, off + length l + 1, off + length l + 1)] else [])
      else hits p False n (off + length l + 1) (k + 1) b)"
  by (subst hits.simps) (simp add: Let_def takeWhile_line)

lemma hits_stop [simp]: "hits p bt n off k [] = []" "hits p bt 0 off k b = []"
  by (subst hits.simps, simp)+

lemma firstMatch_last:
  "plain l \<Longrightarrow> firstMatch p bt et i l = (if lineMatches p bt et l then int (i + length l) else -1)"
  by (subst firstMatch.simps) (simp add: Let_def takeWhile_plain)

lemma firstMatch_line:
  "plain l \<Longrightarrow> firstMatch p bt et i (l @ 10 # b) =
     (if lineMatches p bt False l then int (i + length l) else firstMatch p False et (i + length l + 1) b)"
  by (subst firstMatch.simps) (simp add: Let_def takeWhile_line)

text \<open>One call of \<open>Match\<close> finds the first of them.  \<open>ls\<close> are the lines passed over, \<open>l\<close> the line that
  matches.\<close>

lemma line_cases:
  obtains (last) "plain b" | (line) l c where "plain l" "b = l @ 10 # c"
proof (cases "10 \<in> set b")
  case True
  from split_list_first [OF this] show ?thesis using line by auto
qed (use last in blast)

definition found :: "prog \<Rightarrow> nat \<Rightarrow> nat \<Rightarrow> nat \<Rightarrow> byte list \<Rightarrow> (nat \<times> nat \<times> nat) list \<Rightarrow> nat \<Rightarrow> bool" where
  "found p n off k b h i \<longleftrightarrow> (\<exists>ls l c. b = joinL ls @ l @ c \<and> (\<forall>x \<in> set ls. plain x) \<and> plain l \<and>
     (c = [] \<or> hd c = 10) \<and> i = length (joinL ls @ l) \<and>
     h = (k + length ls, off + length (joinL ls), off + min (i + 1) (length b)) #
       hits p False (n - 1) (off + min (i + 1) (length b)) (k + length ls + 1) (tl c))"

lemma found_shift:
  assumes "found p n (off + length l + 1) (k + 1) b h i" "plain l"
  shows "found p n off k (l @ 10 # b) h (length l + 1 + i)"
proof -
  obtain ls m c where f: "b = joinL ls @ m @ c" "\<forall>x \<in> set ls. plain x" "plain m" "c = [] \<or> hd c = 10"
    "i = length (joinL ls @ m)"
    "h = (k + 1 + length ls, off + length l + 1 + length (joinL ls), off + length l + 1 + min (i + 1) (length b)) #
       hits p False (n - 1) (off + length l + 1 + min (i + 1) (length b)) (k + 1 + length ls + 1) (tl c)"
    using assms(1) by (auto simp: found_def)
  have mn: "off + length l + 1 + min (i + 1) (length b) = off + min (length l + 1 + i + 1) (length (l @ 10 # b))"
    by simp
  show ?thesis
    unfolding found_def
  proof (intro exI conjI)
    show "l @ 10 # b = joinL (l # ls) @ m @ c" using f(1) by simp
    show "length l + 1 + i = length (joinL (l # ls) @ m)" using f(5) by simp
    show "h = (k + length (l # ls), off + length (joinL (l # ls)), off + min (length l + 1 + i + 1) (length (l @ 10 # b))) #
       hits p False (n - 1) (off + min (length l + 1 + i + 1) (length (l @ 10 # b))) (k + length (l # ls) + 1) (tl c)"
      using f(6) unfolding mn by simp
  qed (use f assms(2) in auto)
qed

lemma firstMatch_hits:
  assumes "0 < n"
  shows "b \<noteq> [] \<Longrightarrow>
    firstMatch p bt True i b < 0 \<and> hits p bt n off k b = [] \<or>
    (\<exists>j. firstMatch p bt True i b = int (i + j) \<and> found p n off k b (hits p bt n off k b) j)"
proof (induction "length b" arbitrary: b bt i off k rule: less_induct)
  case less
  show ?case
  proof (cases b rule: line_cases)
    case last
    show ?thesis
    proof (cases "lineMatches p bt True b")
      case True
      then have "found p n off k b (hits p bt n off k b) (length b)"
        unfolding found_def using last less.prems assms
        by (intro exI [of _ "[]"] exI [of _ b]) (simp add: hits_last)
      with True last show ?thesis by (auto simp: firstMatch_last)
    qed (use last less.prems assms in \<open>simp add: firstMatch_last hits_last\<close>)
  next
    case (line l c)
    show ?thesis
    proof (cases "lineMatches p bt False l")
      case True
      then have "found p n off k b (hits p bt n off k b) (length l)"
        unfolding found_def using line assms
        by (intro exI [of _ "[]"] exI [of _ l] exI [of _ "10 # c"]) (simp add: hits_line)
      with True line show ?thesis by (auto simp: firstMatch_line)
    next
      case False
      then have fm: "firstMatch p bt True i b = firstMatch p False True (i + length l + 1) c"
        using line by (simp add: firstMatch_line)
      show ?thesis
      proof (cases "c = []")
        case True
        show ?thesis
        proof (cases "lineMatches p False True []")
          case em: True
          have "found p n off k b (hits p bt n off k b) (length l + 1)"
            unfolding found_def using line assms True False em
            by (intro exI [of _ "[l]"] exI [of _ "[]"]) (simp add: hits_line)
          with fm em True show ?thesis by (intro disjI2 exI [of _ "length l + 1"]) (simp add: firstMatch_last)
        qed (use fm line assms True False in \<open>simp add: firstMatch_last hits_line\<close>)
      next
        case ne: False
        have h: "hits p bt n off k b = hits p False n (off + length l + 1) (k + 1) c"
          using line assms False ne by (simp add: hits_line)
        from less.hyps [of c False "i + length l + 1" "off + length l + 1" "k + 1"] ne line
        consider "firstMatch p False True (i + length l + 1) c < 0" "hits p False n (off + length l + 1) (k + 1) c = []"
          | j where "firstMatch p False True (i + length l + 1) c = int (i + length l + 1 + j)"
            "found p n (off + length l + 1) (k + 1) c (hits p False n (off + length l + 1) (k + 1) c) j"
          by auto
        then show ?thesis
        proof cases
          case 1
          then show ?thesis by (simp add: fm h)
        next
          case 2
          have "found p n off k b (hits p False n (off + length l + 1) (k + 1) c) (length l + 1 + j)"
            unfolding line(2) using 2(2) line(1) by (rule found_shift)
          with 2(1) show ?thesis unfolding fm h by (intro disjI2 exI [of _ "length l + 1 + j"]) simp
        qed
      qed
    qed
  qed
qed

section \<open>What is reported of a line\<close>

definition fre_ok :: "(gostr \<Rightarrow> nat option) option \<Rightarrow> bool" where
  "fre_ok fre \<longleftrightarrow> (\<forall>f l i. fre = Some f \<longrightarrow> f l = Some i \<longrightarrow> i \<le> length l)"

definition matchPos :: "(gostr \<Rightarrow> nat option) option \<Rightarrow> gostr \<Rightarrow> nat" where
  "matchPos fre l = (case fre of None \<Rightarrow> 0 | Some f \<Rightarrow> (case f l of None \<Rightarrow> 0 | Some i \<Rightarrow> i))"

definition shown :: "(gostr \<Rightarrow> nat option) option \<Rightarrow> gostr \<Rightarrow> gostr" where
  "shown fre l = (if length l \<le> 250 then l else drop (matchPos fre l - 100) (take (matchPos fre l + 100) l))"

lemma truncateMatchLine_shown:
  assumes "fre_ok fre"
  shows "truncateMatchLine l fre = Inr (shown fre l)"
proof (cases "length l \<le> 250")
  case False
  have c: "(case fre of None \<Rightarrow> 0 | Some f \<Rightarrow> (case f l of None \<Rightarrow> 0 | Some i \<Rightarrow> int i)) = int (matchPos fre l)"
    by (simp add: matchPos_def split: option.split)
  have "matchPos fre l \<le> length l"
    using assms by (auto simp: matchPos_def fre_ok_def split: option.splits)
  moreover from this have "max (int (matchPos fre l) - 100) 0 \<le> min (int (matchPos fre l) + 100) (int (length l))"
    by simp
  moreover have "nat (max (int (matchPos fre l) - 100) 0) = matchPos fre l - 100" by simp
  moreover have "nat (min (int (matchPos fre l) + 100) (int (length l)) - max (int (matchPos fre l) - 100) 0) =
      min (matchPos fre l + 100) (length l) - (matchPos fre l - 100)"
    by arith
  ultimately show ?thesis using False
    by (simp add: truncateMatchLine_def shown_def c Let_def maxLineLen_match_def truncateRadius_def drop_take)
      (simp add: min_def)
qed (simp add: truncateMatchLine_def shown_def maxLineLen_match_def)

definition wholeLines :: "byte list \<Rightarrow> byte list list" where
  "wholeLines buf = (if last (segs buf) = [] then butlast (segs buf) else segs buf)"

definition lastn :: "nat \<Rightarrow> 'a list \<Rightarrow> 'a list" where
  "lastn n xs = drop (length xs - n) xs"

lemma no_context [simp]: "lastn 0 xs = []" "extractAfterContext buf e 0 = []" "truncateContextLines [] = []"
  by (simp_all add: lastn_def extractAfterContext_def truncateContextLines_def)

text \<open>The report of line \<open>k\<close>, counted from 1.\<close>

definition report :: "byte list \<Rightarrow> (gostr \<Rightarrow> nat option) option \<Rightarrow> nat \<Rightarrow> nat \<Rightarrow> match" where
  "report buf fre n k = \<lparr>mLine = shown fre (trimRight {13, 10} (segs buf ! (k - 1))), mLineNumber = k,
     mBefore = truncateContextLines (lastn n (dropEmptyFirst (take (k - 1) (segs buf)))),
     mAfter = truncateContextLines (take n (drop k (wholeLines buf)))\<rparr>"

lemma trimRight_nl [simp]: "trimRight {13, 10} (l @ [10]) = trimRight {13, 10} l"
  by (simp add: trimRight_def)

lemma extractAfter_end: "length buf \<le> e \<Longrightarrow> extractAfterContext buf e n = []"
  by (simp add: extractAfterContext_def)

lemma extractAfter_segs:
  "extractAfterContext (c @ b) (length c) n = take n (if last (segs b) = [] then butlast (segs b) else segs b)"
proof -
  have "\<forall>l \<in> set (butlast (segs b)). plain l" "plain (last (segs b))"
    using segs_all_plain segs_all_plain [OF last_in_set [OF segs_ne]] by (blast dest: in_set_butlastD)+
  from extractAfter_lines [OF this, of c n] show ?thesis
    unfolding segs_join using append_butlast_last_id [OF segs_ne, of b]
    by (cases "last (segs b) = []") (simp_all del: append_butlast_last_id)
qed

text \<open>The parts of one report, at a line found by \<open>Match\<close>.\<close>

lemma report_parts:
  assumes "buf = joinL ls @ l @ c" "\<forall>x \<in> set ls. plain x" "plain l" "c = [] \<or> hd c = 10"
    and e: "e = min (length (joinL ls) + length l + 1) (length buf)"
  shows "segs buf ! length ls = l" "take (length ls) (segs buf) = ls"
    "trimRight {13, 10} (take (e - length (joinL ls)) (drop (length (joinL ls)) buf)) = trimRight {13, 10} l"
    "extractAfterContext buf e n = take n (drop (length ls + 1) (wholeLines buf))"
proof -
  have sl: "segs buf = ls @ l # (if c = [] then [] else segs (tl c))"
    using assms(2-4) by (cases c) (auto simp: assms(1) segs_joinL segs_append_nl)
  then show "segs buf ! length ls = l" "take (length ls) (segs buf) = ls" by (simp_all add: nth_append)
  show "trimRight {13, 10} (take (e - length (joinL ls)) (drop (length (joinL ls)) buf)) = trimRight {13, 10} l"
    using assms(4) by (cases c) (auto simp: assms(1) e)
  show "extractAfterContext buf e n = take n (drop (length ls + 1) (wholeLines buf))"
  proof (cases "c = []")
    case True
    then have "length buf \<le> e" using e assms(1) by simp
    moreover have "length (wholeLines buf) \<le> length ls + 1" using sl True by (simp add: wholeLines_def)
    ultimately show ?thesis by (simp add: extractAfter_end)
  next
    case False
    then obtain c' where c: "c = 10 # c'" using assms(4) by (cases c) auto
    have "e = length (joinL ls @ l @ [10])" by (simp add: e assms(1) c)
    moreover have "buf = (joinL ls @ l @ [10]) @ c'" by (simp add: assms(1) c)
    ultimately have "extractAfterContext buf e n = take n (if last (segs c') = [] then butlast (segs c') else segs c')"
      using extractAfter_segs by metis
    then show ?thesis using sl by (simp add: wholeLines_def c butlast_append)
  qed
qed

section \<open>grepData\<close>

lemma grepLoop_ok:
  assumes "prog_ok p" "fre_ok fre"
  shows "usable p m \<Longrightarrow> buf = joinL done @ b \<Longrightarrow> \<forall>x \<in> set done. plain x \<Longrightarrow>
    \<exists>m'. grepLoop fre n mx buf (length (joinL done)) bt (length done + 1) ms m =
      Some (Inr (ms @ map (report buf fre n)
        (map fst (hits p bt (nat (mx - int (length ms))) (length (joinL done)) (length done + 1) b)), m')) \<and> usable p m'"
proof (induction "length b" arbitrary: b bt "done" ms m rule: less_induct)
  case less
  let ?cs = "length (joinL done)" and ?n = "nat (mx - int (length ms))"
  show ?case
  proof (cases "b \<noteq> [] \<and> int (length ms) < mx")
    case False
    then show ?thesis using less.prems by (subst grepLoop.simps) auto
  next
    case True
    have d: "drop ?cs buf = b" using less.prems(2) by simp
    from matchBytes_usable [OF assms(1) less.prems(1), of b bt True] obtain m1 where
      m1: "matchBytes b bt True m = Some (Inr (firstMatch p bt True 0 b, m1))" "usable p m1" by blast
    have go: "?cs < length buf \<and> int (length ms) < mx" using True less.prems(2) by simp
    from firstMatch_hits [of ?n b p bt 0 ?cs "length done + 1"] True
    consider (none) "firstMatch p bt True 0 b < 0" "hits p bt ?n ?cs (length done + 1) b = []"
      | (one) j where "firstMatch p bt True 0 b = int j"
        "found p ?n ?cs (length done + 1) b (hits p bt ?n ?cs (length done + 1) b) j" by auto
    then show ?thesis
    proof cases
      case none
      then show ?thesis using m1 go d by (subst grepLoop.simps) simp
    next
      case one
      then obtain ls l c where f: "b = joinL ls @ l @ c" "\<forall>x \<in> set ls. plain x" "plain l" "c = [] \<or> hd c = 10"
        "j = length (joinL ls @ l)"
        "hits p bt ?n ?cs (length done + 1) b =
          (length done + 1 + length ls, ?cs + length (joinL ls), ?cs + min (j + 1) (length b)) #
          hits p False (?n - 1) (?cs + min (j + 1) (length b)) (length done + 1 + length ls + 1) (tl c)"
        using one(2) unfolding found_def by blast
      define start where "start = ?cs + length (joinL ls)"
      define e where "e = min (Suc (j + ?cs)) (length buf)"
      have start: "nat (lastIndexByte 10 (take j b) + 1) + ?cs = start"
        using lastIndexByte_line [OF f(3), of ls] by (simp add: f(1,5) start_def)
      have nl: "countNL (take (start - ?cs) b) = length ls"
        using countNL_joinL [OF f(2), of "[]"] by (simp add: f(1) start_def)
      have ds: "\<forall>x \<in> set (done @ ls). plain x" using f(2) less.prems(3) by auto
      have bf: "buf = joinL (done @ ls) @ l @ c" using less.prems(2) f(1) by simp
      have ej: "e = min (length (joinL (done @ ls)) + length l + 1) (length buf)"
        by (simp add: e_def f(5) add.commute add.left_commute)
      have st: "start = length (joinL (done @ ls))" by (simp add: start_def)
      note rp = report_parts [OF bf ds f(3,4) ej]
      have bef: "extractBeforeContext buf start n = Inr (lastn n (dropEmptyFirst (done @ ls)))"
        using extractBefore_lines [OF ds, of "l @ c" n] bf st by (simp add: lastn_def)
      have jb: "j + ?cs \<le> length buf" by (simp add: bf f(5))
      let ?k = "length (done @ ls) + 1"
      have rep: "report buf fre n ?k = \<lparr>mLine = shown fre (trimRight {13, 10} l), mLineNumber = ?k,
          mBefore = truncateContextLines (lastn n (dropEmptyFirst (done @ ls))),
          mAfter = truncateContextLines (extractAfterContext buf e n)\<rparr>"
        using rp(1,2,4) by (simp add: report_def)
      have line: "trimRight {13, 10} (take (e - start) (drop start buf)) = trimRight {13, 10} l"
        unfolding st by (rule rp(3))
      have step: "grepLoop fre n mx buf ?cs bt (length done + 1) ms m =
          grepLoop fre n mx buf e False (?k + 1) (ms @ [report buf fre n ?k]) m1"
        unfolding grepLoop.simps [of fre n mx buf ?cs bt "length done + 1"] d rep
        using go m1(1) one(1) jb start nl bef truncateMatchLine_shown [OF assms(2)] line
        by (simp add: Let_def e_def [symmetric])
      have fst: "map fst (hits p bt ?n ?cs (length done + 1) b) =
          ?k # map fst (hits p False (?n - 1) (?cs + min (j + 1) (length b)) (?k + 1) (tl c))"
        unfolding f(6) by simp
      show ?thesis
      proof (cases c)
        case Nil
        then have "e = length buf" by (simp add: e_def f(5) bf)
        then have "grepLoop fre n mx buf e False (?k + 1) (ms @ [report buf fre n ?k]) m1 =
            Some (Inr (ms @ [report buf fre n ?k], m1))" by (subst grepLoop.simps) simp
        with step fst m1(2) Nil show ?thesis by simp
      next
        case (Cons x c')
        then have c: "c = 10 # c'" using f(4) by simp
        have bf': "buf = joinL (done @ ls @ [l]) @ c'" by (simp add: bf c)
        have e': "e = length (joinL (done @ ls @ [l]))" "?cs + min (j + 1) (length b) = length (joinL (done @ ls @ [l]))"
          by (simp_all add: e_def f(1,5) bf c)
        have "length c' < length b" by (simp add: f(1) c)
        from less.hyps [OF this m1(2) bf', of False "ms @ [report buf fre n ?k]"] ds f(3)
        obtain m' where "grepLoop fre n mx buf e False (?k + 1) (ms @ [report buf fre n ?k]) m1 =
          Some (Inr ((ms @ [report buf fre n ?k]) @ map (report buf fre n)
            (map fst (hits p False (nat (mx - (1 + int (length ms)))) (length (joinL (done @ ls @ [l]))) (?k + 1) c')), m'))"
          "usable p m'" by (auto simp: e')
        moreover have "nat (mx - (1 + int (length ms))) = ?n - 1" by simp
        ultimately show ?thesis using step fst e'(2) c by simp
      qed
    qed
  qed
qed

text \<open>The numbers of the lines that are reported, out of the segments.\<close>

fun lineNos :: "prog \<Rightarrow> bool \<Rightarrow> nat \<Rightarrow> byte list list \<Rightarrow> nat list" where
  "lineNos p bt k [] = []"
| "lineNos p bt k [l] = (if l \<noteq> [] \<and> lineMatches p bt True l then [k] else [])"
| "lineNos p bt k (l # l' # ls) =
     (if lineMatches p bt False l then k # lineNos p False (k + 1) (l' # ls)
      else if l' = [] \<and> ls = [] then (if lineMatches p False True [] then [k + 1] else [])
      else lineNos p False (k + 1) (l' # ls))"

lemma hits_lineNos: "map fst (hits p bt n off k b) = take n (lineNos p bt k (segs b))"
proof (induction "length b" arbitrary: b bt n off k rule: less_induct)
  case less
  show ?case
  proof (cases "n = 0")
    case False
    show ?thesis
    proof (cases b rule: line_cases)
      case last
      with False show ?thesis by (cases "b = []") (simp_all add: hits_last)
    next
      case (line l c)
      obtain x xs where c: "segs c = x # xs" by (cases "segs c") auto
      have "c = [] \<longleftrightarrow> x = [] \<and> xs = []" using segs_join [of c] c by (cases c) auto
      moreover have "map fst (hits p False n' off' k' c) = take n' (lineNos p False k' (x # xs))" for n' off' k'
        using less.hyps [of c False n' off' k'] line(2) c by simp
      ultimately show ?thesis
        using line False c by (cases n) (simp_all add: segs_append_nl hits_line)
    qed
  qed simp
qed

lemma grepData_ok:
  assumes "prog_ok p" "usable p m" "fre_ok fre"
  shows "\<exists>m'. grepData buf m fre n mx =
    Some (Inr (map (report buf fre n) (take (nat mx) (lineNos p True 1 (segs buf))), m')) \<and> usable p m'"
  using grepLoop_ok [OF assms(1,3,2), of buf "[]" buf n mx True "[]"]
  by (simp add: grepData_def hits_lineNos)

text \<open>
  C5. Searching the contents of a file reports exactly its matching lines, in order and at most
  as many as asked for: each with its number, its text without the line end, cut to the
  neighbourhood of the match if it is long, and the lines before and after it.  The segments of the
  buffer are its lines; the empty segment behind a last newline is reported only if the line
  before it does not match, and an empty first line is not shown as context.
\<close>

theorem grepData_reports_lines:
  assumes "prog_ok p" "usable p m" "fre_ok fre"
  shows "\<exists>m'. grepData buf m fre n mx =
    Some (Inr (map (report buf fre n) (take (nat mx) (lineNos p True 1 (segs buf))), m')) \<and> usable p m'"
  using assms by (rule grepData_ok)

theorem grepData_reports_lines_witness:
  "\<exists>m m'. matcherInit sampleProg = Some (Inr m) \<and>
     grepData [98, 10, 97, 10] m None 1 5 = Some (Inr (map (report [98, 10, 97, 10] None 1)
       (take 5 (lineNos sampleProg True 1 [[98], [97], []])), m'))"
proof -
  obtain m where m: "matcherInit sampleProg = Some (Inr m)" "usable sampleProg m" using sampleProg_made by blast
  have "fre_ok None" by (simp add: fre_ok_def)
  from grepData_reports_lines [OF sampleProg_ok m(2) this, of "[98, 10, 97, 10]" 1 5] m(1) show ?thesis by auto
qed

text \<open>
  What is shown of a line is bounded: a matched line is a part of the line, at most 250 bytes
  long, and contains the position of the match; a context line is its beginning, at most 250 bytes.
\<close>

lemma shown_bounded:
  assumes "fre_ok fre"
  shows "\<exists>r. truncateMatchLine l fre = Inr r \<and> length r \<le> 250 \<and>
    (\<exists>i. r = take (length r) (drop i l) \<and> i \<le> matchPos fre l \<and>
       (matchPos fre l < length l \<and> length l > 250 \<longrightarrow> matchPos fre l < i + length r)) \<and>
    list_all2 (\<lambda>x y. length x \<le> 250 \<and> x = take 250 y) (truncateContextLines ls) ls"
proof -
  have t: "list_all2 (\<lambda>x y. length x \<le> 250 \<and> x = take 250 y) (truncateContextLines ls) ls"
    by (induction ls) (simp_all add: truncateContextLines_def maxLineLen_match_def)
  have le: "matchPos fre l \<le> length l"
    using assms by (auto simp: matchPos_def fre_ok_def split: option.splits)
  have "length (shown fre l) \<le> 250" by (simp add: shown_def) arith
  moreover have "\<exists>i. shown fre l = take (length (shown fre l)) (drop i l) \<and> i \<le> matchPos fre l \<and>
       (matchPos fre l < length l \<and> length l > 250 \<longrightarrow> matchPos fre l < i + length (shown fre l))"
  proof (cases "length l \<le> 250")
    case True
    then show ?thesis by (intro exI [of _ 0]) (simp add: shown_def)
  next
    case False
    then show ?thesis using le by (intro exI [of _ "matchPos fre l - 100"]) (auto simp: shown_def drop_take min_def)
  qed
  ultimately show ?thesis using truncateMatchLine_shown [OF assms] t by blast
qed

lemma shown_bounded_witness:
  "\<exists>r. truncateMatchLine (replicate 300 97) (Some (\<lambda>l. if length l \<le> 150 then None else Some 150)) = Inr r \<and> length r \<le> 250"
proof -
  have "fre_ok (Some (\<lambda>l. if length l \<le> 150 then None else Some 150))" by (simp add: fre_ok_def)
  from shown_bounded [OF this, of "replicate 300 97" "[]"] show ?thesis by blast
qed

end
