(* ===== verification/Byte_Prog.thy ===== *)
theory Byte_Prog
  imports Matcher_Queue
begin

text \<open>
  From runes to bytes: \<open>toByteProg\<close> of \<open>internal/codesearch/regexp/utf.go\<close>, with the ranges of
  \<open>copy.go\<close> it uses.

  A program as the compiler of package syntax makes it has rune instructions; \<open>rinst\<close> is \<open>inst\<close> with
  the list of runes.  \<open>toByteProg\<close> replaces each of them by a machine on the bytes of the UTF-8
  encoding, appended to the program.  Runes are integers.  \<open>unicode.SimpleFold\<close> is an argument;
  the loops that go round an orbit of it are partial functions (\<open>None\<close> is a loop that does not end).
\<close>

unbundle bit_operations_syntax

section \<open>Ranges of runes\<close>

definition RuneSelf :: int where "RuneSelf = 0x80"
definition MaxRune :: int where "MaxRune = 0x10FFFF"

definition minFold :: int where "minFold = 0x41"
definition maxFold :: int where "maxFold = 0x1044f"

definition abuts :: "int list \<Rightarrow> nat \<Rightarrow> int \<Rightarrow> int \<Rightarrow> bool" where
  "abuts r i lo hi \<longleftrightarrow> length r \<ge> i \<and> lo \<le> r ! (length r - i + 1) + 1 \<and> r ! (length r - i) \<le> hi + 1"

definition widen :: "int list \<Rightarrow> nat \<Rightarrow> int \<Rightarrow> int \<Rightarrow> int list" where
  "widen r i lo hi = (let n = length r; r1 = (if lo < r ! (n - i) then r[n - i := lo] else r)
     in if hi > r ! (n - i + 1) then r1[n - i + 1 := hi] else r1)"

definition appendRange :: "int list \<Rightarrow> int \<Rightarrow> int \<Rightarrow> int list" where
  "appendRange r lo hi =
     (if abuts r 2 lo hi then widen r 2 lo hi
      else if abuts r 4 lo hi then widen r 4 lo hi
      else r @ [lo, hi])"

partial_function (option) foldOrbit :: "(int \<Rightarrow> int) \<Rightarrow> int \<Rightarrow> int \<Rightarrow> int list \<Rightarrow> int list res option" where
  "foldOrbit simpleFold c f r =
     (if f = c then Some (Inr r) else foldOrbit simpleFold c (simpleFold f) (appendRange r f f))"

declare foldOrbit.simps [code]

fun foldRunes :: "(int \<Rightarrow> int) \<Rightarrow> int list \<Rightarrow> int list \<Rightarrow> int list res option" where
  "foldRunes simpleFold [] r = Some (Inr r)"
| "foldRunes simpleFold (c # cs) r =
     obind (foldOrbit simpleFold c (simpleFold c) (appendRange r c c)) (foldRunes simpleFold cs)"

definition appendFoldedRange :: "(int \<Rightarrow> int) \<Rightarrow> int list \<Rightarrow> int \<Rightarrow> int \<Rightarrow> int list res option" where
  "appendFoldedRange simpleFold r lo hi =
     (if lo \<le> minFold \<and> hi \<ge> maxFold then Some (Inr (appendRange r lo hi))
      else if hi < minFold \<or> lo > maxFold then Some (Inr (appendRange r lo hi))
      else let r1 = (if lo < minFold then appendRange r lo (minFold - 1) else r);
               lo1 = (if lo < minFold then minFold else lo);
               r2 = (if hi > maxFold then appendRange r1 (maxFold + 1) hi else r1);
               hi1 = (if hi > maxFold then maxFold else hi)
           in foldRunes simpleFold [lo1..hi1] r2)"

section \<open>Single bytes\<close>

record rinst = inst +
  iRune :: "int list"

record rprog =
  rpInst :: "rinst list"
  rpStart :: u32

definition FoldCase :: u32 where "FoldCase = 1"

definition asciiFold :: "(int \<Rightarrow> int) \<Rightarrow> int \<Rightarrow> bool" where
  "asciiFold simpleFold r \<longleftrightarrow> r < RuneSelf \<and> (let r1 = simpleFold r in
     r1 < RuneSelf \<and> (r1 = r \<or> simpleFold r1 = r))"

definition oneByteRange :: "(int \<Rightarrow> int) \<Rightarrow> rinst \<Rightarrow> (byte \<times> byte \<times> bool) option res" where
  "oneByteRange simpleFold i =
     (let r = iRune i; n = length r; fold = (iArg i AND FoldCase \<noteq> 0) in
      if iOp i = InstRune1 \<and> n = 0 then Inl Range
      else if iOp i = InstRune1 \<and> r ! 0 < RuneSelf then Inr (Some (of_int (r ! 0), of_int (r ! 0), False))
      else if iOp i \<noteq> InstRune then Inr None
      else if n = 1 \<or> n = 2 \<and> r ! 0 = r ! 1 then
        (if r ! 0 \<ge> RuneSelf then Inr None
         else if fold \<and> \<not> asciiFold simpleFold (r ! 0) then Inr None
         else Inr (Some (of_int (r ! 0), of_int (r ! 0), fold)))
      else if n = 2 \<and> r ! 1 < RuneSelf then
        (if fold \<and> list_ex (asciiFold simpleFold) [r ! 0..r ! 1] then Inr None
         else Inr (Some (of_int (r ! 0), of_int (r ! 1), fold)))
      else if n = 4 \<and> r ! 0 = r ! 1 \<and> r ! 2 = r ! 3 \<and> simpleFold (r ! 0) = r ! 2 \<and> simpleFold (r ! 2) = r ! 0
      then Inr (Some (of_int (r ! 0), of_int (r ! 0), True))
      else Inr None)"

section \<open>The builder\<close>

definition maxRune :: "nat \<Rightarrow> int" where
  "maxRune n = (let b = (if n = 1 then 7 else 8 - (n + 1) + 6 * (n - 1)) in 2 ^ b - 1)"

text \<open>\<open>utf8.EncodeRune\<close>; a rune that is not valid is encoded as U+FFFD.\<close>

definition EncodeRune :: "int \<Rightarrow> byte list" where
  "EncodeRune r0 =
     (let r = (if r0 < 0 \<or> r0 > MaxRune \<or> 0xD800 \<le> r0 \<and> r0 \<le> 0xDFFF then 0xFFFD else r0) in
      if r \<le> 0x7F then [of_int r]
      else if r \<le> 0x7FF then [of_int (0xC0 + r div 64), of_int (0x80 + r mod 64)]
      else if r \<le> 0xFFFF then [of_int (0xE0 + r div 4096), of_int (0x80 + r div 64 mod 64), of_int (0x80 + r mod 64)]
      else [of_int (0xF0 + r div 262144), of_int (0x80 + r div 4096 mod 64),
            of_int (0x80 + r div 64 mod 64), of_int (0x80 + r mod 64)])"

record runeBuilder =
  rbBegin :: u32
  rbOut :: u32
  rbCache :: "(byte \<times> byte \<times> bool \<times> u32) \<Rightarrow> u32 option"
  rbInst :: "rinst list"

definition setOp :: "nat \<Rightarrow> iop \<Rightarrow> rinst list \<Rightarrow> rinst list" where
  "setOp pc opc is = is[pc := (is ! pc)\<lparr>iOp := opc\<rparr>]"

definition rbInit :: "rinst list \<Rightarrow> nat \<Rightarrow> u32 \<Rightarrow> runeBuilder" where
  "rbInit is begn outp = \<lparr>rbBegin = of_nat begn, rbOut = outp, rbCache = (\<lambda>_. None),
     rbInst = setOp begn InstFail is\<rparr>"

definition uncachedSuffix :: "byte \<Rightarrow> byte \<Rightarrow> bool \<Rightarrow> u32 \<Rightarrow> runeBuilder \<Rightarrow> u32 \<times> runeBuilder" where
  "uncachedSuffix lo hi foldc next b =
     (let next = (if next = 0 then rbOut b else next);
          arg = push_bit 8 (ucast lo) OR ucast hi :: u32
      in (of_nat (length (rbInst b)),
          b\<lparr>rbInst := rbInst b @ [\<lparr>iOp = InstByteRange, iOut = next,
              iArg = (if foldc then arg OR argFold else arg), iRune = []\<rparr>]\<rparr>))"

definition rbSuffix :: "byte \<Rightarrow> byte \<Rightarrow> bool \<Rightarrow> u32 \<Rightarrow> runeBuilder \<Rightarrow> u32 \<times> runeBuilder" where
  "rbSuffix lo hi foldc next b =
     (if lo < 0x80 \<or> hi > 0xbf then uncachedSuffix lo hi foldc next b
      else case rbCache b (lo, hi, foldc, next) of
        Some pc \<Rightarrow> (pc, b)
      | None \<Rightarrow> (let (pc, b1) = uncachedSuffix lo hi foldc next b
                 in (pc, b1\<lparr>rbCache := (rbCache b1)((lo, hi, foldc, next) \<mapsto> pc)\<rparr>)))"

definition addBranch :: "u32 \<Rightarrow> runeBuilder \<Rightarrow> runeBuilder res" where
  "addBranch pc b =
     (let k = unat (rbBegin b); is = rbInst b in
      if k \<ge> length is then Inl Range
      else let i = is ! k in
      if iOp i = InstFail then Inr (b\<lparr>rbInst := is[k := i\<lparr>iOp := InstNop, iOut := pc\<rparr>]\<rparr>)
      else if iOp i = InstNop then Inr (b\<lparr>rbInst := is[k := i\<lparr>iOp := InstAlt, iArg := pc\<rparr>]\<rparr>)
      else if iOp i = InstAlt then
        let apc = of_nat (length is) :: u32
        in Inr (b\<lparr>rbInst := is[k := i\<lparr>iArg := apc\<rparr>] @ [\<lparr>iOp = InstAlt, iOut = iArg i, iArg = pc, iRune = []\<rparr>],
                  rbBegin := apc\<rparr>)
      else Inr b)"

text \<open>The suffixes of one encoding, from its last byte to its first.\<close>

fun addSuffixes :: "(byte \<times> byte) list \<Rightarrow> u32 \<Rightarrow> runeBuilder \<Rightarrow> u32 \<times> runeBuilder" where
  "addSuffixes [] pc b = (pc, b)"
| "addSuffixes ((lo, hi) # bs) pc b = (let (pc1, b1) = rbSuffix lo hi False pc b in addSuffixes bs pc1 b1)"

text \<open>The lengths of encoding at which a range is split; the numbers of low bits at which its ends are
  not aligned, for the low end and for the high end.\<close>

definition splitLength :: "int \<Rightarrow> int \<Rightarrow> nat option" where
  "splitLength lo hi = find (\<lambda>i. lo \<le> maxRune i \<and> maxRune i < hi) [1, 2, 3]"

definition splitBits :: "int \<Rightarrow> int \<Rightarrow> nat option" where
  "splitBits lo hi = find (\<lambda>i. lo - take_bit (6 * i) lo \<noteq> hi - take_bit (6 * i) hi \<and>
     (take_bit (6 * i) lo \<noteq> 0 \<or> take_bit (6 * i) hi \<noteq> mask (6 * i))) [1, 2, 3]"

text \<open>Rounding to a multiple of \<open>2 ^ n\<close>.\<close>

lemma round_less:
  fixes lo hi :: int
  assumes "lo \<le> hi" "lo - take_bit n lo \<noteq> hi - take_bit n hi"
  shows "lo - take_bit n lo + mask n < hi - take_bit n hi"
proof -
  have q: "x - take_bit n x = x div 2 ^ n * 2 ^ n" for x :: int
    by (simp add: take_bit_eq_mod minus_mod_eq_div_mult)
  have "lo div 2 ^ n \<le> hi div 2 ^ n" using assms(1) by (simp add: zdiv_mono1)
  moreover have "lo div 2 ^ n \<noteq> hi div 2 ^ n" using assms(2) q by auto
  ultimately have "(lo div 2 ^ n + 1) * 2 ^ n \<le> hi div 2 ^ n * 2 ^ n" by simp
  then show ?thesis by (simp add: q mask_eq_exp_minus_1 algebra_simps)
qed

lemma splitLength_range: "splitLength lo hi = Some i \<Longrightarrow> lo \<le> maxRune i \<and> maxRune i < hi"
  by (simp add: splitLength_def split: if_splits)

lemma splitBits_cond: "splitBits lo hi = Some i \<Longrightarrow> lo - take_bit (6 * i) lo \<noteq> hi - take_bit (6 * i) hi \<and>
     (take_bit (6 * i) lo \<noteq> 0 \<or> take_bit (6 * i) hi \<noteq> mask (6 * i))"
  by (simp only: splitBits_def find_Some_iff) blast

lemma splitBits_less:
  assumes "lo \<le> hi" "splitBits lo hi = Some i"
  shows "lo - take_bit (6 * i) lo + mask (6 * i) < hi" "lo \<le> lo - take_bit (6 * i) lo + mask (6 * i)"
    "lo < hi - take_bit (6 * i) hi" "take_bit (6 * i) lo = 0 \<Longrightarrow> hi - take_bit (6 * i) hi - 1 < hi"
proof -
  note r = round_less [OF assms(1) conjunct1 [OF splitBits_cond [OF assms(2)]]]
  have t: "0 \<le> take_bit (6 * i) lo" "0 \<le> take_bit (6 * i) hi" "take_bit (6 * i) lo \<le> mask (6 * i)"
    by (simp_all add: take_bit_int_less_exp mask_eq_exp_minus_1 zle_diff1_eq)
  show "lo - take_bit (6 * i) lo + mask (6 * i) < hi" "lo \<le> lo - take_bit (6 * i) lo + mask (6 * i)"
    "lo < hi - take_bit (6 * i) hi" "take_bit (6 * i) lo = 0 \<Longrightarrow> hi - take_bit (6 * i) hi - 1 < hi"
    using r t by linarith+
qed

function addRange :: "int \<Rightarrow> int \<Rightarrow> bool \<Rightarrow> runeBuilder \<Rightarrow> runeBuilder res" where
  "addRange lo hi foldc b =
     (if lo > hi then Inr b
      else case splitLength lo hi of
        Some i \<Rightarrow> rbind (addRange lo (maxRune i) foldc b) (\<lambda>b1. addRange (maxRune i + 1) hi foldc b1)
      | None \<Rightarrow>
      if hi < RuneSelf then
        (let (pc, b1) = rbSuffix (of_int lo) (of_int hi) foldc 0 b in addBranch pc b1)
      else case splitBits lo hi of
        Some i \<Rightarrow>
          if take_bit (6 * i) lo \<noteq> 0 then
            rbind (addRange lo (lo - take_bit (6 * i) lo + mask (6 * i)) foldc b)
              (\<lambda>b1. addRange (lo - take_bit (6 * i) lo + mask (6 * i) + 1) hi foldc b1)
          else
            rbind (addRange lo (hi - take_bit (6 * i) hi - 1) foldc b)
              (\<lambda>b1. addRange (hi - take_bit (6 * i) hi) hi foldc b1)
      | None \<Rightarrow>
        let ulo = EncodeRune lo; uhi = EncodeRune hi
        in if length ulo \<noteq> length uhi then Inl Panic
           else let (pc, b1) = addSuffixes (rev (zip ulo uhi)) 0 b in addBranch pc b1)"
  by pat_completeness auto
termination
proof (relation "measure (\<lambda>(lo, hi, foldc, b). nat (hi + 1 - lo))", goal_cases)
  case (2 lo hi foldc b i)
  then show ?case using splitBits_less [OF _ 2(4)] by simp
next
  case (3 lo hi foldc b i b1)
  then show ?case using splitBits_less [OF _ 3(4)] by simp
next
  case (4 lo hi foldc b i)
  then show ?case using splitBits_less [OF _ 4(4)] splitBits_cond [OF 4(4)] by simp
next
  case (5 lo hi foldc b i b1)
  then show ?case using splitBits_less [OF _ 5(4)] by simp
next
  case (6 lo hi foldc b i)
  then show ?case using splitLength_range [OF 6(2)] by simp
next
  case (7 lo hi foldc b i b1)
  then show ?case using splitLength_range [OF 7(2)] by simp
qed simp

declare addRange.simps [simp del]

section \<open>The program\<close>

fun addRanges :: "int list \<Rightarrow> runeBuilder \<Rightarrow> runeBuilder res" where
  "addRanges [] b = Inr b"
| "addRanges [x] b = Inl Range"
| "addRanges (lo # hi # r) b = rbind (addRange lo hi False b) (addRanges r)"

definition addRunes :: "int list \<Rightarrow> runeBuilder \<Rightarrow> runeBuilder res" where
  "addRunes r b = (if length r = 1 then addRange (r ! 0) (r ! 0) False b else addRanges r b)"

fun foldedRanges :: "(int \<Rightarrow> int) \<Rightarrow> int list \<Rightarrow> int list \<Rightarrow> int list res option" where
  "foldedRanges sf [] rr = Some (Inr rr)"
| "foldedRanges sf [x] rr = Some (Inl Range)"
| "foldedRanges sf (lo # hi # r) rr = obind (appendFoldedRange sf rr lo hi) (foldedRanges sf r)"

definition foldedList :: "(int \<Rightarrow> int) \<Rightarrow> int list \<Rightarrow> int list res option" where
  "foldedList sf r = (if length r = 1 then appendFoldedRange sf [] (r ! 0) (r ! 0) else foldedRanges sf r [])"

definition byteInst :: "(int \<Rightarrow> int) \<Rightarrow> nat \<Rightarrow> rinst list \<Rightarrow> rinst list res option" where
  "byteInst sf pc is =
     (let i = is ! pc in
      if iOp i = InstRune \<or> iOp i = InstRune1 then
        obind (Some (oneByteRange sf i)) (\<lambda>one. case one of
          Some (lo, hi, foldc) \<Rightarrow>
            (let arg = push_bit 8 (ucast lo) OR ucast hi :: u32
             in Some (Inr (is[pc := i\<lparr>iOp := InstByteRange, iArg := (if foldc then arg OR argFold else arg)\<rparr>])))
        | None \<Rightarrow>
            obind (if iArg i AND FoldCase \<noteq> 0 then foldedList sf (iRune i) else Some (Inr (iRune i))) (\<lambda>r.
              Some (rbind (addRunes r (rbInit is pc (iOut i))) (\<lambda>b. Inr (rbInst b)))))
      else if iOp i = InstRuneAny \<or> iOp i = InstRuneAnyNotNL then
        Some (rbind (addRange 0 MaxRune False (rbInit is pc (iOut i))) (\<lambda>b. Inr (rbInst b)))
      else Some (Inr is))"

fun byteInsts :: "(int \<Rightarrow> int) \<Rightarrow> nat list \<Rightarrow> rinst list \<Rightarrow> rinst list res option" where
  "byteInsts sf [] is = Some (Inr is)"
| "byteInsts sf (pc # pcs) is = obind (byteInst sf pc is) (byteInsts sf pcs)"

text \<open>The result, without the runes, is the program of the matcher.\<close>

definition toByteProg :: "(int \<Rightarrow> int) \<Rightarrow> rprog \<Rightarrow> prog res option" where
  "toByteProg sf p = obind (byteInsts sf [0..<length (rpInst p)] (rpInst p)) (\<lambda>is.
     Some (Inr \<lparr>pInst = map inst.truncate is, pStart = rpStart p\<rparr>))"

section \<open>The builder is total\<close>

lemma maxRune_vals: "maxRune 1 = 0x7F" "maxRune 2 = 0x7FF" "maxRune 3 = 0xFFFF"
  by (simp_all add: maxRune_def)

lemma splitLength_None:
  assumes "splitLength lo hi = None" "lo \<le> hi"
  shows "hi \<le> 0x7F \<or> 0x80 \<le> lo \<and> hi \<le> 0x7FF \<or> 0x800 \<le> lo \<and> hi \<le> 0xFFFF \<or> 0x10000 \<le> lo"
proof -
  have "\<not> (lo \<le> 0x7F \<and> 0x7F < hi)" "\<not> (lo \<le> 0x7FF \<and> 0x7FF < hi)" "\<not> (lo \<le> 0xFFFF \<and> 0xFFFF < hi)"
    using assms(1) maxRune_vals by (auto simp: splitLength_def split: if_splits)
  then show ?thesis by linarith
qed

lemma EncodeRune_length:
  assumes "0 \<le> r" "r \<le> MaxRune"
  shows "length (EncodeRune r) = (if r \<le> 0x7F then 1 else if r \<le> 0x7FF then 2 else if r \<le> 0xFFFF then 3 else 4)"
  using assms by (auto simp: EncodeRune_def Let_def)

definition begun :: "runeBuilder \<Rightarrow> bool" where
  "begun b \<longleftrightarrow> unat (rbBegin b) < length (rbInst b)"

lemma unat_of_nat_le: "unat (of_nat n :: u32) \<le> n"
  by (simp add: unat_of_nat take_bit_nat_less_eq_self)

lemma rbSuffix_begun: "begun b \<Longrightarrow> begun (snd (rbSuffix lo hi f n b))"
  by (auto simp: rbSuffix_def uncachedSuffix_def begun_def Let_def split: option.split)

lemma addSuffixes_begun: "begun b \<Longrightarrow> begun (snd (addSuffixes bs pc b))"
proof (induction bs pc b rule: addSuffixes.induct)
  case (2 lo hi bs pc b)
  then show ?case using rbSuffix_begun [of b lo hi False pc] by (auto simp: Let_def split: prod.split)
qed simp

lemma addBranch_begun: "begun b \<Longrightarrow> \<exists>b'. addBranch pc b = Inr b' \<and> begun b'"
  using unat_of_nat_le [of "length (rbInst b)"]
  by (auto simp: addBranch_def begun_def Let_def less_Suc_eq_le)

lemma addRange_total:
  "begun b \<Longrightarrow> 0 \<le> lo \<Longrightarrow> hi \<le> MaxRune \<Longrightarrow> \<exists>b'. addRange lo hi f b = Inr b' \<and> begun b'"
proof (induction lo hi f b rule: addRange.induct)
  case (1 lo hi f b)
  show ?case
  proof (cases "lo > hi")
    case True
    with 1 show ?thesis by (subst addRange.simps) simp
  next
    case le: False
    show ?thesis
    proof (cases "splitLength lo hi")
      case (Some i)
      note mx = splitLength_range [OF Some]
      obtain b1 where b1: "addRange lo (maxRune i) f b = Inr b1" "begun b1"
        using 1(5) [OF le Some 1(7,8)] mx 1(9) by auto
      obtain b2 where "addRange (maxRune i + 1) hi f b1 = Inr b2" "begun b2"
        using 1(6) [OF le Some b1(1) b1(2)] mx 1(8,9) by auto
      with b1 le Some show ?thesis by (subst addRange.simps) simp
    next
      case None
      note len = splitLength_None [OF None]
      show ?thesis
      proof (cases "hi < RuneSelf")
        case True
        obtain pc b1 where s: "rbSuffix (of_int lo) (of_int hi) f 0 b = (pc, b1)" by fastforce
        then have "begun b1" using rbSuffix_begun [OF 1(7), of "of_int lo" "of_int hi" f 0] by simp
        with addBranch_begun [of b1 pc] s True None le show ?thesis by (subst addRange.simps) simp
      next
        case False
        show ?thesis
        proof (cases "splitBits lo hi")
          case sb: (Some i)
          note sl = splitBits_less [OF _ sb]
          show ?thesis
          proof (cases "take_bit (6 * i) lo = 0")
            case z: False
            obtain b1 where b1: "addRange lo (lo - take_bit (6 * i) lo + mask (6 * i)) f b = Inr b1" "begun b1"
              using 1(1) [OF le None False sb z 1(7,8)] sl(1) 1(9) le by auto
            obtain b2 where "addRange (lo - take_bit (6 * i) lo + mask (6 * i) + 1) hi f b1 = Inr b2" "begun b2"
              using 1(2) [OF le None False sb z b1(1) b1(2)] sl(2) 1(8,9) le by auto
            with b1 le None False sb z show ?thesis by (subst addRange.simps) simp
          next
            case z: True
            then have zz: "\<not> take_bit (6 * i) lo \<noteq> 0" by simp
            obtain b1 where b1: "addRange lo (hi - take_bit (6 * i) hi - 1) f b = Inr b1" "begun b1"
              using 1(3) [OF le None False sb zz 1(7,8)] sl(4) 1(9) le z by auto
            obtain b2 where "addRange (hi - take_bit (6 * i) hi) hi f b1 = Inr b2" "begun b2"
              using 1(4) [OF le None False sb zz b1(1) b1(2)] sl(3) 1(8,9) le z by auto
            with b1 le None False sb z show ?thesis by (subst addRange.simps) simp
          qed
        next
          case sb: None
          have "length (EncodeRune lo) = length (EncodeRune hi)"
            using len le 1(8,9) by (auto simp: EncodeRune_length)
          moreover obtain pc b1 where s: "addSuffixes (rev (zip (EncodeRune lo) (EncodeRune hi))) 0 b = (pc, b1)"
            by fastforce
          moreover have "begun b1"
            using addSuffixes_begun [OF 1(7), of "rev (zip (EncodeRune lo) (EncodeRune hi))" 0] s by simp
          ultimately show ?thesis using addBranch_begun [of b1 pc] le None False sb
            by (subst addRange.simps) simp
        qed
      qed
    qed
  qed
qed

text \<open>Reasoning about \<open>addRange\<close>: every split is a cut of the range, and at the end one branch is
  added.\<close>

lemma addRange_rule:
  assumes emp: "\<And>lo hi b. lo > hi \<Longrightarrow> Q lo hi b b"
    and cut: "\<And>lo m hi b b1 b2. lo \<le> m \<Longrightarrow> m < hi \<Longrightarrow> Q lo m b b1 \<Longrightarrow> Q (m + 1) hi b1 b2 \<Longrightarrow> Q lo hi b b2"
    and asc: "\<And>lo hi f b pc b1 b2. lo \<le> hi \<Longrightarrow> hi < RuneSelf \<Longrightarrow>
      rbSuffix (of_int lo) (of_int hi) f 0 b = (pc, b1) \<Longrightarrow> addBranch pc b1 = Inr b2 \<Longrightarrow> Q lo hi b b2"
    and enc: "\<And>lo hi b pc b1 b2. lo \<le> hi \<Longrightarrow> \<not> hi < RuneSelf \<Longrightarrow> splitLength lo hi = None \<Longrightarrow> splitBits lo hi = None \<Longrightarrow>
      length (EncodeRune lo) = length (EncodeRune hi) \<Longrightarrow>
      addSuffixes (rev (zip (EncodeRune lo) (EncodeRune hi))) 0 b = (pc, b1) \<Longrightarrow> addBranch pc b1 = Inr b2 \<Longrightarrow> Q lo hi b b2"
  shows "addRange lo hi f b = Inr b' \<Longrightarrow> Q lo hi b b'"
proof (induction lo hi f b arbitrary: b' rule: addRange.induct [case_names step])
  case (step lo hi f b)
  show ?case
  proof (cases "lo > hi")
    case True
    with step.prems emp show ?thesis by (subst (asm) addRange.simps) simp
  next
    case le: False
    show ?thesis
    proof (cases "splitLength lo hi")
      case (Some i)
      from step.prems le Some obtain b1 where
        "addRange lo (maxRune i) f b = Inr b1" "addRange (maxRune i + 1) hi f b1 = Inr b'"
        by (subst (asm) addRange.simps) (auto simp: rbind_Inr_iff)
      with step.IH(5,6) [OF le Some] splitLength_range [OF Some] cut show ?thesis by blast
    next
      case None
      show ?thesis
      proof (cases "hi < RuneSelf")
        case True
        with step.prems le None obtain pc b1 where "rbSuffix (of_int lo) (of_int hi) f 0 b = (pc, b1)"
          "addBranch pc b1 = Inr b'" by (subst (asm) addRange.simps) (auto split: prod.splits)
        with asc le True show ?thesis by (simp add: not_less)
      next
        case False
        show ?thesis
        proof (cases "splitBits lo hi")
          case sb: (Some i)
          note sl = splitBits_less [OF _ sb]
          show ?thesis
          proof (cases "take_bit (6 * i) lo = 0")
            case z: False
            from step.prems le None False sb z obtain b1 where
              "addRange lo (lo - take_bit (6 * i) lo + mask (6 * i)) f b = Inr b1"
              "addRange (lo - take_bit (6 * i) lo + mask (6 * i) + 1) hi f b1 = Inr b'"
              by (subst (asm) addRange.simps) (auto simp: rbind_Inr_iff)
            with step.IH(1,2) [OF le None False sb z] sl(1,2) le cut show ?thesis by (meson not_less)
          next
            case z: True
            then have zz: "\<not> take_bit (6 * i) lo \<noteq> 0" by simp
            from step.prems le None False sb z obtain b1 where
              b1: "addRange lo (hi - take_bit (6 * i) hi - 1) f b = Inr b1"
              "addRange (hi - take_bit (6 * i) hi) hi f b1 = Inr b'"
              by (subst (asm) addRange.simps) (auto simp: rbind_Inr_iff)
            have "Q lo (hi - take_bit (6 * i) hi - 1) b b1" "Q (hi - take_bit (6 * i) hi - 1 + 1) hi b1 b'"
              using step.IH(3,4) [OF le None False sb zz] b1 by simp_all
            with sl(3,4) le z show ?thesis by (intro cut [of lo "hi - take_bit (6 * i) hi - 1" hi b b1 b']) auto
          qed
        next
          case sb: None
          with step.prems le None False obtain pc b1 where
            "addSuffixes (rev (zip (EncodeRune lo) (EncodeRune hi))) 0 b = (pc, b1)" "addBranch pc b1 = Inr b'"
            "length (EncodeRune lo) = length (EncodeRune hi)"
            by (subst (asm) addRange.simps) (auto simp: Let_def split: prod.splits if_splits)
          with enc le False None sb show ?thesis by (simp add: not_less)
        qed
      qed
    qed
  qed
qed

section \<open>The program stays well-formed\<close>

definition rinst_ok :: "nat \<Rightarrow> rinst \<Rightarrow> bool" where
  "rinst_ok n i \<longleftrightarrow> (iOp i \<noteq> InstMatch \<and> iOp i \<noteq> InstFail \<longrightarrow> unat (iOut i) < n) \<and>
     (iOp i = InstAlt \<or> iOp i = InstAltMatch \<longrightarrow> unat (iArg i) < n)"

definition insts_ok :: "rinst list \<Rightarrow> bool" where
  "insts_ok is \<longleftrightarrow> (\<forall>i \<in> set is. rinst_ok (length is) i)"

definition binv :: "runeBuilder \<Rightarrow> bool" where
  "binv b \<longleftrightarrow> begun b \<and> unat (rbOut b) < length (rbInst b) \<and> insts_ok (rbInst b) \<and>
     (\<forall>k pc. rbCache b k = Some pc \<longrightarrow> unat pc < length (rbInst b))"

lemma rinst_ok_mono: "rinst_ok n i \<Longrightarrow> n \<le> m \<Longrightarrow> rinst_ok m i"
  by (auto simp: rinst_ok_def)

lemma insts_ok_snoc: "insts_ok is \<Longrightarrow> rinst_ok (Suc (length is)) i \<Longrightarrow> insts_ok (is @ [i])"
  by (auto simp: insts_ok_def intro: rinst_ok_mono)

lemma insts_ok_upd: "insts_ok is \<Longrightarrow> rinst_ok (length is) i \<Longrightarrow> insts_ok (is[k := i])"
  by (auto simp: insts_ok_def dest: set_update_subset_insert [THEN subsetD])

lemma u32_of_nat [simp]: "n < 2 ^ 32 \<Longrightarrow> unat (of_nat n :: u32) = n"
  by (simp add: unat_of_nat take_bit_nat_eq_self)

lemma uncachedSuffix_binv:
  assumes "uncachedSuffix lo hi f nx b = (pc, b')" "length (rbInst b') < 2 ^ 32" "binv b"
    "nx = 0 \<or> unat nx < length (rbInst b)"
  shows "binv b'" "unat pc < length (rbInst b')"
proof -
  have b': "rbInst b' = rbInst b @ [\<lparr>iOp = InstByteRange, iOut = (if nx = 0 then rbOut b else nx),
      iArg = (if f then (push_bit 8 (ucast lo) OR ucast hi) OR argFold else push_bit 8 (ucast lo) OR ucast hi),
      iRune = []\<rparr>]"
    "rbOut b' = rbOut b" "rbCache b' = rbCache b" "rbBegin b' = rbBegin b" "pc = of_nat (length (rbInst b))"
    using assms(1) by (auto simp: uncachedSuffix_def Let_def)
  show "unat pc < length (rbInst b')" using assms(2) b' by simp
  show "binv b'" using assms(3,4) unfolding binv_def begun_def b'
    by (auto simp: rinst_ok_def intro!: insts_ok_snoc less_SucI)
qed

lemma rbSuffix_len:
  "rbSuffix lo hi f nx b = (pc, b') \<Longrightarrow> length (rbInst b) \<le> length (rbInst b') \<and> rbOut b' = rbOut b"
  by (auto simp: rbSuffix_def uncachedSuffix_def Let_def split: if_splits option.splits)

lemma rbSuffix_binv:
  assumes "rbSuffix lo hi f nx b = (pc, b')" "length (rbInst b') < 2 ^ 32" "binv b"
    "nx = 0 \<or> unat nx < length (rbInst b)"
  shows "binv b' \<and> unat pc < length (rbInst b')"
proof -
  obtain pc1 b1 where u: "uncachedSuffix lo hi f nx b = (pc1, b1)" by fastforce
  consider (new) "pc = pc1" "b' = b1" | (hit) "rbCache b (lo, hi, f, nx) = Some pc" "b' = b"
    | (miss) "pc = pc1" "b' = b1\<lparr>rbCache := (rbCache b1)((lo, hi, f, nx) \<mapsto> pc1)\<rparr>"
    using assms(1) unfolding rbSuffix_def u by (auto split: if_splits option.splits)
  then show ?thesis
  proof cases
    case new
    with uncachedSuffix_binv [OF u] assms show ?thesis by blast
  next
    case hit
    with assms(3) show ?thesis by (auto simp: binv_def)
  next
    case miss
    then have "binv b1" "unat pc1 < length (rbInst b1)"
      using uncachedSuffix_binv [OF u _ assms(3,4)] assms(2) by simp_all
    then show ?thesis by (auto simp: miss binv_def begun_def)
  qed
qed

lemma addSuffixes_len:
  "addSuffixes bs pc b = (pc', b') \<Longrightarrow> length (rbInst b) \<le> length (rbInst b') \<and> rbOut b' = rbOut b"
proof (induction bs pc b rule: addSuffixes.induct)
  case (2 lo hi bs pc b)
  obtain pc1 b1 where "rbSuffix lo hi False pc b = (pc1, b1)" by fastforce
  with 2 rbSuffix_len [OF this] show ?case by fastforce
qed simp

lemma addSuffixes_binv:
  "addSuffixes bs pc b = (pc', b') \<Longrightarrow> length (rbInst b') < 2 ^ 32 \<Longrightarrow> binv b \<Longrightarrow>
    bs = [] \<and> unat pc < length (rbInst b) \<or> bs \<noteq> [] \<and> (pc = 0 \<or> unat pc < length (rbInst b)) \<Longrightarrow>
    binv b' \<and> unat pc' < length (rbInst b')"
proof (induction bs pc b rule: addSuffixes.induct)
  case (2 lo hi bs pc b)
  obtain pc1 b1 where s: "rbSuffix lo hi False pc b = (pc1, b1)" by fastforce
  with 2(2) have r: "addSuffixes bs pc1 b1 = (pc', b')" by simp
  have "length (rbInst b1) < 2 ^ 32" using addSuffixes_len [OF r] 2(3) by simp
  with rbSuffix_binv [OF s] 2(4,5) have "binv b1" "unat pc1 < length (rbInst b1)" by auto
  with 2(1) [OF refl s [symmetric] r 2(3)] s show ?case by auto
qed simp

lemma addBranch_len: "addBranch pc b = Inr b' \<Longrightarrow> length (rbInst b) \<le> length (rbInst b') \<and> rbOut b' = rbOut b"
  by (auto simp: addBranch_def Let_def split: if_splits)

lemma addBranch_binv:
  assumes "addBranch pc b = Inr b'" "length (rbInst b') < 2 ^ 32" "binv b" "unat pc < length (rbInst b)"
  shows "binv b'"
proof -
  let ?k = "unat (rbBegin b)" and ?is = "rbInst b"
  have k: "?k < length ?is" using assms(3) by (simp add: binv_def begun_def)
  then have i: "rinst_ok (length ?is) (?is ! ?k)" using assms(3) by (simp add: binv_def insts_ok_def)
  consider (fail) "b' = b\<lparr>rbInst := ?is[?k := (?is ! ?k)\<lparr>iOp := InstNop, iOut := pc\<rparr>]\<rparr>"
    | (nop) "iOp (?is ! ?k) = InstNop" "b' = b\<lparr>rbInst := ?is[?k := (?is ! ?k)\<lparr>iOp := InstAlt, iArg := pc\<rparr>]\<rparr>"
    | (alt) "iOp (?is ! ?k) = InstAlt"
      "b' = b\<lparr>rbInst := ?is[?k := (?is ! ?k)\<lparr>iArg := of_nat (length ?is)\<rparr>] @
          [\<lparr>iOp = InstAlt, iOut = iArg (?is ! ?k), iArg = pc, iRune = []\<rparr>], rbBegin := of_nat (length ?is)\<rparr>"
    | (none) "b' = b"
    using assms(1) k by (auto simp: addBranch_def Let_def split: if_splits)
  then show ?thesis
  proof cases
    case fail
    then show ?thesis using assms(3,4) by (auto simp: binv_def begun_def rinst_ok_def intro!: insts_ok_upd)
  next
    case nop
    then show ?thesis using assms(3,4) i by (auto simp: binv_def begun_def rinst_ok_def intro!: insts_ok_upd)
  next
    case alt
    have n: "Suc (length ?is) < 2 ^ 32" using assms(2) alt by simp
    have "insts_ok (rbInst b')"
      using assms(3,4) i alt(1) n k
      by (auto simp: alt(2) insts_ok_def binv_def rinst_ok_def dest!: set_update_subset_insert [THEN subsetD]
          intro: less_SucI)
    then show ?thesis using assms(3) n by (auto simp: binv_def begun_def alt(2) intro: less_SucI)
  next
    case none
    with assms(3) show ?thesis by simp
  qed
qed

definition grows :: "int \<Rightarrow> int \<Rightarrow> runeBuilder \<Rightarrow> runeBuilder \<Rightarrow> bool" where
  "grows lo hi b b' \<longleftrightarrow> length (rbInst b) \<le> length (rbInst b') \<and>
     (length (rbInst b') < 2 ^ 32 \<longrightarrow> binv b \<longrightarrow> binv b')"

lemma addRange_grows: "addRange lo hi f b = Inr b' \<Longrightarrow> grows lo hi b b'"
proof (rule addRange_rule [of grows lo hi f b b'], goal_cases)
  case (1 lo hi b)
  then show ?case by (simp add: grows_def)
next
  case (2 lo m hi b b1 b2)
  then show ?case by (auto simp: grows_def)
next
  case (3 lo hi f b pc b1 b2)
  show ?case
    using rbSuffix_len [OF 3(4)] rbSuffix_binv [OF 3(4)] addBranch_len [OF 3(5)] addBranch_binv [OF 3(5)]
    by (auto simp: grows_def)
next
  case (4 lo hi b pc b1 b2)
  have "EncodeRune lo \<noteq> []" by (simp add: EncodeRune_def Let_def)
  then have "rev (zip (EncodeRune lo) (EncodeRune hi)) \<noteq> []" using 4(6) by (cases "EncodeRune hi") auto
  then show ?case
    using addSuffixes_len [OF 4(7)] addSuffixes_binv [OF 4(7)] addBranch_len [OF 4(8)] addBranch_binv [OF 4(8)]
    by (auto simp: grows_def)
qed

text \<open>Only the instruction being replaced changes; the new ones are on bytes.\<close>

definition byteOps :: "iop set" where
  "byteOps = {InstByteRange, InstAlt, InstNop, InstFail}"

definition frame :: "rinst list \<Rightarrow> nat \<Rightarrow> runeBuilder \<Rightarrow> bool" where
  "frame is k b \<longleftrightarrow> k < length is \<and> length is \<le> length (rbInst b) \<and>
     (\<forall>j < length is. j \<noteq> k \<longrightarrow> rbInst b ! j = is ! j) \<and>
     (\<forall>j < length (rbInst b). length is \<le> j \<or> j = k \<longrightarrow> iOp (rbInst b ! j) \<in> byteOps) \<and>
     (unat (rbBegin b) = k \<or> length is \<le> unat (rbBegin b))"

lemma frame_snoc:
  "frame is k b \<Longrightarrow> iOp i \<in> byteOps \<Longrightarrow> frame is k (b\<lparr>rbInst := rbInst b @ [i]\<rparr>)"
  by (auto simp: frame_def nth_append less_Suc_eq)

lemma byteOps_simps [simp]:
  "InstByteRange \<in> byteOps" "InstAlt \<in> byteOps" "InstNop \<in> byteOps" "InstFail \<in> byteOps"
  by (simp_all add: byteOps_def)

lemma frame_cache [simp]: "frame is k (b\<lparr>rbCache := c\<rparr>) = frame is k b"
  by (simp add: frame_def)

lemma uncachedSuffix_frame: "uncachedSuffix lo hi f nx b = (pc, b') \<Longrightarrow> frame is k b \<Longrightarrow> frame is k b'"
  by (auto simp: uncachedSuffix_def Let_def intro!: frame_snoc)

lemma rbSuffix_frame:
  assumes "rbSuffix lo hi f nx b = (pc, b')" "frame is k b"
  shows "frame is k b'"
proof -
  obtain pc1 b1 where u: "uncachedSuffix lo hi f nx b = (pc1, b1)" by fastforce
  from assms uncachedSuffix_frame [OF u assms(2)] show ?thesis
    unfolding rbSuffix_def u by (auto split: if_splits option.splits)
qed

lemma addSuffixes_frame: "addSuffixes bs pc b = (pc', b') \<Longrightarrow> frame is k b \<Longrightarrow> frame is k b'"
proof (induction bs pc b rule: addSuffixes.induct)
  case (2 lo hi bs pc b)
  obtain pc1 b1 where "rbSuffix lo hi False pc b = (pc1, b1)" by fastforce
  with 2 rbSuffix_frame [OF this] show ?case by fastforce
qed simp

lemma frame_begin: "frame is k b \<Longrightarrow> length is \<le> unat e \<Longrightarrow> frame is k (b\<lparr>rbBegin := e\<rparr>)"
  by (simp add: frame_def)

lemma nth_list_update_eq_if: "j < length xs \<Longrightarrow> xs[k := x] ! j = (if j = k then x else xs ! j)"
  by (simp add: nth_list_update)

lemma addBranch_frame:
  assumes "addBranch pc b = Inr b'" "length (rbInst b') < 2 ^ 32" "frame is k b"
  shows "frame is k b'"
proof -
  let ?k = "unat (rbBegin b)"
  have k: "?k = k \<or> length is \<le> ?k" using assms(3) by (simp add: frame_def)
  have upd: "frame is k (b\<lparr>rbInst := (rbInst b)[?k := i]\<rparr>)" if "iOp i \<in> byteOps" for i
    using assms(3) k that by (auto simp: frame_def nth_list_update_eq_if)
  show ?thesis
  proof (cases "iOp (rbInst b ! ?k) = InstAlt")
    case True
    with assms(1,2) have n: "length (rbInst b) < 2 ^ 32" by (auto simp: addBranch_def Let_def split: if_splits)
    have le: "length is \<le> unat (of_nat (length (rbInst b)) :: u32)" using assms(3) n by (simp add: frame_def)
    have "frame is k (b\<lparr>rbInst := (rbInst b)[?k := i] @ [j], rbBegin := of_nat (length (rbInst b))\<rparr>)"
      if "iOp i \<in> byteOps" "iOp j \<in> byteOps" for i j
      using frame_begin [OF frame_snoc [OF upd [OF that(1)] that(2)] le] by simp
    then show ?thesis using assms(1) True
      by (auto simp: addBranch_def Let_def split: if_splits)
  next
    case False
    with assms(1,3) upd show ?thesis by (auto simp: addBranch_def Let_def split: if_splits)
  qed
qed

definition runes_ok :: "int list \<Rightarrow> bool" where
  "runes_ok r \<longleftrightarrow> (\<forall>x \<in> set r. 0 \<le> x \<and> x \<le> MaxRune)"

text \<open>What the compiler of package syntax promises: targets exist, and the runes of a rune instruction
  are one rune or pairs of runes, none at all for a class that is empty, such as \<open>[^\s\S]\<close>; the instruction for
  a single rune has one.\<close>

definition runeOps :: "iop set" where
  "runeOps = {InstRune, InstRune1, InstRuneAny, InstRuneAnyNotNL}"

definition rune_inst_ok :: "rinst \<Rightarrow> bool" where
  "rune_inst_ok i \<longleftrightarrow> (iOp i = InstRune \<or> iOp i = InstRune1 \<longrightarrow>
     runes_ok (iRune i) \<and> (iOp i = InstRune1 \<longrightarrow> iRune i \<noteq> []) \<and> (length (iRune i) = 1 \<or> even (length (iRune i))))"

text \<open>The builder never makes a rune instruction.\<close>

abbreviation runes_in :: "runeBuilder \<Rightarrow> bool" where
  "runes_in b \<equiv> list_all rune_inst_ok (rbInst b)"

lemma runes_upd: "list_all rune_inst_ok is \<Longrightarrow> rune_inst_ok i \<Longrightarrow> list_all rune_inst_ok (is[k := i])"
  by (auto simp: list_all_iff dest: set_update_subset_insert [THEN subsetD])

lemma rbSuffix_runes: "rbSuffix lo hi f nx b = (pc, b') \<Longrightarrow> runes_in b \<Longrightarrow> runes_in b'"
  by (auto simp: rbSuffix_def uncachedSuffix_def Let_def rune_inst_ok_def split: if_splits option.splits)

lemma addSuffixes_runes: "addSuffixes bs pc b = (pc', b') \<Longrightarrow> runes_in b \<Longrightarrow> runes_in b'"
proof (induction bs pc b rule: addSuffixes.induct)
  case (2 lo hi bs pc b)
  obtain pc1 b1 where "rbSuffix lo hi False pc b = (pc1, b1)" by fastforce
  with 2 rbSuffix_runes [OF this] show ?case by fastforce
qed simp

lemma addBranch_runes: "addBranch pc b = Inr b' \<Longrightarrow> runes_in b \<Longrightarrow> runes_in b'"
  by (auto simp: addBranch_def Let_def rune_inst_ok_def intro!: runes_upd split: if_splits)

definition frames :: "rinst list \<Rightarrow> nat \<Rightarrow> int \<Rightarrow> int \<Rightarrow> runeBuilder \<Rightarrow> runeBuilder \<Rightarrow> bool" where
  "frames is k lo hi b b' \<longleftrightarrow> length (rbInst b) \<le> length (rbInst b') \<and> (runes_in b \<longrightarrow> runes_in b') \<and>
     (length (rbInst b') < 2 ^ 32 \<longrightarrow> frame is k b \<longrightarrow> frame is k b')"

lemma addRange_frames: "addRange lo hi f b = Inr b' \<Longrightarrow> frames is k lo hi b b'"
proof (rule addRange_rule [of "frames is k" lo hi f b b'], goal_cases)
  case (1 lo hi b)
  then show ?case by (simp add: frames_def)
next
  case (2 lo m hi b b1 b2)
  then show ?case by (auto simp: frames_def)
next
  case (3 lo hi f b pc b1 b2)
  show ?case
    using rbSuffix_len [OF 3(4)] rbSuffix_frame [OF 3(4)] addBranch_len [OF 3(5)] addBranch_frame [OF 3(5)] rbSuffix_runes [OF 3(4)] addBranch_runes [OF 3(5)]
    by (auto simp: frames_def)
next
  case (4 lo hi b pc b1 b2)
  show ?case
    using addSuffixes_len [OF 4(7)] addSuffixes_frame [OF 4(7)] addBranch_len [OF 4(8)] addBranch_frame [OF 4(8)] addSuffixes_runes [OF 4(7)] addBranch_runes [OF 4(8)]
    by (auto simp: frames_def)
qed

section \<open>Lists of runes\<close>

lemma addRanges_total:
  "begun b \<Longrightarrow> runes_ok r \<Longrightarrow> even (length r) \<Longrightarrow> \<exists>b'. addRanges r b = Inr b' \<and> begun b'"
proof (induction r b rule: addRanges.induct)
  case (3 lo hi r b)
  from addRange_total [of b lo hi False] 3(2,3) obtain b1 where "addRange lo hi False b = Inr b1" "begun b1"
    by (auto simp: runes_ok_def)
  with 3 show ?case by (auto simp: runes_ok_def)
qed auto

lemma addRanges_frames:
  "addRanges r b = Inr b' \<Longrightarrow> grows 0 0 b b' \<and> frames is k 0 0 b b'"
proof (induction r b rule: addRanges.induct)
  case (3 lo hi r b)
  then obtain b1 where b1: "addRange lo hi False b = Inr b1" "addRanges r b1 = Inr b'" by (auto simp: rbind_Inr_iff)
  with 3(1) addRange_grows [OF b1(1)] addRange_frames [OF b1(1), of "is" k] show ?case
    by (auto simp: grows_def frames_def)
qed (auto simp: grows_def frames_def)

lemma addRunes_ok:
  assumes "begun b" "runes_ok r" "length r = 1 \<or> even (length r)"
  shows "\<exists>b'. addRunes r b = Inr b' \<and> grows 0 0 b b' \<and> frames is k 0 0 b b'"
proof (cases "length r = 1")
  case True
  then have "r ! 0 \<in> set r" by (simp add: in_set_conv_nth)
  then have "0 \<le> r ! 0" "r ! 0 \<le> MaxRune" using assms(2) by (auto simp: runes_ok_def)
  from addRange_total [OF assms(1) this, of False] True show ?thesis
    using addRange_grows addRange_frames by (auto simp: addRunes_def grows_def frames_def)
next
  case False
  with addRanges_total [OF assms(1,2)] assms(3) addRanges_frames show ?thesis by (fastforce simp: addRunes_def)
qed

text \<open>What \<open>unicode.SimpleFold\<close> promises: it goes round an orbit of runes.\<close>

definition simpleFold_ok :: "(int \<Rightarrow> int) \<Rightarrow> bool" where
  "simpleFold_ok sf \<longleftrightarrow> (\<forall>c. 0 \<le> c \<and> c \<le> MaxRune \<longrightarrow> 0 \<le> sf c \<and> sf c \<le> MaxRune \<and> (\<exists>n. (sf ^^ n) (sf c) = c))"

definition pairs_ok :: "int list \<Rightarrow> bool" where
  "pairs_ok r \<longleftrightarrow> runes_ok r \<and> even (length r)"

lemma set_list_update: "set (r[i := x]) \<subseteq> insert x (set r)"
  by (rule set_update_subset_insert)

lemma appendRange_ok:
  assumes "pairs_ok r" "0 \<le> lo" "lo \<le> MaxRune" "0 \<le> hi" "hi \<le> MaxRune"
  shows "pairs_ok (appendRange r lo hi)"
proof -
  have "pairs_ok (widen r i lo hi)" for i
    using assms set_list_update [of r _ lo] set_list_update [of r _ hi] set_list_update [of "r[_ := lo]" _ hi]
    unfolding widen_def Let_def pairs_ok_def runes_ok_def by (auto dest!: set_update_subset_insert [THEN subsetD])
  then show ?thesis using assms by (auto simp: appendRange_def pairs_ok_def runes_ok_def)
qed

lemma foldOrbit_ok:
  assumes "simpleFold_ok sf"
  shows "(sf ^^ n) f = c \<Longrightarrow> pairs_ok r \<Longrightarrow> 0 \<le> f \<Longrightarrow> f \<le> MaxRune \<Longrightarrow>
    \<exists>r'. foldOrbit sf c f r = Some (Inr r') \<and> pairs_ok r'"
proof (induction n arbitrary: f r)
  case 0
  then show ?case by (subst foldOrbit.simps) simp
next
  case (Suc n)
  have "0 \<le> sf f" "sf f \<le> MaxRune" using assms Suc.prems by (auto simp: simpleFold_ok_def)
  with Suc.IH [of "sf f" "appendRange r f f"] Suc.prems appendRange_ok [of r f f] show ?case
    by (subst foldOrbit.simps) (auto simp: funpow_swap1)
qed

lemma foldRunes_ok:
  assumes "simpleFold_ok sf"
  shows "pairs_ok r \<Longrightarrow> runes_ok cs \<Longrightarrow> \<exists>r'. foldRunes sf cs r = Some (Inr r') \<and> pairs_ok r'"
proof (induction cs arbitrary: r)
  case (Cons c cs)
  have c: "0 \<le> c" "c \<le> MaxRune" using Cons.prems by (auto simp: runes_ok_def)
  then obtain n where "(sf ^^ n) (sf c) = c" "0 \<le> sf c" "sf c \<le> MaxRune"
    using assms by (auto simp: simpleFold_ok_def)
  from foldOrbit_ok [OF assms this(1) appendRange_ok [OF Cons.prems(1) c c] this(2,3)] obtain r' where
    "foldOrbit sf c (sf c) (appendRange r c c) = Some (Inr r')" "pairs_ok r'" by blast
  with Cons show ?case by (auto simp: runes_ok_def)
qed simp

lemma appendFoldedRange_ok:
  assumes "simpleFold_ok sf" "pairs_ok r" "0 \<le> lo" "lo \<le> MaxRune" "0 \<le> hi" "hi \<le> MaxRune"
  shows "\<exists>r'. appendFoldedRange sf r lo hi = Some (Inr r') \<and> pairs_ok r'"
proof -
  have v: "0 \<le> minFold - 1" "minFold - 1 \<le> MaxRune" "0 \<le> maxFold + 1" "maxFold + 1 \<le> MaxRune" "minFold \<le> MaxRune"
    "maxFold \<le> MaxRune" "0 \<le> minFold"
    by (simp_all add: minFold_def maxFold_def MaxRune_def)
  have "\<exists>r'. foldRunes sf [a..b] r2 = Some (Inr r') \<and> pairs_ok r'"
    if "pairs_ok r2" "0 \<le> a" "b \<le> MaxRune" for a b r2
    by (rule foldRunes_ok [OF assms(1) that(1)]) (use that in \<open>auto simp: runes_ok_def\<close>)
  then show ?thesis
    using assms v appendRange_ok unfolding appendFoldedRange_def Let_def by (auto intro!: appendRange_ok)
qed

lemma foldedRanges_ok:
  "simpleFold_ok sf \<Longrightarrow> pairs_ok rr \<Longrightarrow> pairs_ok r \<Longrightarrow> \<exists>r'. foldedRanges sf r rr = Some (Inr r') \<and> pairs_ok r'"
proof (induction sf r rr rule: foldedRanges.induct)
  case (3 sf lo hi r rr)
  then have "0 \<le> lo" "lo \<le> MaxRune" "0 \<le> hi" "hi \<le> MaxRune" "pairs_ok r" by (auto simp: pairs_ok_def runes_ok_def)
  with appendFoldedRange_ok [OF 3(2,3), of lo hi] obtain r1 where
    "appendFoldedRange sf rr lo hi = Some (Inr r1)" "pairs_ok r1" by blast
  with 3 \<open>pairs_ok r\<close> show ?case by simp
qed (auto simp: pairs_ok_def)

lemma foldedList_ok:
  assumes "simpleFold_ok sf" "runes_ok r" "length r = 1 \<or> even (length r)"
  shows "\<exists>r'. foldedList sf r = Some (Inr r') \<and> pairs_ok r'"
proof (cases "length r = 1")
  case True
  then have "r ! 0 \<in> set r" by (simp add: in_set_conv_nth)
  then have "0 \<le> r ! 0" "r ! 0 \<le> MaxRune" using assms(2) by (auto simp: runes_ok_def)
  with appendFoldedRange_ok [OF assms(1), of "[]"] True show ?thesis
    by (auto simp: foldedList_def pairs_ok_def runes_ok_def)
next
  case False
  with foldedRanges_ok [OF assms(1), of "[]" r] assms show ?thesis
    by (auto simp: foldedList_def pairs_ok_def runes_ok_def)
qed

section \<open>The whole program\<close>

definition rprog_ok :: "rprog \<Rightarrow> bool" where
  "rprog_ok p \<longleftrightarrow> insts_ok (rpInst p) \<and> unat (rpStart p) < length (rpInst p) \<and>
     list_all rune_inst_ok (rpInst p)"

text \<open>The state of the loop before instruction \<open>pc\<close>.\<close>

definition rewritten :: "rinst list \<Rightarrow> nat \<Rightarrow> rinst list \<Rightarrow> bool" where
  "rewritten is0 pc is \<longleftrightarrow> length is0 \<le> length is \<and> list_all rune_inst_ok is \<and>
     (length is < 2 ^ 32 \<longrightarrow> insts_ok is \<and> (\<forall>j < length is0. pc \<le> j \<longrightarrow> is ! j = is0 ! j) \<and>
        (\<forall>j < length is. j < pc \<or> length is0 \<le> j \<longrightarrow> iOp (is ! j) \<notin> runeOps))"

lemma byteOps_runeOps: "x \<in> byteOps \<Longrightarrow> x \<notin> runeOps"
  by (auto simp: byteOps_def runeOps_def)

lemma rewritten_set:
  assumes "rewritten is0 pc is" "pc < length is0" "iOp i \<notin> runeOps" "insts_ok is \<Longrightarrow> rinst_ok (length is) i"
    "rune_inst_ok i"
  shows "rewritten is0 (Suc pc) (is[pc := i])"
  using assms by (auto simp: rewritten_def nth_list_update_eq_if less_Suc_eq intro!: insts_ok_upd runes_upd)

lemma rewritten_keep:
  assumes "rewritten is0 pc is" "pc < length is0" "iOp (is ! pc) \<notin> runeOps"
  shows "rewritten is0 (Suc pc) is"
  using assms by (auto simp: rewritten_def less_Suc_eq)

text \<open>A machine is built for instruction \<open>pc\<close>.\<close>

lemma rbInit_simps [simp]:
  "length (rbInst (rbInit is k out)) = length is" "rbOut (rbInit is k out) = out"
  "rbBegin (rbInit is k out) = of_nat k" "rbCache (rbInit is k out) = (\<lambda>_. None)"
  by (simp_all add: rbInit_def setOp_def)

lemma rewritten_build:
  assumes "rewritten is0 pc is" "pc < length is0" "iOp (is ! pc) \<in> runeOps"
    and g: "grows 0 0 (rbInit is pc (iOut (is ! pc))) b'" "frames is pc 0 0 (rbInit is pc (iOut (is ! pc))) b'"
  shows "rewritten is0 (Suc pc) (rbInst b')"
proof -
  let ?n = "length is" and ?b = "rbInit is pc (iOut (is ! pc))"
  have n: "length is0 \<le> ?n" "list_all rune_inst_ok is" using assms(1) by (simp_all add: rewritten_def)
  have le: "?n \<le> length (rbInst b')" using g(1) by (simp add: grows_def)
  have "runes_in ?b" using n(2) by (auto simp: rbInit_def setOp_def rune_inst_ok_def intro!: runes_upd)
  then have "runes_in b'" using g(2) by (simp add: frames_def)
  moreover have "insts_ok (rbInst b') \<and> (\<forall>j < length is0. Suc pc \<le> j \<longrightarrow> rbInst b' ! j = is0 ! j) \<and>
      (\<forall>j < length (rbInst b'). j < Suc pc \<or> length is0 \<le> j \<longrightarrow> iOp (rbInst b' ! j) \<notin> runeOps)"
    if small: "length (rbInst b') < 2 ^ 32"
  proof -
    have sm: "?n < 2 ^ 32" using le small by simp
    then have ok: "insts_ok is" and un: "\<forall>j < length is0. pc \<le> j \<longrightarrow> is ! j = is0 ! j"
      and op: "\<forall>j < length is. j < pc \<or> length is0 \<le> j \<longrightarrow> iOp (is ! j) \<notin> runeOps"
      using assms(1) by (simp_all add: rewritten_def)
    have pc: "pc < ?n" "unat (of_nat pc :: u32) = pc" using assms(2) n sm by simp_all
    then have "rinst_ok ?n (is ! pc)" using ok by (simp add: insts_ok_def)
    then have "unat (iOut (is ! pc)) < ?n" using assms(3) by (auto simp: rinst_ok_def runeOps_def)
    moreover have "insts_ok (rbInst ?b)"
      unfolding rbInit_def setOp_def by (simp, rule insts_ok_upd [OF ok]) (simp add: rinst_ok_def)
    ultimately have "binv ?b" using pc by (simp add: binv_def begun_def)
    then have "insts_ok (rbInst b')" using g(1) small by (simp add: grows_def binv_def)
    moreover have "frame is pc ?b"
      using pc by (auto simp: frame_def) (auto simp: rbInit_def setOp_def)
    then have f: "frame is pc b'" using g(2) small by (simp add: frames_def)
    have "rbInst b' ! j = is0 ! j" if "j < length is0" "Suc pc \<le> j" for j
      using f un n(1) that by (simp add: frame_def)
    moreover have "iOp (rbInst b' ! j) \<notin> runeOps" if "j < length (rbInst b')" "j < Suc pc \<or> length is0 \<le> j" for j
    proof (cases "j = pc \<or> length is \<le> j")
      case True
      then show ?thesis using f that(1) byteOps_runeOps by (auto simp: frame_def)
    next
      case False
      then have "rbInst b' ! j = is ! j" using f by (simp add: frame_def)
      with False op that(2) show ?thesis by auto
    qed
    ultimately show ?thesis using \<open>insts_ok (rbInst b')\<close> by blast
  qed
  ultimately show ?thesis using n(1) le by (simp add: rewritten_def)
qed

lemma oneByteRange_total: "iOp i = InstRune1 \<longrightarrow> iRune i \<noteq> [] \<Longrightarrow> \<exists>one. oneByteRange sf i = Inr one"
  by (cases "oneByteRange sf i") (auto simp: oneByteRange_def Let_def split: if_splits)

lemma begun_init: "k < length is \<Longrightarrow> begun (rbInit is k out)"
  using unat_of_nat_le [of k] by (simp add: begun_def)

lemma byteInst_ok:
  assumes "simpleFold_ok sf" "rewritten is0 pc is" "pc < length is0"
  shows "\<exists>is'. byteInst sf pc is = Some (Inr is') \<and> rewritten is0 (Suc pc) is'"
proof -
  define i where "i = is ! pc"
  have pc: "pc < length is" using assms(2,3) by (simp add: rewritten_def)
  have ri: "rune_inst_ok i" using assms(2) pc by (simp add: rewritten_def i_def list_all_length)
  have rok: "rinst_ok (length is) i" if "insts_ok is" using that pc by (simp add: insts_ok_def i_def)
  consider (rune) "iOp i = InstRune \<or> iOp i = InstRune1" | (any) "iOp i = InstRuneAny \<or> iOp i = InstRuneAnyNotNL"
    | (other) "iOp i \<notin> runeOps" by (auto simp: runeOps_def)
  then show ?thesis
  proof cases
    case rune
    then have r: "runes_ok (iRune i)" "iOp i = InstRune1 \<longrightarrow> iRune i \<noteq> []" "length (iRune i) = 1 \<or> even (length (iRune i))"
      using ri by (auto simp: rune_inst_ok_def)
    then obtain one where one: "oneByteRange sf i = Inr one" using oneByteRange_total by blast
    show ?thesis
    proof (cases one)
      case (Some lhf)
      obtain lo hi f where lhf: "lhf = (lo, hi, f)" by (cases lhf)
      define arg :: u32 where "arg = push_bit 8 (ucast lo) OR ucast hi"
      have "rewritten is0 (Suc pc) (is[pc := i\<lparr>iOp := InstByteRange, iArg := (if f then arg OR argFold else arg)\<rparr>])"
        using rewritten_set [OF assms(2,3)] rune rok by (auto simp: rinst_ok_def runeOps_def rune_inst_ok_def)
      then show ?thesis using rune one Some lhf
        by (cases f) (simp_all add: byteInst_def Let_def i_def [symmetric] arg_def)
    next
      case None
      have "\<exists>r'. (if iArg i AND FoldCase \<noteq> 0 then foldedList sf (iRune i) else Some (Inr (iRune i))) = Some (Inr r') \<and>
          runes_ok r' \<and> (length r' = 1 \<or> even (length r'))"
        using foldedList_ok [OF assms(1) r(1,3)] r by (auto simp: pairs_ok_def)
      then obtain r' where r': "(if iArg i AND FoldCase \<noteq> 0 then foldedList sf (iRune i) else Some (Inr (iRune i))) = Some (Inr r')"
        "runes_ok r'" "length r' = 1 \<or> even (length r')" by blast
      from addRunes_ok [OF begun_init [OF pc, of "iOut i"] r'(2,3), of "is" pc] obtain b' where
        b': "addRunes r' (rbInit is pc (iOut i)) = Inr b'" "grows 0 0 (rbInit is pc (iOut i)) b'"
          "frames is pc 0 0 (rbInit is pc (iOut i)) b'" by blast
      have "rewritten is0 (Suc pc) (rbInst b')"
        using rewritten_build [OF assms(2,3)] rune b' by (auto simp: i_def [symmetric] runeOps_def)
      then show ?thesis using rune one None r'(1) b'(1)
        by (auto simp: byteInst_def Let_def i_def [symmetric])
    qed
  next
    case any
    from addRange_total [OF begun_init [OF pc, of "iOut i"], of 0 MaxRune False] obtain b' where
      b': "addRange 0 MaxRune False (rbInit is pc (iOut i)) = Inr b'" by (auto simp: MaxRune_def)
    have "grows 0 0 (rbInit is pc (iOut i)) b'" "frames is pc 0 0 (rbInit is pc (iOut i)) b'"
      using addRange_grows [OF b'] addRange_frames [OF b', of "is" pc] by (simp_all add: grows_def frames_def)
    then have "rewritten is0 (Suc pc) (rbInst b')"
      using rewritten_build [OF assms(2,3)] any by (auto simp: i_def [symmetric] runeOps_def)
    then show ?thesis using any b' by (auto simp: byteInst_def Let_def i_def [symmetric])
  next
    case other
    then have "byteInst sf pc is = Some (Inr is)"
      by (simp add: byteInst_def Let_def i_def [symmetric] runeOps_def)
    with rewritten_keep [OF assms(2,3)] other show ?thesis by (simp add: i_def)
  qed
qed

lemma byteInsts_ok:
  assumes "simpleFold_ok sf"
  shows "rewritten is0 k is \<Longrightarrow> k \<le> length is0 \<Longrightarrow>
    \<exists>is'. byteInsts sf [k..<length is0] is = Some (Inr is') \<and> rewritten is0 (length is0) is'"
proof (induction "length is0 - k" arbitrary: k "is")
  case (Suc n)
  then have k: "k < length is0" by simp
  from byteInst_ok [OF assms Suc.prems(1) k] obtain is1 where
    is1: "byteInst sf k is = Some (Inr is1)" "rewritten is0 (Suc k) is1" by blast
  have "n = length is0 - Suc k" using Suc.hyps(2) by simp
  from Suc.hyps(1) [OF this is1(2)] k obtain is' where
    "byteInsts sf [Suc k..<length is0] is1 = Some (Inr is')" "rewritten is0 (length is0) is'" by auto
  with is1(1) k show ?case by (simp add: upt_conv_Cons)
qed simp

lemma toByteProg_ok:
  assumes "simpleFold_ok sf" "rprog_ok p"
  shows "\<exists>q. toByteProg sf p = Some (Inr q) \<and> pStart q = rpStart p \<and>
    (length (pInst q) < 2 ^ 32 \<longrightarrow> prog_ok q \<and> (\<forall>i \<in> set (pInst q). iOp i \<notin> runeOps))"
proof -
  let ?is = "rpInst p"
  have "rewritten ?is 0 ?is" using assms(2) by (auto simp: rewritten_def rprog_ok_def)
  from byteInsts_ok [OF assms(1) this] obtain is' where
    u: "byteInsts sf [0..<length ?is] ?is = Some (Inr is')" "rewritten ?is (length ?is) is'" by blast
  let ?q = "\<lparr>pInst = map inst.truncate is', pStart = rpStart p\<rparr>"
  have "prog_ok ?q \<and> (\<forall>i \<in> set (pInst ?q). iOp i \<notin> runeOps)" if small: "length is' < 2 ^ 32"
  proof -
    have ok: "insts_ok is'" and op: "iOp (is' ! j) \<notin> runeOps" if "j < length is'" for j
      using u(2) small that by (auto simp: rewritten_def not_less [symmetric])
    have len: "length ?is \<le> length is'" using u(2) by (simp add: rewritten_def)
    have i: "inst_ok ?q (inst.truncate x) \<and> iOp (inst.truncate x) \<notin> runeOps" if x: "x \<in> set is'" for x
    proof -
      have "rinst_ok (length is') x" "iOp x \<notin> runeOps"
        using u(2) small x by (auto simp: rewritten_def insts_ok_def in_set_conv_nth not_less [symmetric])
      then show ?thesis by (auto simp: inst_ok_def rinst_ok_def inst.truncate_def)
    qed
    have "unat (rpStart p) < length is'" using assms(2) len by (simp add: rprog_ok_def)
    with i small show ?thesis by (auto simp: prog_ok_def list_all_iff)
  qed
  then show ?thesis using u(1) by (simp add: toByteProg_def)
qed

text \<open>An empty class becomes an instruction that fails.\<close>

lemma empty_class_fails:
  assumes "iOp (is ! pc) = InstRune" "iRune (is ! pc) = []"
  shows "byteInst sf pc is = Some (Inr (is[pc := (is ! pc)\<lparr>iOp := InstFail\<rparr>]))"
  using assms by (simp add: byteInst_def oneByteRange_def foldedList_def addRunes_def rbInit_def setOp_def Let_def)

text \<open>
  C28. The translation to bytes ends, without a fault, in a program the matcher can run: for a program whose targets
  exist and whose rune instructions hold a rune, pairs of runes or, for an empty class, none, and for a case folding that
  goes round orbits, \<open>toByteProg\<close> returns a program with the same start in which, if it has fewer than \<open>2 ^ 32\<close>
  instructions, every target exists and no rune instruction is left.
\<close>

theorem toByteProg_well_formed:
  assumes "simpleFold_ok sf" "rprog_ok p"
  shows "\<exists>q. toByteProg sf p = Some (Inr q) \<and> pStart q = rpStart p \<and>
    (length (pInst q) < 2 ^ 32 \<longrightarrow> prog_ok q \<and> (\<forall>i \<in> set (pInst q). iOp i \<notin> runeOps))"
  using assms by (rule toByteProg_ok)

text \<open>A class of two ranges, one of them of two bytes, then an empty class.\<close>

definition classProg :: rprog where
  "classProg = \<lparr>rpInst = [\<lparr>iOp = InstFail, iOut = 0, iArg = 0, iRune = []\<rparr>,
     \<lparr>iOp = InstRune, iOut = 2, iArg = 0, iRune = [0x61, 0x7A, 0x3B1, 0x3C9]\<rparr>,
     \<lparr>iOp = InstRune, iOut = 3, iArg = 0, iRune = []\<rparr>,
     \<lparr>iOp = InstMatch, iOut = 0, iArg = 0, iRune = []\<rparr>], rpStart = 1\<rparr>"

theorem toByteProg_well_formed_witness:
  "\<exists>q. toByteProg (\<lambda>c. c) classProg = Some (Inr q) \<and> pStart q = 1"
proof -
  have "simpleFold_ok (\<lambda>c. c)" unfolding simpleFold_ok_def by (auto intro: exI [of _ 0])
  moreover have "rprog_ok classProg"
    by (simp add: classProg_def rprog_ok_def insts_ok_def rinst_ok_def rune_inst_ok_def runes_ok_def MaxRune_def)
  moreover have "rpStart classProg = 1" by (simp add: classProg_def)
  ultimately show ?thesis using toByteProg_well_formed by fastforce
qed

end
