(* ===== verification/Regex_Info.thy ===== *)
theory Regex_Info
  imports Query Byte_Prog
begin

text \<open>
  The analysis of a regular expression, the second half of \<open>internal/codesearch/index/regexp.go\<close>: from
  the syntax tree to a query that every match satisfies.

  The string sets of the analysis are slices, and the code reuses their storage: a union appends to
  the array of its first operand when that has room, and \<open>clean\<close> sorts an array in place.  So arrays
  are in a store: a slice is the number of its array and a length (every slice here starts at the front of
  its array, whose length is the capacity), and a set that is nil is \<open>None\<close>.  How much room \<open>append\<close>
  makes when it must make a new array is up to the run-time system: \<open>grow\<close> is an argument, called with the
  old capacity and the length that is needed.
\<close>

unbundle bit_operations_syntax

section \<open>Slices\<close>

type_synonym store = "gostr list list"
type_synonym stringSet = "(nat \<times> nat) option"
type_synonym grow = "nat \<Rightarrow> nat \<Rightarrow> nat"

fun strs :: "stringSet \<Rightarrow> store \<Rightarrow> gostr list" where
  "strs None st = []"
| "strs (Some (a, n)) st = take n (st ! a)"

definition have_set :: "stringSet \<Rightarrow> bool" where
  "have_set s \<longleftrightarrow> s \<noteq> None"

definition newSet :: "gostr list \<Rightarrow> store \<Rightarrow> stringSet \<times> store" where
  "newSet xs st = (Some (length st, length xs), st @ [xs])"

fun appendSet :: "grow \<Rightarrow> stringSet \<Rightarrow> gostr list \<Rightarrow> store \<Rightarrow> stringSet \<times> store" where
  "appendSet grow None xs st =
     (if xs = [] then (None, st)
      else (Some (length st, length xs), st @ [xs @ replicate (grow 0 (length xs) - length xs) []]))"
| "appendSet grow (Some (a, n)) xs st =
     (let arr = st ! a; m = n + length xs in
      if m \<le> length arr then (Some (a, m), st[a := take n arr @ xs @ drop m arr])
      else (Some (length st, m), st @ [take n arr @ xs @ replicate (grow (length arr) m - m) []]))"

definition addSet :: "grow \<Rightarrow> stringSet \<Rightarrow> gostr \<Rightarrow> store \<Rightarrow> stringSet \<times> store" where
  "addSet grow s x st = appendSet grow s [x] st"

text \<open>What a loop leaves in an array when it keeps \<open>d\<close> of its first strings.\<close>

definition keepIn :: "nat \<Rightarrow> gostr list \<Rightarrow> store \<Rightarrow> stringSet \<times> store" where
  "keepIn a d st = (Some (a, length d), st[a := d @ drop (length d) (st ! a)])"

fun cleanSet :: "bool \<Rightarrow> stringSet \<Rightarrow> store \<Rightarrow> stringSet \<times> store" where
  "cleanSet isSuffix None st = (None, st)"
| "cleanSet isSuffix (Some (a, n)) st =
     (let arr = st ! a;
          t = (if isSuffix then sort_key rev (take n arr) else sort (take n arr));
          st1 = st[a := t @ drop n arr]
      in keepIn a (remdups_adj t) st1)"

definition unionSet :: "grow \<Rightarrow> stringSet \<Rightarrow> stringSet \<Rightarrow> bool \<Rightarrow> store \<Rightarrow> stringSet \<times> store" where
  "unionSet grow s t isSuffix st =
     (let (s1, st1) = appendSet grow s (strs t st) st in cleanSet isSuffix s1 st1)"

fun addAllSet :: "grow \<Rightarrow> gostr list \<Rightarrow> stringSet \<Rightarrow> store \<Rightarrow> stringSet \<times> store" where
  "addAllSet grow [] s st = (s, st)"
| "addAllSet grow (x # xs) s st = (let (s1, st1) = addSet grow s x st in addAllSet grow xs s1 st1)"

definition crossSet :: "grow \<Rightarrow> stringSet \<Rightarrow> stringSet \<Rightarrow> bool \<Rightarrow> store \<Rightarrow> stringSet \<times> store" where
  "crossSet grow s t isSuffix st =
     (let (p, st1) = newSet [] st;
          (p1, st2) = addAllSet grow (concat (map (\<lambda>ss. map (\<lambda>tt. ss @ tt) (strs t st)) (strs s st))) p st1
      in cleanSet isSuffix p1 st2)"

definition copySet :: "grow \<Rightarrow> stringSet \<Rightarrow> store \<Rightarrow> stringSet \<times> store" where
  "copySet grow s st = (let (p, st1) = newSet [] st in appendSet grow p (strs s st1) st1)"

section \<open>What is known of an expression\<close>

record regexpInfo =
  canEmpty :: bool
  riExact :: stringSet
  riPrefix :: stringSet
  riSuffix :: stringSet
  riMatch :: query

definition maxExact :: nat where "maxExact = 7"
definition maxSet :: nat where "maxSet = 20"

definition anyMatch :: "store \<Rightarrow> regexpInfo \<times> store" where
  "anyMatch st = (let (p, st1) = newSet [[]] st; (s, st2) = newSet [[]] st1
     in (\<lparr>canEmpty = True, riExact = None, riPrefix = p, riSuffix = s, riMatch = allQuery\<rparr>, st2))"

definition anyChar :: "store \<Rightarrow> regexpInfo \<times> store" where
  "anyChar st = (let (p, st1) = newSet [[]] st; (s, st2) = newSet [[]] st1
     in (\<lparr>canEmpty = False, riExact = None, riPrefix = p, riSuffix = s, riMatch = allQuery\<rparr>, st2))"

definition noMatch :: "store \<Rightarrow> regexpInfo \<times> store" where
  "noMatch st = (\<lparr>canEmpty = False, riExact = None, riPrefix = None, riSuffix = None, riMatch = noneQuery\<rparr>, st)"

definition emptyString :: "store \<Rightarrow> regexpInfo \<times> store" where
  "emptyString st = (let (e, st1) = newSet [[]] st
     in (\<lparr>canEmpty = True, riExact = e, riPrefix = None, riSuffix = None, riMatch = allQuery\<rparr>, st1))"

definition exactInfo :: "stringSet \<Rightarrow> regexpInfo" where
  "exactInfo e = \<lparr>canEmpty = False, riExact = e, riPrefix = None, riSuffix = None, riMatch = allQuery\<rparr>"

definition addExact :: "regexpInfo \<Rightarrow> store \<Rightarrow> regexpInfo" where
  "addExact info st = (if have_set (riExact info)
     then info\<lparr>riMatch := andTrigrams (riMatch info) (strs (riExact info) st)\<rparr> else info)"

section \<open>Simplification\<close>

definition cutStr :: "bool \<Rightarrow> nat \<Rightarrow> gostr \<Rightarrow> gostr" where
  "cutStr isSuffix n str = (if length str \<ge> n
     then (if isSuffix then drop (length str - n + 1) str else take (n - 1) str) else str)"

text \<open>The loop for \<open>n = k, ..., 1\<close>: it is left as soon as the set is small enough.\<close>

fun shorten :: "bool \<Rightarrow> nat \<Rightarrow> stringSet \<Rightarrow> store \<Rightarrow> stringSet \<times> store" where
  "shorten isSuffix k None st = (None, st)"
| "shorten isSuffix 0 t st = (t, st)"
| "shorten isSuffix (Suc k) (Some (a, n)) st =
     (if Suc k = 3 \<or> n > maxSet then
        let (t1, st1) = keepIn a (remdups_adj (map (cutStr isSuffix (Suc k)) (take n (st ! a)))) st;
            (t2, st2) = cleanSet isSuffix t1 st1
        in shorten isSuffix k t2 st2
      else (Some (a, n), st))"

text \<open>Strings that extend the one kept last are redundant.\<close>

fun irredundant :: "(gostr \<Rightarrow> gostr \<Rightarrow> bool) \<Rightarrow> gostr list \<Rightarrow> gostr list \<Rightarrow> gostr list" where
  "irredundant f acc [] = rev acc"
| "irredundant f [] (x # xs) = irredundant f [x] xs"
| "irredundant f (y # acc) (x # xs) = irredundant f (if f x y then y # acc else x # y # acc) xs"

definition hasPrefix :: "gostr \<Rightarrow> gostr \<Rightarrow> bool" where
  "hasPrefix s p \<longleftrightarrow> take (length p) s = p"

definition hasSuffix :: "gostr \<Rightarrow> gostr \<Rightarrow> bool" where
  "hasSuffix s p \<longleftrightarrow> length p \<le> length s \<and> drop (length s - length p) s = p"

definition simplifySet :: "bool \<Rightarrow> stringSet \<Rightarrow> query \<Rightarrow> store \<Rightarrow> (stringSet \<times> query) \<times> store" where
  "simplifySet isSuffix s m st =
     (let (t, st1) = cleanSet isSuffix s st;
          m1 = andTrigrams m (strs t st1);
          (t2, st2) = shorten isSuffix 3 t st1
      in case t2 of
          None \<Rightarrow> ((None, m1), st2)
        | Some (a, n) \<Rightarrow>
            let (t3, st3) = keepIn a
                  (irredundant (if isSuffix then hasSuffix else hasPrefix) [] (take n (st2 ! a))) st2
            in ((t3, m1), st3))"

definition prefixes2 :: "gostr list \<Rightarrow> gostr list" where
  "prefixes2 = map (\<lambda>s. if length s < 3 then s else take 2 s)"

definition suffixes2 :: "gostr list \<Rightarrow> gostr list" where
  "suffixes2 = map (\<lambda>s. if length s < 3 then s else drop (length s - 2) s)"

definition simplify :: "grow \<Rightarrow> bool \<Rightarrow> regexpInfo \<Rightarrow> store \<Rightarrow> regexpInfo \<times> store" where
  "simplify grow force info st =
     (let (e, st1) = cleanSet False (riExact info) st;
          info1 = info\<lparr>riExact := e\<rparr>;
          xs = strs e st1;
          (info2, st2) =
            (if length xs > maxExact \<or> ss_minLen xs \<ge> 3 \<and> force \<or> ss_minLen xs \<ge> 4 then
               let (p, sa) = addAllSet grow (prefixes2 xs) (riPrefix info1) st1;
                   (s, sb) = addAllSet grow (suffixes2 xs) (riSuffix info1) sa
               in ((addExact info1 st1)\<lparr>riPrefix := p, riSuffix := s, riExact := None\<rparr>, sb)
             else (info1, st1))
      in if have_set (riExact info2) then (info2, st2)
         else let ((p, m), st3) = simplifySet False (riPrefix info2) (riMatch info2) st2;
                  ((s, m1), st4) = simplifySet True (riSuffix info2) m st3
              in (info2\<lparr>riPrefix := p, riSuffix := s, riMatch := m1\<rparr>, st4))"

section \<open>Concatenation and alternation\<close>

definition concatInfo :: "grow \<Rightarrow> regexpInfo \<Rightarrow> regexpInfo \<Rightarrow> store \<Rightarrow> regexpInfo \<times> store" where
  "concatInfo grow x y st =
     (let ex = have_set (riExact x); ey = have_set (riExact y);
          m = qand (riMatch x) (riMatch y);
          (e, p, s, st1) =
            (if ex \<and> ey then let (e, sa) = crossSet grow (riExact x) (riExact y) False st in (e, None, None, sa)
             else
               let (p, sa) = (if ex then crossSet grow (riExact x) (riPrefix y) False st
                     else if canEmpty x then unionSet grow (riPrefix x) (riPrefix y) False st
                     else (riPrefix x, st));
                   (s, sb) = (if ey then crossSet grow (riSuffix x) (riExact y) True sa
                     else if canEmpty y then unionSet grow (riSuffix y) (riSuffix x) True sa
                     else (riSuffix y, sa))
               in (None, p, s, sb));
          (m1, st2) =
            (if \<not> ex \<and> \<not> ey \<and> length (strs (riSuffix x) st1) \<le> maxSet \<and> length (strs (riPrefix y) st1) \<le> maxSet \<and>
                ss_minLen (strs (riSuffix x) st1) + ss_minLen (strs (riPrefix y) st1) \<ge> 3
             then let (t, sa) = crossSet grow (riSuffix x) (riPrefix y) False st1 in (andTrigrams m (strs t sa), sa)
             else (m, st1))
      in simplify grow False \<lparr>canEmpty = False, riExact = e, riPrefix = p, riSuffix = s, riMatch = m1\<rparr> st2)"

definition alternateInfo :: "grow \<Rightarrow> regexpInfo \<Rightarrow> regexpInfo \<Rightarrow> store \<Rightarrow> regexpInfo \<times> store" where
  "alternateInfo grow x y st =
     (let ex = have_set (riExact x); ey = have_set (riExact y);
          (e, p, s, x1, y1, st1) =
            (if ex \<and> ey then
               let (e, sa) = unionSet grow (riExact x) (riExact y) False st in (e, None, None, x, y, sa)
             else if ex then
               let (p, sa) = unionSet grow (riExact x) (riPrefix y) False st;
                   (s, sb) = unionSet grow (riExact x) (riSuffix y) True sa
               in (None, p, s, addExact x sb, y, sb)
             else if ey then
               let (p, sa) = unionSet grow (riPrefix x) (riExact y) False st;
                   (c, sb) = copySet grow (riExact y) sa;
                   (s, sc) = unionSet grow (riSuffix x) c True sb
               in (None, p, s, x, addExact y sc, sc)
             else
               let (p, sa) = unionSet grow (riPrefix x) (riPrefix y) False st;
                   (s, sb) = unionSet grow (riSuffix x) (riSuffix y) True sa
               in (None, p, s, x, y, sb))
      in simplify grow False \<lparr>canEmpty = canEmpty x \<or> canEmpty y, riExact = e, riPrefix = p, riSuffix = s,
           riMatch = qor (riMatch x1) (riMatch y1)\<rparr> st1)"

section \<open>The syntax tree\<close>

datatype rop = OpNoMatch | OpEmptyMatch | OpLiteral | OpCharClass | OpAnyCharNotNL | OpAnyChar
  | OpBeginLine | OpEndLine | OpBeginText | OpEndText | OpWordBoundary | OpNoWordBoundary
  | OpCapture | OpStar | OpPlus | OpQuest | OpRepeat | OpConcat | OpAlternate

datatype regexp = Regexp (reOp: rop) (reFold: bool) (reSub: "regexp list") (reRune: "int list")
  (reMin: int) (reMax: int)

definition stringOf :: "int list \<Rightarrow> gostr" where
  "stringOf r = concat (map EncodeRune r)"

fun classSize :: "int list \<Rightarrow> int res" where
  "classSize [] = Inr 0"
| "classSize [x] = Inl Range"
| "classSize (lo # hi # r) = rbind (classSize r) (\<lambda>n. Inr (n + (hi - lo)))"

fun classStrings :: "int list \<Rightarrow> gostr list" where
  "classStrings (lo # hi # r) = map (\<lambda>c. stringOf [c]) [lo..hi] @ classStrings r"
| "classStrings r = []"

definition analyzeClass :: "grow \<Rightarrow> int list \<Rightarrow> store \<Rightarrow> (regexpInfo \<times> store) res" where
  "analyzeClass grow r st =
     (if length r = 0 then Inr (noMatch st)
      else if length r = 1 then
        let (e, st1) = newSet [stringOf [r ! 0]] st in Inr (simplify grow False (exactInfo e) st1)
      else rbind (classSize r) (\<lambda>n.
        if n > 100 then Inr (anyChar st)
        else let (e, st1) = newSet [] st; (e1, st2) = addAllSet grow (classStrings r) e st1
             in Inr (simplify grow False (exactInfo e1) st2)))"

text \<open>The case-folded runes of \<open>r0\<close>, as a class.\<close>

partial_function (option) orbitClass :: "(int \<Rightarrow> int) \<Rightarrow> int \<Rightarrow> int \<Rightarrow> int list \<Rightarrow> int list res option" where
  "orbitClass sf r0 r1 acc =
     (if r1 = r0 then Some (Inr acc) else orbitClass sf r0 (sf r1) (acc @ [r1, r1]))"

declare orbitClass.simps [code]

definition analyzeFold1 :: "(int \<Rightarrow> int) \<Rightarrow> grow \<Rightarrow> int \<Rightarrow> store \<Rightarrow> (regexpInfo \<times> store) res option" where
  "analyzeFold1 sf grow r0 st =
     obind (orbitClass sf r0 (sf r0) [r0, r0]) (\<lambda>r. Some (analyzeClass grow r st))"

fun analyzeFolds :: "(int \<Rightarrow> int) \<Rightarrow> grow \<Rightarrow> int list \<Rightarrow> regexpInfo \<Rightarrow> store \<Rightarrow> (regexpInfo \<times> store) res option" where
  "analyzeFolds sf grow [] info st = Some (Inr (info, st))"
| "analyzeFolds sf grow (r # rs) info st =
     obind (analyzeFold1 sf grow r st) (\<lambda>(y, st1).
       let (info1, st2) = concatInfo grow info y st1 in analyzeFolds sf grow rs info1 st2)"

definition analyzeLiteral :: "(int \<Rightarrow> int) \<Rightarrow> grow \<Rightarrow> bool \<Rightarrow> int list \<Rightarrow> store \<Rightarrow> (regexpInfo \<times> store) res option" where
  "analyzeLiteral sf grow foldCase r st =
     (if foldCase then
        (if length r = 0 then Some (Inr (emptyString st))
         else if length r = 1 then analyzeFold1 sf grow (r ! 0) st
         else let (info, st1) = emptyString st in analyzeFolds sf grow r info st1)
      else let (e, st1) = newSet [stringOf r] st in Some (Inr (simplify grow False (exactInfo e) st1)))"

text \<open>\<open>x+\<close>: the strings are prefixes and suffixes now.\<close>

definition plusInfo :: "grow \<Rightarrow> regexpInfo \<Rightarrow> store \<Rightarrow> regexpInfo \<times> store" where
  "plusInfo grow info st =
     (if have_set (riExact info) then
        let (s, st1) = copySet grow (riExact info) st
        in simplify grow False (info\<lparr>riPrefix := riExact info, riSuffix := s, riExact := None\<rparr>) st1
      else simplify grow False info st)"

fun analyze :: "(int \<Rightarrow> int) \<Rightarrow> grow \<Rightarrow> regexp \<Rightarrow> store \<Rightarrow> (regexpInfo \<times> store) res option"
  and foldConcat :: "(int \<Rightarrow> int) \<Rightarrow> grow \<Rightarrow> regexp list \<Rightarrow> regexpInfo \<Rightarrow> store \<Rightarrow> (regexpInfo \<times> store) res option"
  and foldAlternate :: "(int \<Rightarrow> int) \<Rightarrow> grow \<Rightarrow> regexp list \<Rightarrow> regexpInfo \<Rightarrow> store \<Rightarrow> (regexpInfo \<times> store) res option"
where
  "analyze sf grow (Regexp op foldCase sub r mn mx) st =
     (case op of
        OpNoMatch \<Rightarrow> Some (Inr (noMatch st))
      | OpEmptyMatch \<Rightarrow> Some (Inr (emptyString st))
      | OpBeginLine \<Rightarrow> Some (Inr (emptyString st))
      | OpEndLine \<Rightarrow> Some (Inr (emptyString st))
      | OpBeginText \<Rightarrow> Some (Inr (emptyString st))
      | OpEndText \<Rightarrow> Some (Inr (emptyString st))
      | OpWordBoundary \<Rightarrow> Some (Inr (emptyString st))
      | OpNoWordBoundary \<Rightarrow> Some (Inr (emptyString st))
      | OpLiteral \<Rightarrow> analyzeLiteral sf grow foldCase r st
      | OpAnyCharNotNL \<Rightarrow> Some (Inr (anyChar st))
      | OpAnyChar \<Rightarrow> Some (Inr (anyChar st))
      | OpCapture \<Rightarrow> (case sub of [] \<Rightarrow> Some (Inl Range) | s # _ \<Rightarrow> analyze sf grow s st)
      | OpConcat \<Rightarrow> (let (zero, st0) = emptyString st in case sub of
            [] \<Rightarrow> Some (Inr (zero, st0))
          | s # ss \<Rightarrow> obind (analyze sf grow s st0) (\<lambda>(x, st1). foldConcat sf grow ss x st1))
      | OpAlternate \<Rightarrow> (let (zero, st0) = noMatch st in case sub of
            [] \<Rightarrow> Some (Inr (zero, st0))
          | s # ss \<Rightarrow> obind (analyze sf grow s st0) (\<lambda>(x, st1). foldAlternate sf grow ss x st1))
      | OpQuest \<Rightarrow> (case sub of [] \<Rightarrow> Some (Inl Range)
          | s # _ \<Rightarrow> obind (analyze sf grow s st) (\<lambda>(x, st1).
              let (y, st2) = emptyString st1 in Some (Inr (alternateInfo grow x y st2))))
      | OpStar \<Rightarrow> Some (Inr (anyMatch st))
      | OpRepeat \<Rightarrow> (if mn = 0 then Some (Inr (anyMatch st)) else (case sub of [] \<Rightarrow> Some (Inl Range)
          | s # _ \<Rightarrow> obind (analyze sf grow s st) (\<lambda>(x, st1). Some (Inr (plusInfo grow x st1)))))
      | OpPlus \<Rightarrow> (case sub of [] \<Rightarrow> Some (Inl Range)
          | s # _ \<Rightarrow> obind (analyze sf grow s st) (\<lambda>(x, st1). Some (Inr (plusInfo grow x st1))))
      | OpCharClass \<Rightarrow> Some (analyzeClass grow r st))"
| "foldConcat sf grow [] x st = Some (Inr (x, st))"
| "foldConcat sf grow (s # ss) x st = obind (analyze sf grow s st) (\<lambda>(y, st1).
     let (x1, st2) = concatInfo grow x y st1 in foldConcat sf grow ss x1 st2)"
| "foldAlternate sf grow [] x st = Some (Inr (x, st))"
| "foldAlternate sf grow (s # ss) x st = obind (analyze sf grow s st) (\<lambda>(y, st1).
     let (x1, st2) = alternateInfo grow x y st1 in foldAlternate sf grow ss x1 st2)"

definition RegexpQuery :: "(int \<Rightarrow> int) \<Rightarrow> grow \<Rightarrow> regexp \<Rightarrow> query res option" where
  "RegexpQuery sf grow re =
     obind (analyze sf grow re []) (\<lambda>(info, st).
       let (info1, st1) = simplify grow True info st in Some (Inr (riMatch (addExact info1 st1))))"

end
