(* ===== verification/Regex_Sets.thy ===== *)
theory Regex_Sets
  imports Regex_Info
begin

text \<open>
  What the analysis of a regular expression promises.

  \<open>rlang\<close> is the set of strings a syntax tree matches.  An analysis is sound if every one of these
  strings is in the exact set, or begins and ends as the other two sets say, and if every text it
  occurs in satisfies the query.  The sets are slices in a store, so a lemma on an operation also says which
  arrays it may change.
\<close>

section \<open>The strings a tree matches\<close>

definition orbit :: "(int \<Rightarrow> int) \<Rightarrow> int \<Rightarrow> int set" where
  "orbit sf c = {(sf ^^ n) c | n. True}"

fun inClass :: "int list \<Rightarrow> int \<Rightarrow> bool" where
  "inClass [x] c \<longleftrightarrow> c = x"
| "inClass (lo # hi # r) c \<longleftrightarrow> lo \<le> c \<and> c \<le> hi \<or> r \<noteq> [] \<and> inClass r c"
| "inClass [] c \<longleftrightarrow> False"

definition conc :: "gostr set \<Rightarrow> gostr set \<Rightarrow> gostr set" where
  "conc A B = {u @ v | u v. u \<in> A \<and> v \<in> B}"

definition pow :: "int \<Rightarrow> int \<Rightarrow> gostr set \<Rightarrow> gostr set" where
  "pow mn mx A = {concat ws | ws. set ws \<subseteq> A \<and> mn \<le> int (length ws) \<and> (mx \<ge> 0 \<longrightarrow> int (length ws) \<le> mx)}"

fun rlang :: "(int \<Rightarrow> int) \<Rightarrow> regexp \<Rightarrow> gostr set" where
  "rlang sf (Regexp op fc sub r mn mx) =
     (let ls = map (rlang sf) sub in
      case op of
        OpNoMatch \<Rightarrow> {}
      | OpLiteral \<Rightarrow> (if fc then {stringOf cs | cs. list_all2 (\<lambda>c d. c \<in> orbit sf d) cs r} else {stringOf r})
      | OpCharClass \<Rightarrow> {stringOf [c] | c. inClass r c}
      | OpAnyCharNotNL \<Rightarrow> {stringOf [c] | c. c \<noteq> 10}
      | OpAnyChar \<Rightarrow> {stringOf [c] | c. True}
      | OpCapture \<Rightarrow> \<Union> (set (take 1 ls))
      | OpStar \<Rightarrow> pow 0 (-1) (\<Union> (set (take 1 ls)))
      | OpPlus \<Rightarrow> pow 1 (-1) (\<Union> (set (take 1 ls)))
      | OpQuest \<Rightarrow> insert [] (\<Union> (set (take 1 ls)))
      | OpRepeat \<Rightarrow> pow mn mx (\<Union> (set (take 1 ls)))
      | OpConcat \<Rightarrow> foldr conc ls {[]}
      | OpAlternate \<Rightarrow> \<Union> (set ls)
      | _ \<Rightarrow> {[]})"

section \<open>Slices in the store\<close>

definition grow_ok :: "grow \<Rightarrow> bool" where
  "grow_ok grow \<longleftrightarrow> (\<forall>c n. n \<le> grow c n)"

fun valid :: "store \<Rightarrow> stringSet \<Rightarrow> bool" where
  "valid st None \<longleftrightarrow> True"
| "valid st (Some (a, n)) \<longleftrightarrow> a < length st \<and> n \<le> length (st ! a)"

definition addrs :: "stringSet \<Rightarrow> nat set" where
  "addrs s = (case s of None \<Rightarrow> {} | Some (a, n) \<Rightarrow> {a})"

definition upd :: "nat set \<Rightarrow> store \<Rightarrow> store \<Rightarrow> bool" where
  "upd A st st' \<longleftrightarrow> length st \<le> length st' \<and>
     (\<forall>a < length st. length (st' ! a) = length (st ! a) \<and> (a \<notin> A \<longrightarrow> st' ! a = st ! a))"

text \<open>An operation on one set, that may reuse its array.\<close>

definition setop :: "nat set \<Rightarrow> store \<Rightarrow> stringSet \<Rightarrow> store \<Rightarrow> bool" where
  "setop A st s' st' \<longleftrightarrow> upd A st st' \<and> valid st' s' \<and> addrs s' \<subseteq> A \<union> {length st..<length st'}"

lemma addrs_simps [simp]: "addrs None = {}" "addrs (Some (a, n)) = {a}"
  by (simp_all add: addrs_def)

lemma upd_refl [simp]: "upd A st st"
  by (simp add: upd_def)

lemma upd_trans: "upd A st st1 \<Longrightarrow> upd B st1 st2 \<Longrightarrow> B \<subseteq> A \<union> {length st..} \<Longrightarrow> upd A st st2"
proof -
  assume u: "upd A st st1" "upd B st1 st2" and B: "B \<subseteq> A \<union> {length st..}"
  have l: "length st \<le> length st1" "length st1 \<le> length st2" using u by (simp_all add: upd_def)
  have "length (st2 ! a) = length (st ! a) \<and> (a \<notin> A \<longrightarrow> st2 ! a = st ! a)" if a: "a < length st" for a
  proof -
    have "a \<notin> A \<Longrightarrow> a \<notin> B" using B a by auto
    moreover have "a < length st1" using a l by simp
    ultimately show ?thesis using u a by (simp add: upd_def)
  qed
  then show ?thesis using l by (simp add: upd_def)
qed

lemma upd_mono: "upd A st st' \<Longrightarrow> A \<subseteq> B \<Longrightarrow> upd B st st'"
  by (auto simp: upd_def)

lemma upd_length: "upd A st st' \<Longrightarrow> length st \<le> length st'"
  by (simp add: upd_def)

lemma upd_valid: "upd A st st' \<Longrightarrow> valid st s \<Longrightarrow> valid st' s"
  by (cases s) (auto simp: upd_def)

lemma upd_strs: "upd A st st' \<Longrightarrow> valid st s \<Longrightarrow> addrs s \<inter> A = {} \<Longrightarrow> strs s st' = strs s st"
  by (cases s) (auto simp: upd_def)

lemma valid_addrs: "valid st s \<Longrightarrow> addrs s \<subseteq> {..<length st}"
  by (cases s) auto

lemma newSet_ok:
  "newSet xs st = (s', st') \<Longrightarrow> setop {} st s' st' \<and> strs s' st' = xs \<and> s' \<noteq> None"
  by (auto simp: newSet_def setop_def upd_def nth_append)

lemma appendSet_ok:
  assumes "grow_ok grow" "valid st s" "appendSet grow s xs st = (s', st')"
  shows "setop (addrs s) st s' st' \<and> strs s' st' = strs s st @ xs \<and> (s \<noteq> None \<longrightarrow> s' \<noteq> None)"
proof (cases s)
  case None
  then show ?thesis using assms by (auto simp: setop_def upd_def nth_append split: if_splits)
next
  case (Some an)
  obtain a n where an: "an = (a, n)" by (cases an)
  have v: "a < length st" "n \<le> length (st ! a)" using assms(2) Some an by simp_all
  show ?thesis
  proof (cases "n + length xs \<le> length (st ! a)")
    case True
    then have e: "s' = Some (a, n + length xs)" "st' = st[a := take n (st ! a) @ xs @ drop (n + length xs) (st ! a)]"
      using assms(3) Some an by (simp_all add: Let_def)
    show ?thesis using v True by (auto simp: e Some an setop_def upd_def nth_list_update)
  next
    case False
    then have e: "s' = Some (length st, n + length xs)"
      "st' = st @ [take n (st ! a) @ xs @ replicate (grow (length (st ! a)) (n + length xs) - (n + length xs)) []]"
      using assms(3) Some an by (simp_all add: Let_def)
    show ?thesis using v by (auto simp: e Some an setop_def upd_def nth_append)
  qed
qed

lemma keepIn_ok:
  assumes "valid st (Some (a, n))" "length d \<le> n" "keepIn a d st = (s', st')"
  shows "setop {a} st s' st' \<and> strs s' st' = d \<and> s' = Some (a, length d)"
  using assms by (auto simp: keepIn_def setop_def upd_def nth_list_update)

lemma length_remdups_adj: "length (remdups_adj xs) \<le> length xs"
  by (induction xs rule: remdups_adj.induct) auto

lemma cleanSet_ok:
  assumes "valid st s" "cleanSet f s st = (s', st')"
  shows "setop (addrs s) st s' st' \<and> strs s' st' = ss_clean f (strs s st) \<and> (s \<noteq> None \<longrightarrow> s' \<noteq> None)"
proof (cases s)
  case None
  then show ?thesis using assms by (auto simp: setop_def ss_clean_def)
next
  case (Some an)
  obtain a n where an: "an = (a, n)" by (cases an)
  define t where "t = (if f then sort_key rev (take n (st ! a)) else sort (take n (st ! a)))"
  define st1 where "st1 = st[a := t @ drop n (st ! a)]"
  have v: "a < length st" "n \<le> length (st ! a)" using assms(1) Some an by simp_all
  then have t: "length t = n" by (simp add: t_def)
  have u: "upd {a} st st1" using v t by (auto simp: st1_def upd_def nth_list_update)
  have v1: "valid st1 (Some (a, n))" using v t by (simp add: st1_def)
  have "keepIn a (remdups_adj t) st1 = (s', st')"
    using assms(2) unfolding Some an cleanSet.simps Let_def t_def st1_def by simp
  from keepIn_ok [OF v1 _ this] length_remdups_adj [of t] t
  have k: "setop {a} st1 s' st'" "strs s' st' = remdups_adj t" "s' = Some (a, length (remdups_adj t))" by auto
  have "strs s' st' = ss_clean f (strs s st)" using k(2) by (simp add: Some an t_def ss_clean_def)
  moreover have "setop {a} st s' st'"
    using k(1,3) u by (auto simp: setop_def intro: upd_trans)
  ultimately show ?thesis using k(3) by (simp add: Some an)
qed

text \<open>Results of \<open>setop\<close> in sequence.\<close>

lemma setop_seq:
  assumes "setop A st s1 st1" "setop (addrs s1) st1 s2 st2"
  shows "setop A st s2 st2"
proof -
  have a: "addrs s1 \<subseteq> A \<union> {length st..<length st1}" using assms(1) by (simp add: setop_def)
  have l: "length st \<le> length st1" "length st1 \<le> length st2" using assms by (auto simp: setop_def upd_def)
  have "addrs s2 \<subseteq> addrs s1 \<union> {length st1..<length st2}" using assms(2) by (simp add: setop_def)
  also have "\<dots> \<subseteq> A \<union> {length st..<length st2}" using a l by fastforce
  finally have "addrs s2 \<subseteq> A \<union> {length st..<length st2}" .
  moreover have "upd A st st2"
    by (rule upd_trans [of A st st1 "addrs s1"]) (use assms a in \<open>auto simp: setop_def\<close>)
  ultimately show ?thesis using assms(2) by (simp add: setop_def)
qed

lemma setop_valid: "setop A st s' st' \<Longrightarrow> valid st' s'"
  by (simp add: setop_def)

lemma unionSet_ok:
  assumes "grow_ok grow" "valid st s" "unionSet grow s t f st = (s', st')"
  shows "setop (addrs s) st s' st' \<and> set (strs s' st') = set (strs s st) \<union> set (strs t st) \<and> (s \<noteq> None \<longrightarrow> s' \<noteq> None)"
proof -
  obtain s1 st1 where ap: "appendSet grow s (strs t st) st = (s1, st1)" by fastforce
  with assms(3) have c: "cleanSet f s1 st1 = (s', st')" by (simp add: unionSet_def)
  note a = appendSet_ok [OF assms(1,2) ap]
  note b = cleanSet_ok [OF setop_valid c, OF conjunct1 [OF a]]
  show ?thesis using a b setop_seq [of "addrs s" st s1 st1 s' st'] by simp
qed

lemma addAllSet_ok:
  assumes "grow_ok grow"
  shows "valid st s \<Longrightarrow> addAllSet grow xs s st = (s', st') \<Longrightarrow>
    setop (addrs s) st s' st' \<and> strs s' st' = strs s st @ xs \<and> (s \<noteq> None \<longrightarrow> s' \<noteq> None)"
proof (induction xs arbitrary: s st)
  case Nil
  then show ?case by (auto simp: setop_def)
next
  case (Cons x xs)
  obtain s1 st1 where ap: "appendSet grow s [x] st = (s1, st1)" by fastforce
  with Cons.prems(2) have c: "addAllSet grow xs s1 st1 = (s', st')" by (simp add: addSet_def)
  note a = appendSet_ok [OF assms Cons.prems(1) ap]
  note b = Cons.IH [OF setop_valid c, OF conjunct1 [OF a]]
  show ?case using a b setop_seq [of "addrs s" st s1 st1 s' st'] by simp
qed

lemma crossSet_ok:
  assumes "grow_ok grow" "valid st s" "valid st t" "crossSet grow s t f st = (s', st')"
  shows "setop {} st s' st' \<and> set (strs s' st') = {x @ y | x y. x \<in> set (strs s st) \<and> y \<in> set (strs t st)} \<and> s' \<noteq> None"
proof -
  obtain p st1 where n: "newSet [] st = (p, st1)" by fastforce
  note n' = newSet_ok [OF n]
  have st: "strs s st1 = strs s st" "strs t st1 = strs t st"
    using n' assms(2,3) upd_strs by (auto simp: setop_def)
  let ?xs = "concat (map (\<lambda>ss. map (\<lambda>tt. ss @ tt) (strs t st)) (strs s st))"
  obtain p1 st2 where ad: "addAllSet grow ?xs p st1 = (p1, st2)" by fastforce
  have c: "cleanSet f p1 st2 = (s', st')" using assms(4) by (simp add: crossSet_def n st ad)
  have vp: "valid st1 p" using n' setop_valid by blast
  note a = addAllSet_ok [OF assms(1) vp ad]
  have vp1: "valid st2 p1" using a setop_valid by blast
  note b = cleanSet_ok [OF vp1 c]
  have "setop {} st s' st'"
    using setop_seq [OF setop_seq [of "{}" st p st1 p1 st2] , of s' st'] n' a b by blast
  moreover have "set (strs s' st') = set ?xs" using a b n' by simp
  ultimately show ?thesis using a b n' by auto
qed

lemma copySet_ok:
  assumes "grow_ok grow" "valid st s" "copySet grow s st = (s', st')"
  shows "setop {} st s' st' \<and> strs s' st' = strs s st \<and> s' \<noteq> None"
proof -
  obtain p st1 where n: "newSet [] st = (p, st1)" by fastforce
  note n' = newSet_ok [OF n]
  have st: "strs s st1 = strs s st" using n' assms(2) upd_strs by (auto simp: setop_def)
  have vp: "valid st1 p" using n' setop_valid by blast
  have "appendSet grow p (strs s st) st1 = (s', st')" using assms(3) by (simp add: copySet_def n st)
  note a = appendSet_ok [OF assms(1) vp this]
  show ?thesis using a n' setop_seq [of "{}" st p st1 s' st'] by simp
qed

section \<open>Shorter sets\<close>

definition ext :: "bool \<Rightarrow> gostr \<Rightarrow> gostr \<Rightarrow> bool" where
  "ext isSuffix x y \<longleftrightarrow> (if isSuffix then \<exists>u. x = u @ y else \<exists>v. x = y @ v)"

lemma ext_refl [simp]: "ext f x x"
  by (simp add: ext_def)

lemma ext_trans: "ext f x y \<Longrightarrow> ext f y z \<Longrightarrow> ext f x z"
  by (auto simp: ext_def split: if_splits)

lemma ext_part: "ext f w x \<Longrightarrow> \<exists>a b. w = a @ x @ b"
  unfolding ext_def by (cases f) (metis append_Nil append_Nil2)+

lemma hasPrefix_ext: "hasPrefix x y = ext False x y"
proof
  assume "hasPrefix x y"
  then have "x = y @ drop (length y) x" unfolding hasPrefix_def by (metis append_take_drop_id)
  then show "ext False x y" by (auto simp: ext_def)
qed (auto simp: hasPrefix_def ext_def)

lemma hasSuffix_ext: "hasSuffix x y = ext True x y"
proof
  assume "hasSuffix x y"
  then have "x = take (length x - length y) x @ y" unfolding hasSuffix_def by (metis append_take_drop_id)
  then show "ext True x y" by (auto simp: ext_def)
qed (auto simp: hasSuffix_def ext_def)

lemma ext_take: "ext False x (take n x)"
  unfolding ext_def by (simp, rule exI [of _ "drop n x"]) simp

lemma ext_drop: "ext True x (drop n x)"
  unfolding ext_def by (simp, rule exI [of _ "take n x"]) simp

lemma ext_cut: "ext f x (cutStr f n x)"
  by (cases f) (simp_all add: cutStr_def ext_take ext_drop)

definition coarser :: "bool \<Rightarrow> gostr set \<Rightarrow> gostr set \<Rightarrow> bool" where
  "coarser f X Y \<longleftrightarrow> (\<forall>x \<in> X. \<exists>y \<in> Y. ext f x y)"

lemma coarser_refl [simp]: "coarser f X X"
  by (auto simp: coarser_def intro: ext_refl)

lemma coarser_trans: "coarser f X Y \<Longrightarrow> coarser f Y Z \<Longrightarrow> coarser f X Z"
  by (meson coarser_def ext_trans)

lemma shorten_ok:
  "valid st t \<Longrightarrow> shorten f k t st = (t', st') \<Longrightarrow>
    setop (addrs t) st t' st' \<and> coarser f (set (strs t st)) (set (strs t' st'))"
proof (induction f k t st rule: shorten.induct)
  case (1 f k st)
  then show ?case by (simp add: setop_def)
next
  case (2 f a st)
  then show ?case by (auto simp: setop_def)
next
  case (3 f k a n st)
  show ?case
  proof (cases "Suc k = 3 \<or> n > maxSet")
    case False
    with 3 show ?thesis by (auto simp: setop_def)
  next
    case True
    define d where "d = remdups_adj (map (cutStr f (Suc k)) (take n (st ! a)))"
    obtain t1 st1 where k: "keepIn a d st = (t1, st1)" by fastforce
    obtain t2 st2 where c: "cleanSet f t1 st1 = (t2, st2)" by fastforce
    have sh: "shorten f k t2 st2 = (t', st')" using 3(3) True k c by (simp add: d_def)
    have "length d \<le> n" using length_remdups_adj [of "map (cutStr f (Suc k)) (take n (st ! a))"] by (simp add: d_def)
    note k' = keepIn_ok [OF 3(2) this k]
    have v1: "valid st1 t1" using k' setop_valid by blast
    note c' = cleanSet_ok [OF v1 c]
    have v2: "valid st2 t2" using c' setop_valid by blast
    from 3(1) [OF True refl k [unfolded d_def, symmetric] refl c [symmetric] v2 sh]
    have ih: "setop (addrs t2) st2 t' st'" "coarser f (set (strs t2 st2)) (set (strs t' st'))" by blast+
    have "set (strs t2 st2) = set (strs t1 st1)" using c' by simp
    then have "set (strs t2 st2) = cutStr f (Suc k) ` set (take n (st ! a))"
      unfolding conjunct1 [OF conjunct2 [OF k']] by (simp add: d_def)
    then have "coarser f (set (strs (Some (a, n)) st)) (set (strs t2 st2))"
      by (auto simp: coarser_def intro: ext_cut)
    moreover have "setop (addrs (Some (a, n))) st t' st'"
      using setop_seq [OF setop_seq [OF conjunct1 [OF k'] conjunct1 [OF c']] ih(1)] by simp
    ultimately show ?thesis using ih(2) coarser_trans by blast
  qed
qed

lemma irredundant_ok:
  "f = (if b then hasSuffix else hasPrefix) \<Longrightarrow> coarser b (set acc \<union> set xs) (set (irredundant f acc xs)) \<and>
    length (irredundant f acc xs) \<le> length acc + length xs"
proof (induction f acc xs rule: irredundant.induct)
  case (3 f y acc x xs)
  show ?case
  proof (cases "f x y")
    case True
    then have "ext b x y" using 3(2) hasPrefix_ext hasSuffix_ext by (cases b) auto
    then have "coarser b (set (y # acc) \<union> set (x # xs)) (set (y # acc) \<union> set xs)"
      by (auto simp: coarser_def intro: ext_refl)
    moreover have "coarser b (set (y # acc) \<union> set xs) (set (irredundant f (y # acc) xs)) \<and>
        length (irredundant f (y # acc) xs) \<le> length (y # acc) + length xs"
      using 3 True by simp
    ultimately show ?thesis using True coarser_trans by simp
  next
    case False
    then have "set (y # acc) \<union> set (x # xs) = set (x # y # acc) \<union> set xs" by auto
    with 3 False show ?thesis by simp
  qed
qed simp_all

section \<open>What a query covers\<close>

text \<open>Every text in which \<open>w\<close> occurs satisfies \<open>m\<close>.\<close>

definition covers :: "query \<Rightarrow> gostr \<Rightarrow> bool" where
  "covers m w \<longleftrightarrow> (\<forall>u v. qsat (\<lambda>t. t \<in> set (trigrams_of (u @ w @ v))) m)"

lemma trigrams_prefix: "set (trigrams_of s) \<subseteq> set (trigrams_of (s @ v))"
  by (induction s rule: trigrams_of.induct) auto

lemma trigrams_cons: "set (trigrams_of s) \<subseteq> set (trigrams_of (a # s))"
  by (cases s rule: trigrams_of.cases) auto

lemma trigrams_suffix: "set (trigrams_of s) \<subseteq> set (trigrams_of (u @ s))"
  by (induction u) (use trigrams_cons in fastforce)+

lemma trigrams_part: "set (trigrams_of s) \<subseteq> set (trigrams_of (u @ s @ v))"
  using trigrams_prefix [of s v] trigrams_suffix [of "s @ v" u] by blast

lemma covers_part: "covers m w \<Longrightarrow> covers m (u @ w @ v)"
  unfolding covers_def by (metis append.assoc)

lemma covers_andTrigrams:
  assumes "qwf m" "covers m w" "x \<in> set ss" "w = a @ x @ b"
  shows "covers (andTrigrams m ss) w"
  unfolding covers_def
proof (intro allI)
  fix u v
  let ?D = "\<lambda>t. t \<in> set (trigrams_of (u @ w @ v))"
  have "?D t" if "t \<in> set (trigrams_of x)" for t
    using trigrams_part [of x "u @ a" "b @ v"] that assms(4) by auto
  moreover have "qsat ?D m" using assms(2) by (simp add: covers_def)
  ultimately show "qsat ?D (andTrigrams m ss)"
    using andTrigrams_sem [OF assms(1), of ss ?D] assms(3) by blast
qed

lemma covers_qand: "qwf m \<Longrightarrow> qwf m' \<Longrightarrow> covers m w \<Longrightarrow> covers m' w \<Longrightarrow> covers (qand m m') w"
  using qand_ok [of m m'] by (simp add: covers_def)

lemma covers_qor: "qwf m \<Longrightarrow> qwf m' \<Longrightarrow> covers m w \<or> covers m' w \<Longrightarrow> covers (qor m m') w"
  using qor_ok [of m m'] by (auto simp: covers_def)

lemma covers_all [simp]: "covers allQuery w"
  by (simp add: covers_def)

section \<open>Sound analyses\<close>

definition sound :: "gostr set \<Rightarrow> regexpInfo \<Rightarrow> store \<Rightarrow> bool" where
  "sound L i st \<longleftrightarrow> qwf (riMatch i) \<and> (\<forall>w \<in> L. covers (riMatch i) w) \<and>
     (if have_set (riExact i) then L \<subseteq> set (strs (riExact i) st)
      else coarser False L (set (strs (riPrefix i) st)) \<and> coarser True L (set (strs (riSuffix i) st)))"

definition iaddrs :: "regexpInfo \<Rightarrow> nat set" where
  "iaddrs i = addrs (riExact i) \<union> addrs (riPrefix i) \<union> addrs (riSuffix i)"

text \<open>The arrays of an analysis exist, and its two sets do not share one.\<close>

definition isep :: "store \<Rightarrow> regexpInfo \<Rightarrow> bool" where
  "isep st i \<longleftrightarrow> valid st (riExact i) \<and> valid st (riPrefix i) \<and> valid st (riSuffix i) \<and>
     addrs (riPrefix i) \<inter> addrs (riSuffix i) = {} \<and>
     (have_set (riExact i) \<longrightarrow> riPrefix i = None \<and> riSuffix i = None)"

definition infoop :: "nat set \<Rightarrow> store \<Rightarrow> regexpInfo \<Rightarrow> store \<Rightarrow> bool" where
  "infoop A st i' st' \<longleftrightarrow> upd A st st' \<and> isep st' i' \<and> iaddrs i' \<subseteq> A \<union> {length st..<length st'}"

lemma simplifySet_ok:
  assumes "valid st s" "qwf m" "simplifySet f s m st = ((s', m'), st')"
  shows "setop (addrs s) st s' st'" "qwf m'" "coarser f (set (strs s st)) (set (strs s' st'))"
    "covers m w \<Longrightarrow> ext f w x \<Longrightarrow> x \<in> set (strs s st) \<Longrightarrow> covers m' w"
proof -
  obtain t st1 where c: "cleanSet f s st = (t, st1)" by fastforce
  obtain t2 st2 where sh: "shorten f 3 t st1 = (t2, st2)" by fastforce
  note c' = cleanSet_ok [OF assms(1) c]
  have vt: "valid st1 t" using c' setop_valid by blast
  note sh' = shorten_ok [OF vt sh]
  have m': "m' = andTrigrams m (strs t st1)"
    using assms(3) by (auto simp: simplifySet_def c sh Let_def split: option.splits prod.splits)
  have st: "set (strs t st1) = set (strs s st)" using c' by simp
  have "setop (addrs t2) st2 s' st' \<and> coarser f (set (strs t2 st2)) (set (strs s' st'))"
  proof (cases t2)
    case None
    then show ?thesis using assms(3) by (auto simp: simplifySet_def c sh Let_def setop_def)
  next
    case (Some an)
    obtain a n where an: "an = (a, n)" by (cases an)
    let ?d = "irredundant (if f then hasSuffix else hasPrefix) [] (take n (st2 ! a))"
    have v2: "valid st2 (Some (a, n))" using sh' setop_valid Some an by blast
    have k: "keepIn a ?d st2 = (s', st')"
      using assms(3) by (auto simp: simplifySet_def c sh Some an Let_def split: prod.splits)
    have i: "coarser f (set (take n (st2 ! a))) (set ?d)" "length ?d \<le> n"
      using irredundant_ok [OF refl, of f "[]" "take n (st2 ! a)"] by auto
    from keepIn_ok [OF v2 i(2) k] i(1) show ?thesis by (auto simp: Some an)
  qed
  then show "setop (addrs s) st s' st'" "coarser f (set (strs s st)) (set (strs s' st'))"
    using c' sh' st setop_seq [OF setop_seq [OF conjunct1 [OF c'] conjunct1 [OF sh']]] coarser_trans
    by metis+
  show "qwf m'" using andTrigrams_sem [OF assms(2)] m' by blast
  assume w: "covers m w" "ext f w x" "x \<in> set (strs s st)"
  then obtain a b where "w = a @ x @ b" using ext_part by blast
  with covers_andTrigrams [OF assms(2) w(1), of x "strs t st1"] w(3) st m' show "covers m' w" by simp
qed

lemma upd_setop: "setop A st s' st' \<Longrightarrow> upd A st st'"
  by (simp add: setop_def)

lemma setop_addrs: "setop A st s' st' \<Longrightarrow> addrs s' \<subseteq> A \<union> {length st..<length st'}"
  by (simp add: setop_def)

text \<open>Two sets one after the other.\<close>

lemma setop_pair:
  assumes "setop (addrs p) st p' st1" "setop (addrs s) st1 s' st2" "valid st p" "valid st s"
    "addrs p \<inter> addrs s = {}"
  shows "upd (addrs p \<union> addrs s) st st2" "valid st2 p'" "valid st2 s'" "addrs p' \<inter> addrs s' = {}"
    "addrs p' \<union> addrs s' \<subseteq> addrs p \<union> addrs s \<union> {length st..<length st2}"
    "strs p' st2 = strs p' st1" "strs s st1 = strs s st"
proof -
  have l: "length st \<le> length st1" "length st1 \<le> length st2"
    using assms(1,2) upd_length upd_setop by blast+
  have a: "addrs p \<subseteq> {..<length st}" "addrs s \<subseteq> {..<length st}" using assms(3,4) valid_addrs by blast+
  have p: "addrs p' \<subseteq> addrs p \<union> {length st..<length st1}" by (rule setop_addrs [OF assms(1)])
  have s: "addrs s' \<subseteq> addrs s \<union> {length st1..<length st2}" by (rule setop_addrs [OF assms(2)])
  have disj: "addrs p' \<inter> addrs s = {}" using p a assms(5) by fastforce
  show "addrs p' \<inter> addrs s' = {}"
  proof -
    have "addrs p' \<subseteq> {..<length st1}" using setop_valid [OF assms(1)] valid_addrs by blast
    then show ?thesis using s disj by fastforce
  qed
  show "upd (addrs p \<union> addrs s) st st2"
    by (rule upd_trans [OF upd_mono [OF upd_setop [OF assms(1)]] upd_setop [OF assms(2)]]) auto
  show "valid st2 p'" using upd_valid [OF upd_setop [OF assms(2)] setop_valid [OF assms(1)]] .
  show "valid st2 s'" by (rule setop_valid [OF assms(2)])
  show "addrs p' \<union> addrs s' \<subseteq> addrs p \<union> addrs s \<union> {length st..<length st2}" using p s l by fastforce
  show "strs p' st2 = strs p' st1" by (rule upd_strs [OF upd_setop [OF assms(2)] setop_valid [OF assms(1)] disj])
  show "strs s st1 = strs s st"
    by (rule upd_strs [OF upd_setop [OF assms(1)] assms(4)]) (use assms(5) in auto)
qed

lemma simplifySets_ok:
  assumes "isep st i" "riExact i = None" "sound L i st"
    "simplifySet False (riPrefix i) (riMatch i) st = ((p, m), st1)"
    "simplifySet True (riSuffix i) m st1 = ((s, m'), st2)"
  shows "infoop (iaddrs i) st (i\<lparr>riPrefix := p, riSuffix := s, riMatch := m'\<rparr>) st2 \<and>
    sound L (i\<lparr>riPrefix := p, riSuffix := s, riMatch := m'\<rparr>) st2"
proof -
  have v: "valid st (riPrefix i)" "valid st (riSuffix i)" "addrs (riPrefix i) \<inter> addrs (riSuffix i) = {}"
    using assms(1) by (simp_all add: isep_def)
  have sd: "qwf (riMatch i)" "\<forall>w \<in> L. covers (riMatch i) w" "coarser False L (set (strs (riPrefix i) st))"
    "coarser True L (set (strs (riSuffix i) st))"
    using assms(2,3) by (simp_all add: sound_def have_set_def)
  note P = simplifySet_ok [OF v(1) sd(1) assms(4)]
  have v1: "valid st1 (riSuffix i)" by (rule upd_valid [OF upd_setop [OF P(1)] v(2)])
  note S = simplifySet_ok [OF v1 P(2) assms(5)]
  note pr = setop_pair [OF P(1) S(1) v]
  have "infoop (iaddrs i) st (i\<lparr>riPrefix := p, riSuffix := s, riMatch := m'\<rparr>) st2"
    using pr assms(2) by (simp add: infoop_def isep_def iaddrs_def have_set_def)
  moreover have "coarser False L (set (strs p st2))" using coarser_trans [OF sd(3) P(3)] pr(6) by simp
  moreover have "coarser True L (set (strs s st2))" using coarser_trans [OF sd(4), of "set (strs s st2)"] S(3) pr(7) by simp
  moreover have "covers m' w" if w: "w \<in> L" for w
  proof -
    obtain x where "x \<in> set (strs (riPrefix i) st)" "ext False w x" using sd(3) w by (auto simp: coarser_def)
    then have m: "covers m w" using P(4) sd(2) w by blast
    obtain y where "y \<in> set (strs (riSuffix i) st)" "ext True w y" using sd(4) w by (auto simp: coarser_def)
    then show ?thesis using S(4) [OF m] pr(7) by simp
  qed
  ultimately show ?thesis using S(2) assms(2) by (simp add: sound_def have_set_def)
qed

lemma isep_valid:
  assumes "isep st i"
  shows "valid st (riExact i)" "valid st (riPrefix i)" "valid st (riSuffix i)"
  using assms by (simp_all add: isep_def)

lemma coarser_map: "(\<And>x. ext f x (g x)) \<Longrightarrow> coarser f (set xs) (set (map g xs))"
  by (auto simp: coarser_def)

lemma prefixes2_coarser: "coarser False (set xs) (set (prefixes2 xs))"
  unfolding prefixes2_def by (rule coarser_map) (simp add: ext_take)

lemma suffixes2_coarser: "coarser True (set xs) (set (suffixes2 xs))"
  unfolding suffixes2_def by (rule coarser_map) (simp add: ext_drop)

lemma coarser_subset: "L \<subseteq> X \<Longrightarrow> coarser f X Y \<Longrightarrow> coarser f L Y"
  by (auto simp: coarser_def)

lemma infoop_trans:
  assumes "infoop A st i1 st1" "infoop (iaddrs i1) st1 i2 st2"
  shows "infoop A st i2 st2"
proof -
  have a: "iaddrs i1 \<subseteq> A \<union> {length st..<length st1}" and l: "length st \<le> length st1" "length st1 \<le> length st2"
    using assms by (auto simp: infoop_def upd_def)
  have "upd A st st2"
    by (rule upd_trans [of A st st1 "iaddrs i1"]) (use assms a in \<open>auto simp: infoop_def\<close>)
  moreover have "iaddrs i2 \<subseteq> A \<union> {length st..<length st2}"
    using assms(2) a l by (fastforce simp: infoop_def)
  ultimately show ?thesis using assms(2) by (simp add: infoop_def)
qed

lemma sound_addExact:
  assumes "sound L i st" "have_set (riExact i)"
  shows "qwf (andTrigrams (riMatch i) (strs (riExact i) st))"
    "w \<in> L \<Longrightarrow> covers (andTrigrams (riMatch i) (strs (riExact i) st)) w"
proof -
  show "qwf (andTrigrams (riMatch i) (strs (riExact i) st))"
    using andTrigrams_sem assms(1) by (simp add: sound_def)
  assume w: "w \<in> L"
  then have "w \<in> set (strs (riExact i) st)" using assms by (auto simp: sound_def)
  then show "covers (andTrigrams (riMatch i) (strs (riExact i) st)) w"
    using covers_andTrigrams [of "riMatch i" w w "strs (riExact i) st" "[]" "[]"] w assms(1)
    by (simp add: sound_def)
qed

lemma simplify_ok:
  assumes "grow_ok grow" "isep st i" "sound L i st" "simplify grow force i st = (i', st')"
  shows "infoop (iaddrs i) st i' st' \<and> sound L i' st'"
proof (cases "riExact i")
  case None
  obtain p m st1 where p: "simplifySet False (riPrefix i) (riMatch i) st = ((p, m), st1)" by (metis surj_pair)
  obtain s m' st2 where q: "simplifySet True (riSuffix i) m st1 = ((s, m'), st2)" by (metis surj_pair)
  have "i\<lparr>riExact := None, riPrefix := p, riSuffix := s, riMatch := m'\<rparr> = i\<lparr>riPrefix := p, riSuffix := s, riMatch := m'\<rparr>"
    using None by (cases i) simp
  then have "simplify grow force i st = (i\<lparr>riPrefix := p, riSuffix := s, riMatch := m'\<rparr>, st2)"
    using None by (simp add: simplify_def have_set_def ss_minLen_def maxExact_def p q)
  with simplifySets_ok [OF assms(2) None assms(3) p q] assms(4) show ?thesis by simp
next
  case (Some an)
  obtain e st1 where c: "cleanSet False (riExact i) st = (e, st1)" by fastforce
  have ps: "riPrefix i = None" "riSuffix i = None" using assms(2) Some by (simp_all add: isep_def have_set_def)
  have c': "setop (addrs (riExact i)) st e st1" "strs e st1 = ss_clean False (strs (riExact i) st)" "e \<noteq> None"
    using cleanSet_ok [OF isep_valid(1) [OF assms(2)] c] Some by simp_all
  let ?i1 = "i\<lparr>riExact := e\<rparr>"
  have i1: "infoop (iaddrs i) st ?i1 st1"
    using c'(1) ps by (simp add: infoop_def setop_def isep_def iaddrs_def)
  have s1: "sound L ?i1 st1" using assms(3) c' Some by (simp add: sound_def have_set_def)
  have h: "have_set (riExact ?i1)" using c'(3) by (simp add: have_set_def)
  define big where "big \<longleftrightarrow> length (strs e st1) > maxExact \<or> ss_minLen (strs e st1) \<ge> 3 \<and> force \<or> ss_minLen (strs e st1) \<ge> 4"
  show ?thesis
  proof (cases big)
    case False
    then have "simplify grow force i st = (?i1, st1)"
      using h by (auto simp: simplify_def c big_def Let_def)
    then show ?thesis using assms(4) i1 s1 by simp
  next
    case True
    obtain p sa where p: "addAllSet grow (prefixes2 (strs e st1)) None st1 = (p, sa)" by fastforce
    obtain s sb where q: "addAllSet grow (suffixes2 (strs e st1)) None sa = (s, sb)" by fastforce
    note p' = addAllSet_ok [OF assms(1) _ p]
    note q' = addAllSet_ok [OF assms(1) _ q]
    have P: "setop {} st1 p sa" "strs p sa = prefixes2 (strs e st1)" using p' by simp_all
    have Q: "setop {} sa s sb" "strs s sb = suffixes2 (strs e st1)" using q' by simp_all
    have pr: "upd {} st1 sb" "valid sb p" "valid sb s" "addrs p \<inter> addrs s = {}"
      "addrs p \<union> addrs s \<subseteq> {length st1..<length sb}" "strs p sb = strs p sa"
      using setop_pair [of None st1 p sa None s sb] P(1) Q(1) by simp_all
    let ?i2 = "(addExact ?i1 st1)\<lparr>riPrefix := p, riSuffix := s, riExact := None\<rparr>"
    obtain p3 m st3 where p3: "simplifySet False p (riMatch ?i2) sb = ((p3, m), st3)" by (metis surj_pair)
    obtain s3 m' st4 where q3: "simplifySet True s m st3 = ((s3, m'), st4)" by (metis surj_pair)
    have "riMatch (addExact ?i1 st1) = riMatch ?i2" by simp
    then have "simplify grow force i st = (?i2\<lparr>riPrefix := p3, riSuffix := s3, riMatch := m'\<rparr>, st4)"
      using True p3 q3 unfolding simplify_def c big_def by (simp add: Let_def ps p q have_set_def)
    then have res: "i' = ?i2\<lparr>riPrefix := p3, riSuffix := s3, riMatch := m'\<rparr>" "st' = st4"
      using assms(4) by simp_all
    have sep2: "isep sb ?i2" using pr by (simp add: isep_def have_set_def addExact_def)
    have io2: "infoop {} st1 ?i2 sb" using pr sep2 by (simp add: infoop_def iaddrs_def addExact_def)
    have L: "L \<subseteq> set (strs e st1)" using s1 h by (simp add: sound_def)
    have "riMatch ?i2 = andTrigrams (riMatch ?i1) (strs (riExact ?i1) st1)" using h by (simp add: addExact_def)
    then have s2: "sound L ?i2 sb"
      using sound_addExact [OF s1 h] coarser_subset [OF L prefixes2_coarser] coarser_subset [OF L suffixes2_coarser]
        P(2) Q(2) pr(6) by (simp add: sound_def have_set_def)
    have p3': "simplifySet False (riPrefix ?i2) (riMatch ?i2) sb = ((p3, m), st3)"
      and q3': "simplifySet True (riSuffix ?i2) m st3 = ((s3, m'), st4)" using p3 q3 by simp_all
    have "riExact ?i2 = None" by simp
    from simplifySets_ok [OF sep2 this s2 p3' q3'] have f: "infoop (iaddrs ?i2) sb i' st'" "sound L i' st'"
      unfolding res by blast+
    have "infoop {} st1 i' st'" by (rule infoop_trans [OF io2 f(1)])
    then have "infoop (iaddrs ?i1) st1 i' st'"
      by (auto simp: infoop_def intro: upd_mono)
    from infoop_trans [OF i1 this] f(2) show ?thesis by blast
  qed
qed

end
