(* ===== verification/Regex_Sound.thy ===== *)
theory Regex_Sound
  imports Regex_Sets
begin

text \<open>
  Concatenation, alternation and repetition of the summaries of \<open>regexp.go\<close>, the walk of
  \<open>analyze\<close> over a syntax tree, and the soundness of \<open>RegexpQuery\<close>.
\<close>

section \<open>Concatenation, alternation, repetition\<close>

lemma setop_empty_union: "setop {} st s' st' \<Longrightarrow> setop A st s' st'"
  by (auto simp: setop_def intro: upd_mono)

text \<open>Two sets made from different arrays, as the prefix and the suffix of a result.\<close>

lemma two_sets:
  assumes "setop A st p st1" "setop B st1 s st2" "A \<inter> B = {}" "A \<union> B \<subseteq> {..<length st}"
  shows "upd (A \<union> B) st st2" "valid st2 p" "valid st2 s" "addrs p \<inter> addrs s = {}"
    "addrs p \<union> addrs s \<subseteq> A \<union> B \<union> {length st..<length st2}" "strs p st2 = strs p st1"
proof -
  have l: "length st \<le> length st1" "length st1 \<le> length st2"
    using assms(1,2) upd_length upd_setop by blast+
  have p: "addrs p \<subseteq> A \<union> {length st..<length st1}" by (rule setop_addrs [OF assms(1)])
  have s: "addrs s \<subseteq> B \<union> {length st1..<length st2}" by (rule setop_addrs [OF assms(2)])
  have pb: "addrs p \<inter> B = {}" using p assms(3,4) by fastforce
  show "addrs p \<inter> addrs s = {}" using p s l assms(3,4) by fastforce
  show "upd (A \<union> B) st st2"
    by (rule upd_trans [OF upd_mono [OF upd_setop [OF assms(1)]] upd_setop [OF assms(2)]]) auto
  show "valid st2 p" using upd_valid [OF upd_setop [OF assms(2)] setop_valid [OF assms(1)]] .
  show "valid st2 s" by (rule setop_valid [OF assms(2)])
  show "addrs p \<union> addrs s \<subseteq> A \<union> B \<union> {length st..<length st2}" using p s l by fastforce
  show "strs p st2 = strs p st1" by (rule upd_strs [OF upd_setop [OF assms(2)] setop_valid [OF assms(1)] pb])
qed

lemma isep_addrs: "isep st i \<Longrightarrow> iaddrs i \<subseteq> {..<length st}"
  using valid_addrs [of st "riExact i"] valid_addrs [of st "riPrefix i"] valid_addrs [of st "riSuffix i"]
  by (simp add: isep_def iaddrs_def)

lemma coarserE: "coarser f X Y \<Longrightarrow> x \<in> X \<Longrightarrow> (\<And>y. y \<in> Y \<Longrightarrow> ext f x y \<Longrightarrow> thesis) \<Longrightarrow> thesis"
  by (auto simp: coarser_def)

lemma coarserI: "(\<And>x. x \<in> X \<Longrightarrow> \<exists>y \<in> Y. ext f x y) \<Longrightarrow> coarser f X Y"
  by (simp add: coarser_def)

lemma sound_keep:
  assumes "sound L i st" "isep st i" "upd A st st'" "iaddrs i \<inter> A = {}"
  shows "sound L i st'" "isep st' i"
proof -
  have "strs (riExact i) st' = strs (riExact i) st" "strs (riPrefix i) st' = strs (riPrefix i) st"
    "strs (riSuffix i) st' = strs (riSuffix i) st"
    using assms(2-4) upd_strs [OF assms(3)] by (auto simp: isep_def iaddrs_def)
  then show "sound L i st'" using assms(1) by (simp add: sound_def)
  show "isep st' i" using assms(2) upd_valid [OF assms(3)] by (simp add: isep_def)
qed

text \<open>The prefix and the suffix set of a concatenation.\<close>

definition concPrefix :: "grow \<Rightarrow> regexpInfo \<Rightarrow> regexpInfo \<Rightarrow> store \<Rightarrow> stringSet \<times> store" where
  "concPrefix grow x y st = (if have_set (riExact x) then crossSet grow (riExact x) (riPrefix y) False st
     else if canEmpty x then unionSet grow (riPrefix x) (riPrefix y) False st else (riPrefix x, st))"

definition concSuffix :: "grow \<Rightarrow> regexpInfo \<Rightarrow> regexpInfo \<Rightarrow> store \<Rightarrow> stringSet \<times> store" where
  "concSuffix grow x y st = (if have_set (riExact y) then crossSet grow (riSuffix x) (riExact y) True st
     else if canEmpty y then unionSet grow (riSuffix y) (riSuffix x) True st else (riSuffix y, st))"

definition concBoth :: "grow \<Rightarrow> regexpInfo \<Rightarrow> regexpInfo \<Rightarrow> query \<Rightarrow> store \<Rightarrow> query \<times> store" where
  "concBoth grow x y m st =
     (if \<not> have_set (riExact x) \<and> \<not> have_set (riExact y) \<and> length (strs (riSuffix x) st) \<le> maxSet \<and>
         length (strs (riPrefix y) st) \<le> maxSet \<and>
         ss_minLen (strs (riSuffix x) st) + ss_minLen (strs (riPrefix y) st) \<ge> 3
      then let (t, sa) = crossSet grow (riSuffix x) (riPrefix y) False st in (andTrigrams m (strs t sa), sa)
      else (m, st))"

lemma concatInfo_parts:
  "concatInfo grow x y st =
    (if have_set (riExact x) \<and> have_set (riExact y)
     then let (e, st1) = crossSet grow (riExact x) (riExact y) False st
          in simplify grow False \<lparr>canEmpty = False, riExact = e, riPrefix = None, riSuffix = None,
               riMatch = qand (riMatch x) (riMatch y)\<rparr> st1
     else let (p, sa) = concPrefix grow x y st; (s, sb) = concSuffix grow x y sa;
              (m, sc) = concBoth grow x y (qand (riMatch x) (riMatch y)) sb
          in simplify grow False \<lparr>canEmpty = False, riExact = None, riPrefix = p, riSuffix = s, riMatch = m\<rparr> sc)"
  unfolding concatInfo_def concPrefix_def concSuffix_def concBoth_def Let_def
  by (simp split: prod.split)

lemma ext_False_append: "ext False u p \<Longrightarrow> ext False (u @ v) p"
  by (auto simp: ext_def)

lemma ext_True_append: "ext True v p \<Longrightarrow> ext True (u @ v) p"
  by (auto simp: ext_def)

lemma ext_both: "ext False v p \<Longrightarrow> ext False (u @ v) (u @ p)" "ext True u q \<Longrightarrow> ext True (u @ v) (q @ v)"
  by (auto simp: ext_def)

lemma coarser_concI:
  "(\<And>u v. u \<in> A \<Longrightarrow> v \<in> B \<Longrightarrow> \<exists>y \<in> Y. ext f (u @ v) y) \<Longrightarrow> coarser f (conc A B) Y"
  by (auto simp: conc_def intro: coarserI)

lemma coarser_conc1:
  assumes "coarser False A X" "X \<subseteq> Y"
  shows "coarser False (conc A B) Y"
proof (rule coarser_concI)
  fix u v assume "u \<in> A" "v \<in> B"
  from assms(1) this(1) obtain x where "x \<in> X" "ext False u x" by (rule coarserE)
  then show "\<exists>y \<in> Y. ext False (u @ v) y" using ext_False_append assms(2) by blast
qed

lemma coarser_conc2:
  assumes "coarser True B X" "X \<subseteq> Y"
  shows "coarser True (conc A B) Y"
proof (rule coarser_concI)
  fix u v assume "u \<in> A" "v \<in> B"
  from assms(1) this(2) obtain x where "x \<in> X" "ext True v x" by (rule coarserE)
  then show "\<exists>y \<in> Y. ext True (u @ v) y" using ext_True_append assms(2) by blast
qed

lemma coarser_conc3:
  assumes "A \<subseteq> X" "coarser False B Y"
  shows "coarser False (conc A B) {x @ y | x y. x \<in> X \<and> y \<in> Y}"
proof (rule coarser_concI)
  fix u v assume uv: "u \<in> A" "v \<in> B"
  from assms(2) uv(2) obtain y where "y \<in> Y" "ext False v y" by (rule coarserE)
  then show "\<exists>z \<in> {x @ y | x y. x \<in> X \<and> y \<in> Y}. ext False (u @ v) z"
    using ext_both(1) [of v y u] assms(1) uv(1) by blast
qed

lemma coarser_conc4:
  assumes "coarser True A X" "B \<subseteq> Y"
  shows "coarser True (conc A B) {x @ y | x y. x \<in> X \<and> y \<in> Y}"
proof (rule coarser_concI)
  fix u v assume uv: "u \<in> A" "v \<in> B"
  from assms(1) uv(1) obtain x where "x \<in> X" "ext True u x" by (rule coarserE)
  then show "\<exists>z \<in> {x @ y | x y. x \<in> X \<and> y \<in> Y}. ext True (u @ v) z"
    using ext_both(2) [of u x v] assms(2) uv(2) by blast
qed

lemma setop_self: "valid st s \<Longrightarrow> setop (addrs s) st s st"
  by (auto simp: setop_def)

lemma concPrefix_ok:
  assumes "grow_ok grow" "isep st x" "isep st y" "sound Lx x st" "sound Ly y st"
    "\<not> (have_set (riExact x) \<and> have_set (riExact y))" "concPrefix grow x y st = (p, st1)"
  shows "setop (addrs (riPrefix x)) st p st1 \<and> coarser False (conc Lx Ly) (set (strs p st1))"
proof -
  note v = isep_valid [OF assms(2)] isep_valid [OF assms(3)]
  consider (ex) "have_set (riExact x)" | (em) "\<not> have_set (riExact x)" "canEmpty x"
    | (no) "\<not> have_set (riExact x)" "\<not> canEmpty x" by blast
  then show ?thesis
  proof cases
    case ex
    with assms(7) have c: "crossSet grow (riExact x) (riPrefix y) False st = (p, st1)" by (simp add: concPrefix_def)
    note c' = crossSet_ok [OF assms(1) v(1,5) c]
    have "Lx \<subseteq> set (strs (riExact x) st)" "coarser False Ly (set (strs (riPrefix y) st))"
      using assms(4-6) ex by (simp_all add: sound_def)
    from coarser_conc3 [OF this] have "coarser False (conc Lx Ly) (set (strs p st1))" using c' by simp
    moreover have "setop (addrs (riPrefix x)) st p st1" using c' setop_empty_union by blast
    ultimately show ?thesis by blast
  next
    case em
    with assms(7) have c: "unionSet grow (riPrefix x) (riPrefix y) False st = (p, st1)" by (simp add: concPrefix_def)
    have "coarser False Lx (set (strs (riPrefix x) st))" using assms(4) em by (simp add: sound_def)
    note c' = unionSet_ok [OF assms(1) v(2) c]
    have "coarser False (conc Lx Ly) (set (strs p st1))"
      by (rule coarser_conc1 [OF \<open>coarser False Lx (set (strs (riPrefix x) st))\<close>]) (use c' in blast)
    then show ?thesis using c' by blast
  next
    case no
    with assms(7) have "p = riPrefix x" "st1 = st" by (simp_all add: concPrefix_def)
    moreover have "coarser False Lx (set (strs (riPrefix x) st))" using assms(4) no by (simp add: sound_def)
    ultimately show ?thesis using setop_self v(2) coarser_conc1 by blast
  qed
qed

lemma concSuffix_ok:
  assumes "grow_ok grow" "valid st (riSuffix x)" "valid st (riExact y)" "valid st (riSuffix y)"
    "\<not> have_set (riExact x) \<Longrightarrow> coarser True Lx (set (strs (riSuffix x) st))"
    "if have_set (riExact y) then Ly \<subseteq> set (strs (riExact y) st) else coarser True Ly (set (strs (riSuffix y) st))"
    "\<not> (have_set (riExact x) \<and> have_set (riExact y))" "concSuffix grow x y st = (s, st1)"
  shows "setop (addrs (riSuffix y)) st s st1 \<and> coarser True (conc Lx Ly) (set (strs s st1))"
proof -
  consider (ey) "have_set (riExact y)" | (em) "\<not> have_set (riExact y)" "canEmpty y"
    | (no) "\<not> have_set (riExact y)" "\<not> canEmpty y" by blast
  then show ?thesis
  proof cases
    case ey
    with assms(8) have c: "crossSet grow (riSuffix x) (riExact y) True st = (s, st1)" by (simp add: concSuffix_def)
    note c' = crossSet_ok [OF assms(1-3) c]
    have "coarser True Lx (set (strs (riSuffix x) st))" "Ly \<subseteq> set (strs (riExact y) st)"
      using assms(5-7) ey by simp_all
    from coarser_conc4 [OF this] have "coarser True (conc Lx Ly) (set (strs s st1))" using c' by simp
    moreover have "setop (addrs (riSuffix y)) st s st1" using c' setop_empty_union by blast
    ultimately show ?thesis by blast
  next
    case em
    with assms(8) have c: "unionSet grow (riSuffix y) (riSuffix x) True st = (s, st1)" by (simp add: concSuffix_def)
    have "coarser True Ly (set (strs (riSuffix y) st))" using assms(6) em by simp
    note c' = unionSet_ok [OF assms(1,4) c]
    have "coarser True (conc Lx Ly) (set (strs s st1))"
      by (rule coarser_conc2 [OF \<open>coarser True Ly (set (strs (riSuffix y) st))\<close>]) (use c' in blast)
    then show ?thesis using c' by blast
  next
    case no
    with assms(8) have "s = riSuffix y" "st1 = st" by (simp_all add: concSuffix_def)
    moreover have "coarser True Ly (set (strs (riSuffix y) st))" using assms(6) no by simp
    ultimately show ?thesis using setop_self assms(4) coarser_conc2 by blast
  qed
qed

lemma concBoth_ok:
  assumes "grow_ok grow" "valid st (riSuffix x)" "valid st (riPrefix y)" "qwf m"
    "\<not> have_set (riExact x) \<Longrightarrow> coarser True Lx (set (strs (riSuffix x) st))"
    "\<not> have_set (riExact y) \<Longrightarrow> coarser False Ly (set (strs (riPrefix y) st))"
    "\<And>w. w \<in> conc Lx Ly \<Longrightarrow> covers m w" "concBoth grow x y m st = (m', st')"
  shows "upd {} st st' \<and> qwf m' \<and> (\<forall>w \<in> conc Lx Ly. covers m' w)"
proof (cases "m' = m \<and> st' = st")
  case True
  then show ?thesis using assms(4,7) by simp
next
  case False
  obtain t sa where c: "crossSet grow (riSuffix x) (riPrefix y) False st = (t, sa)" by fastforce
  have ne: "\<not> have_set (riExact x)" "\<not> have_set (riExact y)" and r: "m' = andTrigrams m (strs t sa)" "st' = sa"
    using assms(8) c False by (auto simp: concBoth_def split: if_splits)
  note c' = crossSet_ok [OF assms(1-3) c]
  have "covers m' w" if "w \<in> conc Lx Ly" for w
  proof -
    obtain u v where uv: "w = u @ v" "u \<in> Lx" "v \<in> Ly" using \<open>w \<in> conc Lx Ly\<close> by (auto simp: conc_def)
    from assms(5) [OF ne(1)] uv(2) obtain q where q: "q \<in> set (strs (riSuffix x) st)" "ext True u q" by (rule coarserE)
    from assms(6) [OF ne(2)] uv(3) obtain p where p: "p \<in> set (strs (riPrefix y) st)" "ext False v p" by (rule coarserE)
    obtain a b where ab: "u = a @ q" "v = p @ b" using p(2) q(2) by (auto simp: ext_def)
    have "q @ p \<in> set (strs t sa)" using c' p(1) q(1) by blast
    moreover have "w = a @ (q @ p) @ b" using uv(1) ab by simp
    ultimately show ?thesis using covers_andTrigrams [OF assms(4) assms(7)] that r(1) by blast
  qed
  moreover have "qwf m'" using andTrigrams_sem [OF assms(4)] r(1) by blast
  ultimately show ?thesis using c' r(2) upd_setop by blast
qed

lemma covers_conc:
  assumes "qwf m" "qwf m'" "\<forall>w \<in> A. covers m w" "\<forall>w \<in> B. covers m' w" "w \<in> conc A B"
  shows "covers (qand m m') w"
proof -
  obtain u v where w: "w = u @ v" "u \<in> A" "v \<in> B" using assms(5) by (auto simp: conc_def)
  have "covers m ([] @ u @ v)" "covers m' (u @ v @ [])"
    using covers_part [of m u "[]" v] covers_part [of m' v u "[]"] assms(3,4) w by simp_all
  then show ?thesis using covers_qand [OF assms(1,2)] w by simp
qed

lemma infoop_mono: "infoop A st i st' \<Longrightarrow> A \<subseteq> B \<Longrightarrow> infoop B st i st'"
  by (auto simp: infoop_def intro: upd_mono)

lemma concatInfo_ok:
  assumes g: "grow_ok grow" and sep: "isep st x" "isep st y" and sd: "sound Lx x st" "sound Ly y st"
    and disj: "iaddrs x \<inter> iaddrs y = {}" and r: "concatInfo grow x y st = (i, st')"
  shows "infoop (iaddrs x \<union> iaddrs y) st i st' \<and> sound (conc Lx Ly) i st'"
proof -
  note v = isep_valid [OF sep(1)] isep_valid [OF sep(2)]
  have m: "qwf (riMatch x)" "qwf (riMatch y)" "\<forall>w \<in> Lx. covers (riMatch x) w" "\<forall>w \<in> Ly. covers (riMatch y) w"
    using sd by (simp_all add: sound_def)
  have mw: "qwf (qand (riMatch x) (riMatch y))" using qand_ok [OF m(1,2)] by blast
  note mc = covers_conc [OF m]
  show ?thesis
  proof (cases "have_set (riExact x) \<and> have_set (riExact y)")
    case True
    obtain e st1 where c: "crossSet grow (riExact x) (riExact y) False st = (e, st1)" by fastforce
    let ?i = "\<lparr>canEmpty = False, riExact = e, riPrefix = None, riSuffix = None, riMatch = qand (riMatch x) (riMatch y)\<rparr>"
    have s: "simplify grow False ?i st1 = (i, st')" using r True by (simp add: concatInfo_parts c)
    note c' = crossSet_ok [OF g v(1,4) c]
    have io: "infoop {} st ?i st1" using c' by (simp add: infoop_def setop_def isep_def iaddrs_def)
    have "Lx \<subseteq> set (strs (riExact x) st)" "Ly \<subseteq> set (strs (riExact y) st)" using sd True by (simp_all add: sound_def)
    then have "conc Lx Ly \<subseteq> set (strs e st1)" unfolding conc_def using c' by blast
    then have "sound (conc Lx Ly) ?i st1" using c' mw mc by (simp add: sound_def have_set_def)
    from simplify_ok [OF g _ this s] io infoop_trans [OF io] show ?thesis
      by (auto simp: infoop_def [of _ st ?i] intro: infoop_mono)
  next
    case False
    obtain p sa where p: "concPrefix grow x y st = (p, sa)" by fastforce
    obtain s sb where s: "concSuffix grow x y sa = (s, sb)" by fastforce
    obtain m' sc where b: "concBoth grow x y (qand (riMatch x) (riMatch y)) sb = (m', sc)" by fastforce
    let ?i = "\<lparr>canEmpty = False, riExact = None, riPrefix = p, riSuffix = s, riMatch = m'\<rparr>"
    have si: "simplify grow False ?i sc = (i, st')" using r False by (auto simp: concatInfo_parts p s b)
    note P = concPrefix_ok [OF g sep sd False p]
    have ad: "addrs (riPrefix x) \<inter> addrs (riSuffix x) = {}" "addrs (riPrefix x) \<inter> iaddrs y = {}"
      "addrs (riSuffix y) \<inter> iaddrs x = {}" "addrs (riSuffix y) \<inter> addrs (riPrefix y) = {}"
      using sep disj by (auto simp: isep_def iaddrs_def)
    have ua: "upd (addrs (riPrefix x)) st sa" using P upd_setop by blast
    note u = upd_strs [OF ua]
    have ka: "strs (riSuffix x) sa = strs (riSuffix x) st" "strs (riExact y) sa = strs (riExact y) st"
      "strs (riSuffix y) sa = strs (riSuffix y) st" "strs (riPrefix y) sa = strs (riPrefix y) st"
      by (rule u [OF v(3)] u [OF v(4)] u [OF v(6)] u [OF v(5)], use ad in \<open>auto simp: iaddrs_def\<close>)+
    note va = upd_valid [OF ua]
    have S: "setop (addrs (riSuffix y)) sa s sb \<and> coarser True (conc Lx Ly) (set (strs s sb))"
      by (rule concSuffix_ok [OF g va [OF v(3)] va [OF v(4)] va [OF v(6)] _ _ False s])
        (use sd ka in \<open>auto simp: sound_def\<close>)
    have ub: "upd (addrs (riSuffix y)) sa sb" using S upd_setop by blast
    have kb: "strs (riSuffix x) sb = strs (riSuffix x) st"
      by (rule trans [OF upd_strs [OF ub va [OF v(3)]] ka(1)]) (use ad in \<open>auto simp: iaddrs_def\<close>)
    have kc: "strs (riPrefix y) sb = strs (riPrefix y) st"
      by (rule trans [OF upd_strs [OF ub va [OF v(5)]] ka(4)]) (use ad in \<open>auto simp: iaddrs_def\<close>)
    note vb = upd_valid [OF ub]
    have B: "upd {} sb sc \<and> qwf m' \<and> (\<forall>w \<in> conc Lx Ly. covers m' w)"
      by (rule concBoth_ok [OF g vb [OF va [OF v(3)]] vb [OF va [OF v(5)]] mw _ _ mc b])
        (use sd kb kc in \<open>auto simp: sound_def\<close>)
    have "addrs (riPrefix x) \<inter> addrs (riSuffix y) = {}" "addrs (riPrefix x) \<union> addrs (riSuffix y) \<subseteq> {..<length st}"
      using ad(2) isep_addrs [OF sep(1)] isep_addrs [OF sep(2)] by (auto simp: iaddrs_def)
    note t = two_sets [OF conjunct1 [OF P] conjunct1 [OF S] this]
    have B': "upd {} sb sc" using B by blast
    have ks: "strs p sc = strs p sa" "strs s sc = strs s sb" "valid sc p" "valid sc s"
      using upd_strs [OF B' t(2)] upd_strs [OF B' t(3)] upd_valid [OF B' t(2)] upd_valid [OF B' t(3)] t(6) by simp_all
    have l: "length sb \<le> length sc" using upd_length [OF B'] .
    have "upd (iaddrs x \<union> iaddrs y) st sc"
      by (rule upd_trans [OF upd_mono [OF t(1)] B']) (auto simp: iaddrs_def)
    moreover have "addrs p \<union> addrs s \<subseteq> iaddrs x \<union> iaddrs y \<union> {length st..<length sc}"
      using t(5) l by (fastforce simp: iaddrs_def)
    ultimately have io: "infoop (iaddrs x \<union> iaddrs y) st ?i sc"
      using ks(3,4) t(4) by (simp add: infoop_def isep_def iaddrs_def have_set_def)
    have "sound (conc Lx Ly) ?i sc" using P S B ks by (simp add: sound_def have_set_def)
    from simplify_ok [OF g _ this si] io infoop_trans [OF io] show ?thesis
      by (auto simp: infoop_def [of _ st ?i])
  qed
qed

section \<open>Alternation\<close>

lemma setop_later: "upd {} st st1 \<Longrightarrow> setop A st1 s st2 \<Longrightarrow> setop A st s st2"
proof -
  assume u: "upd {} st st1" and s: "setop A st1 s st2"
  have "upd A st st2" by (rule upd_trans [OF upd_mono [OF u] upd_setop [OF s]]) auto
  moreover have "addrs s \<subseteq> A \<union> {length st..<length st2}"
    using setop_addrs [OF s] upd_length [OF u] by fastforce
  ultimately show ?thesis using s by (simp add: setop_def)
qed

lemma alt_sets:
  assumes "isep st x" "setop (addrs (riPrefix x)) st p sa" "upd {} sa sb" "setop (addrs (riSuffix x)) sb s sc"
  shows "infoop (iaddrs x) st \<lparr>canEmpty = ce, riExact = None, riPrefix = p, riSuffix = s, riMatch = m\<rparr> sc"
    "strs p sc = strs p sa" "upd (iaddrs x) st sc"
proof -
  have "addrs (riPrefix x) \<inter> addrs (riSuffix x) = {}" "addrs (riPrefix x) \<union> addrs (riSuffix x) \<subseteq> {..<length st}"
    using assms(1) isep_addrs [OF assms(1)] by (auto simp: isep_def iaddrs_def)
  note t = two_sets [OF assms(2) setop_later [OF assms(3,4)] this]
  show "upd (iaddrs x) st sc" by (rule upd_mono [OF t(1)]) (auto simp: iaddrs_def)
  moreover have "addrs p \<union> addrs s \<subseteq> iaddrs x \<union> {length st..<length sc}" using t(5) by (fastforce simp: iaddrs_def)
  ultimately show "infoop (iaddrs x) st \<lparr>canEmpty = ce, riExact = None, riPrefix = p, riSuffix = s, riMatch = m\<rparr> sc"
    using t(2-4) by (simp add: infoop_def isep_def iaddrs_def have_set_def)
  show "strs p sc = strs p sa" by (rule t(6))
qed

lemma coarser_Un: "coarser f X A \<Longrightarrow> coarser f Y B \<Longrightarrow> C = A \<union> B \<Longrightarrow> coarser f (X \<union> Y) C"
  by (auto simp: coarser_def)

lemma covers_or:
  assumes "qwf m" "qwf m'" "\<forall>w \<in> A. covers m w" "\<forall>w \<in> B. covers m' w"
  shows "qwf (qor m m')" "\<forall>w \<in> A \<union> B. covers (qor m m') w"
  using qor_ok [OF assms(1,2)] covers_qor [OF assms(1,2)] assms(3,4) by blast+

text \<open>Sound, unless the first operand has an exact set and the second has none.\<close>

lemma alternateInfo_ok:
  assumes g: "grow_ok grow" and sep: "isep st x" "isep st y" and sd: "sound Lx x st" "sound Ly y st"
    and disj: "iaddrs x \<inter> iaddrs y = {}" and ey: "have_set (riExact y)"
    and r: "alternateInfo grow x y st = (i, st')"
  shows "infoop (iaddrs x \<union> iaddrs y) st i st' \<and> sound (Lx \<union> Ly) i st'"
proof -
  note v = isep_valid [OF sep(1)] isep_valid [OF sep(2)]
  have m: "qwf (riMatch x)" "qwf (riMatch y)" "\<forall>w \<in> Lx. covers (riMatch x) w" "\<forall>w \<in> Ly. covers (riMatch y) w"
    using sd by (simp_all add: sound_def)
  have Ly: "Ly \<subseteq> set (strs (riExact y) st)" using sd ey by (simp add: sound_def)
  show ?thesis
  proof (cases "have_set (riExact x)")
    case True
    obtain e st1 where c: "unionSet grow (riExact x) (riExact y) False st = (e, st1)" by fastforce
    let ?i = "\<lparr>canEmpty = canEmpty x \<or> canEmpty y, riExact = e, riPrefix = None, riSuffix = None,
      riMatch = qor (riMatch x) (riMatch y)\<rparr>"
    have s: "simplify grow False ?i st1 = (i, st')" using r True ey by (simp add: alternateInfo_def c)
    note c' = unionSet_ok [OF g v(1) c]
    have e: "e \<noteq> None" using c' True by (simp add: have_set_def)
    have "infoop (addrs (riExact x)) st ?i st1" using c' by (simp add: infoop_def setop_def isep_def iaddrs_def)
    then have io: "infoop (iaddrs x \<union> iaddrs y) st ?i st1" by (rule infoop_mono) (auto simp: iaddrs_def)
    have "Lx \<union> Ly \<subseteq> set (strs e st1)" using sd(1) True Ly c' by (auto simp: sound_def)
    then have "sound (Lx \<union> Ly) ?i st1" using e covers_or [OF m] by (simp add: sound_def have_set_def)
    from simplify_ok [OF g _ this s] io infoop_trans [OF io] show ?thesis
      by (auto simp: infoop_def [of _ st ?i])
  next
    case False
    obtain p sa where p: "unionSet grow (riPrefix x) (riExact y) False st = (p, sa)" by fastforce
    obtain c sb where c: "copySet grow (riExact y) sa = (c, sb)" by fastforce
    obtain s sc where s: "unionSet grow (riSuffix x) c True sb = (s, sc)" by fastforce
    let ?m = "qor (riMatch x) (riMatch (addExact y sc))"
    let ?i = "\<lparr>canEmpty = canEmpty x \<or> canEmpty y, riExact = None, riPrefix = p, riSuffix = s, riMatch = ?m\<rparr>"
    have si: "simplify grow False ?i sc = (i, st')" using r False ey by (simp add: alternateInfo_def p c s)
    have cx: "coarser False Lx (set (strs (riPrefix x) st))" "coarser True Lx (set (strs (riSuffix x) st))"
      using sd(1) False by (simp_all add: sound_def)
    note P = unionSet_ok [OF g v(2) p]
    have ua: "upd (addrs (riPrefix x)) st sa" using P upd_setop by blast
    have ka: "strs (riSuffix x) sa = strs (riSuffix x) st" "strs (riExact y) sa = strs (riExact y) st"
      by (rule upd_strs [OF ua v(3)] upd_strs [OF ua v(4)], use sep disj in \<open>auto simp: iaddrs_def isep_def\<close>)+
    note C = copySet_ok [OF g upd_valid [OF ua v(4)] c]
    have ub: "upd {} sa sb" using C upd_setop by blast
    have kb: "strs (riSuffix x) sb = strs (riSuffix x) st" "strs c sb = strs (riExact y) st"
      using upd_strs [OF ub upd_valid [OF ua v(3)]] ka C by simp_all
    note S = unionSet_ok [OF g upd_valid [OF ub upd_valid [OF ua v(3)]] s]
    note A = alt_sets [OF sep(1) conjunct1 [OF P] ub conjunct1 [OF S]]
    have y: "sound Ly y sc" by (rule sound_keep(1) [OF sd(2) sep(2) A(3)]) (use disj in blast)
    have "riMatch (addExact y sc) = andTrigrams (riMatch y) (strs (riExact y) sc)" using ey by (simp add: addExact_def)
    then have "qwf (riMatch (addExact y sc))" "\<forall>w \<in> Ly. covers (riMatch (addExact y sc)) w"
      using sound_addExact [OF y ey] by simp_all
    note q = covers_or [OF m(1) this(1) m(3) this(2)]
    have "coarser False (Lx \<union> Ly) (set (strs p sc))"
      by (rule coarser_Un [OF cx(1) coarser_subset [OF Ly coarser_refl]]) (use P A(2) in simp)
    moreover have "coarser True (Lx \<union> Ly) (set (strs s sc))"
      by (rule coarser_Un [OF cx(2) coarser_subset [OF Ly coarser_refl]]) (use S kb in simp)
    ultimately have "sound (Lx \<union> Ly) ?i sc" using q by (simp add: sound_def have_set_def)
    moreover have io: "infoop (iaddrs x \<union> iaddrs y) st ?i sc" by (rule infoop_mono [OF A(1)]) auto
    ultimately show ?thesis using simplify_ok [OF g _ _ si] infoop_trans [OF io] by (auto simp: infoop_def [of _ st ?i])
  qed
qed

section \<open>Repetition\<close>

lemma pow_parts:
  assumes "w \<in> pow mn mx A" "mn \<ge> 1"
  shows "\<exists>u v. u \<in> A \<and> w = u @ v" "\<exists>u v. v \<in> A \<and> w = u @ v"
proof -
  obtain ws where ws: "w = concat ws" "set ws \<subseteq> A" "mn \<le> int (length ws)" using assms(1) by (auto simp: pow_def)
  then have ne: "ws \<noteq> []" using assms(2) by auto
  then obtain a as where "ws = a # as" by (cases ws) auto
  then show "\<exists>u v. u \<in> A \<and> w = u @ v" using ws by auto
  from ne obtain bs b where "ws = bs @ [b]" by (cases ws rule: rev_cases) auto
  then show "\<exists>u v. v \<in> A \<and> w = u @ v" using ws by auto
qed

lemma sound_pow:
  assumes "qwf m" "\<forall>w \<in> L. covers m w" "coarser False L P" "coarser True L S" "mn \<ge> 1"
  shows "\<forall>w \<in> pow mn mx L. covers m w" "coarser False (pow mn mx L) P" "coarser True (pow mn mx L) S"
proof -
  show "\<forall>w \<in> pow mn mx L. covers m w"
  proof
    fix w assume "w \<in> pow mn mx L"
    then obtain u v where "u \<in> L" "w = u @ v" using pow_parts(1) assms(5) by blast
    then show "covers m w" using covers_part [of m u "[]" v] assms(2) by simp
  qed
  show "coarser False (pow mn mx L) P"
  proof (rule coarserI)
    fix w assume "w \<in> pow mn mx L"
    then obtain u v where w: "u \<in> L" "w = u @ v" using pow_parts(1) assms(5) by blast
    from assms(3) w(1) obtain p where "p \<in> P" "ext False u p" by (rule coarserE)
    then show "\<exists>y \<in> P. ext False w y" using ext_False_append w(2) by blast
  qed
  show "coarser True (pow mn mx L) S"
  proof (rule coarserI)
    fix w assume "w \<in> pow mn mx L"
    then obtain u v where w: "v \<in> L" "w = u @ v" using pow_parts(2) assms(5) by blast
    from assms(4) w(1) obtain p where "p \<in> S" "ext True v p" by (rule coarserE)
    then show "\<exists>y \<in> S. ext True w y" using ext_True_append w(2) by blast
  qed
qed

lemma plusInfo_ok:
  assumes g: "grow_ok grow" and sep: "isep st x" and sd: "sound L x st" and mn: "mn \<ge> 1"
    and r: "plusInfo grow x st = (i, st')"
  shows "infoop (iaddrs x) st i st' \<and> sound (pow mn mx L) i st'"
proof (cases "have_set (riExact x)")
  case False
  have m: "qwf (riMatch x)" "\<forall>w \<in> L. covers (riMatch x) w" "coarser False L (set (strs (riPrefix x) st))"
    "coarser True L (set (strs (riSuffix x) st))"
    using sd False by (simp_all add: sound_def)
  have "sound (pow mn mx L) x st" using sound_pow [OF m mn] m(1) False by (simp add: sound_def)
  with simplify_ok [OF g sep this] r False show ?thesis by (simp add: plusInfo_def)
next
  case True
  obtain s st1 where c: "copySet grow (riExact x) st = (s, st1)" by fastforce
  let ?i = "x\<lparr>riPrefix := riExact x, riSuffix := s, riExact := None\<rparr>"
  have si: "simplify grow False ?i st1 = (i, st')" using r True by (simp add: plusInfo_def c)
  note v = isep_valid [OF sep]
  note c' = copySet_ok [OF g v(1) c]
  have u: "upd {} st st1" using c' upd_setop by blast
  have k: "strs (riExact x) st1 = strs (riExact x) st" "valid st1 (riExact x)"
    using upd_strs [OF u v(1)] upd_valid [OF u v(1)] by simp_all
  have m: "qwf (riMatch x)" "\<forall>w \<in> L. covers (riMatch x) w" "L \<subseteq> set (strs (riExact x) st)"
    using sd True by (simp_all add: sound_def)
  note sp = sound_pow [OF m(1,2) coarser_subset [OF m(3) coarser_refl] coarser_subset [OF m(3) coarser_refl] mn]
  have "addrs s \<subseteq> {length st..<length st1}" "addrs (riExact x) \<subseteq> {..<length st}" "valid st1 s"
    using c' valid_addrs [OF v(1)] by (simp_all add: setop_def)
  then have io: "infoop (iaddrs x) st ?i st1"
    using upd_mono [OF u] k by (fastforce simp: infoop_def isep_def iaddrs_def have_set_def)
  moreover have "sound (pow mn mx L) ?i st1" using m(1) sp k c' by (simp add: sound_def have_set_def)
  ultimately show ?thesis using simplify_ok [OF g _ _ si] infoop_trans [OF io] by (auto simp: infoop_def [of _ st ?i])
qed

end
