(* ===== verification/Regex_Query.thy ===== *)
theory Regex_Query
  imports Regex_Sound
begin

text \<open>
  \<open>analyze\<close> of \<open>regexp.go\<close> over a whole syntax tree, and \<open>RegexpQuery\<close>: on a tree without an alternation
  the analysis returns, and its query holds of every text with a match in it.  With an alternation it can
  lose matches, because the code makes two sets in one array.
\<close>

section \<open>Classes and literals\<close>

lemma exact_simplify_ok:
  assumes g: "grow_ok grow" and e: "setop {} st e st1" "e \<noteq> None" "L \<subseteq> set (strs e st1)"
    and s: "simplify grow f (exactInfo e) st1 = (i, st')"
  shows "infoop {} st i st' \<and> sound L i st'"
proof -
  have io: "infoop {} st (exactInfo e) st1"
    using e(1) by (simp add: infoop_def setop_def isep_def iaddrs_def exactInfo_def)
  have "sound L (exactInfo e) st1" using e(2,3) by (simp add: sound_def exactInfo_def have_set_def wf_constants)
  from simplify_ok [OF g _ this s] io infoop_trans [OF io] show ?thesis by (auto simp: infoop_def [of _ st "exactInfo e"])
qed

lemma sound_subset: "sound L i st \<Longrightarrow> L' \<subseteq> L \<Longrightarrow> sound L' i st"
  unfolding sound_def coarser_def by (cases "have_set (riExact i)") (simp_all, blast+)

lemma inClass_strings: "even (length r) \<Longrightarrow> inClass r c \<Longrightarrow> stringOf [c] \<in> set (classStrings r)"
  by (induction r c rule: inClass.induct) auto

lemma classSize_total: "even (length r) \<Longrightarrow> \<exists>n. classSize r = Inr n"
proof (induction r rule: classSize.induct)
  case (3 lo hi r)
  then obtain n where "classSize r = Inr n" by auto
  then show ?case by simp
qed simp_all

lemma anyChar_ok:
  assumes "anyChar st = (i, st')"
  shows "infoop {} st i st' \<and> sound L i st'"
proof -
  obtain p st1 where p: "newSet [[]] st = (p, st1)" by fastforce
  obtain s st2 where s: "newSet [[]] st1 = (s, st2)" by fastforce
  note p' = newSet_ok [OF p]
  note s' = newSet_ok [OF s]
  have i: "i = \<lparr>canEmpty = False, riExact = None, riPrefix = p, riSuffix = s, riMatch = allQuery\<rparr>" "st' = st2"
    using assms by (simp_all add: anyChar_def p s)
  note t = two_sets [OF conjunct1 [OF p'] conjunct1 [OF s']]
  have "infoop {} st i st'" using t by (simp add: i infoop_def isep_def iaddrs_def have_set_def)
  moreover have "coarser f L {[]}" for f by (rule coarserI) (auto simp: ext_def)
  then have "sound L i st'" using t p' s' by (simp add: i sound_def have_set_def wf_constants)
  ultimately show ?thesis by blast
qed

lemma anyMatch_ok:
  assumes "anyMatch st = (i, st')"
  shows "infoop {} st i st' \<and> sound L i st'"
proof -
  obtain j where j: "anyChar st = (j, st')" "i = j\<lparr>canEmpty := True\<rparr>"
    using assms by (auto simp: anyMatch_def anyChar_def split: prod.splits)
  show ?thesis using anyChar_ok [OF j(1), of L] by (simp add: j(2) infoop_def isep_def iaddrs_def sound_def)
qed

lemma emptyString_ok:
  assumes "emptyString st = (i, st')"
  shows "infoop {} st i st' \<and> sound {[]} i st' \<and> have_set (riExact i)"
proof -
  obtain e st1 where e: "newSet [[]] st = (e, st1)" by fastforce
  note e' = newSet_ok [OF e]
  have "i = (exactInfo e)\<lparr>canEmpty := True\<rparr>" "st' = st1" using assms by (simp_all add: emptyString_def e exactInfo_def)
  then show ?thesis using e'
    by (simp add: infoop_def setop_def isep_def iaddrs_def exactInfo_def sound_def have_set_def wf_constants)
qed

lemma noMatch_ok: "noMatch st = (i, st') \<Longrightarrow> infoop {} st i st' \<and> sound {} i st'"
  by (auto simp: noMatch_def infoop_def isep_def iaddrs_def sound_def have_set_def coarser_def wf_constants)

lemma analyzeClass_ok:
  assumes g: "grow_ok grow" and r: "length r = 1 \<or> even (length r)"
  shows "\<exists>i st'. analyzeClass grow r st = Inr (i, st') \<and> infoop {} st i st' \<and> sound {stringOf [c] | c. inClass r c} i st'"
proof -
  consider (e) "r = []" | (one) "length r = 1" | (more) "r \<noteq> []" "length r \<noteq> 1" "even (length r)" using r by auto
  then show ?thesis
  proof cases
    case e
    then show ?thesis using noMatch_ok [of st] by (cases "noMatch st") (simp add: analyzeClass_def)
  next
    case one
    then obtain x where x: "r = [x]" by (cases r) auto
    obtain e st1 where e: "newSet [stringOf [x]] st = (e, st1)" by fastforce
    note e' = newSet_ok [OF e]
    obtain i st' where s: "simplify grow False (exactInfo e) st1 = (i, st')" by fastforce
    have "{stringOf [c] | c. inClass r c} \<subseteq> set (strs e st1)" using e' x by auto
    from exact_simplify_ok [OF g conjunct1 [OF e'] _ this s] e'
    have "infoop {} st i st' \<and> sound {stringOf [c] | c. inClass r c} i st'" by blast
    then show ?thesis by (simp add: analyzeClass_def x e s)
  next
    case more
    obtain n where n: "classSize r = Inr n" using classSize_total more(3) by blast
    show ?thesis
    proof (cases "n > 100")
      case True
      obtain i st' where "anyChar st = (i, st')" by fastforce
      with anyChar_ok [OF this] show ?thesis using more n True by (simp add: analyzeClass_def)
    next
      case False
      obtain e st1 where e: "newSet [] st = (e, st1)" by fastforce
      obtain e1 st2 where a: "addAllSet grow (classStrings r) e st1 = (e1, st2)" by fastforce
      obtain i st' where s: "simplify grow False (exactInfo e1) st2 = (i, st')" by fastforce
      note e' = newSet_ok [OF e]
      have ve: "valid st1 e" using e' setop_valid by blast
      note a' = addAllSet_ok [OF g ve a]
      have "setop {} st e1 st2" using setop_seq [of "{}" st e st1 e1 st2] e' a' by blast
      moreover have "{stringOf [c] | c. inClass r c} \<subseteq> set (strs e1 st2)"
        using inClass_strings [OF more(3)] a' by auto
      ultimately show ?thesis using exact_simplify_ok [OF g _ _ _ s] e' a' more n False
        by (simp add: analyzeClass_def e a s)
    qed
  qed
qed

text \<open>The runes that fold to \<open>r0\<close>.\<close>

definition orbitUpTo :: "(int \<Rightarrow> int) \<Rightarrow> int \<Rightarrow> nat \<Rightarrow> int list" where
  "orbitUpTo sf r0 n = concat (map (\<lambda>i. [(sf ^^ i) r0, (sf ^^ i) r0]) [0..<n])"

lemma orbitUpTo_Suc: "orbitUpTo sf r0 (Suc n) = orbitUpTo sf r0 n @ [(sf ^^ n) r0, (sf ^^ n) r0]"
  by (simp add: orbitUpTo_def)

lemma inClass_pairs: "inClass (concat (map (\<lambda>i. [f i, f i]) xs)) c \<longleftrightarrow> c \<in> f ` set xs"
  by (induction xs) auto

lemma even_orbitUpTo: "even (length (orbitUpTo sf r0 n))"
  by (induction n) (simp_all add: orbitUpTo_Suc, simp add: orbitUpTo_def)

lemma orbitClass_ok:
  "(sf ^^ (j + n)) r0 = r0 \<Longrightarrow> 0 < j \<Longrightarrow>
    \<exists>m. 0 < m \<and> (sf ^^ m) r0 = r0 \<and> orbitClass sf r0 ((sf ^^ j) r0) (orbitUpTo sf r0 j) = Some (Inr (orbitUpTo sf r0 m))"
proof (induction n arbitrary: j)
  case 0
  then show ?case by (intro exI [of _ j]) (simp add: orbitClass.simps)
next
  case (Suc n)
  show ?case
  proof (cases "(sf ^^ j) r0 = r0")
    case True
    then show ?thesis using Suc.prems by (intro exI [of _ j]) (simp add: orbitClass.simps)
  next
    case False
    from Suc.IH [of "Suc j"] Suc.prems obtain m where
      "0 < m" "(sf ^^ m) r0 = r0" "orbitClass sf r0 ((sf ^^ Suc j) r0) (orbitUpTo sf r0 (Suc j)) = Some (Inr (orbitUpTo sf r0 m))"
      by auto
    then show ?thesis using False by (intro exI [of _ m]) (simp add: orbitClass.simps orbitUpTo_Suc)
  qed
qed

lemma orbit_upTo: "0 < m \<Longrightarrow> (sf ^^ m) r0 = r0 \<Longrightarrow> c \<in> orbit sf r0 \<Longrightarrow> inClass (orbitUpTo sf r0 m) c"
proof -
  assume m: "0 < m" "(sf ^^ m) r0 = r0" and "c \<in> orbit sf r0"
  then obtain n where "c = (sf ^^ n) r0" by (auto simp: orbit_def)
  also have "\<dots> = (sf ^^ (n mod m)) r0" by (rule funpow_mod_eq [OF m(2), symmetric])
  finally have "c = (sf ^^ (n mod m)) r0" .
  then show ?thesis using m(1) unfolding orbitUpTo_def inClass_pairs by auto
qed

lemma analyzeFold1_ok:
  assumes g: "grow_ok grow" and sf: "simpleFold_ok sf" "0 \<le> r" "r \<le> MaxRune"
  shows "\<exists>i st'. analyzeFold1 sf grow r st = Some (Inr (i, st')) \<and> infoop {} st i st' \<and>
    sound {stringOf [c] | c. c \<in> orbit sf r} i st'"
proof -
  obtain n where "(sf ^^ n) (sf r) = r" using sf by (auto simp: simpleFold_ok_def)
  then have "(sf ^^ (1 + n)) r = r" by (simp add: funpow_swap1)
  from orbitClass_ok [OF this] obtain m where m: "0 < m" "(sf ^^ m) r = r"
    "orbitClass sf r (sf r) [r, r] = Some (Inr (orbitUpTo sf r m))" by (auto simp: orbitUpTo_def)
  obtain i st' where a: "analyzeClass grow (orbitUpTo sf r m) st = Inr (i, st')" "infoop {} st i st'"
    "sound {stringOf [c] | c. inClass (orbitUpTo sf r m) c} i st'"
    using analyzeClass_ok [OF g, of "orbitUpTo sf r m" st] even_orbitUpTo by blast
  have "sound {stringOf [c] | c. c \<in> orbit sf r} i st'"
    by (rule sound_subset [OF a(3)]) (use orbit_upTo [OF m(1,2)] in blast)
  then show ?thesis using a m(3) by (simp add: analyzeFold1_def)
qed


definition foldLang :: "(int \<Rightarrow> int) \<Rightarrow> int list \<Rightarrow> gostr set" where
  "foldLang sf r = {stringOf cs | cs. list_all2 (\<lambda>c d. c \<in> orbit sf d) cs r}"

lemma foldLang_Cons: "foldLang sf (d # r) = conc {stringOf [c] | c. c \<in> orbit sf d} (foldLang sf r)"
proof (intro equalityI subsetI)
  fix w assume "w \<in> foldLang sf (d # r)"
  then obtain c cs where "w = stringOf (c # cs)" "c \<in> orbit sf d" "list_all2 (\<lambda>c d. c \<in> orbit sf d) cs r"
    by (auto simp: foldLang_def list_all2_Cons2)
  moreover from this have "w = stringOf [c] @ stringOf cs" by (simp add: stringOf_def)
  ultimately show "w \<in> conc {stringOf [c] | c. c \<in> orbit sf d} (foldLang sf r)"
    unfolding conc_def foldLang_def by blast
next
  fix w assume "w \<in> conc {stringOf [c] | c. c \<in> orbit sf d} (foldLang sf r)"
  then obtain c cs where "w = stringOf [c] @ stringOf cs" "c \<in> orbit sf d" "list_all2 (\<lambda>c d. c \<in> orbit sf d) cs r"
    by (auto simp: conc_def foldLang_def)
  then show "w \<in> foldLang sf (d # r)"
    unfolding foldLang_def by (intro CollectI exI [of _ "c # cs"]) (simp add: stringOf_def)
qed

lemma foldLang_Nil: "foldLang sf [] = {[]}"
  by (auto simp: foldLang_def stringOf_def)

lemma conc_empty [simp]: "conc A {[]} = A" "conc {[]} A = A"
  by (auto simp: conc_def)

lemma conc_assoc: "conc (conc A B) C = conc A (conc B C)"
  unfolding conc_def by (auto; metis append.assoc)

section \<open>The walk\<close>

definition analyzes :: "(int \<Rightarrow> int) \<Rightarrow> grow \<Rightarrow> regexp \<Rightarrow> bool" where
  "analyzes sf grow re \<longleftrightarrow> (\<forall>st. \<exists>i st'. analyze sf grow re st = Some (Inr (i, st')) \<and>
     infoop {} st i st' \<and> sound (rlang sf re) i st')"

text \<open>An analysis after another does not touch its arrays.\<close>

lemma after:
  assumes "isep st x" "sound L x st" "infoop {} st y st1"
  shows "isep st1 x" "sound L x st1" "isep st1 y" "iaddrs x \<inter> iaddrs y = {}"
proof -
  have u: "upd {} st st1" and y: "isep st1 y" "iaddrs y \<subseteq> {length st..<length st1}"
    using assms(3) by (simp_all add: infoop_def)
  show "isep st1 x" "sound L x st1" using sound_keep [OF assms(2,1) u] by simp_all
  show "isep st1 y" by (rule y(1))
  show "iaddrs x \<inter> iaddrs y = {}" using y(2) isep_addrs [OF assms(1)] by fastforce
qed

lemma infoop_join:
  assumes "isep st x" "infoop {} st y st1" "infoop (iaddrs x \<union> iaddrs y) st1 i st2"
  shows "infoop (iaddrs x) st i st2"
proof -
  have u: "upd {} st st1" and y: "iaddrs y \<subseteq> {length st..<length st1}" and u2: "upd (iaddrs x \<union> iaddrs y) st1 st2"
    using assms(2,3) by (simp_all add: infoop_def)
  have "upd (iaddrs x) st st2" by (rule upd_trans [OF upd_mono [OF u] u2]) (use y in auto)
  moreover have "iaddrs i \<subseteq> iaddrs x \<union> {length st..<length st2}"
    using assms(3) y upd_length [OF u] upd_length [OF u2] by (fastforce simp: infoop_def)
  ultimately show ?thesis using assms(3) by (simp add: infoop_def)
qed

lemma concat_next:
  assumes "grow_ok grow" "isep st x" "sound L x st" "infoop {} st y st1" "sound L' y st1"
    "concatInfo grow x y st1 = (i, st2)"
  shows "infoop (iaddrs x) st i st2" "sound (conc L L') i st2" "isep st2 i"
proof -
  note a = after [OF assms(2-4)]
  note c = concatInfo_ok [OF assms(1) a(1,3,2) assms(5) a(4) assms(6)]
  show "infoop (iaddrs x) st i st2" using infoop_join [OF assms(2,4)] c by blast
  then show "isep st2 i" by (simp add: infoop_def)
  show "sound (conc L L') i st2" using c by blast
qed

lemma analyzeFolds_ok:
  assumes g: "grow_ok grow" and sf: "simpleFold_ok sf"
  shows "runes_ok rs \<Longrightarrow> isep st x \<Longrightarrow> sound L x st \<Longrightarrow>
    \<exists>i st'. analyzeFolds sf grow rs x st = Some (Inr (i, st')) \<and> infoop (iaddrs x) st i st' \<and>
      sound (conc L (foldLang sf rs)) i st'"
proof (induction rs arbitrary: x st L)
  case Nil
  then show ?case by (simp add: foldLang_Nil infoop_def)
next
  case (Cons r rs)
  have r: "0 \<le> r" "r \<le> MaxRune" "runes_ok rs" using Cons.prems by (auto simp: runes_ok_def)
  from analyzeFold1_ok [OF g sf r(1,2), of st] obtain y st1 where
    y: "analyzeFold1 sf grow r st = Some (Inr (y, st1))" "infoop {} st y st1" "sound {stringOf [c] | c. c \<in> orbit sf r} y st1"
    by blast
  obtain x1 st2 where c: "concatInfo grow x y st1 = (x1, st2)" by fastforce
  note n = concat_next [OF g Cons.prems(2,3) y(2,3) c]
  from Cons.IH [OF r(3) n(3,2)] obtain i st' where
    "analyzeFolds sf grow rs x1 st2 = Some (Inr (i, st'))" "infoop (iaddrs x1) st2 i st'"
    "sound (conc (conc L {stringOf [c] | c. c \<in> orbit sf r}) (foldLang sf rs)) i st'" by blast
  then show ?case using infoop_trans [OF n(1)] by (simp add: y(1) c foldLang_Cons conc_assoc)
qed

lemma foldConcat_ok:
  assumes g: "grow_ok grow"
  shows "\<forall>s \<in> set ss. analyzes sf grow s \<Longrightarrow> isep st x \<Longrightarrow> sound L x st \<Longrightarrow>
    \<exists>i st'. foldConcat sf grow ss x st = Some (Inr (i, st')) \<and> infoop (iaddrs x) st i st' \<and>
      sound (conc L (foldr conc (map (rlang sf) ss) {[]})) i st'"
proof (induction ss arbitrary: x st L)
  case Nil
  then show ?case by (simp add: infoop_def)
next
  case (Cons s ss)
  obtain y st1 where y: "analyze sf grow s st = Some (Inr (y, st1))" "infoop {} st y st1" "sound (rlang sf s) y st1"
    using Cons.prems(1) unfolding analyzes_def by (meson list.set_intros(1))
  obtain x1 st2 where c: "concatInfo grow x y st1 = (x1, st2)" by fastforce
  note n = concat_next [OF g Cons.prems(2,3) y(2,3) c]
  have "\<forall>s \<in> set ss. analyzes sf grow s" using Cons.prems(1) by simp
  from Cons.IH [OF this n(3,2)] obtain i st' where
    "foldConcat sf grow ss x1 st2 = Some (Inr (i, st'))" "infoop (iaddrs x1) st2 i st'"
    "sound (conc (conc L (rlang sf s)) (foldr conc (map (rlang sf) ss) {[]})) i st'" by blast
  then show ?case using infoop_trans [OF n(1)] by (simp add: y(1) c conc_assoc)
qed

text \<open>Trees as the parser makes them, without an alternation outside a repetition that can be empty.\<close>

fun tree_ok :: "regexp \<Rightarrow> bool" where
  "tree_ok (Regexp op fc sub r mn mx) \<longleftrightarrow>
     op \<noteq> OpAlternate \<and>
     (op \<in> {OpCapture, OpPlus, OpQuest} \<or> op = OpRepeat \<and> mn \<noteq> 0 \<longrightarrow> sub \<noteq> []) \<and>
     (op = OpRepeat \<longrightarrow> mn \<ge> 0) \<and>
     (op = OpCharClass \<longrightarrow> length r = 1 \<or> even (length r)) \<and>
     (op = OpLiteral \<and> fc \<longrightarrow> runes_ok r) \<and>
     (op = OpStar \<or> op = OpRepeat \<and> mn = 0 \<or> list_all tree_ok sub)"

lemma literal_ok:
  assumes g: "grow_ok grow" and sf: "simpleFold_ok sf" and r: "fc \<longrightarrow> runes_ok r"
  shows "\<exists>i st'. analyzeLiteral sf grow fc r st = Some (Inr (i, st')) \<and> infoop {} st i st' \<and>
    sound (if fc then foldLang sf r else {stringOf r}) i st'"
proof -
  consider (plain) "\<not> fc" | (none) "fc" "r = []" | (one) x where "fc" "r = [x]" | (more) "fc" "length r \<ge> 2"
    by (cases r; cases "tl r") (auto simp: Suc_le_eq)
  then show ?thesis
  proof cases
    case plain
    obtain e st1 where e: "newSet [stringOf r] st = (e, st1)" by fastforce
    note e' = newSet_ok [OF e]
    obtain i st' where s: "simplify grow False (exactInfo e) st1 = (i, st')" by fastforce
    have "{stringOf r} \<subseteq> set (strs e st1)" using e' by simp
    from exact_simplify_ok [OF g conjunct1 [OF e'] _ this s] e'
    have "infoop {} st i st' \<and> sound {stringOf r} i st'" by blast
    then show ?thesis using plain by (simp add: analyzeLiteral_def e s)
  next
    case none
    obtain i st' where "emptyString st = (i, st')" by fastforce
    with emptyString_ok [OF this] show ?thesis using none by (simp add: analyzeLiteral_def foldLang_Nil)
  next
    case one
    then have "0 \<le> x" "x \<le> MaxRune" using r by (simp_all add: runes_ok_def)
    from analyzeFold1_ok [OF g sf this, of st] one show ?thesis by (simp add: analyzeLiteral_def foldLang_Cons foldLang_Nil)
  next
    case more
    obtain x st1 where x: "emptyString st = (x, st1)" by fastforce
    note x' = emptyString_ok [OF x]
    have "isep st1 x" "sound {[]} x st1" "runes_ok r" using x' r more by (simp_all add: infoop_def)
    from analyzeFolds_ok [OF g sf this(3,1,2)] obtain i st' where
      "analyzeFolds sf grow r x st1 = Some (Inr (i, st'))" "infoop (iaddrs x) st1 i st'" "sound (foldLang sf r) i st'" by auto
    then show ?thesis using infoop_trans [of "{}" st x st1] x' more x
      by (auto simp: analyzeLiteral_def)
  qed
qed


lemma sub_ok:
  assumes "analyzes sf grow s"
  obtains i st' where "analyze sf grow s st = Some (Inr (i, st'))" "infoop {} st i st'" "isep st' i" "sound (rlang sf s) i st'"
  using assms unfolding analyzes_def infoop_def by blast

lemma repeat_ok:
  assumes g: "grow_ok grow" and s: "analyzes sf grow s" and mn: "mn \<ge> 1"
  shows "\<exists>i st'. obind (analyze sf grow s st) (\<lambda>(x, st1). Some (Inr (plusInfo grow x st1))) = Some (Inr (i, st')) \<and>
    infoop {} st i st' \<and> sound (pow mn mx (rlang sf s)) i st'"
proof -
  obtain x st1 where x: "analyze sf grow s st = Some (Inr (x, st1))" "infoop {} st x st1" "isep st1 x" "sound (rlang sf s) x st1"
    by (rule sub_ok [OF s])
  obtain i st' where p: "plusInfo grow x st1 = (i, st')" by fastforce
  show ?thesis using plusInfo_ok [OF g x(3,4) mn p] infoop_trans [OF x(2)] x(1) p by simp
qed

lemma quest_ok:
  assumes g: "grow_ok grow" and s: "analyzes sf grow s"
  shows "\<exists>i st'. obind (analyze sf grow s st) (\<lambda>(x, st1).
      let (y, st2) = emptyString st1 in Some (Inr (alternateInfo grow x y st2))) = Some (Inr (i, st')) \<and>
    infoop {} st i st' \<and> sound (insert [] (rlang sf s)) i st'"
proof -
  obtain x st1 where x: "analyze sf grow s st = Some (Inr (x, st1))" "infoop {} st x st1" "isep st1 x" "sound (rlang sf s) x st1"
    by (rule sub_ok [OF s])
  obtain y st2 where y: "emptyString st1 = (y, st2)" by fastforce
  note y' = emptyString_ok [OF y]
  obtain i st' where p: "alternateInfo grow x y st2 = (i, st')" by fastforce
  note a = after [OF x(3,4) conjunct1 [OF y']]
  have "infoop (iaddrs x \<union> iaddrs y) st2 i st' \<and> sound (rlang sf s \<union> {[]}) i st'"
    by (rule alternateInfo_ok [OF g a(1,3,2) _ a(4) _ p]) (use y' in blast)+
  then show ?thesis using infoop_trans [OF x(2) infoop_join [OF x(3) conjunct1 [OF y']]] x(1) y p by simp
qed

lemma concat_ok:
  assumes g: "grow_ok grow" and s: "\<forall>s \<in> set sub. analyzes sf grow s"
  shows "\<exists>i st'. analyze sf grow (Regexp OpConcat fc sub r mn mx) st = Some (Inr (i, st')) \<and> infoop {} st i st' \<and>
    sound (foldr conc (map (rlang sf) sub) {[]}) i st'"
proof -
  obtain z st0 where z: "emptyString st = (z, st0)" by fastforce
  note z' = emptyString_ok [OF z]
  show ?thesis
  proof (cases sub)
    case Nil
    then show ?thesis using z z' by simp
  next
    case (Cons a ss)
    have a: "analyzes sf grow a" "\<forall>s \<in> set ss. analyzes sf grow s" using s Cons by simp_all
    obtain x st1 where x: "analyze sf grow a st0 = Some (Inr (x, st1))" "infoop {} st0 x st1" "isep st1 x" "sound (rlang sf a) x st1"
      by (rule sub_ok [OF a(1)])
    from foldConcat_ok [OF g a(2) x(3,4)] obtain i st' where
      f: "foldConcat sf grow ss x st1 = Some (Inr (i, st'))" "infoop (iaddrs x) st1 i st'"
        "sound (conc (rlang sf a) (foldr conc (map (rlang sf) ss) {[]})) i st'" by blast
    have "infoop {} st x st1"
      using x(2) upd_trans [of "{}" st st0 "{}" st1] z' upd_length [of "{}" st st0] by (fastforce simp: infoop_def)
    from infoop_trans [OF this f(2)] show ?thesis using f x(1) z Cons by simp
  qed
qed

lemma analyze_ok:
  assumes g: "grow_ok grow" and sf: "simpleFold_ok sf"
  shows "tree_ok re \<Longrightarrow> analyzes sf grow re"
proof (induction re)
  case (Regexp op fc sub r mn mx)
  have sub: "\<forall>s \<in> set sub. analyzes sf grow s" if "op \<noteq> OpStar" "\<not> (op = OpRepeat \<and> mn = 0)"
    using Regexp that by (auto simp: list_all_iff)
  have hd: "\<exists>s ss. sub = s # ss \<and> analyzes sf grow s" if "op \<in> {OpCapture, OpPlus, OpQuest} \<or> op = OpRepeat \<and> mn \<noteq> 0"
  proof -
    have "sub \<noteq> []" using Regexp.prems that by auto
    moreover have "\<forall>s \<in> set sub. analyzes sf grow s" using that by (intro sub) auto
    ultimately show ?thesis by (cases sub) auto
  qed
  have es: "\<exists>i st'. emptyString st = (i, st') \<and> infoop {} st i st' \<and> sound {[]} i st'" for st
    using emptyString_ok by (metis surj_pair)
  have am: "\<exists>i st'. anyMatch st = (i, st') \<and> infoop {} st i st' \<and> sound L i st'" for st L
    using anyMatch_ok by (metis surj_pair)
  have ac: "\<exists>i st'. anyChar st = (i, st') \<and> infoop {} st i st' \<and> sound L i st'" for st L
    using anyChar_ok by (metis surj_pair)
  have nm: "\<exists>i st'. noMatch st = (i, st') \<and> infoop {} st i st' \<and> sound {} i st'" for st
    using noMatch_ok by (metis surj_pair)
  have "\<exists>i st'. analyze sf grow (Regexp op fc sub r mn mx) st = Some (Inr (i, st')) \<and>
     infoop {} st i st' \<and> sound (rlang sf (Regexp op fc sub r mn mx)) i st'" for st
  proof (cases op)
    case OpLiteral
    then show ?thesis using literal_ok [OF g sf, of fc r st] Regexp.prems by (auto simp: foldLang_def)
  next
    case OpCharClass
    then show ?thesis using analyzeClass_ok [OF g, of r st] Regexp.prems by auto
  next
    case OpCapture
    then show ?thesis using hd by (auto simp: analyzes_def)
  next
    case OpPlus
    then obtain s ss where "sub = s # ss" "analyzes sf grow s" using hd by auto
    then show ?thesis using repeat_ok [OF g _ order_refl, of sf s st "-1"] OpPlus by simp
  next
    case OpQuest
    then obtain s ss where "sub = s # ss" "analyzes sf grow s" using hd by auto
    then show ?thesis using quest_ok [OF g, of sf s st] OpQuest by simp
  next
    case OpRepeat
    show ?thesis
    proof (cases "mn = 0")
      case True
      then show ?thesis using am OpRepeat by simp
    next
      case False
      then obtain s ss where s: "sub = s # ss" "analyzes sf grow s" using hd OpRepeat by auto
      have "mn \<ge> 1" using Regexp.prems OpRepeat False by simp
      then show ?thesis using repeat_ok [OF g s(2), of mn st mx] OpRepeat False s(1) by simp
    qed
  next
    case OpConcat
    then show ?thesis using concat_ok [OF g, of sub sf fc r mn mx st] sub by (simp add: Let_def)
  next
    case OpAlternate
    then show ?thesis using Regexp.prems by simp
  qed (use es am ac nm in simp_all)
  then show ?case by (simp add: analyzes_def)
qed

section \<open>The analysis returns\<close>

text \<open>The trees the parser makes.\<close>

fun parsed :: "regexp \<Rightarrow> bool" where
  "parsed (Regexp op fc sub r mn mx) \<longleftrightarrow>
     (op \<in> {OpCapture, OpPlus, OpQuest, OpRepeat, OpStar} \<longrightarrow> sub \<noteq> []) \<and>
     (op = OpRepeat \<longrightarrow> mn \<ge> 0) \<and>
     (op = OpCharClass \<longrightarrow> even (length r)) \<and>
     (op = OpLiteral \<longrightarrow> runes_ok r) \<and> list_all parsed sub"

definition returns :: "(int \<Rightarrow> int) \<Rightarrow> grow \<Rightarrow> regexp \<Rightarrow> bool" where
  "returns sf grow re \<longleftrightarrow> (\<forall>st. \<exists>r. analyze sf grow re st = Some (Inr r))"

lemma returnsE:
  assumes "returns sf grow s"
  obtains x st1 where "analyze sf grow s st = Some (Inr (x, st1))"
  using assms unfolding returns_def by (metis surj_pair)

lemma foldConcat_returns:
  "\<forall>s \<in> set ss. returns sf grow s \<Longrightarrow> \<exists>r. foldConcat sf grow ss x st = Some (Inr r)"
proof (induction ss arbitrary: x st)
  case (Cons s ss)
  have "returns sf grow s" using Cons.prems by simp
  then obtain y st1 where y: "analyze sf grow s st = Some (Inr (y, st1))" by (rule returnsE)
  obtain x1 st2 where "concatInfo grow x y st1 = (x1, st2)" by fastforce
  with y Cons show ?case by simp
qed simp

lemma foldAlternate_returns:
  "\<forall>s \<in> set ss. returns sf grow s \<Longrightarrow> \<exists>r. foldAlternate sf grow ss x st = Some (Inr r)"
proof (induction ss arbitrary: x st)
  case (Cons s ss)
  have "returns sf grow s" using Cons.prems by simp
  then obtain y st1 where y: "analyze sf grow s st = Some (Inr (y, st1))" by (rule returnsE)
  obtain x1 st2 where "alternateInfo grow x y st1 = (x1, st2)" by fastforce
  with y Cons show ?case by simp
qed simp

lemma analyze_returns:
  assumes g: "grow_ok grow" and sf: "simpleFold_ok sf"
  shows "parsed re \<Longrightarrow> returns sf grow re"
proof (induction re)
  case (Regexp op fc sub r mn mx)
  have sub: "\<forall>s \<in> set sub. returns sf grow s" using Regexp by (auto simp: list_all_iff)
  have hd: "\<exists>s ss x st1. sub = s # ss \<and> analyze sf grow s st = Some (Inr (x, st1))" if "sub \<noteq> []" for st
  proof -
    obtain s ss where "sub = s # ss" using \<open>sub \<noteq> []\<close> by (cases sub) auto
    moreover have "returns sf grow s" using sub calculation by simp
    then obtain x st1 where "analyze sf grow s st = Some (Inr (x, st1))" by (rule returnsE)
    ultimately show ?thesis by blast
  qed
  have "\<exists>x. analyze sf grow (Regexp op fc sub r mn mx) st = Some (Inr x)" for st
  proof (cases op)
    case OpLiteral
    then show ?thesis using literal_ok [OF g sf, of fc r st] Regexp.prems by auto
  next
    case OpCharClass
    then show ?thesis using analyzeClass_ok [OF g, of r st] Regexp.prems by auto
  next
    case OpConcat
    obtain z st0 where z: "emptyString st = (z, st0)" by fastforce
    show ?thesis
    proof (cases sub)
      case (Cons s ss)
      obtain x st1 where "analyze sf grow s st0 = Some (Inr (x, st1))" using hd [of st0] Cons by auto
      moreover have "\<exists>r. foldConcat sf grow ss x st1 = Some (Inr r)" by (rule foldConcat_returns) (use sub Cons in simp)
      ultimately show ?thesis using OpConcat Cons z by simp
    qed (use OpConcat z in simp)
  next
    case OpAlternate
    obtain z st0 where z: "noMatch st = (z, st0)" by fastforce
    show ?thesis
    proof (cases sub)
      case (Cons s ss)
      obtain x st1 where "analyze sf grow s st0 = Some (Inr (x, st1))" using hd [of st0] Cons by auto
      moreover have "\<exists>r. foldAlternate sf grow ss x st1 = Some (Inr r)" by (rule foldAlternate_returns) (use sub Cons in simp)
      ultimately show ?thesis using OpAlternate Cons z by simp
    qed (use OpAlternate z in simp)
  next
    case OpCapture
    then show ?thesis using Regexp.prems hd [of st] by auto
  next
    case OpPlus
    then show ?thesis using Regexp.prems hd [of st] by auto
  next
    case OpRepeat
    then show ?thesis using Regexp.prems hd [of st] by (cases "mn = 0") auto
  next
    case OpQuest
    then show ?thesis using Regexp.prems hd [of st] by (auto split: prod.splits)
  qed simp_all
  then show ?case by (simp add: returns_def)
qed

lemma RegexpQuery_returns:
  assumes "grow_ok grow" "simpleFold_ok sf" "parsed re"
  shows "\<exists>q. RegexpQuery sf grow re = Some (Inr q)"
proof -
  obtain i st where "analyze sf grow re [] = Some (Inr (i, st))"
    by (rule returnsE [OF analyze_returns [OF assms]])
  then show ?thesis by (auto simp: RegexpQuery_def split: prod.splits)
qed

section \<open>The query\<close>

lemma RegexpQuery_ok:
  assumes g: "grow_ok grow" and sf: "simpleFold_ok sf" and t: "tree_ok re"
  shows "\<exists>q. RegexpQuery sf grow re = Some (Inr q) \<and> qwf q \<and>
    (\<forall>w \<in> rlang sf re. \<forall>u v. qsat (\<lambda>t. t \<in> set (trigrams_of (u @ w @ v))) q)"
proof -
  obtain x st where x: "analyze sf grow re [] = Some (Inr (x, st))" "isep st x" "sound (rlang sf re) x st"
    using sub_ok [OF analyze_ok [OF g sf t]] by metis
  obtain i st' where s: "simplify grow True x st = (i, st')" by fastforce
  have i: "sound (rlang sf re) i st'" using simplify_ok [OF g x(2,3) s] by blast
  have "qwf (riMatch (addExact i st')) \<and> (\<forall>w \<in> rlang sf re. covers (riMatch (addExact i st')) w)"
  proof (cases "have_set (riExact i)")
    case True
    then show ?thesis using sound_addExact [OF i True] by (simp add: addExact_def)
  next
    case False
    then show ?thesis using i by (simp add: addExact_def sound_def)
  qed
  then show ?thesis using x(1) s by (simp add: RegexpQuery_def covers_def)
qed


text \<open>
  C3. The query of a regular expression without alternation is never too strong: \<open>RegexpQuery\<close> returns,
  without a fault, a query that holds of every text in which a string the expression matches occurs, so a
  search that reads only the files with the right trigrams misses no match.  This is for any way in
  which \<open>append\<close> makes room and for any case folding that goes round orbits.
\<close>

theorem regexp_query_sound:
  assumes "grow_ok grow" "simpleFold_ok sf" "tree_ok re"
  shows "\<exists>q. RegexpQuery sf grow re = Some (Inr q) \<and> qwf q \<and>
    (\<forall>w \<in> rlang sf re. \<forall>u v. qsat (\<lambda>t. t \<in> set (trigrams_of (u @ w @ v))) q)"
  using assms by (rule RegexpQuery_ok)

text \<open>The growth of small slices of strings: at least double.  \<open>foo.*ba?\<close> as a tree.\<close>

definition doubling :: grow where
  "doubling c n = (if n \<le> 2 * c then 2 * c else n)"

lemma grow_ok_doubling: "grow_ok doubling"
  by (simp add: grow_ok_def doubling_def)

definition lit :: "string \<Rightarrow> regexp" where
  "lit s = Regexp OpLiteral False [] (map (\<lambda>c. int (of_char c)) s) 0 0"

definition anyStar :: regexp where
  "anyStar = Regexp OpStar False [Regexp OpAnyCharNotNL False [] [] 0 0] [] 0 0"

definition plainRe :: regexp where
  "plainRe = Regexp OpConcat False [lit ''foo'', anyStar, lit ''b'', Regexp OpQuest False [lit ''a''] [] 0 0] [] 0 0"

lemma simpleFold_id: "simpleFold_ok (\<lambda>c. c)"
  unfolding simpleFold_ok_def by (auto intro: exI [of _ 0])

theorem regexp_query_sound_witness:
  "\<exists>q. RegexpQuery (\<lambda>c. c) doubling plainRe = Some (Inr q) \<and>
    qsat (\<lambda>t. t \<in> set (trigrams_of (bytes_of ''xfooyba''))) q"
proof -
  have t: "tree_ok plainRe" by (simp add: plainRe_def lit_def anyStar_def)
  have w: "bytes_of ''foo'' @ bytes_of ''y'' @ bytes_of ''b'' @ bytes_of ''a'' \<in> rlang (\<lambda>c. c) plainRe"
  proof -
    have "bytes_of ''y'' \<in> rlang (\<lambda>c. c) anyStar"
      unfolding anyStar_def by (simp add: pow_def Let_def)
        (rule exI [of _ "[bytes_of ''y'']"], auto simp: stringOf_def EncodeRune_def MaxRune_def bytes_of_def intro!: exI [of _ "0x79"])
    moreover have "bytes_of ''foo'' \<in> rlang (\<lambda>c. c) (lit ''foo'')" "bytes_of ''b'' \<in> rlang (\<lambda>c. c) (lit ''b'')"
      "bytes_of ''a'' \<in> rlang (\<lambda>c. c) (Regexp OpQuest False [lit ''a''] [] 0 0)"
      by (simp_all add: lit_def stringOf_def EncodeRune_def MaxRune_def bytes_of_def Let_def)
    ultimately show ?thesis unfolding plainRe_def by (simp add: Let_def conc_def) blast
  qed
  obtain q where q: "RegexpQuery (\<lambda>c. c) doubling plainRe = Some (Inr q)"
    "\<forall>w \<in> rlang (\<lambda>c. c) plainRe. \<forall>u v. qsat (\<lambda>t. t \<in> set (trigrams_of (u @ w @ v))) q"
    using regexp_query_sound [OF grow_ok_doubling simpleFold_id t] by blast
  from bspec [OF q(2) w, rule_format, of "bytes_of ''x''" "[]"] q(1) show ?thesis by (simp add: bytes_of_def)
qed

definition lossyRe :: regexp where
  "lossyRe = Regexp OpConcat False
     [Regexp OpAlternate False
        [Regexp OpCharClass False [] [0x62, 0x64] 0 0,
         Regexp OpConcat False [lit ''a'', anyStar, lit ''z''] [] 0 0] [] 0 0,
      lit ''foo''] [] 0 0"

text \<open>
  With an alternation the query can be too strong.  For \<open>(?:[b-d]|a.*z)foo\<close> the exact set of the class
  has room for a fourth string, so both unions of \<open>alternate\<close> append in the same array and the second
  overwrites the \<open>d\<close> of the first: the expression matches the text \<open>dfoo\<close>, whose trigrams do not satisfy
  its query.
\<close>

lemma alternation_loses_match:
  "bytes_of ''dfoo'' \<in> rlang (\<lambda>c. c) lossyRe \<and>
   (\<exists>q. RegexpQuery (\<lambda>c. c) doubling lossyRe = Some (Inr q) \<and>
        \<not> qsat (\<lambda>t. t \<in> set (trigrams_of (bytes_of ''dfoo''))) q)"
proof -
  have "bytes_of ''d'' \<in> {stringOf [c] | c. inClass [0x62, 0x64] c}"
    by (auto simp: stringOf_def EncodeRune_def MaxRune_def bytes_of_def intro!: exI [of _ "0x64"])
  moreover have "bytes_of ''foo'' \<in> rlang (\<lambda>c. c) (lit ''foo'')"
    by (simp add: lit_def stringOf_def EncodeRune_def MaxRune_def bytes_of_def)
  ultimately have "bytes_of ''d'' @ bytes_of ''foo'' \<in> rlang (\<lambda>c. c) lossyRe"
    unfolding lossyRe_def by (auto simp: Let_def conc_def)
  moreover have "RegexpQuery (\<lambda>c. c) doubling lossyRe = Some (Inr (Query QAnd [bytes_of ''foo'']
      [Query QOr [bytes_of ''afo'', bytes_of ''bfo'', bytes_of ''cfo'', bytes_of ''zfo''] []]))"
    by code_simp
  ultimately show ?thesis by (simp add: bytes_of_def)
qed

end
