(* ===== verification/Code_Search.thy ===== *)
theory Code_Search
  imports Regex_Query Grep_File Index_Search
begin

text \<open>
  The search of one index: \<open>regexp.Compile\<close> of \<open>internal/codesearch/regexp\<close> and \<open>CompileSearch\<close>,
  \<open>SearchCompiled\<close>, \<open>readSourceFileBuf\<close> and their helpers of \<open>internal/index\<close>.

  What the code takes from packages \<open>regexp\<close> and \<open>regexp/syntax\<close> is in the record \<open>golib\<close>: parsing
  (with the flags of Perl), simplifying and compiling a tree to a program, the case folding of runes, the
  growth of a slice, and for a standard regular expression its match and the position of its match.  A
  call may return an error: \<open>goerr + 'a\<close>, inside the result of a call that may fault or not return.
  Locks, pools and durations are left out; a file is what opening it, reading it and decompressing it give.
\<close>

unbundle bit_operations_syntax

type_synonym goerr = string

section \<open>Compiling\<close>

record golib =
  libParse :: "gostr \<Rightarrow> goerr + regexp"
  libProg :: "regexp \<Rightarrow> goerr + rprog"
  libFold :: "int \<Rightarrow> int"
  libGrow :: grow
  libMatch :: "gostr \<Rightarrow> goerr + (gostr \<Rightarrow> bool)"
  libFind :: "gostr \<Rightarrow> goerr + (gostr \<Rightarrow> nat option)"
  libQuote :: "gostr \<Rightarrow> gostr"

record cregexp =
  reSyntax :: regexp
  reExpr :: gostr
  reM :: matcher

definition ebind :: "(goerr + 'a) res option \<Rightarrow> ('a \<Rightarrow> (goerr + 'b) res option) \<Rightarrow> (goerr + 'b) res option" where
  "ebind m f = obind m (\<lambda>r. case r of Inl e \<Rightarrow> Some (Inr (Inl e)) | Inr x \<Rightarrow> f x)"

lemma ebind_simps [simp]:
  "ebind (Some (Inr (Inl e))) f = Some (Inr (Inl e))" "ebind (Some (Inr (Inr x))) f = f x"
  by (simp_all add: ebind_def)

definition Compile :: "golib \<Rightarrow> gostr \<Rightarrow> (goerr + cregexp) res option" where
  "Compile lib expr =
     ebind (Some (Inr (libParse lib expr))) (\<lambda>re.
     ebind (Some (Inr (libProg lib re))) (\<lambda>prog.
     obind (toByteProg (libFold lib) prog) (\<lambda>p.
     obind (matcherInit p) (\<lambda>m.
       Some (Inr (Inr \<lparr>reSyntax = re, reExpr = expr, reM = m\<rparr>))))))"

definition reMatch :: "cregexp \<Rightarrow> byte list \<Rightarrow> bool \<Rightarrow> bool \<Rightarrow> (int \<times> cregexp) res option" where
  "reMatch r b bt et = obind (matchBytes b bt et (reM r)) (\<lambda>(e, m).
     Some (Inr (e, r\<lparr>reM := m\<rparr>)))"

definition getRegexpPattern :: "gostr \<Rightarrow> bool \<Rightarrow> gostr" where
  "getRegexpPattern pat ignoreCase = (if ignoreCase then bytes_of ''(?i)(?m)'' @ pat else bytes_of ''(?m)'' @ pat)"

fun hasEmptyCapture :: "regexp \<Rightarrow> bool" where
  "hasEmptyCapture (Regexp op fc sub r mn mx) =
     (op = OpCapture \<and> (length sub = 0 \<or> length sub = 1 \<and> reOp (sub ! 0) = OpEmptyMatch) \<or>
      list_ex hasEmptyCapture sub)"

definition ValidatePattern :: "golib \<Rightarrow> gostr \<Rightarrow> goerr option" where
  "ValidatePattern lib pat = (case libParse lib (bytes_of ''(?m)'' @ pat) of
       Inl err \<Rightarrow> Some err
     | Inr re \<Rightarrow> if hasEmptyCapture re then Some (''use '' @ [CHR 0x5C] @ ''( and '' @ [CHR 0x5C] @ '') for literal parentheses'') else None)"

section \<open>Options\<close>

definition matchLimit :: int where "matchLimit = 1000"

record searchOptions =
  soIgnoreCase :: bool
  soLiteralSearch :: bool
  soLinesOfContext :: u64
  soFileRegexp :: gostr
  soExcludeFileRegexp :: gostr
  soOffset :: int
  soLimit :: int
  soMaxResults :: int

record compiledSearch =
  csQuery :: query
  csPattern :: gostr
  csFre :: "(gostr \<Rightarrow> bool) option"
  csExcludeFre :: "(gostr \<Rightarrow> bool) option"
  csContentRe :: "(gostr \<Rightarrow> nat option) option"
  csMaxResults :: int
  csLinesOfContext :: nat
  csOffset :: int
  csLimit :: int

definition noOptions :: searchOptions where
  "noOptions = \<lparr>soIgnoreCase = False, soLiteralSearch = False, soLinesOfContext = 0, soFileRegexp = [],
     soExcludeFileRegexp = [], soOffset = 0, soLimit = 0, soMaxResults = 0\<rparr>"

text \<open>A pattern for file names; the empty one is no pattern.\<close>

definition fileRe :: "golib \<Rightarrow> gostr \<Rightarrow> (goerr + (gostr \<Rightarrow> bool) option) res option" where
  "fileRe lib pat = (if pat \<noteq> [] then ebind (Some (Inr (libMatch lib pat))) (\<lambda>f. Some (Inr (Inr (Some f))))
     else Some (Inr (Inr None)))"

definition CompileSearch :: "golib \<Rightarrow> gostr \<Rightarrow> searchOptions option \<Rightarrow> (goerr + compiledSearch) res option" where
  "CompileSearch lib pat opt0 =
     (let opt = (case opt0 of None \<Rightarrow> noOptions | Some opt \<Rightarrow> opt);
          patForRe = (if soLiteralSearch opt then libQuote lib pat else pat);
          fullPat = getRegexpPattern patForRe (soIgnoreCase opt)
      in ebind (Compile lib fullPat) (\<lambda>cre.
         ebind (Some (Inr (libFind lib fullPat))) (\<lambda>contentRe.
         obind (RegexpQuery (libFold lib) (libGrow lib) (reSyntax cre)) (\<lambda>q.
           let cs = \<lparr>csQuery = q, csPattern = fullPat, csFre = None, csExcludeFre = None,
                 csContentRe = Some contentRe, csMaxResults = soMaxResults opt,
                 csLinesOfContext = min (unat (soLinesOfContext opt)) (2 ^ 63 - 1),
                 csOffset = soOffset opt, csLimit = soLimit opt\<rparr>;
               cs = (if csMaxResults cs \<le> 0 then cs\<lparr>csMaxResults := matchLimit\<rparr> else cs)
           in ebind (fileRe lib (soFileRegexp opt)) (\<lambda>fre.
              ebind (fileRe lib (soExcludeFileRegexp opt)) (\<lambda>xre.
                Some (Inr (Inr (cs\<lparr>csFre := fre, csExcludeFre := xre\<rparr>)))))))))"

section \<open>Source files\<close>

text \<open>An open file: its first bytes, what it reads as, and what the gzip reader makes of it (an error in the
  header, or the data, or an error while it reads).\<close>

record osfile =
  ofHead :: "byte list"
  ofRaw :: "goerr + byte list"
  ofGzip :: "goerr + (goerr + byte list)"

type_synonym fs = "gostr \<Rightarrow> goerr + osfile"

definition gzipMagic :: "byte list" where "gzipMagic = [0x1f, 0x8b]"

definition openSourceReader :: "fs \<Rightarrow> gostr \<Rightarrow> goerr + (goerr + byte list)" where
  "openSourceReader fs filename = rbind (fs filename) (\<lambda>f.
     if length (ofHead f) \<ge> 2 \<and> take 2 (ofHead f) = gzipMagic then ofGzip f else Inr (ofRaw f))"

definition readSourceFile :: "fs \<Rightarrow> gostr \<Rightarrow> goerr + byte list" where
  "readSourceFile fs filename = rbind (openSourceReader fs filename) (\<lambda>r. r)"

definition readSourceFileBuf :: "fs \<Rightarrow> gostr \<Rightarrow> goerr + byte list" where
  "readSourceFileBuf fs filename = rbind (fs filename) (\<lambda>f.
     case ofGzip f of Inr r \<Rightarrow> r | Inl _ \<Rightarrow> ofRaw f)"

definition grepFile :: "fs \<Rightarrow> gostr \<Rightarrow> cregexp \<Rightarrow> (gostr \<Rightarrow> nat option) option \<Rightarrow> nat \<Rightarrow> int \<Rightarrow>
    (goerr + match list \<times> matcher) res option" where
  "grepFile fs filename re fre contextLines maxMatches =
     ebind (Some (Inr (readSourceFile fs filename))) (\<lambda>buf.
       obind (grepData buf (reM re) fre contextLines maxMatches) (\<lambda>r. Some (Inr (Inr r))))"

section \<open>Searching\<close>

record fileMatch =
  fmFilename :: gostr
  fmMatches :: "match list"

record searchResponse =
  srMatches :: "fileMatch list"
  srFilesWithMatch :: nat
  srFilesOpened :: nat

text \<open>\<open>strings.Cut\<close>: what is behind the first occurrence.\<close>

fun cutAfter :: "gostr \<Rightarrow> gostr \<Rightarrow> gostr option" where
  "cutAfter sep s = (if take (length sep) s = sep then Some (drop (length sep) s)
     else (case s of [] \<Rightarrow> None | _ # s' \<Rightarrow> cutAfter sep s'))"

definition relName :: "gostr \<Rightarrow> gostr" where
  "relName name = (case cutAfter (bytes_of ''/source/'') name of None \<Rightarrow> name | Some after \<Rightarrow> after)"

record searchState =
  ssResults :: "fileMatch list"
  ssOpened :: nat
  ssFound :: nat
  ssCollected :: nat
  ssMatches :: int

text \<open>A file whose data has matches.\<close>

definition collect :: "compiledSearch \<Rightarrow> gostr \<Rightarrow> match list \<Rightarrow> searchState \<Rightarrow> searchState" where
  "collect cs name ms st0 =
     (if length ms = 0 then st0
      else let st = st0\<lparr>ssFound := ssFound st0 + 1\<rparr> in
        if int (ssFound st) \<le> csOffset cs then st
        else if csLimit cs > 0 \<and> int (ssCollected st) \<ge> csLimit cs then st
        else st\<lparr>ssCollected := ssCollected st + 1, ssMatches := ssMatches st + int (length ms),
               ssResults := ssResults st @ [\<lparr>fmFilename = relName name, fmMatches = ms\<rparr>]\<rparr>)"

definition wantsName :: "compiledSearch \<Rightarrow> gostr \<Rightarrow> bool" where
  "wantsName cs name \<longleftrightarrow> (case csFre cs of None \<Rightarrow> True | Some f \<Rightarrow> f name) \<and>
     (case csExcludeFre cs of None \<Rightarrow> True | Some f \<Rightarrow> \<not> f name)"

fun searchLoop :: "fs \<Rightarrow> compiledSearch \<Rightarrow> index \<Rightarrow> int list \<Rightarrow> matcher \<Rightarrow> searchState \<Rightarrow> searchState res option" where
  "searchLoop fs cs idx [] re st = Some (Inr st)"
| "searchLoop fs cs idx (fileID # files) re st =
     (if ssMatches st \<ge> csMaxResults cs then Some (Inr st)
      else obind (Some (ixName fileID idx)) (\<lambda>name.
        if \<not> wantsName cs name then searchLoop fs cs idx files re st
        else let st1 = st\<lparr>ssOpened := ssOpened st + 1\<rparr> in
        case readSourceFileBuf fs name of
          Inl err \<Rightarrow> searchLoop fs cs idx files re st1
        | Inr data \<Rightarrow>
            obind (grepData data re (csContentRe cs) (csLinesOfContext cs) (csMaxResults cs - ssMatches st1)) (\<lambda>(ms, re1).
              searchLoop fs cs idx files re1 (collect cs name ms st1))))"

definition SearchCompiled :: "golib \<Rightarrow> fs \<Rightarrow> compiledSearch \<Rightarrow> index option \<Rightarrow>
    (goerr + searchResponse option) res option" where
  "SearchCompiled lib fs cs idx0 =
     ebind (Compile lib (csPattern cs)) (\<lambda>re.
       case idx0 of None \<Rightarrow> Some (Inr (Inr None))
       | Some idx \<Rightarrow>
           obind (Some (PostingQuery (csQuery cs) idx)) (\<lambda>files.
           obind (searchLoop fs cs idx (olist files) (reM re)
               \<lparr>ssResults = [], ssOpened = 0, ssFound = 0, ssCollected = 0, ssMatches = 0\<rparr>) (\<lambda>st.
             Some (Inr (Inr (Some \<lparr>srMatches = ssResults st, srFilesWithMatch = ssFound st,
               srFilesOpened = ssOpened st\<rparr>))))))"

definition Search :: "golib \<Rightarrow> fs \<Rightarrow> index option \<Rightarrow> gostr \<Rightarrow> searchOptions option \<Rightarrow>
    (goerr + searchResponse option) res option" where
  "Search lib fs idx pat opt = ebind (CompileSearch lib pat opt) (\<lambda>cs. SearchCompiled lib fs cs idx)"


section \<open>Calls that return\<close>

definition lib_ok :: "golib \<Rightarrow> bool" where
  "lib_ok lib \<longleftrightarrow> simpleFold_ok (libFold lib) \<and> grow_ok (libGrow lib) \<and>
     (\<forall>e re. libParse lib e = Inr re \<longrightarrow> parsed re) \<and>
     (\<forall>e re p. libParse lib e = Inr re \<longrightarrow> libProg lib re = Inr p \<longrightarrow> rprog_ok p \<and>
        (\<forall>q. toByteProg (libFold lib) p = Some (Inr q) \<longrightarrow> length (pInst q) < 2 ^ 32)) \<and>
     (\<forall>e f. libFind lib e = Inr f \<longrightarrow> fre_ok (Some f))"

lemma Compile_ok:
  assumes "lib_ok lib" "libParse lib e = Inr re" "libProg lib re = Inr p"
  obtains q m where "Compile lib e = Some (Inr (Inr \<lparr>reSyntax = re, reExpr = e, reM = m\<rparr>))" "prog_ok q" "usable q m"
    "toByteProg (libFold lib) p = Some (Inr q)"
proof -
  have l: "simpleFold_ok (libFold lib)" "rprog_ok p"
    "\<forall>q. toByteProg (libFold lib) p = Some (Inr q) \<longrightarrow> length (pInst q) < 2 ^ 32"
    using assms by (auto simp: lib_ok_def)
  obtain q where q: "toByteProg (libFold lib) p = Some (Inr q)" "prog_ok q"
    using toByteProg_ok [OF l(1,2)] l(3) by blast
  obtain m where m: "matcherInit q = Some (Inr m)" using matcherInit_ok [OF q(2)] by blast
  show thesis
    by (rule that [of m q]) (use assms q m in \<open>simp_all add: Compile_def usable.made\<close>)
qed

text \<open>A program is that of an expression if the package compiles it to it.\<close>

definition progOf :: "golib \<Rightarrow> gostr \<Rightarrow> prog \<Rightarrow> bool" where
  "progOf lib e q \<longleftrightarrow> (\<exists>re p. libParse lib e = Inr re \<and> libProg lib re = Inr p \<and> toByteProg (libFold lib) p = Some (Inr q))"

section \<open>What a search finds\<close>

text \<open>The matches in a file, as a search without a limit would report them.\<close>

definition content :: "fs \<Rightarrow> compiledSearch \<Rightarrow> gostr \<Rightarrow> byte list option" where
  "content fs cs name = (if wantsName cs name then (case readSourceFileBuf fs name of Inl e \<Rightarrow> None | Inr d \<Rightarrow> Some d) else None)"

definition hitsIn :: "fs \<Rightarrow> compiledSearch \<Rightarrow> prog \<Rightarrow> gostr \<Rightarrow> match list" where
  "hitsIn fs cs p name = (case content fs cs name of None \<Rightarrow> []
     | Some d \<Rightarrow> map (report d (csContentRe cs) (csLinesOfContext cs)) (lineNos p True 1 (segs d)))"

definition foundIn :: "fs \<Rightarrow> compiledSearch \<Rightarrow> prog \<Rightarrow> gostr list \<Rightarrow> gostr list" where
  "foundIn fs cs p names = filter (\<lambda>name. hitsIn fs cs p name \<noteq> []) names"

definition page :: "int \<Rightarrow> int \<Rightarrow> 'a list \<Rightarrow> 'a list" where
  "page offset limit xs = (let ys = drop (nat offset) xs in if limit > 0 then take (nat limit) ys else ys)"

definition found_match :: "fs \<Rightarrow> compiledSearch \<Rightarrow> prog \<Rightarrow> gostr \<Rightarrow> fileMatch" where
  "found_match fs cs p name = \<lparr>fmFilename = relName name, fmMatches = hitsIn fs cs p name\<rparr>"

definition matchCount :: "fileMatch list \<Rightarrow> nat" where
  "matchCount fms = sum_list (map (length \<circ> fmMatches) fms)"

lemma matchCount_simps [simp]:
  "matchCount [] = 0" "matchCount (f # fs) = length (fmMatches f) + matchCount fs"
  "matchCount (xs @ ys) = matchCount xs + matchCount ys"
  by (simp_all add: matchCount_def)

text \<open>One file.\<close>

lemma searchLoop_file:
  assumes p: "prog_ok p" "usable p m" "fre_ok (csContentRe cs)" and name: "ixName fid idx = Inr name"
    and more: "ssMatches st < csMaxResults cs"
  obtains m' st' where "usable p m'"
    "searchLoop fs cs idx (fid # files) m st = searchLoop fs cs idx files m' st'"
    "st' = collect cs name (take (nat (csMaxResults cs - ssMatches st)) (hitsIn fs cs p name))
       (st\<lparr>ssOpened := ssOpened st + (if wantsName cs name then 1 else 0)\<rparr>)"
proof (cases "content fs cs name")
  case None
  show thesis
    by (rule that [OF p(2), of "st\<lparr>ssOpened := ssOpened st + (if wantsName cs name then 1 else 0)\<rparr>"])
      (use None name more in \<open>auto simp: hitsIn_def collect_def content_def Let_def split: sum.splits if_splits\<close>)
next
  case (Some d)
  then have w: "wantsName cs name" "readSourceFileBuf fs name = Inr d"
    by (auto simp: content_def split: if_splits sum.splits)
  let ?mx = "csMaxResults cs - ssMatches st"
  obtain m' where m': "usable p m'" "grepData d m (csContentRe cs) (csLinesOfContext cs) ?mx =
    Some (Inr (take (nat ?mx) (hitsIn fs cs p name), m'))"
    using grepData_ok [OF p(1,2,3), of d "csLinesOfContext cs" ?mx] Some by (auto simp: hitsIn_def take_map)
  show thesis
    by (rule that [OF m'(1) _ refl]) (use w m'(2) name more in \<open>simp add: Let_def\<close>)
qed

declare searchLoop.simps(2) [simp del]

text \<open>What holds between two files.\<close>

definition sinv :: "compiledSearch \<Rightarrow> searchState \<Rightarrow> bool" where
  "sinv cs st \<longleftrightarrow> ssMatches st = int (matchCount (ssResults st)) \<and> ssMatches st \<le> csMaxResults cs \<and>
     ssCollected st = length (ssResults st) \<and> (csLimit cs > 0 \<longrightarrow> int (ssCollected st) \<le> csLimit cs) \<and>
     ssCollected st \<le> ssFound st \<and> (csOffset cs > 0 \<longrightarrow> ssCollected st \<le> ssFound st - nat (csOffset cs)) \<and>
     ssFound st \<le> ssOpened st \<and>
     (\<forall>fm \<in> set (ssResults st). fmMatches fm \<noteq> [])"

lemma sinv_collect:
  assumes "sinv cs st" "int (length ms) \<le> csMaxResults cs - ssMatches st" "ms = [] \<or> w"
  shows "sinv cs (collect cs name ms (st\<lparr>ssOpened := ssOpened st + (if w then 1 else 0)\<rparr>))"
proof (cases "ms = []")
  case True
  then show ?thesis using assms(1) by (auto simp: sinv_def collect_def)
next
  case False
  then show ?thesis using assms by (auto simp: sinv_def collect_def Let_def)
qed

lemma hitsIn_wanted: "hitsIn fs cs p name \<noteq> [] \<Longrightarrow> wantsName cs name"
  by (auto simp: hitsIn_def content_def split: if_splits)

lemma searchLoop_inv:
  assumes p: "prog_ok p" "fre_ok (csContentRe cs)"
  shows "usable p m \<Longrightarrow> sinv cs st \<Longrightarrow> \<forall>fid \<in> set files. \<exists>nm. ixName fid idx = Inr nm \<Longrightarrow>
    \<exists>st'. searchLoop fs cs idx files m st = Some (Inr st') \<and> sinv cs st'"
proof (induction files arbitrary: m st)
  case (Cons fid files)
  show ?case
  proof (cases "ssMatches st < csMaxResults cs")
    case False
    then show ?thesis using Cons.prems(2) by (simp add: searchLoop.simps(2))
  next
    case True
    obtain name where name: "ixName fid idx = Inr name" using Cons.prems(3) by auto
    obtain m' st' where s: "usable p m'" "searchLoop fs cs idx (fid # files) m st = searchLoop fs cs idx files m' st'"
      "st' = collect cs name (take (nat (csMaxResults cs - ssMatches st)) (hitsIn fs cs p name))
         (st\<lparr>ssOpened := ssOpened st + (if wantsName cs name then 1 else 0)\<rparr>)"
      by (rule searchLoop_file [OF p(1) Cons.prems(1) p(2) name True])
    have "sinv cs st'"
      unfolding s(3) by (rule sinv_collect [OF Cons.prems(2)]) (use True hitsIn_wanted in \<open>auto simp: min_def\<close>)
    then show ?thesis using Cons.IH [OF s(1)] Cons.prems(3) s(2) by simp
  qed
qed simp

text \<open>Without hitting the limit on matches, the loop collects the rest of the page.\<close>

definition restPage :: "compiledSearch \<Rightarrow> searchState \<Rightarrow> 'a list \<Rightarrow> 'a list" where
  "restPage cs st xs = (let ys = drop (nat (csOffset cs) - ssFound st) xs
     in if csLimit cs > 0 then take (nat (csLimit cs) - ssCollected st) ys else ys)"

lemma collect_hit:
  assumes "ms \<noteq> []"
  shows "collect cs name ms st =
    (if ssFound st + 1 \<le> nat (csOffset cs) \<or> csLimit cs > 0 \<and> nat (csLimit cs) \<le> ssCollected st
     then st\<lparr>ssFound := ssFound st + 1\<rparr>
     else st\<lparr>ssFound := ssFound st + 1, ssCollected := ssCollected st + 1, ssMatches := ssMatches st + int (length ms),
       ssResults := ssResults st @ [\<lparr>fmFilename = relName name, fmMatches = ms\<rparr>]\<rparr>)"
proof -
  have "int (ssFound st + 1) \<le> csOffset cs \<longleftrightarrow> ssFound st + 1 \<le> nat (csOffset cs)"
    "csLimit cs > 0 \<Longrightarrow> csLimit cs \<le> int (ssCollected st) \<longleftrightarrow> nat (csLimit cs) \<le> ssCollected st" by linarith+
  then show ?thesis using assms unfolding collect_def Let_def by auto
qed

lemma collect_page:
  assumes "hs \<noteq> []" "fm = \<lparr>fmFilename = relName name, fmMatches = hs\<rparr>" "0 < r"
    "ssMatches st + int (matchCount (map g (restPage cs st (x # F)))) < csMaxResults cs"
    "g x = fm" "r = nat (csMaxResults cs - ssMatches st)"
    and st': "st' = collect cs name (take r hs) st"
  shows "ssFound st' = ssFound st + 1 \<and> ssOpened st' = ssOpened st \<and>
    ssResults st' @ map g (restPage cs st' F) = ssResults st @ map g (restPage cs st (x # F)) \<and>
    ssMatches st' + int (matchCount (map g (restPage cs st' F))) =
      ssMatches st + int (matchCount (map g (restPage cs st (x # F))))"
proof -
  have ne: "take r hs \<noteq> []" using assms(1,3) by simp
  consider (before) "ssFound st + 1 \<le> nat (csOffset cs)"
    | (full) "\<not> ssFound st + 1 \<le> nat (csOffset cs)" "csLimit cs > 0" "nat (csLimit cs) \<le> ssCollected st"
    | (on) "\<not> ssFound st + 1 \<le> nat (csOffset cs)" "csLimit cs > 0 \<longrightarrow> ssCollected st < nat (csLimit cs)"
    by linarith
  then show ?thesis
  proof cases
    case before
    then have "collect cs name (take r hs) st = st\<lparr>ssFound := ssFound st + 1\<rparr>"
      by (simp add: collect_hit [OF ne])
    moreover have "restPage cs (st\<lparr>ssFound := ssFound st + 1\<rparr>) F = restPage cs st (x # F)"
    proof -
      have "nat (csOffset cs) - ssFound st = Suc (nat (csOffset cs) - Suc (ssFound st))" using before by simp
      then show ?thesis by (simp add: restPage_def Let_def)
    qed
    ultimately show ?thesis by (simp add: st')
  next
    case full
    then have "collect cs name (take r hs) st = st\<lparr>ssFound := ssFound st + 1\<rparr>"
      by (simp add: collect_hit [OF ne])
    moreover have "restPage cs (st\<lparr>ssFound := ssFound st + 1\<rparr>) F = []" "restPage cs st (x # F) = []"
      using full by (simp_all add: restPage_def Let_def)
    ultimately show ?thesis by (simp add: st')
  next
    case on
    then have d: "nat (csOffset cs) - ssFound st = 0" by simp
    let ?st = "st\<lparr>ssFound := ssFound st + 1, ssCollected := ssCollected st + 1,
      ssMatches := ssMatches st + int (length hs), ssResults := ssResults st @ [fm]\<rparr>"
    have rp: "restPage cs st (x # F) = x # restPage cs ?st F"
    proof (cases "csLimit cs > 0")
      case True
      then have "nat (csLimit cs) - ssCollected st = Suc (nat (csLimit cs) - Suc (ssCollected st))" using on(2) by simp
      then show ?thesis using True d by (simp add: restPage_def Let_def)
    qed (use d in \<open>simp add: restPage_def Let_def\<close>)
    then have "int (length hs) < csMaxResults cs - ssMatches st" using assms(2,4,5) by simp
    then have "take r hs = hs" using assms(6) by simp
    then have "collect cs name (take r hs) st = ?st"
      using on assms(2) by (auto simp: collect_hit [OF assms(1)])
    then show ?thesis using rp assms(2,5) by (simp add: st')
  qed
qed

lemma searchLoop_page:
  assumes p: "prog_ok p" "fre_ok (csContentRe cs)"
  shows "usable p m \<Longrightarrow> list_all2 (\<lambda>fid nm. ixName fid idx = Inr nm) files names \<Longrightarrow>
    F = foundIn fs cs p names \<Longrightarrow>
    ssMatches st + int (matchCount (map (found_match fs cs p) (restPage cs st F))) < csMaxResults cs \<Longrightarrow>
    \<exists>st'. searchLoop fs cs idx files m st = Some (Inr st') \<and>
      ssResults st' = ssResults st @ map (found_match fs cs p) (restPage cs st F) \<and>
      ssFound st' = ssFound st + length F \<and> ssOpened st' = ssOpened st + length (filter (wantsName cs) names)"
proof (induction files arbitrary: names m st F)
  case Nil
  then show ?case by (simp add: foundIn_def restPage_def Let_def)
next
  case (Cons fid files)
  obtain name names' where n: "names = name # names'" "ixName fid idx = Inr name"
    "list_all2 (\<lambda>fid nm. ixName fid idx = Inr nm) files names'"
    using Cons.prems(2) by (auto simp: list_all2_Cons1)
  have more: "ssMatches st < csMaxResults cs" using Cons.prems(4) by linarith
  let ?r = "nat (csMaxResults cs - ssMatches st)"
  let ?st = "st\<lparr>ssOpened := ssOpened st + (if wantsName cs name then 1 else 0)\<rparr>"
  obtain m' st' where s: "usable p m'" "searchLoop fs cs idx (fid # files) m st = searchLoop fs cs idx files m' st'"
    "st' = collect cs name (take ?r (hitsIn fs cs p name)) ?st"
    by (rule searchLoop_file [OF p(1) Cons.prems(1) p(2) n(2) more])
  have rp: "restPage cs ?st G = restPage cs st G" for G :: "gostr list" by (simp add: restPage_def Let_def)
  show ?case
  proof (cases "hitsIn fs cs p name = []")
    case True
    then have st': "st' = ?st" and F: "F = foundIn fs cs p names'"
      using s(3) Cons.prems(3) n(1) by (simp_all add: collect_def foundIn_def)
    have "ssMatches ?st + int (matchCount (map (found_match fs cs p) (restPage cs ?st F))) < csMaxResults cs"
      using Cons.prems(4) by (simp only: rp) simp
    from Cons.IH [OF s(1) n(3) F this] show ?thesis
      unfolding s(2) st' rp n(1) by (cases "wantsName cs name") simp_all
  next
    case False
    let ?G = "foundIn fs cs p names'"
    have F: "F = name # ?G" using Cons.prems(3) n(1) False by (simp add: foundIn_def)
    have w: "wantsName cs name" using False by (rule hitsIn_wanted)
    have st: "ssMatches ?st = ssMatches st" "ssFound ?st = ssFound st" "ssResults ?st = ssResults st"
      "ssOpened ?st = ssOpened st + 1" using w by simp_all
    have "0 < ?r" using more by simp
    moreover have "ssMatches ?st + int (matchCount (map (found_match fs cs p) (restPage cs ?st (name # ?G)))) < csMaxResults cs"
      using Cons.prems(4) unfolding rp st F .
    moreover have "?r = nat (csMaxResults cs - ssMatches ?st)" unfolding st ..
    ultimately have c: "ssFound st' = ssFound st + 1" "ssOpened st' = ssOpened st + 1"
      "ssResults st' @ map (found_match fs cs p) (restPage cs st' ?G) = ssResults st @ map (found_match fs cs p) (restPage cs st F)"
      "ssMatches st' + int (matchCount (map (found_match fs cs p) (restPage cs st' ?G))) =
        ssMatches st + int (matchCount (map (found_match fs cs p) (restPage cs st F)))"
      using collect_page [where g = "found_match fs cs p" and x = name and F = ?G and fm = "found_match fs cs p name",
        OF False found_match_def _ _ refl _ s(3)] unfolding rp st F by blast+
    have "\<exists>st''. searchLoop fs cs idx files m' st' = Some (Inr st'') \<and>
      ssResults st'' = ssResults st' @ map (found_match fs cs p) (restPage cs st' ?G) \<and>
      ssFound st'' = ssFound st' + length ?G \<and> ssOpened st'' = ssOpened st' + length (filter (wantsName cs) names')"
      by (rule Cons.IH [OF s(1) n(3) refl]) (use c(4) Cons.prems(4) in simp)
    then show ?thesis using s(2) c w F n(1) by auto
  qed
qed

lemma fileRe_returns: "\<exists>r. fileRe lib pat = Some (Inr r)"
  by (cases "libMatch lib pat") (simp_all add: fileRe_def)

section \<open>Searching an index\<close>

lemma SearchCompiled_state:
  assumes "Compile lib (csPattern cs) = Some (Inr (Inr re))" "PostingQuery (csQuery cs) idx = Inr files"
    "searchLoop fs cs idx (olist files) (reM re)
       \<lparr>ssResults = [], ssOpened = 0, ssFound = 0, ssCollected = 0, ssMatches = 0\<rparr> = Some (Inr st)"
  shows "SearchCompiled lib fs cs (Some idx) = Some (Inr (Inr (Some
    \<lparr>srMatches = ssResults st, srFilesWithMatch = ssFound st, srFilesOpened = ssOpened st\<rparr>)))"
  using assms by (simp add: SearchCompiled_def)

lemma Compile_prog:
  assumes "lib_ok lib" "progOf lib e p"
  obtains re where "Compile lib e = Some (Inr (Inr re))" "prog_ok p" "usable p (reM re)"
proof -
  obtain re p0 where r: "libParse lib e = Inr re" "libProg lib re = Inr p0" "toByteProg (libFold lib) p0 = Some (Inr p)"
    using assms(2) by (auto simp: progOf_def)
  obtain q m where "Compile lib e = Some (Inr (Inr \<lparr>reSyntax = re, reExpr = e, reM = m\<rparr>))" "prog_ok q" "usable q m"
    "toByteProg (libFold lib) p0 = Some (Inr q)"
    by (rule Compile_ok [OF assms(1) r(1,2)])
  then show thesis using that r(3) by simp
qed

lemma SearchCompiled_page:
  assumes "lib_ok lib" "progOf lib (csPattern cs) p" "fre_ok (csContentRe cs)"
    "PostingQuery (csQuery cs) idx = Inr files" "list_all2 (\<lambda>fid nm. ixName fid idx = Inr nm) (olist files) names"
    "int (matchCount (map (found_match fs cs p) (page (csOffset cs) (csLimit cs) (foundIn fs cs p names)))) < csMaxResults cs"
  shows "SearchCompiled lib fs cs (Some idx) = Some (Inr (Inr (Some
    \<lparr>srMatches = map (found_match fs cs p) (page (csOffset cs) (csLimit cs) (foundIn fs cs p names)),
     srFilesWithMatch = length (foundIn fs cs p names), srFilesOpened = length (filter (wantsName cs) names)\<rparr>)))"
proof -
  obtain re where re: "Compile lib (csPattern cs) = Some (Inr (Inr re))" "prog_ok p" "usable p (reM re)"
    by (rule Compile_prog [OF assms(1,2)])
  let ?st = "\<lparr>ssResults = [], ssOpened = 0, ssFound = 0, ssCollected = 0, ssMatches = 0\<rparr>"
  have rp: "restPage cs ?st xs = page (csOffset cs) (csLimit cs) xs" for xs :: "gostr list"
    by (simp add: restPage_def page_def Let_def)
  obtain st' where st': "searchLoop fs cs idx (olist files) (reM re) ?st = Some (Inr st')"
    "ssResults st' = map (found_match fs cs p) (page (csOffset cs) (csLimit cs) (foundIn fs cs p names))"
    "ssFound st' = length (foundIn fs cs p names)" "ssOpened st' = length (filter (wantsName cs) names)"
    using searchLoop_page [OF re(2) assms(3) re(3) assms(5) refl, where st = ?st and fs = fs] assms(6) by (auto simp: rp)
  from SearchCompiled_state [OF re(1) assms(4) st'(1)] st'(2-4) show ?thesis by simp
qed

section \<open>A sample\<close>

text \<open>A package that parses everything to \<open>abc\<close>, the index of one file with these contents, and the file.\<close>

definition abcProg :: rprog where
  "abcProg = \<lparr>rpInst = [\<lparr>iOp = InstFail, iOut = 0, iArg = 0, iRune = []\<rparr>,
     \<lparr>iOp = InstRune1, iOut = 2, iArg = 0, iRune = [0x61]\<rparr>, \<lparr>iOp = InstRune1, iOut = 3, iArg = 0, iRune = [0x62]\<rparr>,
     \<lparr>iOp = InstRune1, iOut = 4, iArg = 0, iRune = [0x63]\<rparr>, \<lparr>iOp = InstMatch, iOut = 0, iArg = 0, iRune = []\<rparr>],
     rpStart = 1\<rparr>"

definition abcBytes :: prog where
  "abcBytes = \<lparr>pInst = [\<lparr>iOp = InstFail, iOut = 0, iArg = 0\<rparr>, \<lparr>iOp = InstByteRange, iOut = 2, iArg = 0x6161\<rparr>,
     \<lparr>iOp = InstByteRange, iOut = 3, iArg = 0x6262\<rparr>, \<lparr>iOp = InstByteRange, iOut = 4, iArg = 0x6363\<rparr>,
     \<lparr>iOp = InstMatch, iOut = 0, iArg = 0\<rparr>], pStart = 1\<rparr>"

definition sampleLib :: golib where
  "sampleLib = \<lparr>libParse = (\<lambda>_. Inr (lit ''abc'')), libProg = (\<lambda>_. Inr abcProg), libFold = (\<lambda>c. c), libGrow = doubling,
     libMatch = (\<lambda>_. Inl ''error''), libFind = (\<lambda>_. Inr (\<lambda>_. Some 0)), libQuote = (\<lambda>s. s)\<rparr>"

definition sampleFs :: fs where
  "sampleFs _ = Inr \<lparr>ofHead = bytes_of ''ab'', ofRaw = Inr (bytes_of ''abc''), ofGzip = Inl ''gzip: invalid header''\<rparr>"

definition sampleSearch :: compiledSearch where
  "sampleSearch = \<lparr>csQuery = Query QAnd [bytes_of ''abc''] [], csPattern = bytes_of ''(?m)abc'', csFre = None,
     csExcludeFre = None, csContentRe = None, csMaxResults = 100, csLinesOfContext = 0, csOffset = 0, csLimit = 0\<rparr>"

lemma abc_bytes: "toByteProg (\<lambda>c. c) abcProg = Some (Inr abcBytes)"
  by (simp add: toByteProg_def abcProg_def abcBytes_def byteInst_def oneByteRange_def RuneSelf_def inst.defs upt_rec
      push_bit_eq_mult)

lemma sampleLib_ok: "lib_ok sampleLib" "progOf sampleLib e abcBytes"
  using simpleFold_id grow_ok_doubling abc_bytes
  by (simp_all add: lib_ok_def sampleLib_def progOf_def fre_ok_def lit_def runes_ok_def MaxRune_def abcBytes_def
      abcProg_def rprog_ok_def insts_ok_def rinst_ok_def rune_inst_ok_def)

lemma sample_index:
  obtains ix files where "PostingQuery (Query QAnd [bytes_of ''abc''] []) ix = Inr files" "olist files = [0]"
    "ixName 0 ix = Inr (bytes_of ''a'')"
proof -
  have h: "\<forall>(name, f, zv) \<in> set sample_adds. [] \<notin> set (fst f)" by (simp add: sample_adds_def bytes_of_def)
  have q: "qlookup_ok (Query QAnd [bytes_of ''abc''] [])" by (simp add: bytes_of_def)
  have s: "int ` {i. i < length [(bytes_of ''a'', bytes_of ''abc'')] \<and>
      qsat (\<lambda>t. t \<in> set (trigrams_of (snd ([(bytes_of ''a'', bytes_of ''abc'')] ! i))))
        (Query QAnd [bytes_of ''abc''] [])} = {0}"
    by (auto simp: bytes_of_def)
  obtain ix l where l: "postingQuery ix (Query QAnd [bytes_of ''abc''] []) None = Inr l" "sorted_wrt (<) (olist l)"
    "set (olist l) = {0}" "\<forall>i < length [(bytes_of ''a'', bytes_of ''abc'')].
       ixName (int i) ix = Inr (fst ([(bytes_of ''a'', bytes_of ''abc'')] ! i))"
    using search_ok [OF h sample_accepted [symmetric] sample_small q, of id "[7]"] unfolding s by blast
  have "olist l = [0]"
  proof (cases "olist l")
    case (Cons x xs)
    then show ?thesis using l(2,3) by (cases xs) auto
  qed (use l(3) in simp)
  then show thesis using that [of ix l] l by (simp add: PostingQuery_def)
qed

lemma sample_count: "matchCount (map (found_match sampleFs sampleSearch p) (page 0 0 (foundIn sampleFs sampleSearch p [n]))) \<le> 1"
  by (simp add: page_def foundIn_def found_match_def hitsIn_def content_def wantsName_def sampleSearch_def sampleFs_def
      readSourceFileBuf_def bytes_of_def)

text \<open>
  C11. What a search reports.  If the matches on the page asked for are fewer than the limit, the
  response is the page: of the files of the posting list whose name is wanted and whose contents have a
  matching line, in order, those after the offset up to the limit on files, each with all its matching lines
  and its name relative to the source directory; and the counts are those of all files with a match and of all
  files that were opened.
\<close>

theorem search_reports_page:
  assumes "lib_ok lib" "progOf lib (csPattern cs) p" "fre_ok (csContentRe cs)"
    "PostingQuery (csQuery cs) idx = Inr files" "list_all2 (\<lambda>fid nm. ixName fid idx = Inr nm) (olist files) names"
    "int (matchCount (map (found_match fs cs p) (page (csOffset cs) (csLimit cs) (foundIn fs cs p names)))) < csMaxResults cs"
  shows "SearchCompiled lib fs cs (Some idx) = Some (Inr (Inr (Some
    \<lparr>srMatches = map (found_match fs cs p) (page (csOffset cs) (csLimit cs) (foundIn fs cs p names)),
     srFilesWithMatch = length (foundIn fs cs p names), srFilesOpened = length (filter (wantsName cs) names)\<rparr>)))"
  using assms by (rule SearchCompiled_page)

theorem search_reports_page_witness:
  "\<exists>ix r. SearchCompiled sampleLib sampleFs sampleSearch (Some ix) = Some (Inr (Inr (Some r))) \<and>
     srMatches r = map (found_match sampleFs sampleSearch abcBytes) (foundIn sampleFs sampleSearch abcBytes [bytes_of ''a'']) \<and>
     srFilesOpened r = 1"
proof -
  obtain ix files where i: "PostingQuery (Query QAnd [bytes_of ''abc''] []) ix = Inr files" "olist files = [0]"
    "ixName 0 ix = Inr (bytes_of ''a'')" by (rule sample_index)
  have c: "csOffset sampleSearch = 0" "csLimit sampleSearch = 0" "csMaxResults sampleSearch = 100"
    "csContentRe sampleSearch = None" "csQuery sampleSearch = Query QAnd [bytes_of ''abc''] []"
    by (simp_all add: sampleSearch_def)
  have "fre_ok (csContentRe sampleSearch)" by (simp add: c fre_ok_def)
  moreover have "PostingQuery (csQuery sampleSearch) ix = Inr files" using i(1) by (simp add: c)
  moreover have "list_all2 (\<lambda>fid nm. ixName fid ix = Inr nm) (olist files) [bytes_of ''a'']" using i(2,3) by simp
  moreover have "int (matchCount (map (found_match sampleFs sampleSearch abcBytes) (page (csOffset sampleSearch)
      (csLimit sampleSearch) (foundIn sampleFs sampleSearch abcBytes [bytes_of ''a''])))) < csMaxResults sampleSearch"
    using sample_count [of abcBytes "bytes_of ''a''"] unfolding c by linarith
  ultimately have "SearchCompiled sampleLib sampleFs sampleSearch (Some ix) = Some (Inr (Inr (Some
    \<lparr>srMatches = map (found_match sampleFs sampleSearch abcBytes) (page (csOffset sampleSearch) (csLimit sampleSearch)
       (foundIn sampleFs sampleSearch abcBytes [bytes_of ''a''])),
     srFilesWithMatch = length (foundIn sampleFs sampleSearch abcBytes [bytes_of ''a'']),
     srFilesOpened = length (filter (wantsName sampleSearch) [bytes_of ''a''])\<rparr>)))"
    by (rule search_reports_page [OF sampleLib_ok])
  moreover have "wantsName sampleSearch n" for n by (simp add: wantsName_def sampleSearch_def)
  ultimately show ?thesis by (intro exI [of _ ix]) (simp add: page_def c)
qed

text \<open>
  C25. A response never exceeds its limits, also when the limit on matches cuts the search short: it
  has at most \<open>maxResults\<close> matches and at most \<open>limit\<close> files, none without a match, and no more files are counted
  than were opened.
\<close>

theorem search_within_limits:
  assumes "lib_ok lib" "progOf lib (csPattern cs) p" "fre_ok (csContentRe cs)" "0 \<le> csMaxResults cs"
    "PostingQuery (csQuery cs) idx = Inr files" "\<forall>fid \<in> set (olist files). \<exists>nm. ixName fid idx = Inr nm"
  shows "\<exists>r. SearchCompiled lib fs cs (Some idx) = Some (Inr (Inr (Some r))) \<and>
    int (matchCount (srMatches r)) \<le> csMaxResults cs \<and>
    (csLimit cs > 0 \<longrightarrow> int (length (srMatches r)) \<le> csLimit cs) \<and>
    (\<forall>fm \<in> set (srMatches r). fmMatches fm \<noteq> []) \<and>
    length (srMatches r) \<le> srFilesWithMatch r \<and> srFilesWithMatch r \<le> srFilesOpened r"
proof -
  obtain re where re: "Compile lib (csPattern cs) = Some (Inr (Inr re))" "prog_ok p" "usable p (reM re)"
    by (rule Compile_prog [OF assms(1,2)])
  let ?st = "\<lparr>ssResults = [], ssOpened = 0, ssFound = 0, ssCollected = 0, ssMatches = 0\<rparr>"
  have "sinv cs ?st" using assms(4) by (simp add: sinv_def)
  from searchLoop_inv [OF re(2) assms(3) re(3) this assms(6)] obtain st' where
    "searchLoop fs cs idx (olist files) (reM re) ?st = Some (Inr st')" "sinv cs st'" by blast
  with SearchCompiled_state [OF re(1) assms(5) this(1)] show ?thesis by (auto simp: sinv_def)
qed

theorem search_within_limits_witness:
  "\<exists>ix r. SearchCompiled sampleLib sampleFs (sampleSearch\<lparr>csMaxResults := 3\<rparr>) (Some ix) = Some (Inr (Inr (Some r))) \<and>
     matchCount (srMatches r) \<le> 3"
proof -
  obtain ix files where i: "PostingQuery (Query QAnd [bytes_of ''abc''] []) ix = Inr files" "olist files = [0]"
    "ixName 0 ix = Inr (bytes_of ''a'')" by (rule sample_index)
  let ?cs = "sampleSearch\<lparr>csMaxResults := 3\<rparr>"
  have "fre_ok (csContentRe ?cs)" "0 \<le> csMaxResults ?cs" "PostingQuery (csQuery ?cs) ix = Inr files"
    "\<forall>fid \<in> set (olist files). \<exists>nm. ixName fid ix = Inr nm"
    using i by (simp_all add: sampleSearch_def fre_ok_def)
  from search_within_limits [OF sampleLib_ok this] obtain r where
    "SearchCompiled sampleLib sampleFs ?cs (Some ix) = Some (Inr (Inr (Some r)))"
    "int (matchCount (srMatches r)) \<le> csMaxResults ?cs" by blast
  moreover have "csMaxResults ?cs = 3" by simp
  ultimately show ?thesis by (intro exI [of _ ix] exI [of _ r]) simp
qed

text \<open>
  Compiling a search never panics and always returns: an error of the package, or patterns whose
  query is that of the parsed expression, with a positive limit on matches whatever the options ask for.
\<close>

lemma compile_search_returns:
  assumes "lib_ok lib"
  shows "\<exists>r. CompileSearch lib pat opt = Some (Inr r) \<and>
    (\<forall>cs. r = Inr cs \<longrightarrow> 0 < csMaxResults cs \<and> fre_ok (csContentRe cs) \<and> (\<exists>p. progOf lib (csPattern cs) p) \<and>
       (\<exists>re. libParse lib (csPattern cs) = Inr re \<and>
             RegexpQuery (libFold lib) (libGrow lib) re = Some (Inr (csQuery cs))))"
proof -
  define o' where "o' = (case opt of None \<Rightarrow> noOptions | Some opt \<Rightarrow> opt)"
  define e where "e = getRegexpPattern (if soLiteralSearch o' then libQuote lib pat else pat) (soIgnoreCase o')"
  note d = CompileSearch_def [of lib pat opt, folded o'_def, unfolded Let_def, folded e_def]
  consider (parse) x where "libParse lib e = Inl x" | (prog) re x where "libParse lib e = Inr re" "libProg lib re = Inl x"
    | (ok) re p where "libParse lib e = Inr re" "libProg lib re = Inr p"
    by (cases "libParse lib e"; cases "libProg lib (projr (libParse lib e))") auto
  then show ?thesis
  proof cases
    case parse
    then show ?thesis by (simp add: d Compile_def)
  next
    case prog
    then show ?thesis by (simp add: d Compile_def)
  next
    case ok
    obtain q m where c: "Compile lib e = Some (Inr (Inr \<lparr>reSyntax = re, reExpr = e, reM = m\<rparr>))" "prog_ok q" "usable q m"
      "toByteProg (libFold lib) p = Some (Inr q)"
      by (rule Compile_ok [OF assms ok])
    have "parsed re" "grow_ok (libGrow lib)" "simpleFold_ok (libFold lib)"
      using assms ok by (auto simp: lib_ok_def)
    then obtain qr where qr: "RegexpQuery (libFold lib) (libGrow lib) re = Some (Inr qr)"
      using RegexpQuery_returns by blast
    have pr: "progOf lib e q" using ok c(4) by (auto simp: progOf_def)
    show ?thesis
    proof (cases "libFind lib e")
      case (Inl x)
      then show ?thesis by (simp add: d c(1))
    next
      case (Inr f)
      have f: "fre_ok (Some f)" using assms Inr by (auto simp: lib_ok_def)
      obtain a where a: "fileRe lib (soFileRegexp o') = Some (Inr a)" using fileRe_returns by blast
      obtain b where b: "fileRe lib (soExcludeFileRegexp o') = Some (Inr b)" using fileRe_returns by blast
      show ?thesis using ok(1) qr pr f
        by (cases a; cases b) (auto simp: d c(1) Inr a b matchLimit_def)
    qed
  qed
qed

lemma compile_search_returns_witness:
  "\<exists>r. CompileSearch sampleLib (bytes_of ''abc'') None = Some (Inr r)"
  using compile_search_returns [OF sampleLib_ok(1), of "bytes_of ''abc''" None] by blast

end
