(* ===== verification/Exchange_Sort.thy ===== *)
theory Exchange_Sort
  imports Prelude "HOL-Library.Multiset"
begin

text \<open>
  Sorting by exchanging with every later element, the two nested loops the repository writes for the indexes of a slug and
  for the versions of WordPress.  The locale states what the comparison must be for the result to be sorted.
\<close>

definition swapAt :: "nat \<Rightarrow> nat \<Rightarrow> 'a list \<Rightarrow> 'a list" where
  "swapAt i j xs = xs[i := xs ! j, j := xs ! i]"

definition exStep :: "('a \<Rightarrow> 'a \<Rightarrow> bool) \<Rightarrow> nat \<Rightarrow> nat \<Rightarrow> 'a list \<Rightarrow> 'a list" where
  "exStep gt i j xs = (if gt (xs ! i) (xs ! j) then swapAt i j xs else xs)"

definition exSort :: "('a \<Rightarrow> 'a \<Rightarrow> bool) \<Rightarrow> 'a list \<Rightarrow> 'a list" where
  "exSort gt xs = fold (\<lambda>i. fold (exStep gt i) [i + 1..<length xs]) [0..<length xs - 1] xs"

locale exchange_order =
  fixes gt :: "'a \<Rightarrow> 'a \<Rightarrow> bool"
  assumes gt_asym: "gt x y \<Longrightarrow> \<not> gt y x"
    and gt_trans: "\<not> gt x y \<Longrightarrow> \<not> gt y z \<Longrightarrow> \<not> gt x z"
begin

lemma exStep_facts:
  assumes "i < j" "j < length xs"
  shows "length (exStep gt i j xs) = length xs" "mset (exStep gt i j xs) = mset xs"
    "k \<noteq> i \<Longrightarrow> k \<noteq> j \<Longrightarrow> exStep gt i j xs ! k = xs ! k"
    "\<not> gt (exStep gt i j xs ! i) (exStep gt i j xs ! j)"
    "\<not> gt (exStep gt i j xs ! i) (xs ! i)"
  using assms gt_asym by (auto simp: exStep_def swapAt_def mset_swap nth_list_update)

lemma inner_sort:
  assumes "m \<le> length xs" "i < m"
  shows "length (fold (exStep gt i) [Suc i..<m] xs) = length xs \<and> mset (fold (exStep gt i) [Suc i..<m] xs) = mset xs \<and>
    (\<forall>k < i. fold (exStep gt i) [Suc i..<m] xs ! k = xs ! k) \<and>
    (\<forall>k. m \<le> k \<longrightarrow> fold (exStep gt i) [Suc i..<m] xs ! k = xs ! k) \<and>
    (\<forall>j. i < j \<and> j < m \<longrightarrow> \<not> gt (fold (exStep gt i) [Suc i..<m] xs ! i) (fold (exStep gt i) [Suc i..<m] xs ! j))"
  using assms(2,1)
proof (induction m rule: less_induct)
  case (less m)
  show ?case
  proof (cases "m = Suc i")
    case False
    then obtain m' where m': "m = Suc m'" "i < m'" using less.prems(1) by (cases m) auto
    define ys where "ys = fold (exStep gt i) [Suc i..<m'] xs"
    have ih: "length ys = length xs" "mset ys = mset xs" "\<forall>k < i. ys ! k = xs ! k" "\<forall>k. m' \<le> k \<longrightarrow> ys ! k = xs ! k"
      "\<forall>j. i < j \<and> j < m' \<longrightarrow> \<not> gt (ys ! i) (ys ! j)"
      using less.IH [of m'] m' less.prems by (simp_all add: ys_def)
    have e: "fold (exStep gt i) [Suc i..<m] xs = exStep gt i m' ys" using m' by (simp add: ys_def)
    have l: "m' < length ys" using ih(1) m' less.prems(2) by simp
    note f = exStep_facts [OF m'(2) l]
    have "\<not> gt (exStep gt i m' ys ! i) (exStep gt i m' ys ! j)" if "i < j" "j < m" for j
    proof (cases "j = m'")
      case True
      then show ?thesis using f(4) by simp
    next
      case False
      then have "\<not> gt (ys ! i) (ys ! j)" "exStep gt i m' ys ! j = ys ! j" using f(3) [of j] ih(5) that m' by auto
      then show ?thesis using gt_trans [OF f(5)] by simp
    qed
    then show ?thesis unfolding e using f(1-3) ih m' by auto
  qed auto
qed

definition top :: "nat \<Rightarrow> 'a list \<Rightarrow> bool" where
  "top n xs \<longleftrightarrow> (\<forall>a b. a < n \<and> a < b \<and> b < length xs \<longrightarrow> \<not> gt (xs ! a) (xs ! b))"

lemma outer_sort:
  "n \<le> length xs - 1 \<Longrightarrow> mset (fold (\<lambda>i. fold (exStep gt i) [i + 1..<length xs]) [0..<n] xs) = mset xs \<and>
    top n (fold (\<lambda>i. fold (exStep gt i) [i + 1..<length xs]) [0..<n] xs)"
proof (induction n)
  case (Suc n)
  define ys where "ys = fold (\<lambda>i. fold (exStep gt i) [i + 1..<length xs]) [0..<n] xs"
  define zs where "zs = fold (exStep gt n) [Suc n..<length xs] ys"
  have ys: "mset ys = mset xs" "top n ys" using Suc by (simp_all add: ys_def)
  have l: "length ys = length xs" using ys(1) by (rule mset_eq_length)
  have "n < length ys" using Suc.prems l by linarith
  from inner_sort [OF order_refl this] have z: "length zs = length ys" "mset zs = mset ys" "\<forall>k < n. zs ! k = ys ! k"
    "\<forall>j. n < j \<and> j < length ys \<longrightarrow> \<not> gt (zs ! n) (zs ! j)"
    by (simp_all add: zs_def l)
  have "take n zs = take n ys" using z(1,3) by (auto simp: list_eq_iff_nth_eq)
  then have "mset (drop n zs) = mset (drop n ys)"
    using z(2) by (metis append_take_drop_id add_left_cancel mset_append)
  then have d: "set (drop n zs) = set (drop n ys)" by (metis set_mset_mset)
  have "\<not> gt (zs ! a) (zs ! b)" if ab: "a < Suc n" "a < b" "b < length zs" for a b
  proof (cases "a = n")
    case False
    then have a: "a < n" using ab by simp
    show ?thesis
    proof (cases "b < n")
      case False
      then have n: "n \<le> b" by simp
      have "b - n < length (drop n zs)" using ab n by (simp add: diff_less_mono)
      moreover have "drop n zs ! (b - n) = zs ! b" using ab n by simp
      ultimately have "zs ! b \<in> set (drop n ys)" unfolding d [symmetric] by (metis nth_mem)
      then obtain k where "k < length (drop n ys)" "drop n ys ! k = zs ! b" by (auto simp: in_set_conv_nth)
      then have "zs ! b = ys ! (n + k)" "n + k < length ys" by simp_all
      then show ?thesis using ys(2) a z(3) by (simp add: top_def)
    qed (use ys(2) a ab z(1,3) in \<open>simp add: top_def\<close>)
  qed (use z(1,4) ab in simp)
  then have "top (Suc n) zs" by (simp add: top_def)
  moreover have "fold (\<lambda>i. fold (exStep gt i) [i + 1..<length xs]) [0..<Suc n] xs = zs" by (simp add: zs_def ys_def)
  ultimately show ?case using z(2) ys(1) by simp
qed (simp add: top_def)

lemma exSort_ok: "mset (exSort gt xs) = mset xs" "sorted_wrt (\<lambda>x y. \<not> gt x y) (exSort gt xs)"
proof -
  have s: "mset (exSort gt xs) = mset xs" "top (length xs - 1) (exSort gt xs)"
    using outer_sort [of "length xs - 1" xs] by (simp_all add: exSort_def)
  show "mset (exSort gt xs) = mset xs" by (rule s(1))
  have "length (exSort gt xs) = length xs" using s(1) by (rule mset_eq_length)
  then show "sorted_wrt (\<lambda>x y. \<not> gt x y) (exSort gt xs)" using s(2) by (auto simp: sorted_wrt_iff_nth_less top_def)
qed

end

end
