(* ===== verification/Ext_Store.thy ===== *)
theory Ext_Store
  imports Code_Search Exchange_Sort
begin

text \<open>
  The in-memory store of extensions, \<open>internal/repo/repository.go\<close> and \<open>extension.go\<close>.

  \<open>List\<close> is a map from slugs to extensions.  Extensions share the objects that hold an index by
  pointer, so these objects are in a heap and an extension has an address; a store also has the
  indexes that wait to be closed.  The database is an argument: the code gives it the commands of type
  \<open>dbcmd\<close> and asks the queries of type \<open>dbquery\<close>.  So are the file system under the index directory, the
  subprocess that downloads and indexes, and the cache.  The order in which Go goes through a map is an
  argument too, a list of the keys.  Logging and locks are left out: every operation under one lock is one step.
\<close>

section \<open>Extensions and errors\<close>

datatype etype = TypePlugins | TypeThemes | TypeCores

definition typeName :: "etype \<Rightarrow> gostr" where
  "typeName t = bytes_of (case t of TypePlugins \<Rightarrow> ''plugins'' | TypeThemes \<Rightarrow> ''themes'' | TypeCores \<Rightarrow> ''cores'')"

definition SourceWordPress :: gostr where "SourceWordPress = bytes_of ''wordpress.org''"

datatype sentinel = ErrNoIndex | ErrExtNotFound | ErrEmptySlug | ErrIndexNotReady | ErrDownloadNotFound
  | ErrDownloadSkipped | ErrDownloadUnavailable

text \<open>An error is a sentinel, a text, or a text around the error it wraps.\<close>

datatype gerr = Sentinel sentinel | ErrText gostr | Wrapped gostr gerr

fun errorsIs :: "gerr \<Rightarrow> sentinel \<Rightarrow> bool" where
  "errorsIs (Sentinel s) t \<longleftrightarrow> s = t"
| "errorsIs (ErrText m) t \<longleftrightarrow> False"
| "errorsIs (Wrapped m e) t \<longleftrightarrow> errorsIs e t"

record ext =
  eSlug :: gostr
  eSource :: gostr
  eName :: gostr
  eVersion :: gostr
  eDownloadLink :: gostr
  eActiveInstalls :: int
  eDownloaded :: int
  eIE :: "nat option"

text \<open>An open index: its directory and what is mapped; \<open>Close\<close> takes the latter away.\<close>

record xindex =
  xiDir :: gostr
  xiIdx :: "index option"

record fileStat =
  fsPath :: gostr
  fsSize :: int

record extractStats =
  xsFileCount :: int
  xsTextFileCount :: int
  xsTotalSize :: int
  xsLargestFiles :: "fileStat list"

section \<open>The database\<close>

datatype dbval = VText gostr | VInt int | VNow | VPlusOne gostr | VFiles "fileStat list"

type_synonym dbrow = "(gostr \<times> dbval) list"

datatype dbcmd = DbUpdate gostr dbrow dbrow | DbDelete gostr dbrow | DbCreate gostr "dbrow list"

datatype dbquery = PluckClosed gostr gostr | PluckStale gostr gostr int int

record 'db dbops =
  dbExec :: "dbcmd \<Rightarrow> 'db \<Rightarrow> bool \<times> 'db"
  dbPluck :: "dbquery \<Rightarrow> 'db \<Rightarrow> gostr list"

definition maxTotalRetries :: int where "maxTotalRetries = 15"

section \<open>The store\<close>

datatype cacheVal = CStats int nat | CStatus "gostr \<rightharpoonup> bool" | COther

record 'db estore =
  stType :: etype
  stList :: "gostr \<rightharpoonup> ext"
  stTotal :: int
  stIEs :: "xindex option list"
  stClosing :: "xindex list"
  stCache :: "(gostr \<rightharpoonup> cacheVal) option"
  stDB :: 'db

definition NewExtensionStore :: "etype \<Rightarrow> (gostr \<rightharpoonup> cacheVal) option \<Rightarrow> 'db \<Rightarrow> 'db estore" where
  "NewExtensionStore t c db = \<lparr>stType = t, stList = (\<lambda>_. None), stTotal = 0, stIEs = [], stClosing = [],
     stCache = c, stDB = db\<rparr>"

definition NewIndexedExtension :: "'db estore \<Rightarrow> nat \<times> 'db estore" where
  "NewIndexedExtension s = (length (stIEs s), s\<lparr>stIEs := stIEs s @ [None]\<rparr>)"

definition cacheGet :: "gostr \<Rightarrow> 'db estore \<Rightarrow> cacheVal option" where
  "cacheGet k s = (case stCache s of None \<Rightarrow> None | Some c \<Rightarrow> c k)"

definition cacheSet :: "gostr \<Rightarrow> cacheVal \<Rightarrow> 'db estore \<Rightarrow> 'db estore" where
  "cacheSet k v s = s\<lparr>stCache := map_option (\<lambda>c. c(k \<mapsto> v)) (stCache s)\<rparr>"

definition cacheDelete :: "gostr \<Rightarrow> 'db estore \<Rightarrow> 'db estore" where
  "cacheDelete k s = s\<lparr>stCache := map_option (\<lambda>c. c(k := None)) (stCache s)\<rparr>"

definition statsKey :: "'db estore \<Rightarrow> gostr" where
  "statsKey s = bytes_of ''stats:'' @ typeName (stType s)"

definition statusKey :: "'db estore \<Rightarrow> gostr" where
  "statusKey s = bytes_of ''index_status:'' @ typeName (stType s)"

text \<open>The methods of \<open>IndexedExtension\<close>; a nil pointer panics.\<close>

definition ieHasIndex :: "nat option \<Rightarrow> 'db estore \<Rightarrow> bool res" where
  "ieHasIndex p s = (case p of None \<Rightarrow> Inl Panic | Some a \<Rightarrow> Inr (stIEs s ! a \<noteq> None))"

definition ieGetIndex :: "nat option \<Rightarrow> 'db estore \<Rightarrow> xindex option res" where
  "ieGetIndex p s = (case p of None \<Rightarrow> Inl Panic | Some a \<Rightarrow> Inr (stIEs s ! a))"

definition scheduleIndexClose :: "xindex \<Rightarrow> 'db estore \<Rightarrow> 'db estore" where
  "scheduleIndexClose x s = s\<lparr>stClosing := stClosing s @ [x]\<rparr>"

definition ieUpdateIndex :: "nat option \<Rightarrow> xindex \<Rightarrow> 'db estore \<Rightarrow> 'db estore res" where
  "ieUpdateIndex p idx s = (case p of None \<Rightarrow> Inl Panic
     | Some a \<Rightarrow> let s1 = s\<lparr>stIEs := (stIEs s)[a := Some idx]\<rparr>
         in Inr (case stIEs s ! a of None \<Rightarrow> s1 | Some old \<Rightarrow> scheduleIndexClose old s1))"

definition ieSearchCompiled :: "golib \<Rightarrow> fs \<Rightarrow> compiledSearch \<Rightarrow> nat option \<Rightarrow> 'db estore \<Rightarrow>
    (goerr + searchResponse option) res option" where
  "ieSearchCompiled lib fs cs p s = (case p of None \<Rightarrow> Some (Inl Panic)
     | Some a \<Rightarrow> (case stIEs s ! a of None \<Rightarrow> Some (Inr (Inl ''extension has no index''))
         | Some x \<Rightarrow> SearchCompiled lib fs cs (xiIdx x)))"

definition hasIndex :: "ext \<Rightarrow> 'db estore \<Rightarrow> bool" where
  "hasIndex e s = (case eIE e of None \<Rightarrow> False | Some a \<Rightarrow> stIEs s ! a \<noteq> None)"

section \<open>Reading and changing the list\<close>

definition Exists :: "gostr \<Rightarrow> 'db estore \<Rightarrow> bool" where
  "Exists slug s \<longleftrightarrow> stList s slug \<noteq> None"

definition Get :: "gostr \<Rightarrow> 'db estore \<Rightarrow> ext option" where
  "Get slug s = stList s slug"

definition mapSize :: "(gostr \<rightharpoonup> 'a) \<Rightarrow> int" where
  "mapSize m = int (card (dom m))"

definition Set :: "gostr \<Rightarrow> ext \<Rightarrow> 'db estore \<Rightarrow> 'db estore" where
  "Set slug e s = (let l = (stList s)(slug \<mapsto> e) in s\<lparr>stList := l, stTotal := mapSize l\<rparr>)"

definition Unlist :: "gostr \<Rightarrow> 'db estore \<Rightarrow> 'db estore" where
  "Unlist slug s = (let l = (stList s)(slug := None) in s\<lparr>stList := l, stTotal := mapSize l\<rparr>)"

definition idCol :: "etype \<Rightarrow> gostr" where
  "idCol t = (if t = TypeCores then bytes_of ''version'' else bytes_of ''slug'')"

definition runDB :: "'db dbops \<Rightarrow> dbcmd \<Rightarrow> 'db estore \<Rightarrow> bool \<times> 'db estore" where
  "runDB ops c s = (let (err, db) = dbExec ops c (stDB s) in (err, s\<lparr>stDB := db\<rparr>))"

definition Remove :: "'db dbops \<Rightarrow> gostr \<Rightarrow> 'db estore \<Rightarrow> 'db estore" where
  "Remove ops slug s = (let s1 = Unlist slug s
     in snd (runDB ops (DbDelete (typeName (stType s)) [(idCol (stType s), VText slug)]) s1))"

definition LoadFromDB :: "gerr + ext list \<Rightarrow> 'db estore \<Rightarrow> gerr option \<times> 'db estore" where
  "LoadFromDB loaded s = (case loaded of
       Inl err \<Rightarrow> (Some err, s)
     | Inr exts \<Rightarrow> (None, s\<lparr>stList := fold (\<lambda>e l. l(eSlug e \<mapsto> e)) exts (stList s), stTotal := int (length exts)\<rparr>))"

definition Stats :: "gostr list \<Rightarrow> 'db estore \<Rightarrow> (int \<times> nat) \<times> 'db estore" where
  "Stats keys s = (case cacheGet (statsKey s) s of
       Some (CStats tot indexed) \<Rightarrow> ((tot, indexed), s)
     | _ \<Rightarrow> let tot = stTotal s;
               indexed = length (filter (\<lambda>k. case stList s k of None \<Rightarrow> False | Some e \<Rightarrow> hasIndex e s) keys)
           in ((tot, indexed), cacheSet (statsKey s) (CStats tot indexed) s))"

definition IndexStatus :: "'db estore \<Rightarrow> (gostr \<rightharpoonup> bool) \<times> 'db estore" where
  "IndexStatus s = (case cacheGet (statusKey s) s of
       Some (CStatus m) \<Rightarrow> (m, s)
     | _ \<Rightarrow> let m = (\<lambda>slug. map_option (\<lambda>e. hasIndex e s) (stList s slug))
           in (m, cacheSet (statusKey s) (CStatus m) s))"

definition UpdateIndex :: "xindex \<Rightarrow> gostr \<Rightarrow> 'db estore \<Rightarrow> (gerr option \<times> 'db estore) res" where
  "UpdateIndex idx slug s = (case stList s slug of
       None \<Rightarrow> Inr (Some (Sentinel ErrExtNotFound), s)
     | Some e \<Rightarrow> rbind (ieUpdateIndex (eIE e) idx s) (\<lambda>s1.
         Inr (None, cacheDelete (statusKey s1) (cacheDelete (statsKey s1) s1))))"

definition GetAll :: "gostr list \<Rightarrow> 'db estore \<Rightarrow> ext list" where
  "GetAll keys s = List.map_filter (stList s) keys"

definition GetExtension :: "gostr \<Rightarrow> 'db estore \<Rightarrow> ext option" where
  "GetExtension slug s = Get slug s"

section \<open>Loading the indexes from disk\<close>

definition isDigit :: "byte \<Rightarrow> bool" where
  "isDigit c \<longleftrightarrow> 0x30 \<le> c \<and> c \<le> 0x39"

definition isTimestampSuffix :: "gostr \<Rightarrow> bool" where
  "isTimestampSuffix s \<longleftrightarrow> length s \<ge> 9 \<and> list_all isDigit s"

text \<open>\<open>strconv.ParseInt\<close> of digits, to 64 bits.\<close>

definition parseDigits :: "gostr \<Rightarrow> int option" where
  "parseDigits s = (let n = foldl (\<lambda>n c. 10 * n + (uint c - 0x30)) 0 s in if n < 2 ^ 63 then Some n else None)"

record indexInfo =
  iiPath :: gostr
  iiTimestamp :: int

definition parseIndexName :: "gostr \<Rightarrow> gostr \<times> int" where
  "parseIndexName name =
     (let idx = lastIndexByte 0x2E name in
      if idx > 0 \<and> isTimestampSuffix (drop (nat idx + 1) name)
      then (case parseDigits (drop (nat idx + 1) name) of
              Some ts \<Rightarrow> (take (nat idx) name, ts) | None \<Rightarrow> (name, 0))
      else (name, 0))"

definition joinPath :: "gostr \<Rightarrow> gostr \<Rightarrow> gostr" where
  "joinPath d f = d @ [0x2F] @ f"

text \<open>The dirEntries of the directory, those that are directories, by slug.\<close>

definition groupIndexes :: "gostr \<Rightarrow> (gostr \<times> bool) list \<Rightarrow> (gostr \<times> indexInfo) list" where
  "groupIndexes indexDir dirs = map (\<lambda>(name, _). let (slug, ts) = parseIndexName name
     in (slug, \<lparr>iiPath = joinPath indexDir name, iiTimestamp = ts\<rparr>)) (filter snd dirs)"

definition sortStep :: "nat \<Rightarrow> nat \<Rightarrow> indexInfo list \<Rightarrow> indexInfo list" where
  "sortStep i j xs = (if iiTimestamp (xs ! j) > iiTimestamp (xs ! i) then swapAt i j xs else xs)"

definition sortIndexes :: "indexInfo list \<Rightarrow> indexInfo list" where
  "sortIndexes xs = fold (\<lambda>i. fold (sortStep i) [i + 1..<length xs]) [0..<length xs - 1] xs"

text \<open>The first index that opens; those before it are removed.\<close>

fun tryOpen :: "(gostr \<Rightarrow> xindex option) \<Rightarrow> indexInfo list \<Rightarrow> (xindex \<times> gostr) option \<times> gostr list" where
  "tryOpen opn [] = (None, [])"
| "tryOpen opn (i # is) = (case opn (iiPath i) of
       Some x \<Rightarrow> (Some (x, iiPath i), [])
     | None \<Rightarrow> let (r, removed) = tryOpen opn is in (r, iiPath i # removed))"

text \<open>One slug: the store afterwards, the paths that were removed and whether an index was loaded.\<close>

definition loadSlug :: "(gostr \<Rightarrow> xindex option) \<Rightarrow> gostr \<Rightarrow> gostr \<Rightarrow> indexInfo list \<Rightarrow> 'db estore \<Rightarrow>
    ('db estore \<times> gostr list \<times> bool) res" where
  "loadSlug opn indexDir slug infos s =
     (let infos = sortIndexes infos; (r, removed) = tryOpen opn infos in
      case r of None \<Rightarrow> Inr (s, removed, False)
      | Some (x, loadedPath) \<Rightarrow>
          let canonical = joinPath indexDir slug;
              legacy = filter (\<lambda>p. p \<noteq> loadedPath \<and> p \<noteq> canonical) (map iiPath infos)
          in rbind (UpdateIndex x slug s) (\<lambda>(err, s1). Inr (s1, removed @ legacy, err = None)))"

fun loadSlugs :: "(gostr \<Rightarrow> xindex option) \<Rightarrow> gostr \<Rightarrow> (gostr \<times> indexInfo) list \<Rightarrow> gostr list \<Rightarrow>
    'db estore \<Rightarrow> gostr list \<Rightarrow> ('db estore \<times> gostr list) res" where
  "loadSlugs opn indexDir grps [] s removed = Inr (s, removed)"
| "loadSlugs opn indexDir grps (slug # slugs) s removed =
     rbind (loadSlug opn indexDir slug (map snd (filter (\<lambda>g. fst g = slug) grps)) s) (\<lambda>(s1, rm, _).
       loadSlugs opn indexDir grps slugs s1 (removed @ rm))"

definition LoadIndexes :: "(gostr \<Rightarrow> xindex option) \<Rightarrow> gostr \<Rightarrow> (goerr + (gostr \<times> bool) list) \<Rightarrow> gostr list \<Rightarrow>
    'db estore \<Rightarrow> ('db estore \<times> gostr list) res" where
  "LoadIndexes opn filesDir dirEntries order s =
     (let indexDir = joinPath filesDir (bytes_of ''index'') in
      case dirEntries of Inl err \<Rightarrow> Inr (s, [])
      | Inr dirs \<Rightarrow> loadSlugs opn indexDir (groupIndexes indexDir dirs) order s [])"

end
