(* ===== verification/Index_Task.thy ===== *)
theory Index_Task
  imports Ext_Store
begin

text \<open>
  The tasks of the store in \<open>internal/repo/repository.go\<close>: preparing updates, running the indexer with its
  fallbacks, and resuming what is not indexed.

  A task has the values its closure captures.  The subprocess is an argument, \<open>proc k slug url\<close> for its
  \<open>k\<close>-th run in the task, as are the decoding of its JSON line and the opening of an index.
\<close>

section \<open>The indexer process\<close>

definition ExitDownloadNotFound :: int where "ExitDownloadNotFound = 2"
definition ExitDownloadUnavailable :: int where "ExitDownloadUnavailable = 3"

text \<open>How the command failed: an exit code if it ran, and the text of the error.\<close>

record procErr =
  peExitCode :: "int option"
  peText :: gostr

record procResult =
  prErr :: "procErr option"
  prStdout :: gostr
  prStderr :: gostr

record indexerResult =
  irIndexPath :: gostr
  irStats :: "extractStats option"

definition isSpaceByte :: "byte \<Rightarrow> bool" where
  "isSpaceByte c \<longleftrightarrow> c \<in> {0x09, 0x0A, 0x0B, 0x0C, 0x0D, 0x20}"

text \<open>\<open>strings.TrimSpace\<close>, of the spaces of ASCII.\<close>

definition trimSpace :: "gostr \<Rightarrow> gostr" where
  "trimSpace s = rev (dropWhile isSpaceByte (rev (dropWhile isSpaceByte s)))"

definition downloadFailed :: "gerr option \<Rightarrow> bool" where
  "downloadFailed e = (case e of None \<Rightarrow> False
     | Some err \<Rightarrow> errorsIs err ErrDownloadNotFound \<or> errorsIs err ErrDownloadUnavailable)"

definition indexerError :: "procErr \<Rightarrow> gostr \<Rightarrow> gerr" where
  "indexerError err stderr =
     (let detail = trimPrefix (bytes_of ''veloria: error: '') (trimSpace stderr) in
      if peExitCode err = Some ExitDownloadNotFound then Sentinel ErrDownloadNotFound
      else if peExitCode err = Some ExitDownloadUnavailable then Wrapped detail (Sentinel ErrDownloadUnavailable)
      else ErrText (if detail = [] then peText err else detail))"

text \<open>The lines of \<open>bufio.Scanner\<close>: without the line end, and only up to a line that does not fit its buffer.\<close>

definition dropCR :: "gostr \<Rightarrow> gostr" where
  "dropCR l = (if l \<noteq> [] \<and> last l = 13 then butlast l else l)"

definition scanLines :: "gostr \<Rightarrow> gostr list" where
  "scanLines b = map dropCR (takeWhile (\<lambda>l. length l < 65536)
     (let ls = segs b in if last ls = [] then butlast ls else ls))"

definition resultLine :: "(gostr \<Rightarrow> extractStats option) \<Rightarrow> gostr \<Rightarrow> indexerResult \<Rightarrow> indexerResult" where
  "resultLine unmarshal line r =
     (case cutPrefix (bytes_of ''INDEX_READY:'') line of
        Some after \<Rightarrow> r\<lparr>irIndexPath := after\<rparr>
      | None \<Rightarrow> (case cutPrefix (bytes_of ''EXTRACT_STATS:'') line of
            Some after \<Rightarrow> (case unmarshal after of Some stats \<Rightarrow> r\<lparr>irStats := Some stats\<rparr> | None \<Rightarrow> r)
          | None \<Rightarrow> r))"

definition runIndexer :: "(gostr \<Rightarrow> extractStats option) \<Rightarrow> (gostr \<Rightarrow> gostr \<Rightarrow> procResult) \<Rightarrow> gostr \<Rightarrow> gostr \<Rightarrow>
    gerr + indexerResult" where
  "runIndexer unmarshal cmd slug url =
     (let r = cmd slug url in
      case prErr r of Some err \<Rightarrow> Inl (indexerError err (prStderr r))
      | None \<Rightarrow>
          let result = fold (resultLine unmarshal) (scanLines (prStdout r)) \<lparr>irIndexPath = [], irStats = None\<rparr>
          in if irIndexPath result = [] then Inl (Sentinel ErrIndexNotReady) else Inr result)"

section \<open>Recording in the database\<close>

text \<open>The row of an extension; cores have no source.\<close>

definition rowOf :: "etype \<Rightarrow> gostr \<Rightarrow> gostr \<Rightarrow> dbrow" where
  "rowOf t slug source = (idCol t, VText slug) # (if t \<noteq> TypeCores then [(bytes_of ''source'', VText source)] else [])"

definition dbSet :: "'db dbops \<Rightarrow> dbrow \<Rightarrow> dbrow \<Rightarrow> 'db estore \<Rightarrow> bool \<times> 'db estore" where
  "dbSet ops wh vals s = runDB ops (DbUpdate (typeName (stType s)) wh vals) s"

definition markClosed :: "'db dbops \<Rightarrow> gostr \<Rightarrow> gostr \<Rightarrow> 'db estore \<Rightarrow> 'db estore" where
  "markClosed ops slug source s = snd (dbSet ops (rowOf (stType s) slug source) [(bytes_of ''closed_at'', VNow)] s)"

definition RecordIndexSuccess :: "'db dbops \<Rightarrow> gostr \<Rightarrow> 'db estore \<Rightarrow> 'db estore" where
  "RecordIndexSuccess ops slug s = snd (dbSet ops [(idCol (stType s), VText slug)]
     [(bytes_of ''index_status'', VText (bytes_of ''indexed'')), (bytes_of ''indexed_at'', VNow),
      (bytes_of ''retry_count'', VInt 0), (bytes_of ''last_attempt_at'', VNow)] s)"

definition RecordIndexFailure :: "'db dbops \<Rightarrow> gostr \<Rightarrow> 'db estore \<Rightarrow> 'db estore" where
  "RecordIndexFailure ops slug s = snd (dbSet ops [(idCol (stType s), VText slug)]
     [(bytes_of ''index_status'', VText (bytes_of ''failed'')), (bytes_of ''last_attempt_at'', VNow),
      (bytes_of ''retry_count'', VPlusOne (bytes_of ''retry_count''))] s)"

definition largestKey :: "'db estore \<Rightarrow> string \<Rightarrow> gostr" where
  "largestKey s col = bytes_of ''largest:'' @ typeName (stType s) @ bytes_of (CHR '':'' # col)"

definition updateMetadata :: "'db dbops \<Rightarrow> gostr \<Rightarrow> gostr \<Rightarrow> dbrow \<Rightarrow> 'db estore \<Rightarrow> 'db estore" where
  "updateMetadata ops slug source updates s =
     (let (err, s1) = dbSet ops (rowOf (stType s) slug source) updates s in
      if err then s1
      else cacheDelete (largestKey s ''file_count'') (cacheDelete (largestKey s ''total_size'') (cacheDelete (statsKey s) s1)))"

definition saveLargestRepoFiles :: "'db dbops \<Rightarrow> gostr \<Rightarrow> gostr \<Rightarrow> fileStat list \<Rightarrow> 'db estore \<Rightarrow> 'db estore" where
  "saveLargestRepoFiles ops slug nm files s =
     (let t = VText (typeName (stType s));
          (err, s1) = runDB ops (DbDelete (bytes_of ''largest_repo_files'')
            [(bytes_of ''repo_type'', t), (bytes_of ''slug'', VText slug)]) s in
      if err then s1
      else if length files = 0 then s1
      else snd (runDB ops (DbCreate (bytes_of ''largest_repo_files'')
        (map (\<lambda>f. [(bytes_of ''repo_type'', t), (bytes_of ''slug'', VText slug), (bytes_of ''name'', VText nm),
                  (bytes_of ''path'', VText (fsPath f)), (bytes_of ''size'', VInt (fsSize f))]) files)) s1))"

definition saveExtractStats :: "'db dbops \<Rightarrow> gostr \<Rightarrow> gostr \<Rightarrow> gostr \<Rightarrow> extractStats \<Rightarrow> 'db estore \<Rightarrow> 'db estore" where
  "saveExtractStats ops slug source nm stats s =
     saveLargestRepoFiles ops slug nm (xsLargestFiles stats)
       (snd (dbSet ops (rowOf (stType s) slug source)
         [(bytes_of ''file_count'', VInt (xsFileCount stats)), (bytes_of ''total_size'', VInt (xsTotalSize stats)),
          (bytes_of ''largest_files'', VFiles (xsLargestFiles stats))] s))"

section \<open>Tasks\<close>

record task =
  tkType :: etype
  tkSlug :: gostr
  tkExt :: ext
  tkSource :: gostr

definition makeIndexTask :: "etype \<Rightarrow> ext \<Rightarrow> gostr \<Rightarrow> gostr \<Rightarrow> task" where
  "makeIndexTask t e slug source = \<lparr>tkType = t, tkSlug = slug, tkExt = e, tkSource = source\<rparr>"

definition MakeReindexTask :: "ext \<Rightarrow> 'db estore \<Rightarrow> task" where
  "MakeReindexTask e s = makeIndexTask (stType s) e (eSlug e) (eSource e)"

definition MakeReindexTaskBySlug :: "gostr \<Rightarrow> 'db estore \<Rightarrow> task option" where
  "MakeReindexTaskBySlug slug s = map_option (\<lambda>e. MakeReindexTask e s) (Get slug s)"

definition wordpressDownloadURL :: "etype \<Rightarrow> gostr \<Rightarrow> gostr \<Rightarrow> gostr" where
  "wordpressDownloadURL t slug version =
     (case t of TypeCores \<Rightarrow> []
      | _ \<Rightarrow> let base = bytes_of (if t = TypePlugins then ''https://downloads.wordpress.org/plugin/''
                   else ''https://downloads.wordpress.org/theme/'')
            in if version = [] then base @ slug @ bytes_of ''.zip''
               else base @ slug @ bytes_of ''.'' @ version @ bytes_of ''.zip'')"

text \<open>One fallback: the run, or nothing, and what was tried so far.\<close>

type_synonym runner = "nat \<Rightarrow> gostr \<Rightarrow> gostr \<Rightarrow> gerr + indexerResult"
type_synonym tried = "gostr list \<times> (gerr + indexerResult)"

definition errOf :: "'e + 'a \<Rightarrow> 'e option" where
  "errOf r = (case r of Inl e \<Rightarrow> Some e | Inr _ \<Rightarrow> None)"

definition tryFallback :: "runner \<Rightarrow> task \<Rightarrow> gostr \<Rightarrow> tried \<Rightarrow> tried" where
  "tryFallback run tk url r =
     (if downloadFailed (errOf (snd r)) \<and> tkSource tk = SourceWordPress \<and> url \<noteq> [] \<and> url \<noteq> eDownloadLink (tkExt tk)
      then (fst r @ [url], run (length (fst r)) (tkSlug tk) url)
      else r)"

definition runURLs :: "runner \<Rightarrow> task \<Rightarrow> tried" where
  "runURLs run tk =
     (let primary = eDownloadLink (tkExt tk);
          r0 = ([primary], run 0 (tkSlug tk) primary);
          r1 = tryFallback run tk (wordpressDownloadURL (tkType tk) (tkSlug tk) (eVersion (tkExt tk))) r0
      in tryFallback run tk (wordpressDownloadURL (tkType tk) (tkSlug tk) []) r1)"

text \<open>What the task returns: \<open>None\<close> is no error.\<close>

definition failTask :: "'db dbops \<Rightarrow> task \<Rightarrow> gerr \<Rightarrow> gerr \<Rightarrow> 'db estore \<Rightarrow> (gerr option \<times> 'db estore) res" where
  "failTask ops tk primaryErr err s =
     (if errorsIs primaryErr ErrDownloadNotFound \<and> errorsIs err ErrDownloadNotFound
      then rbind (ieHasIndex (eIE (tkExt tk)) s) (\<lambda>has.
        let s1 = (if has then s else Unlist (tkSlug tk) s)
        in Inr (Some (Sentinel ErrDownloadSkipped), markClosed ops (tkSlug tk) (tkSource tk) s1))
      else Inr (Some (if errorsIs primaryErr ErrDownloadUnavailable \<and> \<not> errorsIs err ErrDownloadUnavailable
                      then Wrapped (bytes_of ''fallback'') primaryErr else err), s))"

definition finishTask :: "'db dbops \<Rightarrow> (gostr \<Rightarrow> xindex option) \<Rightarrow> task \<Rightarrow> indexerResult \<Rightarrow> 'db estore \<Rightarrow>
    (gerr option \<times> 'db estore) res" where
  "finishTask ops opn tk result s =
     (let s1 = (case irStats result of None \<Rightarrow> s
            | Some stats \<Rightarrow> saveExtractStats ops (tkSlug tk) (tkSource tk) (eName (tkExt tk)) stats s)
      in case opn (irIndexPath result) of
           None \<Rightarrow> Inr (Some (ErrText (bytes_of ''failed to open new index at '' @ irIndexPath result)), s1)
         | Some x \<Rightarrow> rbind (UpdateIndex x (tkSlug tk) s1) (\<lambda>(err, s2).
             Inr (map_option (Wrapped (bytes_of ''failed to update index'')) err, s2)))"

definition runTask :: "'db dbops \<Rightarrow> (gostr \<Rightarrow> xindex option) \<Rightarrow> runner \<Rightarrow> task \<Rightarrow> 'db estore \<Rightarrow>
    (gerr option \<times> 'db estore) res" where
  "runTask ops opn run tk s =
     (case snd (runURLs run tk) of
        Inl err \<Rightarrow> (case run 0 (tkSlug tk) (eDownloadLink (tkExt tk)) of
            Inl primaryErr \<Rightarrow> failTask ops tk primaryErr err s
          | Inr _ \<Rightarrow> Inr (Some err, s))
      | Inr result \<Rightarrow> finishTask ops opn tk result s)"

section \<open>Updates\<close>

text \<open>One extension of a batch.  \<open>save\<close> is the function that stores it in the database, with its error.\<close>

record 'db batch =
  baStore :: "'db estore"
  baSeen :: "gostr set"
  baTasks :: "task list"

definition reuseIE :: "ext \<Rightarrow> 'db estore \<Rightarrow> ext \<times> 'db estore" where
  "reuseIE e s =
     (let e1 = (case Get (eSlug e) s of None \<Rightarrow> e
            | Some existing \<Rightarrow> (case eIE existing of None \<Rightarrow> e | Some a \<Rightarrow> e\<lparr>eIE := Some a\<rparr>))
      in case eIE e1 of Some _ \<Rightarrow> (e1, s)
         | None \<Rightarrow> let (a, s1) = NewIndexedExtension s in (e1\<lparr>eIE := Some a\<rparr>, s1))"

definition prepareOne :: "(ext \<Rightarrow> 'db \<Rightarrow> bool \<times> 'db) \<Rightarrow> ext \<Rightarrow> 'db batch \<Rightarrow> 'db batch" where
  "prepareOne save e b =
     (let slug = eSlug e; s = baStore b in
      if slug = [] then b
      else if slug \<in> baSeen b then b
      else if eDownloadLink e = [] then b
      else let (err, db) = save e (stDB s); s1 = s\<lparr>stDB := db\<rparr> in
        if err then b\<lparr>baStore := s1\<rparr>
        else let (e1, s2) = reuseIE e s1; s3 = Set slug e1 s2
             in \<lparr>baStore = s3, baSeen = insert slug (baSeen b),
                 baTasks = baTasks b @ [makeIndexTask (stType s) e1 slug (eSource e1)]\<rparr>)"

definition PrepareUpdates :: "(gerr + ext list) \<Rightarrow> (ext \<Rightarrow> 'db \<Rightarrow> bool \<times> 'db) \<Rightarrow> 'db estore \<Rightarrow>
    (gerr + task list) \<times> 'db estore" where
  "PrepareUpdates fetched save s =
     (case fetched of
        Inl err \<Rightarrow> (Inl (Wrapped (bytes_of ''failed to fetch'') err), s)
      | Inr exts \<Rightarrow>
          let b = fold (prepareOne save) exts \<lparr>baStore = s, baSeen = {}, baTasks = []\<rparr>
          in (Inr (baTasks b), baStore b))"

section \<open>Resuming\<close>

definition closedSlugs :: "'db dbops \<Rightarrow> 'db estore \<Rightarrow> gostr set" where
  "closedSlugs ops s = set (dbPluck ops (PluckClosed (typeName (stType s)) (idCol (stType s))) (stDB s))"

definition unindexedOf :: "gostr set \<Rightarrow> 'db estore \<Rightarrow> gostr list \<Rightarrow> ext list" where
  "unindexedOf closedSet s keys = filter (\<lambda>e. eSlug e \<notin> closedSet \<and> \<not> hasIndex e s \<and> eDownloadLink e \<noteq> []) (GetAll keys s)"

fun addStale :: "'db estore \<Rightarrow> gostr list \<Rightarrow> gostr set \<Rightarrow> ext list \<Rightarrow> ext list" where
  "addStale s [] seen acc = acc"
| "addStale s (slug # slugs) seen acc =
     (if slug \<in> seen then addStale s slugs seen acc
      else case stList s slug of
        Some e \<Rightarrow> if eDownloadLink e \<noteq> [] then addStale s slugs (insert slug seen) (acc @ [e])
                 else addStale s slugs seen acc
      | None \<Rightarrow> addStale s slugs seen acc)"

definition ResumeUnindexed :: "'db dbops \<Rightarrow> gostr list \<Rightarrow> 'db estore \<Rightarrow> task list" where
  "ResumeUnindexed ops keys s =
     (let un = unindexedOf (closedSlugs ops s) s keys;
          stale = dbPluck ops (PluckStale (typeName (stType s)) (idCol (stType s)) 3 maxTotalRetries) (stDB s);
          all = addStale s stale (set (map eSlug un)) un
      in map (\<lambda>e. makeIndexTask (stType s) e (eSlug e) (eSource e)) all)"

section \<open>Where the sources are\<close>

definition dirOf :: "gostr \<Rightarrow> gostr" where
  "dirOf p = (let i = lastIndexByte 0x2F p in if i < 0 then bytes_of ''.'' else take (nat i) p)"

definition baseOf :: "gostr \<Rightarrow> gostr" where
  "baseOf p = drop (nat (lastIndexByte 0x2F p + 1)) p"

definition SourceDir :: "xindex \<Rightarrow> gostr" where
  "SourceDir x = joinPath (joinPath (dirOf (dirOf (xiDir x))) (bytes_of ''source'')) (baseOf (xiDir x))"

definition ResolveSourceDir :: "gostr \<Rightarrow> 'db estore \<Rightarrow> gerr + gostr" where
  "ResolveSourceDir slug s = (case Get slug s of
       None \<Rightarrow> Inl (Sentinel ErrExtNotFound)
     | Some e \<Rightarrow> (case eIE e of None \<Rightarrow> Inl (Sentinel ErrNoIndex)
         | Some a \<Rightarrow> (case stIEs s ! a of None \<Rightarrow> Inl (Sentinel ErrNoIndex)
             | Some x \<Rightarrow> Inr (dirOf (SourceDir x)))))"

end
