(* ===== verification/Store_Correct.thy ===== *)
theory Store_Correct
  imports Index_Task "HOL-Library.Multiset"
begin

text \<open>
  What the store keeps: every listed extension is listed under its slug and has an index object of its
  own.  With it, an index that is available stays available through every task and every batch of updates.
\<close>

definition indexed :: "gostr \<Rightarrow> 'db estore \<Rightarrow> bool" where
  "indexed slug s \<longleftrightarrow> (\<exists>e. stList s slug = Some e \<and> hasIndex e s)"

definition ie_of :: "'db estore \<Rightarrow> gostr \<Rightarrow> nat option" where
  "ie_of s slug = (case stList s slug of None \<Rightarrow> None | Some e \<Rightarrow> eIE e)"

definition store_inv :: "'db estore \<Rightarrow> bool" where
  "store_inv s \<longleftrightarrow> finite (dom (stList s)) \<and>
     (\<forall>slug e. stList s slug = Some e \<longrightarrow> eSlug e = slug \<and> (\<exists>a. eIE e = Some a \<and> a < length (stIEs s))) \<and>
     (\<forall>slug slug' a. ie_of s slug = Some a \<longrightarrow> ie_of s slug' = Some a \<longrightarrow> slug = slug')"

text \<open>A task for an extension that, if it is still listed, has the index object of the task.\<close>

definition task_ok :: "task \<Rightarrow> 'db estore \<Rightarrow> bool" where
  "task_ok tk s \<longleftrightarrow> tkType tk = stType s \<and> tkSlug tk = eSlug (tkExt tk) \<and>
     (\<exists>a. eIE (tkExt tk) = Some a \<and> a < length (stIEs s) \<and> (\<forall>e. stList s (tkSlug tk) = Some e \<longrightarrow> eIE e = Some a))"

section \<open>What the operations leave alone\<close>

lemma cache_fields [simp]:
  "stList (cacheSet k v s) = stList s" "stIEs (cacheSet k v s) = stIEs s" "stType (cacheSet k v s) = stType s"
  "stTotal (cacheSet k v s) = stTotal s" "stList (cacheDelete k s) = stList s" "stIEs (cacheDelete k s) = stIEs s"
  "stType (cacheDelete k s) = stType s" "stTotal (cacheDelete k s) = stTotal s"
  by (simp_all add: cacheSet_def cacheDelete_def)

lemma db_fields [simp]:
  "stList (snd (runDB ops c s)) = stList s" "stIEs (snd (runDB ops c s)) = stIEs s"
  "stType (snd (runDB ops c s)) = stType s" "stTotal (snd (runDB ops c s)) = stTotal s"
  by (simp_all add: runDB_def split: prod.split)

lemma record_fields [simp]:
  "stList (snd (dbSet ops wh v s)) = stList s" "stIEs (snd (dbSet ops wh v s)) = stIEs s" "stType (snd (dbSet ops wh v s)) = stType s"
  "stList (markClosed ops sl so s) = stList s" "stIEs (markClosed ops sl so s) = stIEs s" "stType (markClosed ops sl so s) = stType s"
  by (simp_all add: dbSet_def markClosed_def)

lemma saveLargest_fields [simp]:
  "stList (saveLargestRepoFiles ops sl nm fs s) = stList s" "stIEs (saveLargestRepoFiles ops sl nm fs s) = stIEs s"
  "stType (saveLargestRepoFiles ops sl nm fs s) = stType s"
proof -
  obtain err s1 where r: "runDB ops (DbDelete (bytes_of ''largest_repo_files'')
     [(bytes_of ''repo_type'', VText (typeName (stType s))), (bytes_of ''slug'', VText sl)]) s = (err, s1)" by fastforce
  then have "stList s1 = stList s" "stIEs s1 = stIEs s" "stType s1 = stType s" using db_fields by (metis snd_conv)+
  then show "stList (saveLargestRepoFiles ops sl nm fs s) = stList s" "stIEs (saveLargestRepoFiles ops sl nm fs s) = stIEs s"
    "stType (saveLargestRepoFiles ops sl nm fs s) = stType s"
    by (simp_all add: saveLargestRepoFiles_def Let_def r)
qed

lemma saveStats_fields [simp]:
  "stList (saveExtractStats ops sl so nm x s) = stList s" "stIEs (saveExtractStats ops sl so nm x s) = stIEs s"
  "stType (saveExtractStats ops sl so nm x s) = stType s"
  by (simp_all add: saveExtractStats_def)

lemma hasIndex_cong: "stIEs s' = stIEs s \<Longrightarrow> hasIndex e s' = hasIndex e s"
  by (simp add: hasIndex_def cong: option.case_cong)

lemma store_invE:
  assumes "store_inv s" "stList s slug = Some e"
  obtains a where "eSlug e = slug" "eIE e = Some a" "a < length (stIEs s)"
  using assms unfolding store_inv_def by blast

lemma store_inv_cong:
  "stList s' = stList s \<Longrightarrow> stIEs s' = stIEs s \<Longrightarrow> store_inv s' = store_inv s"
  "stList s' = stList s \<Longrightarrow> stIEs s' = stIEs s \<Longrightarrow> indexed slug s' = indexed slug s"
  "stList s' = stList s \<Longrightarrow> stIEs s' = stIEs s \<Longrightarrow> stType s' = stType s \<Longrightarrow> task_ok tk s' = task_ok tk s"
  by (simp_all add: store_inv_def ie_of_def indexed_def task_ok_def hasIndex_cong [of s' s])

section \<open>Swapping an index\<close>

lemma ieUpdateIndex_ok:
  assumes "a < length (stIEs s)" "ieUpdateIndex (Some a) x s = Inr s'"
  shows "stList s' = stList s" "stType s' = stType s" "length (stIEs s') = length (stIEs s)"
    "hasIndex e s \<Longrightarrow> hasIndex e s'" "eIE e = Some a \<Longrightarrow> hasIndex e s'"
    "stClosing s' = stClosing s @ (case stIEs s ! a of None \<Rightarrow> [] | Some old \<Rightarrow> [old])"
  using assms
  by (auto simp: ieUpdateIndex_def scheduleIndexClose_def hasIndex_def Let_def nth_list_update split: option.splits)

lemma UpdateIndex_ok:
  assumes "store_inv s"
  obtains err s' where "UpdateIndex x slug s = Inr (err, s')" "store_inv s'" "stList s' = stList s" "stType s' = stType s"
    "length (stIEs s') = length (stIEs s)" "\<And>e. hasIndex e s \<Longrightarrow> hasIndex e s'"
    "err = None \<longleftrightarrow> stList s slug \<noteq> None" "err = None \<Longrightarrow> indexed slug s'"
    "err = None \<or> err = Some (Sentinel ErrExtNotFound)"
proof (cases "stList s slug")
  case None
  show thesis by (rule that [of "Some (Sentinel ErrExtNotFound)" s]) (use None assms in \<open>simp_all add: UpdateIndex_def\<close>)
next
  case (Some e)
  obtain a where a: "eIE e = Some a" "a < length (stIEs s)" by (rule store_invE [OF assms Some])
  obtain s1 where s1: "ieUpdateIndex (Some a) x s = Inr s1" by (simp add: ieUpdateIndex_def Let_def)
  note u = ieUpdateIndex_ok [OF a(2) s1]
  let ?s' = "cacheDelete (statusKey s1) (cacheDelete (statsKey s1) s1)"
  have h: "hasIndex f ?s' = hasIndex f s1" for f by (rule hasIndex_cong) simp
  have "store_inv ?s'" using assms u(1,3) by (simp add: store_inv_def ie_of_def)
  moreover have "indexed slug ?s'" using Some u(1) u(5) [OF a(1)] by (simp add: indexed_def h)
  ultimately show thesis
    by (intro that [of None ?s']) (use Some a s1 u in \<open>simp_all add: UpdateIndex_def h\<close>)
qed

section \<open>Running a task\<close>

lemma runURLs_tried:
  "\<exists>us. fst (runURLs run tk) = eDownloadLink (tkExt tk) # us \<and> length us \<le> 2 \<and>
     (us \<noteq> [] \<longrightarrow> tkSource tk = SourceWordPress \<and> downloadFailed (errOf (run 0 (tkSlug tk) (eDownloadLink (tkExt tk))))) \<and>
     eDownloadLink (tkExt tk) \<notin> set us \<and> [] \<notin> set us"
  unfolding runURLs_def Let_def tryFallback_def by auto

lemma runURLs_ok:
  "snd (runURLs run tk) = Inl err \<Longrightarrow> \<exists>e. run 0 (tkSlug tk) (eDownloadLink (tkExt tk)) = Inl e"
  unfolding runURLs_def Let_def tryFallback_def
  by (cases "run 0 (tkSlug tk) (eDownloadLink (tkExt tk))") (auto simp: errOf_def downloadFailed_def split: if_splits)

lemma indexed_Unlist:
  assumes "indexed sl s" "sl \<noteq> slug"
  shows "indexed sl (Unlist slug s)"
proof -
  have "hasIndex e (Unlist slug s) = hasIndex e s" for e by (rule hasIndex_cong) (simp add: Unlist_def Let_def)
  then show ?thesis using assms by (auto simp: indexed_def Unlist_def Let_def)
qed

lemma store_inv_Unlist: "store_inv s \<Longrightarrow> store_inv (Unlist slug s)"
  unfolding store_inv_def by (auto simp: Unlist_def Let_def ie_of_def split: if_splits)

text \<open>A task that need not be of the current batch.\<close>

definition task_wf :: "task \<Rightarrow> 'db estore \<Rightarrow> bool" where
  "task_wf tk s \<longleftrightarrow> tkType tk = stType s \<and> tkSlug tk = eSlug (tkExt tk) \<and>
     (\<exists>a. eIE (tkExt tk) = Some a \<and> a < length (stIEs s))"

lemma task_ok_wf: "task_ok tk s \<Longrightarrow> task_wf tk s"
  by (auto simp: task_ok_def task_wf_def)

lemma failTask_ok:
  assumes "store_inv s" "eIE (tkExt tk) = Some a"
  obtains err' s' where "failTask ops tk e err s = Inr (Some err', s')" "store_inv s'" "stType s' = stType s"
    "stIEs s' = stIEs s"
    "stList s' = stList s \<or> (errorsIs e ErrDownloadNotFound \<and> errorsIs err ErrDownloadNotFound \<and> stIEs s ! a = None \<and>
       stList s' = (stList s)(tkSlug tk := None) \<and> err' = Sentinel ErrDownloadSkipped)"
proof (cases "errorsIs e ErrDownloadNotFound \<and> errorsIs err ErrDownloadNotFound")
  case False
  then show thesis
    by (intro that [of "if errorsIs e ErrDownloadUnavailable \<and> \<not> errorsIs err ErrDownloadUnavailable
        then Wrapped (bytes_of ''fallback'') e else err" s]) (use assms in \<open>auto simp: failTask_def\<close>)
next
  case True
  define s1 where "s1 = (if stIEs s ! a \<noteq> None then s else Unlist (tkSlug tk) s)"
  let ?s' = "markClosed ops (tkSlug tk) (tkSource tk) s1"
  have "failTask ops tk e err s = Inr (Some (Sentinel ErrDownloadSkipped), ?s')"
    using True assms(2) by (simp add: failTask_def ieHasIndex_def s1_def)
  moreover have "store_inv s1" using assms(1) by (simp add: s1_def store_inv_Unlist)
  then have "store_inv ?s'" by (simp add: store_inv_cong(1) [of ?s' s1])
  ultimately show thesis
    by (intro that [of "Sentinel ErrDownloadSkipped" ?s']) (use True in \<open>simp_all add: s1_def Unlist_def Let_def\<close>)
qed

lemma finishTask_ok:
  assumes "store_inv s"
  obtains err s' where "finishTask ops opn tk result s = Inr (err, s')" "store_inv s'" "stType s' = stType s"
    "length (stIEs s') = length (stIEs s)" "stList s' = stList s"
    "\<And>slug. indexed slug s \<Longrightarrow> indexed slug s'" "err = None \<Longrightarrow> indexed (tkSlug tk) s'"
proof -
  define s1 where "s1 = (case irStats result of None \<Rightarrow> s
      | Some stats \<Rightarrow> saveExtractStats ops (tkSlug tk) (tkSource tk) (eName (tkExt tk)) stats s)"
  have f: "stList s1 = stList s" "stIEs s1 = stIEs s" "stType s1 = stType s" by (simp_all add: s1_def split: option.split)
  have i1: "store_inv s1" "\<And>sl. indexed sl s1 = indexed sl s" using store_inv_cong f assms by blast+
  show thesis
  proof (cases "opn (irIndexPath result)")
    case None
    show thesis
      by (rule that [of "Some (ErrText (bytes_of ''failed to open new index at '' @ irIndexPath result))" s1])
        (use None i1 f in \<open>simp_all add: finishTask_def s1_def [symmetric] Let_def\<close>)
  next
    case (Some x)
    obtain err s' where u: "UpdateIndex x (tkSlug tk) s1 = Inr (err, s')" "store_inv s'" "stList s' = stList s1" "stType s' = stType s1"
      "length (stIEs s') = length (stIEs s1)" "\<And>e. hasIndex e s1 \<Longrightarrow> hasIndex e s'"
      "err = None \<longleftrightarrow> stList s1 (tkSlug tk) \<noteq> None" "err = None \<Longrightarrow> indexed (tkSlug tk) s'"
      by (rule UpdateIndex_ok [OF i1(1)]) blast
    have "indexed sl s \<Longrightarrow> indexed sl s'" for sl using i1(2) [of sl] u(3,6) by (auto simp: indexed_def)
    then show thesis
      by (intro that [of "map_option (Wrapped (bytes_of ''failed to update index'')) err" s'])
        (use Some u f in \<open>simp_all add: finishTask_def s1_def [symmetric] Let_def\<close>)
  qed
qed

text \<open>Such a task never panics and keeps the structure.\<close>

lemma runTask_wf:
  assumes inv: "store_inv s" and tk: "task_wf tk s"
  obtains err s' where "runTask ops opn run tk s = Inr (err, s')" "store_inv s'" "stType s' = stType s"
    "length (stIEs s') = length (stIEs s)" "err = None \<Longrightarrow> indexed (tkSlug tk) s'"
proof (cases "snd (runURLs run tk)")
  case (Inl err)
  obtain e where e: "run 0 (tkSlug tk) (eDownloadLink (tkExt tk)) = Inl e" using runURLs_ok [OF Inl] by blast
  obtain a where a: "eIE (tkExt tk) = Some a" using tk by (auto simp: task_wf_def)
  obtain err' s' where s': "failTask ops tk e err s = Inr (Some err', s')" "store_inv s'" "stType s' = stType s" "stIEs s' = stIEs s"
    by (rule failTask_ok [OF inv a]) blast
  then have "runTask ops opn run tk s = Inr (Some err', s')" by (simp add: runTask_def Inl e)
  then show thesis using that s' by simp
next
  case (Inr result)
  obtain err s' where "finishTask ops opn tk result s = Inr (err, s')" "store_inv s'" "stType s' = stType s"
    "length (stIEs s') = length (stIEs s)" "err = None \<Longrightarrow> indexed (tkSlug tk) s'"
    by (rule finishTask_ok [OF inv]) blast
  then show thesis using that by (simp add: runTask_def Inr)
qed

lemma runTask_ok:
  assumes inv: "store_inv s" and tk: "task_ok tk s"
  obtains err s' where "runTask ops opn run tk s = Inr (err, s')" "store_inv s'" "stType s' = stType s"
    "length (stIEs s') = length (stIEs s)" "\<And>slug. indexed slug s \<Longrightarrow> indexed slug s'" "err = None \<Longrightarrow> indexed (tkSlug tk) s'"
    "stList s' = stList s \<or> (stList s' = (stList s)(tkSlug tk := None) \<and> \<not> indexed (tkSlug tk) s \<and>
       err = Some (Sentinel ErrDownloadSkipped) \<and>
       (\<exists>e e'. run 0 (tkSlug tk) (eDownloadLink (tkExt tk)) = Inl e \<and> errorsIs e ErrDownloadNotFound \<and>
              snd (runURLs run tk) = Inl e' \<and> errorsIs e' ErrDownloadNotFound))"
proof (cases "snd (runURLs run tk)")
  case (Inl err)
  obtain e where e: "run 0 (tkSlug tk) (eDownloadLink (tkExt tk)) = Inl e" using runURLs_ok [OF Inl] by blast
  obtain a where a: "eIE (tkExt tk) = Some a" "\<And>f. stList s (tkSlug tk) = Some f \<Longrightarrow> eIE f = Some a"
    using tk by (auto simp: task_ok_def)
  obtain err' s' where s': "failTask ops tk e err s = Inr (Some err', s')" "store_inv s'" "stType s' = stType s" "stIEs s' = stIEs s"
    "stList s' = stList s \<or> (errorsIs e ErrDownloadNotFound \<and> errorsIs err ErrDownloadNotFound \<and> stIEs s ! a = None \<and>
       stList s' = (stList s)(tkSlug tk := None) \<and> err' = Sentinel ErrDownloadSkipped)"
    by (rule failTask_ok [OF inv a(1)]) blast
  have h: "hasIndex f s' = hasIndex f s" for f by (rule hasIndex_cong) (rule s'(4))
  have "\<not> indexed (tkSlug tk) s" if "stIEs s ! a = None" using a(2) that by (auto simp: indexed_def hasIndex_def)
  then have "indexed sl s \<Longrightarrow> indexed sl s'" for sl using s'(5) by (cases "sl = tkSlug tk") (auto simp: indexed_def h)
  then show thesis
    by (intro that [of "Some err'" s']) (use s' e Inl \<open>stIEs s ! a = None \<Longrightarrow> \<not> indexed (tkSlug tk) s\<close>
      in \<open>auto simp: runTask_def\<close>)
next
  case (Inr result)
  obtain err s' where "finishTask ops opn tk result s = Inr (err, s')" "store_inv s'" "stType s' = stType s"
    "length (stIEs s') = length (stIEs s)" "stList s' = stList s" "\<And>slug. indexed slug s \<Longrightarrow> indexed slug s'"
    "err = None \<Longrightarrow> indexed (tkSlug tk) s'"
    by (rule finishTask_ok [OF inv]) blast
  then show thesis by (intro that [of err s']) (simp_all add: runTask_def Inr)
qed


section \<open>Preparing a batch\<close>

text \<open>The extensions fetched have index objects of their own, or none yet.\<close>

definition fresh :: "'db estore \<Rightarrow> ext list \<Rightarrow> bool" where
  "fresh s exts \<longleftrightarrow> (\<forall>e \<in> set exts. \<forall>a. eIE e = Some a \<longrightarrow> a < length (stIEs s) \<and> (\<forall>slug. ie_of s slug \<noteq> Some a)) \<and>
     distinct (List.map_filter eIE exts)"

lemma fresh_Cons:
  assumes "fresh s (e # exts)"
  shows "fresh s exts" "eIE e = Some a \<Longrightarrow> a < length (stIEs s) \<and> (\<forall>slug. ie_of s slug \<noteq> Some a)"
    "eIE e = Some a \<Longrightarrow> f \<in> set exts \<Longrightarrow> eIE f \<noteq> Some a"
  using assms by (auto simp: fresh_def List.map_filter_def image_iff split: if_splits)

text \<open>Listing an extension with the index object of its predecessor, or one nobody has.\<close>

lemma Set_inv:
  assumes "store_inv s" "eSlug e = slug" "eIE e = Some a" "a < length (stIEs s)"
    "\<And>sl. ie_of s sl = Some a \<Longrightarrow> sl = slug"
  shows "store_inv (Set slug e s)"
proof -
  have ie: "ie_of (Set slug e s) sl = (if sl = slug then Some a else ie_of s sl)" for sl
    using assms(3) by (simp add: ie_of_def Set_def Let_def)
  have "finite (dom (stList s))" "\<forall>sl f. stList s sl = Some f \<longrightarrow> eSlug f = sl \<and> (\<exists>a. eIE f = Some a \<and> a < length (stIEs s))"
    "\<forall>sl sl' b. ie_of s sl = Some b \<longrightarrow> ie_of s sl' = Some b \<longrightarrow> sl = sl'"
    using assms(1) unfolding store_inv_def by blast+
  then show ?thesis using assms(2-5) unfolding store_inv_def ie by (auto simp: Set_def Let_def)
qed

lemma reuseIE_ok:
  assumes inv: "store_inv s" and fr: "fresh s (e # exts)" and r: "reuseIE e s = (e1, s1)"
  obtains a where "eIE e1 = Some a" "a < length (stIEs s1)" "\<And>sl. ie_of s sl = Some a \<Longrightarrow> sl = eSlug e"
    "e1 = e\<lparr>eIE := Some a\<rparr>" "\<And>f. stList s (eSlug e) = Some f \<Longrightarrow> eIE f = Some a"
    "stList s1 = stList s" "stType s1 = stType s" "stIEs s1 = stIEs s \<or> stIEs s1 = stIEs s @ [None]"
    "\<And>f. f \<in> set exts \<Longrightarrow> eIE f = Some a \<Longrightarrow> stList s (eSlug e) \<noteq> None"
proof (cases "stList s (eSlug e)")
  case (Some f)
  obtain a where a: "eIE f = Some a" "a < length (stIEs s)" by (rule store_invE [OF inv Some])
  then have ie: "ie_of s (eSlug e) = Some a" using Some by (simp add: ie_of_def)
  have "e1 = e\<lparr>eIE := Some a\<rparr>" "s1 = s" using r Some a(1) by (simp_all add: reuseIE_def Get_def)
  moreover have "sl = eSlug e" if "ie_of s sl = Some a" for sl using inv ie that unfolding store_inv_def by blast
  ultimately show thesis using that [of a] a Some by simp
next
  case None
  show thesis
  proof (cases "eIE e")
    case (Some a)
    then have "e1 = e" "s1 = s" using r None by (simp_all add: reuseIE_def Get_def)
    moreover have "e = e\<lparr>eIE := Some a\<rparr>" using Some by (cases e) simp
    ultimately show thesis using that [of a] fresh_Cons(2,3) [OF fr Some] Some None by simp
  next
    case no: None
    have e1: "e1 = e\<lparr>eIE := Some (length (stIEs s))\<rparr>" "s1 = s\<lparr>stIEs := stIEs s @ [None]\<rparr>"
      using r None no by (simp_all add: reuseIE_def Get_def NewIndexedExtension_def)
    have "ie_of s sl \<noteq> Some (length (stIEs s))" for sl
    proof
      assume "ie_of s sl = Some (length (stIEs s))"
      then obtain f where "stList s sl = Some f" "eIE f = Some (length (stIEs s))"
        by (auto simp: ie_of_def split: option.splits)
      then show False using store_invE [OF inv] by (metis nat_less_le option.inject)
    qed
    moreover have "eIE f \<noteq> Some (length (stIEs s))" if "f \<in> set exts" for f
      using fresh_Cons(1) [OF fr] that unfolding fresh_def by blast
    ultimately show thesis using that [of "length (stIEs s)"] e1 None by simp
  qed
qed

text \<open>What holds of a batch while the rest of the extensions are to come.\<close>

definition batch_inv :: "'db estore \<Rightarrow> ext list \<Rightarrow> 'db batch \<Rightarrow> bool" where
  "batch_inv s0 rest b \<longleftrightarrow> store_inv (baStore b) \<and> fresh (baStore b) rest \<and> stType (baStore b) = stType s0 \<and>
     (\<forall>slug. indexed slug s0 \<longrightarrow> indexed slug (baStore b)) \<and>
     distinct (map tkSlug (baTasks b)) \<and> set (map tkSlug (baTasks b)) = baSeen b \<and>
     (\<forall>tk \<in> set (baTasks b). task_ok tk (baStore b) \<and> tkSlug tk \<noteq> [] \<and> eDownloadLink (tkExt tk) \<noteq> [] \<and>
        stList (baStore b) (tkSlug tk) = Some (tkExt tk)) \<and>
     dom (stList s0) \<subseteq> dom (stList (baStore b))"

lemma prepareOne_ok:
  assumes b: "batch_inv s0 (e # rest) b"
  shows "batch_inv s0 rest (prepareOne save e b)"
proof -
  define s where "s = baStore b"
  have inv: "store_inv s" and fr: "fresh s (e # rest)" and fr': "fresh s rest"
    using b fresh_Cons(1) by (auto simp: batch_inv_def s_def)
  obtain err db where sv: "save e (stDB s) = (err, db)" by fastforce
  define s1 where "s1 = s\<lparr>stDB := db\<rparr>"
  have f1: "stList s1 = stList s" "stIEs s1 = stIEs s" "stType s1 = stType s" by (simp_all add: s1_def)
  have i1: "store_inv s1" "indexed sl s1 = indexed sl s" "fresh s1 ex = fresh s ex" "ie_of s1 sl = ie_of s sl"
    "task_ok tk s1 = task_ok tk s" for sl ex tk
    using store_inv_cong [OF f1(1,2)] inv f1 by (simp_all add: fresh_def ie_of_def)
  consider (skip) "eSlug e = [] \<or> eSlug e \<in> baSeen b \<or> eDownloadLink e = []"
    | (err) "\<not> (eSlug e = [] \<or> eSlug e \<in> baSeen b \<or> eDownloadLink e = [])" "err"
    | (ok) "eSlug e \<noteq> []" "eSlug e \<notin> baSeen b" "eDownloadLink e \<noteq> []" "\<not> err" by blast
  then show ?thesis
  proof cases
    case skip
    then have "prepareOne save e b = b" by (auto simp: prepareOne_def Let_def)
    then show ?thesis using b fr' by (simp add: batch_inv_def s_def)
  next
    case err
    then have p: "prepareOne save e b = b\<lparr>baStore := s1\<rparr>" by (simp add: prepareOne_def Let_def s_def [symmetric] sv s1_def)
    show ?thesis using b fr' i1 f1 unfolding p batch_inv_def s_def [symmetric] by simp
  next
    case ok
    obtain e1 s2 where re: "reuseIE e s1 = (e1, s2)" by fastforce
    let ?slug = "eSlug e"
    let ?s3 = "Set ?slug e1 s2"
    let ?tk = "makeIndexTask (stType s) e1 ?slug (eSource e1)"
    have p: "prepareOne save e b = \<lparr>baStore = ?s3, baSeen = insert ?slug (baSeen b), baTasks = baTasks b @ [?tk]\<rparr>"
      using ok sv re by (simp add: prepareOne_def Let_def s_def [symmetric] s1_def)
    obtain a where a: "eIE e1 = Some a" "a < length (stIEs s2)" "\<And>sl. ie_of s1 sl = Some a \<Longrightarrow> sl = ?slug"
      "e1 = e\<lparr>eIE := Some a\<rparr>" "\<And>f. stList s1 ?slug = Some f \<Longrightarrow> eIE f = Some a"
      "stList s2 = stList s1" "stType s2 = stType s1" "stIEs s2 = stIEs s1 \<or> stIEs s2 = stIEs s1 @ [None]"
      "\<And>f. f \<in> set rest \<Longrightarrow> eIE f = Some a \<Longrightarrow> stList s1 ?slug \<noteq> None"
      by (rule reuseIE_ok [OF i1(1) _ re]) (use fr i1(3) in auto)
    have e1: "eSlug e1 = ?slug" "eDownloadLink e1 = eDownloadLink e" using a(4) by simp_all
    have len: "length (stIEs s1) \<le> length (stIEs s2)" using a(8) by auto
    have ie2: "ie_of s2 sl = ie_of s1 sl" for sl using a(6) by (simp add: ie_of_def)
    have inv2: "store_inv s2" using i1(1) a(6) len unfolding store_inv_def ie2 by (metis order_less_le_trans)
    have inv3: "store_inv ?s3" by (rule Set_inv [OF inv2 e1(1) a(1,2)]) (use a(3) ie2 in simp)
    have ie3: "ie_of ?s3 sl = (if sl = ?slug then Some a else ie_of s sl)" for sl
      using a(1,6) f1(1) by (simp add: ie_of_def Set_def Let_def)
    have h: "hasIndex f s \<Longrightarrow> eIE f = Some c \<Longrightarrow> c < length (stIEs s) \<Longrightarrow> eIE g = Some c \<Longrightarrow> hasIndex g ?s3" for f g c
      using a(8) f1(2) by (auto simp: hasIndex_def Set_def Let_def nth_append)
    have "indexed sl ?s3" if "indexed sl s" for sl
    proof -
      obtain f where f: "stList s sl = Some f" "hasIndex f s" using \<open>indexed sl s\<close> by (auto simp: indexed_def)
      obtain c where c: "eIE f = Some c" "c < length (stIEs s)" by (rule store_invE [OF inv f(1)])
      show ?thesis
      proof (cases "sl = ?slug")
        case True
        then have "c = a" using a(5) f(1) c(1) f1(1) by auto
        then show ?thesis using h [OF f(2) c, of e1] a(1) True by (auto simp: indexed_def Set_def Let_def)
      next
        case False
        then show ?thesis using h [OF f(2) c c(1)] f(1) a(6) f1(1) by (auto simp: indexed_def Set_def Let_def)
      qed
    qed
    moreover have "fresh ?s3 rest"
    proof -
      have "c < length (stIEs ?s3) \<and> (\<forall>sl. ie_of ?s3 sl \<noteq> Some c)" if f: "f \<in> set rest" "eIE f = Some c" for f c
      proof -
        have c: "c < length (stIEs s)" "\<forall>sl. ie_of s sl \<noteq> Some c" using fr' f by (auto simp: fresh_def)
        have "c \<noteq> a"
        proof
          assume "c = a"
          then obtain g where "stList s1 ?slug = Some g" using a(9) f by auto
          then have "ie_of s ?slug = Some a" using a(5) f1(1) by (auto simp: ie_of_def)
          then show False using c(2) \<open>c = a\<close> by blast
        qed
        then show ?thesis using c len f1(2) by (auto simp: ie3) (simp add: Set_def Let_def)
      qed
      then show ?thesis using fr' unfolding fresh_def by blast
    qed
    moreover have "task_ok tk ?s3 \<and> stList ?s3 (tkSlug tk) = Some (tkExt tk)"
      if tk: "tk \<in> set (baTasks b)" for tk
    proof -
      have "tkSlug tk \<in> tkSlug ` set (baTasks b)" using tk by simp
      moreover have "tkSlug ` set (baTasks b) = baSeen b" using b by (simp add: batch_inv_def)
      ultimately have seen: "tkSlug tk \<in> baSeen b" by simp
      have t: "task_ok tk s" "stList s (tkSlug tk) = Some (tkExt tk)" "tkSlug tk \<noteq> ?slug"
        using b tk ok(2) seen by (auto simp: batch_inv_def s_def)
      then have "stList ?s3 (tkSlug tk) = stList s (tkSlug tk)" using a(6) f1(1) by (simp add: Set_def Let_def)
      moreover have "length (stIEs s) \<le> length (stIEs ?s3)" "stType ?s3 = stType s"
        using len f1 a(7) by (simp_all add: Set_def Let_def)
      ultimately show ?thesis using t unfolding task_ok_def by auto
    qed
    moreover have "task_ok ?tk ?s3" "stList ?s3 ?slug = Some e1" "tkSlug ?tk = ?slug" "tkExt ?tk = e1"
      using a(1,2,7) e1(1) f1(3) by (simp_all add: task_ok_def makeIndexTask_def Set_def Let_def)
    moreover have "stType ?s3 = stType s0" "dom (stList s0) \<subseteq> dom (stList ?s3)"
      using b a(6,7) f1 by (auto simp: batch_inv_def s_def Set_def Let_def)
    ultimately show ?thesis
      using b inv3 ok e1(2) unfolding p batch_inv_def s_def [symmetric] by auto
  qed
qed

lemma prepare_fold:
  "batch_inv s0 exts b \<Longrightarrow> batch_inv s0 [] (fold (prepareOne save) exts b)"
  by (induction exts arbitrary: b) (simp_all add: prepareOne_ok)


section \<open>Resuming\<close>

lemma GetAll_mem: "e \<in> set (GetAll keys s) \<longleftrightarrow> (\<exists>k \<in> set keys. stList s k = Some e)"
  by (auto simp: GetAll_def List.map_filter_def image_iff)

lemma GetAll_slugs:
  assumes "store_inv s" "distinct keys"
  shows "distinct (map eSlug (GetAll keys s))"
  using assms(2)
proof (induction keys)
  case (Cons k keys)
  show ?case
  proof (cases "stList s k")
    case (Some e)
    have "eSlug e = k" by (rule store_invE [OF assms(1) Some])
    moreover have "k \<notin> eSlug ` set (GetAll keys s)"
    proof
      assume "k \<in> eSlug ` set (GetAll keys s)"
      then obtain f k' where f: "k = eSlug f" "k' \<in> set keys" "stList s k' = Some f" by (auto simp: GetAll_mem)
      then have "eSlug f = k'" using store_invE [OF assms(1) f(3)] by blast
      then show False using Cons.prems f by simp
    qed
    ultimately show ?thesis using Cons Some by (simp add: GetAll_def map_filter_simps)
  qed (use Cons in \<open>simp add: GetAll_def map_filter_simps\<close>)
qed (simp add: GetAll_def map_filter_simps)

lemma addStale_ok:
  assumes "store_inv s"
  shows "seen = set (map eSlug acc) \<Longrightarrow> distinct (map eSlug acc) \<Longrightarrow>
    \<exists>more. addStale s slugs seen acc = acc @ more \<and> distinct (map eSlug (acc @ more)) \<and>
      (\<forall>e \<in> set more. eSlug e \<in> set slugs \<and> stList s (eSlug e) = Some e \<and> eDownloadLink e \<noteq> []) \<and>
      (\<forall>sl e. sl \<in> set slugs \<and> stList s sl = Some e \<and> eDownloadLink e \<noteq> [] \<longrightarrow> sl \<in> set (map eSlug (acc @ more)))"
proof (induction slugs arbitrary: seen acc)
  case (Cons slug slugs)
  show ?case
  proof (cases "slug \<in> seen \<or> stList s slug = None \<or> (\<exists>e. stList s slug = Some e \<and> eDownloadLink e = [])")
    case True
    then have "addStale s (slug # slugs) seen acc = addStale s slugs seen acc" by auto
    moreover obtain more where "addStale s slugs seen acc = acc @ more" "distinct (map eSlug (acc @ more))"
      "\<forall>e \<in> set more. eSlug e \<in> set slugs \<and> stList s (eSlug e) = Some e \<and> eDownloadLink e \<noteq> []"
      "\<forall>sl e. sl \<in> set slugs \<and> stList s sl = Some e \<and> eDownloadLink e \<noteq> [] \<longrightarrow> sl \<in> set (map eSlug (acc @ more))"
      using Cons.IH [OF Cons.prems] by blast
    moreover have "slug \<in> set (map eSlug acc)" if "stList s slug = Some e" "eDownloadLink e \<noteq> []" for e
      using True that Cons.prems(1) by auto
    ultimately show ?thesis by (intro exI [of _ more]) auto
  next
    case False
    then obtain e where e: "stList s slug = Some e" "eDownloadLink e \<noteq> []" "slug \<notin> seen" by auto
    have sl: "eSlug e = slug" by (rule store_invE [OF assms e(1)])
    have "addStale s (slug # slugs) seen acc = addStale s slugs (insert slug seen) (acc @ [e])" using e by simp
    moreover obtain more where "addStale s slugs (insert slug seen) (acc @ [e]) = (acc @ [e]) @ more"
      "distinct (map eSlug ((acc @ [e]) @ more))"
      "\<forall>e \<in> set more. eSlug e \<in> set slugs \<and> stList s (eSlug e) = Some e \<and> eDownloadLink e \<noteq> []"
      "\<forall>sl f. sl \<in> set slugs \<and> stList s sl = Some f \<and> eDownloadLink f \<noteq> [] \<longrightarrow> sl \<in> set (map eSlug ((acc @ [e]) @ more))"
      using Cons.IH [of "insert slug seen" "acc @ [e]"] Cons.prems e(3) sl by auto
    ultimately show ?thesis using e sl by (intro exI [of _ "e # more"]) auto
  qed
qed simp

section \<open>The order of the indexes on disk\<close>

definition later :: "indexInfo \<Rightarrow> indexInfo \<Rightarrow> bool" where
  "later x y \<longleftrightarrow> iiTimestamp y > iiTimestamp x"

interpretation by_time: exchange_order later
  by unfold_locales (auto simp: later_def)

lemma sortIndexes_exSort: "sortIndexes xs = exSort later xs"
proof -
  have "sortStep = exStep later" by (simp add: sortStep_def exStep_def later_def fun_eq_iff)
  then show ?thesis by (simp add: sortIndexes_def exSort_def)
qed

lemma sortIndexes_ok:
  "mset (sortIndexes xs) = mset xs \<and> sorted_wrt (\<lambda>x y. iiTimestamp y \<le> iiTimestamp x) (sortIndexes xs)"
  using by_time.exSort_ok [of xs] by (simp add: sortIndexes_exSort later_def not_less)

text \<open>The index that is loaded is the first that opens, and those before it did not.\<close>

lemma tryOpen_ok:
  assumes "tryOpen opn is = (r, removed)"
  shows "case r of None \<Rightarrow> (\<forall>i \<in> set is. opn (iiPath i) = None) \<and> removed = map iiPath is
    | Some (x, p) \<Rightarrow> \<exists>ys i zs. is = ys @ i # zs \<and> opn (iiPath i) = Some x \<and> p = iiPath i \<and>
        (\<forall>j \<in> set ys. opn (iiPath j) = None) \<and> removed = map iiPath ys"
  using assms
proof (induction "is" arbitrary: removed)
  case (Cons i "is")
  show ?case
  proof (cases "opn (iiPath i)")
    case (Some x)
    then show ?thesis using Cons.prems by (auto intro: exI [of _ "[]"])
  next
    case None
    obtain rm where rm: "tryOpen opn is = (r, rm)" "removed = iiPath i # rm"
      using Cons.prems None by (auto split: prod.splits)
    show ?thesis
    proof (cases r)
      case (Some xp)
      obtain ys k zs where "is = ys @ k # zs" "opn (iiPath k) = Some (fst xp)" "snd xp = iiPath k"
        "\<forall>j \<in> set ys. opn (iiPath j) = None" "rm = map iiPath ys"
        using Cons.IH [OF rm(1)] Some by (auto split: prod.splits)
      then show ?thesis using Some rm(2) None by (auto split: prod.splits intro!: exI [of _ "i # ys"])
    qed (use Cons.IH [OF rm(1)] rm(2) None in auto)
  qed
qed simp

end
