(* ===== verification/Store_Updates.thy ===== *)
theory Store_Updates
  imports Store_Correct
begin

text \<open>
  What the tasks of the store promise: an available index is never lost by a task of the current
  batch, an extension leaves the list only when its download is gone, and a batch of updates has one
  task for every slug.  A task that outlived its extension breaks the first of these.
\<close>

section \<open>A store to run on\<close>

definition sampleOps :: "unit dbops" where
  "sampleOps = \<lparr>dbExec = \<lambda>_ u. (False, u), dbPluck = \<lambda>_ _. []\<rparr>"

definition sampleExt :: "string \<Rightarrow> nat option \<Rightarrow> ext" where
  "sampleExt slug ie = \<lparr>eSlug = bytes_of slug, eSource = SourceWordPress, eName = bytes_of slug, eVersion = bytes_of ''1.0'',
     eDownloadLink = bytes_of ''zip'', eActiveInstalls = 10, eDownloaded = 20, eIE = ie\<rparr>"

definition sampleX :: xindex where "sampleX = \<lparr>xiDir = bytes_of ''/d/index/a'', xiIdx = None\<rparr>"

definition sampleStore :: "unit estore" where
  "sampleStore = snd (PrepareUpdates (Inr [sampleExt ''a'' None, sampleExt ''b'' None]) (\<lambda>_ u. (False, u))
     (NewExtensionStore TypePlugins None ()))"

definition okRunner :: runner where
  "okRunner k slug url = Inr \<lparr>irIndexPath = slug, irStats = None\<rparr>"

definition goneRunner :: runner where
  "goneRunner k slug url = Inl (Sentinel ErrDownloadNotFound)"

definition sampleTask :: task where
  "sampleTask = makeIndexTask TypePlugins (sampleExt ''a'' (Some 0)) (bytes_of ''a'') SourceWordPress"

lemma sampleStore_eq:
  "sampleStore = \<lparr>stType = TypePlugins, stList = [bytes_of ''a'' \<mapsto> sampleExt ''a'' (Some 0), bytes_of ''b'' \<mapsto> sampleExt ''b'' (Some 1)],
     stTotal = 2, stIEs = [None, None], stClosing = [], stCache = None, stDB = ()\<rparr>"
  by (simp add: sampleStore_def PrepareUpdates_def prepareOne_def reuseIE_def NewIndexedExtension_def Get_def Set_def
    NewExtensionStore_def sampleExt_def Let_def bytes_of_def mapSize_def)

lemma sample_inv: "store_inv sampleStore" "task_ok sampleTask sampleStore"
  by (simp_all add: sampleStore_eq store_inv_def ie_of_def task_ok_def sampleTask_def makeIndexTask_def sampleExt_def bytes_of_def)

lemma sample_link: "bytes_of ''zip'' \<noteq> []" "bytes_of ''a'' \<noteq> bytes_of ''b''"
  by (simp_all add: bytes_of_def)

lemma sample_dom: "dom (stList sampleStore) = {bytes_of ''a'', bytes_of ''b''}"
  by (auto simp: sampleStore_eq)

lemma sample_runs:
  "snd (runURLs goneRunner tk) = Inl (Sentinel ErrDownloadNotFound)"
  "snd (runURLs okRunner tk) = Inr \<lparr>irIndexPath = tkSlug tk, irStats = None\<rparr>"
  by (simp_all add: runURLs_def tryFallback_def goneRunner_def okRunner_def errOf_def downloadFailed_def Let_def)

lemma run_gone:
  "eIE (tkExt tk) = Some a \<Longrightarrow> runTask ops opn goneRunner tk s = Inr (Some (Sentinel ErrDownloadSkipped),
     markClosed ops (tkSlug tk) (tkSource tk) (if stIEs s ! a \<noteq> None then s else Unlist (tkSlug tk) s))"
  by (simp add: runTask_def sample_runs(1)) (simp add: goneRunner_def failTask_def ieHasIndex_def)

lemma run_ok:
  "opn (tkSlug tk) = Some x \<Longrightarrow> runTask ops opn okRunner tk s = rbind (UpdateIndex x (tkSlug tk) s) (\<lambda>(err, s').
     Inr (map_option (Wrapped (bytes_of ''failed to update index'')) err, s'))"
  by (simp add: runTask_def sample_runs(2) finishTask_def Let_def)

section \<open>Properties\<close>

text \<open>
  C21. Running the task of a listed extension always ends and keeps the structure of the store: whatever
  the downloads, the database and the new index do, every extension that could be searched before can be searched
  after, and a task without an error has made its extension searchable.
\<close>

theorem indexed_stays_indexed:
  assumes "store_inv s" "task_ok tk s"
  shows "\<exists>err s'. runTask ops opn run tk s = Inr (err, s') \<and> store_inv s' \<and>
    (\<forall>slug. indexed slug s \<longrightarrow> indexed slug s') \<and> (err = None \<longrightarrow> indexed (tkSlug tk) s')"
proof -
  obtain err s' where "runTask ops opn run tk s = Inr (err, s')" "store_inv s'" "err = None \<Longrightarrow> indexed (tkSlug tk) s'"
    "\<And>slug. indexed slug s \<Longrightarrow> indexed slug s'"
    by (rule runTask_ok [where ops = ops and opn = opn and run = run, OF assms]) blast
  then show ?thesis by blast
qed

theorem indexed_stays_indexed_witness:
  "\<exists>err s'. runTask sampleOps (\<lambda>_. Some sampleX) okRunner sampleTask sampleStore = Inr (err, s') \<and> store_inv s'"
  using indexed_stays_indexed [OF sample_inv, of sampleOps "\<lambda>_. Some sampleX" okRunner] by blast

text \<open>
  C23. While a task of the current batch runs, an extension leaves the list only if the task is its own and it has
  no index; the task then reports that it was skipped, and both the first address and the last one tried are gone for good.
  (A task of an earlier batch can unlist an extension with an index: \<open>stale_task_unlists_indexed\<close>.)
\<close>

theorem task_closes_only_gone:
  assumes "store_inv s" "task_ok tk s" "runTask ops opn run tk s = Inr (err, s')"
    "slug \<in> dom (stList s)" "slug \<notin> dom (stList s')"
  shows "slug = tkSlug tk \<and> \<not> indexed slug s \<and> err = Some (Sentinel ErrDownloadSkipped) \<and>
    (\<exists>e. run 0 (tkSlug tk) (eDownloadLink (tkExt tk)) = Inl e \<and> errorsIs e ErrDownloadNotFound) \<and>
    (\<exists>e. snd (runURLs run tk) = Inl e \<and> errorsIs e ErrDownloadNotFound)"
proof -
  obtain err' s'' where "runTask ops opn run tk s = Inr (err', s'')"
    "stList s'' = stList s \<or> (stList s'' = (stList s)(tkSlug tk := None) \<and> \<not> indexed (tkSlug tk) s \<and>
       err' = Some (Sentinel ErrDownloadSkipped) \<and>
       (\<exists>e e'. run 0 (tkSlug tk) (eDownloadLink (tkExt tk)) = Inl e \<and> errorsIs e ErrDownloadNotFound \<and>
              snd (runURLs run tk) = Inl e' \<and> errorsIs e' ErrDownloadNotFound))"
    by (rule runTask_ok [where ops = ops and opn = opn and run = run, OF assms(1,2)]) blast
  then show ?thesis using assms(3-5) by (auto split: if_splits)
qed

theorem task_closes_only_gone_witness:
  "\<exists>err s'. runTask sampleOps (\<lambda>_. None) goneRunner sampleTask sampleStore = Inr (err, s') \<and>
     bytes_of ''a'' \<notin> dom (stList s') \<and> err = Some (Sentinel ErrDownloadSkipped)"
proof -
  have r: "runTask sampleOps (\<lambda>_. None) goneRunner sampleTask sampleStore = Inr (Some (Sentinel ErrDownloadSkipped),
      markClosed sampleOps (bytes_of ''a'') SourceWordPress (Unlist (bytes_of ''a'') sampleStore))"
    (is "_ = Inr (_, ?s')")
    by (simp add: run_gone [of _ 0] sampleTask_def makeIndexTask_def sampleExt_def sampleStore_eq)
  have g: "bytes_of ''a'' \<notin> dom (stList ?s')" by (simp add: Unlist_def Let_def)
  have "bytes_of ''a'' \<in> dom (stList sampleStore)" by (simp add: sample_dom)
  from task_closes_only_gone [OF sample_inv r this g] r g show ?thesis by blast
qed

text \<open>
  A task downloads from at most three addresses, the extension's own first; the others are the ones of
  wordpress.org, with the version and without it, are tried only for an extension whose source is wordpress.org and only
  after a failed download, and none is the address that failed first.
\<close>

lemma task_tries_bounded:
  "\<exists>us. fst (runURLs run tk) = eDownloadLink (tkExt tk) # us \<and> length us \<le> 2 \<and>
     (us = [] \<or> tkSource tk = SourceWordPress \<and> downloadFailed (errOf (run 0 (tkSlug tk) (eDownloadLink (tkExt tk))))) \<and>
     eDownloadLink (tkExt tk) \<notin> set us \<and> [] \<notin> set us \<and>
     set us \<subseteq> {wordpressDownloadURL (tkType tk) (tkSlug tk) (eVersion (tkExt tk)), wordpressDownloadURL (tkType tk) (tkSlug tk) []}"
  unfolding runURLs_def Let_def tryFallback_def by auto

text \<open>
  C22. A batch of updates has one task for every slug, each for the extension that is now listed under that
  slug and with its index object; no extension loses its index or its place, and no slug or address is empty.
\<close>

theorem prepare_updates_invariant:
  assumes "store_inv s" "fresh s exts"
  shows "\<exists>tasks s'. PrepareUpdates (Inr exts) save s = (Inr tasks, s') \<and> store_inv s' \<and> distinct (map tkSlug tasks) \<and>
    (\<forall>slug. indexed slug s \<longrightarrow> indexed slug s') \<and> dom (stList s) \<subseteq> dom (stList s') \<and>
    (\<forall>tk \<in> set tasks. task_ok tk s' \<and> tkSlug tk \<noteq> [] \<and> eDownloadLink (tkExt tk) \<noteq> [] \<and>
       stList s' (tkSlug tk) = Some (tkExt tk))"
proof -
  have "batch_inv s exts \<lparr>baStore = s, baSeen = {}, baTasks = []\<rparr>" using assms by (simp add: batch_inv_def)
  then have "batch_inv s [] (fold (prepareOne save) exts \<lparr>baStore = s, baSeen = {}, baTasks = []\<rparr>)" by (rule prepare_fold)
  then show ?thesis by (simp add: PrepareUpdates_def Let_def batch_inv_def)
qed

theorem prepare_updates_invariant_witness:
  "\<exists>tasks s'. PrepareUpdates (Inr [sampleExt ''a'' (Some 0), sampleExt ''c'' None]) (\<lambda>_ u. (False, u))
     (sampleStore\<lparr>stList := [bytes_of ''b'' \<mapsto> sampleExt ''b'' (Some 1)]\<rparr>) = (Inr tasks, s') \<and> distinct (map tkSlug tasks)"
proof -
  let ?s = "sampleStore\<lparr>stList := [bytes_of ''b'' \<mapsto> sampleExt ''b'' (Some 1)]\<rparr>"
  have "store_inv ?s" by (simp add: sampleStore_eq store_inv_def ie_of_def sampleExt_def)
  moreover have "fresh ?s [sampleExt ''a'' (Some 0), sampleExt ''c'' None]"
    by (simp add: fresh_def sampleExt_def sampleStore_eq ie_of_def map_filter_simps)
  ultimately show ?thesis using prepare_updates_invariant [where save = "\<lambda>_ u. (False, u)"] by blast
qed

text \<open>
  C35. At start the extensions to index again are exactly the listed ones with a download address that either have no
  index and are not closed, or are stale in the database; each has one task.
\<close>

theorem resume_unindexed_exact:
  assumes "store_inv s" "distinct keys" "set keys = dom (stList s)"
  shows "distinct (map tkSlug (ResumeUnindexed ops keys s)) \<and> (\<forall>tk \<in> set (ResumeUnindexed ops keys s). task_ok tk s) \<and>
    (\<forall>slug. slug \<in> tkSlug ` set (ResumeUnindexed ops keys s) \<longleftrightarrow> (\<exists>e. stList s slug = Some e \<and> eDownloadLink e \<noteq> [] \<and>
       (\<not> hasIndex e s \<and> slug \<notin> closedSlugs ops s \<or>
        slug \<in> set (dbPluck ops (PluckStale (typeName (stType s)) (idCol (stType s)) 3 maxTotalRetries) (stDB s)))))"
proof -
  define tasks where "tasks = ResumeUnindexed ops keys s"
  define stale where "stale = dbPluck ops (PluckStale (typeName (stType s)) (idCol (stType s)) 3 maxTotalRetries) (stDB s)"
  define un where "un = unindexedOf (closedSlugs ops s) s keys"
  have un: "e \<in> set un \<longleftrightarrow> stList s (eSlug e) = Some e \<and> eDownloadLink e \<noteq> [] \<and> \<not> hasIndex e s \<and> eSlug e \<notin> closedSlugs ops s" for e
    using assms(3) store_invE [OF assms(1)] by (auto simp: un_def unindexedOf_def GetAll_mem)
  have d: "distinct (map eSlug un)"
    using GetAll_slugs [OF assms(1,2)] by (simp add: un_def unindexedOf_def distinct_map_filter)
  obtain more where more: "addStale s stale (set (map eSlug un)) un = un @ more" "distinct (map eSlug (un @ more))"
    "\<forall>e \<in> set more. eSlug e \<in> set stale \<and> stList s (eSlug e) = Some e \<and> eDownloadLink e \<noteq> []"
    "\<forall>sl e. sl \<in> set stale \<and> stList s sl = Some e \<and> eDownloadLink e \<noteq> [] \<longrightarrow> sl \<in> set (map eSlug (un @ more))"
    using addStale_ok [OF assms(1) refl d] by blast
  have t: "tasks = map (\<lambda>e. makeIndexTask (stType s) e (eSlug e) (eSource e)) (un @ more)"
    unfolding tasks_def ResumeUnindexed_def Let_def un_def [symmetric] stale_def [symmetric] more(1) ..
  have sl: "map tkSlug tasks = map eSlug (un @ more)" by (simp add: t makeIndexTask_def)
  then have mem: "tkSlug ` set tasks = eSlug ` set (un @ more)" by (metis set_map)
  have listed: "stList s (eSlug e) = Some e" if "e \<in> set (un @ more)" for e using that un more(3) by auto
  have "task_ok tk s" if "tk \<in> set tasks" for tk
    using that listed store_invE [OF assms(1)] by (auto simp: t task_ok_def makeIndexTask_def) (metis option.inject)+
  moreover have "slug \<in> eSlug ` set (un @ more) \<longleftrightarrow> (\<exists>e. stList s slug = Some e \<and> eDownloadLink e \<noteq> [] \<and>
       (\<not> hasIndex e s \<and> slug \<notin> closedSlugs ops s \<or> slug \<in> set stale))" (is "_ \<longleftrightarrow> (\<exists>e. ?P e)") for slug
  proof
    assume "slug \<in> eSlug ` set (un @ more)"
    then show "\<exists>e. ?P e" using un more(3) by auto
  next
    assume "\<exists>e. ?P e"
    then obtain e where e: "?P e" ..
    then have "eSlug e = slug" using store_invE [OF assms(1)] by metis
    then show "slug \<in> eSlug ` set (un @ more)" using e un [of e] more(4) by auto
  qed
  ultimately show ?thesis using more(2) unfolding tasks_def [symmetric] stale_def [symmetric] sl mem by blast
qed


theorem resume_unindexed_exact_witness:
  "tkSlug ` set (ResumeUnindexed sampleOps [bytes_of ''a'', bytes_of ''b''] sampleStore) = {bytes_of ''a'', bytes_of ''b''}"
proof -
  have "distinct [bytes_of ''a'', bytes_of ''b'']" by (simp add: bytes_of_def)
  moreover have "set [bytes_of ''a'', bytes_of ''b''] = dom (stList sampleStore)" by (simp add: sample_dom)
  ultimately have "slug \<in> tkSlug ` set (ResumeUnindexed sampleOps [bytes_of ''a'', bytes_of ''b''] sampleStore) \<longleftrightarrow>
      (\<exists>e. stList sampleStore slug = Some e \<and> eDownloadLink e \<noteq> [] \<and>
       (\<not> hasIndex e sampleStore \<and> slug \<notin> closedSlugs sampleOps sampleStore \<or>
        slug \<in> set (dbPluck sampleOps (PluckStale (typeName (stType sampleStore)) (idCol (stType sampleStore)) 3 maxTotalRetries) (stDB sampleStore))))"
    for slug using resume_unindexed_exact [OF sample_inv(1)] by blast
  then have "slug \<in> tkSlug ` set (ResumeUnindexed sampleOps [bytes_of ''a'', bytes_of ''b''] sampleStore) \<longleftrightarrow>
      slug \<in> {bytes_of ''a'', bytes_of ''b''}" for slug
    by (auto simp: sampleStore_eq sampleExt_def hasIndex_def closedSlugs_def sampleOps_def sample_link split: if_splits)
  then show ?thesis by blast
qed

text \<open>
  C34. When the store loads the indexes that are on disk for a slug, it takes the one with the latest time stamp
  among those that open and keeps its directory; the directories of the others are removed, but for the one without a time
  stamp, which is removed only when it does not open.  When none opens all are removed and the store is as it was.
\<close>

theorem load_prefers_latest:
  assumes "distinct (map iiPath infos)" "loadSlug opn dir slug infos s = Inr (s', removed, loaded)"
  shows "set removed \<subseteq> iiPath ` set infos \<and>
    (if \<forall>j \<in> set infos. opn (iiPath j) = None then set removed = iiPath ` set infos \<and> s' = s \<and> \<not> loaded
     else \<exists>i \<in> set infos. \<exists>x. opn (iiPath i) = Some x \<and> iiPath i \<notin> set removed \<and>
       UpdateIndex x slug s = Inr (if loaded then None else Some (Sentinel ErrExtNotFound), s') \<and>
       (\<forall>j \<in> set infos. opn (iiPath j) \<noteq> None \<longrightarrow> iiTimestamp j \<le> iiTimestamp i) \<and>
       (\<forall>j \<in> set infos. j \<noteq> i \<and> iiPath j \<noteq> joinPath dir slug \<longrightarrow> iiPath j \<in> set removed) \<and>
       (joinPath dir slug \<in> set removed \<longrightarrow> opn (joinPath dir slug) = None))"
proof -
  let ?c = "joinPath dir slug"
  have st: "mset (sortIndexes infos) = mset infos" "sorted_wrt (\<lambda>x y. iiTimestamp y \<le> iiTimestamp x) (sortIndexes infos)"
    using sortIndexes_ok [of infos] by simp_all
  have m: "set (sortIndexes infos) = set infos" using st(1) by (rule mset_eq_setD)
  have dst: "distinct (map iiPath (sortIndexes infos))"
    using assms(1) st(1) by (metis mset_eq_imp_distinct_iff mset_map)
  obtain r rm where t: "tryOpen opn (sortIndexes infos) = (r, rm)" by fastforce
  show ?thesis
  proof (cases r)
    case None
    then show ?thesis using tryOpen_ok [OF t] assms(2) t m by (auto simp: loadSlug_def)
  next
    case (Some xp)
    obtain ys i zs where d: "sortIndexes infos = ys @ i # zs" "opn (iiPath i) = Some (fst xp)" "snd xp = iiPath i"
      "\<forall>j \<in> set ys. opn (iiPath j) = None" "rm = map iiPath ys"
      using tryOpen_ok [OF t] Some by (auto split: prod.splits)
    have i: "i \<in> set infos" using d(1) m by (metis in_set_conv_decomp)
    let ?leg = "filter (\<lambda>p. p \<noteq> iiPath i \<and> p \<noteq> ?c) (map iiPath (sortIndexes infos))"
    obtain err where u: "UpdateIndex (fst xp) slug s = Inr (err, s')" "removed = rm @ ?leg" "loaded \<longleftrightarrow> err = None"
      using assms(2) t Some d(3) by (auto simp: loadSlug_def Let_def rbind_def split: prod.splits sum.splits)
    have e: "err = (if loaded then None else Some (Sentinel ErrExtNotFound))"
      using u(1,3) by (auto simp: UpdateIndex_def rbind_def split: option.splits sum.splits)
    have n: "iiPath i \<notin> set removed" using dst d(1,5) u(2) by auto
    have lat: "iiTimestamp j \<le> iiTimestamp i" if "j \<in> set infos" "opn (iiPath j) \<noteq> None" for j
    proof -
      have "j \<notin> set ys" "j \<in> set ys \<union> {i} \<union> set zs" using d(1,4) that m [symmetric] by auto
      then show ?thesis using st(2) d(1) by (auto simp: sorted_wrt_append)
    qed
    have oth: "iiPath j \<in> set removed" if "j \<in> set infos" "j \<noteq> i" "iiPath j \<noteq> ?c" for j
    proof -
      have "iiPath j \<noteq> iiPath i" using assms(1) i that by (auto simp: distinct_map inj_on_def)
      then show ?thesis using that m u(2) by auto
    qed
    have can: "opn ?c = None" if "?c \<in> set removed" using that d(4,5) u(2) by auto
    have sub: "set removed \<subseteq> iiPath ` set infos" using m d(1,5) u(2) by auto
    have "\<not> (\<forall>j \<in> set infos. opn (iiPath j) = None)" using i d(2) by auto
    then show ?thesis
      unfolding if_not_P [OF \<open>\<not> (\<forall>j \<in> set infos. opn (iiPath j) = None)\<close>] using sub i d(2) n u(1)[unfolded e] lat oth can by blast
  qed
qed

theorem load_prefers_latest_witness:
  "\<exists>s' removed. loadSlug (\<lambda>p. if p = [3] then None else Some sampleX) [] (bytes_of ''a'')
       [\<lparr>iiPath = [1], iiTimestamp = 5\<rparr>, \<lparr>iiPath = [2], iiTimestamp = 7\<rparr>, \<lparr>iiPath = [3], iiTimestamp = 9\<rparr>] sampleStore = Inr (s', removed, True) \<and>
     set removed \<subseteq> {[1], [2], [3]} \<and> [2] \<notin> set removed"
proof -
  let ?infos = "[\<lparr>iiPath = [1 :: byte], iiTimestamp = 5\<rparr>, \<lparr>iiPath = [2], iiTimestamp = 7\<rparr>, \<lparr>iiPath = [3], iiTimestamp = 9\<rparr>]"
  let ?opn = "\<lambda>p. if p = [3 :: byte] then None else Some sampleX"
  have "sortIndexes ?infos = rev ?infos"
    by (simp add: sortIndexes_def sortStep_def swapAt_def upt_rec numeral_2_eq_2)
  then obtain s' removed where r: "loadSlug ?opn [] (bytes_of ''a'') ?infos sampleStore = Inr (s', removed, True)" "[2] \<notin> set removed"
    by (simp add: loadSlug_def UpdateIndex_def ieUpdateIndex_def sampleStore_eq sampleExt_def rbind_def bytes_of_def Let_def joinPath_def)
  have "distinct (map iiPath ?infos)" by simp
  from load_prefers_latest [OF this r(1)] show ?thesis using r by auto
qed

text \<open>
  A task that is kept while its extension leaves the list and comes back takes the new one out of the list:
  it looks at the index object it captured, which has no index, and not at the one that is listed.  The store
  here has been reached by the operations alone.
\<close>

lemma stale_task_unlists_indexed:
  "\<exists>tk s s1. PrepareUpdates (Inr [sampleExt ''a'' None]) (\<lambda>_ u. (False, u)) (NewExtensionStore TypePlugins None ()) = (Inr [tk], s) \<and>
     runTask sampleOps (\<lambda>_. None) goneRunner tk s = Inr (Some (Sentinel ErrDownloadSkipped), s1) \<and>
     (\<exists>tk2 s2 s3. PrepareUpdates (Inr [sampleExt ''a'' None]) (\<lambda>_ u. (False, u)) s1 = (Inr [tk2], s2) \<and>
        runTask sampleOps (\<lambda>_. Some sampleX) okRunner tk2 s2 = Inr (None, s3) \<and> indexed (bytes_of ''a'') s3 \<and>
        (\<exists>s4. runTask sampleOps (\<lambda>_. None) goneRunner tk s3 = Inr (Some (Sentinel ErrDownloadSkipped), s4) \<and>
           \<not> Exists (bytes_of ''a'') s4))"
proof -
  define nw :: "unit estore" where "nw = NewExtensionStore TypePlugins None ()"
  define tk where "tk i = makeIndexTask TypePlugins (sampleExt ''a'' (Some i)) (bytes_of ''a'') SourceWordPress" for i
  have prep: "PrepareUpdates (Inr [sampleExt ''a'' None]) (\<lambda>_ u. (False, u)) s =
      (Inr [tk (length (stIEs s))], Set (bytes_of ''a'') (sampleExt ''a'' (Some (length (stIEs s)))) (s\<lparr>stIEs := stIEs s @ [None]\<rparr>))"
    if "stList s (bytes_of ''a'') = None" "stType s = TypePlugins" for s :: "unit estore"
  proof -
    have u: "s\<lparr>stDB := ()\<rparr> = s" by (cases s) simp
    show ?thesis using that by (simp add: u PrepareUpdates_def prepareOne_def reuseIE_def NewIndexedExtension_def Get_def sampleExt_def Let_def
      bytes_of_def tk_def)
  qed
  define s where "s = Set (bytes_of ''a'') (sampleExt ''a'' (Some 0)) (nw\<lparr>stIEs := [None]\<rparr>)"
  have p1: "PrepareUpdates (Inr [sampleExt ''a'' None]) (\<lambda>_ u. (False, u)) nw = (Inr [tk 0], s)"
    by (subst prep) (simp_all add: nw_def NewExtensionStore_def s_def)
  define s1 where "s1 = markClosed sampleOps (bytes_of ''a'') SourceWordPress (Unlist (bytes_of ''a'') s)"
  have tk: "tkSlug (tk i) = bytes_of ''a''" "tkSource (tk i) = SourceWordPress" "eIE (tkExt (tk i)) = Some i" for i
    by (simp_all add: tk_def makeIndexTask_def sampleExt_def)
  have ie: "stIEs s = [None]" "stType s = TypePlugins" by (simp_all add: s_def Set_def Let_def nw_def NewExtensionStore_def)
  have r1: "runTask sampleOps (\<lambda>_. None) goneRunner (tk 0) s = Inr (Some (Sentinel ErrDownloadSkipped), s1)"
    by (simp add: run_gone [OF tk(3)] tk ie s1_def)
  have f1: "stList s1 (bytes_of ''a'') = None" "stIEs s1 = [None]" "stType s1 = TypePlugins"
    by (simp_all add: s1_def Unlist_def Let_def ie)
  define s2 where "s2 = Set (bytes_of ''a'') (sampleExt ''a'' (Some 1)) (s1\<lparr>stIEs := [None, None]\<rparr>)"
  have p2: "PrepareUpdates (Inr [sampleExt ''a'' None]) (\<lambda>_ u. (False, u)) s1 = (Inr [tk 1], s2)"
    by (subst prep) (simp_all add: f1 s2_def)
  have l2: "stList s2 (bytes_of ''a'') = Some (sampleExt ''a'' (Some 1))" "stIEs s2 = [None, None]" by (simp_all add: s2_def Set_def Let_def)
  obtain s3 where r2: "runTask sampleOps (\<lambda>_. Some sampleX) okRunner (tk 1) s2 = Inr (None, s3)"
    and f3: "stList s3 = stList s2" "stIEs s3 = [None, Some sampleX]"
    by (simp add: run_ok tk UpdateIndex_def l2 sampleExt_def ieUpdateIndex_def rbind_def Let_def)
  have i3: "indexed (bytes_of ''a'') s3" by (simp add: indexed_def f3 l2 hasIndex_def sampleExt_def)
  have r3: "runTask sampleOps (\<lambda>_. None) goneRunner (tk 0) s3 = Inr (Some (Sentinel ErrDownloadSkipped),
      markClosed sampleOps (bytes_of ''a'') SourceWordPress (Unlist (bytes_of ''a'') s3))"
    by (simp add: run_gone [OF tk(3)] tk f3)
  show ?thesis
    by (intro exI conjI, rule p1 [unfolded nw_def], rule r1, rule p2, rule r2, rule i3, rule r3)
      (simp add: Exists_def Unlist_def Let_def)
qed

end
