(* ===== verification/Store_Search.thy ===== *)
theory Store_Search
  imports Store_Updates "HOL-Library.List_Lexorder"
begin

text \<open>
  The concurrent search of a store, \<open>(*ExtensionStore).Search\<close> of \<open>internal/repo/repository.go\<close>.

  The loop and the workers it starts share an atomic counter of matches, an atomic counter of the extensions that
  are done, a list of results under a lock and a semaphore.  The model is a step relation with one step for each access to
  what is shared; the result of a worker is an argument, the matches in its extension (none when the search of the
  extension fails, panics or finds nothing).
\<close>

section \<open>The state of a search\<close>

definition globalMatchCap :: nat where "globalMatchCap = 100000"

datatype loopPc = AtLoop | Waiting ext | Acquired ext | LoopDone

datatype worker = Started ext | Searching ext | Counted ext

record sqState =
  sqRest :: "ext list"
  sqLoop :: loopPc
  sqRun :: "worker multiset"
  sqTotal :: nat
  sqSearched :: nat
  sqFound :: "(ext \<times> fileMatch list) list"
  sqCancelled :: bool

definition sqInit :: "ext list \<Rightarrow> sqState" where
  "sqInit exts = \<lparr>sqRest = exts, sqLoop = AtLoop, sqRun = {#}, sqTotal = 0, sqSearched = 0, sqFound = [], sqCancelled = False\<rparr>"

definition finished :: "worker multiset \<Rightarrow> sqState \<Rightarrow> sqState" where
  "finished ws st = st\<lparr>sqRun := ws, sqSearched := sqSearched st + 1\<rparr>"

inductive sqStep :: "nat \<Rightarrow> (ext \<Rightarrow> fileMatch list) \<Rightarrow> sqState \<Rightarrow> sqState \<Rightarrow> bool" for n :: nat and w where
  loop_end: "\<lbrakk>sqLoop st = AtLoop; sqRest st = []\<rbrakk> \<Longrightarrow> sqStep n w st (st\<lparr>sqLoop := LoopDone\<rparr>)"
| loop_break: "\<lbrakk>sqLoop st = AtLoop; sqRest st = e # es; globalMatchCap \<le> sqTotal st \<or> sqCancelled st\<rbrakk> \<Longrightarrow>
    sqStep n w st (st\<lparr>sqLoop := LoopDone\<rparr>)"
| loop_next: "\<lbrakk>sqLoop st = AtLoop; sqRest st = e # es; sqTotal st < globalMatchCap; \<not> sqCancelled st\<rbrakk> \<Longrightarrow>
    sqStep n w st (st\<lparr>sqRest := es, sqLoop := Waiting e\<rparr>)"
| acquire: "\<lbrakk>sqLoop st = Waiting e; size (sqRun st) < n\<rbrakk> \<Longrightarrow> sqStep n w st (st\<lparr>sqLoop := Acquired e\<rparr>)"
| ctx_done: "\<lbrakk>sqLoop st = Waiting e; sqCancelled st\<rbrakk> \<Longrightarrow> sqStep n w st (st\<lparr>sqLoop := LoopDone\<rparr>)"
| loop_stop: "\<lbrakk>sqLoop st = Acquired e; globalMatchCap \<le> sqTotal st \<or> sqCancelled st\<rbrakk> \<Longrightarrow>
    sqStep n w st (st\<lparr>sqLoop := LoopDone\<rparr>)"
| spawn: "\<lbrakk>sqLoop st = Acquired e; sqTotal st < globalMatchCap; \<not> sqCancelled st\<rbrakk> \<Longrightarrow>
    sqStep n w st (st\<lparr>sqRun := add_mset (Started e) (sqRun st), sqLoop := AtLoop\<rparr>)"
| skip: "\<lbrakk>sqRun st = add_mset (Started e) ws; globalMatchCap \<le> sqTotal st\<rbrakk> \<Longrightarrow> sqStep n w st (finished ws st)"
| start: "\<lbrakk>sqRun st = add_mset (Started e) ws; sqTotal st < globalMatchCap\<rbrakk> \<Longrightarrow>
    sqStep n w st (st\<lparr>sqRun := add_mset (Searching e) ws\<rparr>)"
| nothing: "\<lbrakk>sqRun st = add_mset (Searching e) ws; w e = []\<rbrakk> \<Longrightarrow> sqStep n w st (finished ws st)"
| count: "\<lbrakk>sqRun st = add_mset (Searching e) ws; w e \<noteq> []\<rbrakk> \<Longrightarrow>
    sqStep n w st (st\<lparr>sqRun := add_mset (Counted e) ws, sqTotal := sqTotal st + matchCount (w e)\<rparr>)"
| report: "\<lbrakk>sqRun st = add_mset (Counted e) ws\<rbrakk> \<Longrightarrow>
    sqStep n w st (finished ws (st\<lparr>sqFound := sqFound st @ [(e, w e)]\<rparr>))"
| cancel: "\<not> sqCancelled st \<Longrightarrow> sqStep n w st (st\<lparr>sqCancelled := True\<rparr>)"

inductive_cases sqStepE: "sqStep n w st st'"

definition sqReach :: "nat \<Rightarrow> (ext \<Rightarrow> fileMatch list) \<Rightarrow> ext list \<Rightarrow> sqState \<Rightarrow> bool" where
  "sqReach n w exts st \<longleftrightarrow> (sqStep n w)\<^sup>*\<^sup>* (sqInit exts) st"

definition sqFinal :: "sqState \<Rightarrow> bool" where
  "sqFinal st \<longleftrightarrow> sqLoop st = LoopDone \<and> sqRun st = {#}"

section \<open>The search\<close>

text \<open>The extensions that are searched, and the matches of one of them.\<close>

definition searchExts :: "gostr list \<Rightarrow> 'db estore \<Rightarrow> ext list" where
  "searchExts keys s = sort_key eSlug (filter (\<lambda>e. hasIndex e s) (GetAll keys s))"

definition workerMatches :: "golib \<Rightarrow> fs \<Rightarrow> compiledSearch \<Rightarrow> 'db estore \<Rightarrow> ext \<Rightarrow> fileMatch list" where
  "workerMatches lib fs cs s e = (case ieSearchCompiled lib fs cs (eIE e) s of
       Some (Inr (Inr (Some r))) \<Rightarrow> srMatches r | _ \<Rightarrow> [])"

datatype searchErr = CompileErr goerr | CtxErr

type_synonym storeResult = "searchErr + (ext \<times> fileMatch list) list \<times> int"

definition sqOutcome :: "int \<Rightarrow> sqState \<Rightarrow> storeResult" where
  "sqOutcome tot st = (if sqCancelled st then Inl CtxErr else Inr (sqFound st, tot))"

text \<open>The outcomes of a search with the expression \<open>pat\<close>, \<open>n\<close> the configured concurrency.\<close>

inductive StoreSearch :: "golib \<Rightarrow> fs \<Rightarrow> nat \<Rightarrow> gostr list \<Rightarrow> gostr \<Rightarrow> searchOptions option \<Rightarrow> 'db estore \<Rightarrow> storeResult \<Rightarrow> bool"
  for lib fs n keys pat opt s where
  "CompileSearch lib pat opt = Some (Inr (Inl err)) \<Longrightarrow> StoreSearch lib fs n keys pat opt s (Inl (CompileErr err))"
| "\<lbrakk>CompileSearch lib pat opt = Some (Inr (Inr cs)); searchExts keys s = []\<rbrakk> \<Longrightarrow>
    StoreSearch lib fs n keys pat opt s (Inr ([], stTotal s))"
| "\<lbrakk>CompileSearch lib pat opt = Some (Inr (Inr cs)); exts = searchExts keys s; exts \<noteq> [];
    sqReach (min n (length exts)) (workerMatches lib fs cs s) exts st; sqFinal st\<rbrakk> \<Longrightarrow>
    StoreSearch lib fs n keys pat opt s (sqOutcome (stTotal s) st)"

section \<open>The invariant\<close>

fun wext :: "worker \<Rightarrow> ext" where
  "wext (Started e) = e" | "wext (Searching e) = e" | "wext (Counted e) = e"

fun loopExt :: "loopPc \<Rightarrow> ext multiset" where
  "loopExt (Waiting e) = {#e#}" | "loopExt (Acquired e) = {#e#}" | "loopExt _ = {#}"

fun slot :: "loopPc \<Rightarrow> nat" where
  "slot (Acquired e) = 1" | "slot _ = 0"

definition pending :: "sqState \<Rightarrow> ext multiset" where
  "pending st = mset (sqRest st) + loopExt (sqLoop st) + image_mset wext (sqRun st)"

definition isSearching :: "worker \<Rightarrow> bool" where
  "isSearching x \<longleftrightarrow> (case x of Searching e \<Rightarrow> True | _ \<Rightarrow> False)"

definition isCounted :: "worker \<Rightarrow> bool" where
  "isCounted x \<longleftrightarrow> (case x of Counted e \<Rightarrow> True | _ \<Rightarrow> False)"

lemma worker_kinds [simp]:
  "\<not> isSearching (Started e)" "isSearching (Searching e)" "\<not> isSearching (Counted e)"
  "\<not> isCounted (Started e)" "\<not> isCounted (Searching e)" "isCounted (Counted e)"
  by (simp_all add: isSearching_def isCounted_def)

definition sq_inv :: "nat \<Rightarrow> (ext \<Rightarrow> fileMatch list) \<Rightarrow> ext list \<Rightarrow> sqState \<Rightarrow> bool" where
  "sq_inv n w exts st \<longleftrightarrow>
     mset (map fst (sqFound st)) + pending st \<subseteq># mset exts \<and>
     (\<forall>(e, ms) \<in> set (sqFound st). ms = w e \<and> ms \<noteq> []) \<and>
     (\<forall>x \<in># sqRun st. isCounted x \<longrightarrow> w (wext x) \<noteq> []) \<and>
     size (sqRun st) + slot (sqLoop st) \<le> n \<and>
     sqTotal st = sum_list (map (\<lambda>(e, ms). matchCount ms) (sqFound st)) +
       (\<Sum>x \<in># filter_mset isCounted (sqRun st). matchCount (w (wext x))) \<and>
     (sqTotal st < globalMatchCap \<and> \<not> sqCancelled st \<longrightarrow> (sqLoop st = LoopDone \<longrightarrow> sqRest st = []) \<and>
       filter_mset (\<lambda>e. w e \<noteq> []) (mset exts) = mset (map fst (sqFound st)) + filter_mset (\<lambda>e. w e \<noteq> []) (pending st))"

lemma sq_inv_init: "sq_inv n w exts (sqInit exts)"
  by (simp add: sq_inv_def sqInit_def pending_def)

lemma subset_drop: "add_mset e A \<subseteq># B \<Longrightarrow> A \<subseteq># B"
  by (meson mset_subset_eq_insertD subset_mset.less_imp_le)

lemma sq_inv_step:
  assumes "sqStep n w st st'" "sq_inv n w exts st"
  shows "sq_inv n w exts st'"
  using assms
proof cases
  case (loop_next e es)
  then show ?thesis using assms(2) by (simp add: sq_inv_def pending_def)
next
  case (spawn e)
  then show ?thesis using assms(2) by (simp add: sq_inv_def pending_def)
next
  case (start e ws)
  then show ?thesis using assms(2) by (simp add: sq_inv_def pending_def)
next
  case (report e ws)
  then show ?thesis using assms(2) by (auto simp: sq_inv_def pending_def finished_def)
next
  case (count e ws)
  then show ?thesis using assms(2) by (auto simp: sq_inv_def pending_def finished_def)
qed (use assms(2) in \<open>auto simp: sq_inv_def pending_def finished_def dest: subset_drop\<close>)

lemma sq_inv_reach: "sqReach n w exts st \<Longrightarrow> sq_inv n w exts st"
proof -
  have "sq_inv n w exts st" if "(sqStep n w)\<^sup>*\<^sup>* (sqInit exts) st"
    using that by (induction rule: rtranclp_induct) (auto intro: sq_inv_init sq_inv_step)
  then show "sqReach n w exts st \<Longrightarrow> sq_inv n w exts st" by (simp add: sqReach_def)
qed

section \<open>The bound on the matches\<close>

definition room :: "nat \<Rightarrow> sqState \<Rightarrow> nat" where
  "room m st = sqTotal st + size (filter_mset isSearching (sqRun st)) * m"

lemma room_step:
  assumes "sqStep n w st st'" "sq_inv n w exts st" "\<forall>e \<in> set exts. matchCount (w e) \<le> m"
    "room m st \<le> globalMatchCap - 1 + n * m"
  shows "room m st' \<le> globalMatchCap - 1 + n * m"
  using assms(1)
proof cases
  case (start e ws)
  have "size (filter_mset isSearching ws) \<le> size ws" by (rule size_filter_mset_lesseq)
  moreover have "size ws + 1 + slot (sqLoop st) \<le> n" using assms(2) start(2) by (simp add: sq_inv_def)
  ultimately have "size (filter_mset isSearching ws) + 1 \<le> n" by linarith
  then have "(size (filter_mset isSearching ws) + 1) * m \<le> n * m" by (rule mult_le_mono1)
  then show ?thesis using start by (simp add: room_def)
next
  case (count e ws)
  have "e \<in># pending st" using count(2) by (simp add: pending_def)
  moreover have "mset (map fst (sqFound st)) + pending st \<subseteq># mset exts" using assms(2) by (simp add: sq_inv_def)
  ultimately have "e \<in># mset exts" by (meson mset_subset_eqD union_iff)
  then show ?thesis using assms(3,4) count by (simp add: room_def) (smt (verit, best) add.commute add.left_commute add_le_mono1 le_trans)
qed (use assms(4) in \<open>simp_all add: room_def finished_def\<close>)

lemma room_reach:
  assumes "sqReach n w exts st" "\<forall>e \<in> set exts. matchCount (w e) \<le> m"
  shows "room m st \<le> globalMatchCap - 1 + n * m"
proof -
  have "sq_inv n w exts st \<and> room m st \<le> globalMatchCap - 1 + n * m" if "(sqStep n w)\<^sup>*\<^sup>* (sqInit exts) st"
    using that
  proof (induction rule: rtranclp_induct)
    case base
    then show ?case by (simp add: sq_inv_init) (simp add: room_def sqInit_def)
  next
    case (step y z)
    then show ?case using sq_inv_step room_step [OF step.hyps(2) _ assms(2)] by blast
  qed
  then show ?thesis using assms(1) by (simp add: sqReach_def)
qed

section \<open>The end of a search\<close>

fun loopWork :: "loopPc \<Rightarrow> nat" where
  "loopWork AtLoop = 1" | "loopWork (Waiting e) = 6" | "loopWork (Acquired e) = 5" | "loopWork LoopDone = 0"

fun workerWork :: "worker \<Rightarrow> nat" where
  "workerWork (Started e) = 3" | "workerWork (Searching e) = 2" | "workerWork (Counted e) = 1"

definition sqWork :: "sqState \<Rightarrow> nat" where
  "sqWork st = 6 * length (sqRest st) + loopWork (sqLoop st) + sum_mset (image_mset workerWork (sqRun st)) +
     (if sqCancelled st then 0 else 1)"

lemma sqStep_work: "sqStep n w st st' \<Longrightarrow> sqWork st' < sqWork st"
  by (cases rule: sqStep.cases) (assumption, auto simp: sqWork_def finished_def)

text \<open>A state that is not final has a step other than the cancellation.\<close>

lemma worker_step:
  assumes "sqRun st \<noteq> {#}"
  shows "\<exists>st'. sqStep n w st st' \<and> sqCancelled st' = sqCancelled st"
proof -
  obtain x ws where x: "sqRun st = add_mset x ws" using assms by (metis multiset_nonemptyE insert_DiffM)
  show ?thesis
  proof (cases x)
    case (Started e)
    then show ?thesis
      using sqStep.skip [of st e ws n w] sqStep.start [of st e ws n w] x by (cases "globalMatchCap \<le> sqTotal st") (auto simp: finished_def)
  next
    case (Searching e)
    then show ?thesis using sqStep.nothing [of st e ws w n] sqStep.count [of st e ws w n] x
      by (cases "w e = []") (auto simp: finished_def)
  next
    case (Counted e)
    then show ?thesis using sqStep.report [of st e ws n w] x by (auto simp: finished_def)
  qed
qed

lemma step_exists:
  assumes "0 < n" "\<not> sqFinal st"
  shows "\<exists>st'. sqStep n w st st' \<and> sqCancelled st' = sqCancelled st"
proof (cases "sqLoop st")
  case AtLoop
  then show ?thesis
    using sqStep.loop_end [of st n w] sqStep.loop_break [of st _ _ n w] sqStep.loop_next [of st _ _ n w]
    by (cases "sqRest st"; cases "globalMatchCap \<le> sqTotal st \<or> sqCancelled st") (auto simp: not_le)
next
  case (Waiting e)
  show ?thesis
  proof (cases "size (sqRun st) < n")
    case True
    then show ?thesis using Waiting sqStep.acquire [of st e n w] by auto
  next
    case False
    then have "sqRun st \<noteq> {#}" using assms(1) by auto
    then show ?thesis by (rule worker_step)
  qed
next
  case (Acquired e)
  then show ?thesis using sqStep.loop_stop [of st e n w] sqStep.spawn [of st e n w]
    by (cases "globalMatchCap \<le> sqTotal st \<or> sqCancelled st") (auto simp: not_le)
next
  case LoopDone
  then have "sqRun st \<noteq> {#}" using assms(2) by (simp add: sqFinal_def)
  then show ?thesis by (rule worker_step)
qed

lemma final_from:
  assumes "0 < n"
  shows "\<exists>st'. (sqStep n w)\<^sup>*\<^sup>* st st' \<and> sqFinal st' \<and> sqCancelled st' = sqCancelled st"
proof (induction "sqWork st" arbitrary: st rule: less_induct)
  case less
  show ?case
  proof (cases "sqFinal st")
    case False
    then obtain y where y: "sqStep n w st y" "sqCancelled y = sqCancelled st" using step_exists [OF assms] by blast
    then obtain z where "(sqStep n w)\<^sup>*\<^sup>* y z" "sqFinal z" "sqCancelled z = sqCancelled y" using less sqStep_work by blast
    then show ?thesis using y by (metis converse_rtranclp_into_rtranclp)
  qed auto
qed

lemma final_reachable:
  assumes "0 < n"
  obtains st where "sqReach n w exts st" "sqFinal st" "\<not> sqCancelled st"
proof -
  obtain st where "(sqStep n w)\<^sup>*\<^sup>* (sqInit exts) st" "sqFinal st" "sqCancelled st = sqCancelled (sqInit exts)"
    using final_from [OF assms] by blast
  then show thesis using that by (simp add: sqReach_def sqInit_def)
qed

lemma steps_work: "(sqStep n w ^^ k) st st' \<Longrightarrow> k + sqWork st' \<le> sqWork st"
proof (induction k arbitrary: st')
  case (Suc k)
  then obtain y where "(sqStep n w ^^ k) st y" "sqStep n w y st'" by auto
  then show ?case using Suc.IH sqStep_work by fastforce
qed simp

section \<open>Properties\<close>

lemma found_eq:
  assumes "sq_inv n w exts st"
  shows "map (\<lambda>e. (e, w e)) (map fst (sqFound st)) = sqFound st"
proof -
  have "map (\<lambda>x. (fst x, w (fst x))) (sqFound st) = sqFound st"
    by (rule map_idI) (use assms in \<open>auto simp: sq_inv_def\<close>)
  then show ?thesis by (simp add: comp_def)
qed

lemma final_found:
  assumes "sqReach n w exts st" "sqFinal st"
  shows "mset (map fst (sqFound st)) \<subseteq># mset exts" "(e, ms) \<in> set (sqFound st) \<Longrightarrow> ms = w e \<and> ms \<noteq> []"
    "sqTotal st = sum_list (map (\<lambda>(e, ms). matchCount ms) (sqFound st))"
    "sqTotal st < globalMatchCap \<Longrightarrow> \<not> sqCancelled st \<Longrightarrow>
       mset (sqFound st) = image_mset (\<lambda>e. (e, w e)) (filter_mset (\<lambda>e. w e \<noteq> []) (mset exts))"
proof -
  have i: "sq_inv n w exts st" by (rule sq_inv_reach [OF assms(1)])
  have f: "sqRun st = {#}" "sqLoop st = LoopDone" using assms(2) by (simp_all add: sqFinal_def)
  show "mset (map fst (sqFound st)) \<subseteq># mset exts"
    using i unfolding sq_inv_def by (meson mset_subset_eq_add_left subset_mset.order_trans)
  show "ms = w e \<and> ms \<noteq> []" if "(e, ms) \<in> set (sqFound st)" using i that by (auto simp: sq_inv_def)
  show "sqTotal st = sum_list (map (\<lambda>(e, ms). matchCount ms) (sqFound st))" using i f by (simp add: sq_inv_def)
  assume "sqTotal st < globalMatchCap" "\<not> sqCancelled st"
  then have "filter_mset (\<lambda>e. w e \<noteq> []) (mset exts) = mset (map fst (sqFound st))"
    using i f by (simp add: sq_inv_def pending_def)
  then show "mset (sqFound st) = image_mset (\<lambda>e. (e, w e)) (filter_mset (\<lambda>e. w e \<noteq> []) (mset exts))"
    using found_eq [OF i] by (metis mset_map)
qed

text \<open>What a search of the store returns.\<close>

lemma searchExts_facts:
  assumes "store_inv s" "distinct keys" "set keys = dom (stList s)"
  shows "distinct (map eSlug (searchExts keys s))"
    "e \<in> set (searchExts keys s) \<longleftrightarrow> stList s (eSlug e) = Some e \<and> hasIndex e s"
proof -
  have "mset (searchExts keys s) = mset (filter (\<lambda>e. hasIndex e s) (GetAll keys s))" by (simp add: searchExts_def)
  then have "mset (map eSlug (searchExts keys s)) = mset (map eSlug (filter (\<lambda>e. hasIndex e s) (GetAll keys s)))" by simp
  moreover have "distinct (map eSlug (filter (\<lambda>e. hasIndex e s) (GetAll keys s)))"
    using GetAll_slugs [OF assms(1,2)] by (rule distinct_map_filter)
  ultimately show "distinct (map eSlug (searchExts keys s))" by (metis mset_eq_imp_distinct_iff)
  show "e \<in> set (searchExts keys s) \<longleftrightarrow> stList s (eSlug e) = Some e \<and> hasIndex e s"
    using assms(3) store_invE [OF assms(1)] by (auto simp: searchExts_def GetAll_mem)
qed

lemma StoreSearch_ok:
  assumes inv: "store_inv s" "distinct keys" "set keys = dom (stList s)" and cs: "CompileSearch lib pat opt = Some (Inr (Inr cs))"
    and r: "StoreSearch lib fs n keys pat opt s (Inr (hs, tot))"
  shows "tot = stTotal s" "distinct (map (\<lambda>h. eSlug (fst h)) hs)"
    "\<And>e ms. (e, ms) \<in> set hs \<Longrightarrow> stList s (eSlug e) = Some e \<and> hasIndex e s \<and> ms = workerMatches lib fs cs s e \<and> ms \<noteq> []"
    "sum_list (map (\<lambda>(e, ms). matchCount ms) hs) < globalMatchCap \<Longrightarrow>
       mset hs = image_mset (\<lambda>e. (e, workerMatches lib fs cs s e))
         (filter_mset (\<lambda>e. workerMatches lib fs cs s e \<noteq> []) (mset (searchExts keys s)))"
proof -
  let ?w = "workerMatches lib fs cs s" and ?exts = "searchExts keys s"
  have "tot = stTotal s \<and> mset (map fst hs) \<subseteq># mset ?exts \<and> (\<forall>(e, ms) \<in> set hs. ms = ?w e \<and> ms \<noteq> []) \<and>
    (sum_list (map (\<lambda>(e, ms). matchCount ms) hs) < globalMatchCap \<longrightarrow>
       mset hs = image_mset (\<lambda>e. (e, ?w e)) (filter_mset (\<lambda>e. ?w e \<noteq> []) (mset ?exts)))"
    using r
  proof cases
    case (3 cs' exts st)
    have [simp]: "cs' = cs" using 3(2) cs by simp
    have o: "\<not> sqCancelled st" "hs = sqFound st" "tot = stTotal s" using 3(1) by (auto simp: sqOutcome_def split: if_splits)
    show ?thesis using final_found [OF 3(5,6)] o 3(3) by auto
  qed (use cs in auto)
  then have f: "tot = stTotal s" "mset (map fst hs) \<subseteq># mset ?exts" "\<And>e ms. (e, ms) \<in> set hs \<Longrightarrow> ms = ?w e \<and> ms \<noteq> []"
    "sum_list (map (\<lambda>(e, ms). matchCount ms) hs) < globalMatchCap \<Longrightarrow>
       mset hs = image_mset (\<lambda>e. (e, ?w e)) (filter_mset (\<lambda>e. ?w e \<noteq> []) (mset ?exts))" by auto
  show "tot = stTotal s" by (rule f(1))
  have "image_mset eSlug (mset (map fst hs)) \<subseteq># image_mset eSlug (mset ?exts)" by (rule image_mset_subseteq_mono [OF f(2)])
  then obtain M where "image_mset eSlug (mset ?exts) = image_mset eSlug (mset (map fst hs)) + M"
    by (metis subset_mset.add_diff_inverse)
  moreover obtain ms where "mset ms = M" using ex_mset by blast
  ultimately have "mset (map eSlug ?exts) = mset (map (\<lambda>h. eSlug (fst h)) hs @ ms)" by (simp add: multiset.map_comp comp_def)
  then have "distinct (map (\<lambda>h. eSlug (fst h)) hs @ ms)"
    using searchExts_facts(1) [OF inv] by (metis mset_eq_imp_distinct_iff)
  then show "distinct (map (\<lambda>h. eSlug (fst h)) hs)" by simp
  show "stList s (eSlug e) = Some e \<and> hasIndex e s \<and> ms = ?w e \<and> ms \<noteq> []" if m: "(e, ms) \<in> set hs" for e ms
  proof -
    have "e \<in># mset (map fst hs)" using m by force
    then have "e \<in> set ?exts" using mset_subset_eqD [OF f(2)] by simp
    then show ?thesis using searchExts_facts(2) [OF inv] f(3) [OF m] by blast
  qed
  show "mset hs = image_mset (\<lambda>e. (e, ?w e)) (filter_mset (\<lambda>e. ?w e \<noteq> []) (mset ?exts))"
    if "sum_list (map (\<lambda>(e, ms). matchCount ms) hs) < globalMatchCap" using f(4) that .
qed

text \<open>
  C6. A search of the store that is not cancelled returns each of its extensions at most once, with the matches of its
  index, and only extensions that are listed, have an index and match; and when fewer matches than the cap are
  returned, every extension that matches is there.
\<close>

theorem store_search_complete:
  assumes "store_inv s" "distinct keys" "set keys = dom (stList s)" "CompileSearch lib pat opt = Some (Inr (Inr cs))"
    "StoreSearch lib fs n keys pat opt s (Inr (hs, tot))"
  shows "distinct (map (\<lambda>h. eSlug (fst h)) hs) \<and>
    (\<forall>(e, ms) \<in> set hs. stList s (eSlug e) = Some e \<and> hasIndex e s \<and> ms = workerMatches lib fs cs s e \<and> ms \<noteq> []) \<and>
    (sum_list (map (\<lambda>(e, ms). matchCount ms) hs) < globalMatchCap \<longrightarrow>
       (\<forall>slug e. stList s slug = Some e \<and> workerMatches lib fs cs s e \<noteq> [] \<longrightarrow> (e, workerMatches lib fs cs s e) \<in> set hs))"
proof -
  note ok = StoreSearch_ok [OF assms]
  have "(e, workerMatches lib fs cs s e) \<in> set hs"
    if c: "sum_list (map (\<lambda>(e, ms). matchCount ms) hs) < globalMatchCap" and e: "stList s slug = Some e" "workerMatches lib fs cs s e \<noteq> []"
    for slug e
  proof -
    obtain a where a: "eSlug e = slug" "eIE e = Some a" by (rule store_invE [OF assms(1) e(1)])
    have "hasIndex e s"
    proof (rule ccontr)
      assume "\<not> hasIndex e s"
      then have "stIEs s ! a = None" by (simp add: hasIndex_def a(2))
      then show False using e(2) by (simp add: workerMatches_def ieSearchCompiled_def a(2))
    qed
    then have "e \<in> set (searchExts keys s)" using searchExts_facts(2) [OF assms(1-3)] a(1) e(1) by blast
    then have "(e, workerMatches lib fs cs s e) \<in># mset hs" using e(2) unfolding ok(4) [OF c] by auto
    then show ?thesis by simp
  qed
  then show ?thesis using ok(2,3) by blast
qed

text \<open>A store with the index of the sample.\<close>

definition indexedStore :: "xindex \<Rightarrow> unit estore" where
  "indexedStore x = sampleStore\<lparr>stIEs := [Some x, None]\<rparr>"

lemma indexedStore_facts:
  "store_inv (indexedStore x)" "dom (stList (indexedStore x)) = {bytes_of ''a'', bytes_of ''b''}"
  "searchExts [bytes_of ''a'', bytes_of ''b''] (indexedStore x) = [sampleExt ''a'' (Some 0)]"
proof -
  show "store_inv (indexedStore x)"
    by (simp add: indexedStore_def sampleStore_eq store_inv_def ie_of_def sampleExt_def bytes_of_def)
  show "dom (stList (indexedStore x)) = {bytes_of ''a'', bytes_of ''b''}" by (simp add: indexedStore_def sample_dom)
  show "searchExts [bytes_of ''a'', bytes_of ''b''] (indexedStore x) = [sampleExt ''a'' (Some 0)]"
    by (simp add: searchExts_def GetAll_def map_filter_simps indexedStore_def sampleStore_eq sampleExt_def hasIndex_def bytes_of_def)
qed

lemma sample_compile_opts:
  assumes "soFileRegexp opt = []" "soExcludeFileRegexp opt = []" "\<not> soLiteralSearch opt"
  obtains cs where "CompileSearch sampleLib pat (Some opt) = Some (Inr (Inr cs))"
proof -
  define e where "e = getRegexpPattern pat (soIgnoreCase opt)"
  have l: "libParse sampleLib e = Inr (lit ''abc'')" "libProg sampleLib (lit ''abc'') = Inr abcProg"
    "libFind sampleLib e = Inr (\<lambda>_. Some 0)" by (simp_all add: sampleLib_def)
  obtain q m where c: "Compile sampleLib e = Some (Inr (Inr \<lparr>reSyntax = lit ''abc'', reExpr = e, reM = m\<rparr>))"
    by (rule Compile_ok [OF sampleLib_ok(1) l(1,2)]) blast
  have "parsed (lit ''abc'')" "grow_ok (libGrow sampleLib)" "simpleFold_ok (libFold sampleLib)"
    using sampleLib_ok(1) l(1) unfolding lib_ok_def by blast+
  then obtain qr where "RegexpQuery (libFold sampleLib) (libGrow sampleLib) (lit ''abc'') = Some (Inr qr)"
    using RegexpQuery_returns by blast
  then show thesis using that l c assms
    by (auto simp: CompileSearch_def Let_def e_def [symmetric] fileRe_def split: if_splits)
qed

lemma sample_compile: obtains cs where "CompileSearch sampleLib pat None = Some (Inr (Inr cs))"
proof -
  obtain cs where "CompileSearch sampleLib pat (Some noOptions) = Some (Inr (Inr cs))"
    by (rule sample_compile_opts [of noOptions]) (simp_all add: noOptions_def)
  then show thesis using that by (simp add: CompileSearch_def)
qed

theorem store_search_complete_witness:
  "\<exists>x cs hs. CompileSearch sampleLib (bytes_of ''abc'') None = Some (Inr (Inr cs)) \<and> xiIdx x \<noteq> None \<and>
     StoreSearch sampleLib sampleFs 4 [bytes_of ''a'', bytes_of ''b''] (bytes_of ''abc'') None (indexedStore x) (Inr (hs, 2)) \<and>
     distinct (map (\<lambda>h. eSlug (fst h)) hs)"
proof -
  obtain ix where "ixName 0 ix = Inr (bytes_of ''a'')" by (rule sample_index)
  obtain cs where cs: "CompileSearch sampleLib (bytes_of ''abc'') None = Some (Inr (Inr cs))" by (rule sample_compile)
  define x where "x = sampleX\<lparr>xiIdx := Some ix\<rparr>"
  define s where "s = indexedStore x"
  let ?keys = "[bytes_of ''a'', bytes_of ''b'']"
  have ex: "searchExts ?keys s = [sampleExt ''a'' (Some 0)]" unfolding s_def by (rule indexedStore_facts(3))
  obtain st where st: "sqReach 1 (workerMatches sampleLib sampleFs cs s) [sampleExt ''a'' (Some 0)] st" "sqFinal st" "\<not> sqCancelled st"
    using final_reachable [OF zero_less_one] by blast
  have "StoreSearch sampleLib sampleFs 4 ?keys (bytes_of ''abc'') None s (sqOutcome (stTotal s) st)"
    by (rule StoreSearch.intros(3) [OF cs ex [symmetric]]) (use st in simp_all)
  then have r: "StoreSearch sampleLib sampleFs 4 ?keys (bytes_of ''abc'') None s (Inr (sqFound st, 2))"
    using st(3) by (simp add: sqOutcome_def s_def indexedStore_def sampleStore_eq)
  have "distinct ?keys" "set ?keys = dom (stList s)" by (simp_all add: sample_link s_def indexedStore_facts(2))
  from store_search_complete [OF indexedStore_facts(1) [of x, folded s_def] this cs r]
  have "distinct (map (\<lambda>h. eSlug (fst h)) (sqFound st))" by blast
  moreover have "xiIdx x \<noteq> None" by (simp add: x_def)
  ultimately show ?thesis using cs r unfolding s_def by blast
qed

text \<open>
  C26. However the loop and its workers are interleaved, the matches counted are fewer than the cap and those of one more
  extension for each worker: with at most \<open>m\<close> matches in an extension, at most \<open>globalMatchCap - 1 + n * m\<close>; and never more
  than \<open>n\<close> workers run.
\<close>

theorem search_total_bounded:
  assumes "sqReach n w exts st" "\<forall>e \<in> set exts. matchCount (w e) \<le> m"
  shows "sqTotal st \<le> globalMatchCap - 1 + n * m \<and> size (sqRun st) \<le> n"
  using room_reach [OF assms] sq_inv_reach [OF assms(1)] by (simp add: room_def sq_inv_def)

theorem search_total_bounded_witness:
  "\<exists>st. sqReach 2 (\<lambda>_. []) [sampleExt ''a'' None, sampleExt ''b'' None] st \<and> sqFinal st \<and> sqTotal st \<le> 99999"
proof -
  obtain st where st: "sqReach 2 (\<lambda>_. []) [sampleExt ''a'' None, sampleExt ''b'' None] st" "sqFinal st"
    using final_reachable [OF zero_less_numeral] by blast
  have "\<forall>e \<in> set [sampleExt ''a'' None, sampleExt ''b'' None]. matchCount ((\<lambda>_. []) e) \<le> 0" by (simp add: matchCount_def)
  from search_total_bounded [OF st(1) this] have "sqTotal st \<le> 99999" by (simp add: globalMatchCap_def)
  then show ?thesis using st by blast
qed

text \<open>
  C27. A search ends: with at least one worker no state but the last ones is stuck, and no run, under any schedule, is
  longer than six steps for every extension and two more.
\<close>

theorem search_ends:
  assumes "0 < n" "(sqStep n w ^^ k) (sqInit exts) st"
  shows "k \<le> 6 * length exts + 2 \<and> (sqFinal st \<or> (\<exists>st'. sqStep n w st st'))"
  using steps_work [OF assms(2)] step_exists [OF assms(1)] by (auto simp: sqWork_def sqInit_def)

theorem search_ends_witness: "\<exists>st'. sqStep 1 (\<lambda>_. []) (sqInit [sampleExt ''a'' None]) st'"
  using search_ends [of 1 0 "\<lambda>_. []" "[sampleExt ''a'' None]" "sqInit [sampleExt ''a'' None]"]
  by (simp add: sqFinal_def sqInit_def)

end
