(* ===== verification/Source_Store.thy ===== *)
theory Source_Store
  imports Store_Search
begin

text \<open>
  The stores as sources of the manager: \<open>internal/repo/plugins.go\<close>, \<open>themes.go\<close> and \<open>cores.go\<close>.

  What comes from the network is an argument: the pages of the feed of updates, already decoded, and the time an item
  was updated, parsed.  The loop over the pages ends only if the pages do, so it may not return.
\<close>

section \<open>Loading a source\<close>

text \<open>Every extension read from the database or fetched gets an index object of its own.\<close>

fun withIEs :: "ext list \<Rightarrow> 'db estore \<Rightarrow> ext list \<times> 'db estore" where
  "withIEs [] s = ([], s)"
| "withIEs (e # exts) s = (let (a, s1) = NewIndexedExtension s; (es, s2) = withIEs exts s1 in (e\<lparr>eIE := Some a\<rparr> # es, s2))"

definition Load :: "gerr + ext list \<Rightarrow> (gostr \<Rightarrow> xindex option) \<Rightarrow> gostr \<Rightarrow> (goerr + (gostr \<times> bool) list) \<Rightarrow> gostr list \<Rightarrow>
    'db estore \<Rightarrow> (gerr option \<times> 'db estore) res" where
  "Load rows opn filesDir dirEntries order s =
     (let (loaded, s1) = (case rows of Inl err \<Rightarrow> (Inl err, s)
            | Inr exts \<Rightarrow> let (es, s1) = withIEs exts s in (Inr es, s1));
          (err, s2) = LoadFromDB loaded s1
      in if err \<noteq> None then Inr (err, s2)
         else rbind (LoadIndexes opn filesDir dirEntries order s2) (\<lambda>(s3, removed). Inr (None, s3)))"

section \<open>The feed of updates\<close>

record pageInfo =
  piPage :: int
  piPages :: int
  piResults :: int

text \<open>An item of the feed: the extension, the columns a full scan refreshes and the time of its last update.\<close>

record apiItem =
  aiExt :: ext
  aiMeta :: dbrow
  aiUpdated :: "int option"

type_synonym feed = "nat \<Rightarrow> gerr + apiItem list \<times> pageInfo"

definition fetchPage :: "feed \<Rightarrow> nat \<Rightarrow> gerr + apiItem list \<times> pageInfo" where
  "fetchPage api pg = (case api pg of Inl err \<Rightarrow> Inl err
     | Inr (items, info) \<Rightarrow>
         if piPages info > 0 \<and> piPage info > piPages info then Inl (ErrText (bytes_of ''API returned a page that does not exist''))
         else Inr (items, info))"

definition defaultSource :: "ext \<Rightarrow> ext" where
  "defaultSource e = (if eSource e = [] then e\<lparr>eSource := SourceWordPress\<rparr> else e)"

text \<open>The items of one page, and whether one was older than the threshold.\<close>

fun takeSince :: "int \<Rightarrow> apiItem list \<Rightarrow> ext list \<Rightarrow> ext list \<times> bool" where
  "takeSince threshold [] acc = (acc, False)"
| "takeSince threshold (p # ps) acc = (case aiUpdated p of
       None \<Rightarrow> takeSince threshold ps acc
     | Some ts \<Rightarrow> if ts < threshold then (acc, True) else takeSince threshold ps (acc @ [defaultSource (aiExt p)]))"

partial_function (option) sincePages :: "feed \<Rightarrow> int \<Rightarrow> nat \<Rightarrow> ext list \<Rightarrow> (gerr + ext list) option" where
  "sincePages api threshold pg acc = (case fetchPage api pg of
       Inl err \<Rightarrow> Some (Inl (Wrapped (bytes_of ''failed to fetch page'') err))
     | Inr (items, info) \<Rightarrow>
         if items = [] then Some (Inr acc)
         else case takeSince threshold items acc of (acc1, stop) \<Rightarrow>
           if stop then Some (Inr acc1)
           else if int pg \<ge> piPages info then Some (Inr acc1)
           else sincePages api threshold (pg + 1) acc1)"

definition FetchPluginsSince :: "feed \<Rightarrow> int \<Rightarrow> (gerr + ext list) option" where
  "FetchPluginsSince api since = sincePages api (since - 2 * 3600) 1 []"

section \<open>The full scan\<close>

definition getAllKnownSlugs :: "(gerr + gostr list) \<Rightarrow> 'db estore \<Rightarrow> gerr + gostr set" where
  "getAllKnownSlugs dbSlugs s = (case dbSlugs of
       Inl err \<Rightarrow> Inl (Wrapped (bytes_of ''failed to load known plugin slugs'') err)
     | Inr slugs \<Rightarrow> Inr (dom (stList s) \<union> set slugs))"

text \<open>One item: a known extension has its columns refreshed, a new one with a download is collected.\<close>

definition scanItem :: "'db dbops \<Rightarrow> gostr set \<Rightarrow> apiItem \<Rightarrow> ext list \<times> 'db estore \<Rightarrow> ext list \<times> 'db estore" where
  "scanItem ops known p = (\<lambda>(acc, s).
     let e = defaultSource (aiExt p) in
     if eSlug e \<in> known then (acc, updateMetadata ops (eSlug e) (eSource e) (aiMeta p) s)
     else if eDownloadLink e = [] then (acc, s)
     else let (a, s1) = NewIndexedExtension s in (acc @ [e\<lparr>eIE := Some a\<rparr>], s1))"

partial_function (option) scanPages :: "'db dbops \<Rightarrow> feed \<Rightarrow> gostr set \<Rightarrow> nat \<Rightarrow> ext list \<times> 'db estore \<Rightarrow>
    ((gerr + ext list) \<times> 'db estore) option" where
  "scanPages ops api known pg r = (case fetchPage api pg of
       Inl err \<Rightarrow> Some (Inl (Wrapped (bytes_of ''failed to fetch plugin page'') err), snd r)
     | Inr (items, info) \<Rightarrow>
         if items = [] then Some (Inr (fst r), snd r)
         else let r1 = fold (scanItem ops known) items r in
           if int pg \<ge> piPages info then Some (Inr (fst r1), snd r1)
           else scanPages ops api known (pg + 1) r1)"

definition discoverNewPlugins :: "'db dbops \<Rightarrow> feed \<Rightarrow> (gerr + gostr list) \<Rightarrow> 'db estore \<Rightarrow> ((gerr + ext list) \<times> 'db estore) option" where
  "discoverNewPlugins ops api dbSlugs s = (case getAllKnownSlugs dbSlugs s of
       Inl err \<Rightarrow> Some (Inl err, s)
     | Inr known \<Rightarrow> scanPages ops api known 1 ([], s))"

section \<open>Versions of WordPress\<close>

text \<open>\<open>strings.Split\<close> at dots, and \<open>strconv.Atoi\<close> with its error ignored: 0, or the nearest \<open>int\<close> when it is too large.\<close>

fun splitDots :: "gostr \<Rightarrow> gostr list" where
  "splitDots [] = [[]]"
| "splitDots (c # s) = (if c = 0x2E then [] # splitDots s else (c # hd (splitDots s)) # tl (splitDots s))"

definition atoiDigits :: "gostr \<Rightarrow> int option" where
  "atoiDigits s = (if s \<noteq> [] \<and> list_all isDigit s then Some (foldl (\<lambda>n c. 10 * n + (uint c - 0x30)) 0 s) else None)"

definition atoi :: "gostr \<Rightarrow> int" where
  "atoi s = (let (neg, ds) = (case s of [] \<Rightarrow> (False, []) | c # r \<Rightarrow> if c = 0x2D then (True, r) else if c = 0x2B then (False, r) else (False, s))
     in case atoiDigits ds of None \<Rightarrow> 0
        | Some n \<Rightarrow> if neg then max (- n) (- (2 ^ 63)) else min n (2 ^ 63 - 1))"

definition part :: "gostr list \<Rightarrow> nat \<Rightarrow> int" where
  "part ps i = (if i < length ps then atoi (ps ! i) else 0)"

fun compareParts :: "gostr list \<Rightarrow> gostr list \<Rightarrow> nat list \<Rightarrow> int" where
  "compareParts pa pb [] = 0"
| "compareParts pa pb (i # is) = (if part pa i < part pb i then -1 else if part pa i > part pb i then 1 else compareParts pa pb is)"

definition compareVersions :: "gostr \<Rightarrow> gostr \<Rightarrow> int" where
  "compareVersions a b = (let pa = splitDots a; pb = splitDots b in compareParts pa pb [0..<max (length pb) (length pa)])"

definition coreStep :: "nat \<Rightarrow> nat \<Rightarrow> ext list \<Rightarrow> ext list" where
  "coreStep i j cs = (if compareVersions (eVersion (cs ! i)) (eVersion (cs ! j)) > 0 then swapAt i j cs else cs)"

definition sortCoresByVersion :: "ext list \<Rightarrow> ext list" where
  "sortCoresByVersion cs = fold (\<lambda>i. fold (coreStep i) [i + 1..<length cs]) [0..<length cs - 1] cs"

definition isVersionIndexed :: "gostr \<Rightarrow> 'db estore \<Rightarrow> bool" where
  "isVersionIndexed version s = (case Get version s of None \<Rightarrow> False | Some e \<Rightarrow> hasIndex e s)"

section \<open>Preparing the updates of a source\<close>

datatype firstRes = RowFound | RowMissing | RowError

record 'db saveOps =
  svFirst :: "gostr \<Rightarrow> gostr \<Rightarrow> 'db \<Rightarrow> firstRes"
  svSave :: "ext \<Rightarrow> 'db \<Rightarrow> bool \<times> 'db"
  svCreate :: "ext \<Rightarrow> 'db \<Rightarrow> bool \<times> 'db"

definition saveFn :: "'db saveOps \<Rightarrow> ext \<Rightarrow> 'db \<Rightarrow> bool \<times> 'db" where
  "saveFn sv e db = (case svFirst sv (eSlug e) (eSource e) db of
       RowFound \<Rightarrow> svSave sv e db | RowMissing \<Rightarrow> svCreate sv e db | RowError \<Rightarrow> (True, db))"

text \<open>The fetch of plugins and themes: a full scan when one is due, else the updates since the watermark.\<close>

datatype fetched = FullScan feed "gerr + gostr list" | Updates "gerr + ext list"

definition pluginFetch :: "'db dbops \<Rightarrow> fetched \<Rightarrow> 'db estore \<Rightarrow> ((gerr + ext list) \<times> 'db estore) option" where
  "pluginFetch ops f s = (case f of
       FullScan api dbSlugs \<Rightarrow> discoverNewPlugins ops api dbSlugs s
     | Updates (Inl err) \<Rightarrow> Some (Inl err, s)
     | Updates (Inr exts) \<Rightarrow> let (es, s1) = withIEs exts s in Some (Inr es, s1))"

definition coreFetch :: "gerr + ext list \<Rightarrow> 'db estore \<Rightarrow> (gerr + ext list) \<times> 'db estore" where
  "coreFetch f s = (case f of Inl err \<Rightarrow> (Inl err, s)
     | Inr cores \<Rightarrow> let (es, s1) = withIEs cores s
         in (Inr (sortCoresByVersion (filter (\<lambda>c. \<not> isVersionIndexed (eVersion c) s1) es)), s1))"

definition sourcePrepare :: "'db dbops \<Rightarrow> 'db saveOps \<Rightarrow> fetched \<Rightarrow> 'db estore \<Rightarrow> ((gerr + task list) \<times> 'db estore) option" where
  "sourcePrepare ops sv f s =
     (case (if stType s = TypeCores
            then (case f of FullScan _ _ \<Rightarrow> None | Updates r \<Rightarrow> Some (coreFetch r s))
            else pluginFetch ops f s) of
        None \<Rightarrow> None
      | Some (r, s1) \<Rightarrow> Some (PrepareUpdates r (saveFn sv) s1))"

end
