(* ===== verification/Source_Correct.thy ===== *)
theory Source_Correct
  imports Source_Store
begin

text \<open>
  The sources keep the invariant of their store: index objects are given out fresh, a loaded store is well formed, and a
  prepared batch is as \<open>PrepareUpdates\<close> needs it.  The order of versions is total, so the cores are sorted.
\<close>

section \<open>Fresh index objects\<close>

definition grown :: "'db estore \<Rightarrow> 'db estore \<Rightarrow> bool" where
  "grown s s1 \<longleftrightarrow> stList s1 = stList s \<and> stType s1 = stType s \<and> (\<exists>n. stIEs s1 = stIEs s @ replicate n None)"

lemma grownI: "stList s1 = stList s \<Longrightarrow> stType s1 = stType s \<Longrightarrow> stIEs s1 = stIEs s @ replicate n None \<Longrightarrow> grown s s1"
  unfolding grown_def by blast

lemma grown_refl: "grown s s"
  by (rule grownI [of _ _ 0]) simp_all

lemma grown_trans: "grown s s1 \<Longrightarrow> grown s1 s2 \<Longrightarrow> grown s s2"
  by (auto simp: grown_def) (metis replicate_add)

lemma grown_same: "stList s1 = stList s \<Longrightarrow> stType s1 = stType s \<Longrightarrow> stIEs s1 = stIEs s \<Longrightarrow> grown s s1"
  by (rule grownI [of _ _ 0]) simp_all

lemma grown_new: "NewIndexedExtension s = (a, s1) \<Longrightarrow> grown s s1 \<and> a = length (stIEs s) \<and> length (stIEs s1) = Suc a"
  by (auto simp: NewIndexedExtension_def intro!: grownI [of _ _ 1])

lemma grown_length: "grown s s1 \<Longrightarrow> length (stIEs s) \<le> length (stIEs s1)"
  by (auto simp: grown_def)

lemma grown_ie_of: "grown s s1 \<Longrightarrow> ie_of s1 slug = ie_of s slug"
  by (simp add: grown_def ie_of_def)

lemma ie_of_bound:
  assumes "store_inv s" "ie_of s slug = Some a"
  shows "a < length (stIEs s)"
proof -
  obtain e where e: "stList s slug = Some e" "eIE e = Some a" using assms(2) by (auto simp: ie_of_def split: option.splits)
  show ?thesis by (rule store_invE [OF assms(1) e(1)]) (use e(2) in simp)
qed

lemma grown_inv:
  assumes "grown s s1" "store_inv s"
  shows "store_inv s1" "indexed slug s1 \<longleftrightarrow> indexed slug s" "stList s slug = Some e \<Longrightarrow> hasIndex e s1 \<longleftrightarrow> hasIndex e s"
proof -
  have i: "ie_of s1 sl = ie_of s sl" for sl by (rule grown_ie_of [OF assms(1)])
  have l: "stList s1 = stList s" using assms(1) by (simp add: grown_def)
  have "eSlug e = slug \<and> (\<exists>a. eIE e = Some a \<and> a < length (stIEs s1))" if e: "stList s slug = Some e" for slug e
  proof -
    obtain a where "eSlug e = slug" "eIE e = Some a" "a < length (stIEs s)" by (rule store_invE [OF assms(2) e])
    then show ?thesis using grown_length [OF assms(1)] by auto
  qed
  then have "\<forall>slug e. stList s slug = Some e \<longrightarrow> eSlug e = slug \<and> (\<exists>a. eIE e = Some a \<and> a < length (stIEs s1))" by blast
  moreover have "finite (dom (stList s))" "\<forall>sl sl' a. ie_of s sl = Some a \<longrightarrow> ie_of s sl' = Some a \<longrightarrow> sl = sl'"
    using assms(2) unfolding store_inv_def by - (elim conjE, assumption)+
  ultimately show "store_inv s1" unfolding store_inv_def i l by (intro conjI)
  have h: "hasIndex e s1 \<longleftrightarrow> hasIndex e s" if e: "stList s slug = Some e" for slug e
  proof -
    obtain a where a: "eIE e = Some a" "a < length (stIEs s)" by (rule store_invE [OF assms(2) e])
    obtain n where "stIEs s1 = stIEs s @ replicate n None" using assms(1) unfolding grown_def by blast
    then show ?thesis using a by (simp add: hasIndex_def nth_append)
  qed
  show "hasIndex e s1 \<longleftrightarrow> hasIndex e s" if "stList s slug = Some e" using h [OF that] .
  show "indexed slug s1 \<longleftrightarrow> indexed slug s" unfolding indexed_def l using h by blast
qed

text \<open>Extensions whose index objects were given out after \<open>n\<close> and before \<open>m\<close>.\<close>

definition newIEs :: "nat \<Rightarrow> nat \<Rightarrow> ext list \<Rightarrow> bool" where
  "newIEs n m es \<longleftrightarrow> distinct (map eIE es) \<and> (\<forall>e \<in> set es. \<exists>a. eIE e = Some a \<and> n \<le> a \<and> a < m)"

lemma newIEs_fresh:
  assumes "newIEs (length (stIEs s)) (length (stIEs s1)) es" "grown s s1" "store_inv s"
  shows "fresh s1 es"
proof -
  have a: "ie_of s1 sl \<noteq> Some a" if "length (stIEs s) \<le> a" for sl a
    using that ie_of_bound [OF assms(3)] by (metis grown_ie_of [OF assms(2)] leD)
  have "distinct (List.map_filter eIE es)"
    using assms(1) by (auto simp: newIEs_def List.map_filter_def distinct_map inj_on_def)
  then show ?thesis using assms(1) a unfolding fresh_def newIEs_def by (metis option.inject)
qed

lemma withIEs_ok:
  "withIEs exts s = (es, s1) \<Longrightarrow> grown s s1 \<and> newIEs (length (stIEs s)) (length (stIEs s1)) es \<and> map eSlug es = map eSlug exts"
proof (induction exts arbitrary: s es s1)
  case (Cons e exts)
  obtain a s' where a: "NewIndexedExtension s = (a, s')" by fastforce
  obtain es' where es: "withIEs exts s' = (es', s1)" "es = e\<lparr>eIE := Some a\<rparr> # es'"
    using Cons.prems a by (auto split: prod.splits)
  note ih = Cons.IH [OF es(1)] and n = grown_new [OF a]
  have "length (stIEs s') \<le> length (stIEs s1)" using ih grown_length by blast
  then have "newIEs (length (stIEs s)) (length (stIEs s1)) es" using ih n unfolding es(2) newIEs_def by fastforce
  then show ?case using ih n grown_trans es(2) by auto
qed (simp add: grown_refl newIEs_def)

section \<open>The full scan\<close>

lemma updateMetadata_fields:
  "stList (updateMetadata ops sl so u s) = stList s" "stIEs (updateMetadata ops sl so u s) = stIEs s"
  "stType (updateMetadata ops sl so u s) = stType s"
proof -
  obtain err s1 where r: "dbSet ops (rowOf (stType s) sl so) u s = (err, s1)" by fastforce
  then have "stList s1 = stList s" "stIEs s1 = stIEs s" "stType s1 = stType s" using record_fields(1-3) by (metis snd_conv)+
  then show "stList (updateMetadata ops sl so u s) = stList s" "stIEs (updateMetadata ops sl so u s) = stIEs s"
    "stType (updateMetadata ops sl so u s) = stType s" by (simp_all add: updateMetadata_def r)
qed

definition scan_inv :: "'db estore \<Rightarrow> ext list \<times> 'db estore \<Rightarrow> bool" where
  "scan_inv s0 r \<longleftrightarrow> grown s0 (snd r) \<and> newIEs (length (stIEs s0)) (length (stIEs (snd r))) (fst r)"

lemma scanItem_ok: "scan_inv s0 r \<Longrightarrow> scan_inv s0 (scanItem ops known p r)"
proof -
  assume r: "scan_inv s0 r"
  obtain acc s where [simp]: "r = (acc, s)" by (cases r)
  define e where "e = defaultSource (aiExt p)"
  obtain a s1 where a: "NewIndexedExtension s = (a, s1)" by fastforce
  note n = grown_new [OF a]
  consider "eSlug e \<in> known" | "eSlug e \<notin> known" "eDownloadLink e = []" | "eSlug e \<notin> known" "eDownloadLink e \<noteq> []" by blast
  then show ?thesis
  proof cases
    case 1
    let ?s = "updateMetadata ops (eSlug e) (eSource e) (aiMeta p) s"
    have "grown s ?s" by (rule grown_same) (rule updateMetadata_fields)+
    then have "grown s0 ?s" using r grown_trans [of s0 s ?s] by (simp add: scan_inv_def)
    then show ?thesis using 1 r by (simp add: scanItem_def e_def [symmetric] Let_def scan_inv_def updateMetadata_fields)
  next
    case 2
    then show ?thesis using r by (simp add: scanItem_def e_def Let_def)
  next
    case 3
    have "newIEs (length (stIEs s0)) (length (stIEs s1)) (acc @ [e\<lparr>eIE := Some a\<rparr>])"
      using r n grown_length [of s0 s] unfolding newIEs_def scan_inv_def by fastforce
    then show ?thesis using 3 r n grown_trans a
      by (auto simp: scanItem_def e_def [symmetric] Let_def scan_inv_def)
  qed
qed

lemma scanPages_ok:
  assumes "scanPages ops api known pg r = Some y" "scan_inv s0 r"
  shows "grown s0 (snd y) \<and> (\<forall>es. fst y = Inr es \<longrightarrow> newIEs (length (stIEs s0)) (length (stIEs (snd y))) es)"
  using assms
proof (induction rule: scanPages.raw_induct [rotated, consumes 1])
  case (1 scanPages ops api known pg r y)
  show ?case
  proof (cases "fetchPage api pg")
    case (Inl err)
    then show ?thesis using 1 by (auto simp: scan_inv_def)
  next
    case (Inr ii)
    obtain items info where ii: "ii = (items, info)" by (cases ii)
    define r1 where "r1 = fold (scanItem ops known) items r"
    have r1: "scan_inv s0 r1"
      unfolding r1_def using 1(3) by (induction items arbitrary: r) (simp_all add: scanItem_ok)
    show ?thesis
    proof (cases "items = [] \<or> int pg \<ge> piPages info")
      case True
      then show ?thesis using 1(2,3) r1 by (auto simp: Inr ii r1_def Let_def scan_inv_def split: if_splits)
    next
      case False
      then have "scanPages ops api known (pg + 1) r1 = Some y" using 1(2) by (simp add: Inr ii r1_def Let_def)
      then show ?thesis using 1(1) r1 by blast
    qed
  qed
qed

section \<open>The versions of WordPress\<close>

text \<open>Two versions compare as their numbers do, padded with zeros to any common length.\<close>

definition nums :: "nat \<Rightarrow> gostr \<Rightarrow> int list" where
  "nums n v = map (part (splitDots v)) [0..<n]"

lemma compareParts_less:
  "compareParts pa pb is > 0 \<longleftrightarrow> map (part pb) is < map (part pa) is"
  by (induction "is") auto

lemma compareParts_append:
  "\<forall>i \<in> set js. part pa i = part pb i \<Longrightarrow> compareParts pa pb (is @ js) = compareParts pa pb is"
proof (induction "is")
  case Nil
  then show ?case by (induction js) auto
qed simp

lemma compareVersions_nums:
  assumes "length (splitDots a) \<le> n" "length (splitDots b) \<le> n"
  shows "compareVersions a b > 0 \<longleftrightarrow> nums n b < nums n a"
proof -
  let ?m = "max (length (splitDots b)) (length (splitDots a))"
  have n: "[0..<n] = [0..<?m] @ [?m..<n]" using assms using upt_add_eq_append [of 0 ?m "n - ?m"] by simp
  have "compareParts (splitDots a) (splitDots b) [0..<n] = compareVersions a b"
    unfolding n by (subst compareParts_append) (simp_all add: part_def compareVersions_def Let_def)
  then show ?thesis using compareParts_less [of "splitDots a" "splitDots b" "[0..<n]"] by (simp add: nums_def)
qed

definition newer :: "ext \<Rightarrow> ext \<Rightarrow> bool" where
  "newer x y \<longleftrightarrow> compareVersions (eVersion x) (eVersion y) > 0"

interpretation by_version: exchange_order newer
proof
  fix x y z :: ext
  define n where "n = length (splitDots (eVersion x)) + length (splitDots (eVersion y)) + length (splitDots (eVersion z))"
  have c: "compareVersions (eVersion a) (eVersion b) > 0 \<longleftrightarrow> nums n (eVersion b) < nums n (eVersion a)"
    if "a \<in> {x, y, z}" "b \<in> {x, y, z}" for a b
    by (rule compareVersions_nums) (use that in \<open>auto simp: n_def\<close>)
  show "newer x y \<Longrightarrow> \<not> newer y x" using c [of x y] c [of y x] by (simp add: newer_def)
  show "\<not> newer x y \<Longrightarrow> \<not> newer y z \<Longrightarrow> \<not> newer x z"
    using c [of x y] c [of y z] c [of x z] by (simp add: newer_def not_less)
qed

lemma sortCores_exSort: "sortCoresByVersion cs = exSort newer cs"
proof -
  have "coreStep = exStep newer" by (simp add: coreStep_def exStep_def newer_def fun_eq_iff)
  then show ?thesis by (simp add: sortCoresByVersion_def exSort_def)
qed

lemma sortCores_ok:
  "mset (sortCoresByVersion cs) = mset cs" "sorted_wrt (\<lambda>x y. compareVersions (eVersion x) (eVersion y) \<le> 0) (sortCoresByVersion cs)"
  using by_version.exSort_ok [of cs] by (simp_all add: sortCores_exSort newer_def not_less)

section \<open>Preparing and loading\<close>

lemma newIEs_sub:
  assumes "newIEs n m es" "mset es' \<subseteq># mset es"
  shows "newIEs n m es'"
proof -
  obtain M where M: "mset es = mset es' + M" using assms(2) by (auto simp: mset_subset_eq_exists_conv)
  obtain r where "mset r = M" using ex_mset by blast
  then have m: "mset es = mset (es' @ r)" using M by simp
  then have "mset (map eIE es) = mset (map eIE (es' @ r))" by (metis mset_map)
  then have "distinct (map eIE (es' @ r))" using assms(1) by (metis mset_eq_imp_distinct_iff newIEs_def)
  then show ?thesis using assms(1) mset_eq_setD [OF m] by (auto simp: newIEs_def)
qed

text \<open>Whatever a source fetches is ready for the store.\<close>

lemma fetch_ok:
  assumes "store_inv s" "(if stType s = TypeCores then (case f of FullScan _ _ \<Rightarrow> None | Updates r \<Rightarrow> Some (coreFetch r s))
      else pluginFetch ops f s) = Some (r, s1)"
  shows "grown s s1 \<and> (\<forall>es. r = Inr es \<longrightarrow> fresh s1 es)"
proof -
  have "grown s s1 \<and> (\<forall>es. r = Inr es \<longrightarrow> newIEs (length (stIEs s)) (length (stIEs s1)) es)"
  proof (cases "stType s = TypeCores")
    case True
    then obtain q where q: "coreFetch q s = (r, s1)" using assms(2) by (auto split: fetched.splits)
    show ?thesis
    proof (cases q)
      case (Inr cores)
      obtain es s2 where e: "withIEs cores s = (es, s2)" by fastforce
      let ?es = "sortCoresByVersion (filter (\<lambda>c. \<not> isVersionIndexed (eVersion c) s2) es)"
      have "r = Inr ?es" "s1 = s2" using q Inr e by (auto simp: coreFetch_def)
      moreover have "mset ?es \<subseteq># mset es" by (simp add: sortCores_ok(1))
      ultimately show ?thesis using withIEs_ok [OF e] newIEs_sub by blast
    qed (use q grown_refl in \<open>auto simp: coreFetch_def\<close>)
  next
    case False
    then have p: "pluginFetch ops f s = Some (r, s1)" using assms(2) by simp
    show ?thesis
    proof (cases f)
      case (FullScan api dbSlugs)
      then have d: "discoverNewPlugins ops api dbSlugs s = Some (r, s1)" using p by (simp add: pluginFetch_def)
      show ?thesis
      proof (cases "getAllKnownSlugs dbSlugs s")
        case (Inr known)
        then have "scanPages ops api known 1 ([], s) = Some (r, s1)" using d by (simp add: discoverNewPlugins_def)
        from scanPages_ok [OF this, of s] show ?thesis by (simp add: scan_inv_def grown_refl newIEs_def)
      qed (use d grown_refl in \<open>auto simp: discoverNewPlugins_def\<close>)
    next
      case (Updates q)
      show ?thesis
      proof (cases q)
        case (Inr exts)
        obtain es s2 where e: "withIEs exts s = (es, s2)" by fastforce
        then have "r = Inr es" "s1 = s2" using p Updates Inr by (simp_all add: pluginFetch_def)
        then show ?thesis using withIEs_ok [OF e] by simp
      qed (use p Updates grown_refl in \<open>auto simp: pluginFetch_def\<close>)
    qed
  qed
  then show ?thesis using newIEs_fresh assms(1) by blast
qed

lemma prepareOne_length: "length (stIEs (baStore b)) \<le> length (stIEs (baStore (prepareOne save e b)))"
  by (auto simp: prepareOne_def reuseIE_def NewIndexedExtension_def Set_def Let_def split: prod.splits option.splits)

lemma prepare_length: "length (stIEs (baStore b)) \<le> length (stIEs (baStore (fold (prepareOne save) exts b)))"
proof (induction exts arbitrary: b)
  case (Cons e exts)
  show ?case using prepareOne_length [of b save e] Cons.IH [of "prepareOne save e b"] by simp
qed simp

lemma sourcePrepare_ok:
  assumes inv: "store_inv s" and r: "sourcePrepare ops sv f s = Some (r, s')"
  shows "store_inv s'" "stType s' = stType s" "length (stIEs s) \<le> length (stIEs s')" "indexed slug s \<Longrightarrow> indexed slug s'"
    "r = Inr ts \<Longrightarrow> distinct (map tkSlug ts) \<and> (\<forall>tk \<in> set ts. task_ok tk s')"
proof -
  obtain q s1 where q: "(if stType s = TypeCores then (case f of FullScan _ _ \<Rightarrow> None | Updates r \<Rightarrow> Some (coreFetch r s))
      else pluginFetch ops f s) = Some (q, s1)" "PrepareUpdates q (saveFn sv) s1 = (r, s')"
    using r unfolding sourcePrepare_def by (auto split: option.splits)
  have g: "grown s s1" "\<And>es. q = Inr es \<Longrightarrow> fresh s1 es" using fetch_ok [OF inv q(1)] by blast+
  note gi = grown_inv [OF g(1) inv]
  have ty: "stType s1 = stType s" using g(1) by (simp add: grown_def)
  have "store_inv s' \<and> stType s' = stType s \<and> length (stIEs s) \<le> length (stIEs s') \<and> (\<forall>slug. indexed slug s \<longrightarrow> indexed slug s') \<and>
    (\<forall>ts. r = Inr ts \<longrightarrow> distinct (map tkSlug ts) \<and> (\<forall>tk \<in> set ts. task_ok tk s'))"
  proof (cases q)
    case (Inl err)
    then have "r = Inl (Wrapped (bytes_of ''failed to fetch'') err)" "s' = s1" using q(2) by (auto simp: PrepareUpdates_def)
    then show ?thesis using gi(1,2) ty grown_length [OF g(1)] by simp
  next
    case (Inr exts)
    let ?b = "\<lparr>baStore = s1, baSeen = {}, baTasks = []\<rparr>"
    define b where "b = fold (prepareOne (saveFn sv)) exts ?b"
    have "batch_inv s1 exts ?b" using gi(1) g(2) [OF Inr] by (simp add: batch_inv_def)
    then have b: "batch_inv s1 [] b" unfolding b_def by (rule prepare_fold)
    have "r = Inr (baTasks b)" "s' = baStore b" using q(2) Inr by (auto simp: PrepareUpdates_def b_def Let_def)
    moreover have "length (stIEs s1) \<le> length (stIEs (baStore b))"
      using prepare_length [of ?b "saveFn sv" exts] by (simp add: b_def)
    ultimately show ?thesis using b gi(2) ty grown_length [OF g(1)] unfolding batch_inv_def by (auto intro: le_trans)
  qed
  then show "store_inv s'" "stType s' = stType s" "length (stIEs s) \<le> length (stIEs s')" "indexed slug s \<Longrightarrow> indexed slug s'"
    "r = Inr ts \<Longrightarrow> distinct (map tkSlug ts) \<and> (\<forall>tk \<in> set ts. task_ok tk s')" by blast+
qed

lemma fold_listed:
  "finite (dom m) \<Longrightarrow> (\<forall>slug e. m slug = Some e \<longrightarrow> eSlug e = slug \<and> e \<in> A) \<Longrightarrow> set es \<subseteq> A \<Longrightarrow>
    finite (dom (fold (\<lambda>e l. l(eSlug e \<mapsto> e)) es m)) \<and>
    (\<forall>slug e. fold (\<lambda>e l. l(eSlug e \<mapsto> e)) es m slug = Some e \<longrightarrow> eSlug e = slug \<and> e \<in> A)"
proof (induction es arbitrary: m)
  case (Cons e es)
  have "finite (dom (m(eSlug e \<mapsto> e)))" "\<forall>slug f. (m(eSlug e \<mapsto> e)) slug = Some f \<longrightarrow> eSlug f = slug \<and> f \<in> A"
    using Cons.prems by auto
  moreover have "set es \<subseteq> A" using Cons.prems(3) by simp
  ultimately show ?case unfolding fold_simps(2) by (rule Cons.IH)
qed (simp only: fold_simps)

lemma listed_inv:
  assumes "newIEs n (length (stIEs s)) es"
  shows "store_inv (s\<lparr>stList := fold (\<lambda>e l. l(eSlug e \<mapsto> e)) es (\<lambda>_. None), stTotal := t\<rparr>)"
proof -
  define l where "l = fold (\<lambda>e l. l(eSlug e \<mapsto> e)) es (\<lambda>_. None)"
  have "finite (dom l) \<and> (\<forall>slug e. l slug = Some e \<longrightarrow> eSlug e = slug \<and> e \<in> set es)"
    unfolding l_def by (rule fold_listed) simp_all
  then have l: "finite (dom l)" "\<And>slug e. l slug = Some e \<Longrightarrow> eSlug e = slug \<and> e \<in> set es" by blast+
  have "slug = slug'" if "l slug = Some e" "l slug' = Some e'" "eIE e = eIE e'" for slug slug' e e'
  proof -
    have "e = e'" using assms l(2) that by (auto simp: newIEs_def distinct_map inj_on_def)
    then show ?thesis using l(2) that by auto
  qed
  then have "\<forall>sl sl' a. (case l sl of None \<Rightarrow> None | Some e \<Rightarrow> eIE e) = Some a \<longrightarrow>
      (case l sl' of None \<Rightarrow> None | Some e \<Rightarrow> eIE e) = Some a \<longrightarrow> sl = sl'"
    by (auto split: option.splits)
  moreover have "\<forall>slug e. l slug = Some e \<longrightarrow> eSlug e = slug \<and> (\<exists>a. eIE e = Some a \<and> a < length (stIEs s))"
    using assms l(2) by (fastforce simp: newIEs_def)
  ultimately show ?thesis using l(1) by (simp add: store_inv_def ie_of_def flip: l_def)
qed

lemma loadSlugs_ok:
  "store_inv s \<Longrightarrow> \<exists>s' rm. loadSlugs opn dir grps slugs s removed = Inr (s', rm) \<and> store_inv s' \<and> stType s' = stType s"
proof (induction slugs arbitrary: s removed)
  case (Cons slug slugs)
  have "\<exists>s1 rm ok. loadSlug opn dir slug is s = Inr (s1, rm, ok) \<and> store_inv s1 \<and> stType s1 = stType s" for "is"
  proof -
    obtain r rm where t: "tryOpen opn (sortIndexes is) = (r, rm)" by fastforce
    show ?thesis
    proof (cases r)
      case (Some xp)
      obtain err s' where "UpdateIndex (fst xp) slug s = Inr (err, s')" "store_inv s'" "stType s' = stType s"
        by (rule UpdateIndex_ok [OF Cons.prems]) blast
      then show ?thesis using t Some by (cases xp) (simp add: loadSlug_def rbind_def Let_def)
    qed (use t Cons.prems in \<open>auto simp: loadSlug_def\<close>)
  qed
  then obtain s1 rm ok where "loadSlug opn dir slug (map snd (filter (\<lambda>g. fst g = slug) grps)) s = Inr (s1, rm, ok)"
    "store_inv s1" "stType s1 = stType s" by blast
  then show ?case using Cons.IH [of s1 "removed @ rm"] by (auto simp: rbind_def)
qed simp

lemma Load_ok:
  assumes "stList s = (\<lambda>_. None)"
  shows "\<exists>err s'. Load rows opn dir dirEntries order s = Inr (err, s') \<and> store_inv s' \<and> stType s' = stType s"
proof (cases rows)
  case (Inl err)
  then show ?thesis using assms by (simp add: Load_def LoadFromDB_def store_inv_def ie_of_def)
next
  case (Inr exts)
  obtain es s1 where e: "withIEs exts s = (es, s1)" by fastforce
  note w = withIEs_ok [OF e]
  let ?s2 = "s1\<lparr>stList := fold (\<lambda>e l. l(eSlug e \<mapsto> e)) es (\<lambda>_. None), stTotal := int (length es)\<rparr>"
  have l: "stList s1 = (\<lambda>_. None)" "stType s1 = stType s" using w assms by (auto simp: grown_def)
  have i: "store_inv ?s2" using w by (intro listed_inv) blast
  have "\<exists>s' rm. LoadIndexes opn dir dirEntries order ?s2 = Inr (s', rm) \<and> store_inv s' \<and> stType s' = stType s"
    using loadSlugs_ok [OF i] i l(2) by (cases dirEntries) (simp_all add: LoadIndexes_def Let_def)
  then show ?thesis using Inr e l(1) by (auto simp: Load_def LoadFromDB_def rbind_def)
qed

end
