(* ===== verification/Manager.thy ===== *)
theory Manager
  imports Source_Correct "HOL-Library.Product_Lexorder"
begin

text \<open>
  The manager of the sources, \<open>internal/manager/manager.go\<close>: the updater with its retries, the queue of re-index
  requests and the search with its cache.

  What the world does is in the record \<open>menv\<close>, by the number of the task that is run or of the cycle: the runs of the
  indexer, what a fetch gives, the clock, and the order in which the tasks of a batch take effect.  A task is one step;
  the tasks of a batch that run at the same time are for different extensions of a store or of different stores.
\<close>

section \<open>State\<close>

definition maxRetries :: nat where "maxRetries = 3"

definition queueCap :: nat where "queueCap = 32"

type_synonym retryKey = "etype \<times> gostr"

record retryEntry =
  reTask :: task
  reAttempts :: nat

type_synonym retries = "(retryKey \<times> retryEntry) list"

record mgResult =
  mrSlug :: gostr
  mrName :: gostr
  mrVersion :: gostr
  mrInstalls :: int
  mrDownloaded :: int
  mrMatches :: "fileMatch list"
  mrTotalMatches :: nat

record mgResponse =
  mpResults :: "mgResult list"
  mpTotal :: int

record 'db mgr =
  mgSources :: "etype \<Rightarrow> 'db estore option"
  mgOrder :: "etype list"
  mgQueue :: "task list"
  mgFails :: "etype \<Rightarrow> nat"
  mgLast :: "etype \<Rightarrow> int option"
  mgCache :: "(gostr \<Rightarrow> mgResponse option) option"
  mgRuns :: nat
  mgTick :: nat

record 'db menv =
  meOps :: "'db dbops"
  meSave :: "'db saveOps"
  meEvents :: bool
  meText :: "gerr \<Rightarrow> gostr"
  meRun :: "nat \<Rightarrow> runner"
  meOpen :: "nat \<Rightarrow> gostr \<Rightarrow> xindex option"
  meElapsed :: "nat \<Rightarrow> int"
  meSched :: "nat \<Rightarrow> task list \<Rightarrow> task list"
  meFetch :: "nat \<Rightarrow> etype \<Rightarrow> fetched"
  meNow :: "nat \<Rightarrow> int"

text \<open>The sources have been loaded; the first error of a load ends it.\<close>

definition NewManager :: "(etype \<times> gerr option \<times> 'db estore) list \<Rightarrow> (gostr \<Rightarrow> mgResponse option) option \<Rightarrow> gerr + 'db mgr" where
  "NewManager loads c = (case List.map_filter (\<lambda>(t, err, s). err) loads of
       err # _ \<Rightarrow> Inl (Wrapped (bytes_of ''load failed'') err)
     | [] \<Rightarrow> Inr \<lparr>mgSources = map_of (rev (map (\<lambda>(t, err, s). (t, s)) loads)), mgOrder = sort_key typeName (map fst loads),
         mgQueue = [], mgFails = (\<lambda>_. 0), mgLast = (\<lambda>_. None), mgCache = c, mgRuns = 0, mgTick = 0\<rparr>)"

definition putSource :: "etype \<Rightarrow> 'db estore \<Rightarrow> 'db mgr \<Rightarrow> 'db mgr" where
  "putSource t s m = m\<lparr>mgSources := (mgSources m)(t \<mapsto> s)\<rparr>"

section \<open>Running tasks\<close>

definition wasSkipped :: "gerr option \<Rightarrow> bool" where
  "wasSkipped err = (case err of None \<Rightarrow> False | Some e \<Rightarrow> errorsIs e ErrDownloadSkipped)"

definition indexEvent :: "'db menv \<Rightarrow> nat \<Rightarrow> task \<Rightarrow> gerr option \<Rightarrow> dbrow" where
  "indexEvent env k tk err =
     [(bytes_of ''repo_type'', VText (typeName (tkType tk))), (bytes_of ''slug'', VText (tkSlug tk)),
      (bytes_of ''status'', VText (bytes_of (if wasSkipped err then ''skipped'' else if err \<noteq> None then ''failed'' else ''success''))),
      (bytes_of ''error_message'', VText (case err of None \<Rightarrow> [] | Some e \<Rightarrow> meText env e)),
      (bytes_of ''duration_ms'', VInt (meElapsed env k))]"

definition ClearFailures :: "'db dbops \<Rightarrow> etype \<Rightarrow> gostr \<Rightarrow> 'db estore \<Rightarrow> 'db estore" where
  "ClearFailures ops t slug s = snd (runDB ops (DbDelete (bytes_of ''index_events'')
     [(bytes_of ''repo_type'', VText (typeName t)), (bytes_of ''slug'', VText slug), (bytes_of ''status'', VText (bytes_of ''failed''))]) s)"

definition recordOutcome :: "'db menv \<Rightarrow> nat \<Rightarrow> task \<Rightarrow> gerr option \<Rightarrow> 'db estore \<Rightarrow> 'db estore" where
  "recordOutcome env k tk err s =
     (let s1 = (if \<not> meEvents env then s
            else snd (runDB (meOps env) (DbCreate (bytes_of ''index_events'') [indexEvent env k tk err])
              (if err = None then ClearFailures (meOps env) (tkType tk) (tkSlug tk) s else s)))
      in if wasSkipped err then s1
         else if err \<noteq> None then RecordIndexFailure (meOps env) (tkSlug tk) s1
         else RecordIndexSuccess (meOps env) (tkSlug tk) s1)"

text \<open>The tasks in the order in which they take effect; the result is those to retry.\<close>

fun runSeq :: "'db menv \<Rightarrow> task list \<Rightarrow> 'db mgr \<Rightarrow> (task list \<times> 'db mgr) res" where
  "runSeq env [] m = Inr ([], m)"
| "runSeq env (tk # tks) m = (case mgSources m (tkType tk) of
       None \<Rightarrow> runSeq env tks m
     | Some s \<Rightarrow> let k = mgRuns m in
         rbind (runTask (meOps env) (meOpen env k) (meRun env k) tk s) (\<lambda>(err, s1).
           rbind (runSeq env tks ((putSource (tkType tk) (recordOutcome env k tk err s1) m)\<lparr>mgRuns := k + 1\<rparr>)) (\<lambda>(fs, m2).
             Inr (if err \<noteq> None \<and> \<not> wasSkipped err then tk # fs else fs, m2))))"

definition runTasks :: "'db menv \<Rightarrow> task list \<Rightarrow> 'db mgr \<Rightarrow> (task list \<times> 'db mgr) res" where
  "runTasks env tks m = runSeq env (meSched env (mgRuns m) tks) m"

section \<open>The updater\<close>

definition keyOf :: "task \<Rightarrow> retryKey" where
  "keyOf tk = (tkType tk, tkSlug tk)"

definition bumpRetry :: "retryKey set \<Rightarrow> retryKey \<times> retryEntry \<Rightarrow> (retryKey \<times> retryEntry) option" where
  "bumpRetry failed = (\<lambda>(k, entry).
     if k \<notin> failed then None
     else let entry = entry\<lparr>reAttempts := reAttempts entry + 1\<rparr> in
       if reAttempts entry \<ge> maxRetries then None else Some (k, entry))"

definition retryPhase :: "'db menv \<Rightarrow> 'db mgr \<Rightarrow> retries \<Rightarrow> ('db mgr \<times> retries) res" where
  "retryPhase env m rs =
     (if rs = [] then Inr (m, rs)
      else rbind (runTasks env (map (reTask \<circ> snd) rs) m) (\<lambda>(fs, m1).
        Inr (m1, List.map_filter (bumpRetry (set (map keyOf fs))) rs)))"

definition trackFailure :: "etype \<Rightarrow> 'db mgr \<Rightarrow> 'db mgr" where
  "trackFailure t m = m\<lparr>mgFails := (mgFails m)(t := mgFails m t + 1)\<rparr>"

definition trackSuccess :: "int \<Rightarrow> etype \<Rightarrow> 'db mgr \<Rightarrow> 'db mgr" where
  "trackSuccess now t m = m\<lparr>mgFails := (mgFails m)(t := 0), mgLast := (mgLast m)(t \<mapsto> now)\<rparr>"

fun prepareAll :: "'db menv \<Rightarrow> etype list \<Rightarrow> 'db mgr \<Rightarrow> (task list \<times> 'db mgr) option" where
  "prepareAll env [] m = Some ([], m)"
| "prepareAll env (t # ts) m = (case mgSources m t of
       None \<Rightarrow> prepareAll env ts m
     | Some s \<Rightarrow> (case sourcePrepare (meOps env) (meSave env) (meFetch env (mgTick m) t) s of
           None \<Rightarrow> None
         | Some (r, s1) \<Rightarrow> (let m1 = putSource t s1 m in
             case r of
               Inl err \<Rightarrow> prepareAll env ts (trackFailure t m1)
             | Inr tasks \<Rightarrow> map_option (\<lambda>(rest, m2). (tasks @ rest, m2))
                 (prepareAll env ts (trackSuccess (meNow env (mgTick m)) t m1)))))"

definition addRetry :: "task \<Rightarrow> retries \<Rightarrow> retries" where
  "addRetry tk rs = (if keyOf tk \<in> fst ` set rs then rs else rs @ [(keyOf tk, \<lparr>reTask = tk, reAttempts = 1\<rparr>)])"

definition freshPhase :: "'db menv \<Rightarrow> 'db mgr \<Rightarrow> retries \<Rightarrow> ('db mgr \<times> retries) res option" where
  "freshPhase env m rs = (case prepareAll env (mgOrder m) m of
       None \<Rightarrow> None
     | Some (tasks, m1) \<Rightarrow> Some (if tasks = [] then Inr (m1, rs)
         else rbind (runTasks env tasks m1) (\<lambda>(fs, m2). Inr (m2, fold addRetry fs rs))))"

fun runEach :: "'db menv \<Rightarrow> task list \<Rightarrow> 'db mgr \<Rightarrow> 'db mgr res" where
  "runEach env [] m = Inr m"
| "runEach env (tk # tks) m = rbind (runTasks env [tk] m) (\<lambda>(fs, m1). runEach env tks m1)"

definition drainAdhoc :: "'db menv \<Rightarrow> 'db mgr \<Rightarrow> 'db mgr res" where
  "drainAdhoc env m = runEach env (mgQueue m) (m\<lparr>mgQueue := []\<rparr>)"

text \<open>One round of the loop; \<open>None\<close> is a fetch that does not return.\<close>

definition updaterCycle :: "'db menv \<Rightarrow> 'db mgr \<Rightarrow> retries \<Rightarrow> ('db mgr \<times> retries) res option" where
  "updaterCycle env m rs = (case retryPhase env m rs of
       Inl flt \<Rightarrow> Some (Inl flt)
     | Inr (m1, rs1) \<Rightarrow> map_option (\<lambda>r. rbind r (\<lambda>(m2, rs2).
         rbind (drainAdhoc env m2) (\<lambda>m3. Inr (m3\<lparr>mgTick := mgTick m3 + 1\<rparr>, rs2)))) (freshPhase env m1 rs1))"

text \<open>At start: what was not indexed is resumed, its failures are not retried.\<close>

fun resumeAll :: "'db menv \<Rightarrow> (etype \<Rightarrow> gostr list) \<Rightarrow> etype list \<Rightarrow> 'db mgr \<Rightarrow> task list" where
  "resumeAll env keys [] m = []"
| "resumeAll env keys (t # ts) m = (case mgSources m t of None \<Rightarrow> [] | Some s \<Rightarrow> ResumeUnindexed (meOps env) (keys t) s) @
     resumeAll env keys ts m"

definition startUpdater :: "'db menv \<Rightarrow> (etype \<Rightarrow> gostr list) \<Rightarrow> 'db mgr \<Rightarrow> 'db mgr res" where
  "startUpdater env keys m = (let tks = resumeAll env keys (mgOrder m) m in
     if tks = [] then Inr m else rbind (runTasks env tks m) (\<lambda>(fs, m1). Inr m1))"

section \<open>Requests\<close>

datatype mgErr = MExtNotFound | MQueueFull | MUnknownType | MSearchErr searchErr | MRepoErr gerr

definition typeOf :: "gostr \<Rightarrow> etype option" where
  "typeOf nm = List.find (\<lambda>t. typeName t = nm) [TypePlugins, TypeThemes, TypeCores]"

definition sourceOf :: "gostr \<Rightarrow> 'db mgr \<Rightarrow> 'db estore option" where
  "sourceOf nm m = (case typeOf nm of None \<Rightarrow> None | Some t \<Rightarrow> mgSources m t)"

definition SubmitReindex :: "gostr \<Rightarrow> gostr \<Rightarrow> 'db mgr \<Rightarrow> mgErr option \<times> 'db mgr" where
  "SubmitReindex repoType slug m = (case sourceOf repoType m of
       None \<Rightarrow> (Some MExtNotFound, m)
     | Some s \<Rightarrow> (case MakeReindexTaskBySlug slug s of
           None \<Rightarrow> (Some MExtNotFound, m)
         | Some tk \<Rightarrow> if length (mgQueue m) < queueCap then (None, m\<lparr>mgQueue := mgQueue m @ [tk]\<rparr>) else (Some MQueueFull, m)))"

definition mgGetExtension :: "gostr \<Rightarrow> gostr \<Rightarrow> 'db mgr \<Rightarrow> ext option" where
  "mgGetExtension repoType slug m = (case sourceOf repoType m of None \<Rightarrow> None | Some s \<Rightarrow> GetExtension slug s)"

definition mgResolveSourceDir :: "gostr \<Rightarrow> gostr \<Rightarrow> 'db mgr \<Rightarrow> mgErr + gostr" where
  "mgResolveSourceDir repoType slug m = (case sourceOf repoType m of None \<Rightarrow> Inl MUnknownType
     | Some s \<Rightarrow> (case ResolveSourceDir slug s of Inl err \<Rightarrow> Inl (MRepoErr err) | Inr d \<Rightarrow> Inr d))"

definition mgStats :: "gostr list \<Rightarrow> gostr \<Rightarrow> 'db mgr \<Rightarrow> (int \<times> nat) option \<times> 'db mgr" where
  "mgStats keys repoType m = (case typeOf repoType of None \<Rightarrow> (None, m)
     | Some t \<Rightarrow> (case mgSources m t of None \<Rightarrow> (None, m)
         | Some s \<Rightarrow> let (r, s1) = Stats keys s in (Some r, putSource t s1 m)))"

definition SourceHealth :: "'db mgr \<Rightarrow> (gostr \<times> nat \<times> int option) list" where
  "SourceHealth m = map (\<lambda>t. (typeName t, mgFails m t, mgLast m t)) (mgOrder m)"

section \<open>Search\<close>

record searchParams =
  spFileMatch :: gostr
  spExclude :: gostr
  spCaseInsensitive :: bool
  spLines :: nat

text \<open>What \<open>fmt\<close> writes for \<open>%d\<close> of a natural number and \<open>%v\<close> of a bool.\<close>

fun decimal :: "nat \<Rightarrow> gostr" where
  "decimal n = (if n < 10 then [0x30 + of_nat n] else decimal (n div 10) @ [0x30 + of_nat (n mod 10)])"

declare decimal.simps [simp del]

definition searchCacheKey :: "gostr \<Rightarrow> gostr \<Rightarrow> searchParams \<Rightarrow> gostr" where
  "searchCacheKey repoType pat params = bytes_of ''search:'' @ repoType @ bytes_of '':'' @ pat @ bytes_of '':'' @
     bytes_of (if spCaseInsensitive params then ''true'' else ''false'') @ bytes_of '':'' @ spFileMatch params @ bytes_of '':'' @
     spExclude params @ bytes_of '':'' @ decimal (spLines params)"

definition optionsOf :: "searchParams \<Rightarrow> searchOptions" where
  "optionsOf p = \<lparr>soIgnoreCase = spCaseInsensitive p, soLiteralSearch = False, soLinesOfContext = of_nat (spLines p),
     soFileRegexp = spFileMatch p, soExcludeFileRegexp = spExclude p, soOffset = 0, soLimit = 0, soMaxResults = 100\<rparr>"

definition toResult :: "ext \<times> fileMatch list \<Rightarrow> mgResult" where
  "toResult = (\<lambda>(e, ms). \<lparr>mrSlug = eSlug e, mrName = eName e, mrVersion = eVersion e, mrInstalls = eActiveInstalls e,
     mrDownloaded = eDownloaded e, mrMatches = ms, mrTotalMatches = matchCount ms\<rparr>)"

definition resultOrder :: "mgResult \<Rightarrow> int \<times> gostr" where
  "resultOrder r = (- mrInstalls r, mrSlug r)"

definition toResponse :: "(ext \<times> fileMatch list) list \<Rightarrow> int \<Rightarrow> mgResponse" where
  "toResponse hs tot = \<lparr>mpResults = sort_key resultOrder (map toResult hs), mpTotal = tot\<rparr>"

definition cachePut :: "gostr \<Rightarrow> mgResponse \<Rightarrow> 'db mgr \<Rightarrow> 'db mgr" where
  "cachePut k r m = m\<lparr>mgCache := map_option (\<lambda>c. c(k \<mapsto> r)) (mgCache m)\<rparr>"

definition cached :: "gostr \<Rightarrow> 'db mgr \<Rightarrow> mgResponse option" where
  "cached k m = (case mgCache m of None \<Rightarrow> None | Some c \<Rightarrow> c k)"

inductive ManagerSearch :: "golib \<Rightarrow> fs \<Rightarrow> nat \<Rightarrow> gostr list \<Rightarrow> gostr \<Rightarrow> gostr \<Rightarrow> searchParams \<Rightarrow> 'db mgr \<Rightarrow>
    mgErr + mgResponse \<Rightarrow> 'db mgr \<Rightarrow> bool" for lib fs n keys repoType pat params m where
  "sourceOf repoType m = None \<Longrightarrow> ManagerSearch lib fs n keys repoType pat params m (Inl MUnknownType) m"
| "\<lbrakk>sourceOf repoType m = Some s; cached (searchCacheKey repoType pat params) m = Some r\<rbrakk> \<Longrightarrow>
    ManagerSearch lib fs n keys repoType pat params m (Inr r) m"
| "\<lbrakk>sourceOf repoType m = Some s; cached (searchCacheKey repoType pat params) m = None;
    StoreSearch lib fs n keys pat (Some (optionsOf params)) s (Inl err)\<rbrakk> \<Longrightarrow>
    ManagerSearch lib fs n keys repoType pat params m (Inl (MSearchErr err)) m"
| "\<lbrakk>sourceOf repoType m = Some s; cached (searchCacheKey repoType pat params) m = None;
    StoreSearch lib fs n keys pat (Some (optionsOf params)) s (Inr (hs, tot))\<rbrakk> \<Longrightarrow>
    ManagerSearch lib fs n keys repoType pat params m (Inr (toResponse hs tot))
      (cachePut (searchCacheKey repoType pat params) (toResponse hs tot) m)"

inductive_cases ManagerSearchE: "ManagerSearch lib fs n keys repoType pat params m r m'"

end
