(* ===== verification/Manager_Correct.thy ===== *)
theory Manager_Correct
  imports Manager
begin

text \<open>
  The updater never panics and keeps its state well formed: every source keeps the invariant of its store, the
  queue is bounded, and a task is retried at most twice.
\<close>

section \<open>The invariant\<close>

definition task_in :: "'db mgr \<Rightarrow> task \<Rightarrow> bool" where
  "task_in m tk \<longleftrightarrow> (\<exists>s. mgSources m (tkType tk) = Some s \<and> task_wf tk s)"

definition sources_ok :: "'db mgr \<Rightarrow> bool" where
  "sources_ok m \<longleftrightarrow> (\<forall>t s. mgSources m t = Some s \<longrightarrow> store_inv s \<and> stType s = t)"

definition retries_ok :: "'db mgr \<Rightarrow> retries \<Rightarrow> bool" where
  "retries_ok m rs \<longleftrightarrow> distinct (map fst rs) \<and> (\<forall>(k, r) \<in> set rs. k = keyOf (reTask r) \<and> task_in m (reTask r) \<and>
     1 \<le> reAttempts r \<and> reAttempts r < maxRetries)"

definition mgr_ok :: "'db mgr \<Rightarrow> retries \<Rightarrow> bool" where
  "mgr_ok m rs \<longleftrightarrow> sources_ok m \<and> retries_ok m rs \<and> length (mgQueue m) \<le> queueCap \<and> (\<forall>tk \<in> set (mgQueue m). task_in m tk)"

definition env_ok :: "'db menv \<Rightarrow> bool" where
  "env_ok env \<longleftrightarrow> (\<forall>k ts. set (meSched env k ts) \<subseteq> set ts)"

text \<open>What a step may do to the sources.\<close>

definition evolves :: "'db mgr \<Rightarrow> 'db mgr \<Rightarrow> bool" where
  "evolves m m' \<longleftrightarrow> sources_ok m' \<and> mgOrder m' = mgOrder m \<and> mgQueue m' = mgQueue m \<and>
     (\<forall>t. (mgSources m t = None) = (mgSources m' t = None)) \<and>
     (\<forall>t s s'. mgSources m t = Some s \<longrightarrow> mgSources m' t = Some s' \<longrightarrow> length (stIEs s) \<le> length (stIEs s'))"

lemma evolves_refl: "sources_ok m \<Longrightarrow> evolves m m"
  by (simp add: evolves_def)

lemma evolves_trans:
  assumes "evolves m m1" "evolves m1 m2"
  shows "evolves m m2"
proof -
  have "length (stIEs s) \<le> length (stIEs s2)" if s: "mgSources m t = Some s" "mgSources m2 t = Some s2" for t s s2
  proof -
    have "(mgSources m t = None) = (mgSources m1 t = None)" using assms(1) unfolding evolves_def by blast
    then obtain s1 where s1: "mgSources m1 t = Some s1" using s(1) by auto
    have "length (stIEs s) \<le> length (stIEs s1)" using assms(1) s(1) s1 unfolding evolves_def by blast
    also have "\<dots> \<le> length (stIEs s2)" using assms(2) s(2) s1 unfolding evolves_def by blast
    finally show ?thesis .
  qed
  then show ?thesis using assms by (simp add: evolves_def)
qed

lemma evolves_put:
  assumes "sources_ok m" "mgSources m t = Some s" "store_inv s'" "stType s' = t" "length (stIEs s) \<le> length (stIEs s')"
    "mgSources m' = (mgSources m)(t \<mapsto> s')" "mgOrder m' = mgOrder m" "mgQueue m' = mgQueue m"
  shows "evolves m m'"
  using assms by (auto simp: evolves_def sources_ok_def)

lemma task_wf_mono: "task_wf tk s \<Longrightarrow> stType s' = stType s \<Longrightarrow> length (stIEs s) \<le> length (stIEs s') \<Longrightarrow> task_wf tk s'"
  by (auto simp: task_wf_def)

lemma task_in_evolves:
  assumes "task_in m tk" "evolves m m'" "sources_ok m"
  shows "task_in m' tk"
proof -
  obtain s where s: "mgSources m (tkType tk) = Some s" "task_wf tk s" using assms(1) by (auto simp: task_in_def)
  then obtain s' where s': "mgSources m' (tkType tk) = Some s'" using assms(2) by (metis evolves_def not_None_eq)
  have "stType s' = stType s" using s s' assms(2,3) by (simp add: evolves_def sources_ok_def)
  moreover have "length (stIEs s) \<le> length (stIEs s')" using s s' assms(2) by (simp add: evolves_def)
  ultimately show ?thesis using s(2) s' task_wf_mono by (auto simp: task_in_def)
qed

section \<open>Running tasks\<close>

lemma recordOutcome_fields:
  "stList (recordOutcome env k tk err s) = stList s" "stIEs (recordOutcome env k tk err s) = stIEs s"
  "stType (recordOutcome env k tk err s) = stType s"
  by (simp_all add: recordOutcome_def Let_def RecordIndexFailure_def RecordIndexSuccess_def ClearFailures_def)

lemma recordOutcome_inv: "store_inv (recordOutcome env k tk err s) = store_inv s"
  by (rule store_inv_cong(1)) (rule recordOutcome_fields)+

lemma runSeq_ok:
  "sources_ok m \<Longrightarrow> \<forall>tk \<in> set tks. task_in m tk \<Longrightarrow>
    \<exists>fs m'. runSeq env tks m = Inr (fs, m') \<and> set fs \<subseteq> set tks \<and> evolves m m'"
proof (induction tks arbitrary: m)
  case Nil
  then show ?case by (simp add: evolves_refl)
next
  case (Cons tk tks)
  obtain s where s: "mgSources m (tkType tk) = Some s" "task_wf tk s" using Cons.prems(2) by (auto simp: task_in_def)
  have inv: "store_inv s" "stType s = tkType tk" using Cons.prems(1) s(1) by (auto simp: sources_ok_def)
  obtain err s1 where r: "runTask (meOps env) (meOpen env (mgRuns m)) (meRun env (mgRuns m)) tk s = Inr (err, s1)"
    "store_inv s1" "stType s1 = stType s" "length (stIEs s1) = length (stIEs s)"
    using runTask_wf [where ops = "meOps env" and opn = "meOpen env (mgRuns m)" and run = "meRun env (mgRuns m)", OF inv(1) s(2)]
    by metis
  define m1 where "m1 = (putSource (tkType tk) (recordOutcome env (mgRuns m) tk err s1) m)\<lparr>mgRuns := Suc (mgRuns m)\<rparr>"
  have ev: "evolves m m1"
    by (rule evolves_put [OF Cons.prems(1) s(1), of "recordOutcome env (mgRuns m) tk err s1"])
      (simp_all add: m1_def putSource_def recordOutcome_inv recordOutcome_fields r inv)
  then have "sources_ok m1" "\<forall>tk \<in> set tks. task_in m1 tk"
    using Cons.prems task_in_evolves by (auto simp: evolves_def)
  from Cons.IH [OF this] obtain fs m' where "runSeq env tks m1 = Inr (fs, m')" "set fs \<subseteq> set tks" "evolves m1 m'" by blast
  moreover from this(3) have "evolves m m'" by (rule evolves_trans [OF ev])
  ultimately show ?case by (auto simp: s(1) r(1) rbind_def m1_def Let_def)
qed

lemma runTasks_ok:
  assumes "env_ok env" "sources_ok m" "\<forall>tk \<in> set tks. task_in m tk"
  obtains fs m' where "runTasks env tks m = Inr (fs, m')" "set fs \<subseteq> set tks" "evolves m m'"
proof -
  have "set (meSched env (mgRuns m) tks) \<subseteq> set tks" using assms(1) by (simp add: env_ok_def)
  then show thesis using runSeq_ok [of m "meSched env (mgRuns m) tks" env] assms(2,3) that
    unfolding runTasks_def by (metis subset_iff order_trans)
qed

section \<open>The phases of a cycle\<close>

lemma retries_ok_evolves: "retries_ok m rs \<Longrightarrow> evolves m m' \<Longrightarrow> sources_ok m \<Longrightarrow> retries_ok m' rs"
  using task_in_evolves unfolding retries_ok_def by fastforce

text \<open>The entries that stay are those whose task failed again, with one attempt more.\<close>

lemma map_filter_mem: "y \<in> set (List.map_filter f xs) \<longleftrightarrow> (\<exists>x \<in> set xs. f x = Some y)"
  by (induction xs) (auto simp: map_filter_simps split: option.split)

lemma bumpRetry_mem:
  "(k, r) \<in> set (List.map_filter (bumpRetry failed) rs) \<longleftrightarrow>
     (\<exists>r0. (k, r0) \<in> set rs \<and> k \<in> failed \<and> r = r0\<lparr>reAttempts := reAttempts r0 + 1\<rparr> \<and> reAttempts r0 + 1 < maxRetries)"
  unfolding map_filter_mem by (force simp: bumpRetry_def Let_def split: if_splits)

lemma bumpRetry_keys: "distinct (map fst rs) \<Longrightarrow> distinct (map fst (List.map_filter (bumpRetry failed) rs))"
proof (induction rs)
  case (Cons e rs)
  have "fst ` set (List.map_filter (bumpRetry failed) rs) \<subseteq> fst ` set rs"
    by (force simp: map_filter_mem bumpRetry_def Let_def split: if_splits)
  then show ?case using Cons by (cases e) (auto simp: map_filter_simps bumpRetry_def Let_def)
qed (simp add: map_filter_simps)

lemma retryPhase_ok:
  assumes "env_ok env" "sources_ok m" "retries_ok m rs"
  obtains m' rs' where "retryPhase env m rs = Inr (m', rs')" "evolves m m'" "retries_ok m' rs'"
    "\<And>k r. (k, r) \<in> set rs' \<Longrightarrow> \<exists>r0. (k, r0) \<in> set rs \<and> reTask r = reTask r0 \<and> reAttempts r = reAttempts r0 + 1"
proof (cases "rs = []")
  case True
  then show thesis using assms evolves_refl [OF assms(2)] by (intro that [of m "[]"]) (simp_all add: retryPhase_def)
next
  case False
  have "\<forall>tk \<in> set (map (reTask \<circ> snd) rs). task_in m tk" using assms(3) by (auto simp: retries_ok_def)
  then obtain fs m' where f: "runTasks env (map (reTask \<circ> snd) rs) m = Inr (fs, m')" "evolves m m'"
    by (rule runTasks_ok [OF assms(1,2)])
  let ?rs = "List.map_filter (bumpRetry (set (map keyOf fs))) rs"
  have r: "retries_ok m' rs" by (rule retries_ok_evolves [OF assms(3) f(2) assms(2)])
  then have "retries_ok m' ?rs" using bumpRetry_keys by (fastforce simp: retries_ok_def bumpRetry_mem)
  moreover have "\<exists>r0. (k, r0) \<in> set rs \<and> reTask r = reTask r0 \<and> reAttempts r = reAttempts r0 + 1" if "(k, r) \<in> set ?rs" for k r
    using that by (auto simp: bumpRetry_mem)
  ultimately show thesis using that [of m' ?rs] f False by (simp add: retryPhase_def rbind_def)
qed

lemma prepareAll_ok:
  "sources_ok m \<Longrightarrow> prepareAll env ts m = Some (tasks, m') \<Longrightarrow> evolves m m' \<and> (\<forall>tk \<in> set tasks. task_in m' tk)"
proof (induction ts arbitrary: m tasks)
  case (Cons t ts)
  show ?case
  proof (cases "mgSources m t")
    case None
    then show ?thesis using Cons by simp
  next
    case (Some s)
    have inv: "store_inv s" "stType s = t" using Cons.prems(1) Some by (auto simp: sources_ok_def)
    obtain r s1 where r: "sourcePrepare (meOps env) (meSave env) (meFetch env (mgTick m) t) s = Some (r, s1)"
      using Cons.prems(2) Some by (auto split: option.splits)
    note p = sourcePrepare_ok [OF inv(1) r]
    define m1 where "m1 = (case r of Inl err \<Rightarrow> trackFailure t (putSource t s1 m)
      | Inr _ \<Rightarrow> trackSuccess (meNow env (mgTick m)) t (putSource t s1 m))"
    have ev: "evolves m m1"
      by (rule evolves_put [OF Cons.prems(1) Some p(1)])
        (use p inv in \<open>simp_all add: m1_def putSource_def trackFailure_def trackSuccess_def split: sum.split\<close>)
    then have ok: "sources_ok m1" by (simp add: evolves_def)
    obtain rest where rest: "prepareAll env ts m1 = Some (rest, m')" "tasks = (case r of Inl _ \<Rightarrow> rest | Inr tks \<Rightarrow> tks @ rest)"
      using Cons.prems(2) Some r by (auto simp: m1_def Let_def split: sum.splits)
    have ih: "evolves m1 m'" "\<forall>tk \<in> set rest. task_in m' tk" using Cons.IH [OF ok rest(1)] by blast+
    have "task_in m1 tk" if "r = Inr tks" "tk \<in> set tks" for tk tks
    proof -
      have w: "task_wf tk s1" using p(5) [OF that(1)] that(2) task_ok_wf by blast
      then have "tkType tk = t" using p(2) inv(2) by (simp add: task_wf_def)
      moreover have "mgSources m1 t = Some s1" using that(1) by (simp add: m1_def putSource_def trackSuccess_def)
      ultimately show ?thesis using w by (simp add: task_in_def)
    qed
    then have "\<forall>tk \<in> set tasks. task_in m' tk"
      using ih rest(2) task_in_evolves [OF _ ih(1) ok] by (auto split: sum.splits)
    then show ?thesis using evolves_trans [OF ev ih(1)] by blast
  qed
qed (simp add: evolves_refl)

lemma addRetry_ok: "retries_ok m rs \<Longrightarrow> task_in m tk \<Longrightarrow> retries_ok m (addRetry tk rs)"
  by (auto simp: retries_ok_def addRetry_def maxRetries_def)

lemma addRetries_ok: "retries_ok m rs \<Longrightarrow> \<forall>tk \<in> set fs. task_in m tk \<Longrightarrow> retries_ok m (fold addRetry fs rs)"
  by (induction fs arbitrary: rs) (simp_all add: addRetry_ok)

lemma freshPhase_ok:
  assumes "env_ok env" "sources_ok m" "retries_ok m rs" "freshPhase env m rs = Some r"
  obtains m' rs' where "r = Inr (m', rs')" "evolves m m'" "retries_ok m' rs'"
proof -
  obtain tasks m1 where p: "prepareAll env (mgOrder m) m = Some (tasks, m1)" using assms(4) by (auto simp: freshPhase_def split: option.splits)
  have ev: "evolves m m1" "\<forall>tk \<in> set tasks. task_in m1 tk" using prepareAll_ok [OF assms(2) p] by blast+
  have ok: "sources_ok m1" "retries_ok m1 rs" using ev(1) retries_ok_evolves assms(2,3) by (auto simp: evolves_def)
  show thesis
  proof (cases "tasks = []")
    case True
    then show thesis using that [of m1 rs] p ev ok assms(4) by (simp add: freshPhase_def)
  next
    case False
    obtain fs m2 where f: "runTasks env tasks m1 = Inr (fs, m2)" "set fs \<subseteq> set tasks" "evolves m1 m2"
      by (rule runTasks_ok [OF assms(1) ok(1) ev(2)])
    have "retries_ok m2 (fold addRetry fs rs)"
      using f(2) ev(2) task_in_evolves [OF _ f(3) ok(1)] retries_ok_evolves [OF ok(2) f(3) ok(1)]
      by (intro addRetries_ok) auto
    then show thesis using that [of m2 "fold addRetry fs rs"] False p f assms(4) evolves_trans [OF ev(1) f(3)]
      by (simp add: freshPhase_def rbind_def)
  qed
qed

lemma runEach_ok:
  "env_ok env \<Longrightarrow> sources_ok m \<Longrightarrow> \<forall>tk \<in> set tks. task_in m tk \<Longrightarrow> \<exists>m'. runEach env tks m = Inr m' \<and> evolves m m'"
proof (induction tks arbitrary: m)
  case (Cons tk tks)
  have "\<forall>t \<in> set [tk]. task_in m t" using Cons.prems(3) by simp
  then obtain fs m1 where f: "runTasks env [tk] m = Inr (fs, m1)" "evolves m m1"
    by (rule runTasks_ok [OF Cons.prems(1,2)])
  then have "sources_ok m1" "\<forall>t \<in> set tks. task_in m1 t"
    using Cons.prems(2,3) task_in_evolves by (auto simp: evolves_def)
  from Cons.IH [OF Cons.prems(1) this] show ?case using f evolves_trans by (auto simp: rbind_def)
qed (simp add: evolves_refl)

lemma drainAdhoc_ok:
  assumes "env_ok env" "mgr_ok m rs"
  obtains m' where "drainAdhoc env m = Inr m'" "mgr_ok m' rs" "mgQueue m' = []"
proof -
  let ?m = "m\<lparr>mgQueue := []\<rparr>"
  have ok: "sources_ok ?m" "retries_ok ?m rs" "\<forall>tk \<in> set (mgQueue m). task_in ?m tk"
    using assms(2) by (simp_all add: mgr_ok_def sources_ok_def retries_ok_def task_in_def)
  obtain m' where m': "runEach env (mgQueue m) ?m = Inr m'" "evolves ?m m'" using runEach_ok [OF assms(1) ok(1,3)] by blast
  have "retries_ok m' rs" by (rule retries_ok_evolves [OF ok(2) m'(2) ok(1)])
  then show thesis using that [of m'] m' by (simp add: drainAdhoc_def mgr_ok_def evolves_def queueCap_def)
qed

lemma mgr_ok_evolves: "mgr_ok m rs \<Longrightarrow> evolves m m' \<Longrightarrow> retries_ok m' rs' \<Longrightarrow> mgr_ok m' rs'"
  using task_in_evolves by (auto simp: mgr_ok_def evolves_def)

lemma cycle_ok:
  assumes "env_ok env" "mgr_ok m rs" "updaterCycle env m rs = Some r"
  obtains m' rs' where "r = Inr (m', rs')" "mgr_ok m' rs'" "mgQueue m' = []"
proof -
  have ok: "sources_ok m" "retries_ok m rs" using assms(2) by (simp_all add: mgr_ok_def)
  obtain m1 rs1 where r1: "retryPhase env m rs = Inr (m1, rs1)" "evolves m m1" "retries_ok m1 rs1"
    by (rule retryPhase_ok [OF assms(1) ok]) blast
  have ok1: "mgr_ok m1 rs1" by (rule mgr_ok_evolves [OF assms(2) r1(2,3)])
  obtain q where q: "freshPhase env m1 rs1 = Some q" using assms(3) r1(1) by (auto simp: updaterCycle_def)
  obtain m2 rs2 where r2: "q = Inr (m2, rs2)" "evolves m1 m2" "retries_ok m2 rs2"
    by (rule freshPhase_ok [OF assms(1) _ r1(3) q]) (use ok1 in \<open>auto simp: mgr_ok_def\<close>)
  obtain m3 where r3: "drainAdhoc env m2 = Inr m3" "mgr_ok m3 rs2" "mgQueue m3 = []"
    by (rule drainAdhoc_ok [OF assms(1) mgr_ok_evolves [OF ok1 r2(2,3)]])
  let ?m = "m3\<lparr>mgTick := mgTick m3 + 1\<rparr>"
  have "mgr_ok ?m rs2" using r3(2) by (simp add: mgr_ok_def sources_ok_def retries_ok_def task_in_def)
  then show thesis using that [of ?m rs2] assms(3) r1(1) q r2(1) r3(1,3) by (simp add: updaterCycle_def rbind_def)
qed

end
