(* ===== verification/Manager_Serve.thy ===== *)
theory Manager_Serve
  imports Manager_Correct
begin

text \<open>
  The manager as it runs: the updater, requests and searches in any order.  The responses of a search do not depend on the
  schedule of its workers, but its cache confuses queries, and a retry can outlive the update it competes with.
\<close>

section \<open>The running manager\<close>

inductive mgStep :: "'db menv \<Rightarrow> 'db mgr \<times> retries \<Rightarrow> 'db mgr \<times> retries \<Rightarrow> bool" for env where
  "updaterCycle env m rs = Some (Inr (m', rs')) \<Longrightarrow> mgStep env (m, rs) (m', rs')"
| "\<lbrakk>mgQueue m = tk # q; runTasks env [tk] (m\<lparr>mgQueue := q\<rparr>) = Inr (fs, m')\<rbrakk> \<Longrightarrow> mgStep env (m, rs) (m', rs)"
| "SubmitReindex repoType slug m = (err, m') \<Longrightarrow> mgStep env (m, rs) (m', rs)"
| "ManagerSearch lib fs n keys repoType pat params m r m' \<Longrightarrow> mgStep env (m, rs) (m', rs)"
| "mgStats keys repoType m = (r, m') \<Longrightarrow> mgStep env (m, rs) (m', rs)"

text \<open>A manager after \<open>NewManager\<close>, on sources loaded from empty stores, and the resumption.\<close>

definition mgStart :: "'db menv \<Rightarrow> 'db mgr \<Rightarrow> bool" where
  "mgStart env m \<longleftrightarrow> (\<exists>loads c m0 keys.
     (\<forall>(t, err, s) \<in> set loads. \<exists>rows opn dir dirEntries order sc db.
        Load rows opn dir dirEntries order (NewExtensionStore t sc db) = Inr (err, s)) \<and>
     NewManager loads c = Inr m0 \<and> startUpdater env keys m0 = Inr m)"

lemma Resume_wf: "store_inv s \<Longrightarrow> tk \<in> set (ResumeUnindexed ops keys s) \<Longrightarrow> task_wf tk s"
proof -
  assume inv: "store_inv s" and tk: "tk \<in> set (ResumeUnindexed ops keys s)"
  have mem: "e \<in> set (addStale s slugs seen acc) \<Longrightarrow> e \<in> set acc \<or> (\<exists>sl. stList s sl = Some e)" for e slugs seen acc
  proof (induction slugs arbitrary: seen acc)
    case (Cons sl slugs)
    then show ?case by (auto split: if_splits option.splits) fastforce
  qed simp
  obtain e where e: "tk = makeIndexTask (stType s) e (eSlug e) (eSource e)" "\<exists>sl. stList s sl = Some e"
    using tk mem by (fastforce simp: ResumeUnindexed_def Let_def unindexedOf_def GetAll_mem)
  then obtain sl where "stList s sl = Some e" by blast
  then show ?thesis using e(1) by (auto elim: store_invE [OF inv] simp: task_wf_def makeIndexTask_def)
qed

lemma start_ok:
  assumes env: "env_ok env" and "mgStart env m"
  shows "mgr_ok m []"
proof -
  obtain loads c m0 keys where l: "NewManager loads c = Inr m0" "startUpdater env keys m0 = Inr m"
    "\<forall>(t, err, s) \<in> set loads. \<exists>rows opn dir dirEntries order sc db.
        Load rows opn dir dirEntries order (NewExtensionStore t sc db) = Inr (err, s)"
    using assms(2) unfolding mgStart_def by (elim exE conjE) assumption
  have m0: "mgSources m0 = map_of (rev (map (\<lambda>(t, err, s). (t, s)) loads))" "mgQueue m0 = []"
    using l(1) by (auto simp: NewManager_def split: list.splits)
  have "store_inv s \<and> stType s = t" if "mgSources m0 t = Some s" for t s
  proof -
    have "(t, s) \<in> set (rev (map (\<lambda>(t, err, s). (t, s)) loads))" using that unfolding m0 by (rule map_of_SomeD)
    then obtain err where "(t, err, s) \<in> set loads" by auto
    then obtain rows opn dir dirEntries order sc db where
      "Load rows opn dir dirEntries order (NewExtensionStore t sc db :: _ estore) = Inr (err, s)" using bspec [OF l(3)] by blast
    moreover have "stList (NewExtensionStore t sc db :: _ estore) = (\<lambda>_. None)" "stType (NewExtensionStore t sc db :: _ estore) = t"
      by (simp_all add: NewExtensionStore_def)
    ultimately show ?thesis using Load_ok by (metis Inr_inject prod.inject)
  qed
  then have ok: "sources_ok m0" by (simp add: sources_ok_def)
  have "task_in m0 tk" if "tk \<in> set (resumeAll env keys ts m0)" for tk ts
    using that
  proof (induction ts)
    case (Cons t ts)
    show ?case
    proof (cases "mgSources m0 t")
      case (Some s)
      have s: "store_inv s" "stType s = t" using ok Some by (auto simp: sources_ok_def)
      consider "tk \<in> set (ResumeUnindexed (meOps env) (keys t) s)" | "tk \<in> set (resumeAll env keys ts m0)"
        using Cons.prems Some by auto
      then show ?thesis
      proof cases
        case 1
        then have "task_wf tk s" by (rule Resume_wf [OF s(1)])
        then show ?thesis using s(2) Some by (auto simp: task_in_def task_wf_def)
      qed (rule Cons.IH)
    qed (use Cons in simp)
  qed simp
  then have t: "\<forall>tk \<in> set (resumeAll env keys (mgOrder m0) m0). task_in m0 tk" by blast
  obtain fs m1 where r: "runTasks env (resumeAll env keys (mgOrder m0) m0) m0 = Inr (fs, m1)" "evolves m0 m1"
    by (rule runTasks_ok [OF env ok t])
  have ok0: "mgr_ok m0 []" using ok m0(2) by (simp add: mgr_ok_def retries_ok_def)
  show ?thesis using l(2) r ok0 mgr_ok_evolves [OF ok0 r(2), of "[]"]
    by (auto simp: startUpdater_def Let_def rbind_def retries_ok_def split: if_splits)
qed

lemma task_in_same: "mgSources m' = mgSources m \<Longrightarrow> task_in m' tk = task_in m tk"
  by (simp add: task_in_def)

lemma step_ok:
  assumes env: "env_ok env" and "mgStep env x y" "mgr_ok (fst x) (snd x)"
  shows "mgr_ok (fst y) (snd y)"
  using assms(2)
proof cases
  case (1 m rs m' rs')
  then show ?thesis using cycle_ok [OF env _ 1(3)] assms(3) by fastforce
next
  case (2 m tk q fs m' rs)
  let ?m = "m\<lparr>mgQueue := q\<rparr>"
  have ok: "mgr_ok ?m rs" using assms(3) 2 by (simp add: mgr_ok_def sources_ok_def retries_ok_def task_in_def)
  have "task_in ?m tk" using assms(3) 2 by (simp add: mgr_ok_def task_in_def)
  have sok: "sources_ok ?m" using ok by (simp add: mgr_ok_def)
  have "\<forall>t \<in> set [tk]. task_in ?m t" using \<open>task_in ?m tk\<close> by simp
  then obtain fs' m'' where r: "runTasks env [tk] ?m = Inr (fs', m'')" "evolves ?m m''"
    by (rule runTasks_ok [OF env sok])
  have "retries_ok m'' rs" by (rule retries_ok_evolves [OF _ r(2)]) (use ok in \<open>simp_all add: mgr_ok_def\<close>)
  then show ?thesis using mgr_ok_evolves [OF ok r(2)] 2 r(1) by simp
next
  case (3 repoType slug m err m' rs)
  have ok: "mgr_ok m rs" using assms(3) 3 by simp
  show ?thesis
  proof (cases "m' = m")
    case True
    then show ?thesis using ok 3 by simp
  next
    case False
    then obtain s tk where s: "sourceOf repoType m = Some s" "MakeReindexTaskBySlug slug s = Some tk" "length (mgQueue m) < queueCap"
      "m' = m\<lparr>mgQueue := mgQueue m @ [tk]\<rparr>"
      using 3(3) by (auto simp: SubmitReindex_def split: option.splits if_splits)
    obtain t where t: "mgSources m t = Some s" using s(1) by (auto simp: sourceOf_def split: option.splits)
    have inv: "store_inv s" "stType s = t" using ok t by (auto simp: mgr_ok_def sources_ok_def)
    obtain e where e: "stList s slug = Some e" "tk = MakeReindexTask e s"
      using s(2) by (auto simp: MakeReindexTaskBySlug_def Get_def)
    have "task_wf tk s" using e(1) by (auto elim: store_invE [OF inv(1)] simp: e(2) task_wf_def MakeReindexTask_def makeIndexTask_def)
    then have "task_in m tk" using t inv(2) by (auto simp: task_in_def task_wf_def)
    then show ?thesis using ok s(3,4) 3 by (simp add: mgr_ok_def sources_ok_def retries_ok_def task_in_def)
  qed
next
  case (4 lib fs n keys repoType pat params m r m' rs)
  have "mgSources m' = mgSources m" "mgQueue m' = mgQueue m"
    using 4(3) by (auto elim!: ManagerSearchE simp: cachePut_def)
  then show ?thesis using assms(3) 4 by (simp add: mgr_ok_def sources_ok_def retries_ok_def task_in_def)
next
  case (5 keys repoType m r m' rs)
  have ok: "mgr_ok m rs" using assms(3) 5 by simp
  have "evolves m m'"
  proof (cases "\<exists>t s. typeOf repoType = Some t \<and> mgSources m t = Some s")
    case True
    then obtain t s where t: "typeOf repoType = Some t" "mgSources m t = Some s" by blast
    obtain q s1 where s1: "Stats keys s = (q, s1)" by fastforce
    have f: "stList s1 = stList s" "stIEs s1 = stIEs s" "stType s1 = stType s"
      using s1 by (auto simp: Stats_def Let_def split: option.splits cacheVal.splits)
    have inv: "store_inv s1" "stType s = t" using ok t(2) store_inv_cong(1) [OF f(1,2)] by (auto simp: mgr_ok_def sources_ok_def)
    show ?thesis
      by (rule evolves_put [OF _ t(2) inv(1)]) (use 5(3) t s1 f inv ok in \<open>auto simp: mgStats_def putSource_def mgr_ok_def\<close>)
  next
    case False
    then have "m' = m" using 5(3) by (auto simp: mgStats_def split: option.splits)
    then show ?thesis using ok by (simp add: mgr_ok_def evolves_refl)
  qed
  moreover have "retries_ok m' rs" by (rule retries_ok_evolves [of m, OF _ \<open>evolves m m'\<close>]) (use ok in \<open>simp_all add: mgr_ok_def\<close>)
  ultimately show ?thesis using mgr_ok_evolves [OF ok] 5 by simp
qed

lemma reach_ok:
  assumes "env_ok env" "mgStart env m0" "(mgStep env)\<^sup>*\<^sup>* (m0, []) x"
  shows "mgr_ok (fst x) (snd x)"
  using assms(3)
proof (induction rule: rtranclp_induct)
  case base
  then show ?case using start_ok [OF assms(1,2)] by simp
next
  case (step y z)
  then show ?case using step_ok [OF assms(1)] by blast
qed

section \<open>Responses\<close>

lemma found_response:
  assumes "mset hs = image_mset f (filter_mset P (mset (es :: ext list)))" "distinct (map eSlug es)" "\<And>e. fst (f e) = e"
  shows "sort_key resultOrder (map toResult hs) = sort_key resultOrder (map (toResult \<circ> f) (filter P es))"
proof -
  let ?ys = "map (toResult \<circ> f) (filter P es)"
  have m: "mset (map toResult hs) = mset ?ys"
    using arg_cong [OF assms(1), of "image_mset toResult"] by (simp add: multiset.map_comp comp_def)
  have sl: "mrSlug (toResult (f e)) = eSlug e" for e using assms(3) [of e] by (cases "f e") (simp add: toResult_def)
  have "distinct (map mrSlug ?ys)" using assms(2) sl by (simp add: comp_def distinct_map_filter)
  then have "inj_on mrSlug (set ?ys)" unfolding distinct_map by (rule conjunct2)
  then have "inj_on resultOrder (set ?ys)" by (auto simp: inj_on_def resultOrder_def)
  then have "inj_on resultOrder (set (map toResult hs))" using mset_eq_setD [OF m] by simp
  then show ?thesis using m by (intro sort_key_inj_key_eq) simp_all
qed

section \<open>A manager to run\<close>

text \<open>
  A store of plugins in which \<open>a\<close> is updated in the first two rounds; the first two runs of the indexer fail.
\<close>

definition pluginA :: "string \<Rightarrow> string \<Rightarrow> ext" where
  "pluginA version url = \<lparr>eSlug = bytes_of ''a'', eSource = bytes_of ''other'', eName = bytes_of ''A'', eVersion = bytes_of version,
     eDownloadLink = bytes_of url, eActiveInstalls = 10, eDownloaded = 20, eIE = None\<rparr>"

definition sampleEnv :: "unit menv" where
  "sampleEnv = \<lparr>meOps = sampleOps,
     meSave = \<lparr>svFirst = \<lambda>_ _ _. RowMissing, svSave = \<lambda>_ u. (False, u), svCreate = \<lambda>_ u. (False, u)\<rparr>,
     meEvents = True, meText = (\<lambda>_. []),
     meRun = (\<lambda>k j slug url. if k < 2 then Inl (ErrText (bytes_of ''error'')) else Inr \<lparr>irIndexPath = url, irStats = None\<rparr>),
     meOpen = (\<lambda>k p. Some \<lparr>xiDir = p, xiIdx = None\<rparr>), meElapsed = (\<lambda>_. 1), meSched = (\<lambda>_ ts. ts),
     meFetch = (\<lambda>tick t. Updates (Inr (if tick = 0 then [pluginA ''1'' ''u1''] else if tick = 1 then [pluginA ''2'' ''u2''] else []))),
     meNow = int\<rparr>"

definition sampleMgr :: "unit mgr" where
  "sampleMgr = \<lparr>mgSources = [TypePlugins \<mapsto> NewExtensionStore TypePlugins None ()], mgOrder = [TypePlugins], mgQueue = [],
     mgFails = (\<lambda>_. 0), mgLast = (\<lambda>_. None), mgCache = None, mgRuns = 0, mgTick = 0\<rparr>"

text \<open>The version that is listed for the plugin and the index that is open for it.\<close>

definition indexOf :: "unit mgr \<Rightarrow> (gostr \<times> gostr) option" where
  "indexOf m = (case mgSources m TypePlugins of None \<Rightarrow> None
     | Some s \<Rightarrow> (case stList s (bytes_of ''a'') of None \<Rightarrow> None
         | Some e \<Rightarrow> (case eIE e of None \<Rightarrow> None
             | Some a \<Rightarrow> map_option (\<lambda>x. (eVersion e, xiDir x)) (stIEs s ! a))))"

lemma sample_unit: "runDB sampleOps c s = (False, s)"
  by (cases s) (simp add: runDB_def sampleOps_def)

lemma sample_record [simp]: "recordOutcome sampleEnv k tk err s = s"
  by (simp add: recordOutcome_def sampleEnv_def ClearFailures_def RecordIndexFailure_def RecordIndexSuccess_def dbSet_def
    sample_unit Let_def)

lemma sample_run:
  assumes "tkSource tk = bytes_of ''other''"
  shows "runTask (meOps sampleEnv) (meOpen sampleEnv k) (meRun sampleEnv k) tk s =
    (if k < 2 then Inr (Some (ErrText (bytes_of ''error'')), s)
     else rbind (UpdateIndex \<lparr>xiDir = eDownloadLink (tkExt tk), xiIdx = None\<rparr> (tkSlug tk) s) (\<lambda>(err, s').
       Inr (map_option (Wrapped (bytes_of ''failed to update index'')) err, s')))"
proof -
  have "bytes_of ''other'' \<noteq> SourceWordPress" by (simp add: SourceWordPress_def bytes_of_def)
  then have "runURLs run tk = ([eDownloadLink (tkExt tk)], run 0 (tkSlug tk) (eDownloadLink (tkExt tk)))" for run
    using assms by (simp add: runURLs_def tryFallback_def Let_def)
  then show ?thesis
    by (simp add: runTask_def sampleEnv_def failTask_def finishTask_def)
qed

text \<open>The task of the plugin in one of its versions, with the first index object.\<close>

definition taskA :: "string \<Rightarrow> string \<Rightarrow> task" where
  "taskA version url = makeIndexTask TypePlugins ((pluginA version url)\<lparr>eIE := Some 0\<rparr>) (bytes_of ''a'') (bytes_of ''other'')"

text \<open>The states between the rounds: the version listed, the index objects, and the numbers of runs and rounds.\<close>

definition mgrA :: "string \<Rightarrow> string \<Rightarrow> xindex option list \<Rightarrow> xindex list \<Rightarrow> nat \<Rightarrow> nat \<Rightarrow> int \<Rightarrow> unit mgr" where
  "mgrA version url ies cl k tick now = \<lparr>mgSources = [TypePlugins \<mapsto>
       \<lparr>stType = TypePlugins, stList = [bytes_of ''a'' \<mapsto> (pluginA version url)\<lparr>eIE := Some 0\<rparr>], stTotal = 1, stIEs = ies,
        stClosing = cl, stCache = None, stDB = ()\<rparr>], mgOrder = [TypePlugins], mgQueue = [],
     mgFails = (\<lambda>_. 0), mgLast = [TypePlugins \<mapsto> now], mgCache = None, mgRuns = k, mgTick = tick\<rparr>"

definition retryA :: "nat \<Rightarrow> retries" where
  "retryA k = [((TypePlugins, bytes_of ''a''), \<lparr>reTask = taskA ''1'' ''u1'', reAttempts = k\<rparr>)]"

lemma sample_facts [simp]: "bytes_of ''a'' \<noteq> []" "bytes_of ''u1'' \<noteq> []" "bytes_of ''u2'' \<noteq> []" "(\<lambda>_. 0)(t := (0 :: nat)) = (\<lambda>_. 0)"
  by (auto simp: bytes_of_def)

lemma taskA_fields [simp]: "tkSource (taskA v u) = bytes_of ''other''" "tkSlug (taskA v u) = bytes_of ''a''"
  "tkType (taskA v u) = TypePlugins" "eDownloadLink (tkExt (taskA v u)) = bytes_of u" "keyOf (taskA v u) = (TypePlugins, bytes_of ''a'')"
  by (simp_all add: taskA_def makeIndexTask_def pluginA_def keyOf_def)

lemma mgrA_fields [simp]: "mgOrder (mgrA v u ies cl k tick now) = [TypePlugins]" "mgQueue (mgrA v u ies cl k tick now) = []"
  "mgTick (mgrA v u ies cl k tick now) = tick" "mgRuns (mgrA v u ies cl k tick now) = k"
  by (simp_all add: mgrA_def)

lemmas prepare_defs = prepareAll.simps sampleEnv_def sourcePrepare_def pluginFetch_def NewIndexedExtension_def NewExtensionStore_def
  PrepareUpdates_def prepareOne_def saveFn_def pluginA_def reuseIE_def Get_def Set_def Let_def mapSize_def putSource_def
  trackSuccess_def taskA_def mgrA_def makeIndexTask_def

lemma sample_sched [simp]: "runTasks sampleEnv tks m = runSeq sampleEnv tks m"
  by (simp add: runTasks_def sampleEnv_def)

text \<open>One run of the task: a failure changes nothing but the count, a success opens the index.\<close>

lemma runSeq_A:
  "k < 2 \<Longrightarrow> runSeq sampleEnv [taskA v u] (mgrA w u' ies cl k tick now) = Inr ([taskA v u], mgrA w u' ies cl (k + 1) tick now)"
  "\<not> k < 2 \<Longrightarrow> runSeq sampleEnv [taskA v u] (mgrA w u' (ie # ies) cl k tick now) =
     Inr ([], mgrA w u' (Some \<lparr>xiDir = bytes_of u, xiIdx = None\<rparr> # ies) (case ie of None \<Rightarrow> cl | Some old \<Rightarrow> cl @ [old]) (k + 1) tick now)"
  by (simp_all add: mgrA_def putSource_def rbind_def sample_run wasSkipped_def UpdateIndex_def ieUpdateIndex_def Let_def
    pluginA_def scheduleIndexClose_def cacheDelete_def split: option.split)

declare runSeq.simps(2) [simp del] prepareAll.simps(2) [simp del]

lemma round1: "updaterCycle sampleEnv sampleMgr [] = Some (Inr (mgrA ''1'' ''u1'' [None] [] (Suc 0) (Suc 0) 0, retryA (Suc 0)))"
proof -
  have p: "prepareAll sampleEnv [TypePlugins] sampleMgr = Some ([taskA ''1'' ''u1''], mgrA ''1'' ''u1'' [None] [] 0 0 0)"
    by (simp add: sampleMgr_def prepare_defs)
  have o: "mgOrder sampleMgr = [TypePlugins]" by (simp add: sampleMgr_def)
  show ?thesis
    by (simp add: updaterCycle_def retryPhase_def freshPhase_def o p runSeq_A(1) rbind_def addRetry_def drainAdhoc_def retryA_def)
      (simp add: mgrA_def)
qed

lemma round2: "updaterCycle sampleEnv (mgrA ''1'' ''u1'' [None] [] (Suc 0) (Suc 0) 0) (retryA (Suc 0)) =
    Some (Inr (mgrA ''2'' ''u2'' [Some \<lparr>xiDir = bytes_of ''u2'', xiIdx = None\<rparr>, None] [] 3 2 (int (Suc 0)), retryA 2))"
proof -
  have r: "retryPhase sampleEnv (mgrA ''1'' ''u1'' [None] [] (Suc 0) (Suc 0) 0) (retryA (Suc 0)) = Inr (mgrA ''1'' ''u1'' [None] [] 2 (Suc 0) 0, retryA 2)"
    by (simp add: retryPhase_def retryA_def runSeq_A(1) rbind_def map_filter_simps bumpRetry_def maxRetries_def Let_def numeral_2_eq_2)
  have p: "prepareAll sampleEnv [TypePlugins] (mgrA ''1'' ''u1'' [None] [] 2 (Suc 0) 0) =
      Some ([taskA ''2'' ''u2''], mgrA ''2'' ''u2'' [None, None] [] 2 (Suc 0) (int (Suc 0)))"
    by (simp add: prepare_defs)
  show ?thesis
    by (simp only: updaterCycle_def r sum.case prod.case freshPhase_def mgrA_fields p option.case)
      (simp add: runSeq_A(2) rbind_def addRetry_def drainAdhoc_def, simp add: mgrA_def)
qed

lemma round3: "\<exists>m. updaterCycle sampleEnv (mgrA ''2'' ''u2'' [Some \<lparr>xiDir = bytes_of ''u2'', xiIdx = None\<rparr>, None] [] 3 2 (int (Suc 0))) (retryA 2) =
    Some (Inr (m, [])) \<and> indexOf m = Some (bytes_of ''2'', bytes_of ''u1'')"
proof -
  let ?x = "\<lparr>xiDir = bytes_of ''u2'', xiIdx = None\<rparr>" and ?y = "\<lparr>xiDir = bytes_of ''u1'', xiIdx = None\<rparr>"
  have r: "retryPhase sampleEnv (mgrA ''2'' ''u2'' [Some ?x, None] [] 3 2 (int (Suc 0))) (retryA 2) =
      Inr (mgrA ''2'' ''u2'' [Some ?y, None] [?x] 4 2 (int (Suc 0)), [])"
    by (simp add: retryPhase_def retryA_def runSeq_A(2) rbind_def map_filter_simps bumpRetry_def Let_def)
  have p: "prepareAll sampleEnv [TypePlugins] (mgrA ''2'' ''u2'' [Some ?y, None] [?x] 4 2 (int (Suc 0))) =
      Some ([], mgrA ''2'' ''u2'' [Some ?y, None] [?x] 4 2 2)"
    by (simp add: prepare_defs)
  show ?thesis
    by (simp only: updaterCycle_def r sum.case prod.case freshPhase_def mgrA_fields p option.case)
      (simp add: rbind_def drainAdhoc_def mgrA_def indexOf_def pluginA_def)
qed

lemma sample_start: "env_ok sampleEnv" "mgStart sampleEnv sampleMgr"
proof -
  show "env_ok sampleEnv" by (simp add: env_ok_def sampleEnv_def)
  let ?s = "NewExtensionStore TypePlugins None ()"
  have "Load (Inr []) (\<lambda>_. None) [] (Inl ''error'') [] ?s = Inr (None, ?s)"
    by (simp add: Load_def LoadFromDB_def LoadIndexes_def rbind_def NewExtensionStore_def Let_def)
  then have "\<exists>rows opn dir dirEntries order sc db. Load rows opn dir dirEntries order (NewExtensionStore TypePlugins sc db) = Inr (None, ?s)"
    by blast
  then have "\<forall>(t, err, s) \<in> set [(TypePlugins, None, ?s)]. \<exists>rows opn dir dirEntries order sc db.
      Load rows opn dir dirEntries order (NewExtensionStore t sc db) = Inr (err, s)" by simp
  moreover have "NewManager [(TypePlugins, None, ?s)] None = Inr sampleMgr"
    by (simp add: NewManager_def map_filter_simps sampleMgr_def)
  moreover have "startUpdater sampleEnv (\<lambda>_. []) sampleMgr = Inr sampleMgr"
    by (simp add: startUpdater_def sampleMgr_def sampleEnv_def sampleOps_def ResumeUnindexed_def unindexedOf_def GetAll_def
      map_filter_simps Let_def)
  ultimately show "mgStart sampleEnv sampleMgr" unfolding mgStart_def by blast
qed

lemma sample_ok: "mgr_ok (mgrA ''1'' ''u1'' [None] [] (Suc 0) (Suc 0) 0) (retryA (Suc 0))"
  using reach_ok [OF sample_start, of "(mgrA ''1'' ''u1'' [None] [] (Suc 0) (Suc 0) 0, retryA (Suc 0))"]
    mgStep.intros(1) [OF round1] by (simp add: r_into_rtranclp)

text \<open>Two queries, one of them for some files only.\<close>

definition allFiles :: searchParams where
  "allFiles = \<lparr>spFileMatch = [], spExclude = [], spCaseInsensitive = False, spLines = 0\<rparr>"

definition someFiles :: searchParams where
  "someFiles = \<lparr>spFileMatch = bytes_of ''y:false:'', spExclude = [], spCaseInsensitive = False, spLines = 0\<rparr>"

section \<open>Properties\<close>

text \<open>
  C10. Whatever is fetched, downloaded and asked for and in whatever order, the state of the manager stays well formed: every
  source keeps the invariant of its store, the queue has at most 32 tasks, every task that waits has an index object
  of its source and no task waits for a fourth attempt; and the next round of the updater does not panic.
\<close>

theorem manager_invariant:
  assumes "env_ok env" "mgStart env m0" "(mgStep env)\<^sup>*\<^sup>* (m0, []) (m, rs)"
  shows "mgr_ok m rs \<and> (\<forall>flt. updaterCycle env m rs \<noteq> Some (Inl flt))"
proof -
  have ok: "mgr_ok m rs" using reach_ok [OF assms] by simp
  have "updaterCycle env m rs \<noteq> Some (Inl flt)" for flt
    by (rule notI, erule cycle_ok [OF assms(1) ok]) simp
  then show ?thesis using ok by blast
qed

theorem manager_invariant_witness:
  "\<exists>m rs. updaterCycle sampleEnv sampleMgr [] = Some (Inr (m, rs)) \<and> rs \<noteq> [] \<and> mgr_ok m rs"
proof -
  have "(mgStep sampleEnv)\<^sup>*\<^sup>* (sampleMgr, []) (mgrA ''1'' ''u1'' [None] [] (Suc 0) (Suc 0) 0, retryA (Suc 0))"
    using mgStep.intros(1) [OF round1] by blast
  from manager_invariant [OF sample_start this] show ?thesis using round1 by (auto simp: retryA_def)
qed

text \<open>
  C33. A task that keeps failing is given up: a round of retries keeps only tasks that failed again, counts the
  attempt, and after two rounds without new failures none is left.
\<close>

theorem retries_end:
  assumes "env_ok env" "mgr_ok m rs"
  shows "\<exists>m1 rs1 m2. retryPhase env m rs = Inr (m1, rs1) \<and> retryPhase env m1 rs1 = Inr (m2, []) \<and>
    (\<forall>(k, r) \<in> set rs1. \<exists>r0. (k, r0) \<in> set rs \<and> reTask r = reTask r0 \<and> reAttempts r = reAttempts r0 + 1)"
proof -
  have ok: "sources_ok m" "retries_ok m rs" using assms(2) by (simp_all add: mgr_ok_def)
  obtain m1 rs1 where r1: "retryPhase env m rs = Inr (m1, rs1)" "evolves m m1" "retries_ok m1 rs1"
    "\<And>k r. (k, r) \<in> set rs1 \<Longrightarrow> \<exists>r0. (k, r0) \<in> set rs \<and> reTask r = reTask r0 \<and> reAttempts r = reAttempts r0 + 1"
    by (rule retryPhase_ok [OF assms(1) ok]) (rule that)
  have ok1: "sources_ok m1" using r1(2) by (simp add: evolves_def)
  obtain m2 rs2 where r2: "retryPhase env m1 rs1 = Inr (m2, rs2)" "retries_ok m2 rs2"
    "\<And>k r. (k, r) \<in> set rs2 \<Longrightarrow> \<exists>r0. (k, r0) \<in> set rs1 \<and> reTask r = reTask r0 \<and> reAttempts r = reAttempts r0 + 1"
    by (rule retryPhase_ok [OF assms(1) ok1 r1(3)]) (rule that)
  have "rs2 = []"
  proof (cases rs2)
    case (Cons x xs)
    obtain k r where x: "(k, r) \<in> set rs2" using Cons by (cases x) auto
    obtain r1' where b: "(k, r1') \<in> set rs1" "reAttempts r = reAttempts r1' + 1" using r2(3) [OF x] by blast
    obtain r0 where c: "(k, r0) \<in> set rs" "reAttempts r1' = reAttempts r0 + 1" using r1(4) [OF b(1)] by blast
    have "1 \<le> reAttempts r0" "reAttempts r < 3" using ok(2) r2(2) c(1) x by (auto simp: retries_ok_def maxRetries_def)
    then show ?thesis using b(2) c(2) by simp
  qed
  then show ?thesis using r1 r2(1) by blast
qed

theorem retries_end_witness:
  "\<exists>m1 rs1 m2. retryPhase sampleEnv (mgrA ''1'' ''u1'' [None] [] (Suc 0) (Suc 0) 0) (retryA (Suc 0)) = Inr (m1, rs1) \<and>
     retryPhase sampleEnv m1 rs1 = Inr (m2, [])"
  using retries_end [OF sample_start(1) sample_ok] by blast

text \<open>
  A request to index an extension again is refused exactly when the type or the extension is not known or 32
  requests wait; else it is queued last with the extension as it is now listed, and nothing else changes.
\<close>

lemma submit_outcome:
  "SubmitReindex repoType slug m = (case sourceOf repoType m of None \<Rightarrow> (Some MExtNotFound, m)
     | Some s \<Rightarrow> (case stList s slug of None \<Rightarrow> (Some MExtNotFound, m)
         | Some e \<Rightarrow> if 32 \<le> length (mgQueue m) then (Some MQueueFull, m)
             else (None, m\<lparr>mgQueue := mgQueue m @
               [\<lparr>tkType = stType s, tkSlug = eSlug e, tkExt = e, tkSource = eSource e\<rparr>]\<rparr>)))"
  by (simp add: SubmitReindex_def MakeReindexTaskBySlug_def MakeReindexTask_def makeIndexTask_def Get_def queueCap_def
    split: option.split)

text \<open>
  C17. A search that is not answered from the cache has one response, whatever the schedule of its workers and the order of
  the map of extensions, as long as fewer matches than the cap are found: every extension that matches, once, those with
  more installs first and those with as many in the order of their slugs.
\<close>

theorem search_response:
  assumes "sources_ok m" "sourceOf repoType m = Some s" "cached (searchCacheKey repoType pat params) m = None"
    "distinct keys" "set keys = dom (stList s)" "CompileSearch lib pat (Some (optionsOf params)) = Some (Inr (Inr cs))"
    "ManagerSearch lib fs n keys repoType pat params m (Inr r) m'"
    "sum_list (map mrTotalMatches (mpResults r)) < globalMatchCap"
  shows "r = \<lparr>mpResults = sort_key resultOrder (map (\<lambda>e. toResult (e, workerMatches lib fs cs s e))
      (filter (\<lambda>e. workerMatches lib fs cs s e \<noteq> []) (searchExts keys s))), mpTotal = stTotal s\<rparr> \<and>
    sorted_wrt (\<lambda>x y. mrInstalls y < mrInstalls x \<or> mrInstalls y = mrInstalls x \<and> mrSlug x \<le> mrSlug y) (mpResults r)"
proof -
  let ?w = "workerMatches lib fs cs s"
  obtain t where "mgSources m t = Some s" using assms(2) by (auto simp: sourceOf_def split: option.splits)
  then have inv: "store_inv s" using assms(1) by (simp add: sources_ok_def)
  obtain hs tot where h: "StoreSearch lib fs n keys pat (Some (optionsOf params)) s (Inr (hs, tot))" "r = toResponse hs tot"
    using assms(2,3,7) by (auto elim: ManagerSearchE)
  note ok = StoreSearch_ok [OF inv assms(4,5,6) h(1)]
  have "mset (map mrTotalMatches (mpResults r)) = mset (map (\<lambda>(e, ms). matchCount ms) hs)"
    by (simp add: h(2) toResponse_def toResult_def multiset.map_comp comp_def case_prod_unfold)
  from arg_cong [OF this, of sum_mset]
  have "sum_list (map (\<lambda>(e, ms). matchCount ms) hs) < globalMatchCap"
    using assms(8) by (simp only: sum_mset_sum_list)
  from found_response [OF ok(4) [OF this] searchExts_facts(1) [OF inv assms(4,5)]]
  have "sort_key resultOrder (map toResult hs) = sort_key resultOrder (map (\<lambda>e. toResult (e, ?w e)) (filter (\<lambda>e. ?w e \<noteq> []) (searchExts keys s)))"
    by (simp add: comp_def)
  moreover have "sorted_wrt (\<lambda>x y. resultOrder x \<le> resultOrder y) (mpResults r)"
    using sorted_sort_key [of resultOrder "map toResult hs"] unfolding sorted_map by (simp add: h(2) toResponse_def)
  then have "sorted_wrt (\<lambda>x y. mrInstalls y < mrInstalls x \<or> mrInstalls y = mrInstalls x \<and> mrSlug x \<le> mrSlug y) (mpResults r)"
    by (rule sorted_wrt_mono_rel [rotated]) (auto simp: resultOrder_def)
  ultimately show ?thesis using ok(1) by (simp add: h(2) toResponse_def)
qed

theorem search_response_witness:
  "\<exists>r m'. ManagerSearch sampleLib sampleFs 4 [bytes_of ''a'', bytes_of ''b''] (bytes_of ''plugins'') (bytes_of ''abc'') allFiles
     (sampleMgr\<lparr>mgSources := [TypePlugins \<mapsto> sampleStore]\<rparr>) (Inr r) m' \<and> mpResults r = [] \<and> mpTotal r = 2"
proof -
  let ?m = "sampleMgr\<lparr>mgSources := [TypePlugins \<mapsto> sampleStore]\<rparr>" and ?keys = "[bytes_of ''a'', bytes_of ''b'']"
  have ok: "sources_ok ?m" using sample_inv(1) by (simp add: sources_ok_def sampleStore_eq)
  have src: "sourceOf (bytes_of ''plugins'') ?m = Some sampleStore" by (simp add: sourceOf_def typeOf_def typeName_def)
  have c: "cached k ?m = None" for k by (simp add: cached_def sampleMgr_def)
  have keys: "distinct ?keys" "set ?keys = dom (stList sampleStore)" by (simp_all add: sample_link sample_dom)
  obtain cs where cs: "CompileSearch sampleLib (bytes_of ''abc'') (Some (optionsOf allFiles)) = Some (Inr (Inr cs))"
    by (rule sample_compile_opts [of "optionsOf allFiles"]) (simp_all add: optionsOf_def allFiles_def)
  have none: "searchExts ?keys sampleStore = []"
    by (simp add: searchExts_def GetAll_def map_filter_simps sampleStore_eq sampleExt_def hasIndex_def)
  have st: "StoreSearch sampleLib sampleFs 4 ?keys (bytes_of ''abc'') (Some (optionsOf allFiles)) sampleStore (Inr ([], stTotal sampleStore))"
    by (rule StoreSearch.intros(2) [OF cs none])
  note r = ManagerSearch.intros(4) [OF src c st]
  have "sum_list (map mrTotalMatches (mpResults (toResponse [] (stTotal sampleStore)))) < globalMatchCap"
    by (simp add: toResponse_def globalMatchCap_def)
  from conjunct1 [OF search_response [OF ok src c keys cs r this]]
  have e: "toResponse [] (stTotal sampleStore) = \<lparr>mpResults = [], mpTotal = 2\<rparr>"
    by (simp only: none) (simp add: sampleStore_eq)
  show ?thesis by (intro exI conjI, rule r [unfolded e]) simp_all
qed

text \<open>
  The key of the cache does not tell queries apart: a search for \<open>x\<close> in the files that match \<open>y:false:\<close> is answered with
  the response to an earlier search for \<open>x:false:y\<close> in all files, for the keys of the two are the same.
\<close>

lemma search_cache_confuses:
  assumes "mgCache m \<noteq> None" "ManagerSearch lib fs n keys repoType (bytes_of ''x:false:y'') allFiles m (Inr r) m1"
    "ManagerSearch lib' fs' n' keys' repoType (bytes_of ''x'') someFiles m1 r2 m2"
  shows "r2 = Inr r"
proof -
  have k: "searchCacheKey repoType (bytes_of ''x'') someFiles = searchCacheKey repoType (bytes_of ''x:false:y'') allFiles"
    by (simp add: searchCacheKey_def allFiles_def someFiles_def bytes_of_def)
  have "sourceOf repoType m1 \<noteq> None \<and> cached (searchCacheKey repoType (bytes_of ''x:false:y'') allFiles) m1 = Some r"
    using assms(2) assms(1) by (auto elim!: ManagerSearchE simp: cachePut_def cached_def sourceOf_def split: option.splits)
  then show ?thesis using assms(3) by (auto elim!: ManagerSearchE simp: k)
qed

lemma search_cache_confuses_example:
  "\<exists>r m1. ManagerSearch sampleLib sampleFs 4 [bytes_of ''a'', bytes_of ''b''] (bytes_of ''plugins'') (bytes_of ''x:false:y'') allFiles
       (sampleMgr\<lparr>mgSources := [TypePlugins \<mapsto> sampleStore], mgCache := Some (\<lambda>_. None)\<rparr>) (Inr r) m1 \<and>
     ManagerSearch sampleLib sampleFs 4 [] (bytes_of ''plugins'') (bytes_of ''x'') someFiles m1 (Inr r) m1"
proof -
  let ?m = "sampleMgr\<lparr>mgSources := [TypePlugins \<mapsto> sampleStore], mgCache := Some (\<lambda>_. None)\<rparr>"
  let ?keys = "[bytes_of ''a'', bytes_of ''b'']" and ?k = "searchCacheKey (bytes_of ''plugins'')"
  have src: "sourceOf (bytes_of ''plugins'') ?m = Some sampleStore" by (simp add: sourceOf_def typeOf_def typeName_def)
  have c: "cached k ?m = None" for k by (simp add: cached_def)
  obtain cs where cs: "CompileSearch sampleLib (bytes_of ''x:false:y'') (Some (optionsOf allFiles)) = Some (Inr (Inr cs))"
    by (rule sample_compile_opts [of "optionsOf allFiles"]) (simp_all add: optionsOf_def allFiles_def)
  have none: "searchExts ?keys sampleStore = []"
    by (simp add: searchExts_def GetAll_def map_filter_simps sampleStore_eq sampleExt_def hasIndex_def)
  let ?r = "toResponse [] (stTotal sampleStore)" and ?m1 = "cachePut (?k (bytes_of ''x:false:y'') allFiles) (toResponse [] (stTotal sampleStore)) ?m"
  have r: "ManagerSearch sampleLib sampleFs 4 ?keys (bytes_of ''plugins'') (bytes_of ''x:false:y'') allFiles ?m (Inr ?r) ?m1"
    by (rule ManagerSearch.intros(4) [OF src c StoreSearch.intros(2) [OF cs none]])
  have "?k (bytes_of ''x'') someFiles = ?k (bytes_of ''x:false:y'') allFiles"
    by (simp add: searchCacheKey_def allFiles_def someFiles_def bytes_of_def)
  then have "cached (?k (bytes_of ''x'') someFiles) ?m1 = Some ?r" by (simp add: cached_def cachePut_def)
  moreover have "sourceOf (bytes_of ''plugins'') ?m1 = Some sampleStore" by (simp add: sourceOf_def cachePut_def typeOf_def typeName_def)
  ultimately obtain r2 where q: "ManagerSearch sampleLib sampleFs 4 [] (bytes_of ''plugins'') (bytes_of ''x'') someFiles ?m1 r2 ?m1"
    using ManagerSearch.intros(2) by blast
  have "mgCache ?m \<noteq> None" by simp
  from search_cache_confuses [OF this r q] show ?thesis using r q by blast
qed

text \<open>
  A retry outlives the update it competes with: a task that failed in the first round is tried again in the third,
  after the newer version has been indexed in the second, and its success puts the index of the old version in the place
  of the new one, while the new version stays listed.
\<close>

lemma retry_replaces_newer:
  "\<exists>m1 rs1 m2 rs2 m3. updaterCycle sampleEnv sampleMgr [] = Some (Inr (m1, rs1)) \<and>
     updaterCycle sampleEnv m1 rs1 = Some (Inr (m2, rs2)) \<and> indexOf m2 = Some (bytes_of ''2'', bytes_of ''u2'') \<and>
     updaterCycle sampleEnv m2 rs2 = Some (Inr (m3, [])) \<and> indexOf m3 = Some (bytes_of ''2'', bytes_of ''u1'')"
proof -
  have "indexOf (mgrA ''2'' ''u2'' [Some \<lparr>xiDir = bytes_of ''u2'', xiIdx = None\<rparr>, None] [] 3 2 (int (Suc 0))) =
      Some (bytes_of ''2'', bytes_of ''u2'')"
    by (simp add: indexOf_def mgrA_def pluginA_def)
  then show ?thesis using round1 round2 round3 by blast
qed

end
