(* ===== verification/File_Path.thy ===== *)
theory File_Path
  imports Index_Writer
begin

text \<open>
  The lexical operations of Go's \<open>path/filepath\<close> on slash-separated paths that the indexer uses:
  \<open>Clean\<close>, \<open>Join\<close>, \<open>Dir\<close> and \<open>Ext\<close>, by their documentation.

  The lemmas describe the clean form of a rooted path: a slash before each of its parts, none of which is empty, a
  dot or two dots; a clean path that starts with another and a slash lies below it.
\<close>

section \<open>Operations\<close>

fun joinSlash :: "gostr list \<Rightarrow> gostr" where
  "joinSlash [] = []"
| "joinSlash [c] = c"
| "joinSlash (c # cs) = c @ 47 # joinSlash cs"

definition dot :: gostr where "dot = [46]"

definition dotdot :: gostr where "dotdot = [46, 46]"

text \<open>The parts kept so far, the last first.\<close>

definition cleanStep :: "bool \<Rightarrow> gostr \<Rightarrow> gostr list \<Rightarrow> gostr list" where
  "cleanStep rooted c st =
     (if c = [] \<or> c = dot then st
      else if c = dotdot then
        (case st of
           d # ds \<Rightarrow> if d = dotdot then c # st else ds
         | [] \<Rightarrow> if rooted then st else [c])
      else c # st)"

definition pathClean :: "gostr \<Rightarrow> gostr" where
  "pathClean p =
     (let rooted = (p \<noteq> [] \<and> hd p = 47);
          body = joinSlash (rev (fold (cleanStep rooted) (split_sep [] p) []))
      in if rooted then 47 # body else if body = [] then dot else body)"

definition pathJoin :: "gostr list \<Rightarrow> gostr" where
  "pathJoin ps = (case filter (\<lambda>p. p \<noteq> []) ps of [] \<Rightarrow> [] | qs \<Rightarrow> pathClean (joinSlash qs))"

definition pathDir :: "gostr \<Rightarrow> gostr" where
  "pathDir p = pathClean (rev (dropWhile (\<lambda>c. c \<noteq> 47) (rev p)))"

text \<open>The last element of \<open>Split\<close>.\<close>

definition pathElem :: "gostr \<Rightarrow> gostr" where
  "pathElem p = rev (takeWhile (\<lambda>c. c \<noteq> 47) (rev p))"

definition pathExt :: "gostr \<Rightarrow> gostr" where
  "pathExt p = (let r = rev (pathElem p) in if 46 \<in> set r then 46 # rev (takeWhile (\<lambda>c. c \<noteq> 46) r) else [])"

section \<open>Parts of a path\<close>

definition proper :: "gostr \<Rightarrow> bool" where
  "proper c \<longleftrightarrow> c \<noteq> [] \<and> c \<noteq> dot \<and> c \<noteq> dotdot \<and> 47 \<notin> set c"

text \<open>A path below another: the other and one or more proper parts.\<close>

definition below :: "gostr \<Rightarrow> gostr list \<Rightarrow> gostr" where
  "below d cs = d @ concat (map (\<lambda>c. 47 # c) cs)"

lemma below_simps [simp]: "below d [] = d" "below d (c # cs) = below (d @ 47 # c) cs"
  by (simp_all add: below_def)

lemma below_append: "below d (cs @ ds) = below (below d cs) ds"
  by (simp add: below_def)

lemma below_prefix: "below (p @ d) cs = p @ below d cs"
  by (simp add: below_def)

lemma split_sep_plain: "47 \<notin> set c \<Longrightarrow> split_sep acc c = [acc @ c]"
  by (induction c arbitrary: acc) auto

lemma split_sep_slash: "split_sep acc (p @ 47 # q) = split_sep acc p @ split_sep [] q"
  by (induction p arbitrary: acc) auto

lemma split_sep_parts: "47 \<notin> set acc \<Longrightarrow> \<forall>c \<in> set (split_sep acc p). 47 \<notin> set c"
  by (induction acc p rule: split_sep.induct) auto

lemma split_sep_below: "\<forall>c \<in> set cs. 47 \<notin> set c \<Longrightarrow> split_sep acc (below d cs) = split_sep acc d @ cs"
proof (induction cs rule: rev_induct)
  case (snoc c cs)
  then show ?case using split_sep_slash [of acc "below d cs" c]
    by (simp add: below_append below_def [of _ "[c]"] split_sep_plain)
qed simp

lemma joinSlash_below: "47 # joinSlash (c # cs) = below [] (c # cs)"
  by (induction cs arbitrary: c) (simp_all add: below_def)

lemma cleanStep_proper: "proper c \<Longrightarrow> cleanStep r c st = c # st"
  by (simp add: proper_def cleanStep_def)

lemma fold_proper: "\<forall>c \<in> set cs. proper c \<Longrightarrow> fold (cleanStep r) cs st = rev cs @ st"
  by (induction cs arbitrary: st) (simp_all add: cleanStep_proper)

lemma fold_rooted:
  "\<forall>c \<in> set cs. 47 \<notin> set c \<Longrightarrow> \<forall>c \<in> set st. proper c \<Longrightarrow> \<forall>c \<in> set (fold (cleanStep True) cs st). proper c"
proof (induction cs arbitrary: st)
  case (Cons c cs)
  have "\<forall>d \<in> set (cleanStep True c st). proper d"
    using Cons.prems by (auto simp: cleanStep_def proper_def split: list.splits)
  with Cons show ?case by simp
qed simp

section \<open>Clean paths\<close>

definition rooted_path :: "gostr list \<Rightarrow> gostr" where
  "rooted_path cs = (if cs = [] then [47] else below [] cs)"

lemma pathClean_rooted:
  assumes "p \<noteq> []" "hd p = 47"
  obtains cs where "pathClean p = rooted_path cs" "\<forall>c \<in> set cs. proper c"
proof
  let ?cs = "rev (fold (cleanStep True) (split_sep [] p) [])"
  show "pathClean p = rooted_path ?cs"
    using assms joinSlash_below by (cases ?cs) (simp_all add: pathClean_def rooted_path_def)
  have "\<forall>c \<in> set (split_sep [] p). 47 \<notin> set c" by (rule split_sep_parts) simp
  from fold_rooted [OF this, of "[]"] show "\<forall>c \<in> set ?cs. proper c" by simp
qed

lemma pathClean_below:
  assumes "\<forall>c \<in> set cs. proper c"
  shows "pathClean (rooted_path cs) = rooted_path cs"
proof (cases cs)
  case (Cons c cs')
  have "split_sep [] (below [] cs) = [] # cs"
    using split_sep_below [of cs "[]" "[]"] assms by (simp add: proper_def)
  moreover have "fold (cleanStep True) cs [] = rev cs" using fold_proper [OF assms] by simp
  ultimately show ?thesis using joinSlash_below [of c cs'] Cons
    by (simp add: pathClean_def rooted_path_def cleanStep_def [of _ "[]"] below_prefix [of "[47]", simplified])
qed (simp add: pathClean_def rooted_path_def cleanStep_def)

lemma pathClean_idem: "p \<noteq> [] \<Longrightarrow> hd p = 47 \<Longrightarrow> pathClean (pathClean p) = pathClean p"
  by (metis pathClean_below pathClean_rooted)

lemma take_part:
  fixes c :: gostr
  shows "47 \<notin> set c \<Longrightarrow> r = [] \<or> hd r = 47 \<Longrightarrow> takeWhile (\<lambda>x. x \<noteq> 47) (c @ r) = c"
  by (subst takeWhile_append2) (cases r; auto)+

lemma below_split:
  "\<forall>c \<in> set cs. 47 \<notin> set c \<Longrightarrow> \<forall>c \<in> set ds. 47 \<notin> set c \<Longrightarrow> below [] cs = below [] ds @ 47 # r \<Longrightarrow>
   \<exists>es. cs = ds @ es \<and> es \<noteq> []"
proof (induction ds arbitrary: cs)
  case Nil
  then show ?case by (cases cs) simp_all
next
  case (Cons d ds)
  then obtain c cs' where cs: "cs = c # cs'" by (cases cs) (simp_all add: below_def)
  have e: "c @ concat (map (\<lambda>c. 47 # c) cs') = d @ concat (map (\<lambda>c. 47 # c) ds) @ 47 # r"
    using Cons.prems(3) by (simp add: cs below_def)
  have "takeWhile (\<lambda>x. x \<noteq> 47) (d @ concat (map (\<lambda>c. 47 # c) ds) @ 47 # r) = d"
    by (rule take_part) (use Cons.prems(2) in \<open>cases ds; simp\<close>)+
  moreover have "takeWhile (\<lambda>x. x \<noteq> 47) (c @ concat (map (\<lambda>c. 47 # c) cs')) = c"
    by (rule take_part) (use Cons.prems(1) cs in \<open>cases cs'; simp\<close>)+
  ultimately have "c = d" using e by metis
  with e have "below [] cs' = below [] ds @ 47 # r" by (simp add: below_def)
  with Cons \<open>c = d\<close> show ?case by (simp add: cs)
qed

end
