(* ===== verification/Dir_Index.thy ===== *)
theory Dir_Index
  imports Extract Index_Search
begin

text \<open>
  Building the index of a directory: \<open>IndexDirToFile\<close> of \<open>internal/index/extract.go\<close>, with the walk of
  \<open>filepath.Walk\<close>.

  The directory is a tree; the entries of a directory are in the order \<open>Walk\<close> takes them, by name.  A file is what
  opening it gives, a reader and the archive it could be taken for; an entry may vanish between the listing and
  the visit.

  The lemmas show that the index is the one of the visible files with a text extension, named by their path below the
  directory the index is made for.
\<close>

section \<open>The tree\<close>

datatype fnode = FGone | FOther | FReg "(reader \<times> zip_view) option" | FDir "(gostr \<times> fnode) list option"

definition hiddenElem :: "gostr \<Rightarrow> bool" where
  "hiddenElem e \<longleftrightarrow> e \<noteq> [] \<and> (hd e = 0x2E \<or> hd e = 0x23 \<or> hd e = 0x7E \<or> last e = 0x7E)"

text \<open>
  The regular files the visitor does not skip, in the order of the walk.  A hidden entry that has vanished has no
  \<open>FileInfo\<close>, which the visitor asks whether it is a directory.
\<close>

lemma size_entry: "size_prod (\<lambda>_. 0) size = (\<lambda>e. Suc (size (snd e)))"
  by (rule ext) (simp add: split_paired_all)

function visit :: "gostr \<Rightarrow> fnode \<Rightarrow> (gostr \<times> (reader \<times> zip_view) option) list res"
  and visitAll :: "gostr \<Rightarrow> (gostr \<times> fnode) list \<Rightarrow> (gostr \<times> (reader \<times> zip_view) option) list res" where
  "visit path FGone = (if hiddenElem (pathElem path) then Inl Panic else Inr [])"
| "visit path FOther = Inr []"
| "visit path (FReg c) = (if hiddenElem (pathElem path) then Inr [] else Inr [(path, c)])"
| "visit path (FDir es) = (if hiddenElem (pathElem path) then Inr []
     else case es of None \<Rightarrow> Inr [] | Some es \<Rightarrow> visitAll path es)"
| "visitAll path [] = Inr []"
| "visitAll path (e # es) = rbind (visit (pathJoin [path, fst e]) (snd e)) (\<lambda>a. rbind (visitAll path es) (\<lambda>b. Inr (a @ b)))"
  by pat_completeness auto
termination
  by (relation "measure (case_sum (\<lambda>(p, n). size n) (\<lambda>(p, es). size_list (size_prod (\<lambda>_. 0) size) es))") (simp_all add: size_entry)

section \<open>Indexing\<close>

text \<open>\<open>filepath.Rel\<close>: the parts of the target after those it shares with the base, after the steps up.\<close>

fun dropCommon :: "gostr list \<Rightarrow> gostr list \<Rightarrow> gostr list \<times> gostr list" where
  "dropCommon (b # bs) (t # ts) = (if b = t then dropCommon bs ts else (b # bs, t # ts))"
| "dropCommon bs ts = (bs, ts)"

definition pathParts :: "gostr \<Rightarrow> gostr list" where
  "pathParts p = (if p = dot then [] else filter (\<lambda>c. c \<noteq> []) (split_sep [] p))"

definition isRooted :: "gostr \<Rightarrow> bool" where
  "isRooted p \<longleftrightarrow> p \<noteq> [] \<and> hd p = 47"

definition pathRel :: "gostr \<Rightarrow> gostr \<Rightarrow> gostr option" where
  "pathRel basePath targPath =
     (let b = pathClean basePath; t = pathClean targPath in
      if b = t then Some dot
      else if isRooted b \<noteq> isRooted t then None
      else let (rb, rt) = dropCommon (pathParts b) (pathParts t) in
        if rb \<noteq> [] \<and> hd rb = dotdot then None else Some (joinSlash (replicate (length rb) dotdot @ rt)))"

definition indexedPath :: "gostr \<Rightarrow> gostr \<Rightarrow> gostr \<Rightarrow> gostr option" where
  "indexedPath indexSrc storePath path =
     (if storePath = [] then Some path
      else case pathRel indexSrc path of None \<Rightarrow> None | Some rel \<Rightarrow> Some (pathJoin [storePath, rel]))"

definition addOne :: "(gostr \<Rightarrow> gostr) \<Rightarrow> gostr \<Rightarrow> gostr \<Rightarrow> gostr \<times> (reader \<times> zip_view) option \<Rightarrow> indexWriter \<Rightarrow> indexWriter res" where
  "addOne lower indexSrc storePath = (\<lambda>(path, content) ix.
     if \<not> indexable lower path then Inr ix
     else case indexedPath indexSrc storePath path of
         None \<Rightarrow> Inr ix
       | Some name \<Rightarrow> (case content of None \<Rightarrow> Inr ix
           | Some (f, zv) \<Rightarrow> rbind (AddReaderNamed 1 name f zv ix) (\<lambda>(_, ix1). Inr ix1)))"

text \<open>\<open>prepared\<close>: the directory and the file of the index could be made; otherwise the process exits.\<close>

definition IndexDirToFile :: "(gostr \<Rightarrow> gostr) \<Rightarrow> bool \<Rightarrow> (nat \<Rightarrow> nat) \<Rightarrow> u64 list \<Rightarrow> gostr \<Rightarrow> fnode \<Rightarrow> gostr \<Rightarrow> indexWriter res option" where
  "IndexDirToFile lower prepared g tmp indexSrc tree storePath =
     (if \<not> prepared then Some (Inl Fatal)
      else case rbind (Create 1 g tmp) (\<lambda>ix0.
          let rootPath = (if storePath \<noteq> [] then storePath else indexSrc);
              ix1 = (AddRoots [MakePath (pathJoin [rootPath])] ix0)\<lparr>iwZip := False\<rparr>
          in rbind (visit (pathJoin [indexSrc]) tree) (\<lambda>files. rfold (addOne lower indexSrc storePath) files ix1)) of
        Inl e \<Rightarrow> Some (Inl e)
      | Inr ix \<Rightarrow> Flush 1 ix)"

section \<open>The files of a directory\<close>

text \<open>The visible files with a text extension that can be opened, by the parts of their path below the directory.\<close>

fun textFiles :: "(gostr \<Rightarrow> gostr) \<Rightarrow> gostr list \<Rightarrow> fnode \<Rightarrow> (gostr list \<times> reader \<times> zip_view) list" where
  "textFiles lower rel (FDir (Some es)) =
     concat (map (\<lambda>(n, d). if hiddenElem n then [] else textFiles lower (rel @ [n]) d) es)"
| "textFiles lower rel (FReg (Some c)) = (if indexable lower (last rel) then [(rel, c)] else [])"
| "textFiles lower rel n = []"

fun fnode_ok :: "fnode \<Rightarrow> bool" where
  "fnode_ok (FDir (Some es)) = (\<forall>(n, d) \<in> set es. proper n \<and> (hiddenElem n \<longrightarrow> d \<noteq> FGone) \<and> fnode_ok d)"
| "fnode_ok n = True"

section \<open>Paths below a directory\<close>

lemma pathJoin_entry:
  assumes "\<forall>c \<in> set (cs @ [n]). proper c" "cs \<noteq> []"
  shows "pathJoin [rooted_path cs, n] = rooted_path (cs @ [n])"
proof -
  have "n \<noteq> []" "rooted_path cs \<noteq> []" using assms by (auto simp: proper_def rooted_path_def below_def)
  moreover have "rooted_path cs @ 47 # n = rooted_path (cs @ [n])"
    using assms(2) by (simp add: rooted_path_def below_append below_def [of _ "[n]"])
  ultimately show ?thesis using pathClean_below [OF assms(1)] by (simp add: pathJoin_def)
qed

lemma pathElem_plain: "47 \<notin> set n \<Longrightarrow> pathElem n = n"
  unfolding pathElem_def by (subst takeWhile_eq_all_conv [THEN iffD2]) auto

lemma pathElem_last:
  assumes "47 \<notin> set n"
  shows "pathElem (rooted_path (cs @ [n])) = n"
proof -
  have "takeWhile (\<lambda>c. c \<noteq> 47) (rev n @ 47 # rev (below [] cs)) = rev n"
    by (rule take_part) (use assms in simp_all)
  then show ?thesis by (simp add: pathElem_def rooted_path_def below_append below_def [of _ "[n]"])
qed

lemma indexable_last: "47 \<notin> set n \<Longrightarrow> indexable lower (rooted_path (cs @ [n])) = indexable lower n"
  by (simp add: indexable_def pathExt_def pathElem_last pathElem_plain)

lemma last_part:
  assumes "cs \<noteq> []" "\<forall>c \<in> set cs. proper c"
  shows "pathElem (rooted_path cs) = last cs" "indexable lower (rooted_path cs) = indexable lower (last cs)"
proof -
  have "47 \<notin> set (last cs)" using assms by (simp add: proper_def)
  from pathElem_last [OF this, of "butlast cs"] indexable_last [OF this, of lower "butlast cs"] assms(1)
  show "pathElem (rooted_path cs) = last cs" "indexable lower (rooted_path cs) = indexable lower (last cs)" by simp_all
qed

lemma pathParts_rooted:
  assumes "\<forall>c \<in> set cs. proper c"
  shows "pathParts (rooted_path cs) = cs"
proof (cases "cs = []")
  case False
  have "split_sep [] (below [] cs) = [] # cs"
    using split_sep_below [of cs "[]" "[]"] assms by (simp add: proper_def)
  moreover have "filter (\<lambda>c. c \<noteq> []) cs = cs" using assms by (auto simp: proper_def intro: filter_True)
  moreover have "below [] cs \<noteq> dot" using False by (cases cs) (auto simp: below_def dot_def)
  ultimately show ?thesis using False by (simp add: pathParts_def rooted_path_def)
qed (simp add: pathParts_def rooted_path_def dot_def)

lemma dropCommon_prefix: "dropCommon bs (bs @ ts) = ([], ts)"
  by (induction bs) simp_all

lemma rooted_path_inj:
  "\<forall>c \<in> set cs. proper c \<Longrightarrow> \<forall>c \<in> set ds. proper c \<Longrightarrow> rooted_path cs = rooted_path ds \<longleftrightarrow> cs = ds"
  using pathParts_rooted by metis

lemma isRooted_rooted: "isRooted (rooted_path cs)"
  by (cases cs) (simp_all add: isRooted_def rooted_path_def below_def)

lemma pathRel_below:
  assumes "\<forall>c \<in> set (cs @ rel). proper c" "rel \<noteq> []"
  shows "pathRel (rooted_path cs) (rooted_path (cs @ rel)) = Some (joinSlash rel)"
  using assms rooted_path_inj [of cs "cs @ rel"] pathClean_below [of cs] pathClean_below [of "cs @ rel"]
  by (simp add: pathRel_def Let_def isRooted_rooted pathParts_rooted dropCommon_prefix)

lemma pathJoin_rel:
  assumes "\<forall>c \<in> set (ds @ rel). proper c" "rel \<noteq> []" "ds \<noteq> []"
  shows "pathJoin [rooted_path ds, joinSlash rel] = rooted_path (ds @ rel)"
proof -
  obtain c cs where rel: "rel = c # cs" using assms(2) by (cases rel) auto
  have "joinSlash rel \<noteq> []" "rooted_path ds \<noteq> []"
    using assms rel by (cases cs; auto simp: proper_def rooted_path_def below_def)+
  moreover have "rooted_path ds @ 47 # joinSlash rel = rooted_path (ds @ rel)"
    using assms(3) joinSlash_below [of c cs] rel below_prefix [of "below [] ds" "[]" rel]
    by (simp add: rooted_path_def below_append)
  ultimately show ?thesis using pathClean_below [OF assms(1)] by (simp add: pathJoin_def)
qed

section \<open>The walk\<close>

definition wanted :: "(gostr \<Rightarrow> gostr) \<Rightarrow> gostr \<times> (reader \<times> zip_view) option \<Rightarrow> (gostr \<times> reader \<times> zip_view) option" where
  "wanted lower = (\<lambda>(p, c). if indexable lower p then map_option (Pair p) c else None)"

lemma map_filter_append: "List.map_filter f (xs @ ys) = List.map_filter f xs @ List.map_filter f ys"
  by (simp add: List.map_filter_def)

lemma visit_ok:
  "path = rooted_path (cs @ rel) \<Longrightarrow> cs \<noteq> [] \<Longrightarrow> \<forall>c \<in> set (cs @ rel). proper c \<Longrightarrow> fnode_ok d \<Longrightarrow>
   (hiddenElem (last (cs @ rel)) \<longrightarrow> d \<noteq> FGone) \<Longrightarrow> rel \<noteq> [] \<or> (\<exists>es. d = FDir es) \<Longrightarrow>
   \<exists>files. visit path d = Inr files \<and> List.map_filter (wanted lower) files =
     map (\<lambda>(r, c). (rooted_path (cs @ r), c)) (if hiddenElem (last (cs @ rel)) then [] else textFiles lower rel d)"
  and "path = rooted_path (cs @ rel) \<Longrightarrow> cs \<noteq> [] \<Longrightarrow> \<forall>c \<in> set (cs @ rel). proper c \<Longrightarrow> fnode_ok (FDir (Some es)) \<Longrightarrow>
   \<exists>files. visitAll path es = Inr files \<and> List.map_filter (wanted lower) files =
     map (\<lambda>(r, c). (rooted_path (cs @ r), c)) (textFiles lower rel (FDir (Some es)))"
proof (induction path d and path es arbitrary: rel and rel rule: visit_visitAll.induct)
  case (1 path)
  then show ?case using last_part(1) [of "cs @ rel"] by (auto simp: List.map_filter_def)
next
  case (2 path)
  then show ?case by (auto simp: List.map_filter_def)
next
  case (3 path c)
  moreover have "last (cs @ rel) = last rel" using 3 by auto
  ultimately show ?case using last_part(1) [of "cs @ rel"] last_part(2) [of "cs @ rel" lower]
    by (cases c) (auto simp: List.map_filter_def wanted_def)
next
  case (4 path es)
  then show ?case using last_part(1) [of "cs @ rel"] by (cases es) (auto simp: List.map_filter_def)
next
  case (5 path)
  then show ?case by (auto simp: List.map_filter_def)
next
  case (6 path e es)
  obtain n d where e: "e = (n, d)" by (cases e)
  have n: "proper n" "hiddenElem n \<longrightarrow> d \<noteq> FGone" "fnode_ok d" using 6 by (auto simp: e)
  have j: "pathJoin [path, n] = rooted_path (cs @ rel @ [n])"
    using 6 n(1) pathJoin_entry [of "cs @ rel" n] by simp
  obtain a where a: "visit (pathJoin [path, n]) d = Inr a" "List.map_filter (wanted lower) a =
     map (\<lambda>(r, c). (rooted_path (cs @ r), c)) (if hiddenElem n then [] else textFiles lower (rel @ [n]) d)"
    using "6.IH"(1) [of "rel @ [n]"] "6.prems" n j by (auto simp: e)
  obtain b where b: "visitAll path es = Inr b" "List.map_filter (wanted lower) b =
     map (\<lambda>(r, c). (rooted_path (cs @ r), c)) (textFiles lower rel (FDir (Some es)))"
    using "6.IH"(2) [of a rel] "6.prems" a(1) by (auto simp: e)
  from a b show ?case by (simp add: e map_filter_append)
qed

lemma textFiles_proper:
  "fnode_ok d \<Longrightarrow> (r, c) \<in> set (textFiles lower rel d) \<Longrightarrow> \<exists>s. r = rel @ s \<and> (\<forall>x \<in> set s. proper x) \<and> ((\<exists>es. d = FDir es) \<longrightarrow> s \<noteq> [])"
proof (induction lower rel d arbitrary: r c rule: textFiles.induct)
  case (1 lower rel es)
  then obtain n d where nd: "(n, d) \<in> set es" "\<not> hiddenElem n" "(r, c) \<in> set (textFiles lower (rel @ [n]) d)"
    by (auto split: if_splits)
  with "1.prems"(1) have "fnode_ok d" "proper n" by auto
  with "1.IH" [OF nd(1) refl nd(2) _ nd(3)] show ?case by fastforce
qed (auto split: if_splits)

lemma rfold_addOne:
  assumes "\<And>p c. (p, c) \<in> set (List.map_filter (wanted lower) files) \<Longrightarrow> indexedPath src store p = Some (nm p)"
  shows "rfold (addOne lower src store) files ix = addAll 1 (map (\<lambda>(p, c). (nm p, c)) (List.map_filter (wanted lower) files)) ix"
  using assms
proof (induction files arbitrary: ix)
  case (Cons a files)
  obtain p c where a: "a = (p, c)" by (cases a)
  have "(q, d) \<in> set (List.map_filter (wanted lower) files) \<Longrightarrow> indexedPath src store q = Some (nm q)" for q d
    using Cons.prems [of q d] by (auto simp: map_filter_simps split: option.splits)
  note IH = Cons.IH [OF this]
  show ?case
  proof (cases "wanted lower a")
    case None
    then have "addOne lower src store a ix = Inr ix"
      by (auto simp: a wanted_def addOne_def split: if_splits option.splits)
    with IH None show ?thesis by (simp add: map_filter_simps)
  next
    case (Some w)
    then obtain f zv where f: "c = Some (f, zv)" "indexable lower p" "w = (p, f, zv)"
      by (auto simp: a wanted_def split: if_splits)
    have "indexedPath src store p = Some (nm p)" by (rule Cons.prems [of p "(f, zv)"]) (simp add: map_filter_simps Some f(3))
    with f have "addOne lower src store a ix = rbind (AddReaderNamed 1 (nm p) f zv ix) (\<lambda>(_, ix1). Inr ix1)"
      by (simp add: addOne_def a)
    moreover have "rfold (addOne lower src store) files = addAll 1 (map (\<lambda>(p, c). (nm p, c)) (List.map_filter (wanted lower) files))"
      using IH by (rule ext)
    ultimately show ?thesis using Some f by (simp add: map_filter_simps addAll_def)
  qed
qed (simp add: addAll_def map_filter_simps)

lemma Create_zip: "Create wv g tmp = Inr ix \<Longrightarrow> ix\<lparr>iwZip := False\<rparr> = ix"
  by (auto simp: Create_def rbind_Inr_iff)

text \<open>The additions an index of the directory is made with.\<close>

definition dirAdds :: "(gostr \<Rightarrow> gostr) \<Rightarrow> gostr list \<Rightarrow> fnode \<Rightarrow> (gostr \<times> reader \<times> zip_view) list" where
  "dirAdds lower ds tree = map (\<lambda>(r, c). (rooted_path (ds @ r), c)) (textFiles lower [] tree)"

lemma walk_adds:
  assumes "\<forall>c \<in> set (cs @ ds). proper c" "cs \<noteq> []" "ds \<noteq> []" "\<not> hiddenElem (last cs)" "fnode_ok (FDir es)"
  shows "rbind (visit (pathJoin [rooted_path cs]) (FDir es)) (\<lambda>files. rfold (addOne lower (rooted_path cs) (rooted_path ds)) files ix) =
    addAll 1 (dirAdds lower ds (FDir es)) ix"
proof -
  have p: "\<forall>c \<in> set cs. proper c" "\<forall>c \<in> set ds. proper c" using assms(1) by auto
  have root: "pathJoin [rooted_path cs] = rooted_path cs"
    using pathClean_below [OF p(1)] assms(2) by (cases cs) (simp_all add: pathJoin_def rooted_path_def below_def)
  let ?t = "textFiles lower [] (FDir es)"
  obtain files where files: "visit (rooted_path cs) (FDir es) = Inr files"
    "List.map_filter (wanted lower) files = map (\<lambda>(r, c). (rooted_path (cs @ r), c)) ?t"
    using visit_ok(1) [of "rooted_path cs" cs "[]" "FDir es" lower] assms p by auto
  define nm where "nm q = the (indexedPath (rooted_path cs) (rooted_path ds) q)" for q
  have ip: "indexedPath (rooted_path cs) (rooted_path ds) (rooted_path (cs @ r)) = Some (rooted_path (ds @ r))"
    if r: "(r, c) \<in> set ?t" for r c
  proof -
    have "r \<noteq> []" "\<forall>x \<in> set r. proper x" using textFiles_proper [OF assms(5) r] by auto
    moreover from this have "\<forall>c \<in> set (cs @ r). proper c" "\<forall>c \<in> set (ds @ r). proper c" using p by auto
    moreover have "rooted_path ds \<noteq> []" using assms(3) by (cases ds) (simp_all add: rooted_path_def below_def)
    ultimately show ?thesis using assms(3) by (simp add: indexedPath_def pathRel_below pathJoin_rel)
  qed
  have "rfold (addOne lower (rooted_path cs) (rooted_path ds)) files ix =
      addAll 1 (map (\<lambda>(p, c). (nm p, c)) (List.map_filter (wanted lower) files)) ix"
    by (rule rfold_addOne) (use ip in \<open>auto simp: files(2) nm_def\<close>)
  also have "map (\<lambda>(p, c). (nm p, c)) (List.map_filter (wanted lower) files) = dirAdds lower ds (FDir es)"
    unfolding files(2) dirAdds_def map_map by (rule map_cong [OF refl]) (use ip in \<open>auto simp: nm_def\<close>)
  finally show ?thesis unfolding root files(1) rbind_simps .
qed

lemma dir_index_ok:
  assumes "\<forall>c \<in> set (cs @ ds). proper c" "cs \<noteq> []" "ds \<noteq> []" "\<not> hiddenElem (last cs)" "fnode_ok (FDir es)"
    and "\<forall>(name, f, zv) \<in> set (dirAdds lower ds (FDir es)). [] \<notin> set (fst f)"
    and "length (index1_file [rooted_path ds] (concat (map accepted (dirAdds lower ds (FDir es))))) < 2 ^ 32"
  shows "\<exists>ix. IndexDirToFile lower True g tmp (rooted_path cs) (FDir es) (rooted_path ds) = Some (Inr ix) \<and>
    written_file ix = index1_file [rooted_path ds] (concat (map accepted (dirAdds lower ds (FDir es))))"
proof -
  obtain ix0 ix1 ix2 where w: "Create 1 g tmp = Inr ix0"
    "addAll 1 (dirAdds lower ds (FDir es)) (AddRoots [rooted_path ds] ix0) = Inr ix1"
    "Flush 1 ix1 = Some (Inr ix2)"
    "written_file ix2 = index1_file [rooted_path ds] (concat (map accepted (dirAdds lower ds (FDir es))))"
    using writer_file [OF assms(6,7), of g tmp] by blast
  have "\<forall>c \<in> set ds. proper c" "rooted_path ds \<noteq> []"
    using assms(1,3) by (auto simp: rooted_path_def below_def split: list.splits)
  then have "pathJoin [rooted_path ds] = rooted_path ds" using pathClean_below by (simp add: pathJoin_def)
  moreover have "(AddRoots [rooted_path ds] ix0)\<lparr>iwZip := False\<rparr> = AddRoots [rooted_path ds] ix0"
    using Create_zip [OF w(1)] by (cases ix0) (simp add: AddRoots_def)
  ultimately show ?thesis using w walk_adds [OF assms(1-5), of lower "AddRoots [rooted_path ds] ix0"] \<open>rooted_path ds \<noteq> []\<close>
    by (simp add: IndexDirToFile_def MakePath_def)
qed

text \<open>
  C24. The index of a directory is exactly the index of its files with a text extension that no hidden or temporary
  part of the path hides, in the order of the walk, each named by its path below the directory the index is made for, as
  long as it is shorter than 4 GB and no hidden entry vanishes while it is made.
\<close>

theorem directory_index:
  assumes "\<forall>c \<in> set (cs @ ds). proper c" "cs \<noteq> []" "ds \<noteq> []" "\<not> hiddenElem (last cs)" "fnode_ok (FDir es)"
    and "\<forall>(name, f, zv) \<in> set (dirAdds lower ds (FDir es)). [] \<notin> set (fst f)"
    and "length (index1_file [rooted_path ds] (concat (map accepted (dirAdds lower ds (FDir es))))) < 2 ^ 32"
  shows "\<exists>ix. IndexDirToFile lower True g tmp (rooted_path cs) (FDir es) (rooted_path ds) = Some (Inr ix) \<and>
    written_file ix = index1_file [rooted_path ds] (concat (map accepted (dirAdds lower ds (FDir es))))"
  using assms by (rule dir_index_ok)

definition sampleTree :: fnode where
  "sampleTree = FDir (Some [(bytes_of ''.git'', FDir None),
     (bytes_of ''a.php'', FReg (Some (([bytes_of ''abc''], True), NotRegular))), (bytes_of ''b.png'', FReg None)])"

lemma sample_dir_adds:
  "dirAdds id [[0x64]] sampleTree = [(bytes_of ''/d/a.php'', ([bytes_of ''abc''], True), NotRegular)]"
  by (simp add: dirAdds_def sampleTree_def hiddenElem_def bytes_of_def indexable_def pathExt_def pathElem_def
      textExtensions_def rooted_path_def below_def)

theorem directory_index_witness:
  "\<exists>ix. IndexDirToFile id True id [7] (rooted_path [[0x73]]) sampleTree (rooted_path [[0x64]]) = Some (Inr ix) \<and>
    written_file ix = index1_file [rooted_path [[0x64]]] [(bytes_of ''/d/a.php'', bytes_of ''abc'')]"
proof -
  have acc: "concat (map accepted (dirAdds id [[0x64]] sampleTree)) = [(bytes_of ''/d/a.php'', bytes_of ''abc'')]"
    unfolding sample_dir_adds
    by (simp add: accepted_def accepts_def isValidName_def text_bytes_def bytes_of_def
      validUTF8_def maxFileLen_def maxLineLen_def maxTextTrigrams_def content_tris_def)
  have "length (index1_file [rooted_path [[0x64]]] [(bytes_of ''/d/a.php'', bytes_of ''abc'')]) < 2 ^ 32"
    by (rule abc_small) (simp_all add: name_bytes_def bytes_of_def rooted_path_def below_def)
  moreover have "fnode_ok sampleTree"
    by (simp add: sampleTree_def proper_def bytes_of_def dot_def dotdot_def)
  moreover have "\<forall>(name, f, zv) \<in> set (dirAdds id [[0x64]] sampleTree). [] \<notin> set (fst f)"
    by (simp add: sample_dir_adds bytes_of_def)
  ultimately show ?thesis
    using directory_index [of "[[0x73]]" "[[0x64]]" "Some [(bytes_of ''.git'', FDir None),
     (bytes_of ''a.php'', FReg (Some (([bytes_of ''abc''], True), NotRegular))), (bytes_of ''b.png'', FReg None)]" id id "[7]"]
    unfolding sampleTree_def [symmetric] acc
    by (simp add: proper_def dot_def dotdot_def hiddenElem_def)
qed

end
