(* ===== verification/Download.thy ===== *)
theory Download
  imports Source_Store Manager
begin

text \<open>
  The download of the \<open>index\<close> command: \<open>downloadZip\<close> of \<open>cmd/veloria/index.go\<close>.

  What the server answers to an attempt, and whether the calls on the temporary file succeed, are arguments.  The result has,
  besides the outcome, the waits between the attempts in nanoseconds; the length of that list and the attempts made
  tell how often the server was asked.  \<open>trim\<close> is \<open>strings.TrimSpace\<close>.

  The lemmas show how the outcome follows from the answers, and that a downloaded file is the body of one answer.
\<close>

section \<open>Waiting\<close>

definition downloadMaxRetries :: nat where "downloadMaxRetries = 3"
definition second :: int where "second = 1000000000"
definition downloadMaxRetryWait :: int where "downloadMaxRetryWait = 60 * second"
definition downloadDefaultRetryWait :: int where "downloadDefaultRetryWait = 10 * second"

text \<open>\<open>strconv.Atoi\<close> with its error; a number that does not fit an \<open>int\<close> is one.\<close>

definition atoiErr :: "gostr \<Rightarrow> int option" where
  "atoiErr s = (let (neg, ds) = (case s of [] \<Rightarrow> (False, []) | c # r \<Rightarrow> if c = 0x2D then (True, r) else if c = 0x2B then (False, r) else (False, s))
     in case atoiDigits ds of None \<Rightarrow> None
        | Some n \<Rightarrow> let v = (if neg then - n else n) in if - (2 ^ 63) \<le> v \<and> v < 2 ^ 63 then Some v else None)"

definition parseRetryAfterHeader :: "(gostr \<Rightarrow> gostr) \<Rightarrow> gostr \<Rightarrow> int" where
  "parseRetryAfterHeader trim val0 =
     (let val = trim val0 in
      if val = [] then downloadDefaultRetryWait
      else case atoiErr val of
          None \<Rightarrow> downloadDefaultRetryWait
        | Some seconds \<Rightarrow>
            if seconds \<le> 0 then downloadDefaultRetryWait
            else let d = wrap64 (seconds * second) in if d > downloadMaxRetryWait then downloadMaxRetryWait else d)"

definition waitBeforeRetry :: "(gostr \<Rightarrow> gostr) \<Rightarrow> nat \<Rightarrow> gostr \<Rightarrow> int list \<Rightarrow> int list" where
  "waitBeforeRetry trim attempt retryAfter waits =
     (if attempt \<ge> downloadMaxRetries then waits else waits @ [parseRetryAfterHeader trim retryAfter])"

section \<open>One download\<close>

text \<open>An error with an exit code, a plain one, and one with a prefix, which keeps what it wraps.\<close>

datatype cmdErr = ExitError int gostr | PlainError gostr | WrapError gostr cmdErr

datatype reply = NoReply gostr | Reply (rpCode: int) (rpStatus: gostr) (rpRetryAfter: gostr) (rpBody: "byte list") (rpBroken: "gostr option")

record dlenv =
  deTrim :: "gostr \<Rightarrow> gostr"
  deTemp :: "gostr option"
  deRequest :: "gostr option"
  deReply :: "nat \<Rightarrow> reply"
  deTruncate :: "nat \<Rightarrow> gostr option"
  deClose :: "gostr option"
  deReopen :: "gostr option"

definition isPermanentHTTPFailure :: "int \<Rightarrow> bool" where
  "isPermanentHTTPFailure code \<longleftrightarrow> code \<in> {400, 403, 404, 410}"

definition zipMagic :: gostr where
  "zipMagic = [0x50, 0x4B, 3, 4]"

definition validateZipMagic :: "gostr option \<Rightarrow> byte list \<Rightarrow> gostr option" where
  "validateZipMagic reopen file = (case reopen of Some err \<Rightarrow> Some err
     | None \<Rightarrow> if length file < 4 then Some (bytes_of ''file too small to be a zip'')
              else if take 4 file \<noteq> zipMagic then Some (bytes_of ''missing zip magic bytes'') else None)"

text \<open>What one attempt does: end the download, or leave the error and whether it may pass.\<close>

datatype attempted = Ended "cmdErr + byte list" | Again gostr bool

definition attemptOnce :: "dlenv \<Rightarrow> nat \<Rightarrow> byte list \<Rightarrow> int list \<Rightarrow> attempted \<times> byte list \<times> int list" where
  "attemptOnce env attempt file waits =
     (case deRequest env of Some err \<Rightarrow> (Ended (Inl (PlainError err)), file, waits) | None \<Rightarrow>
      case deReply env attempt of
        NoReply err \<Rightarrow> (Again err True, file, waitBeforeRetry (deTrim env) attempt [] waits)
      | Reply code status retryAfter body broken \<Rightarrow>
          if isPermanentHTTPFailure code
          then (Ended (Inl (ExitError ExitDownloadNotFound (bytes_of ''download unavailable ('' @ decimal (nat code) @ bytes_of '')''))), file, waits)
          else if code = 429 \<or> code \<ge> 500
          then (Again (bytes_of ''unexpected HTTP status: '' @ status) (code \<ge> 500), file, waitBeforeRetry (deTrim env) attempt retryAfter waits)
          else if code \<noteq> 200
          then (Ended (Inl (PlainError (bytes_of ''unexpected HTTP status: '' @ status))), file, waits)
          else let file1 = file @ body in
            case broken of
              Some err \<Rightarrow> (case deTruncate env attempt of
                  Some terr \<Rightarrow> (Ended (Inl (PlainError terr)), file1, waits)
                | None \<Rightarrow> (Again err True, [], waitBeforeRetry (deTrim env) attempt [] waits))
            | None \<Rightarrow> (case deClose env of
                  Some err \<Rightarrow> (Ended (Inl (PlainError err)), file1, waits)
                | None \<Rightarrow> (case validateZipMagic (deReopen env) file1 of
                      Some err \<Rightarrow> (Ended (Inl (ExitError ExitDownloadNotFound (bytes_of ''downloaded file is not a valid zip: '' @ err))), file1, waits)
                    | None \<Rightarrow> (Ended (Inr file1), file1, waits))))"

fun downloadLoop :: "dlenv \<Rightarrow> nat list \<Rightarrow> byte list \<Rightarrow> int list \<Rightarrow> gostr \<Rightarrow> bool \<Rightarrow> (cmdErr + byte list) \<times> nat \<times> int list" where
  "downloadLoop env [] file waits lastErr transient =
     (Inl (if transient
           then ExitError ExitDownloadUnavailable (bytes_of ''download failed on all '' @ decimal downloadMaxRetries @ bytes_of '' attempts: '' @ lastErr)
           else PlainError lastErr), downloadMaxRetries, waits)"
| "downloadLoop env (attempt # attempts) file waits lastErr transient =
     (case attemptOnce env attempt file waits of
        (Ended r, file1, waits1) \<Rightarrow> (r, attempt, waits1)
      | (Again err t, file1, waits1) \<Rightarrow> downloadLoop env attempts file1 waits1 err t)"

definition downloadZip :: "dlenv \<Rightarrow> (cmdErr + byte list) \<times> nat \<times> int list" where
  "downloadZip env = (case deTemp env of Some err \<Rightarrow> (Inl (PlainError err), 0, [])
     | None \<Rightarrow> downloadLoop env [1..<Suc downloadMaxRetries] [] [] [] False)"

text \<open>
  The status of the process for an error: the code of the \<open>ExitCoder\<close> in its chain, or 1, as the command line
  parser documents.
\<close>

fun exitCodeOf :: "cmdErr \<Rightarrow> int" where
  "exitCodeOf (ExitError c m) = c"
| "exitCodeOf (PlainError m) = 1"
| "exitCodeOf (WrapError m e) = exitCodeOf e"

section \<open>Correctness\<close>

definition transientReply :: "reply \<Rightarrow> bool" where
  "transientReply r = (case r of NoReply _ \<Rightarrow> True
     | Reply code _ _ _ broken \<Rightarrow> code \<ge> 500 \<or> code = 200 \<and> broken \<noteq> None)"

definition goodReply :: "reply \<Rightarrow> byte list \<Rightarrow> bool" where
  "goodReply r body = (case r of NoReply _ \<Rightarrow> False
     | Reply code _ _ b broken \<Rightarrow> code = 200 \<and> broken = None \<and> b = body \<and> take 4 body = zipMagic)"

definition goneReply :: "gostr option \<Rightarrow> reply \<Rightarrow> bool" where
  "goneReply reopen r = (case r of NoReply _ \<Rightarrow> False
     | Reply code _ _ b broken \<Rightarrow> isPermanentHTTPFailure code \<or>
         code = 200 \<and> broken = None \<and> (reopen \<noteq> None \<or> take 4 b \<noteq> zipMagic))"

definition limitReply :: "reply \<Rightarrow> bool" where
  "limitReply r = (case r of NoReply _ \<Rightarrow> False | Reply code _ _ _ _ \<Rightarrow> code = 429)"

lemma permanent_codes: "isPermanentHTTPFailure code \<Longrightarrow> code \<noteq> 429 \<and> code < 500 \<and> code \<noteq> 200"
  by (auto simp: isPermanentHTTPFailure_def)

lemma validateZipMagic_iff: "validateZipMagic reopen file = None \<longleftrightarrow> reopen = None \<and> take 4 file = zipMagic"
  by (auto simp: validateZipMagic_def zipMagic_def split: option.splits dest: arg_cong [of _ _ length])

lemma validateZipMagic_Some: "validateZipMagic reopen file = Some e \<Longrightarrow> reopen \<noteq> None \<or> take 4 file \<noteq> zipMagic"
  using validateZipMagic_iff by (metis option.distinct(1))

lemma attempt_again:
  assumes "attemptOnce env k file waits = (Again err t, file1, waits1)" "file = []"
  shows "file1 = [] \<and> deRequest env = None \<and> (t \<longleftrightarrow> transientReply (deReply env k)) \<and>
    (transientReply (deReply env k) \<or> limitReply (deReply env k)) \<and>
    (\<exists>h. waits1 = waitBeforeRetry (deTrim env) k h waits)"
  using assms permanent_codes
  by (auto simp: attemptOnce_def Let_def transientReply_def limitReply_def split: option.splits reply.splits if_splits)

lemma attempt_ended:
  assumes "attemptOnce env k [] waits = (Ended r, file1, waits1)"
  shows "waits1 = waits \<and> (\<forall>b. r = Inr b \<longrightarrow> goodReply (deReply env k) b) \<and>
    (\<forall>c m. r = Inl (ExitError c m) \<longrightarrow> c = ExitDownloadNotFound \<and> goneReply (deReopen env) (deReply env k)) \<and>
    (\<forall>m e. r \<noteq> Inl (WrapError m e))"
  using assms
  by (auto simp: attemptOnce_def Let_def goodReply_def goneReply_def validateZipMagic_iff dest: validateZipMagic_Some split: option.splits reply.splits if_splits)

lemma wait_length: "length (waitBeforeRetry trim k h waits) = (if k \<ge> 3 then length waits else Suc (length waits))"
  by (simp add: waitBeforeRetry_def downloadMaxRetries_def)

text \<open>What the result says of the answers, from attempt \<open>k\<close> on.\<close>

definition outcome_ok :: "dlenv \<Rightarrow> nat \<Rightarrow> cmdErr + byte list \<Rightarrow> nat \<Rightarrow> bool" where
  "outcome_ok env k r n \<longleftrightarrow> n \<le> 3 \<and>
     (\<forall>j. k \<le> j \<and> j < n \<longrightarrow> transientReply (deReply env j) \<or> limitReply (deReply env j)) \<and>
     (\<forall>body. r = Inr body \<longrightarrow> goodReply (deReply env n) body) \<and>
     (\<forall>e. r = Inl e \<and> exitCodeOf e = ExitDownloadNotFound \<longrightarrow> 1 \<le> n \<and> goneReply (deReopen env) (deReply env n)) \<and>
     (\<forall>e. r = Inl e \<and> exitCodeOf e = ExitDownloadUnavailable \<longrightarrow> n = 3 \<and> transientReply (deReply env 3))"

lemma downloadLoop_ok:
  "attempts = [k..<Suc 3] \<Longrightarrow> 1 \<le> k \<Longrightarrow> k \<le> 4 \<Longrightarrow> length waits = min 2 (k - 1) \<Longrightarrow>
   (k = 4 \<Longrightarrow> transient \<longrightarrow> transientReply (deReply env 3)) \<Longrightarrow>
   downloadLoop env attempts [] waits lastErr transient = (r, n, waits') \<Longrightarrow>
   outcome_ok env k r n \<and> length waits' \<le> 2"
proof (induction attempts arbitrary: k waits lastErr transient)
  case Nil
  then have "[k..<4] = []" by (simp del: upt_Suc)
  with Nil.prems(3) have "k = 4" by simp
  with Nil show ?case
    by (auto simp: outcome_ok_def downloadMaxRetries_def ExitDownloadNotFound_def ExitDownloadUnavailable_def split: if_splits)
next
  case (Cons a attempts)
  from Cons.prems(1) have "[k..<Suc 3] = a # attempts" by (rule sym)
  then have k: "k \<le> 3" "a = k" "attempts = [Suc k..<Suc 3]" unfolding upt_eq_Cons_conv by auto
  obtain res file1 waits1 where at: "attemptOnce env k [] waits = (res, file1, waits1)" by (metis prod_cases3)
  show ?case
  proof (cases res)
    case (Ended r1)
    note e = attempt_ended [OF at [unfolded Ended]]
    have r: "r = r1" "n = k" "waits' = waits1" using Cons.prems(6) at Ended k(2) by simp_all
    have "exitCodeOf x \<noteq> ExitDownloadUnavailable \<and>
        (exitCodeOf x = ExitDownloadNotFound \<longrightarrow> goneReply (deReopen env) (deReply env k))" if "r = Inl x" for x
      using e r(1) that by (cases x) (auto simp: ExitDownloadNotFound_def ExitDownloadUnavailable_def)
    with e r k Cons.prems(2,4) show ?thesis
      by (auto simp: outcome_ok_def)
  next
    case (Again err t)
    note g = attempt_again [OF at [unfolded Again] refl]
    have "downloadLoop env attempts [] waits1 err t = (r, n, waits')" using Cons.prems(6) at Again k(2) g by simp
    then have ok: "outcome_ok env (Suc k) r n \<and> length waits' \<le> 2"
      using g k Cons.prems(2,4) by (intro Cons.IH) (auto simp: wait_length simp del: upt_Suc)
    then have "transientReply (deReply env j) \<or> limitReply (deReply env j)" if "k \<le> j" "j < n" for j
      using that g by (cases "j = k") (auto simp: outcome_ok_def)
    with ok show ?thesis by (simp add: outcome_ok_def)
  qed
qed

lemma downloadZip_ok:
  assumes "downloadZip env = (r, n, waits)"
  shows "outcome_ok env 1 r n \<and> length waits \<le> 2"
proof (cases "deTemp env")
  case None
  with assms have "downloadLoop env [1..<Suc 3] [] [] [] False = (r, n, waits)"
    by (simp add: downloadZip_def downloadMaxRetries_def)
  from downloadLoop_ok [OF refl _ _ _ _ this] show ?thesis by simp
next
  case (Some err)
  with assms show ?thesis by (auto simp: downloadZip_def outcome_ok_def ExitDownloadNotFound_def ExitDownloadUnavailable_def)
qed

text \<open>
  C30. The outcome of a download follows from the answers: at most three attempts are made and at most two waits, every
  attempt but the last got a failure that may pass (429, 5xx, a broken transfer); a file that is handed on is the
  whole body of the last answer, whatever earlier attempts left in the temporary file, and starts as a zip file; the exit
  code for a missing download is only used for an answer that says so or is no zip file, and the one for an
  unavailable download only if the third attempt failed with a server or transport error.
\<close>

theorem download_outcome:
  assumes "downloadZip env = (r, n, waits)"
  shows "n \<le> 3 \<and> length waits \<le> 2 \<and>
    (\<forall>j. 1 \<le> j \<and> j < n \<longrightarrow> transientReply (deReply env j) \<or> limitReply (deReply env j)) \<and>
    (\<forall>body. r = Inr body \<longrightarrow> goodReply (deReply env n) body) \<and>
    (\<forall>e. r = Inl e \<and> exitCodeOf e = ExitDownloadNotFound \<longrightarrow> goneReply (deReopen env) (deReply env n)) \<and>
    (\<forall>e. r = Inl e \<and> exitCodeOf e = ExitDownloadUnavailable \<longrightarrow> n = 3 \<and> transientReply (deReply env 3))"
  using downloadZip_ok [OF assms] by (simp add: outcome_ok_def)

definition sampleEnv :: dlenv where
  "sampleEnv = \<lparr>deTrim = id, deTemp = None, deRequest = None,
     deReply = (\<lambda>k. if k = 1 then Reply 200 [] [] [0x50, 0x4B] (Some []) else Reply 200 [] [] [0x50, 0x4B, 3, 4, 9] None),
     deTruncate = (\<lambda>_. None), deClose = None, deReopen = None\<rparr>"

lemma sample_download: "downloadZip sampleEnv = (Inr [0x50, 0x4B, 3, 4, 9], 2, [10000000000])"
  by (simp add: downloadZip_def sampleEnv_def downloadMaxRetries_def upt_rec attemptOnce_def isPermanentHTTPFailure_def
      Let_def validateZipMagic_def zipMagic_def waitBeforeRetry_def parseRetryAfterHeader_def downloadDefaultRetryWait_def
      second_def)

theorem download_outcome_witness:
  "downloadZip sampleEnv = (Inr [0x50, 0x4B, 3, 4, 9], 2, [10000000000]) \<and>
    transientReply (deReply sampleEnv 1) \<and> goodReply (deReply sampleEnv 2) [0x50, 0x4B, 3, 4, 9]"
proof -
  note t = download_outcome [OF sample_download]
  have "transientReply (deReply sampleEnv 1) \<or> limitReply (deReply sampleEnv 1)" using t by auto
  moreover have "\<not> limitReply (deReply sampleEnv 1)" by (simp add: sampleEnv_def limitReply_def)
  ultimately show ?thesis using t sample_download by blast
qed

text \<open>A server can ask for a wait of at most a minute; a number of seconds that overflows gives a negative one, which is none.\<close>

lemma parseRetryAfter_bounds:
  assumes "atoiErr (trim val) = Some n" "n < 2 ^ 63 div second"
  shows "0 < parseRetryAfterHeader trim val \<and> parseRetryAfterHeader trim val \<le> downloadMaxRetryWait"
proof -
  have "0 < n \<Longrightarrow> wrap64 (n * second) = n * second"
    using assms(2) by (intro wrap64_id) (simp_all add: second_def)
  with assms(1) show ?thesis
    by (auto simp: parseRetryAfterHeader_def Let_def downloadMaxRetryWait_def downloadDefaultRetryWait_def second_def)
qed

lemma retry_wait_overflows: "parseRetryAfterHeader id (bytes_of ''9300000000'') < 0"
  by (simp add: parseRetryAfterHeader_def bytes_of_def atoiErr_def atoiDigits_def isDigit_def Let_def second_def
      downloadMaxRetryWait_def wrap64_def)

end
