(* ===== verification/Extract_Correct.thy ===== *)
theory Extract_Correct
  imports Extract
begin

text \<open>
  What unpacking guarantees: the paths handed to the system lie in the destination, whatever the names in the archive,
  and the statistics are those of the files written.
\<close>

section \<open>The heap of the largest files\<close>

interpretation hp: heap_sift fsSize "\<lambda>a b. hpLess b a" "\<lambda>a b. \<not> hpLess b a" hpDown hpUp
proof unfold_locales
  fix i and h :: "fileStat list"
  show "hpDown i h = (let j1 = 2 * i + 1 in
      if j1 \<ge> length h then h
      else let j = (if j1 + 1 < length h \<and> hpLess (h ! (j1 + 1)) (h ! j1) then j1 + 1 else j1)
           in if \<not> hpLess (h ! j) (h ! i) then h else hpDown j (h[i := h ! j, j := h ! i]))"
    by (rule hpDown.simps)
next
  fix j and h :: "fileStat list"
  show "hpUp j h = (let i = (j - 1) div 2 in
      if i = j \<or> \<not> hpLess (h ! j) (h ! i) then h else hpUp i (h[i := h ! j, j := h ! i]))"
    by (rule hpUp.simps)
qed (simp_all add: hpLess_def)

lemma hpPush_ok: "heap_ord fsSize h \<Longrightarrow> heap_ord fsSize (hpPush x h) \<and> mset (hpPush x h) = add_mset x (mset h)"
  by (simp add: hpPush_def hp.up_snoc)

lemma hpPush_length: "heap_ord fsSize h \<Longrightarrow> length (hpPush x h) = Suc (length h)"
  by (metis hpPush_ok size_add_mset size_mset)

lemma hpPop_ok:
  assumes "heap_ord fsSize h" "h \<noteq> []"
  shows "\<exists>h'. hpPop h = Inr (h ! 0, h') \<and> heap_ord fsSize h' \<and> mset h = add_mset (h ! 0) (mset h')"
proof -
  obtain c t where h: "h = c # t" using assms(2) by (cases h) auto
  show ?thesis
  proof (cases t rule: rev_cases)
    case Nil
    then show ?thesis by (simp add: hpPop_def h hpDown.simps Let_def)
  next
    case (snoc t' d)
    have "take (length h - 1) (h[0 := h ! (length h - 1), length h - 1 := h ! 0]) = d # t'"
      "h[0 := h ! (length h - 1), length h - 1 := h ! 0] ! (length h - 1) = c"
      by (simp_all add: h snoc)
    moreover have "heap_ord fsSize (hpDown 0 (d # t'))" "mset (hpDown 0 (d # t')) = add_mset d (mset t')"
      by (rule hp.down_root [OF assms(1)]; simp add: h snoc nth_append)+
    ultimately show ?thesis unfolding hpPop_def Let_def by (simp add: h snoc)
  qed
qed

lemma popAll_ok:
  "heap_ord fsSize h \<Longrightarrow> length h = n \<Longrightarrow>
   \<exists>l. popAll n h acc = Inr (l @ acc) \<and> mset l = mset h \<and> sorted_wrt (\<lambda>a b. fsSize b \<le> fsSize a) l"
proof (induction n arbitrary: h acc)
  case (Suc n)
  then have "h \<noteq> []" by auto
  with hpPop_ok [OF Suc.prems(1)] obtain h' where
    h': "hpPop h = Inr (h ! 0, h')" "heap_ord fsSize h'" "mset h = add_mset (h ! 0) (mset h')" by blast
  have "length h' = n" using Suc.prems(2) arg_cong [OF h'(3), of size] by simp
  from Suc.IH [OF h'(2) this, of "h ! 0 # acc"] obtain l where
    l: "popAll n h' (h ! 0 # acc) = Inr (l @ h ! 0 # acc)" "mset l = mset h'" "sorted_wrt (\<lambda>a b. fsSize b \<le> fsSize a) l"
    by blast
  have "fsSize (h ! 0) \<le> fsSize x" if "x \<in> set l" for x
  proof -
    have "x \<in># mset h" using that l(2) h'(3) by (metis add_mset_commute insert_iff set_mset_add_mset_insert set_mset_mset)
    then obtain k where "k < length h" "x = h ! k" by (auto simp: in_set_conv_nth)
    then show ?thesis using heap_min [OF Suc.prems(1)] by simp
  qed
  with l h' show ?case by (intro exI [of _ "l @ [h ! 0]"]) (simp add: sorted_wrt_append)
qed simp

text \<open>\<open>h\<close> holds the \<open>n\<close> largest of the files \<open>fl\<close>.\<close>

definition largest_of :: "nat \<Rightarrow> fileStat list \<Rightarrow> fileStat list \<Rightarrow> bool" where
  "largest_of n h fl \<longleftrightarrow> heap_ord fsSize h \<and> length h = min n (length fl) \<and>
     (\<exists>rest. mset fl = mset h + rest \<and> (\<forall>x \<in> set h. \<forall>y \<in># rest. fsSize y \<le> fsSize x))"

lemma largest_ofI:
  "heap_ord fsSize h \<Longrightarrow> length h = min n (length fl) \<Longrightarrow> mset fl = mset h + rest \<Longrightarrow>
   (\<And>x y. x \<in> set h \<Longrightarrow> y \<in># rest \<Longrightarrow> fsSize y \<le> fsSize x) \<Longrightarrow> largest_of n h fl"
  by (auto simp: largest_of_def)

lemma noteLargest_ok:
  assumes "largest_of n h fl" "0 < n"
  shows "\<exists>h'. noteLargest n x h = Inr h' \<and> largest_of n h' (fl @ [x])"
proof -
  have hord: "heap_ord fsSize h" and len: "length h = min n (length fl)" using assms(1) by (simp_all add: largest_of_def)
  obtain rest where rest: "mset fl = mset h + rest" and
      big: "\<And>z y. z \<in> set h \<Longrightarrow> y \<in># rest \<Longrightarrow> fsSize y \<le> fsSize z"
    using assms(1) by (auto simp: largest_of_def)
  have lo: "fsSize (h ! 0) \<le> fsSize y" if "y \<in> set h" for y
    using heap_min [OF hord] that by (auto simp: in_set_conv_nth)
  have lens: "length fl = length h + size rest" using arg_cong [OF rest, of size] by simp
  show ?thesis
  proof (cases "length h < n")
    case True
    with lens len have "rest = {#}" by simp
    then have "largest_of n (hpPush x h) (fl @ [x])"
      using hpPush_ok [OF hord, of x] hpPush_length [OF hord, of x] rest True lens
      by (intro largest_ofI [where rest = "{#}"]) simp_all
    with True show ?thesis by (simp add: noteLargest_def)
  next
    case False
    with len assms(2) have n: "length h = n" "h \<noteq> []" by auto
    show ?thesis
    proof (cases "fsSize x > fsSize (h ! 0)")
      case True
      obtain h' where h': "hpPop h = Inr (h ! 0, h')" "heap_ord fsSize h'" "mset h = add_mset (h ! 0) (mset h')"
        using hpPop_ok [OF hord n(2)] by blast
      note p = hpPush_ok [OF h'(2), of x]
      have sub: "set h = insert (h ! 0) (set h')" "set (hpPush x h') = insert x (set h')"
        using arg_cong [OF h'(3), of set_mset] arg_cong [OF p [THEN conjunct2], of set_mset] by simp_all
      have len': "length h' + 1 = n" using arg_cong [OF h'(3), of size] n(1) by simp
      have "largest_of n (hpPush x h') (fl @ [x])"
      proof (rule largest_ofI [where rest = "add_mset (h ! 0) rest"])
        show "length (hpPush x h') = min n (length (fl @ [x]))"
          using hpPush_length [OF h'(2), of x] len' lens n(1) by simp
        show "mset (fl @ [x]) = mset (hpPush x h') + add_mset (h ! 0) rest" using rest h'(3) p by simp
        fix z y assume z: "z \<in> set (hpPush x h')" and y: "y \<in># add_mset (h ! 0) rest"
        have "fsSize y \<le> fsSize (h ! 0) \<or> z \<in> set h \<and> y \<in># rest"
          using y z sub big [of "h ! 0" y] by auto
        moreover have "fsSize (h ! 0) \<le> fsSize z" using z sub lo [of z] True by auto
        ultimately show "fsSize y \<le> fsSize z" using big [of z y] by auto
      qed (use p in simp)
      with h' n True show ?thesis by (simp add: noteLargest_def)
    next
      case small: False
      have "largest_of n h (fl @ [x])"
      proof (rule largest_ofI [where rest = "add_mset x rest"])
        fix z y assume "z \<in> set h" "y \<in># add_mset x rest"
        with big [of z y] lo [of z] small show "fsSize y \<le> fsSize z" by auto
      qed (use hord n lens rest in simp_all)
      with n small show ?thesis by (simp add: noteLargest_def)
    qed
  qed
qed

lemma largest_sizes:
  assumes "largest_of n h fl" "mset l = mset h" "sorted_wrt (\<lambda>a b. fsSize b \<le> fsSize a) l"
  shows "map fsSize l = take n (rev (sort (map fsSize fl)))" "set l \<subseteq> set fl"
proof -
  obtain rest where rest: "mset fl = mset h + rest" "\<forall>x \<in> set h. \<forall>y \<in># rest. fsSize y \<le> fsSize x"
    using assms(1) by (auto simp: largest_of_def)
  obtain r where r: "mset r = rest" using ex_mset by blast
  let ?s = "rev (map fsSize l)" and ?r = "sort (map fsSize r)"
  have sets: "set l = set h" "set_mset rest = set r" using assms(2) r by (metis set_mset_mset)+
  have "sorted ?s" using assms(3) by (simp add: sorted_wrt_rev sorted_wrt_map)
  with rest(2) sets have "sorted (?r @ ?s)" by (auto simp: sorted_append)
  moreover have "mset (?r @ ?s) = mset (map fsSize fl)" using rest(1) r assms(2) by simp
  ultimately have s: "sort (map fsSize fl) = ?r @ ?s" by (metis properties_for_sort)
  have "length fl = length h + length r" using arg_cong [OF rest(1), of size] r by auto
  moreover have "length l = length h" using assms(2) by (metis size_mset)
  moreover have "length h = min n (length fl)" using assms(1) by (simp add: largest_of_def)
  ultimately have "length l = n \<or> length l < n \<and> r = []" by auto
  then show "map fsSize l = take n (rev (sort (map fsSize fl)))" using s by auto
  show "set l \<subseteq> set fl" using arg_cong [OF rest(1), of set_mset] sets by auto
qed

section \<open>Paths\<close>

text \<open>A path in the destination: the destination and proper parts.\<close>

definition confined :: "gostr \<Rightarrow> gostr \<Rightarrow> bool" where
  "confined dest p \<longleftrightarrow> (\<exists>cs. (\<forall>c \<in> set cs. proper c) \<and> p = below (pathClean dest) cs)"

definition call_ok :: "gostr \<Rightarrow> fsop \<Rightarrow> bool" where
  "call_ok dest f \<longleftrightarrow> confined dest (opPath f) \<or> f = OpMkdirAll (pathDir (pathClean dest))"

lemma below_head: "cs \<noteq> [] \<Longrightarrow> \<exists>t. below [] cs = 47 # t"
  by (cases cs) (simp_all add: below_def)

lemma rooted_prefix:
  assumes "\<forall>c \<in> set cs. proper c" "\<forall>c \<in> set ds. proper c" "rooted_path cs = rooted_path ds @ 47 # r"
  shows "\<exists>es. cs = ds @ es \<and> es \<noteq> [] \<and> ds \<noteq> []"
proof (cases "ds = []")
  case True
  with assms(3) obtain c cs' where cs: "cs = c # cs'" by (cases cs) (simp_all add: rooted_path_def)
  have "c @ concat (map (\<lambda>c. 47 # c) cs') = 47 # r" using assms(3) True by (simp add: cs rooted_path_def below_def)
  moreover have "c \<noteq> []" "47 \<notin> set c" using assms(1) by (simp_all add: cs proper_def)
  ultimately show ?thesis by (cases c) auto
next
  case False
  with assms(3) have "cs \<noteq> []" by (cases ds) (auto simp: rooted_path_def below_def)
  with below_split [of cs ds r] assms False show ?thesis by (auto simp: rooted_path_def proper_def)
qed

lemma pathDir_last:
  assumes "\<forall>c \<in> set (cs @ [c]). proper c"
  shows "pathDir (rooted_path (cs @ [c])) = rooted_path cs"
proof -
  have "47 \<notin> set (rev c)" using assms by (simp add: proper_def)
  then have "dropWhile (\<lambda>x. x \<noteq> 47) (rev c @ 47 # rev (below [] cs)) = 47 # rev (below [] cs)"
    by (subst dropWhile_append2) auto
  then have "pathDir (rooted_path (cs @ [c])) = pathClean (below [] cs @ [47])"
    by (simp add: pathDir_def rooted_path_def below_append below_def [of _ "[c]"])
  also have "\<dots> = rooted_path cs"
  proof (cases cs)
    case Nil
    then show ?thesis by (simp add: pathClean_def rooted_path_def cleanStep_def)
  next
    case (Cons d ds)
    have "split_sep [] (below [] cs @ [47]) = [] # cs @ [[]]"
      using split_sep_slash [of "[]" "below [] cs" "[]"] split_sep_below [of cs "[]" "[]"] assms by (simp add: proper_def)
    moreover have "fold (cleanStep True) cs [] = rev cs" using fold_proper [of cs True "[]"] assms by simp
    moreover obtain t where "below [] cs = 47 # t" using below_head [of cs] Cons by auto
    ultimately show ?thesis using joinSlash_below [of d ds] Cons
      by (simp add: pathClean_def rooted_path_def cleanStep_def [of _ "[]"])
  qed
  finally show ?thesis .
qed

lemma insideDest_ok:
  assumes "dest \<noteq> []" "hd dest = 47" "insideDest dest (pathJoin [dest, name])"
  shows "confined dest (pathJoin [dest, name]) \<and> call_ok dest (OpMkdirAll (pathDir (pathJoin [dest, name])))"
proof -
  let ?p = "pathJoin [dest, name]"
  obtain q where q: "?p = pathClean q" "q \<noteq> []" "hd q = 47"
    using assms(1,2) by (cases "name = []") (auto simp: pathJoin_def hd_append)
  obtain cs where cs: "?p = rooted_path cs" "\<forall>c \<in> set cs. proper c"
    using pathClean_rooted [OF q(2,3)] q(1) by metis
  obtain ds where ds: "pathClean dest = rooted_path ds" "\<forall>c \<in> set ds. proper c"
    using pathClean_rooted [OF assms(1,2)] by metis
  have clean: "pathClean ?p = ?p" using pathClean_idem [OF q(2,3)] q(1) by simp
  show ?thesis
  proof (cases "?p = pathClean dest")
    case True
    then show ?thesis by (auto simp: confined_def call_ok_def intro: exI [of _ "[]"])
  next
    case False
    then have "take (Suc (length (pathClean dest))) ?p = pathClean dest @ [47]"
      using assms(3) by (simp add: insideDest_def clean)
    then have "?p = pathClean dest @ 47 # drop (Suc (length (pathClean dest))) ?p"
      by (metis append_Cons append_Nil append_assoc append_take_drop_id)
    then obtain es where es: "cs = ds @ es" "es \<noteq> []" "ds \<noteq> []"
      using rooted_prefix [OF cs(2) ds(2)] cs(1) ds(1) by metis
    have "?p = below (pathClean dest) es" using es ds(1) cs(1) by (simp add: rooted_path_def below_append)
    then have "confined dest ?p" using cs(2) es(1) by (auto simp: confined_def)
    moreover obtain es' e where e: "es = es' @ [e]" using es(2) by (cases es rule: rev_cases) auto
    then have "pathDir ?p = rooted_path (ds @ es')" using pathDir_last [of "ds @ es'" e] cs es(1) by simp
    then have "pathDir ?p = below (pathClean dest) es'" using es(3) ds(1) by (simp add: rooted_path_def below_append)
    then have "confined dest (pathDir ?p)" using cs(2) es(1) e by (auto simp: confined_def)
    ultimately show ?thesis by (simp add: call_ok_def)
  qed
qed

section \<open>Unpacking\<close>

text \<open>The files an archive has for the destination, with the names they get there.\<close>

definition unpackedFile :: "gostr \<Rightarrow> zfile \<Rightarrow> fileStat list" where
  "unpackedFile sp f =
     (let name = (if sp \<noteq> [] then trimPrefix sp (zName f) else zName f)
      in if zDir f \<or> sp \<noteq> [] \<and> name = [] then [] else [\<lparr>fsPath = name, fsSize = int (length (zData f))\<rparr>])"

definition unpacked :: "zfile list \<Rightarrow> fileStat list" where
  "unpacked files = concat (map (unpackedFile (findCommonPrefix (map zName files))) files)"

definition stats_ok :: "(gostr \<Rightarrow> gostr) \<Rightarrow> nat \<Rightarrow> fileStat list \<Rightarrow> xstate \<Rightarrow> bool" where
  "stats_ok lower n fl st \<longleftrightarrow> xtCount st = int (length fl) \<and> xtTotal st = wrap64 (sum_list (map fsSize fl)) \<and>
     xtText st = int (length (filter (indexable lower \<circ> fsPath) fl)) \<and> largest_of n (xtHeap st) fl \<and>
     (\<forall>f \<in> set fl. fsSize f \<le> int maxDecompressSize)"

lemma wrap64_add: "wrap64 (b + wrap64 a) = wrap64 (b + a)"
  by (simp add: wrap64_def)

lemma noteFile_ok:
  assumes "stats_ok lower n fl st" "0 < n" "written \<le> int maxDecompressSize"
  shows "\<exists>st'. noteFile lower n name written st = Inr st' \<and> stats_ok lower n (fl @ [\<lparr>fsPath = name, fsSize = written\<rparr>]) st' \<and>
    xtLog st' = xtLog st"
proof -
  obtain h where "noteLargest n \<lparr>fsPath = name, fsSize = written\<rparr> (xtHeap st) = Inr h"
    "largest_of n h (fl @ [\<lparr>fsPath = name, fsSize = written\<rparr>])"
    using noteLargest_ok assms by (metis stats_ok_def)
  then show ?thesis using assms by (simp add: noteFile_def stats_ok_def wrap64_add algebra_simps)
qed

lemma extractFile_ok:
  "extractFileWithSize sys f p log = (r, log') \<Longrightarrow>
   (\<exists>ops. log' = log @ ops \<and> (\<forall>op \<in> set ops. opPath op = p)) \<and>
   (\<forall>n. r = Inr n \<longrightarrow> n = int (length (zData f)) \<and> length (zData f) \<le> maxDecompressSize)"
  by (auto simp: extractFileWithSize_def call_def Let_def min_def split: if_splits sum.splits)

lemma call_ok_confined: "confined dest (opPath op) \<Longrightarrow> call_ok dest op"
  by (simp add: call_ok_def)

lemma unzipFile_ok:
  assumes "dest \<noteq> []" "hd dest = 47" "0 < n" "stats_ok lower n fl st" "\<forall>op \<in> set (xtLog st). call_ok dest op"
  shows "\<exists>err st'. unzipFile lower sys dest sp n f st = Inr (err, st') \<and> (\<forall>op \<in> set (xtLog st'). call_ok dest op) \<and>
    (err = None \<longrightarrow> stats_ok lower n (fl @ unpackedFile sp f) st')"
proof -
  define name where "name = (if sp \<noteq> [] then trimPrefix sp (zName f) else zName f)"
  define p where "p = pathJoin [dest, name]"
  have unp: "unpackedFile sp f = (if zDir f \<or> sp \<noteq> [] \<and> name = [] then [] else [\<lparr>fsPath = name, fsSize = int (length (zData f))\<rparr>])"
    by (simp add: unpackedFile_def name_def Let_def)
  note defs = unzipFile_def name_def [symmetric] p_def [symmetric] Let_def
  consider (skip) "sp \<noteq> []" "name = []" | (illegal) "\<not> (sp \<noteq> [] \<and> name = [])" "\<not> insideDest dest p"
    | (inside) "\<not> (sp \<noteq> [] \<and> name = [])" "insideDest dest p" by blast
  then show ?thesis
  proof cases
    case skip
    then show ?thesis using assms unfolding defs by (simp add: unp)
  next
    case illegal
    then show ?thesis using assms unfolding defs by (simp add: unp)
  next
    case inside
    have conf: "confined dest p" "call_ok dest (OpMkdirAll (pathDir p))"
      using insideDest_ok [OF assms(1,2)] inside(2) by (simp_all add: p_def)
    obtain ok log where mk: "call sys (OpMkdirAll (pathDir p)) (xtLog st) = (ok, log)" by force
    obtain r log1 where ex: "extractFileWithSize sys f p log = (r, log1)" by force
    have log: "\<forall>op \<in> set log. call_ok dest op" using mk assms(5) conf(2) by (auto simp: call_def)
    have log1: "\<forall>op \<in> set log1. call_ok dest op"
      using extractFile_ok [OF ex] log conf(1) by (auto intro: call_ok_confined)
    show ?thesis
    proof (cases "zDir f")
      case True
      with inside assms conf(1) show ?thesis unfolding defs
        by (auto simp: unp call_def stats_ok_def call_ok_def)
    next
      case regular: False
      show ?thesis
      proof (cases "ok \<and> (\<exists>k. r = Inr k)")
        case False
        with inside regular mk ex log log1 show ?thesis unfolding defs by (cases r) (auto simp: split_def)
      next
        case True
        then obtain k where k: "ok" "r = Inr k" by blast
        then have kk: "k = int (length (zData f))" "k \<le> int maxDecompressSize" using extractFile_ok [OF ex] by auto
        have "stats_ok lower n fl (st\<lparr>xtLog := log1\<rparr>)" using assms(4) by (simp add: stats_ok_def)
        from noteFile_ok [OF this assms(3) kk(2), of name] obtain st' where
          st': "noteFile lower n name k (st\<lparr>xtLog := log1\<rparr>) = Inr st'" "xtLog st' = log1"
            "stats_ok lower n (fl @ [\<lparr>fsPath = name, fsSize = k\<rparr>]) st'" by auto
        then show ?thesis using inside regular mk ex k log1 unfolding defs by (auto simp: unp kk(1))
      qed
    qed
  qed
qed

lemma unzipFiles_ok:
  assumes "dest \<noteq> []" "hd dest = 47" "0 < n"
  shows "stats_ok lower n fl st \<Longrightarrow> \<forall>op \<in> set (xtLog st). call_ok dest op \<Longrightarrow>
    \<exists>err st'. unzipFiles lower sys dest sp (\<lambda>_. True) n files st = Inr (err, st') \<and>
      (\<forall>op \<in> set (xtLog st'). call_ok dest op) \<and>
      (err = None \<longrightarrow> stats_ok lower n (fl @ concat (map (unpackedFile sp) files)) st')"
proof (induction files arbitrary: fl st)
  case (Cons f files)
  obtain err st1 where 1: "unzipFile lower sys dest sp n f st = Inr (err, st1)" "\<forall>op \<in> set (xtLog st1). call_ok dest op"
    "err = None \<longrightarrow> stats_ok lower n (fl @ unpackedFile sp f) st1"
    using unzipFile_ok [OF assms Cons.prems] by blast
  show ?case
  proof (cases err)
    case None
    with Cons.IH [of "fl @ unpackedFile sp f" st1] 1 show ?thesis by simp
  next
    case (Some e)
    with 1 show ?thesis by simp
  qed
qed simp

lemma unzip_ok:
  assumes "dest \<noteq> []" "hd dest = 47"
  shows "\<exists>r log. UnzipWithStats lower sys src closeErr dest = Inr (r, log) \<and> (\<forall>op \<in> set log. call_ok dest op) \<and>
    (\<forall>stats. r = Inr stats \<longrightarrow> (\<exists>files st. src = Inr files \<and> stats_ok lower 100 (unpacked files) st \<and>
       xsFileCount stats = xtCount st \<and> xsTextFileCount stats = xtText st \<and> xsTotalSize stats = xtTotal st \<and>
       mset (xsLargestFiles stats) = mset (xtHeap st) \<and> sorted_wrt (\<lambda>a b. fsSize b \<le> fsSize a) (xsLargestFiles stats)))"
proof (cases src)
  case (Inr files)
  let ?st0 = "\<lparr>xtCount = 0, xtText = 0, xtTotal = 0, xtHeap = [], xtLog = []\<rparr>"
  have "stats_ok lower 100 [] ?st0" by (simp add: stats_ok_def largest_of_def)
  from unzipFiles_ok [OF assms _ this, of sys "findCommonPrefix (map zName files)" files] obtain err st where
    st: "unzipFiles lower sys dest (findCommonPrefix (map zName files)) (\<lambda>_. True) 100 files ?st0 = Inr (err, st)"
      "\<forall>op \<in> set (xtLog st). call_ok dest op" "err = None \<longrightarrow> stats_ok lower 100 (unpacked files) st"
    by (auto simp: unpacked_def)
  show ?thesis
  proof (cases err)
    case (Some e)
    with Inr st show ?thesis by (simp add: UnzipWithStats_def unzipWithFilterAndStats_def)
  next
    case None
    with st have ok: "stats_ok lower 100 (unpacked files) st" by simp
    then obtain l where l: "popAll (length (xtHeap st)) (xtHeap st) [] = Inr l" "mset l = mset (xtHeap st)"
      "sorted_wrt (\<lambda>a b. fsSize b \<le> fsSize a) l"
      using popAll_ok [of "xtHeap st" "length (xtHeap st)" "[]"] by (auto simp: stats_ok_def largest_of_def)
    have "sort_key (\<lambda>s. - fsSize s) l = l"
      using l(3) by (intro sort_key_id_if_sorted) (simp add: sorted_wrt_map)
    then show ?thesis using Inr st None ok l
      by (auto simp: UnzipWithStats_def unzipWithFilterAndStats_def split: option.splits)
  qed
qed (simp add: UnzipWithStats_def unzipWithFilterAndStats_def)

section \<open>Properties\<close>

text \<open>
  C9. Unpacking an archive to an absolute destination stays in it, whatever the names in the archive and however the calls
  to the system go, but for one kind of call: it returns, and every path it hands to the system is the cleaned destination or
  lies below it by parts that are not empty, a dot or two dots, except that the directory that holds the destination is made
  (\<open>MkdirAll\<close>) if a file of the archive, such as \<open>.\<close>, names the destination itself.
\<close>

theorem extraction_confined:
  assumes "dest \<noteq> []" "hd dest = 47"
  shows "\<exists>r log. UnzipWithStats lower sys src closeErr dest = Inr (r, log) \<and>
    (\<forall>op \<in> set log. confined dest (opPath op) \<or> op = OpMkdirAll (pathDir (pathClean dest)))"
  using unzip_ok [OF assms, of lower sys src closeErr] by (auto simp: call_ok_def)

definition sampleDest :: gostr where "sampleDest = bytes_of ''/s/p''"

definition zplain :: "string \<Rightarrow> byte list \<Rightarrow> zfile" where
  "zplain name data = \<lparr>zName = bytes_of name, zDir = False, zOpens = True, zData = data, zBroken = False, zCloses = True\<rparr>"

theorem extraction_confined_witness:
  "\<exists>r log. UnzipWithStats id (\<lambda>_ _. True) (Inr [zplain ''a.php'' [1], zplain ''../../b'' [2]]) None sampleDest = Inr (r, log) \<and>
    (\<forall>op \<in> set log. confined sampleDest (opPath op) \<or> op = OpMkdirAll (pathDir (pathClean sampleDest)))"
  by (rule extraction_confined) (simp_all add: sampleDest_def bytes_of_def)

text \<open>
  C37. The statistics of an archive that was unpacked without error: the number of its files that are not directories, of those
  with a text extension, and the sum of their sizes as a 64-bit integer; the largest files are files of the archive with
  the hundred largest sizes in descending order; and none is larger than 256 MB.
\<close>

theorem unzip_statistics:
  assumes "dest \<noteq> []" "hd dest = 47" "UnzipWithStats lower sys (Inr files) closeErr dest = Inr (Inr stats, log)"
  shows "xsFileCount stats = int (length (unpacked files)) \<and>
    xsTextFileCount stats = int (length (filter (indexable lower \<circ> fsPath) (unpacked files))) \<and>
    xsTotalSize stats = wrap64 (sum_list (map fsSize (unpacked files))) \<and>
    map fsSize (xsLargestFiles stats) = take 100 (rev (sort (map fsSize (unpacked files)))) \<and>
    set (xsLargestFiles stats) \<subseteq> set (unpacked files) \<and>
    (\<forall>f \<in> set (unpacked files). fsSize f \<le> 2 ^ 28)"
proof -
  obtain st where st: "stats_ok lower 100 (unpacked files) st"
    "xsFileCount stats = xtCount st" "xsTextFileCount stats = xtText st" "xsTotalSize stats = xtTotal st"
    "mset (xsLargestFiles stats) = mset (xtHeap st)" "sorted_wrt (\<lambda>a b. fsSize b \<le> fsSize a) (xsLargestFiles stats)"
    using unzip_ok [OF assms(1,2), of lower sys "Inr files" closeErr] assms(3) by auto
  then have "largest_of 100 (xtHeap st) (unpacked files)" by (simp add: stats_ok_def)
  from largest_sizes [OF this st(5,6)] st(1-4) show ?thesis by (simp add: stats_ok_def maxDecompressSize_def)
qed

definition sampleZip :: "zfile list" where
  "sampleZip = [zplain ''p/a.php'' [1], zplain ''p/b'' [2, 3]]"

lemma sample_unpack:
  "\<exists>log. UnzipWithStats id (\<lambda>_ _. True) (Inr sampleZip) None sampleDest =
    Inr (Inr \<lparr>xsFileCount = 2, xsTextFileCount = 1, xsTotalSize = 3,
      xsLargestFiles = [\<lparr>fsPath = bytes_of ''b'', fsSize = 2\<rparr>, \<lparr>fsPath = bytes_of ''a.php'', fsSize = 1\<rparr>]\<rparr>, log)"
  by (simp add: UnzipWithStats_def unzipWithFilterAndStats_def sampleZip_def zplain_def sampleDest_def bytes_of_def
      unzipFile_def findCommonPrefix_def trimPrefix_def cutPrefix_def Let_def pathJoin_def pathClean_def cleanStep_def dot_def dotdot_def
      insideDest_def call_def pathDir_def extractFileWithSize_def maxDecompressSize_def noteFile_def noteLargest_def
      hpPush_def indexable_def pathExt_def pathElem_def textExtensions_def hpUp.simps hpLess_def hpPop_def hpDown.simps)

theorem unzip_statistics_witness:
  "\<exists>stats log. UnzipWithStats id (\<lambda>_ _. True) (Inr sampleZip) None sampleDest = Inr (Inr stats, log) \<and>
    xsFileCount stats = 2 \<and> xsFileCount stats = int (length (unpacked sampleZip)) \<and>
    map fsSize (xsLargestFiles stats) = take 100 (rev (sort (map fsSize (unpacked sampleZip))))"
proof -
  obtain stats log where s: "UnzipWithStats id (\<lambda>_ _. True) (Inr sampleZip) None sampleDest = Inr (Inr stats, log)"
    "xsFileCount stats = 2"
    using sample_unpack by auto
  have "sampleDest \<noteq> []" "hd sampleDest = 47" by (simp_all add: sampleDest_def bytes_of_def)
  from unzip_statistics [OF this s(1)] s show ?thesis by blast
qed

end
