(* ===== verification/Index_Command.thy ===== *)
theory Index_Command
  imports Dir_Index Download Extract_Correct
begin

text \<open>
  The \<open>index\<close> command of \<open>cmd/veloria/index.go\<close>, which the server runs as a process: download, unpack into a
  staging directory, build the index, compress, and swap both into place.

  The disk is what lies at the paths of directories and of index files, and the past of a run the disks after each call, which are
  the states a reader, or a run after a crash, can find.  A call succeeds, fails, or, removing a tree, stops in between;
  which of it is an argument, by the number of the calls before.  Renaming a directory needs its target to be missing or empty.
  What the unpacked files make of the staging directory, and what compressing makes of a tree, are arguments.

  The lemmas show that a run that starts with the sources of an extension in place does not lose them, what the run after
  a kill can do, and how the process ends.
\<close>

section \<open>The disk\<close>

record disk =
  dkTrees :: "gostr \<Rightarrow> fnode option"
  dkIndexes :: "gostr \<Rightarrow> byte list option"

datatype callResult = CallOk | CallFailed | CallPartly fnode

record run =
  rnDisk :: disk
  rnPast :: "disk list"

type_synonym outcomes = "nat \<Rightarrow> callResult"

definition put :: "disk \<Rightarrow> run \<Rightarrow> run" where
  "put d r = \<lparr>rnDisk = d, rnPast = rnPast r @ [d]\<rparr>"

definition outcomeOf :: "outcomes \<Rightarrow> run \<Rightarrow> callResult" where
  "outcomeOf orc r = orc (length (rnPast r))"

definition setTree :: "gostr \<Rightarrow> fnode option \<Rightarrow> run \<Rightarrow> run" where
  "setTree p t r = put ((rnDisk r)\<lparr>dkTrees := (dkTrees (rnDisk r))(p := t)\<rparr>) r"

definition setIndex :: "gostr \<Rightarrow> byte list option \<Rightarrow> run \<Rightarrow> run" where
  "setIndex p b r = put ((rnDisk r)\<lparr>dkIndexes := (dkIndexes (rnDisk r))(p := b)\<rparr>) r"

definition removeTree :: "outcomes \<Rightarrow> gostr \<Rightarrow> run \<Rightarrow> bool \<times> run" where
  "removeTree orc p r = (case outcomeOf orc r of
       CallOk \<Rightarrow> (True, setTree p None r)
     | CallFailed \<Rightarrow> (False, put (rnDisk r) r)
     | CallPartly t \<Rightarrow> (False, if dkTrees (rnDisk r) p = None then put (rnDisk r) r else setTree p (Some t) r))"

definition mkdirAll :: "outcomes \<Rightarrow> gostr \<Rightarrow> run \<Rightarrow> bool \<times> run" where
  "mkdirAll orc p r = (if outcomeOf orc r \<noteq> CallOk then (False, put (rnDisk r) r)
     else if dkTrees (rnDisk r) p \<noteq> None then (True, put (rnDisk r) r)
     else (True, setTree p (Some (FDir (Some []))) r))"

definition renameTree :: "outcomes \<Rightarrow> gostr \<Rightarrow> gostr \<Rightarrow> run \<Rightarrow> bool \<times> run" where
  "renameTree orc a b r = (let t = dkTrees (rnDisk r) in
     if outcomeOf orc r = CallOk \<and> t a \<noteq> None \<and> t b \<in> {None, Some (FDir (Some []))}
     then (True, put ((rnDisk r)\<lparr>dkTrees := t(b := t a, a := None)\<rparr>) r)
     else (False, put (rnDisk r) r))"

definition removeIndex :: "outcomes \<Rightarrow> gostr \<Rightarrow> run \<Rightarrow> run" where
  "removeIndex orc p r = (if outcomeOf orc r = CallOk then setIndex p None r else put (rnDisk r) r)"

definition renameIndex :: "outcomes \<Rightarrow> gostr \<Rightarrow> gostr \<Rightarrow> run \<Rightarrow> bool \<times> run" where
  "renameIndex orc a b r = (let f = dkIndexes (rnDisk r) in
     if outcomeOf orc r = CallOk \<and> f a \<noteq> None
     then (True, put ((rnDisk r)\<lparr>dkIndexes := f(b := f a, a := None)\<rparr>) r)
     else (False, put (rnDisk r) r))"

section \<open>The command\<close>

record indexCmd =
  icRepo :: gostr
  icZipURL :: gostr
  icSlug :: gostr

record cmdEnv =
  ceConfig :: "gostr + gostr"
  ceEnsure :: "gostr option"
  ceLock :: "gostr option"
  ceDownload :: "gostr \<Rightarrow> dlenv"
  ceArchive :: "byte list \<Rightarrow> (goerr + zfile list) \<times> goerr option"
  ceLower :: "gostr \<Rightarrow> gostr"
  ceSys :: sys
  ceTree :: "fsop list \<Rightarrow> fnode"
  cePrepared :: bool
  ceGrow :: "nat \<Rightarrow> nat"
  ceSortTmp :: "u64 list"
  ceCompress :: "fnode \<Rightarrow> fnode \<times> gostr option"
  ceOutcomes :: outcomes
  ceJSON :: "extractStats \<Rightarrow> gostr option"

text \<open>How a part of the command ends: with a value, an error, or the end of the process.\<close>

datatype 'a ended = Returns 'a | Fails cmdErr | Died fault

definition Validate :: "indexCmd \<Rightarrow> bool" where
  "Validate c \<longleftrightarrow> (\<forall>x \<in> set (icSlug c). x \<noteq> 0x2F \<and> x \<noteq> 0x5C)"

definition baseDir :: "gostr \<Rightarrow> indexCmd \<Rightarrow> gostr" where
  "baseDir dataDir c = pathJoin [dataDir, icRepo c]"

definition destDir :: "gostr \<Rightarrow> indexCmd \<Rightarrow> gostr" where
  "destDir dataDir c = pathJoin [pathJoin [baseDir dataDir c, bytes_of ''source''], icSlug c]"

definition slugDir :: "gostr \<Rightarrow> indexCmd \<Rightarrow> gostr" where
  "slugDir dataDir c = pathJoin [pathJoin [baseDir dataDir c, bytes_of ''index''], icSlug c]"

definition stagingDest :: "gostr \<Rightarrow> gostr" where "stagingDest dest = dest @ bytes_of ''.staging''"
definition oldDest :: "gostr \<Rightarrow> gostr" where "oldDest dest = dest @ bytes_of ''.old''"
definition tmpPath :: "gostr \<Rightarrow> gostr" where "tmpPath dir = pathJoin [dir, bytes_of ''trigrams.tmp'']"
definition finalPath :: "gostr \<Rightarrow> gostr" where "finalPath dir = pathJoin [dir, bytes_of ''trigrams'']"

text \<open>
  From the archive to the index and the compressed sources, and whether the removal of the new index was deferred;
  \<open>None\<close> if writing the index does not end.
\<close>

definition buildStaged :: "cmdEnv \<Rightarrow> byte list \<Rightarrow> gostr \<Rightarrow> gostr \<Rightarrow> run \<Rightarrow> (extractStats ended \<times> bool \<times> run) option" where
  "buildStaged env arc dest dir r =
     (let staging = stagingDest dest; (src, closeErr) = ceArchive env arc in
      case UnzipWithStats (ceLower env) (ceSys env) src closeErr staging of
        Inl e \<Rightarrow> Some (Died e, False, r)
      | Inr (res, log) \<Rightarrow>
        let tree = ceTree env log; r1 = setTree staging (Some tree) r in
        case res of
          Inl err \<Rightarrow> Some (Fails (WrapError (bytes_of ''failed to unzip files'') (PlainError [])), False, r1)
        | Inr stats \<Rightarrow>
          let (ok, r2) = mkdirAll (ceOutcomes env) dir r1 in
          if \<not> ok then Some (Fails (PlainError (bytes_of ''failed to create index dir'')), False, r2)
          else let r3 = removeIndex (ceOutcomes env) (tmpPath dir) r2 in
            case IndexDirToFile (ceLower env) (cePrepared env) (ceGrow env) (ceSortTmp env) staging tree dest of
              None \<Rightarrow> None
            | Some (Inl e) \<Rightarrow> Some (Died e, False, r3)
            | Some (Inr ix) \<Rightarrow>
              let r4 = setIndex (tmpPath dir) (Some (written_file ix)) r3;
                  (packed, err) = ceCompress env tree; r5 = setTree staging (Some packed) r4
              in Some (if err \<noteq> None then Fails (PlainError (bytes_of ''failed to compress source files'')) else Returns stats, True, r5))"

definition swapIn :: "outcomes \<Rightarrow> gostr \<Rightarrow> gostr \<Rightarrow> run \<Rightarrow> unit ended \<times> bool \<times> run" where
  "swapIn orc dest dir r =
     (let (_, r1) = removeTree orc (oldDest dest) r;
          (_, r2) = renameTree orc dest (oldDest dest) r1;
          (ok, r3) = renameTree orc (stagingDest dest) dest r2
      in if \<not> ok then let (_, r4) = renameTree orc (oldDest dest) dest r3
           in (Fails (PlainError (bytes_of ''failed to rename staging dir'')), False, r4)
         else let (ok2, r4) = renameIndex orc (tmpPath dir) (finalPath dir) r3 in
           if \<not> ok2 then (Fails (PlainError (bytes_of ''failed to rename'')), True, r4)
           else let (_, r5) = removeTree orc (oldDest dest) r4 in (Returns (), True, r5))"

text \<open>
  What is deferred: the index that was not moved into place, and the staging directory unless it was swapped.  An exit
  of the process runs none of it, a panic does.
\<close>

definition dropTmp :: "outcomes \<Rightarrow> gostr \<Rightarrow> run \<Rightarrow> run" where
  "dropTmp orc dir r = (if dkIndexes (rnDisk r) (tmpPath dir) \<noteq> None then removeIndex orc (tmpPath dir) r else r)"

definition dropStaging :: "outcomes \<Rightarrow> gostr \<Rightarrow> run \<Rightarrow> run" where
  "dropStaging orc dest r = snd (removeTree orc (stagingDest dest) r)"

definition outputLines :: "cmdEnv \<Rightarrow> gostr \<Rightarrow> extractStats \<Rightarrow> gostr list" where
  "outputLines env dir stats = (bytes_of ''INDEX_READY:'' @ dir) #
     (case ceJSON env stats of None \<Rightarrow> [] | Some j \<Rightarrow> [bytes_of ''EXTRACT_STATS:'' @ j])"

definition indexStaged :: "cmdEnv \<Rightarrow> byte list \<Rightarrow> gostr \<Rightarrow> gostr \<Rightarrow> run \<Rightarrow> (gostr list ended \<times> run) option" where
  "indexStaged env arc dest dir r =
     (let orc = ceOutcomes env; (ok, r1) = removeTree orc (stagingDest dest) r in
      if \<not> ok then Some (Fails (PlainError (bytes_of ''failed to remove stale staging dir'')), r1)
      else let (ok, r2) = mkdirAll orc (stagingDest dest) r1 in
        if \<not> ok then Some (Fails (PlainError (bytes_of ''failed to create staging dir'')), r2)
        else case buildStaged env arc dest dir r2 of
            None \<Rightarrow> None
          | Some (Died e, _, r3) \<Rightarrow> Some (Died e, if e = Panic \<or> e = Range then dropStaging orc dest r3 else r3)
          | Some (Fails err, deferred, r3) \<Rightarrow> Some (Fails err, dropStaging orc dest (if deferred then dropTmp orc dir r3 else r3))
          | Some (Returns stats, _, r3) \<Rightarrow>
              let (res, swapped, r4) = swapIn orc dest dir r3;
                  r5 = dropTmp orc dir r4;
                  r6 = (if swapped then r5 else dropStaging orc dest r5)
              in Some (case res of Returns _ \<Rightarrow> Returns (outputLines env dir stats) | Fails err \<Rightarrow> Fails err | Died e \<Rightarrow> Died e, r6))"

definition Run :: "cmdEnv \<Rightarrow> indexCmd \<Rightarrow> disk \<Rightarrow> (gostr list ended \<times> run) option" where
  "Run env c d0 =
     (let r = \<lparr>rnDisk = d0, rnPast = []\<rparr> in
      case ceConfig env of
        Inl err \<Rightarrow> Some (Fails (WrapError (bytes_of ''failed to load config'') (PlainError err)), r)
      | Inr dataDir \<Rightarrow>
        case ceEnsure env of
          Some err \<Rightarrow> Some (Fails (WrapError (bytes_of ''failed to ensure data directories'') (PlainError err)), r)
        | None \<Rightarrow> case ceLock env of
            Some err \<Rightarrow> Some (Fails (WrapError (bytes_of ''failed to lock slug'') (PlainError err)), r)
          | None \<Rightarrow> case downloadZip (ceDownload env (icZipURL c)) of
              (Inl err, _) \<Rightarrow> Some (Fails (WrapError (bytes_of ''failed to download zip'') err), r)
            | (Inr arc, _) \<Rightarrow> indexStaged env arc (destDir dataDir c) (slugDir dataDir c) r)"

section \<open>The swap\<close>

definition always :: "(disk \<Rightarrow> bool) \<Rightarrow> run \<Rightarrow> bool" where
  "always P r \<longleftrightarrow> P (rnDisk r) \<and> (\<forall>d \<in> set (rnPast r). P d)"

lemma always_put [simp]: "always P (put d r) \<longleftrightarrow> P d \<and> (\<forall>d \<in> set (rnPast r). P d)"
  by (auto simp: always_def put_def)

lemma put_simps [simp]: "rnDisk (put d r) = d" "set (rnPast (put d r)) = insert d (set (rnPast r))"
  by (auto simp: put_def)

definition has_tree :: "gostr \<Rightarrow> fnode \<Rightarrow> disk \<Rightarrow> bool" where
  "has_tree p t d \<longleftrightarrow> dkTrees d p = Some t"

text \<open>The sources of an extension are kept: the old ones in place or aside, or the new ones in place.\<close>

definition kept :: "gostr \<Rightarrow> fnode \<Rightarrow> fnode \<Rightarrow> disk \<Rightarrow> bool" where
  "kept dest old new d \<longleftrightarrow> has_tree dest old d \<or> has_tree (oldDest dest) old d \<or> has_tree dest new d"

text \<open>A property of the disk that two trees decide.\<close>

definition local :: "gostr \<Rightarrow> (disk \<Rightarrow> bool) \<Rightarrow> bool" where
  "local dest P \<longleftrightarrow> (\<forall>d d'. dkTrees d dest = dkTrees d' dest \<and> dkTrees d (oldDest dest) = dkTrees d' (oldDest dest) \<longrightarrow> P d = P d')"

lemma local_has_tree: "local dest (has_tree dest t)"
  by (simp add: local_def has_tree_def)

lemma local_kept: "local dest (kept dest old new)"
  by (simp add: local_def kept_def has_tree_def)

lemma staging_apart: "stagingDest dest \<noteq> dest" "stagingDest dest \<noteq> oldDest dest" "oldDest dest \<noteq> dest"
  by (simp_all add: stagingDest_def oldDest_def bytes_of_def)

lemma localD: "local dest P \<Longrightarrow> P d \<Longrightarrow> dkTrees d' dest = dkTrees d dest \<Longrightarrow> dkTrees d' (oldDest dest) = dkTrees d (oldDest dest) \<Longrightarrow> P d'"
  unfolding local_def by blast

lemma local_ops:
  assumes "local dest P" "always P r" "p \<noteq> dest" "p \<noteq> oldDest dest"
  shows "always P (setTree p t r)" "always P (setIndex q b r)" "always P (snd (removeTree orc p r))"
    "always P (removeIndex orc q r)" "always P (snd (renameIndex orc a q r))"
    "always P (dropTmp orc dir r)"
  using assms by (auto simp: always_def setTree_def setIndex_def removeTree_def removeIndex_def renameIndex_def Let_def
      dropTmp_def put_def split: callResult.splits elim!: localD [OF assms(1)])

lemma mkdirAll_keeps: "always (has_tree q t) r \<Longrightarrow> always (has_tree q t) (snd (mkdirAll orc p r))"
  by (auto simp: mkdirAll_def setTree_def always_def has_tree_def)

lemma mkdirAll_indexes: "dkIndexes (rnDisk (snd (mkdirAll orc p r))) = dkIndexes (rnDisk r)"
  by (simp add: mkdirAll_def setTree_def)

lemma removeTree_tree: "q \<noteq> p \<Longrightarrow> removeTree orc p r = (ok, r') \<Longrightarrow> dkTrees (rnDisk r') q = dkTrees (rnDisk r) q"
  by (auto simp: removeTree_def setTree_def split: callResult.splits if_splits)

lemma removeTree_indexes: "removeTree orc p r = (ok, r') \<Longrightarrow> dkIndexes (rnDisk r') = dkIndexes (rnDisk r)"
  by (auto simp: removeTree_def setTree_def split: callResult.splits if_splits)

lemma renameTree_cases:
  assumes "renameTree orc a b r = (ok, r')"
  obtains (moved) t where "ok" "dkTrees (rnDisk r) a = Some t" "dkTrees (rnDisk r) b \<in> {None, Some (FDir (Some []))}"
      "r' = put ((rnDisk r)\<lparr>dkTrees := (dkTrees (rnDisk r))(b := Some t, a := None)\<rparr>) r"
    | (stays) "\<not> ok" "r' = put (rnDisk r) r"
  using assms by (auto simp: renameTree_def Let_def split: if_splits)

lemma swapIn_ok:
  assumes "always (has_tree dest old) r" "has_tree (stagingDest dest) new (rnDisk r)" "old \<noteq> FDir (Some [])"
    and "swapIn orc dest dir r = (res, swapped, r')"
  shows "always (kept dest old new) r' \<and>
    (swapped \<longrightarrow> has_tree dest new (rnDisk r')) \<and>
    (\<not> swapped \<longrightarrow> has_tree dest old (rnDisk r') \<or> has_tree (oldDest dest) old (rnDisk r')) \<and>
    (res = Returns () \<longrightarrow> swapped \<and> dkIndexes (rnDisk r) (tmpPath dir) \<noteq> None \<and>
      dkIndexes (rnDisk r') = (dkIndexes (rnDisk r))(finalPath dir := dkIndexes (rnDisk r) (tmpPath dir), tmpPath dir := None)) \<and>
    (\<forall>e. res \<noteq> Died e)"
proof -
  note ap = staging_apart [of dest]
  obtain ok1 r1 where 1: "removeTree orc (oldDest dest) r = (ok1, r1)" by force
  obtain ok2 r2 where 2: "renameTree orc dest (oldDest dest) r1 = (ok2, r2)" by force
  obtain ok3 r3 where 3: "renameTree orc (stagingDest dest) dest r2 = (ok3, r3)" by force
  have t1: "dkTrees (rnDisk r1) dest = Some old" "dkTrees (rnDisk r1) (stagingDest dest) = Some new"
    using removeTree_tree [OF _ 1] assms(1,2) ap by (auto simp: always_def has_tree_def)
  have a1: "always (has_tree dest old) r1"
    using 1 assms(1) ap by (auto simp: removeTree_def setTree_def always_def put_def has_tree_def split: callResult.splits if_splits)
  have i1: "dkIndexes (rnDisk r1) = dkIndexes (rnDisk r)" by (rule removeTree_indexes [OF 1])
  have k1: "always (kept dest old new) r1" using a1 by (auto simp: always_def kept_def)
  have s2: "always (kept dest old new) r2 \<and> dkTrees (rnDisk r2) (stagingDest dest) = Some new \<and>
      dkIndexes (rnDisk r2) = dkIndexes (rnDisk r) \<and>
      (has_tree dest old (rnDisk r2) \<or> dkTrees (rnDisk r2) dest = None \<and> has_tree (oldDest dest) old (rnDisk r2))"
    using 2
  proof (cases rule: renameTree_cases)
    case (moved t)
    then show ?thesis using k1 t1 i1 ap by (auto simp: always_def kept_def has_tree_def)
  next
    case stays
    then show ?thesis using k1 t1 i1 ap by (auto simp: always_def has_tree_def)
  qed
  show ?thesis
  proof (cases ok3)
    case False
    then have r3: "r3 = put (rnDisk r2) r2" using 3 by (auto elim: renameTree_cases)
    obtain ok4 r4 where 4: "renameTree orc (oldDest dest) dest r3 = (ok4, r4)" by force
    have "always (kept dest old new) r4 \<and> (has_tree dest old (rnDisk r4) \<or> has_tree (oldDest dest) old (rnDisk r4))"
      using 4
    proof (cases rule: renameTree_cases)
      case (moved t)
      then show ?thesis using s2 r3 ap assms(3)
        by (auto simp: always_def kept_def has_tree_def put_def)
    next
      case stays
      then show ?thesis using s2 r3 by (auto simp: always_def put_def)
    qed
    then show ?thesis using assms(4) 1 2 3 4 False by (auto simp: swapIn_def)
  next
    case True
    have s3: "always (kept dest old new) r3 \<and> has_tree dest new (rnDisk r3) \<and> dkIndexes (rnDisk r3) = dkIndexes (rnDisk r)"
      using 3 True s2 ap by (auto elim!: renameTree_cases simp: always_def kept_def has_tree_def put_def)
    obtain ok4 r4 where 4: "renameIndex orc (tmpPath dir) (finalPath dir) r3 = (ok4, r4)" by force
    have s4: "always (kept dest old new) r4 \<and> has_tree dest new (rnDisk r4)"
      using 4 s3 by (auto simp: renameIndex_def Let_def always_def kept_def has_tree_def put_def split: if_splits)
    show ?thesis
    proof (cases ok4)
      case False
      then show ?thesis using assms(4) 1 2 3 4 True s4 by (auto simp: swapIn_def)
    next
      case ok4: True
      have i4: "dkIndexes (rnDisk r) (tmpPath dir) \<noteq> None \<and> dkIndexes (rnDisk r4) =
          (dkIndexes (rnDisk r))(finalPath dir := dkIndexes (rnDisk r) (tmpPath dir), tmpPath dir := None)"
        using 4 ok4 s3 by (auto simp: renameIndex_def Let_def split: if_splits)
      obtain ok5 r5 where 5: "removeTree orc (oldDest dest) r4 = (ok5, r5)" by force
      have "has_tree dest new (rnDisk r5)" "dkIndexes (rnDisk r5) = dkIndexes (rnDisk r4)"
        using removeTree_tree [OF _ 5, of dest] removeTree_indexes [OF 5] s4 ap by (auto simp: has_tree_def)
      moreover have "always (kept dest old new) r5"
        using 5 s4 ap by (auto simp: removeTree_def setTree_def always_def put_def kept_def has_tree_def split: callResult.splits if_splits)
      ultimately show ?thesis using assms(4) 1 2 3 4 5 True ok4 i4 by (auto simp: swapIn_def)
    qed
  qed
qed

text \<open>A swap that succeeds goes through a state in which the extension has no sources in place, only aside.\<close>

lemma swap_gap:
  assumes "has_tree dest old (rnDisk r)" "old \<noteq> FDir (Some [])" "swapIn orc dest dir r = (res, True, r')"
  shows "\<exists>d \<in> set (rnPast r'). dkTrees d dest = None \<and> has_tree (oldDest dest) old d"
proof -
  note ap = staging_apart [of dest]
  obtain ok1 r1 where 1: "removeTree orc (oldDest dest) r = (ok1, r1)" by force
  obtain ok2 r2 where 2: "renameTree orc dest (oldDest dest) r1 = (ok2, r2)" by force
  obtain ok3 r3 where 3: "renameTree orc (stagingDest dest) dest r2 = (ok3, r3)" by force
  have t1: "dkTrees (rnDisk r1) dest = Some old" using removeTree_tree [OF _ 1, of dest] assms(1) ap by (simp add: has_tree_def)
  have ok3: ok3 using assms(3) 1 2 3 by (auto simp: swapIn_def split: if_splits prod.splits)
  have ok2: ok2
  proof (rule ccontr)
    assume "\<not> ok2"
    then have "r2 = put (rnDisk r1) r1" using 2 by (auto elim: renameTree_cases)
    with 3 ok3 t1 assms(2) show False by (auto elim: renameTree_cases)
  qed
  then have "dkTrees (rnDisk r2) dest = None \<and> has_tree (oldDest dest) old (rnDisk r2)" "rnDisk r2 \<in> set (rnPast r2)"
    using 2 t1 ap by (auto elim!: renameTree_cases simp: has_tree_def)
  moreover have "set (rnPast r2) \<subseteq> set (rnPast r3)" using 3 by (auto elim!: renameTree_cases)
  moreover have "set (rnPast r3) \<subseteq> set (rnPast r')"
    using assms(3) 1 2 3 ok3
    by (auto simp: swapIn_def renameIndex_def removeTree_def setTree_def Let_def split: if_splits prod.splits callResult.splits)
  ultimately show ?thesis by blast
qed

lemma past_grows:
  "set (rnPast r) \<subseteq> set (rnPast (snd (removeTree orc p r)))" "set (rnPast r) \<subseteq> set (rnPast (snd (renameTree orc a b r)))"
  "set (rnPast r) \<subseteq> set (rnPast (snd (renameIndex orc a b r)))"
  by (auto simp: removeTree_def renameTree_def renameIndex_def setTree_def Let_def split: callResult.splits)

text \<open>
  So after a kill between the two renames the old sources are only aside.  The swap of the next run begins by removing
  them: it goes through a state in which there are no sources at all, and if the new ones cannot be moved into place, it
  ends in one.
\<close>

lemma killed_swap_loses:
  assumes "dkTrees (rnDisk r) dest = None" "outcomeOf orc r = CallOk" "swapIn orc dest dir r = (res, swapped, r')"
  shows "\<exists>d \<in> set (rnPast r'). dkTrees d dest = None \<and> dkTrees d (oldDest dest) = None"
    "\<not> swapped \<Longrightarrow> dkTrees (rnDisk r') dest = None \<and> dkTrees (rnDisk r') (oldDest dest) = None"
proof -
  note ap = staging_apart [of dest]
  let ?none = "\<lambda>d. dkTrees d dest = None \<and> dkTrees d (oldDest dest) = None"
  obtain ok2 r2 where 2: "renameTree orc dest (oldDest dest) (setTree (oldDest dest) None r) = (ok2, r2)" by force
  obtain ok3 r3 where 3: "renameTree orc (stagingDest dest) dest r2 = (ok3, r3)" by force
  have r2: "?none (rnDisk r2)" "rnDisk r2 \<in> set (rnPast r2)"
    using 2 assms(1) ap by (auto elim!: renameTree_cases simp: setTree_def)
  obtain ok4 r4 where 4: "renameIndex orc (tmpPath dir) (finalPath dir) r3 = (ok4, r4)" by force
  have d: "removeTree orc (oldDest dest) r = (True, setTree (oldDest dest) None r)" using assms(2) by (simp add: removeTree_def)
  have r': "swapped = ok3" "r' = (if \<not> ok3 then snd (renameTree orc (oldDest dest) dest r3)
      else if ok4 then snd (removeTree orc (oldDest dest) r4) else r4)"
    using assms(3) d 2 3 4 by (simp_all add: swapIn_def split: prod.splits if_splits)
  have "set (rnPast r3) \<subseteq> set (rnPast r')"
    using past_grows(1,2) [of r3] past_grows(3) [of r3 orc "tmpPath dir" "finalPath dir"] past_grows(1) [of r4] 4
    unfolding r'(2) by force
  moreover have "set (rnPast r2) \<subseteq> set (rnPast r3)" using past_grows(2) [of r2 orc "stagingDest dest" dest] 3 by simp
  ultimately show "\<exists>d \<in> set (rnPast r'). ?none d" using r2 by blast
  show "?none (rnDisk r')" if "\<not> swapped"
  proof -
    have "?none (rnDisk r3)" using that r'(1) 3 r2(1) by (auto elim!: renameTree_cases)
    then show ?thesis using that r' by (auto simp: renameTree_def Let_def)
  qed
qed

section \<open>A run\<close>

text \<open>
  What a run makes of an archive: the tree its files were unpacked to, compressed without an error, and the index of the
  unpacked tree.  \<open>built\<close> is the same for the archive the run downloaded.
\<close>

definition staged :: "cmdEnv \<Rightarrow> byte list \<Rightarrow> gostr \<Rightarrow> fnode \<Rightarrow> indexWriter \<Rightarrow> bool" where
  "staged env arc dest new ix \<longleftrightarrow> (\<exists>src closeErr stats log. ceArchive env arc = (src, closeErr) \<and>
     UnzipWithStats (ceLower env) (ceSys env) src closeErr (stagingDest dest) = Inr (Inr stats, log) \<and>
     IndexDirToFile (ceLower env) (cePrepared env) (ceGrow env) (ceSortTmp env) (stagingDest dest) (ceTree env log) dest = Some (Inr ix) \<and>
     ceCompress env (ceTree env log) = (new, None))"

definition built :: "cmdEnv \<Rightarrow> indexCmd \<Rightarrow> gostr \<Rightarrow> fnode \<Rightarrow> indexWriter \<Rightarrow> bool" where
  "built env c dest new ix \<longleftrightarrow>
     (\<exists>arc n waits. downloadZip (ceDownload env (icZipURL c)) = (Inr arc, n, waits) \<and> staged env arc dest new ix)"

lemma buildStaged_ok:
  assumes "buildStaged env arc dest dir r = Some (res, deferred, r')" "always (has_tree dest old) r"
  shows "always (has_tree dest old) r' \<and> (\<forall>stats. res = Returns stats \<longrightarrow> (\<exists>new ix. staged env arc dest new ix \<and>
    has_tree (stagingDest dest) new (rnDisk r') \<and> dkIndexes (rnDisk r') (tmpPath dir) = Some (written_file ix)))"
proof -
  note ap = staging_apart [of dest]
  note ops = local_ops [OF local_has_tree _ ap(1,2)]
  obtain src cl where sc: "ceArchive env arc = (src, cl)" by force
  show ?thesis
  proof (cases "UnzipWithStats (ceLower env) (ceSys env) src cl (stagingDest dest)")
    case (Inl e)
    then show ?thesis using assms sc by (auto simp: buildStaged_def)
  next
    case unzipped: (Inr p)
    obtain u log where p: "p = (u, log)" by force
    let ?r1 = "setTree (stagingDest dest) (Some (ceTree env log)) r"
    obtain ok r2 where 2: "mkdirAll (ceOutcomes env) dir ?r1 = (ok, r2)" by force
    let ?r3 = "removeIndex (ceOutcomes env) (tmpPath dir) r2"
    let ?ix = "IndexDirToFile (ceLower env) (cePrepared env) (ceGrow env) (ceSortTmp env) (stagingDest dest) (ceTree env log) dest"
    let ?r4 = "\<lambda>ix. setIndex (tmpPath dir) (Some (written_file ix)) ?r3"
    obtain packed err where c: "ceCompress env (ceTree env log) = (packed, err)" by force
    let ?r5 = "\<lambda>ix. setTree (stagingDest dest) (Some packed) (?r4 ix)"
    have a1: "always (has_tree dest old) ?r1" by (rule ops(1) [OF assms(2)])
    have a2: "always (has_tree dest old) r2" using mkdirAll_keeps [OF a1, of "ceOutcomes env" dir] 2 by simp
    have a3: "always (has_tree dest old) ?r3" by (rule ops(4) [OF a2])
    have a5: "always (has_tree dest old) (?r5 ix)" for ix by (rule ops(1) [OF ops(2) [OF a3]])
    have f: "dkIndexes (rnDisk (?r5 ix)) (tmpPath dir) = Some (written_file ix)" "has_tree (stagingDest dest) packed (rnDisk (?r5 ix))" for ix
      by (simp_all add: setTree_def setIndex_def has_tree_def)
    consider (zip) e where "u = Inl e" | (dir) "\<exists>st. u = Inr st" "\<not> ok" | (index) st where "u = Inr st" "ok" by (cases u) auto
    then show ?thesis
    proof cases
      case (zip e)
      then show ?thesis using assms(1) sc unzipped p a1 by (auto simp: buildStaged_def)
    next
      case dir
      then show ?thesis using assms(1) sc unzipped p a2 2 by (auto simp: buildStaged_def)
    next
      case (index st)
      show ?thesis
      proof (cases ?ix)
        case None
        then show ?thesis using assms(1) sc unzipped p 2 index by (simp add: buildStaged_def)
      next
        case (Some x)
        show ?thesis
        proof (cases x)
          case (Inl e)
          then show ?thesis using assms(1) sc unzipped p 2 index a3 Some by (auto simp: buildStaged_def)
        next
          case (Inr ix)
          then have "r' = ?r5 ix" using assms(1) sc unzipped p 2 index c Some by (simp add: buildStaged_def)
          moreover have "staged env arc dest packed ix" if "res = Returns stats" for stats
            using that assms(1) sc unzipped p 2 index c Some Inr by (auto simp: buildStaged_def staged_def split: if_splits)
          ultimately show ?thesis using a5 [of ix] f [of ix] by blast
        qed
      qed
    qed
  qed
qed

lemma joinSlash_snoc: "joinSlash (cs @ [n]) = (if cs = [] then n else joinSlash cs @ 47 # n)"
  by (induction cs rule: joinSlash.induct) simp_all

lemma pathElem_append: "47 \<notin> set n \<Longrightarrow> pathElem (p @ 47 # n) = n"
  using take_part [of "rev n" "47 # rev p"] by (simp add: pathElem_def)

lemma pathElem_join:
  assumes "proper n"
  shows "pathElem (pathJoin [dir, n]) = n"
proof -
  have n: "n \<noteq> []" "47 \<notin> set n" using assms by (simp_all add: proper_def)
  show ?thesis
  proof (cases "dir = []")
    case True
    have "hd n \<noteq> 47" using n by (cases n) auto
    then show ?thesis using True n assms by (simp add: pathJoin_def pathClean_def split_sep_plain cleanStep_proper pathElem_plain)
  next
    case False
    obtain r st where r: "split_sep [] (dir @ 47 # n) = split_sep [] dir @ [n]" "r = (hd (dir @ 47 # n) = 47)"
      "st = rev (fold (cleanStep r) (split_sep [] dir) [])"
      using split_sep_slash [of "[]" dir n] n by (simp add: split_sep_plain)
    then have "pathClean (dir @ 47 # n) = (if r then 47 # joinSlash (st @ [n]) else joinSlash (st @ [n]))"
      using assms n by (simp add: pathClean_def Let_def cleanStep_proper joinSlash_snoc)
    moreover have "pathElem (47 # joinSlash (st @ [n])) = n" "pathElem (joinSlash (st @ [n])) = n"
      using pathElem_append [OF n(2), of "[]"] pathElem_append [OF n(2), of "47 # joinSlash st"]
        pathElem_append [OF n(2), of "joinSlash st"] pathElem_plain [OF n(2)] by (simp_all add: joinSlash_snoc)
    ultimately show ?thesis using False n by (simp add: pathJoin_def)
  qed
qed

lemma tmp_final: "tmpPath dir \<noteq> finalPath dir"
  using pathElem_join [of "bytes_of ''trigrams.tmp''" dir] pathElem_join [of "bytes_of ''trigrams''" dir]
  by (auto simp: tmpPath_def finalPath_def proper_def bytes_of_def dot_def dotdot_def)

text \<open>What the command has done when it succeeds.\<close>

definition installed :: "cmdEnv \<Rightarrow> indexCmd \<Rightarrow> gostr \<Rightarrow> gostr \<Rightarrow> fnode \<Rightarrow> disk \<Rightarrow> bool" where
  "installed env c dest dir new d \<longleftrightarrow> has_tree dest new d \<and>
     (\<exists>ix. built env c dest new ix \<and> dkIndexes d (finalPath dir) = Some (written_file ix))"

lemma drops_keep:
  assumes "local dest P" "always P r"
  shows "always P (dropTmp orc dir r)" "always P (dropStaging orc dest r)"
  using local_ops [OF assms staging_apart(1,2)] by (simp_all add: dropStaging_def)

lemma indexStaged_ok:
  assumes "indexStaged env arc dest dir r = Some (res, r')" "always (has_tree dest old) r" "old \<noteq> FDir (Some [])"
  shows "always (has_tree dest old) r' \<and> (\<forall>out. res \<noteq> Returns out) \<or>
    (\<exists>new ix. staged env arc dest new ix \<and> always (kept dest old new) r' \<and>
      (\<forall>out. res = Returns out \<longrightarrow> has_tree dest new (rnDisk r') \<and> dkIndexes (rnDisk r') (finalPath dir) = Some (written_file ix)))"
proof -
  let ?orc = "ceOutcomes env"
  note ap = staging_apart [of dest]
  note ops = local_ops [OF local_has_tree _ ap(1,2)]
  note drop = drops_keep [OF local_has_tree]
  obtain ok1 r1 where 1: "removeTree ?orc (stagingDest dest) r = (ok1, r1)" by force
  have a1: "always (has_tree dest old) r1" using ops(3) [OF assms(2), of ?orc] 1 by simp
  obtain ok2 r2 where 2: "mkdirAll ?orc (stagingDest dest) r1 = (ok2, r2)" by force
  have a2: "always (has_tree dest old) r2" using mkdirAll_keeps [OF a1, of ?orc "stagingDest dest"] 2 by simp
  consider (early) "\<not> ok1 \<or> \<not> ok2" | (build) "ok1" "ok2" by blast
  then show ?thesis
  proof cases
    case early
    then show ?thesis using assms(1) 1 2 a1 a2 by (cases ok1) (auto simp: indexStaged_def Let_def)
  next
    case build
    obtain res1 deferred r3 where b: "buildStaged env arc dest dir r2 = Some (res1, deferred, r3)"
      using assms(1) 1 2 build by (auto simp: indexStaged_def Let_def split: option.splits)
    note bo = buildStaged_ok [OF b a2]
    show ?thesis
    proof (cases res1)
      case (Died e)
      then have "always (has_tree dest old) r'" "res = Died e" using assms(1) 1 2 build b bo drop(2) by (auto simp: indexStaged_def Let_def)
      then show ?thesis by auto
    next
      case (Fails err)
      then have "always (has_tree dest old) r'" "res = Fails err"
        using assms(1) 1 2 build b bo drop by (auto simp: indexStaged_def Let_def)
      then show ?thesis by auto
    next
      case (Returns stats)
      then obtain new ix where l: "staged env arc dest new ix" "has_tree (stagingDest dest) new (rnDisk r3)"
        "dkIndexes (rnDisk r3) (tmpPath dir) = Some (written_file ix)" using bo by blast
      obtain res2 swapped r4 where s: "swapIn ?orc dest dir r3 = (res2, swapped, r4)" by (metis prod_cases3)
      from swapIn_ok [OF _ l(2) assms(3) s] bo have so: "always (kept dest old new) r4"
        "swapped \<longrightarrow> has_tree dest new (rnDisk r4)" "\<forall>e. res2 \<noteq> Died e"
        "res2 = Returns () \<longrightarrow> swapped \<and>
          dkIndexes (rnDisk r4) = (dkIndexes (rnDisk r3))(finalPath dir := dkIndexes (rnDisk r3) (tmpPath dir), tmpPath dir := None)"
        by auto
      let ?r5 = "dropTmp ?orc dir r4"
      have r': "r' = (if swapped then ?r5 else dropStaging ?orc dest ?r5)"
        "res = (case res2 of Returns _ \<Rightarrow> Returns (outputLines env dir stats) | Fails err \<Rightarrow> Fails err | Died e \<Rightarrow> Died e)"
        using assms(1) 1 2 build b Returns s by (auto simp: indexStaged_def Let_def)
      have k: "always (kept dest old new) r'" using drops_keep [OF local_kept] so(1) r'(1) by (auto intro: drops_keep [OF local_kept])
      have "has_tree dest new (rnDisk r') \<and> dkIndexes (rnDisk r') (finalPath dir) = Some (written_file ix)" if "res = Returns out" for out
      proof -
        have ok: "res2 = Returns ()" using that r'(2) by (cases res2) auto
        then have fin: "swapped" "dkIndexes (rnDisk r4) (tmpPath dir) = None"
          "dkIndexes (rnDisk r4) (finalPath dir) = Some (written_file ix)" using so(4) l(3) tmp_final [of dir] tmp_final [of dir, symmetric] by simp_all
        then have "r' = r4" using r'(1) by (simp add: dropTmp_def)
        with fin so(2) show ?thesis by simp
      qed
      with k l(1) show ?thesis by blast
    qed
  qed
qed

lemma Run_ok:
  assumes "Run env c d0 = Some (res, r)" "ceConfig env = Inr dataDir" "dest = destDir dataDir c"
    and "has_tree dest old d0" "old \<noteq> FDir (Some [])"
  shows "always (has_tree dest old) r \<and> (\<forall>out. res \<noteq> Returns out) \<or>
    (\<exists>new ix. built env c dest new ix \<and> always (kept dest old new) r \<and>
      (\<forall>out. res = Returns out \<longrightarrow> installed env c dest (slugDir dataDir c) new (rnDisk r)))"
proof -
  let ?r0 = "\<lparr>rnDisk = d0, rnPast = []\<rparr>"
  have a0: "always (has_tree dest old) ?r0" using assms(4) by (simp add: always_def)
  obtain dl n w where dl: "downloadZip (ceDownload env (icZipURL c)) = (dl, n, w)" by (metis prod_cases3)
  show ?thesis
  proof (cases "ceEnsure env = None \<and> ceLock env = None \<and> (\<exists>arc. dl = Inr arc)")
    case True
    then obtain arc where arc: "dl = Inr arc" "indexStaged env arc dest (slugDir dataDir c) ?r0 = Some (res, r)"
      using assms(1-3) dl by (auto simp: Run_def Let_def)
    have b: "built env c dest new ix" if "staged env arc dest new ix" for new ix
      using that dl arc(1) by (auto simp: built_def)
    then have i: "has_tree dest new d \<Longrightarrow> dkIndexes d (finalPath dir) = Some (written_file ix) \<Longrightarrow> staged env arc dest new ix \<Longrightarrow>
        installed env c dest dir new d" for new ix dir d by (auto simp: installed_def)
    from indexStaged_ok [OF arc(2) a0 assms(5)] show ?thesis
    proof (elim disjE exE conjE)
      fix new ix
      assume "staged env arc dest new ix" "always (kept dest old new) r"
        "\<forall>out. res = Returns out \<longrightarrow> has_tree dest new (rnDisk r) \<and>
          dkIndexes (rnDisk r) (finalPath (slugDir dataDir c)) = Some (written_file ix)"
      then show ?thesis using b i by (intro disjI2 exI [of _ new] exI [of _ ix]) simp
    qed simp
  next
    case False
    then have "r = ?r0 \<and> (\<forall>out. res \<noteq> Returns out)"
      using assms(1,2) dl by (cases dl) (auto simp: Run_def Let_def split: option.splits)
    then show ?thesis using a0 by auto
  qed
qed

section \<open>The process\<close>

text \<open>
  The exit status: 0, the code of the error, 1 for \<open>log.Fatal\<close>, and 2 for a panic, as the runtime of Go documents.
\<close>

definition exitStatus :: "gostr list ended \<Rightarrow> int" where
  "exitStatus res = (case res of Returns _ \<Rightarrow> 0 | Fails err \<Rightarrow> exitCodeOf err
     | Died e \<Rightarrow> if e = Panic \<or> e = Range then 2 else 1)"

definition processOf :: "gostr list ended \<Rightarrow> gostr \<Rightarrow> gostr \<Rightarrow> procResult" where
  "processOf res stderr text = \<lparr>prErr = (if exitStatus res = 0 then None else Some \<lparr>peExitCode = Some (exitStatus res), peText = text\<rparr>),
     prStdout = (case res of Returns out \<Rightarrow> concat (map (\<lambda>l. l @ [10]) out) | _ \<Rightarrow> []), prStderr = stderr\<rparr>"

lemma runIndexer_gone:
  "runIndexer unmarshal (\<lambda>_ _. processOf res stderr text) slug url = Inl (Sentinel ErrDownloadNotFound) \<longleftrightarrow> exitStatus res = 2"
  by (auto simp: runIndexer_def processOf_def indexerError_def ExitDownloadNotFound_def ExitDownloadUnavailable_def Let_def)

text \<open>A panic of the indexer reads as a download that is gone, whatever the download was.\<close>

lemma panic_reads_as_gone:
  "runIndexer unmarshal (\<lambda>_ _. processOf (Died Panic) stderr text) slug url = Inl (Sentinel ErrDownloadNotFound)"
  by (simp add: runIndexer_gone exitStatus_def)

lemma hidden_file_panics:
  "IndexDirToFile lower True g tmp [0x2F, 0x73] (FDir (Some [([0x2E, 0x61], FGone)])) [0x2F, 0x64] = Some (Inl Panic)"
  by (simp add: IndexDirToFile_def Create_def NewPathWriter_def Let_def pathJoin_def pathClean_def cleanStep_def dot_def dotdot_def
      pathElem_def hiddenElem_def)

definition plainExit :: "cmdErr \<Rightarrow> bool" where
  "plainExit e \<longleftrightarrow> exitCodeOf e = 1"

lemma buildStaged_plain: "buildStaged env arc dest dir r = Some (Fails e, deferred, r') \<Longrightarrow> plainExit e"
  by (auto simp: buildStaged_def plainExit_def Let_def split: sum.splits prod.splits option.splits if_splits)

lemma swapIn_plain: "swapIn orc dest dir r = (Fails e, swapped, r') \<Longrightarrow> plainExit e"
  by (auto simp: swapIn_def plainExit_def Let_def split: prod.splits if_splits)

lemma indexStaged_plain: "indexStaged env arc dest dir r = Some (Fails e, r') \<Longrightarrow> plainExit e"
  by (auto simp: indexStaged_def Let_def plainExit_def [of "PlainError _"] dest: buildStaged_plain swapIn_plain
      split: prod.splits option.splits ended.splits if_splits)

lemma Run_fails:
  assumes "Run env c d0 = Some (Fails e, r)" "exitCodeOf e \<noteq> 1"
  shows "\<exists>e' n waits. downloadZip (ceDownload env (icZipURL c)) = (Inl e', n, waits) \<and> exitCodeOf e' = exitCodeOf e"
proof -
  obtain dl n w where dl: "downloadZip (ceDownload env (icZipURL c)) = (dl, n, w)" by (metis prod_cases3)
  show ?thesis
  proof (cases dl)
    case (Inl e')
    with dl assms show ?thesis by (auto simp: Run_def Let_def split: sum.splits option.splits)
  next
    case (Inr arc)
    with dl assms have "\<exists>dest dir r0. indexStaged env arc dest dir r0 = Some (Fails e, r)"
      by (auto simp: Run_def Let_def split: sum.splits option.splits)
    then show ?thesis using indexStaged_plain assms(2) by (auto simp: plainExit_def)
  qed
qed

text \<open>
  What the check of a slug lets through: two dots, with which the destination is the directory of the whole repository,
  and a name that ends as the directory another slug moves its old sources to.
\<close>

lemma slug_outside:
  "Validate \<lparr>icRepo = bytes_of ''plugins'', icZipURL = [], icSlug = dotdot\<rparr> \<and>
   destDir [0x2F, 0x76] \<lparr>icRepo = bytes_of ''plugins'', icZipURL = [], icSlug = dotdot\<rparr> = bytes_of ''/v/plugins''"
  by (simp add: Validate_def destDir_def baseDir_def pathJoin_def pathClean_def cleanStep_def dot_def dotdot_def bytes_of_def Let_def)

lemma slug_clash:
  "oldDest (destDir [0x2F, 0x76] \<lparr>icRepo = bytes_of ''plugins'', icZipURL = [], icSlug = bytes_of ''a''\<rparr>) =
   destDir [0x2F, 0x76] \<lparr>icRepo = bytes_of ''plugins'', icZipURL = [], icSlug = bytes_of ''a.old''\<rparr>"
  by (simp add: oldDest_def destDir_def baseDir_def pathJoin_def pathClean_def cleanStep_def dot_def dotdot_def bytes_of_def Let_def)

section \<open>Properties\<close>

text \<open>
  C8. A run of the command for an extension whose old sources are in place, and not an empty directory, never loses its
  sources: after every call it makes, however the calls go, and so also if it is killed, either the old sources are still
  in place, or the run has unpacked the archive it downloaded, indexed the unpacked tree and compressed it, and the old
  sources are in place or aside or this new tree is in place.  If the run succeeds, this tree is in place with its index.
  (What a run does after one that was killed with the old sources aside: \<open>killed_swap_loses\<close>.)
\<close>

theorem sources_never_lost:
  assumes "Run env c d0 = Some (res, r)" "ceConfig env = Inr dataDir" "dest = destDir dataDir c"
    and "has_tree dest old d0" "old \<noteq> FDir (Some [])"
  shows "(\<forall>d \<in> insert (rnDisk r) (set (rnPast r)). has_tree dest old d) \<and> (\<forall>out. res \<noteq> Returns out) \<or>
    (\<exists>new ix. built env c dest new ix \<and> (\<forall>d \<in> insert (rnDisk r) (set (rnPast r)). kept dest old new d) \<and>
      (\<forall>out. res = Returns out \<longrightarrow> installed env c dest (slugDir dataDir c) new (rnDisk r)))"
  using Run_ok [OF assms] by (simp add: always_def)

text \<open>
  C32. When the server takes a download for gone: then the indexer downloaded and the answer to the last of its at most
  three attempts said so, or was read to its end and was no zip file, or could not be read back from its file; or the
  indexer panicked, as the runtime of Go ends a panic with the same exit status.
\<close>

theorem gone_or_panic:
  assumes "Run env c d0 = Some (res, r)"
    and "runIndexer unmarshal (\<lambda>_ _. processOf res stderr text) slug url = Inl (Sentinel ErrDownloadNotFound)"
  shows "(\<exists>e n waits. downloadZip (ceDownload env (icZipURL c)) = (Inl e, n, waits) \<and> 1 \<le> n \<and> n \<le> 3 \<and>
      goneReply (deReopen (ceDownload env (icZipURL c))) (deReply (ceDownload env (icZipURL c)) n)) \<or>
    res = Died Panic \<or> res = Died Range"
proof -
  have st: "exitStatus res = 2" using assms(2) by (simp add: runIndexer_gone)
  show ?thesis
  proof (cases res)
    case (Fails e)
    then have "exitCodeOf e = 2" using st by (simp add: exitStatus_def)
    with Run_fails [of env c d0 e r] assms(1) Fails obtain e' n waits where
      "downloadZip (ceDownload env (icZipURL c)) = (Inl e', n, waits)" "exitCodeOf e' = ExitDownloadNotFound"
      by (auto simp: ExitDownloadNotFound_def)
    with downloadZip_ok [OF this(1)] show ?thesis by (auto simp: outcome_ok_def)
  qed (use st in \<open>auto simp: exitStatus_def split: if_splits\<close>)
qed

text \<open>An environment in which everything succeeds, and one in which the server has no such file.\<close>

definition sampleCmd :: indexCmd where
  "sampleCmd = \<lparr>icRepo = bytes_of ''plugins'', icZipURL = [], icSlug = [0x73]\<rparr>"

definition okEnv :: cmdEnv where
  "okEnv = \<lparr>ceConfig = Inr [0x2F, 0x76], ceEnsure = None, ceLock = None, ceDownload = (\<lambda>_. sampleEnv),
     ceArchive = (\<lambda>_. (Inr [], None)), ceLower = id, ceSys = (\<lambda>_ _. True), ceTree = (\<lambda>_. FDir (Some [])), cePrepared = True,
     ceGrow = id, ceSortTmp = [7], ceCompress = (\<lambda>t. (t, None)), ceOutcomes = (\<lambda>_. CallOk), ceJSON = (\<lambda>_. None)\<rparr>"

definition goneEnv :: cmdEnv where
  "goneEnv = okEnv\<lparr>ceDownload := (\<lambda>_. sampleEnv\<lparr>deReply := (\<lambda>_. Reply 404 [] [] [] None)\<rparr>)\<rparr>"

definition oldDisk :: disk where
  "oldDisk = \<lparr>dkTrees = (\<lambda>p. if p = bytes_of ''/v/plugins/source/s'' then Some FOther else None), dkIndexes = (\<lambda>_. None)\<rparr>"

lemma sample_dest: "destDir [0x2F, 0x76] sampleCmd = bytes_of ''/v/plugins/source/s''"
  by (simp add: destDir_def baseDir_def sampleCmd_def pathJoin_def pathClean_def cleanStep_def dot_def dotdot_def bytes_of_def Let_def)

lemma empty_small: "length (index1_file [bytes_of ''/v/plugins/source/s''] []) < 2 ^ 32"
proof -
  have "all_entries [] = {}" by (simp add: all_entries_def)
  then have "final_lists [] = [(invalidTrigram, [])]" by (simp add: final_lists_def)
  then show ?thesis
    unfolding length_index1_file index1_sections
    by (simp add: length_concat_index1 magicV1_def name_bytes_def bytes_of_def)
      (simp add: postings_bytes_def posting_bytes_def delta_enc_def uvarint_enc.simps)
qed

lemma empty_index:
  "\<exists>ix. IndexDirToFile id True id [7] (stagingDest (bytes_of ''/v/plugins/source/s'')) (FDir (Some [])) (bytes_of ''/v/plugins/source/s'') = Some (Inr ix)"
proof -
  let ?ds = "[bytes_of ''v'', bytes_of ''plugins'', bytes_of ''source'', bytes_of ''s'']"
  let ?cs = "[bytes_of ''v'', bytes_of ''plugins'', bytes_of ''source'', bytes_of ''s.staging'']"
  have p: "rooted_path ?ds = bytes_of ''/v/plugins/source/s''" "rooted_path ?cs = stagingDest (bytes_of ''/v/plugins/source/s'')"
    by (simp_all add: rooted_path_def below_def bytes_of_def stagingDest_def)
  have e: "dirAdds id ?ds (FDir (Some [])) = []" by (simp add: dirAdds_def)
  have pr: "\<forall>c \<in> set (?cs @ ?ds). proper c" "\<not> hiddenElem (last ?cs)"
    by (simp_all add: proper_def bytes_of_def dot_def dotdot_def hiddenElem_def)
  have "\<exists>ix. IndexDirToFile id True id [7] (rooted_path ?cs) (FDir (Some [])) (rooted_path ?ds) = Some (Inr ix) \<and>
      written_file ix = index1_file [rooted_path ?ds] (concat (map accepted (dirAdds id ?ds (FDir (Some [])))))"
    by (rule dir_index_ok [OF pr(1) _ _ pr(2)]) (use empty_small p in \<open>simp_all add: e\<close>)
  then show ?thesis unfolding p by blast
qed

lemma sample_slug_dir: "slugDir [0x2F, 0x76] sampleCmd = bytes_of ''/v/plugins/index/s''"
  by (simp add: slugDir_def baseDir_def sampleCmd_def pathJoin_def pathClean_def cleanStep_def dot_def dotdot_def bytes_of_def Let_def)

lemma okEnv_run: "\<exists>out r. Run okEnv sampleCmd oldDisk = Some (Returns out, r)"
proof -
  obtain ix where ix: "IndexDirToFile id True id [7] (stagingDest (bytes_of ''/v/plugins/source/s'')) (FDir (Some []))
      (bytes_of ''/v/plugins/source/s'') = Some (Inr ix)"
    using empty_index by blast
  show ?thesis
    by (simp add: okEnv_def Run_def sample_download sample_dest sample_slug_dir indexStaged_def buildStaged_def ix Let_def
        UnzipWithStats_def unzipWithFilterAndStats_def removeTree_def mkdirAll_def outcomeOf_def setTree_def setIndex_def
        removeIndex_def swapIn_def renameTree_def renameIndex_def oldDisk_def
        staging_apart staging_apart [symmetric] tmp_final tmp_final [symmetric])
qed

theorem sources_never_lost_witness:
  "\<exists>out r new ix. Run okEnv sampleCmd oldDisk = Some (Returns out, r) \<and>
    built okEnv sampleCmd (bytes_of ''/v/plugins/source/s'') new ix \<and>
    (\<forall>d \<in> insert (rnDisk r) (set (rnPast r)). kept (bytes_of ''/v/plugins/source/s'') FOther new d) \<and>
    installed okEnv sampleCmd (bytes_of ''/v/plugins/source/s'') (slugDir [0x2F, 0x76] sampleCmd) new (rnDisk r)"
proof -
  obtain out r where r: "Run okEnv sampleCmd oldDisk = Some (Returns out, r)" using okEnv_run by blast
  have "has_tree (destDir [0x2F, 0x76] sampleCmd) FOther oldDisk" by (simp add: sample_dest has_tree_def oldDisk_def)
  from sources_never_lost [OF r _ refl this] r show ?thesis by (auto simp: okEnv_def sample_dest)
qed

lemma decimal_404: "decimal 404 = [0x34, 0x30, 0x34]"
  by (simp add: decimal.simps [of 404] decimal.simps [of 40] decimal.simps [of 4])

lemma gone_run: "Run goneEnv sampleCmd oldDisk = Some (Fails (WrapError (bytes_of ''failed to download zip'')
    (ExitError ExitDownloadNotFound (bytes_of ''download unavailable (404)''))), \<lparr>rnDisk = oldDisk, rnPast = []\<rparr>)"
  by (simp add: Run_def goneEnv_def okEnv_def sampleEnv_def downloadZip_def downloadMaxRetries_def upt_rec attemptOnce_def
      isPermanentHTTPFailure_def bytes_of_def Let_def decimal_404)

theorem gone_or_panic_witness:
  "\<exists>res r e n waits. Run goneEnv sampleCmd oldDisk = Some (res, r) \<and> exitStatus res = 2 \<and>
    downloadZip (ceDownload goneEnv []) = (Inl e, n, waits) \<and> 1 \<le> n \<and>
    goneReply (deReopen (ceDownload goneEnv [])) (deReply (ceDownload goneEnv []) n)"
proof -
  have s: "exitStatus (Fails (WrapError (bytes_of ''failed to download zip'')
    (ExitError ExitDownloadNotFound (bytes_of ''download unavailable (404)'')))) = 2"
    by (simp add: exitStatus_def ExitDownloadNotFound_def)
  from gone_or_panic [OF gone_run, OF runIndexer_gone [THEN iffD2, OF s, of "\<lambda>_. None" "[]" "[]" "[]" "[]"]] s gone_run
  show ?thesis by (auto simp: sampleCmd_def)
qed

end
