(* ===== verification/Paging.thy ===== *)
theory Paging
  imports Prelude
begin

text \<open>
  Paging through a list: the calls of a client that follows the hints for the next page.

  The interface \<open>paging\<close> is what a page promises: it holds the \<open>k\<close> items from the position asked for, which the
  server does not let pass \<open>top\<close>, and names the next position while there are items left.  The client that follows
  the hints comes to an end exactly when no items lie behind the page at \<open>top\<close>; it then gets every item, once when
  no position it is sent to passes \<open>top\<close> (\<open>firstPast\<close>, \<open>pagedItems\<close>).
\<close>

text \<open>The pages a client gets that asks for a position and then for the one each page names, to the last.\<close>

inductive follow :: "(int \<Rightarrow> 'r) \<Rightarrow> ('r \<Rightarrow> int option) \<Rightarrow> int \<Rightarrow> 'r list \<Rightarrow> bool" for get hint where
  last_page: "hint (get s) = None \<Longrightarrow> follow get hint s [get s]"
| next_page: "hint (get s) = Some s' \<Longrightarrow> follow get hint s' rs \<Longrightarrow> follow get hint s (get s # rs)"

inductive_cases followE: "follow get hint s rs"

lemma follow_unique: "follow get hint s rs \<Longrightarrow> follow get hint s rs' \<Longrightarrow> rs = rs'"
proof (induction arbitrary: rs' rule: follow.induct)
  case (last_page s)
  from last_page.prems last_page.hyps show ?case by (auto elim: followE)
next
  case (next_page s s' rs)
  from next_page.prems next_page.hyps(1) next_page.IH show ?case by (auto elim: followE)
qed

text \<open>
  The first position behind \<open>top\<close> that a client that begins at the first item and gets \<open>k\<close> items a call is sent to,
  and the items it is shown in all: those before this position, and those of the page at \<open>top\<close>, to which it is
  brought back there.
\<close>

definition firstPast :: "nat \<Rightarrow> nat \<Rightarrow> nat" where
  "firstPast k mx = k * (mx div k + 1)"

definition pagedItems :: "nat \<Rightarrow> nat \<Rightarrow> 'a list \<Rightarrow> 'a list" where
  "pagedItems k mx xs = (if length xs \<le> firstPast k mx then xs else take (firstPast k mx) xs @ drop mx xs)"

lemma firstPast_bounds:
  assumes "0 < k"
  shows "mx < firstPast k mx" "firstPast k mx \<le> mx + k"
  using dividend_less_times_div [OF assms, of mx] times_div_less_eq_dividend [of k mx] by (simp_all add: firstPast_def)

lemma firstPast_step:
  assumes "0 < k" "k dvd a" "a \<le> mx"
  shows "a + k \<le> firstPast k mx" "mx < a + k \<Longrightarrow> a + k = firstPast k mx"
proof -
  obtain q where q: "a = k * q" using assms(2) by blast
  then have "q \<le> mx div k" using assms(1,3) by (simp add: less_eq_div_iff_mult_less_eq mult.commute)
  then have "k * (q + 1) \<le> k * (mx div k + 1)" by (intro mult_le_mono2) simp
  then show le: "a + k \<le> firstPast k mx" by (simp add: q firstPast_def)
  show "a + k = firstPast k mx" if "mx < a + k"
  proof -
    have "mx < k * (q + 1)" using that by (simp add: q)
    then have "mx div k < q + 1" using assms(1) by (simp add: div_less_iff_less_mult mult.commute)
    with \<open>q \<le> mx div k\<close> have "mx div k = q" by simp
    then show ?thesis by (simp add: q firstPast_def)
  qed
qed

text \<open>Nothing is shown twice if no position passes \<open>mx\<close>, or if \<open>mx\<close> is one of the positions.\<close>

lemma pagedItems_once:
  assumes "0 < k" "length xs \<le> mx + 1 \<or> k dvd mx \<and> length xs \<le> mx + k"
  shows "pagedItems k mx xs = xs"
proof -
  have "k dvd mx \<Longrightarrow> firstPast k mx = mx + k" by (auto simp: firstPast_def)
  then have "length xs \<le> firstPast k mx" using assms(2) firstPast_bounds(1) [OF assms(1), of mx] by auto
  then show ?thesis by (simp add: pagedItems_def)
qed

text \<open>Everything is shown.\<close>

lemma pagedItems_set:
  assumes "0 < k"
  shows "set (pagedItems k mx xs) = set xs"
proof -
  let ?m = "firstPast k mx"
  have "set (take ?m xs) \<union> set (drop ?m xs) = set xs"
    by (metis append_take_drop_id set_append)
  moreover have "set (drop ?m xs) \<subseteq> set (drop mx xs)" "set (drop mx xs) \<subseteq> set xs"
    using firstPast_bounds(1) [OF assms, of mx] by (auto intro!: set_drop_subset_set_drop dest: in_set_dropD)
  ultimately show ?thesis unfolding pagedItems_def by auto
qed

locale paging =
  fixes get :: "int \<Rightarrow> 'r" and hint :: "'r \<Rightarrow> int option" and items_of :: "'r \<Rightarrow> 'a list"
    and items :: "'a list" and k :: nat and top :: nat and base :: int
  assumes page_size: "0 < k"
    and page_items: "base \<le> s \<Longrightarrow> items_of (get s) = take k (drop (min (nat (s - base)) top) items)"
    and page_next: "base \<le> s \<Longrightarrow> hint (get s) =
      (if min (nat (s - base)) top + k < length items then Some (base + int (min (nat (s - base)) top + k)) else None)"
begin

lemma at: "items_of (get (base + int n)) = take k (drop (min n top) items)"
  "hint (get (base + int n)) = (if min n top + k < length items then Some (base + int (min n top + k)) else None)"
  using page_items [of "base + int n"] page_next [of "base + int n"] by simp_all

lemma follow_from:
  assumes "length items \<le> top + k" "k dvd a" "a = 0 \<or> a < length items" "a \<le> top \<or> a = firstPast k top"
  shows "\<exists>rs. follow get hint (base + int a) rs \<and>
    concat (map items_of rs) = (if length items \<le> firstPast k top then drop a items
      else drop a (take (firstPast k top) items) @ drop top items)"
  using assms(2-4)
proof (induction "length items - a" arbitrary: a rule: less_induct)
  case less
  let ?m = "firstPast k top"
  note m = firstPast_bounds [OF page_size, of top]
  consider (past) "a = ?m" | (more) "a \<le> top" "a + k < length items" | (last) "a \<le> top" "length items \<le> a + k"
    using less.prems(3) by linarith
  then show ?case
  proof cases
    case past
    then have n: "min a top = top" "?m < length items" using m less.prems(2) by auto
    have "follow get hint (base + int a) [get (base + int a)]"
      by (rule last_page) (use at(2) [of a] n assms(1) in simp)
    then show ?thesis using at(1) [of a] n past assms(1) by (intro exI [of _ "[get (base + int a)]"]) simp
  next
    case more
    have k: "k dvd a + k" using less.prems(1) by simp
    have to: "a + k \<le> ?m" "a + k \<le> top \<or> a + k = ?m"
      using firstPast_step [OF page_size less.prems(1) more(1)] by (simp, linarith)
    have "length items - (a + k) < length items - a" using more(2) page_size by simp
    from less.hyps [OF this k] more(2) to(2) obtain rs where rs: "follow get hint (base + int (a + k)) rs"
      "concat (map items_of rs) = (if length items \<le> ?m then drop (a + k) items
        else drop (a + k) (take ?m items) @ drop top items)" by auto
    have "follow get hint (base + int a) (get (base + int a) # rs)"
      by (rule next_page [OF _ rs(1)]) (use at(2) [of a] more in simp)
    moreover have split: "take k (drop a xs) @ drop (a + k) xs = drop a xs" for xs :: "'a list"
      by (metis add.commute append_take_drop_id drop_drop)
    have "take k (drop a (take ?m items)) = take k (drop a items)" using to(1) by (simp add: drop_take min_def)
    with split [of "take ?m items"] have "take k (drop a items) @ drop (a + k) (take ?m items) @ ys =
        drop a (take ?m items) @ ys" for ys by (metis append_assoc)
    ultimately show ?thesis using at(1) [of a] more(1) rs(2) split [of items]
      by (intro exI [of _ "get (base + int a) # rs"]) simp
  next
    case last
    have "length items \<le> ?m" using firstPast_step [OF page_size less.prems(1) last(1)] last(2) by simp
    moreover have "follow get hint (base + int a) [get (base + int a)]"
      by (rule last_page) (use at(2) [of a] last in simp)
    ultimately show ?thesis using at(1) [of a] last by (intro exI [of _ "[get (base + int a)]"]) simp
  qed
qed

lemma follow_every:
  assumes "length items \<le> top + k"
  shows "\<exists>rs. (\<forall>rs'. follow get hint base rs' \<longleftrightarrow> rs' = rs) \<and> concat (map items_of rs) = pagedItems k top items"
proof -
  obtain rs where rs: "follow get hint base rs" "concat (map items_of rs) = pagedItems k top items"
    using follow_from [OF assms, of 0] by (auto simp: pagedItems_def)
  then show ?thesis using follow_unique by metis
qed

lemma follow_endless:
  assumes "top + k < length items"
  shows "\<not> follow get hint base rs"
proof
  have "\<not> base \<le> s" if "follow get hint s rs" for s rs
    using that
  proof (induction rule: follow.induct)
    case (last_page s)
    then show ?case using page_next [of s] assms by (auto split: if_splits)
  next
    case (next_page s s' rs)
    then show ?case using page_next [of s] by (auto split: if_splits)
  qed
  moreover assume "follow get hint base rs"
  ultimately show False by blast
qed

text \<open>The client comes to an end exactly when nothing lies behind the page at \<open>top\<close>.\<close>

lemma follow_exact:
  "(length items \<le> top + k \<longrightarrow> (\<exists>rs. (\<forall>rs'. follow get hint base rs' \<longleftrightarrow> rs' = rs) \<and>
      concat (map items_of rs) = pagedItems k top items \<and>
      (length items \<le> top + 1 \<or> k dvd top \<longrightarrow> concat (map items_of rs) = items))) \<and>
    (top + k < length items \<longrightarrow> (\<forall>rs. \<not> follow get hint base rs))"
proof (intro conjI impI)
  assume le: "length items \<le> top + k"
  then have "length items \<le> top + 1 \<or> k dvd top \<Longrightarrow> pagedItems k top items = items"
    using pagedItems_once [OF page_size] by blast
  with follow_every [OF le] show "\<exists>rs. (\<forall>rs'. follow get hint base rs' \<longleftrightarrow> rs' = rs) \<and>
      concat (map items_of rs) = pagedItems k top items \<and>
      (length items \<le> top + 1 \<or> k dvd top \<longrightarrow> concat (map items_of rs) = items)" by auto
qed (simp add: follow_endless)

end

end
