(* ===== verification/Source_View.thy ===== *)
theory Source_View
  imports Paging Dir_Index Manager
begin

text \<open>
  The source files of an extension as the tools see them: \<open>SafeJoin\<close> of \<open>internal/web/helpers.go\<close> and \<open>ListFiles\<close>,
  \<open>ReadFile\<close> and \<open>GrepFile\<close> of \<open>internal/mcp/service.go\<close>, with the handlers of \<open>internal/mcp/tools.go\<close> and the
  text of \<open>internal/mcp/format.go\<close>.

  A file is what opening and reading it give, as for the search of an index; the tree below a directory is what \<open>WalkDir\<close>
  finds there.  Which paths \<open>os.Stat\<close> knows and what a glob matches are arguments; the regular expression is the one of
  \<open>golib\<close>.  The telemetry of the handlers is left out.
\<close>

section \<open>Joining a path\<close>

definition SafeJoin :: "gostr \<Rightarrow> gostr \<Rightarrow> gostr option" where
  "SafeJoin baseDir rel =
     (let clean = pathClean rel in
      if clean = dot \<or> clean = dotdot \<or> isRooted clean then None
      else let full = pathJoin [baseDir, clean] in
        case pathRel baseDir full of
          None \<Rightarrow> None
        | Some relPath \<Rightarrow> if take 2 relPath = dotdot then None else Some full)"

section \<open>Requests\<close>

definition maxContext :: int where "maxContext = 5"
definition maxReadLines :: int where "maxReadLines = 500"
definition maxGrepMatches :: nat where "maxGrepMatches = 1000"

datatype viewErr =
    VMissing | VRepoChoice
  | VUnknownRepo gostr | VNotIndexed gostr | VInvalidPath | VFileNotFound gostr
  | VRead goerr | VList goerr | VRegex goerr | VGrep goerr

definition isValidRepo :: "gostr \<Rightarrow> bool" where
  "isValidRepo repo \<longleftrightarrow> repo \<in> {bytes_of ''plugins'', bytes_of ''themes'', bytes_of ''cores''}"

definition clampInt :: "int \<Rightarrow> int \<Rightarrow> int \<Rightarrow> int" where
  "clampInt v lo hi = (if v < lo then lo else if v > hi then hi else v)"

text \<open>The directory of the sources of one extension.\<close>

definition slugDirOf :: "gostr \<Rightarrow> gostr \<Rightarrow> 'db mgr \<Rightarrow> viewErr + gostr" where
  "slugDirOf repoType slug m = (case mgResolveSourceDir repoType slug m of
       Inl err \<Rightarrow> Inl (VNotIndexed slug)
     | Inr sourceDir \<Rightarrow> Inr (pathJoin [sourceDir, slug]))"

section \<open>Reading a file\<close>

text \<open>The lines of a \<open>bufio.Scanner\<close> whose buffer holds \<open>lim\<close> bytes.\<close>

definition linesOf :: "byte list \<Rightarrow> gostr list" where
  "linesOf b = map dropCR (if last (segs b) = [] then butlast (segs b) else segs b)"

definition scanAll :: "nat \<Rightarrow> byte list \<Rightarrow> goerr + gostr list" where
  "scanAll lim b = (if \<exists>l \<in> set (segs b). lim \<le> length l then Inl ''bufio.Scanner: token too long'' else Inr (linesOf b))"

definition fileLines :: "fs \<Rightarrow> gostr \<Rightarrow> goerr + gostr list" where
  "fileLines fs path = rbind (openSourceReader fs path) (\<lambda>r. rbind r (scanAll (1024 * 1024)))"

fun rangeLoop :: "int \<Rightarrow> int \<Rightarrow> nat \<Rightarrow> gostr list \<Rightarrow> gostr list \<Rightarrow> gostr list \<times> nat" where
  "rangeLoop startLine endLine n acc [] = (acc, n)"
| "rangeLoop startLine endLine n acc (l # ls) =
     rangeLoop startLine endLine (n + 1)
       (if startLine \<le> int (n + 1) \<and> int (n + 1) < endLine then acc @ [l] else acc) ls"

definition linesFrom :: "int \<Rightarrow> int \<Rightarrow> gostr list \<Rightarrow> gostr list \<times> nat" where
  "linesFrom startLine maxLines ls =
     (let maxLines = (if maxLines \<le> 0 \<or> maxLines > maxReadLines then maxReadLines else maxLines);
          startLine = (if startLine < 1 then 1 else startLine)
      in rangeLoop startLine (wrap64 (startLine + maxLines)) 0 [] ls)"

definition readFileRange :: "fs \<Rightarrow> gostr \<Rightarrow> int \<Rightarrow> int \<Rightarrow> goerr + (gostr list \<times> nat)" where
  "readFileRange fs path startLine maxLines = rbind (fileLines fs path) (\<lambda>ls. Inr (linesFrom startLine maxLines ls))"

text \<open>\<open>%d\<close> of an \<open>int\<close>, and \<open>%*d\<close>.\<close>

definition decInt :: "int \<Rightarrow> gostr" where
  "decInt i = (if i < 0 then 45 # decimal (nat (- i)) else decimal (nat i))"

definition padLeft :: "nat \<Rightarrow> gostr \<Rightarrow> gostr" where
  "padLeft w s = replicate (w - length s) 32 @ s"

fun numbered :: "nat \<Rightarrow> int \<Rightarrow> gostr list \<Rightarrow> gostr" where
  "numbered w n [] = []"
| "numbered w n (l # ls) = padLeft w (decInt n) @ [32, 32] @ l @ [10] @ numbered w (n + 1) ls"

definition formatNumberedLines :: "gostr list \<Rightarrow> int \<Rightarrow> gostr" where
  "formatNumberedLines ls startLine =
     (if ls = [] then []
      else let maxNum = startLine + int (length ls) - 1; width = length (decInt maxNum) in numbered width startLine ls)"

record readResponse =
  rrSlug :: gostr
  rrRepo :: gostr
  rrPath :: gostr
  rrTotalLines :: nat
  rrStartLine :: int
  rrEndLine :: int
  rrContent :: gostr

text \<open>The path that is opened.\<close>

definition actualPath :: "(gostr \<Rightarrow> bool) \<Rightarrow> gostr \<Rightarrow> gostr \<Rightarrow> viewErr + gostr" where
  "actualPath stat slugDir filePath = (case SafeJoin slugDir filePath of
       None \<Rightarrow> Inl VInvalidPath
     | Some fullPath \<Rightarrow>
         if stat (fullPath @ bytes_of ''.gz'') then Inr (fullPath @ bytes_of ''.gz'')
         else if stat fullPath then Inr fullPath
         else Inl (VFileNotFound filePath))"

definition readPage :: "gostr \<Rightarrow> gostr \<Rightarrow> gostr \<Rightarrow> int \<Rightarrow> gostr list \<times> nat \<Rightarrow> readResponse" where
  "readPage repoType slug filePath startLine = (\<lambda>(ls, totalLines).
     let endLine = (if ls = [] then startLine else startLine + int (length ls) - 1) in
     \<lparr>rrSlug = slug, rrRepo = repoType, rrPath = filePath, rrTotalLines = totalLines,
       rrStartLine = startLine, rrEndLine = endLine, rrContent = formatNumberedLines ls startLine\<rparr>)"

definition ReadFile :: "fs \<Rightarrow> (gostr \<Rightarrow> bool) \<Rightarrow> gostr \<Rightarrow> gostr \<Rightarrow> gostr \<Rightarrow> int \<Rightarrow> int \<Rightarrow> 'db mgr \<Rightarrow> viewErr + readResponse" where
  "ReadFile fs stat repoType slug filePath startLine maxLines m =
     (if \<not> isValidRepo repoType then Inl (VUnknownRepo repoType)
      else rbind (slugDirOf repoType slug m) (\<lambda>slugDir.
        rbind (actualPath stat slugDir filePath) (\<lambda>path.
          case readFileRange fs path startLine maxLines of
            Inl err \<Rightarrow> Inl (VRead err)
          | Inr r \<Rightarrow> Inr (readPage repoType slug filePath startLine r))))"

text \<open>The arguments of a call: a missing text is empty, a missing number is \<open>None\<close>.\<close>

record readArgs =
  raRepo :: gostr
  raSlug :: gostr
  raPath :: gostr
  raStart :: "int option"
  raMax :: "int option"

definition readFileTool :: "fs \<Rightarrow> (gostr \<Rightarrow> bool) \<Rightarrow> readArgs \<Rightarrow> 'db mgr \<Rightarrow> viewErr + readResponse" where
  "readFileTool fs stat a m =
     (if raRepo a = [] \<or> raSlug a = [] \<or> raPath a = [] then Inl VMissing
      else let startLine = clampInt (case raStart a of None \<Rightarrow> 1 | Some v \<Rightarrow> v) 1 (maxReadLines * 1000);
               maxLines = clampInt (case raMax a of None \<Rightarrow> maxReadLines | Some v \<Rightarrow> v) 1 maxReadLines
           in ReadFile fs stat (raRepo a) (raSlug a) (raPath a) startLine maxLines m)"

text \<open>The next line a response names, and its text.\<close>

definition moreLines :: "readResponse \<Rightarrow> int option" where
  "moreLines r = (if rrEndLine r < int (rrTotalLines r) then Some (rrEndLine r + 1) else None)"

definition emDash :: gostr where "emDash = [0xE2, 0x80, 0x94]"
definition enDash :: gostr where "enDash = [0xE2, 0x80, 0x93]"

definition FormatReadFile :: "readResponse \<Rightarrow> gostr" where
  "FormatReadFile r =
     rrRepo r @ bytes_of ''/'' @ rrSlug r @ [32] @ emDash @ [32] @ rrPath r @ bytes_of '' ('' @ decimal (rrTotalLines r) @
       bytes_of '' lines total)'' @ [10] @
     (if rrTotalLines r > 0 then bytes_of ''Showing lines '' @ decInt (rrStartLine r) @ enDash @ decInt (rrEndLine r) @ [10]
      else []) @
     [10] @ rrContent r @
     (case moreLines r of None \<Rightarrow> []
      | Some n \<Rightarrow> [10] @ bytes_of ''More lines available. Use start_line='' @ decInt n @ bytes_of '' to continue reading.'')"

section \<open>Walking the tree\<close>

text \<open>A file has what \<open>Info\<close> says of its size, a directory its entries by name.\<close>

datatype dnode = DFile "goerr + int" | DDir "goerr + (gostr \<times> dnode) list"

datatype visited = AtDir gostr | AtFile gostr "goerr + int" | AtError gostr goerr

function walkDir :: "gostr \<Rightarrow> dnode \<Rightarrow> visited list" and walkEntries :: "gostr \<Rightarrow> (gostr \<times> dnode) list \<Rightarrow> visited list" where
  "walkDir path (DFile info) = [AtFile path info]"
| "walkDir path (DDir r) = AtDir path # (case r of Inl err \<Rightarrow> [AtError path err] | Inr es \<Rightarrow> walkEntries path es)"
| "walkEntries path [] = []"
| "walkEntries path (e # es) = walkDir (pathJoin [path, fst e]) (snd e) @ walkEntries path es"
  by pat_completeness auto
termination
  by (relation "measure (case_sum (\<lambda>(p, n). size n) (\<lambda>(p, es). size_list (size_prod (\<lambda>_. 0) size) es))") (simp_all add: size_entry)

definition walkRoot :: "gostr \<Rightarrow> goerr + dnode \<Rightarrow> visited list" where
  "walkRoot root tree = (case tree of Inl err \<Rightarrow> [AtError root err] | Inr n \<Rightarrow> walkDir root n)"

definition trimSuffix :: "gostr \<Rightarrow> gostr \<Rightarrow> gostr" where
  "trimSuffix suf s = (if length suf \<le> length s \<and> drop (length s - length suf) s = suf then take (length s - length suf) s else s)"

text \<open>\<open>filepath.Base\<close>.\<close>

definition pathBase :: "gostr \<Rightarrow> gostr" where
  "pathBase p = (if p = [] then dot
     else let q = rev (dropWhile (\<lambda>c. c = 47) (rev p)) in if q = [] then [47] else pathElem q)"

type_synonym glob = "gostr \<Rightarrow> gostr \<Rightarrow> goerr + bool"

definition nameMatches :: "glob \<Rightarrow> gostr \<Rightarrow> gostr \<Rightarrow> goerr + bool" where
  "nameMatches glob pat relPath = (if pat = [] then Inr True else glob pat (pathBase relPath))"

section \<open>Listing\<close>

definition listFile :: "glob \<Rightarrow> gostr \<Rightarrow> gostr \<Rightarrow> visited \<Rightarrow> (gostr \<times> int) list \<Rightarrow> goerr + (gostr \<times> int) list" where
  "listFile glob slugDir pat v files = (case v of
       AtError _ err \<Rightarrow> Inl err
     | AtDir _ \<Rightarrow> Inr files
     | AtFile path info \<Rightarrow> (case pathRel slugDir path of
           None \<Rightarrow> Inl ''Rel: can't make path relative''
         | Some rel \<Rightarrow> let relPath = trimSuffix (bytes_of ''.gz'') rel in
             rbind (nameMatches glob pat relPath) (\<lambda>matched.
               if \<not> matched then Inr files
               else rbind info (\<lambda>size. Inr (files @ [(relPath, size)])))))"

record listResponse =
  lrSlug :: gostr
  lrRepo :: gostr
  lrTotal :: nat
  lrFiles :: "(gostr \<times> int) list"

definition ListFiles :: "glob \<Rightarrow> (gostr \<Rightarrow> goerr + dnode) \<Rightarrow> gostr \<Rightarrow> gostr \<Rightarrow> gostr \<Rightarrow> 'db mgr \<Rightarrow> viewErr + listResponse" where
  "ListFiles glob tree repoType slug pat m =
     (if \<not> isValidRepo repoType then Inl (VUnknownRepo repoType)
      else rbind (slugDirOf repoType slug m) (\<lambda>slugDir.
        case rfold (listFile glob slugDir pat) (walkRoot slugDir (tree slugDir)) [] of
          Inl err \<Rightarrow> Inl (VList err)
        | Inr files \<Rightarrow> Inr \<lparr>lrSlug = slug, lrRepo = repoType, lrTotal = length files, lrFiles = files\<rparr>))"

definition listFilesTool :: "glob \<Rightarrow> (gostr \<Rightarrow> goerr + dnode) \<Rightarrow> gostr \<Rightarrow> gostr \<Rightarrow> gostr \<Rightarrow> 'db mgr \<Rightarrow> viewErr + listResponse" where
  "listFilesTool glob tree repo slug pat m =
     (if repo = [] \<or> slug = [] then Inl VMissing else ListFiles glob tree repo slug pat m)"

section \<open>Searching the files\<close>

record lineMatch =
  lmLine :: nat
  lmContent :: gostr
  lmBefore :: "gostr list"
  lmAfter :: "gostr list"

definition slice :: "nat \<Rightarrow> nat \<Rightarrow> 'a list \<Rightarrow> 'a list" where
  "slice i j xs = take (j - i) (drop i xs)"

definition lineAt :: "int \<Rightarrow> gostr list \<Rightarrow> nat \<Rightarrow> gostr \<Rightarrow> lineMatch" where
  "lineAt contextLines allLines i line =
     (let m = \<lparr>lmLine = i + 1, lmContent = line, lmBefore = [], lmAfter = []\<rparr> in
      if contextLines > 0 then
        let start = nat (max (int i - contextLines) 0);
            m1 = (if start < i then m\<lparr>lmBefore := slice start i allLines\<rparr> else m);
            end1 = min (i + 1 + nat contextLines) (length allLines)
        in if i + 1 < end1 then m1\<lparr>lmAfter := slice (i + 1) end1 allLines\<rparr> else m1
      else m)"

fun lineLoop :: "(gostr \<Rightarrow> bool) \<Rightarrow> int \<Rightarrow> gostr list \<Rightarrow> nat \<Rightarrow> gostr list \<Rightarrow> lineMatch list" where
  "lineLoop re contextLines allLines i [] = []"
| "lineLoop re contextLines allLines i (line # ls) =
     (if \<not> re line then lineLoop re contextLines allLines (i + 1) ls
      else lineAt contextLines allLines i line # lineLoop re contextLines allLines (i + 1) ls)"

definition grepSingleFile :: "fs \<Rightarrow> gostr \<Rightarrow> (gostr \<Rightarrow> bool) \<Rightarrow> int \<Rightarrow> goerr + lineMatch list" where
  "grepSingleFile fs path re contextLines =
     rbind (fileLines fs path) (\<lambda>allLines. Inr (lineLoop re contextLines allLines 0 allLines))"

record grepParams =
  gpRepo :: gostr
  gpSlug :: gostr
  gpQuery :: gostr
  gpFileMatch :: gostr
  gpCaseSensitive :: bool
  gpContextLines :: int

record grepResponse =
  grSlug :: gostr
  grRepo :: gostr
  grQuery :: gostr
  grTotalMatches :: nat
  grFiles :: "(gostr \<times> lineMatch list) list"

text \<open>The walk, which ends at the first file it meets with \<open>maxGrepMatches\<close> matches.\<close>

fun grepWalk :: "glob \<Rightarrow> fs \<Rightarrow> gostr \<Rightarrow> gostr \<Rightarrow> (gostr \<Rightarrow> bool) \<Rightarrow> int \<Rightarrow> visited list \<Rightarrow> grepResponse \<Rightarrow> goerr + grepResponse" where
  "grepWalk glob fs slugDir pat re contextLines [] resp = Inr resp"
| "grepWalk glob fs slugDir pat re contextLines (AtError _ err # vs) resp = Inl err"
| "grepWalk glob fs slugDir pat re contextLines (AtDir _ # vs) resp = grepWalk glob fs slugDir pat re contextLines vs resp"
| "grepWalk glob fs slugDir pat re contextLines (AtFile path info # vs) resp =
     (if grTotalMatches resp \<ge> maxGrepMatches then Inr resp
      else let relPath = trimSuffix (bytes_of ''.gz'') (case pathRel slugDir path of None \<Rightarrow> [] | Some rel \<Rightarrow> rel) in
        rbind (nameMatches glob pat relPath) (\<lambda>matched.
          if \<not> matched then grepWalk glob fs slugDir pat re contextLines vs resp
          else case grepSingleFile fs path re contextLines of
              Inl err \<Rightarrow> grepWalk glob fs slugDir pat re contextLines vs resp
            | Inr ms \<Rightarrow>
                if ms = [] then grepWalk glob fs slugDir pat re contextLines vs resp
                else let remaining = maxGrepMatches - grTotalMatches resp;
                         ms = (if length ms > remaining then take remaining ms else ms)
                     in grepWalk glob fs slugDir pat re contextLines vs
                       (resp\<lparr>grFiles := grFiles resp @ [(relPath, ms)], grTotalMatches := grTotalMatches resp + length ms\<rparr>)))"

definition GrepFile :: "golib \<Rightarrow> glob \<Rightarrow> fs \<Rightarrow> (gostr \<Rightarrow> goerr + dnode) \<Rightarrow> grepParams \<Rightarrow> 'db mgr \<Rightarrow> viewErr + grepResponse" where
  "GrepFile lib glob fs tree params m =
     (if \<not> isValidRepo (gpRepo params) then Inl (VUnknownRepo (gpRepo params))
      else rbind (slugDirOf (gpRepo params) (gpSlug params) m) (\<lambda>slugDir.
        let pat = (if gpCaseSensitive params then gpQuery params else bytes_of ''(?i)'' @ gpQuery params) in
        case libMatch lib pat of
          Inl err \<Rightarrow> Inl (VRegex err)
        | Inr re \<Rightarrow>
            let contextLines = clampInt (gpContextLines params) 0 maxContext;
                resp = \<lparr>grSlug = gpSlug params, grRepo = gpRepo params, grQuery = gpQuery params, grTotalMatches = 0, grFiles = []\<rparr>
            in case grepWalk glob fs slugDir (gpFileMatch params) re contextLines (walkRoot slugDir (tree slugDir)) resp of
                 Inl err \<Rightarrow> Inl (VGrep err)
               | Inr resp \<Rightarrow> Inr resp))"

definition handleGrepFile :: "golib \<Rightarrow> glob \<Rightarrow> fs \<Rightarrow> (gostr \<Rightarrow> goerr + dnode) \<Rightarrow> gostr \<Rightarrow> gostr \<Rightarrow> gostr \<Rightarrow> gostr \<Rightarrow> bool option \<Rightarrow>
    int option \<Rightarrow> 'db mgr \<Rightarrow> viewErr + grepResponse" where
  "handleGrepFile lib glob fs tree repo slug qry fileMatch caseSensitive contextLines m =
     (if repo = [] \<or> slug = [] \<or> qry = [] then Inl VMissing
      else if \<not> isValidRepo repo then Inl VRepoChoice
      else GrepFile lib glob fs tree
        \<lparr>gpRepo = repo, gpSlug = slug, gpQuery = qry, gpFileMatch = fileMatch,
          gpCaseSensitive = (case caseSensitive of None \<Rightarrow> False | Some b \<Rightarrow> b),
          gpContextLines = clampInt (case contextLines of None \<Rightarrow> 0 | Some v \<Rightarrow> v) 0 maxContext\<rparr> m)"

text \<open>The text of a response; \<open>quote\<close> is what \<open>%q\<close> writes.\<close>

definition contextText :: "gostr list \<Rightarrow> gostr" where
  "contextText ls = concat (map (\<lambda>l. bytes_of ''  | '' @ l @ [10]) ls)"

definition lineText :: "lineMatch \<Rightarrow> gostr" where
  "lineText lm = contextText (lmBefore lm) @ bytes_of ''  > '' @ decimal (lmLine lm) @ bytes_of '': '' @ lmContent lm @ [10] @
     contextText (lmAfter lm) @ [10]"

definition FormatGrepFile :: "(gostr \<Rightarrow> gostr) \<Rightarrow> grepResponse \<Rightarrow> gostr" where
  "FormatGrepFile quote r =
     (let header = grRepo r @ bytes_of ''/'' @ grSlug r @ [32] @ emDash @ bytes_of '' grep '' @ quote (grQuery r) @ [10] @
            decimal (grTotalMatches r) @ bytes_of '' matches across '' @ decimal (length (grFiles r)) @ bytes_of '' files'' @ [10]
      in if grFiles r = [] then header
         else header @ [10] @
           concat (map (\<lambda>(path, ms). emDash @ [32] @ path @ bytes_of '' ('' @ decimal (length ms) @ bytes_of '' matches)'' @ [10] @
             concat (map lineText ms)) (grFiles r)) @
           (if grTotalMatches r \<ge> maxGrepMatches
            then bytes_of ''Results capped at 1,000 matches. Narrow your search with file_match or a more specific query.'' @ [10]
            else []))"

end
