(* ===== verification/Search_Record.thy ===== *)
theory Search_Record
  imports Source_View
begin

text \<open>
  Searches of the tools and their stored results: \<open>internal/search/model/codec.go\<close>, and \<open>Search\<close>, \<open>persistSearch\<close>,
  \<open>LoadSearch\<close> and \<open>convertManagerResponse\<close> of \<open>internal/mcp/service.go\<close> with the handler of \<open>search_code\<close> and the text of
  its answers.

  The table of searches and the stored objects are maps by the identifier of the search; what their calls answer is an
  argument, as are the parsing of an identifier, \<open>html.UnescapeString\<close> and the result of the manager.  The encoding of a
  message gives back the message, as its library documents for texts in UTF-8.
\<close>

section \<open>Texts of a message\<close>

text \<open>The width \<open>utf8.DecodeRune\<close> returns: 1 for a byte that does not begin a rune.\<close>

definition contByte :: "byte \<Rightarrow> bool" where
  "contByte c \<longleftrightarrow> 0x80 \<le> c \<and> c \<le> 0xBF"

definition byteAt :: "gostr \<Rightarrow> nat \<Rightarrow> byte" where
  "byteAt s i = (if i < length s then s ! i else 0)"

definition runeWidth :: "byte \<Rightarrow> byte \<Rightarrow> byte \<Rightarrow> byte \<Rightarrow> nat" where
  "runeWidth c d e f =
     (if 0xC2 \<le> c \<and> c \<le> 0xDF \<and> contByte d then 2
      else if 0xE0 \<le> c \<and> c \<le> 0xEF \<and> (if c = 0xE0 then 0xA0 else 0x80) \<le> d \<and> d \<le> (if c = 0xED then 0x9F else 0xBF) \<and> contByte e then 3
      else if 0xF0 \<le> c \<and> c \<le> 0xF4 \<and> (if c = 0xF0 then 0x90 else 0x80) \<le> d \<and> d \<le> (if c = 0xF4 then 0x8F else 0xBF) \<and>
        contByte e \<and> contByte f then 4
      else 1)"

definition decodeWidth :: "gostr \<Rightarrow> nat" where
  "decodeWidth s = (if s = [] then 0 else runeWidth (byteAt s 0) (byteAt s 1) (byteAt s 2) (byteAt s 3))"

lemma decodeWidth_pos: "0 < decodeWidth (c # s)"
  by (simp add: decodeWidth_def runeWidth_def)

definition replacement :: gostr where "replacement = [0xEF, 0xBF, 0xBD]"

text \<open>\<open>strings.ToValidUTF8\<close>: a run of bytes outside runes becomes one replacement.\<close>

function toValid :: "bool \<Rightarrow> gostr \<Rightarrow> gostr" where
  "toValid bad [] = []"
| "toValid bad (c # s) =
     (if c < 0x80 then c # toValid False s
      else let w = decodeWidth (c # s) in
        if w = 1 then (if bad then toValid True s else replacement @ toValid True s)
        else take w (c # s) @ toValid False (drop w (c # s)))"
  by pat_completeness auto
termination
  by (relation "measure (length \<circ> snd)") (use decodeWidth_pos in \<open>auto simp: Suc_diff_le\<close>)

definition validText :: "gostr \<Rightarrow> gostr" where "validText s = toValid False s"

section \<open>Messages\<close>

record pxMatch =
  pxLine :: gostr
  pxLineNumber :: u32
  pxBefore :: "gostr list"
  pxAfter :: "gostr list"

record pxFile =
  pxFilename :: gostr
  pxMatches :: "pxMatch list"

record pxResult =
  pxSlug :: gostr
  pxName :: gostr
  pxVersion :: gostr
  pxActiveInstalls :: int
  pxDownloaded :: int
  pxTotalMatches :: u32
  pxFiles :: "pxFile list"

record pxResponse =
  pxResults :: "pxResult list"
  pxTotal :: u32

definition int32 :: "int \<Rightarrow> u32" where "int32 x = of_int (min x (2 ^ 31 - 1))"

definition matchToProto :: "match \<Rightarrow> pxMatch" where
  "matchToProto m = \<lparr>pxLine = validText (mLine m), pxLineNumber = int32 (int (mLineNumber m)),
     pxBefore = map validText (mBefore m), pxAfter = map validText (mAfter m)\<rparr>"

definition fileMatchToProto :: "fileMatch \<Rightarrow> pxFile" where
  "fileMatchToProto f = \<lparr>pxFilename = validText (fmFilename f), pxMatches = map matchToProto (fmMatches f)\<rparr>"

definition searchResultToProto :: "mgResult \<Rightarrow> pxResult" where
  "searchResultToProto r = \<lparr>pxSlug = validText (mrSlug r), pxName = validText (mrName r), pxVersion = validText (mrVersion r),
     pxActiveInstalls = mrInstalls r, pxDownloaded = mrDownloaded r, pxTotalMatches = int32 (int (mrTotalMatches r)),
     pxFiles = map fileMatchToProto (mrMatches r)\<rparr>"

definition SearchResponseToProto :: "mgResponse \<Rightarrow> pxResponse" where
  "SearchResponseToProto r = \<lparr>pxResults = map searchResultToProto (mpResults r), pxTotal = int32 (mpTotal r)\<rparr>"

text \<open>The numbers of a stored message are never negative, since none is written so.\<close>

definition matchFromProto :: "pxMatch \<Rightarrow> match" where
  "matchFromProto m = \<lparr>mLine = pxLine m, mLineNumber = nat (sint (pxLineNumber m)), mBefore = pxBefore m, mAfter = pxAfter m\<rparr>"

definition fileMatchFromProto :: "pxFile \<Rightarrow> fileMatch" where
  "fileMatchFromProto f = \<lparr>fmFilename = pxFilename f, fmMatches = map matchFromProto (pxMatches f)\<rparr>"

definition searchResultFromProto :: "(gostr \<Rightarrow> gostr) \<Rightarrow> pxResult \<Rightarrow> mgResult" where
  "searchResultFromProto unesc r = \<lparr>mrSlug = pxSlug r, mrName = unesc (pxName r), mrVersion = pxVersion r,
     mrInstalls = pxActiveInstalls r, mrDownloaded = pxDownloaded r, mrMatches = map fileMatchFromProto (pxFiles r),
     mrTotalMatches = nat (sint (pxTotalMatches r))\<rparr>"

definition SearchResponseFromProto :: "(gostr \<Rightarrow> gostr) \<Rightarrow> pxResponse \<Rightarrow> mgResponse" where
  "SearchResponseFromProto unesc p =
     \<lparr>mpResults = map (searchResultFromProto unesc) (pxResults p), mpTotal = sint (pxTotal p)\<rparr>"

section \<open>Answers\<close>

record matchDetail =
  mdFile :: gostr
  mdLine :: nat
  mdContent :: gostr
  mdBefore :: "gostr list"
  mdAfter :: "gostr list"

record extResult =
  erSlug :: gostr
  erName :: gostr
  erVersion :: gostr
  erInstalls :: int
  erTotalMatches :: nat
  erMatches :: "matchDetail list"

record searchAnswer =
  saTotalMatches :: nat
  saTotalExtensions :: nat
  saExtensions :: "extResult list"

definition convertResult :: "mgResult \<Rightarrow> extResult" where
  "convertResult r = \<lparr>erSlug = mrSlug r, erName = mrName r, erVersion = mrVersion r, erInstalls = mrInstalls r,
     erTotalMatches = mrTotalMatches r,
     erMatches = concat (map (\<lambda>fm.
       let filename = (case cutAfter [0x2F] (fmFilename fm) of Some rest \<Rightarrow> rest | None \<Rightarrow> fmFilename fm) in
       map (\<lambda>m. \<lparr>mdFile = filename, mdLine = mLineNumber m, mdContent = mLine m, mdBefore = mBefore m, mdAfter = mAfter m\<rparr>) (fmMatches fm))
       (mrMatches r))\<rparr>"

definition convertManagerResponse :: "mgResponse \<Rightarrow> searchAnswer" where
  "convertManagerResponse p = \<lparr>saTotalMatches = sum_list (map mrTotalMatches (mpResults p)),
     saTotalExtensions = length (mpResults p), saExtensions = map convertResult (mpResults p)\<rparr>"

section \<open>Searching and loading\<close>

datatype rowStatus = StatusQueued | StatusProcessing | StatusCompleted | StatusFailed

record searchRow =
  rwStatus :: rowStatus
  rwPrivate :: bool
  rwTerm :: gostr
  rwRepo :: gostr
  rwTotalMatches :: nat
  rwTotalExtensions :: nat
  rwResultsSize :: "int option"

record recordStore =
  rsRows :: "gostr \<rightharpoonup> searchRow"
  rsObjects :: "gostr \<rightharpoonup> pxResponse"

text \<open>What the calls of one request answer: whether both stores are there, the identifier of the new row, the size of the
  upload, and whether a row could be deleted and updated.\<close>

record storeCalls =
  scAvailable :: bool
  scCreated :: "gostr option"
  scUploaded :: "int option"
  scDeleted :: bool
  scUpdated :: bool

record toolParams =
  tpQuery :: gostr
  tpRepo :: gostr
  tpFileMatch :: gostr
  tpExclude :: gostr
  tpCaseSensitive :: bool
  tpContextLines :: int
  tpLimit :: int
  tpOffset :: int

definition persistSearch :: "storeCalls \<Rightarrow> toolParams \<Rightarrow> mgResponse \<Rightarrow> searchAnswer \<Rightarrow> recordStore \<Rightarrow> gostr option \<times> recordStore" where
  "persistSearch c params results resp st =
     (if \<not> scAvailable c then (None, st)
      else case scCreated c of None \<Rightarrow> (None, st)
      | Some sid \<Rightarrow>
          let row = \<lparr>rwStatus = StatusCompleted, rwPrivate = True, rwTerm = tpQuery params, rwRepo = tpRepo params,
                rwTotalMatches = saTotalMatches resp, rwTotalExtensions = saTotalExtensions resp, rwResultsSize = None\<rparr>;
              st1 = st\<lparr>rsRows := (rsRows st)(sid \<mapsto> row)\<rparr>
          in case scUploaded c of
               None \<Rightarrow> (None, if scDeleted c then st1\<lparr>rsRows := (rsRows st1)(sid := None)\<rparr> else st1)
             | Some bytes \<Rightarrow>
                 let st2 = st1\<lparr>rsObjects := (rsObjects st1)(sid \<mapsto> SearchResponseToProto results)\<rparr>
                 in (Some sid, if scUpdated c then st2\<lparr>rsRows := (rsRows st2)(sid \<mapsto> row\<lparr>rwResultsSize := Some bytes\<rparr>)\<rparr> else st2))"

datatype toolErr =
    TQueryMissing | TRepoChoice | TPattern goerr | TQueueFull | TSearchFailed mgErr
  | TBadId | TNotFound | TNotCompleted rowStatus | TNoResults

definition contextLinesToUint :: "int \<Rightarrow> nat" where
  "contextLinesToUint v = [0, 1, 2, 3, 4, 5] ! nat (clampInt v 0 maxContext)"

definition paramsOf :: "toolParams \<Rightarrow> searchParams" where
  "paramsOf p = \<lparr>spFileMatch = tpFileMatch p, spExclude = tpExclude p, spCaseInsensitive = \<not> tpCaseSensitive p,
     spLines = contextLinesToUint (tpContextLines p)\<rparr>"

text \<open>\<open>free\<close>: the one place for a search was free before the request was given up; \<open>answer\<close> is what the manager answers to the
  search for \<open>paramsOf params\<close>.  A search without an identifier has the empty one.\<close>

definition toolSearch :: "golib \<Rightarrow> bool \<Rightarrow> mgErr + mgResponse \<Rightarrow> storeCalls \<Rightarrow> toolParams \<Rightarrow> recordStore \<Rightarrow>
    (toolErr + gostr \<times> searchAnswer) \<times> recordStore" where
  "toolSearch lib free answer c params st = (case ValidatePattern lib (tpQuery params) of
       Some err \<Rightarrow> (Inl (TPattern err), st)
     | None \<Rightarrow>
         if \<not> free then (Inl TQueueFull, st)
         else case answer of
           Inl err \<Rightarrow> (Inl (TSearchFailed err), st)
         | Inr results \<Rightarrow>
             let resp = convertManagerResponse results in
             case persistSearch c params results resp st of
               (None, st1) \<Rightarrow> (Inr ([], resp), st1)
             | (Some sid, st1) \<Rightarrow> (Inr (sid, resp), st1))"

definition LoadSearch :: "(gostr \<Rightarrow> gostr option) \<Rightarrow> (gostr \<Rightarrow> gostr) \<Rightarrow> recordStore \<Rightarrow> gostr \<Rightarrow> toolErr + searchAnswer" where
  "LoadSearch parse unesc st searchID = (case parse searchID of
       None \<Rightarrow> Inl TBadId
     | Some sid \<Rightarrow> (case rsRows st sid of
           None \<Rightarrow> Inl TNotFound
         | Some row \<Rightarrow>
             if rwStatus row \<noteq> StatusCompleted then Inl (TNotCompleted (rwStatus row))
             else case rsObjects st searchID of
               None \<Rightarrow> Inl TNoResults
             | Some p \<Rightarrow> Inr (convertManagerResponse (SearchResponseFromProto unesc p))))"

section \<open>Text\<close>

text \<open>The matches of all extensions with slug and name, and the page of them: its matches, where it ends and how many there are.\<close>

definition flatMatches :: "searchAnswer \<Rightarrow> (gostr \<times> gostr \<times> matchDetail) list" where
  "flatMatches r = concat (map (\<lambda>e. map (\<lambda>m. (erSlug e, erName e, m)) (erMatches e)) (saExtensions r))"

definition matchPage :: "searchAnswer \<Rightarrow> int \<Rightarrow> int \<Rightarrow> ((gostr \<times> gostr \<times> matchDetail) list \<times> int \<times> int) option" where
  "matchPage r offset limit =
     (let all = flatMatches r; tot = int (length all) in
      if offset \<ge> tot then None
      else let end1 = min (offset + limit) tot in Some (slice (nat offset) (nat end1) all, end1, tot))"

definition moreMatches :: "((gostr \<times> gostr \<times> matchDetail) list \<times> int \<times> int) option \<Rightarrow> int option" where
  "moreMatches p = (case p of None \<Rightarrow> None | Some (_, end1, tot) \<Rightarrow> if end1 < tot then Some end1 else None)"

definition matchText :: "gostr \<times> gostr \<times> matchDetail \<Rightarrow> gostr" where
  "matchText = (\<lambda>(slug, name, m).
     emDash @ [32] @ name @ bytes_of '' ('' @ slug @ bytes_of '') '' @ mdFile m @ bytes_of '':'' @ decimal (mdLine m) @ [10] @
     contextText (mdBefore m) @ bytes_of ''  > '' @ mdContent m @ [10] @ contextText (mdAfter m) @ [10])"

definition FormatSearchMatches :: "searchAnswer \<Rightarrow> int \<Rightarrow> int \<Rightarrow> gostr" where
  "FormatSearchMatches r offset limit = (case matchPage r offset limit of
       None \<Rightarrow> bytes_of ''No matches at offset '' @ decInt offset @ bytes_of '' (total: '' @ decimal (length (flatMatches r)) @ bytes_of '')'' @ [10]
     | Some (pg, end1, tot) \<Rightarrow>
         bytes_of ''Matches '' @ decInt (offset + 1) @ enDash @ decInt end1 @ bytes_of '' of '' @ decInt tot @ [10, 10] @
         concat (map matchText pg) @
         (case moreMatches (Some (pg, end1, tot)) of None \<Rightarrow> []
          | Some n \<Rightarrow> bytes_of ''More results available. Use offset='' @ decInt n @ bytes_of '' to see next page.''))"

definition formatNumber :: "int \<Rightarrow> gostr" where
  "formatNumber n = (if n < 1000 then decInt n
     else let s = decInt n in
       concat (map (\<lambda>i. if i > 0 \<and> (length s - i) mod 3 = 0 then [0x2C, s ! i] else [s ! i]) [0..<length s]))"

definition summaryLine :: "extResult \<Rightarrow> gostr" where
  "summaryLine e = [32, 32] @ erName e @ bytes_of '' ('' @ erSlug e @ bytes_of '') v'' @ erVersion e @ [32] @ emDash @ [32] @
     decimal (erTotalMatches e) @ bytes_of '' matches'' @
     (if erInstalls e > 0 then bytes_of '', '' @ formatNumber (erInstalls e) @ bytes_of '' active installs'' else []) @ [10]"

definition FormatSearchSummary :: "(gostr \<Rightarrow> gostr) \<Rightarrow> searchAnswer \<Rightarrow> gostr \<Rightarrow> gostr \<Rightarrow> gostr \<Rightarrow> gostr" where
  "FormatSearchSummary quote r searchID qry repo =
     (let header = bytes_of ''Search: '' @ quote qry @ bytes_of '' in '' @ repo @ [10] @
            decimal (saTotalMatches r) @ bytes_of '' matches across '' @ decimal (saTotalExtensions r) @ [32] @ repo @ [10] @
            (if searchID \<noteq> [] then bytes_of ''search_id: '' @ searchID @ [10] else [])
      in if saExtensions r = [] then header
         else header @ [10] @ bytes_of ''Results by extension:'' @ [10] @
           concat (map summaryLine (take 50 (saExtensions r))) @
           (if length (saExtensions r) > 50
            then bytes_of ''  ... and '' @ decimal (length (saExtensions r) - 50) @ bytes_of '' more extensions'' @ [10] else []) @
           [10] @ bytes_of ''Use search_id with offset/limit to paginate through detailed match results.'')"

section \<open>The handler\<close>

definition defaultLimit :: int where "defaultLimit = 25"
definition maxLimit :: int where "maxLimit = 100"

text \<open>A call: missing texts are empty, a missing repository is \<open>None\<close>.\<close>

record searchCall =
  slSearchID :: gostr
  slQuery :: gostr
  slRepo :: "gostr option"
  slFileMatch :: gostr
  slExclude :: gostr
  slCaseSensitive :: "bool option"
  slContextLines :: "int option"
  slLimit :: "int option"
  slOffset :: "int option"

definition orElse :: "'a option \<Rightarrow> 'a \<Rightarrow> 'a" where
  "orElse v d = (case v of None \<Rightarrow> d | Some x \<Rightarrow> x)"

definition handleSearchCode :: "golib \<Rightarrow> (gostr \<Rightarrow> gostr) \<Rightarrow> (gostr \<Rightarrow> gostr option) \<Rightarrow> (gostr \<Rightarrow> gostr) \<Rightarrow> bool \<Rightarrow>
    (gostr \<Rightarrow> gostr \<Rightarrow> searchParams \<Rightarrow> mgErr + mgResponse) \<Rightarrow> storeCalls \<Rightarrow> searchCall \<Rightarrow> recordStore \<Rightarrow> (toolErr + gostr) \<times> recordStore" where
  "handleSearchCode lib quote parse unesc free answer c q st =
     (let limit = clampInt (orElse (slLimit q) defaultLimit) 1 maxLimit;
          offset = clampInt (orElse (slOffset q) 0) 0 (maxLimit * 1000);
          contextLines = clampInt (orElse (slContextLines q) 0) 0 maxContext
      in if slSearchID q \<noteq> [] then
           (case LoadSearch parse unesc st (slSearchID q) of
              Inl err \<Rightarrow> (Inl err, st)
            | Inr resp \<Rightarrow> (Inr (FormatSearchMatches resp offset limit), st))
         else if slQuery q = [] then (Inl TQueryMissing, st)
         else let repo = orElse (slRepo q) (bytes_of ''plugins'') in
           if \<not> isValidRepo repo then (Inl TRepoChoice, st)
           else let params = \<lparr>tpQuery = slQuery q, tpRepo = repo, tpFileMatch = slFileMatch q, tpExclude = slExclude q,
                      tpCaseSensitive = orElse (slCaseSensitive q) False, tpContextLines = contextLines, tpLimit = limit, tpOffset = offset\<rparr>
             in case toolSearch lib free (answer repo (slQuery q) (paramsOf params)) c params st of
                  (Inl err, st1) \<Rightarrow> (Inl err, st1)
                | (Inr (sid, resp), st1) \<Rightarrow>
                    (Inr (if offset = 0 then FormatSearchSummary quote resp sid (slQuery q) repo
                          else FormatSearchMatches resp offset limit), st1))"

section \<open>Resource addresses\<close>

text \<open>\<open>SplitN\<close> at a slash into at most three parts.\<close>

definition splitN3 :: "gostr \<Rightarrow> gostr list" where
  "splitN3 s = (case cutAfter [0x2F] s of None \<Rightarrow> [s]
     | Some r1 \<Rightarrow> let a = take (length s - length r1 - 1) s in
         (case cutAfter [0x2F] r1 of None \<Rightarrow> [a, r1] | Some r2 \<Rightarrow> [a, take (length r1 - length r2 - 1) r1, r2]))"

definition parseExtensionURI :: "gostr \<Rightarrow> (gostr \<times> gostr) option" where
  "parseExtensionURI uri = (case cutPrefix (bytes_of ''veloria://'') uri of None \<Rightarrow> None
     | Some rest \<Rightarrow> let parts = splitN3 rest in
         if length parts < 3 \<or> parts ! 2 \<noteq> bytes_of ''info'' then None
         else if \<not> isValidRepo (parts ! 0) \<or> parts ! 1 = [] then None
         else Some (parts ! 0, parts ! 1))"

end
