(* ===== verification/Source_View_Correct.thy ===== *)
theory Source_View_Correct
  imports Source_View
begin

text \<open>
  The tools that show source files: the paths they open lie in the directory of the extension, the pages of a file join
  to the file, and a search of the files reports their matching lines in order up to its cap.
\<close>

section \<open>Paths\<close>

lemma dropCommon_split: "dropCommon bs ts = (ub, ut) \<Longrightarrow> \<exists>p. bs = p @ ub \<and> ts = p @ ut"
proof (induction bs ts rule: dropCommon.induct)
  case (1 b bs t ts)
  then show ?case by (cases "b = t") (auto simp: Cons_eq_append_conv)
qed auto

lemma joinSlash_up: "take 2 (joinSlash (dotdot # cs)) = dotdot"
  by (cases cs) (simp_all add: dotdot_def)

lemma joinSlash_replicate: "0 < n \<Longrightarrow> take 2 (joinSlash (replicate n dotdot @ cs)) = dotdot"
  by (cases n) (simp_all add: joinSlash_up)

lemma joinSlash_dots: "ds \<noteq> [] \<Longrightarrow> \<forall>c \<in> set ds. proper c \<Longrightarrow> take 2 (hd ds) \<noteq> dotdot \<Longrightarrow> take 2 (joinSlash ds) \<noteq> dotdot"
proof -
  assume a: "ds \<noteq> []" "\<forall>c \<in> set ds. proper c" "take 2 (hd ds) \<noteq> dotdot"
  then obtain c cs where ds: "ds = c # cs" by (cases ds) auto
  then show "take 2 (joinSlash ds) \<noteq> dotdot"
  proof (cases "length c \<ge> 2")
    case True
    then show ?thesis using a ds by (cases cs) simp_all
  next
    case False
    moreover have "c \<noteq> []" using a ds by (simp add: proper_def)
    ultimately obtain x where "c = [x]" by (cases c; cases "tl c") auto
    then show ?thesis by (cases cs) (simp_all add: ds dotdot_def)
  qed
qed

text \<open>A path that is accepted is the directory itself or lies below it.\<close>

definition within :: "gostr list \<Rightarrow> gostr \<Rightarrow> bool" where
  "within cs p \<longleftrightarrow> (\<exists>ds. p = rooted_path (cs @ ds) \<and> (\<forall>c \<in> set ds. proper c))"

lemma rooted_path_rooted: "rooted_path cs \<noteq> []" "hd (rooted_path cs) = 47"
  using isRooted_rooted [of cs] by (simp_all add: isRooted_def)

lemma SafeJoin_within:
  assumes "\<forall>c \<in> set cs. proper c" "SafeJoin (rooted_path cs) rel = Some full"
  shows "within cs full"
proof -
  let ?b = "rooted_path cs"
  have full: "full = pathJoin [?b, pathClean rel]" and
    rel: "\<exists>r. pathRel ?b full = Some r \<and> take 2 r \<noteq> dotdot"
    using assms(2) by (auto simp: SafeJoin_def Let_def split: if_splits option.splits)
  have "pathClean rel \<noteq> []" by (auto simp: pathClean_def Let_def dot_def)
  then have "full = pathClean (?b @ 47 # pathClean rel)" using full rooted_path_rooted [of cs] by (simp add: pathJoin_def)
  then obtain fs where fs: "full = rooted_path fs" "\<forall>c \<in> set fs. proper c"
    using pathClean_rooted [of "?b @ 47 # pathClean rel"] rooted_path_rooted [of cs] by (auto simp: hd_append)
  show ?thesis
  proof (cases "fs = cs")
    case False
    obtain ub ut where d: "dropCommon cs fs = (ub, ut)" by fastforce
    then obtain p where p: "cs = p @ ub" "fs = p @ ut" using dropCommon_split by blast
    obtain r where r: "pathRel ?b full = Some r" "take 2 r \<noteq> dotdot" using rel by blast
    then have "ub = []"
      using assms(1) fs d False pathClean_below [of cs] pathClean_below [of fs] rooted_path_inj [of cs fs] joinSlash_replicate [of "length ub" ut]
      by (auto simp: pathRel_def Let_def isRooted_rooted pathParts_rooted split: if_splits)
    then show ?thesis using p fs by (auto simp: within_def)
  qed (use fs in \<open>auto simp: within_def intro!: exI [of _ "[]"]\<close>)
qed

lemma pathClean_relative:
  assumes "\<forall>c \<in> set ds. proper c" "ds \<noteq> []"
  shows "pathClean (joinSlash ds) = joinSlash ds" "joinSlash ds \<noteq> []" "hd (joinSlash ds) \<noteq> 47"
proof -
  obtain c cs where ds: "ds = c # cs" using assms(2) by (cases ds) auto
  have j: "joinSlash (c # cs) = below c cs" using joinSlash_below [of c cs] below_prefix [of "[47]" c cs] by simp
  have c: "c \<noteq> []" "47 \<notin> set c" using assms ds by (auto simp: proper_def)
  then show ne: "joinSlash ds \<noteq> []" and hd: "hd (joinSlash ds) \<noteq> 47"
    by (cases cs; auto simp: ds dest: hd_in_set)+
  have "split_sep [] (below c cs) = c # cs"
    using split_sep_below [of cs "[]" c] split_sep_plain [of c "[]"] assms ds by (simp add: proper_def)
  then show "pathClean (joinSlash ds) = joinSlash ds"
    using fold_proper [OF assms(1), of False "[]"] ne hd by (simp add: pathClean_def Let_def ds j)
qed

text \<open>A relative path of proper parts is accepted, unless its first part begins with two dots.\<close>

lemma SafeJoin_relative:
  assumes "\<forall>c \<in> set (cs @ ds). proper c" "cs \<noteq> []" "ds \<noteq> []" "take 2 (joinSlash ds) \<noteq> dotdot"
  shows "SafeJoin (rooted_path cs) (joinSlash ds) = Some (rooted_path (cs @ ds))"
proof -
  have ds: "\<forall>c \<in> set ds. proper c" using assms(1) by simp
  note r = pathClean_relative [OF ds assms(3)]
  have "joinSlash ds \<noteq> dotdot" using assms(4) by (auto simp: dotdot_def)
  moreover have "joinSlash ds \<noteq> dot"
  proof
    assume e: "joinSlash ds = dot"
    obtain c cs' where c: "ds = c # cs'" using assms(3) by (cases ds) auto
    then show False using e ds by (cases cs') (auto simp: proper_def dot_def append_eq_Cons_conv)
  qed
  moreover have "\<not> isRooted (joinSlash ds)" using r by (simp add: isRooted_def)
  ultimately show ?thesis using assms pathJoin_rel [of cs ds] pathRel_below [of cs ds] r(1)
    by (simp add: SafeJoin_def Let_def)
qed

lemma within_entry:
  assumes "within cs p" "\<forall>c \<in> set cs. proper c" "cs \<noteq> []" "proper n"
  shows "within cs (pathJoin [p, n])"
proof -
  obtain ds where ds: "p = rooted_path (cs @ ds)" "\<forall>c \<in> set ds. proper c" using assms(1) by (auto simp: within_def)
  then have "pathJoin [p, n] = rooted_path (cs @ ds @ [n])" using pathJoin_entry [of "cs @ ds" n] assms(2-4) by auto
  then show ?thesis using ds(2) assms(4) by (auto simp: within_def intro!: exI [of _ "ds @ [n]"])
qed

lemma within_gz:
  assumes "within cs p" "p \<noteq> rooted_path cs"
  shows "within cs (p @ bytes_of ''.gz'')"
proof -
  obtain ds where ds: "p = rooted_path (cs @ ds)" "\<forall>c \<in> set ds. proper c" using assms(1) by (auto simp: within_def)
  then have "ds \<noteq> []" using assms(2) by auto
  then obtain es e where e: "ds = es @ [e]" by (cases ds rule: rev_cases) auto
  have "proper (e @ bytes_of ''.gz'')" using ds(2) e by (auto simp: proper_def dot_def dotdot_def bytes_of_def append_eq_Cons_conv)
  moreover have "p @ bytes_of ''.gz'' = rooted_path (cs @ es @ [e @ bytes_of ''.gz''])"
    using ds(1) e by (simp add: rooted_path_def below_def)
  ultimately show ?thesis using ds(2) e by (auto simp: within_def intro!: exI [of _ "es @ [e @ bytes_of ''.gz'']"])
qed

section \<open>Pages of a file\<close>

lemma rangeLoop_spec:
  "rangeLoop (1 + int a) (1 + (int a + int k)) n acc ls = (acc @ take (a + k - max a n) (drop (a - n) ls), n + length ls)"
proof (induction ls arbitrary: n acc)
  case (Cons l ls)
  consider "n < a" | "a \<le> n" "n < a + k" | "a + k \<le> n" by linarith
  then show ?case
  proof cases
    case 1
    then have "a - n = Suc (a - Suc n)" by simp
    with 1 show ?thesis by (simp add: Cons)
  next
    case 2
    then have "a + k - n = Suc (a + k - Suc n)" by simp
    with 2 show ?thesis by (simp add: Cons)
  qed (simp add: Cons)
qed simp

lemma linesFrom_spec:
  assumes "int a \<le> 500000" "0 < k" "k \<le> 500"
  shows "linesFrom (1 + int a) (int k) ls = (take k (drop a ls), length ls)"
  using assms rangeLoop_spec [of a k 0 "[]" ls] by (simp add: linesFrom_def maxReadLines_def Let_def add.assoc)

text \<open>The lines that a page shows, without their numbers.\<close>

definition unnumber :: "gostr \<Rightarrow> gostr" where
  "unnumber l = drop 2 (dropWhile (\<lambda>c. c \<in> {0x30..0x39}) (dropWhile (\<lambda>c. c = 32) l))"

definition shownLines :: "readResponse \<Rightarrow> gostr list" where
  "shownLines r = map unnumber (butlast (segs (rrContent r)))"

lemma decimal_digits: "decimal n \<noteq> [] \<and> set (decimal n) \<subseteq> {0x30..0x39}"
proof (induction n rule: decimal.induct)
  case (1 n)
  have d: "0x30 + of_nat d \<in> {0x30..0x39::byte}" if "d < 10" for d :: nat
  proof -
    have "unat (0x30 + of_nat d :: byte) = 48 + d" using that by (simp add: unat_word_ariths unat_of_nat)
    then show ?thesis using that by (simp add: word_le_nat_alt)
  qed
  show ?case
  proof (cases "n < 10")
    case True
    then show ?thesis using d [of n] by (subst (1 2) decimal.simps) simp
  next
    case False
    then show ?thesis using d [of "n mod 10"] 1 [OF False] by (subst (1 2) decimal.simps) simp
  qed
qed

lemma dropWhile_blanks: "dropWhile (\<lambda>c. c = x) (replicate m x @ ys) = dropWhile (\<lambda>c. c = x) ys"
  by (induction m) simp_all

lemma unnumber_line:
  assumes "1 \<le> n"
  shows "unnumber (padLeft w (decInt n) @ 32 # 32 # l) = l"
proof -
  let ?d = "decimal (nat n)"
  have d: "?d \<noteq> []" "\<And>c. c \<in> set ?d \<Longrightarrow> c \<in> {0x30..0x39}" using decimal_digits [of "nat n"] by auto
  have "(32 :: byte) \<notin> {0x30..0x39}" by (simp add: word_le_nat_alt)
  then have "hd ?d \<noteq> 32" using d(2) [OF hd_in_set [OF d(1)]] by metis
  then have "dropWhile (\<lambda>c. c = 32) (padLeft w ?d @ 32 # 32 # l) = ?d @ 32 # 32 # l"
    using d(1) by (cases ?d) (simp_all add: padLeft_def dropWhile_blanks)
  moreover have "dropWhile (\<lambda>c. c \<in> {0x30..0x39}) (?d @ 32 # 32 # l) = 32 # 32 # l"
    using d(2) by (subst dropWhile_append2) (auto simp: word_le_nat_alt)
  ultimately show ?thesis using assms by (simp add: unnumber_def decInt_def)
qed

lemma number_plain: "1 \<le> n \<Longrightarrow> plain (padLeft w (decInt n))"
  using decimal_digits [of "nat n"] by (auto simp: padLeft_def decInt_def word_le_nat_alt)

lemma shown_numbered:
  assumes "\<forall>l \<in> set ls. plain l" "1 \<le> n"
  shows "map unnumber (butlast (segs (numbered w n ls))) = ls"
  using assms
proof (induction ls arbitrary: n)
  case (Cons l ls)
  have "plain (padLeft w (decInt n) @ 32 # 32 # l)" using Cons.prems number_plain [of n w] by simp
  from segs_append_nl [OF this, of "numbered w (n + 1) ls"] Cons show ?case by (simp add: unnumber_line)
qed simp

lemma readPage_shown:
  assumes "\<forall>l \<in> set ls. plain l" "1 \<le> n"
  shows "shownLines (readPage repo slug path n (ls, t)) = ls"
  using shown_numbered [OF assms] by (simp add: shownLines_def readPage_def formatNumberedLines_def Let_def)

lemma readPage_more:
  assumes "0 < k"
  shows "moreLines (readPage repo slug path (1 + int a) (take k (drop a ls), length ls)) =
    (if a + k < length ls then Some (1 + int (a + k)) else None)"
proof (cases "a < length ls")
  case True
  then have "int (length (take k (drop a ls))) = int (min (length ls) (a + k)) - int a" by simp
  then show ?thesis using True assms by (simp add: moreLines_def readPage_def Let_def)
qed (use assms in \<open>simp add: moreLines_def readPage_def Let_def\<close>)

lemma linesOf_plain: "\<forall>l \<in> set (linesOf b). plain l"
  using segs_all_plain [of _ b] by (auto simp: linesOf_def dropCR_def dest!: in_set_butlastD split: if_splits)

text \<open>One call of the tool, the line it names next and the lines it shows.\<close>

definition askLine :: "fs \<Rightarrow> (gostr \<Rightarrow> bool) \<Rightarrow> gostr \<Rightarrow> gostr \<Rightarrow> gostr \<Rightarrow> int \<Rightarrow> 'db mgr \<Rightarrow> int \<Rightarrow> viewErr + readResponse" where
  "askLine fs stat repo slug path mx m s = readFileTool fs stat
     \<lparr>raRepo = repo, raSlug = slug, raPath = path, raStart = Some s, raMax = Some mx\<rparr> m"

definition nextLine :: "viewErr + readResponse \<Rightarrow> int option" where
  "nextLine = case_sum (\<lambda>_. None) moreLines"

definition linesShown :: "viewErr + readResponse \<Rightarrow> gostr list" where
  "linesShown = case_sum (\<lambda>_. []) shownLines"

text \<open>The page of a call of the tool, from the lines of the file.\<close>

definition pageAt :: "gostr \<Rightarrow> gostr \<Rightarrow> gostr \<Rightarrow> byte list \<Rightarrow> int \<Rightarrow> int \<Rightarrow> viewErr + readResponse" where
  "pageAt repo slug path b mx s = Inr (readPage repo slug path (clampInt s 1 500000)
     (linesFrom (clampInt s 1 500000) (clampInt mx 1 500) (linesOf b)))"

interpretation rd: paging "pageAt repo slug path b mx" nextLine linesShown
  "linesOf b" "nat (clampInt mx 1 500)" 499999 1 for repo slug path b mx
proof
  let ?k = "nat (clampInt mx 1 500)"
  show k: "0 < ?k" by (simp add: clampInt_def)
  fix s :: int
  assume s: "1 \<le> s"
  let ?a = "min (nat (s - 1)) 499999"
  have c: "clampInt s 1 500000 = 1 + int ?a" "clampInt mx 1 500 = int ?k" using s by (auto simp: clampInt_def)
  have "linesFrom (1 + int ?a) (int ?k) (linesOf b) = (take ?k (drop ?a (linesOf b)), length (linesOf b))"
    by (rule linesFrom_spec) (auto simp: clampInt_def)
  then have p: "pageAt repo slug path b mx s = Inr (readPage repo slug path (1 + int ?a) (take ?k (drop ?a (linesOf b)), length (linesOf b)))"
    using c by (simp only: pageAt_def)
  have "\<forall>l \<in> set (take ?k (drop ?a (linesOf b))). plain l"
    using linesOf_plain [of b] by (auto dest: in_set_takeD in_set_dropD)
  then show "linesShown (pageAt repo slug path b mx s) = take ?k (drop ?a (linesOf b))"
    unfolding p linesShown_def using readPage_shown by simp
  show "nextLine (pageAt repo slug path b mx s) =
    (if ?a + ?k < length (linesOf b) then Some (1 + int (?a + ?k)) else None)"
    unfolding p nextLine_def using readPage_more [OF k] by simp
qed

lemma readFileTool_page:
  assumes "isValidRepo repo" "slug \<noteq> []" "path \<noteq> []" "slugDirOf repo slug m = Inr d" "actualPath stat d path = Inr p"
    "openSourceReader fs p = Inr (Inr b)" "\<forall>l \<in> set (segs b). length l < 1024 * 1024"
  shows "askLine fs stat repo slug path mx m = pageAt repo slug path b mx"
proof
  have "repo \<noteq> []" using assms(1) by (auto simp: isValidRepo_def bytes_of_def)
  moreover have "fileLines fs p = Inr (linesOf b)" using assms(6,7) by (fastforce simp: fileLines_def scanAll_def)
  ultimately show "askLine fs stat repo slug path mx m s = pageAt repo slug path b mx s" for s
    using assms(1-5) by (simp add: askLine_def readFileTool_def ReadFile_def pageAt_def readFileRange_def maxReadLines_def Let_def)
qed

section \<open>Searching the files\<close>

lemma lineAt_eq:
  assumes "0 \<le> c" "i < length ls"
  shows "lineAt c ls i line =
    \<lparr>lmLine = i + 1, lmContent = line, lmBefore = drop (i - nat c) (take i ls), lmAfter = take (nat c) (drop (i + 1) ls)\<rparr>"
proof -
  have s: "nat (max (int i - c) 0) = i - nat c" using assms(1) by simp
  have e: "take (min (i + 1 + nat c) (length ls) - (i + 1)) (drop (i + 1) ls) = take (nat c) (drop (i + 1) ls)"
    by (simp add: min_def)
  show ?thesis
  proof (cases "c = 0")
    case False
    then have "c > 0" using assms(1) by simp
    then show ?thesis using s e assms(2)
      by (auto simp: lineAt_def Let_def slice_def drop_take min_def)
  qed (use assms in \<open>simp add: lineAt_def\<close>)
qed

definition linesWith :: "(gostr \<Rightarrow> bool) \<Rightarrow> nat \<Rightarrow> gostr list \<Rightarrow> lineMatch list" where
  "linesWith re c ls = map (\<lambda>i. \<lparr>lmLine = i + 1, lmContent = ls ! i, lmBefore = drop (i - c) (take i ls),
     lmAfter = take c (drop (i + 1) ls)\<rparr>) (filter (\<lambda>i. re (ls ! i)) [0..<length ls])"

lemma lineLoop_eq:
  assumes "0 \<le> c"
  shows "lineLoop re c ls 0 ls = linesWith re (nat c) ls"
proof -
  have "lineLoop re c ls i (drop i ls) = map (\<lambda>i. lineAt c ls i (ls ! i)) (filter (\<lambda>i. re (ls ! i)) [i..<length ls])"
    if "i \<le> length ls" for i
    using that
  proof (induction "length ls - i" arbitrary: i)
    case (Suc n)
    then have "drop i ls = ls ! i # drop (i + 1) ls" "[i..<length ls] = i # [i + 1..<length ls]"
      by (simp_all add: Cons_nth_drop_Suc upt_conv_Cons)
    then show ?case using Suc by simp
  qed simp
  from this [of 0] show ?thesis using lineAt_eq [OF assms, of _ ls] by (simp add: linesWith_def)
qed

text \<open>What a search finds at one place of the walk, the matches of a response, and a place where nothing fails.\<close>

definition shownPath :: "gostr \<Rightarrow> gostr \<Rightarrow> gostr" where
  "shownPath slugDir path = trimSuffix (bytes_of ''.gz'') (case pathRel slugDir path of None \<Rightarrow> [] | Some rel \<Rightarrow> rel)"

definition foundAt :: "glob \<Rightarrow> fs \<Rightarrow> gostr \<Rightarrow> gostr \<Rightarrow> (gostr \<Rightarrow> bool) \<Rightarrow> nat \<Rightarrow> visited \<Rightarrow> (gostr \<times> lineMatch) list" where
  "foundAt glob fs slugDir pat re c v = (case v of
       AtFile path info \<Rightarrow>
         (if nameMatches glob pat (shownPath slugDir path) = Inr True
          then case fileLines fs path of Inl err \<Rightarrow> [] | Inr ls \<Rightarrow> map (Pair (shownPath slugDir path)) (linesWith re c ls)
          else [])
     | _ \<Rightarrow> [])"

definition hitsOf :: "grepResponse \<Rightarrow> (gostr \<times> lineMatch) list" where
  "hitsOf r = concat (map (\<lambda>(path, ms). map (Pair path) ms) (grFiles r))"

definition readable :: "glob \<Rightarrow> gostr \<Rightarrow> gostr \<Rightarrow> visited \<Rightarrow> bool" where
  "readable glob slugDir pat v = (case v of
       AtError _ err \<Rightarrow> False
     | AtDir _ \<Rightarrow> True
     | AtFile path info \<Rightarrow> \<exists>b. nameMatches glob pat (shownPath slugDir path) = Inr b)"

definition grepOk :: "grepResponse \<Rightarrow> bool" where
  "grepOk r \<longleftrightarrow> grTotalMatches r = length (hitsOf r) \<and> length (hitsOf r) \<le> maxGrepMatches \<and> (\<forall>f \<in> set (grFiles r). snd f \<noteq> [])"

text \<open>The matches of one more file, as many as there is room for.\<close>

lemma grep_room:
  assumes "grepOk resp" "grTotalMatches resp < maxGrepMatches" "ms \<noteq> []"
    "resp' = resp\<lparr>grFiles := grFiles resp @ [(p, take (maxGrepMatches - grTotalMatches resp) ms)],
      grTotalMatches := grTotalMatches resp + min (maxGrepMatches - grTotalMatches resp) (length ms)\<rparr>"
  shows "grepOk resp'" "take maxGrepMatches (hitsOf resp' @ xs) = take maxGrepMatches (hitsOf resp @ map (Pair p) ms @ xs)"
proof -
  let ?h = "hitsOf resp"
  have h: "hitsOf resp' = ?h @ map (Pair p) (take (maxGrepMatches - length ?h) ms)" "grTotalMatches resp = length ?h"
    using assms by (simp_all add: hitsOf_def grepOk_def)
  then show "grepOk resp'" using assms by (auto simp: grepOk_def)
  show "take maxGrepMatches (hitsOf resp' @ xs) = take maxGrepMatches (?h @ map (Pair p) ms @ xs)"
    using h assms(2) by (cases "length ms \<le> maxGrepMatches - length ?h") (simp_all add: take_map)
qed

lemma take_splits: "(if length ms > n then take n ms else ms) = take n ms" "length (take n ms) = min n (length ms)"
  by (simp_all add: min.commute)

lemma grepSingleFile_eq:
  "0 \<le> c \<Longrightarrow> grepSingleFile fs path re c = rbind (fileLines fs path) (\<lambda>ls. Inr (linesWith re (nat c) ls))"
  by (simp add: grepSingleFile_def lineLoop_eq)

text \<open>One file of the walk: the search is over, or goes on with the matches of the file.\<close>

lemma grepWalk_file:
  assumes "0 \<le> c" "readable glob d pat (AtFile path info)" "grepOk resp"
  shows "grepWalk glob fs d pat re c (AtFile path info # vs) resp = Inr resp \<and> length (hitsOf resp) = maxGrepMatches \<or>
    (\<exists>resp'. grepWalk glob fs d pat re c (AtFile path info # vs) resp = grepWalk glob fs d pat re c vs resp' \<and> grepOk resp' \<and>
      (\<forall>xs. take maxGrepMatches (hitsOf resp' @ xs) =
        take maxGrepMatches (hitsOf resp @ foundAt glob fs d pat re (nat c) (AtFile path info) @ xs)))"
proof (cases "grTotalMatches resp \<ge> maxGrepMatches")
  case True
  then show ?thesis using assms(3) by (simp add: grepOk_def)
next
  case False
  let ?p = "shownPath d path" and ?w = "grepWalk glob fs d pat re c" and ?v = "AtFile path info"
  let ?F = "foundAt glob fs d pat re (nat c) ?v"
  obtain b where b: "nameMatches glob pat ?p = Inr b" using assms(2) by (auto simp: readable_def)
  have skip: ?thesis if "?w (?v # vs) resp = ?w vs resp" "?F = []"
    using that assms(3) by (intro disjI2 exI [of _ resp]) simp
  show ?thesis
  proof (cases "b \<and> (\<exists>ls. fileLines fs path = Inr ls \<and> linesWith re (nat c) ls \<noteq> [])")
    case True
    then obtain ls where ls: "b" "fileLines fs path = Inr ls" "linesWith re (nat c) ls \<noteq> []" by blast
    let ?ms = "linesWith re (nat c) ls"
    define resp' where "resp' = resp\<lparr>grFiles := grFiles resp @ [(?p, take (maxGrepMatches - grTotalMatches resp) ?ms)],
      grTotalMatches := grTotalMatches resp + min (maxGrepMatches - grTotalMatches resp) (length ?ms)\<rparr>"
    note room = grep_room [OF assms(3) _ ls(3) resp'_def]
    have "?w (?v # vs) resp = ?w vs resp'"
      using False b ls grepSingleFile_eq [OF assms(1), of fs path re]
      by (simp only: grepWalk.simps Let_def take_splits rbind_simps shownPath_def [symmetric] if_False not_True_eq_False sum.case resp'_def)
    moreover have "?F = map (Pair ?p) ?ms" using b ls by (simp add: foundAt_def)
    ultimately show ?thesis using room False by (intro disjI2 exI [of _ resp']) simp
  next
    case no: False
    show ?thesis
    proof (rule skip)
      show "?F = []" using no b by (auto simp: foundAt_def split: sum.splits)
      show "?w (?v # vs) resp = ?w vs resp"
      proof (cases b)
        case True
        then show ?thesis using no b False grepSingleFile_eq [OF assms(1), of fs path re]
          by (cases "fileLines fs path") (simp_all add: shownPath_def)
      qed (use b False in \<open>simp add: shownPath_def\<close>)
    qed
  qed
qed

lemma grepWalk_spec:
  assumes "0 \<le> c" "\<forall>v \<in> set vs. readable glob d pat v" "grepOk resp"
  shows "\<exists>r. grepWalk glob fs d pat re c vs resp = Inr r \<and> grepOk r \<and>
    hitsOf r = take maxGrepMatches (hitsOf resp @ concat (map (foundAt glob fs d pat re (nat c)) vs))"
  using assms(2,3)
proof (induction vs arbitrary: resp)
  case Nil
  then show ?case by (simp add: grepOk_def)
next
  case (Cons v vs)
  show ?case
  proof (cases v)
    case (AtDir x1)
    then show ?thesis using Cons by (simp add: foundAt_def)
  next
    case (AtError x1 x2)
    then show ?thesis using Cons by (simp add: readable_def)
  next
    case (AtFile path info)
    then have "readable glob d pat (AtFile path info)" using Cons.prems(1) by simp
    from grepWalk_file [OF assms(1) this Cons.prems(2), of fs re vs] show ?thesis
    proof (elim disjE exE conjE)
      assume "grepWalk glob fs d pat re c (AtFile path info # vs) resp = Inr resp" "length (hitsOf resp) = maxGrepMatches"
      then show ?thesis using Cons.prems(2) AtFile by simp
    next
      fix resp'
      assume r: "grepWalk glob fs d pat re c (AtFile path info # vs) resp = grepWalk glob fs d pat re c vs resp'" "grepOk resp'"
        "\<forall>xs. take maxGrepMatches (hitsOf resp' @ xs) =
          take maxGrepMatches (hitsOf resp @ foundAt glob fs d pat re (nat c) (AtFile path info) @ xs)"
      have "\<forall>v \<in> set vs. readable glob d pat v" using Cons.prems(1) by simp
      from Cons.IH [OF this r(2)] r(1,3) show ?thesis by (simp add: AtFile)
    qed
  qed
qed

section \<open>Listing the files\<close>

text \<open>The list has every file whose name the pattern accepts, by the path it is shown with.\<close>

lemma listFile_all:
  assumes "\<forall>v \<in> set vs. readable glob d pat v \<and> (\<forall>p i. v = AtFile p i \<longrightarrow> pathRel d p \<noteq> None \<and> (\<exists>n. i = Inr n))"
  shows "rfold (listFile glob d pat) vs files = Inr (files @ concat (map (\<lambda>v. case v of
    AtFile p i \<Rightarrow> if nameMatches glob pat (shownPath d p) = Inr True then [(shownPath d p, projr i)] else []
  | _ \<Rightarrow> []) vs))"
  using assms
proof (induction vs arbitrary: files)
  case (Cons v vs)
  then show ?case
    by (cases v) (auto simp: listFile_def readable_def shownPath_def Let_def)
qed simp

section \<open>What is read\<close>

text \<open>Names of entries as a directory has them.\<close>

fun dnode_ok :: "dnode \<Rightarrow> bool" where
  "dnode_ok (DDir (Inr es)) = (\<forall>(n, d) \<in> set es. proper n \<and> dnode_ok d)"
| "dnode_ok n = True"

lemma walk_within:
  "within cs path \<Longrightarrow> \<forall>c \<in> set cs. proper c \<Longrightarrow> cs \<noteq> [] \<Longrightarrow> dnode_ok n \<Longrightarrow>
   AtFile p info \<in> set (walkDir path n) \<Longrightarrow> within cs p"
  "within cs path \<Longrightarrow> \<forall>c \<in> set cs. proper c \<Longrightarrow> cs \<noteq> [] \<Longrightarrow> \<forall>(n, d) \<in> set es. proper n \<and> dnode_ok d \<Longrightarrow>
   AtFile p info \<in> set (walkEntries path es) \<Longrightarrow> within cs p"
proof (induction path n and path es rule: walkDir_walkEntries.induct)
  case (4 path e es)
  then show ?case using within_entry [of cs path "fst e"] by (auto simp: split_beta)
qed (auto split: sum.splits)

lemma within_self: "within cs (rooted_path cs)"
  by (auto simp: within_def intro: exI [of _ "[]"])

lemma fileLines_agree: "fs p = fs' p \<Longrightarrow> fileLines fs p = fileLines fs' p"
  by (simp add: fileLines_def openSourceReader_def)

lemma grepWalk_agree:
  "\<forall>p info. AtFile p info \<in> set vs \<longrightarrow> fs p = fs' p \<Longrightarrow>
   grepWalk glob fs d pat re c vs resp = grepWalk glob fs' d pat re c vs resp"
proof (induction vs arbitrary: resp)
  case (Cons v vs)
  have *: "\<And>resp. grepWalk glob fs d pat re c vs resp = grepWalk glob fs' d pat re c vs resp"
    by (rule Cons.IH) (use Cons.prems in auto)
  show ?case
  proof (cases v)
    case (AtFile p info)
    then have "fileLines fs p = fileLines fs' p" using Cons.prems by (intro fileLines_agree) simp
    then have f: "grepSingleFile fs p re c = grepSingleFile fs' p re c" by (simp add: grepSingleFile_def)
    show ?thesis unfolding AtFile grepWalk.simps f * by (rule refl)
  qed (simp_all add: *)
qed simp

lemma ReadFile_agree:
  assumes "\<forall>c \<in> set cs. proper c" "slugDirOf repo slug m = Inr (rooted_path cs)"
    "\<forall>p. within cs p \<or> p = rooted_path cs @ bytes_of ''.gz'' \<longrightarrow> fs p = fs' p \<and> stat p = stat' p"
  shows "ReadFile fs stat repo slug path start mx m = ReadFile fs' stat' repo slug path start mx m"
proof (cases "SafeJoin (rooted_path cs) path")
  case None
  then show ?thesis using assms(2) by (simp add: ReadFile_def actualPath_def)
next
  case (Some full)
  have f: "within cs full" using assms(1) Some by (rule SafeJoin_within)
  have "fs p = fs' p \<and> stat p = stat' p" if "p \<in> {full, full @ bytes_of ''.gz''}" for p
    using that f within_gz [OF f] assms(3) by (cases "full = rooted_path cs") auto
  then have "stat full = stat' full" "stat (full @ bytes_of ''.gz'') = stat' (full @ bytes_of ''.gz'')"
    "fileLines fs full = fileLines fs' full" "fileLines fs (full @ bytes_of ''.gz'') = fileLines fs' (full @ bytes_of ''.gz'')"
    by (auto intro: fileLines_agree)
  then show ?thesis using assms(2) Some by (simp add: ReadFile_def actualPath_def readFileRange_def)
qed

lemma GrepFile_agree:
  assumes "\<forall>c \<in> set cs. proper c" "cs \<noteq> []" "slugDirOf (gpRepo g) (gpSlug g) m = Inr (rooted_path cs)"
    "\<forall>p. within cs p \<longrightarrow> fs p = fs' p" "\<forall>n. tree (rooted_path cs) = Inr n \<longrightarrow> dnode_ok n" "tree' (rooted_path cs) = tree (rooted_path cs)"
  shows "GrepFile lib glob fs tree g m = GrepFile lib glob fs' tree' g m"
proof -
  have "\<forall>p info. AtFile p info \<in> set (walkRoot (rooted_path cs) (tree (rooted_path cs))) \<longrightarrow> fs p = fs' p"
    using walk_within(1) [OF within_self assms(1,2)] assms(4,5) by (auto simp: walkRoot_def split: sum.splits)
  note agree = grepWalk_agree [OF this]
  show ?thesis unfolding GrepFile_def Let_def assms(3) rbind_simps assms(6) agree by (rule refl)
qed

section \<open>Properties\<close>

text \<open>A store with one extension and its sources, for the examples.\<close>

definition viewStore :: "unit estore" where
  "viewStore = \<lparr>stType = TypePlugins,
     stList = [bytes_of ''a'' \<mapsto> \<lparr>eSlug = bytes_of ''a'', eSource = [], eName = [], eVersion = [], eDownloadLink = [],
       eActiveInstalls = 0, eDownloaded = 0, eIE = Some 0\<rparr>],
     stTotal = 1, stIEs = [Some \<lparr>xiDir = bytes_of ''/d/index/a'', xiIdx = None\<rparr>], stClosing = [], stCache = None, stDB = ()\<rparr>"

definition viewMgr :: "unit mgr" where
  "viewMgr = \<lparr>mgSources = [TypePlugins \<mapsto> viewStore], mgOrder = [TypePlugins], mgQueue = [], mgFails = \<lambda>_. 0, mgLast = \<lambda>_. None,
     mgCache = None, mgRuns = 0, mgTick = 0\<rparr>"

definition viewDir :: "gostr list" where
  "viewDir = [bytes_of ''d'', bytes_of ''source'', bytes_of ''a'']"

lemma viewDir_proper: "\<forall>c \<in> set viewDir. proper c" "viewDir \<noteq> []"
  by (simp_all add: viewDir_def proper_def bytes_of_def dot_def dotdot_def)

lemma viewDir_of: "slugDirOf (bytes_of ''plugins'') (bytes_of ''a'') viewMgr = Inr (rooted_path viewDir)"
proof -
  have "typeOf (bytes_of ''plugins'') = Some TypePlugins" by code_simp
  moreover have "ResolveSourceDir (bytes_of ''a'') viewStore = Inr (bytes_of ''/d/source'')" by code_simp
  moreover have "pathJoin [bytes_of ''/d/source'', bytes_of ''a''] = rooted_path viewDir" by code_simp
  ultimately show ?thesis by (simp add: slugDirOf_def mgResolveSourceDir_def sourceOf_def viewMgr_def)
qed

text \<open>
  C18. The tools see only the sources of the extension they are asked about: whatever path is given to \<open>read_file\<close>, its
  answer is determined by the files below the directory of the extension and the file named like that directory with
  \<open>.gz\<close> behind it; the answer of \<open>grep_file\<close> is determined by the tree at the directory and the files below it.
  And a path below the directory whose first element does not begin with two dots is joined to its place there.  (Whether
  that file is then the one that is read depends on its siblings: \<open>sibling_shadows\<close>.)
\<close>

theorem tools_confined:
  assumes "slugDirOf repo slug m = Inr (rooted_path cs)" "cs \<noteq> []" "\<forall>c \<in> set cs. proper c"
    "\<forall>p. within cs p \<or> p = rooted_path cs @ bytes_of ''.gz'' \<longrightarrow> fs p = fs' p \<and> stat p = stat' p"
    "tree' (rooted_path cs) = tree (rooted_path cs)" "\<forall>n. tree (rooted_path cs) = Inr n \<longrightarrow> dnode_ok n"
    "gpRepo g = repo" "gpSlug g = slug"
  shows "ReadFile fs stat repo slug path start mx m = ReadFile fs' stat' repo slug path start mx m \<and>
    GrepFile lib glob fs tree g m = GrepFile lib glob fs' tree' g m \<and>
    (\<forall>ds. ds \<noteq> [] \<and> (\<forall>c \<in> set ds. proper c) \<and> take 2 (hd ds) \<noteq> dotdot \<longrightarrow>
      SafeJoin (rooted_path cs) (joinSlash ds) = Some (rooted_path (cs @ ds)))"
proof (intro conjI allI impI)
  show "ReadFile fs stat repo slug path start mx m = ReadFile fs' stat' repo slug path start mx m"
    by (rule ReadFile_agree) (use assms in auto)
  show "GrepFile lib glob fs tree g m = GrepFile lib glob fs' tree' g m"
    by (rule GrepFile_agree) (use assms in auto)
  fix ds
  assume ds: "ds \<noteq> [] \<and> (\<forall>c \<in> set ds. proper c) \<and> take 2 (hd ds) \<noteq> dotdot"
  then have "take 2 (joinSlash ds) \<noteq> dotdot" by (intro joinSlash_dots) auto
  then show "SafeJoin (rooted_path cs) (joinSlash ds) = Some (rooted_path (cs @ ds))"
    using ds assms(2,3) by (intro SafeJoin_relative) auto
qed

theorem tools_confined_witness:
  "\<exists>fs fs' :: fs. fs \<noteq> fs' \<and>
     ReadFile fs (\<lambda>_. True) (bytes_of ''plugins'') (bytes_of ''a'') (bytes_of ''../../x'') 1 5 viewMgr =
     ReadFile fs' (\<lambda>_. True) (bytes_of ''plugins'') (bytes_of ''a'') (bytes_of ''../../x'') 1 5 viewMgr"
proof (intro exI conjI)
  let ?x = "bytes_of ''/x''"
  let ?f = "(\<lambda>p. if p = ?x then Inl ''x'' else Inl []) :: fs"
  show "?f \<noteq> (\<lambda>_. Inl [])" by (auto dest: fun_cong [of _ _ ?x])
  have "\<not> within viewDir ?x" "?x \<noteq> rooted_path viewDir @ bytes_of ''.gz''"
    by (simp_all add: within_def rooted_path_def viewDir_def below_def bytes_of_def)
  then have "\<forall>p. within viewDir p \<or> p = rooted_path viewDir @ bytes_of ''.gz'' \<longrightarrow> ?f p = Inl [] \<and> True = True" by auto
  from tools_confined [OF viewDir_of viewDir_proper(2,1) this, of "\<lambda>_. Inl []" "\<lambda>_. Inl []"
    "\<lparr>gpRepo = bytes_of ''plugins'', gpSlug = bytes_of ''a'', gpQuery = [], gpFileMatch = [], gpCaseSensitive = True, gpContextLines = 0\<rparr>"
    "bytes_of ''../../x'' " 1 5]
  show "ReadFile ?f (\<lambda>_. True) (bytes_of ''plugins'') (bytes_of ''a'') (bytes_of ''../../x'') 1 5 viewMgr =
    ReadFile (\<lambda>_. Inl []) (\<lambda>_. True) (bytes_of ''plugins'') (bytes_of ''a'') (bytes_of ''../../x'') 1 5 viewMgr"
    by simp
qed

text \<open>Two ways the paths of \<open>read_file\<close> go wrong: a path that leads back to the directory is taken for one below it, and its
  compressed sibling lies outside; and a file with a compressed sibling of its own in the archive cannot be read.\<close>

lemma sibling_outside:
  "actualPath (\<lambda>_. True) (rooted_path viewDir) (bytes_of ''../a'') = Inr (bytes_of ''/d/source/a.gz'') \<and>
   \<not> within viewDir (bytes_of ''/d/source/a.gz'')"
proof
  show "actualPath (\<lambda>_. True) (rooted_path viewDir) (bytes_of ''../a'') = Inr (bytes_of ''/d/source/a.gz'')" by code_simp
  show "\<not> within viewDir (bytes_of ''/d/source/a.gz'')"
  proof
    assume "within viewDir (bytes_of ''/d/source/a.gz'')"
    then obtain ds where "bytes_of ''/d/source/a.gz'' = rooted_path (viewDir @ ds)" by (auto simp: within_def)
    then show False by (cases ds) (simp_all add: rooted_path_def viewDir_def below_def bytes_of_def)
  qed
qed

lemma sibling_shadows:
  "actualPath (\<lambda>_. True) (rooted_path viewDir) (bytes_of ''x.js'') = Inr (rooted_path viewDir @ bytes_of ''/x.js.gz'') \<and>
   actualPath (\<lambda>p. p = rooted_path viewDir @ bytes_of ''/x.js'') (rooted_path viewDir) (bytes_of ''x.js'') =
     Inr (rooted_path viewDir @ bytes_of ''/x.js'')"
  by (intro conjI) code_simp+

text \<open>
  C20. A client that reads a file, whose lines are shorter than 1 MiB, page by page, from line 1 and then from the line
  each answer names, with pages of \<open>k\<close> lines (the number it asks for, brought between 1 and 500).  If the file has at
  most 499,999 + \<open>k\<close> lines, it comes to an end and gets every line: each exactly once up to \<open>firstPast k 499999\<close> lines,
  which is the first multiple of \<open>k\<close> above 499,999, so in particular for at most 500,000 lines, and if \<open>k\<close> divides 499,999;
  with more it gets some lines again, as the page at line 500,000 begins before the line it asked for.  If the file has more
  than 499,999 + \<open>k\<close> lines, it is sent back to the page at line 500,000 for ever.
\<close>

theorem read_file_pages:
  assumes "isValidRepo repo" "slug \<noteq> []" "path \<noteq> []" "slugDirOf repo slug m = Inr d" "actualPath stat d path = Inr p"
    "openSourceReader fs p = Inr (Inr b)" "\<forall>l \<in> set (segs b). length l < 1024 * 1024"
    "k = nat (clampInt mx 1 500)"
  shows "(length (linesOf b) \<le> 499999 + k \<longrightarrow>
      (\<exists>rs. (\<forall>rs'. follow (askLine fs stat repo slug path mx m) nextLine 1 rs' \<longleftrightarrow> rs' = rs) \<and>
        concat (map linesShown rs) = pagedItems k 499999 (linesOf b) \<and>
        (length (linesOf b) \<le> 499999 + 1 \<or> k dvd 499999 \<longrightarrow> concat (map linesShown rs) = linesOf b))) \<and>
    (499999 + k < length (linesOf b) \<longrightarrow> (\<forall>rs. \<not> follow (askLine fs stat repo slug path mx m) nextLine 1 rs))"
proof -
  have c: "askLine fs stat repo slug path mx m = pageAt repo slug path b mx" by (rule readFileTool_page) (use assms in auto)
  show ?thesis unfolding c assms(8) by (rule rd.follow_exact)
qed

definition viewFile :: fs where
  "viewFile p = Inr \<lparr>ofHead = [], ofRaw = Inr [0x61, 10, 0x62, 13, 10, 0x63], ofGzip = Inl []\<rparr>"

lemma viewFile_open: "openSourceReader viewFile p = Inr (Inr [0x61, 10, 0x62, 13, 10, 0x63])"
  by (simp add: openSourceReader_def viewFile_def)

theorem read_file_pages_witness:
  "\<exists>rs. follow (askLine viewFile (\<lambda>p. p = rooted_path viewDir @ bytes_of ''/x'') (bytes_of ''plugins'') (bytes_of ''a'')
      (bytes_of ''x'') 2 viewMgr) nextLine 1 rs \<and> concat (map linesShown rs) = [[0x61], [0x62], [0x63]]"
proof -
  have l: "linesOf [0x61, 10, 0x62, 13, 10, 0x63] = [[0x61], [0x62], [0x63]]" by (simp add: linesOf_def dropCR_def)
  have "actualPath (\<lambda>p. p = rooted_path viewDir @ bytes_of ''/x'') (rooted_path viewDir) (bytes_of ''x'') =
    Inr (rooted_path viewDir @ bytes_of ''/x'')" by code_simp
  moreover have "isValidRepo (bytes_of ''plugins'')" "bytes_of ''a'' \<noteq> []" "bytes_of ''x'' \<noteq> []"
    by (simp_all add: isValidRepo_def bytes_of_def)
  moreover have "\<forall>l \<in> set (segs [0x61, 10, 0x62, 13, 10, 0x63 :: byte]). length l < 1024 * 1024" by simp
  ultimately show ?thesis
    using read_file_pages [of "bytes_of ''plugins''" "bytes_of ''a''" "bytes_of ''x''" viewMgr "rooted_path viewDir"
      "\<lambda>p. p = rooted_path viewDir @ bytes_of ''/x''" "rooted_path viewDir @ bytes_of ''/x''" viewFile _ "nat (clampInt 2 1 500)" 2,
      OF _ _ _ viewDir_of _ viewFile_open _ refl]
    unfolding l by auto
qed

text \<open>
  C31. What \<open>grep_file\<close> reports: when the tree can be walked, it answers with the first 1,000 of the matching lines of the files
  whose name the pattern accepts and that can be read, in the order of the walk, each with its number and exactly
  the lines next to it, at most five on each side; its count is the number of the matches and no file is without one.
\<close>

theorem grep_file_reports:
  assumes "isValidRepo (gpRepo g)" "slugDirOf (gpRepo g) (gpSlug g) m = Inr d"
    "libMatch lib (if gpCaseSensitive g then gpQuery g else bytes_of ''(?i)'' @ gpQuery g) = Inr re"
    "\<forall>v \<in> set (walkRoot d (tree d)). readable glob d (gpFileMatch g) v"
  shows "\<exists>r. GrepFile lib glob fs tree g m = Inr r \<and>
    hitsOf r = take 1000 (concat (map (foundAt glob fs d (gpFileMatch g) re (nat (clampInt (gpContextLines g) 0 5))) (walkRoot d (tree d)))) \<and>
    grTotalMatches r = length (hitsOf r) \<and> (\<forall>f \<in> set (grFiles r). snd f \<noteq> [])"
proof -
  let ?c = "clampInt (gpContextLines g) 0 maxContext"
  let ?r = "\<lparr>grSlug = gpSlug g, grRepo = gpRepo g, grQuery = gpQuery g, grTotalMatches = 0, grFiles = []\<rparr>"
  have "0 \<le> ?c" "grepOk ?r" "hitsOf ?r = []" by (simp_all add: clampInt_def maxContext_def grepOk_def hitsOf_def)
  from grepWalk_spec [OF this(1) assms(4) this(2), of fs re] this(3) show ?thesis
    using assms(1-3) by (auto simp: GrepFile_def Let_def grepOk_def maxGrepMatches_def maxContext_def)
qed

theorem grep_file_reports_witness:
  "\<exists>r. GrepFile (sampleLib\<lparr>libMatch := \<lambda>_. Inr (\<lambda>l. l = [0x62])\<rparr>) (\<lambda>_ _. Inr True) viewFile
      (\<lambda>_. Inr (DDir (Inr [(bytes_of ''x'', DFile (Inr 6))])))
      \<lparr>gpRepo = bytes_of ''plugins'', gpSlug = bytes_of ''a'', gpQuery = [0x62], gpFileMatch = [], gpCaseSensitive = True,
        gpContextLines = 1\<rparr> viewMgr = Inr r \<and>
     hitsOf r = [(bytes_of ''x'', \<lparr>lmLine = 2, lmContent = [0x62], lmBefore = [[0x61]], lmAfter = [[0x63]]\<rparr>)]"
proof -
  let ?d = "rooted_path viewDir" and ?t = "\<lambda>_. Inr (DDir (Inr [(bytes_of ''x'', DFile (Inr 6))]))"
  let ?g = "\<lparr>gpRepo = bytes_of ''plugins'', gpSlug = bytes_of ''a'', gpQuery = [0x62], gpFileMatch = [], gpCaseSensitive = True,
    gpContextLines = 1\<rparr> :: grepParams"
  let ?lib = "sampleLib\<lparr>libMatch := \<lambda>_. Inr (\<lambda>l. l = [0x62 :: byte])\<rparr>"
  have w: "walkRoot ?d (?t ?d) = [AtDir ?d, AtFile (?d @ bytes_of ''/x'') (Inr 6)]" by code_simp
  have x: "shownPath ?d (?d @ bytes_of ''/x'') = bytes_of ''x''" by code_simp
  have f: "fileLines viewFile p = Inr [[0x61], [0x62], [0x63]]" for p
    by (simp add: fileLines_def viewFile_open scanAll_def linesOf_def dropCR_def)
  have r: "\<forall>v \<in> set (walkRoot ?d (?t ?d)). readable (\<lambda>_ _. Inr True) ?d (gpFileMatch ?g) v"
    by (auto simp: w readable_def nameMatches_def)
  have "\<exists>r. GrepFile ?lib (\<lambda>_ _. Inr True) viewFile ?t ?g viewMgr = Inr r \<and>
    hitsOf r = take 1000 (concat (map (foundAt (\<lambda>_ _. Inr True) viewFile ?d (gpFileMatch ?g) (\<lambda>l. l = [0x62])
      (nat (clampInt (gpContextLines ?g) 0 5))) (walkRoot ?d (?t ?d)))) \<and>
    grTotalMatches r = length (hitsOf r) \<and> (\<forall>f \<in> set (grFiles r). snd f \<noteq> [])"
    by (rule grep_file_reports [OF _ _ _ r]) (simp_all add: isValidRepo_def viewDir_of)
  moreover have "nat (clampInt (gpContextLines ?g) 0 5) = 1" by (simp add: clampInt_def)
  moreover have "[0..<3 :: nat] = [0, 1, 2]" by (simp add: upt_rec)
  ultimately show ?thesis unfolding w by (auto simp: foundAt_def nameMatches_def x f linesWith_def)
qed

end
