(* ===== verification/Search_Record_Correct.thy ===== *)
theory Search_Record_Correct
  imports Search_Record Source_View_Correct
begin

text \<open>
  Stored searches: what is written is valid UTF-8 and read back as it was up to that, a search that was given an identifier
  can be loaded by it, and its matches come page by page, every one once.
\<close>

section \<open>UTF-8\<close>

lemma contByte_in: "contByte (byteAt s i) \<Longrightarrow> i < length s"
  by (rule ccontr) (simp add: byteAt_def contByte_def)

lemma runeWidth_cases:
  obtains "runeWidth c d e f = 1"
  | "runeWidth c d e f = 2" "contByte d" "\<And>e' f'. runeWidth c d e' f' = 2"
  | "runeWidth c d e f = 3" "contByte d" "contByte e" "\<And>f'. runeWidth c d e f' = 3"
  | "runeWidth c d e f = 4" "contByte d" "contByte e" "contByte f"
proof -
  define B where "B x y \<longleftrightarrow> (if c = x then y else 0x80) \<le> d" for x y :: byte
  define T where "T x y \<longleftrightarrow> d \<le> (if c = x then y else 0xBF)" for x y :: byte
  have d: "contByte d" if "B x y" "T x' y'" "0x80 \<le> y" "y' \<le> 0xBF" for x y x' y'
    using that by (auto simp: B_def T_def contByte_def split: if_splits intro: order_trans)
  have w: "runeWidth c d e f = (if 0xC2 \<le> c \<and> c \<le> 0xDF \<and> contByte d then 2
      else if 0xE0 \<le> c \<and> c \<le> 0xEF \<and> B 0xE0 0xA0 \<and> T 0xED 0x9F \<and> contByte e then 3
      else if 0xF0 \<le> c \<and> c \<le> 0xF4 \<and> B 0xF0 0x90 \<and> T 0xF4 0x8F \<and> contByte e \<and> contByte f then 4 else 1)" for e f
    by (simp only: runeWidth_def B_def T_def)
  have c: "\<lbrakk>B 0xE0 0xA0; T 0xED 0x9F\<rbrakk> \<Longrightarrow> contByte d" "\<lbrakk>B 0xF0 0x90; T 0xF4 0x8F\<rbrakk> \<Longrightarrow> contByte d"
    by (erule (1) d; simp add: word_le_nat_alt)+
  define P Q R where "P \<longleftrightarrow> 0xC2 \<le> c \<and> c \<le> 0xDF \<and> contByte d" and "Q \<longleftrightarrow> 0xE0 \<le> c \<and> c \<le> 0xEF \<and> B 0xE0 0xA0 \<and> T 0xED 0x9F"
    and "R \<longleftrightarrow> 0xF0 \<le> c \<and> c \<le> 0xF4 \<and> B 0xF0 0x90 \<and> T 0xF4 0x8F"
  have v: "runeWidth c d e f = (if P then 2 else if Q \<and> contByte e then 3 else if R \<and> contByte e \<and> contByte f then 4 else 1)" for e f
    by (simp only: w P_def Q_def R_def conj_assoc)
  have "P \<Longrightarrow> contByte d" "Q \<Longrightarrow> contByte d" "R \<Longrightarrow> contByte d" using c by (auto simp: P_def Q_def R_def)
  then show thesis using that
    by (cases P; cases "Q \<and> contByte e"; cases "R \<and> contByte e \<and> contByte f") (simp_all add: v)
qed

lemma byteAt_take: "i < n \<Longrightarrow> n \<le> length s \<Longrightarrow> byteAt (take n s @ t) i = byteAt s i"
  by (simp add: byteAt_def nth_append)

lemma decodeWidth_le: "decodeWidth s \<le> length s"
proof (cases "s = []")
  case False
  show ?thesis
    by (rule runeWidth_cases [of "byteAt s 0" "byteAt s 1" "byteAt s 2" "byteAt s 3"])
      (use False contByte_in [of s 1] contByte_in [of s 2] contByte_in [of s 3] in \<open>auto simp: decodeWidth_def Suc_le_eq\<close>)
qed (simp add: decodeWidth_def)

lemma decodeWidth_take:
  assumes "s \<noteq> []" "decodeWidth s \<noteq> 1"
  shows "decodeWidth (take (decodeWidth s) s @ t) = decodeWidth s"
proof -
  let ?w = "decodeWidth s"
  have w: "?w = runeWidth (byteAt s 0) (byteAt s 1) (byteAt s 2) (byteAt s 3)" using assms(1) by (simp add: decodeWidth_def)
  have b: "\<And>i. i < ?w \<Longrightarrow> byteAt (take ?w s @ t) i = byteAt s i" using byteAt_take decodeWidth_le by blast
  have "0 < ?w" using decodeWidth_pos assms(1) by (cases s) auto
  then have ne: "take ?w s @ t \<noteq> []" using assms(1) by simp
  show ?thesis
    by (rule runeWidth_cases [of "byteAt s 0" "byteAt s 1" "byteAt s 2" "byteAt s 3"])
      (use assms(2) b w ne in \<open>auto simp: decodeWidth_def [of "take _ _ @ _"]\<close>)
qed

function isUtf8 :: "gostr \<Rightarrow> bool" where
  "isUtf8 [] = True"
| "isUtf8 (c # s) =
     (if c < 0x80 then isUtf8 s
      else decodeWidth (c # s) \<noteq> 1 \<and> isUtf8 (drop (decodeWidth (c # s)) (c # s)))"
  by pat_completeness auto
termination
  by (relation "measure length") (use decodeWidth_pos in \<open>auto simp: Suc_diff_le\<close>)

declare isUtf8.simps(2) [simp del] toValid.simps(2) [simp del]

lemma toValid_id: "isUtf8 s \<Longrightarrow> toValid bad s = s"
proof (induction s arbitrary: bad rule: isUtf8.induct)
  case (2 c s)
  then show ?case by (auto simp: isUtf8.simps(2) toValid.simps(2) Let_def split: if_splits)
qed simp

lemma isUtf8_append: "isUtf8 s \<Longrightarrow> isUtf8 t \<Longrightarrow> isUtf8 (s @ t)"
proof (induction s rule: isUtf8.induct)
  case (2 c s)
  show ?case
  proof (cases "c < 0x80")
    case True
    then show ?thesis using 2 by (simp add: isUtf8.simps(2))
  next
    case False
    let ?w = "decodeWidth (c # s)"
    have w: "?w \<noteq> 1" "isUtf8 (drop ?w (c # s))" using "2.prems" False by (simp_all add: isUtf8.simps(2))
    have l: "?w \<le> length (c # s)" by (rule decodeWidth_le)
    have "decodeWidth (take ?w (c # s) @ drop ?w (c # s) @ t) = ?w" using decodeWidth_take [of "c # s"] w(1) by simp
    moreover have "take ?w (c # s) @ drop ?w (c # s) @ t = c # s @ t"
      by (metis append_Cons append_assoc append_take_drop_id)
    ultimately have e: "decodeWidth (c # s @ t) = ?w" by metis
    have "drop ?w (c # s @ t) = drop ?w (c # s) @ t" using l by (metis append_Cons drop_append drop_0 diff_is_0_eq)
    then have "isUtf8 (drop ?w (c # s @ t))" using "2.IH"(2) [OF False w(2) "2.prems"(2)] by metis
    then show ?thesis using False w(1) e by (simp add: isUtf8.simps(2))
  qed
qed simp

lemma isUtf8_rune:
  assumes "\<not> c < 0x80" "decodeWidth (c # s) \<noteq> 1"
  shows "isUtf8 (take (decodeWidth (c # s)) (c # s))"
proof -
  let ?w = "decodeWidth (c # s)"
  obtain n where n: "?w = Suc n" using decodeWidth_pos [of c s] by (cases ?w) auto
  have "decodeWidth (c # take n s) = Suc n" using decodeWidth_take [of "c # s" "[]"] assms(2) n by simp
  then show ?thesis using assms n by (simp add: isUtf8.simps(2))
qed

lemma isUtf8_replacement: "isUtf8 replacement"
  by code_simp

lemma toValid_utf8: "isUtf8 (toValid bad s)"
proof (induction bad s rule: toValid.induct)
  case (2 bad c s)
  then show ?case
    by (auto simp: toValid.simps(2) [of bad] Let_def isUtf8.simps(2) [of c "toValid _ _"] isUtf8_append isUtf8_replacement isUtf8_rune)
qed simp

lemma validText_utf8 [simp]: "isUtf8 (validText s)"
  by (simp add: validText_def toValid_utf8)

lemma validText_id [simp]: "isUtf8 s \<Longrightarrow> validText s = s"
  by (simp add: validText_def toValid_id)

section \<open>Stored results\<close>

lemma sint_int32: "0 \<le> x \<Longrightarrow> sint (int32 x) = min x (2 ^ 31 - 1)"
  by (simp add: int32_def signed_of_int signed_take_bit_int_eq_self)

text \<open>A result as it is read back.\<close>

definition cleanMatch :: "match \<Rightarrow> match" where
  "cleanMatch m = \<lparr>mLine = validText (mLine m), mLineNumber = min (mLineNumber m) (2 ^ 31 - 1),
     mBefore = map validText (mBefore m), mAfter = map validText (mAfter m)\<rparr>"

definition cleanFile :: "fileMatch \<Rightarrow> fileMatch" where
  "cleanFile f = \<lparr>fmFilename = validText (fmFilename f), fmMatches = map cleanMatch (fmMatches f)\<rparr>"

definition cleanResult :: "(gostr \<Rightarrow> gostr) \<Rightarrow> mgResult \<Rightarrow> mgResult" where
  "cleanResult unesc r = \<lparr>mrSlug = validText (mrSlug r), mrName = unesc (validText (mrName r)), mrVersion = validText (mrVersion r),
     mrInstalls = mrInstalls r, mrDownloaded = mrDownloaded r, mrMatches = map cleanFile (mrMatches r),
     mrTotalMatches = min (mrTotalMatches r) (2 ^ 31 - 1)\<rparr>"

lemma nat_int32: "nat (sint (int32 (int n))) = min n (2 ^ 31 - 1)"
  by (subst sint_int32) (simp_all add: min_def)

lemma matchFromProto_to: "matchFromProto (matchToProto m) = cleanMatch m"
  by (simp add: matchFromProto_def matchToProto_def cleanMatch_def nat_int32)

lemma fileMatchFromProto_to: "fileMatchFromProto (fileMatchToProto f) = cleanFile f"
  by (simp add: fileMatchFromProto_def fileMatchToProto_def cleanFile_def matchFromProto_to)

lemma searchResultFromProto_to: "searchResultFromProto unesc (searchResultToProto r) = cleanResult unesc r"
  by (simp add: searchResultFromProto_def searchResultToProto_def cleanResult_def fileMatchFromProto_to nat_int32)

lemma SearchResponseFromProto_to:
  "mpResults (SearchResponseFromProto unesc (SearchResponseToProto p)) = map (cleanResult unesc) (mpResults p)"
  by (simp add: SearchResponseFromProto_def SearchResponseToProto_def searchResultFromProto_to)

text \<open>Texts that are read back as they were.\<close>

definition matchOk :: "match \<Rightarrow> bool" where
  "matchOk m \<longleftrightarrow> isUtf8 (mLine m) \<and> mLineNumber m < 2 ^ 31 \<and> (\<forall>l \<in> set (mBefore m) \<union> set (mAfter m). isUtf8 l)"

definition resultOk :: "(gostr \<Rightarrow> gostr) \<Rightarrow> mgResult \<Rightarrow> bool" where
  "resultOk unesc r \<longleftrightarrow> isUtf8 (mrSlug r) \<and> isUtf8 (mrName r) \<and> unesc (mrName r) = mrName r \<and> isUtf8 (mrVersion r) \<and>
     mrTotalMatches r < 2 ^ 31 \<and> (\<forall>f \<in> set (mrMatches r). isUtf8 (fmFilename f) \<and> (\<forall>m \<in> set (fmMatches f). matchOk m))"

lemma map_id_on: "\<forall>x \<in> set xs. f x = x \<Longrightarrow> map f xs = xs"
  by (simp add: map_idI)

lemma cleanMatch_id: "matchOk m \<Longrightarrow> cleanMatch m = m"
  by (cases m) (simp add: cleanMatch_def matchOk_def map_id_on)

lemma cleanFile_id: "isUtf8 (fmFilename f) \<Longrightarrow> \<forall>m \<in> set (fmMatches f). matchOk m \<Longrightarrow> cleanFile f = f"
  by (cases f) (simp add: cleanFile_def cleanMatch_id map_id_on)

lemma cleanResult_id: "resultOk unesc r \<Longrightarrow> cleanResult unesc r = r"
  by (cases r) (simp add: cleanResult_def resultOk_def cleanFile_id map_id_on)

lemma convert_results: "mpResults p = mpResults q \<Longrightarrow> convertManagerResponse p = convertManagerResponse q"
  by (simp add: convertManagerResponse_def)

text \<open>The answer that is loaded for results that were stored.\<close>

definition storedAnswer :: "(gostr \<Rightarrow> gostr) \<Rightarrow> mgResponse \<Rightarrow> searchAnswer" where
  "storedAnswer unesc p = convertManagerResponse (p\<lparr>mpResults := map (cleanResult unesc) (mpResults p)\<rparr>)"

lemma storedAnswer_same: "\<forall>r \<in> set (mpResults p). resultOk unesc r \<Longrightarrow> storedAnswer unesc p = convertManagerResponse p"
  unfolding storedAnswer_def by (rule convert_results) (simp add: cleanResult_id map_id_on)

lemma toolSearch_stored:
  assumes "toolSearch lib slot1 answer c params st = (Inr (sid, resp), st1)" "sid \<noteq> []" "parse sid = Some sid"
  shows "\<exists>results. answer = Inr results \<and> resp = convertManagerResponse results \<and>
    LoadSearch parse unesc st1 sid = Inr (storedAnswer unesc results)"
proof -
  obtain results where r: "answer = Inr results" "resp = convertManagerResponse results"
    "persistSearch c params results resp st = (Some sid, st1)"
    using assms(1,2) by (auto simp: toolSearch_def Let_def split: option.splits if_splits sum.splits prod.splits)
  then obtain row where "rsRows st1 sid = Some row" "rwStatus row = StatusCompleted"
    "rsObjects st1 sid = Some (SearchResponseToProto results)"
    by (auto simp: persistSearch_def Let_def split: option.splits if_splits)
  then show ?thesis using r(1,2) assms(3)
    by (auto simp: LoadSearch_def storedAnswer_def intro!: convert_results simp: SearchResponseFromProto_to)
qed

section \<open>Pages of matches\<close>

definition pageMatches :: "((gostr \<times> gostr \<times> matchDetail) list \<times> int \<times> int) option \<Rightarrow> (gostr \<times> gostr \<times> matchDetail) list" where
  "pageMatches p = (case p of None \<Rightarrow> [] | Some (ms, _) \<Rightarrow> ms)"

definition askMatches :: "searchAnswer \<Rightarrow> int \<Rightarrow> int \<Rightarrow> ((gostr \<times> gostr \<times> matchDetail) list \<times> int \<times> int) option" where
  "askMatches r limit offset = matchPage r (clampInt offset 0 100000) (clampInt limit 1 100)"

lemma matchPage_spec:
  "pageMatches (matchPage r (int a) (int k)) = take k (drop a (flatMatches r))"
  "0 < k \<Longrightarrow> moreMatches (matchPage r (int a) (int k)) = (if a + k < length (flatMatches r) then Some (int (a + k)) else None)"
proof -
  let ?n = "length (flatMatches r)"
  have "nat (min (int a + int k) (int ?n)) = min (a + k) ?n" by simp
  then show "pageMatches (matchPage r (int a) (int k)) = take k (drop a (flatMatches r))"
    by (auto simp: matchPage_def Let_def pageMatches_def slice_def min_def)
  show "moreMatches (matchPage r (int a) (int k)) = (if a + k < ?n then Some (int (a + k)) else None)" if "0 < k"
    using that by (auto simp: matchPage_def Let_def moreMatches_def min_def)
qed

interpretation ms: paging "askMatches r limit" moreMatches pageMatches "flatMatches r" "nat (clampInt limit 1 100)" 100000 0
  for r limit
proof
  let ?k = "nat (clampInt limit 1 100)"
  show k: "0 < ?k" by (simp add: clampInt_def)
  fix s :: int
  assume s: "0 \<le> s"
  have "clampInt s 0 100000 = int (min (nat (s - 0)) 100000)" "clampInt limit 1 100 = int ?k"
    using s by (auto simp: clampInt_def)
  then have a: "askMatches r limit s = matchPage r (int (min (nat (s - 0)) 100000)) (int ?k)" by (simp only: askMatches_def)
  show "pageMatches (askMatches r limit s) = take ?k (drop (min (nat (s - 0)) 100000) (flatMatches r))"
    unfolding a by (rule matchPage_spec)
  show "moreMatches (askMatches r limit s) = (if min (nat (s - 0)) 100000 + ?k < length (flatMatches r)
    then Some (0 + int (min (nat (s - 0)) 100000 + ?k)) else None)"
    unfolding a by (simp only: matchPage_spec(2) [OF k] add_0)
qed

section \<open>Texts and addresses\<close>

lemma decInt_no_comma: "0x2C \<notin> set (decInt n)"
  using decimal_digits [of "nat n"] decimal_digits [of "nat (- n)"] by (auto simp: decInt_def word_le_nat_alt)

lemma drop_commas:
  fixes s :: gostr
  assumes "0x2C \<notin> set s"
  shows "filter (\<lambda>c. c \<noteq> 0x2C) (concat (map (\<lambda>i. if P i then [0x2C, s ! i] else [s ! i]) [0..<length s])) = s"
proof -
  have h: "i < length s \<Longrightarrow> s ! i \<noteq> 0x2C" for i using assms nth_mem by metis
  have "filter (\<lambda>c. c \<noteq> 0x2C) (concat (map (\<lambda>i. if P i then [0x2C, s ! i] else [s ! i]) js)) = map ((!) s) js"
    if "\<forall>i \<in> set js. i < length s" for js
    using that by (induction js) (simp_all add: h)
  from this [of "[0..<length s]"] show ?thesis by (simp add: map_nth)
qed

text \<open>A formatted number is the number with commas.\<close>

lemma formatNumber_digits: "filter (\<lambda>c. c \<noteq> 0x2C) (formatNumber n) = decInt n"
proof -
  have "filter (\<lambda>c. c \<noteq> 0x2C) (decInt n) = decInt n" using decInt_no_comma [of n] by (auto simp: filter_id_conv)
  then show ?thesis using drop_commas [OF decInt_no_comma] by (simp add: formatNumber_def Let_def)
qed

lemma cutAfter_slash: "47 \<notin> set a \<Longrightarrow> cutAfter [47] (a @ 47 # b) = Some b"
  by (induction a) auto

text \<open>The address of an extension leads back to it.\<close>

lemma parse_address:
  assumes "isValidRepo repo" "slug \<noteq> []" "47 \<notin> set slug"
  shows "parseExtensionURI (bytes_of ''veloria://'' @ repo @ [47] @ slug @ bytes_of ''/info'') = Some (repo, slug)"
proof -
  have "47 \<notin> set repo" using assms(1) by (auto simp: isValidRepo_def bytes_of_def)
  then have "cutAfter [47] (repo @ 47 # slug @ 47 # bytes_of ''info'') = Some (slug @ 47 # bytes_of ''info'')"
    "cutAfter [47] (slug @ 47 # bytes_of ''info'') = Some (bytes_of ''info'')"
    using cutAfter_slash assms(3) by blast+
  moreover have "bytes_of ''/info'' = 47 # bytes_of ''info''" by (simp add: bytes_of_def)
  ultimately show ?thesis using assms
    by (simp add: parseExtensionURI_def cutPrefix_def splitN3_def Let_def)
qed

section \<open>Properties\<close>

text \<open>The row of a search is found under any spelling of its identifier, its results only under the one they were stored with.\<close>

lemma other_spelling:
  assumes "toolSearch lib free1 answer c params \<lparr>rsRows = Map.empty, rsObjects = Map.empty\<rparr> = (Inr (sid, resp), st1)" "sid \<noteq> []"
    "parse spelling = Some sid" "spelling \<noteq> sid"
  shows "LoadSearch parse unesc st1 spelling = Inl TNoResults"
proof -
  obtain results where "persistSearch c params results resp \<lparr>rsRows = Map.empty, rsObjects = Map.empty\<rparr> = (Some sid, st1)"
    using assms(1,2) by (auto simp: toolSearch_def Let_def split: option.splits if_splits sum.splits prod.splits)
  then obtain row where "rsRows st1 sid = Some row" "rwStatus row = StatusCompleted" "rsObjects st1 = [sid \<mapsto> SearchResponseToProto results]"
    by (auto simp: persistSearch_def Let_def split: option.splits if_splits)
  then show ?thesis using assms(3,4) by (simp add: LoadSearch_def)
qed

text \<open>
  C19. A search that got an identifier can be read to its end by it.  The answer that is loaded is the stored one: the one the
  search gave if its texts are UTF-8 and its names hold no entities, and otherwise that answer with the bad bytes replaced and
  the entities resolved.  A call with the identifier and an offset shows the page at the offset.  A client that starts at offset
  0 and follows the offsets the pages name, with pages of \<open>k\<close> matches (the limit, brought between 1 and 100): if there are at
  most 100,000 + \<open>k\<close> matches, it comes to an end and gets every match: each exactly once up to \<open>firstPast k 100000\<close> matches,
  which is the first multiple of \<open>k\<close> above 100,000, so in particular for at most 100,001 matches, and if \<open>k\<close> divides 100,000;
  with more it gets some of them again.  If there are more than 100,000 + \<open>k\<close>, it is sent back to the page at offset 100,000
  for ever.
\<close>

theorem search_pages_complete:
  assumes "toolSearch lib free1 answer c params st = (Inr (sid, resp), st1)" "sid \<noteq> []" "parse sid = Some sid"
    "k = nat (clampInt limit 1 100)"
  shows "\<exists>results full. answer = Inr results \<and> full = storedAnswer unesc results \<and>
    ((\<forall>r \<in> set (mpResults results). resultOk unesc r) \<longrightarrow> full = resp) \<and>
    (\<forall>offset. fst (handleSearchCode lib quote parse unesc free2 answer2 c2 \<lparr>slSearchID = sid, slQuery = [], slRepo = None,
        slFileMatch = [], slExclude = [], slCaseSensitive = None, slContextLines = None, slLimit = Some limit, slOffset = Some offset\<rparr> st1) =
      Inr (FormatSearchMatches full (clampInt offset 0 100000) (clampInt limit 1 100))) \<and>
    (length (flatMatches full) \<le> 100000 + k \<longrightarrow>
      (\<exists>ps. (\<forall>ps'. follow (askMatches full limit) moreMatches 0 ps' \<longleftrightarrow> ps' = ps) \<and>
        concat (map pageMatches ps) = pagedItems k 100000 (flatMatches full) \<and>
        (length (flatMatches full) \<le> 100000 + 1 \<or> k dvd 100000 \<longrightarrow> concat (map pageMatches ps) = flatMatches full))) \<and>
    (100000 + k < length (flatMatches full) \<longrightarrow> (\<forall>ps. \<not> follow (askMatches full limit) moreMatches 0 ps))"
proof -
  obtain results where r: "answer = Inr results" "resp = convertManagerResponse results"
    and load: "LoadSearch parse unesc st1 sid = Inr (storedAnswer unesc results)"
    using toolSearch_stored [where unesc = unesc and parse = parse, OF assms(1-3)] by blast
  let ?full = "storedAnswer unesc results"
  have "(\<forall>r \<in> set (mpResults results). resultOk unesc r) \<longrightarrow> ?full = resp" using storedAnswer_same r(2) by blast
  moreover have "fst (handleSearchCode lib quote parse unesc free2 answer2 c2 \<lparr>slSearchID = sid, slQuery = [], slRepo = None,
        slFileMatch = [], slExclude = [], slCaseSensitive = None, slContextLines = None, slLimit = Some limit, slOffset = Some offset\<rparr> st1) =
      Inr (FormatSearchMatches ?full (clampInt offset 0 100000) (clampInt limit 1 100))" for offset
    using load assms(2) by (simp add: handleSearchCode_def Let_def maxLimit_def orElse_def)
  ultimately show ?thesis using r(1) ms.follow_exact [of ?full limit] unfolding assms(4) by blast
qed

text \<open>A search with two matches in one file.\<close>

definition twoMatches :: mgResponse where
  "twoMatches = \<lparr>mpResults = [\<lparr>mrSlug = bytes_of ''a'', mrName = bytes_of ''A'', mrVersion = bytes_of ''1'', mrInstalls = 7, mrDownloaded = 9,
     mrMatches = [\<lparr>fmFilename = bytes_of ''a/x.php'', fmMatches =
       [\<lparr>mLine = bytes_of ''abc'', mLineNumber = 3, mBefore = [], mAfter = []\<rparr>,
        \<lparr>mLine = bytes_of ''abcd'', mLineNumber = 8, mBefore = [], mAfter = []\<rparr>]\<rparr>],
     mrTotalMatches = 2\<rparr>], mpTotal = 2\<rparr>"

definition abcParams :: toolParams where
  "abcParams = \<lparr>tpQuery = bytes_of ''abc'', tpRepo = bytes_of ''plugins'', tpFileMatch = [], tpExclude = [], tpCaseSensitive = True,
     tpContextLines = 0, tpLimit = 25, tpOffset = 0\<rparr>"

definition allCalls :: storeCalls where
  "allCalls = \<lparr>scAvailable = True, scCreated = Some [0x31], scUploaded = Some 10, scDeleted = True, scUpdated = True\<rparr>"

lemma twoMatches_ok: "\<forall>r \<in> set (mpResults twoMatches). resultOk (\<lambda>s. s) r"
proof -
  have u: "isUtf8 (bytes_of ''a'')" "isUtf8 (bytes_of ''A'')" "isUtf8 (bytes_of ''1'')" "isUtf8 (bytes_of ''a/x.php'')"
    "isUtf8 (bytes_of ''abc'')" "isUtf8 (bytes_of ''abcd'')" by code_simp+
  show ?thesis by (simp add: twoMatches_def resultOk_def matchOk_def u)
qed

theorem search_pages_complete_witness:
  "\<exists>resp st1 ps. toolSearch sampleLib True (Inr twoMatches) allCalls abcParams \<lparr>rsRows = Map.empty, rsObjects = Map.empty\<rparr> =
       (Inr ([0x31], resp), st1) \<and>
     LoadSearch Some (\<lambda>s. s) st1 [0x31] = Inr resp \<and>
     follow (askMatches resp 1) moreMatches 0 ps \<and> map mdLine (map (snd \<circ> snd) (concat (map pageMatches ps))) = [3, 8]"
proof -
  let ?st = "\<lparr>rsRows = Map.empty, rsObjects = Map.empty\<rparr>" and ?resp = "convertManagerResponse twoMatches"
  have v: "ValidatePattern sampleLib (tpQuery abcParams) = None" by code_simp
  then obtain st1 where s: "toolSearch sampleLib True (Inr twoMatches) allCalls abcParams ?st = (Inr ([0x31], ?resp), st1)"
    by (simp add: toolSearch_def persistSearch_def allCalls_def Let_def)
  from search_pages_complete [where parse = Some and limit = 1 and unesc = "\<lambda>s. s", OF s _ _ refl] twoMatches_ok
  have "length (flatMatches ?resp) \<le> 100000 + 1 \<Longrightarrow> \<exists>ps. follow (askMatches ?resp 1) moreMatches 0 ps \<and>
      concat (map pageMatches ps) = flatMatches ?resp" by (fastforce simp: clampInt_def)
  moreover have f: "map mdLine (map (snd \<circ> snd) (flatMatches ?resp)) = [3, 8]"
    by (simp add: flatMatches_def convertManagerResponse_def convertResult_def twoMatches_def)
  moreover have "length (flatMatches ?resp) = 2" using arg_cong [OF f, of length] by simp
  moreover have "LoadSearch Some (\<lambda>s. s) st1 [0x31] = Inr ?resp"
    using toolSearch_stored [OF s, of Some "\<lambda>s. s"] storedAnswer_same [OF twoMatches_ok] by auto
  ultimately show ?thesis using s by (intro exI [of _ ?resp] exI [of _ st1]) auto
qed

end
