(* ===== verification/Spec2Isabelle.thy ===== *)
theory Spec2Isabelle
  imports Sparse_Set Path Post_Writer Index_Search Grep_File Byte_Prog Regex_Query Code_Search Store_Updates Manager_Serve Index_Command Search_Record_Correct
begin

text \<open>
  A verification development for veloria, a code search engine for the plugins, themes and releases of WordPress.

  \<^bold>\<open>The program.\<close>  The server keeps, for each kind of extension, a store of extensions
  (\<open>internal/repo\<close>).  An updater (\<open>internal/manager\<close>) asks the sources for changes and turns them into tasks; a
  task runs the command \<open>veloria index\<close> as a process (\<open>cmd/veloria/index.go\<close>), which downloads an archive, unpacks it
  (\<open>internal/index/extract.go\<close>), builds a trigram index of its text files with the writer of
  \<open>internal/codesearch/index\<close> and swaps sources and index into place.  A search compiles an expression to a
  trigram query and to a byte automaton (\<open>internal/codesearch/regexp\<close>), runs over the extensions of a store with a
  bounded number of workers, asks each index for the files that can match (\<open>internal/codesearch/index/read.go\<close>), searches
  them line by line (\<open>internal/index/index.go\<close>), and is answered by the manager from its cache or with the results by
  installs.

  \<^bold>\<open>Theories.\<close>  Every definition that models code has the name of the function, method or type it translates, with a
  suffix where HOL has that name, and stands in the order of the source.  State is a record that is passed; \<open>res\<close> is a sum
  of a fault, by which a call ends without a value, and the value; an error of Go is a value; \<open>option\<close> around a result is
  a call that may not return.

  \<^item> \<open>Prelude\<close>: Go's values and faults, 64-bit wrap-around, sequencing.  \<open>Heap_Order\<close>, \<open>Exchange_Sort\<close>,
    \<open>Bit_Lists\<close>: heaps, the sort the repository writes by hand, and bits, for all that use them.
  \<^item> Index format, \<open>internal/codesearch/index\<close> and \<open>sparse\<close>: \<open>Sparse_Set\<close> (\<open>set.go\<close>), \<open>Buffer_IO\<close>, \<open>Post_Entry\<close>,
    \<open>Post_Writer\<close>, \<open>Post_Heap\<close>, \<open>Post_Merge\<close>, \<open>Index_Writer\<close> (\<open>write.go\<close>), \<open>Delta\<close> (\<open>delta.go\<close>), \<open>Path\<close>
    (\<open>path.go\<close>), \<open>Index_Read\<close> (\<open>read.go\<close>).  Their lemmas are round trips and orders; \<open>Index_Build\<close>, \<open>Index_Add\<close> and
    \<open>Index_File\<close> show that the writer refines the function \<open>index1_file\<close> from the accepted files to the bytes of
    the file, \<open>Index_Lookup\<close> that lookups in it are exact, and \<open>Index_Search\<close> joins the two.
  \<^item> Expressions: \<open>Query\<close> (the algebra of trigram queries), \<open>Regex_Info\<close> (string sets as slices of shared arrays, and the walk
    of an expression; \<open>regexp.go\<close>), \<open>Regex_Sets\<close>, \<open>Regex_Sound\<close>, \<open>Regex_Query\<close> (every string of the language
    satisfies the query, on aliasing the code allows), \<open>Byte_Prog\<close> (\<open>utf.go\<close>, \<open>copy.go\<close>).
  \<^item> Matching: \<open>Matcher\<close> (\<open>match.go\<close>: the automaton built while it runs), \<open>Matcher_Queue\<close>, \<open>Matcher_State\<close>,
    \<open>Matcher_Correct\<close> (its cache), \<open>Matcher_Lines\<close> (it finds the first line the program matches), \<open>Grep_File\<close> (the matches in
    a file with their context; \<open>index.go\<close>), \<open>Code_Search\<close> (one search of one index).
  \<^item> The repository: \<open>Ext_Store\<close>, \<open>Index_Task\<close> (\<open>repository.go\<close>, \<open>extension.go\<close>), \<open>Store_Correct\<close>,
    \<open>Store_Updates\<close>, \<open>Store_Search\<close> (the search of a store as a step relation of the loop and its workers), \<open>Source_Store\<close>,
    \<open>Source_Correct\<close> (\<open>plugins.go\<close>, \<open>cores.go\<close>), \<open>Manager\<close>, \<open>Manager_Correct\<close>, \<open>Manager_Serve\<close> (\<open>manager.go\<close>).
  \<^item> The index command: \<open>File_Path\<close> (Go's lexical paths), \<open>Extract\<close>, \<open>Extract_Correct\<close>, \<open>Dir_Index\<close>
    (\<open>extract.go\<close>), \<open>Download\<close>, \<open>Index_Command\<close> (\<open>cmd/veloria/index.go\<close>).
  \<^item> The tools of \<open>internal/mcp\<close>: \<open>Source_View\<close>, \<open>Source_View_Correct\<close> (listing, reading and searching the sources of one
    extension, with \<open>SafeJoin\<close> of \<open>web/helpers.go\<close>), \<open>Search_Record\<close>, \<open>Search_Record_Correct\<close> (searches that are stored
    and loaded, with \<open>search/model/codec.go\<close>), \<open>Paging\<close> (clients that follow the hints of an answer).

  \<^bold>\<open>Interfaces.\<close>  What one part relies on in another is a locale, interpreted on the code's definitions where they are
  made: \<open>u32_set\<close> (the sparse set, for the writer and the matcher), \<open>byte_sink\<close> (the output buffer), \<open>delta_stream\<close>
  (both versions of the delta coder), \<open>entry_source\<close> (what the merge reads), \<open>posting_index\<close> (an index, for queries),
  \<open>heap_sift\<close> (both heaps), \<open>exchange_order\<close> (both uses of the sort), \<open>paging\<close> (the pages of a
  file and of a search).

  \<^bold>\<open>Properties.\<close>  Their statements are in the text before each.  The theorem of this theory composes the parts, for an
  expression without alternation and within the limits it names: a file that was accepted into an index and has a matching
  line is in the response of a search of it.

  \<^bold>\<open>Bounds and loops.\<close>  Most loops are structural recursion.  The loop that merges chunks, the cache of the automaton, the
  walk over the pages of a feed and the analysis of an expression may run long or for ever on what they are given and are
  partial functions whose \<open>None\<close> is not returning; that they return is proved for the merge (the chunks get shorter), the
  cache (there are finitely many states) and the analysis (the tree gets smaller), and is not claimed for the feed.  The
  size of an index is assumed below 4 GB, the limit of its format, which the writer checks.  Words have the width of the code;
  \<open>int\<close> values that a length of a slice bounds are unbounded.  No fuel is used.

  \<^bold>\<open>Arguments.\<close>  What is not in the repository is an argument of the definitions that use it: the parser of expressions, the
  compiler of their programs and the tables of Unicode (\<open>golib\<close>), the growth of slices (\<open>grow\<close>), the database
  (\<open>dbops\<close>), the file system, the network, the clock and the schedule.  Hypotheses on them are named: \<open>lib_ok\<close>,
  \<open>fre_ok\<close>, \<open>grow_ok\<close>, \<open>prog_ok\<close>, \<open>rprog_ok\<close> (which allows the rune instruction without runes that an empty
  class is compiled to).

  \<^bold>\<open>Not modelled.\<close>  The pages and the API over HTTP (\<open>web\<close>, \<open>router\<close>, \<open>api\<close>, \<open>search\<close>, \<open>plugin\<close>,
  \<open>theme\<close>, \<open>core\<close>, \<open>admin\<close>, \<open>ui\<close>), the tools that only query the database, sessions and OAuth (\<open>auth\<close>), object storage, images, telemetry, configuration and
  the other commands are glue around libraries and templates; \<open>types.pb.go\<close> is generated.  Of the index package,
  \<open>Merge\<close>, \<open>Check\<close> and the mapping of files into memory are left out: the server neither merges nor checks an index, and a
  mapped file is its bytes.  Contexts, logs and metrics are left out everywhere; a lock is left out where one goroutine
  holds it, and appears as the atomicity of a step where several do.
\<close>

section \<open>From files to results\<close>

lemma sum_by_index:
  fixes g :: "'a \<Rightarrow> nat"
  assumes "sorted_wrt (<) l" "set l \<subseteq> int ` {..<length xs}"
  shows "sum_list (map (\<lambda>i. g (xs ! nat i)) l) \<le> sum_list (map g xs)"
proof -
  have "distinct l" using assms(1) by (simp add: strict_sorted_iff)
  then have "sum_list (map (\<lambda>i. g (xs ! nat i)) l) = (\<Sum>i \<in> set l. g (xs ! nat i))"
    by (simp add: sum_list_distinct_conv_sum_set)
  also have "\<dots> \<le> (\<Sum>i \<in> int ` {..<length xs}. g (xs ! nat i))" by (rule sum_mono2) (use assms(2) in auto)
  also have "\<dots> = (\<Sum>i < length xs. g (xs ! i))" by (subst sum.reindex) (auto simp: inj_on_def)
  also have "\<dots> = sum_list (map g xs)" by (simp add: sum_list_sum_nth atLeast0LessThan)
  finally show ?thesis .
qed

lemma matchCount_found:
  "matchCount (map (found_match fs cs p) (foundIn fs cs p names)) \<le> sum_list (map (\<lambda>n. length (hitsIn fs cs p n)) names)"
  by (induction names) (auto simp: foundIn_def found_match_def)

text \<open>
  C1. From files to results, for an expression without alternation, an index of version 1 below 4 GB whose query
  has trigrams of three bytes, and a search without offset and limit whose matches stay below the maximum: a file that was
  accepted into the index and in whose indexed contents a string of the expression occurs is in the response, with all its
  matches, if a line of it matches when it is searched.  This composes the writer, the opened file, the query of the
  expression, its answer and the search of the source files.  With alternation the query can lose a file
  (\<open>alternation_loses_match\<close>).
\<close>

theorem search_finds_indexed_match:
  assumes "\<forall>(name, f, zv) \<in> set adds. [] \<notin> set (fst f)"
    and "docs = concat (map accepted adds)" "length (index1_file roots docs) < 2 ^ 32"
    and lib: "lib_ok lib" "progOf lib (csPattern cs) p" "fre_ok (csContentRe cs)"
    and re: "tree_ok re" "RegexpQuery (libFold lib) (libGrow lib) re = Some (Inr (csQuery cs))" "qlookup_ok (csQuery cs)"
    and lim: "csOffset cs = 0" "csLimit cs = 0"
      "int (sum_list (map (\<lambda>d. length (hitsIn fs cs p (fst d))) docs)) < csMaxResults cs"
  shows "\<exists>ix0 ix1 ix2 ix r. Create 1 g tmp = Inr ix0 \<and> addAll 1 adds (AddRoots roots ix0) = Inr ix1 \<and>
    Flush 1 ix1 = Some (Inr ix2) \<and> openIndex (written_file ix2) = Inr ix \<and>
    SearchCompiled lib fs cs (Some ix) = Some (Inr (Inr (Some r))) \<and>
    (\<forall>d \<in> set docs. (\<exists>u w v. w \<in> rlang (libFold lib) re \<and> snd d = u @ w @ v) \<and> hitsIn fs cs p (fst d) \<noteq> [] \<longrightarrow>
       \<lparr>fmFilename = relName (fst d), fmMatches = hitsIn fs cs p (fst d)\<rparr> \<in> set (srMatches r))"
proof -
  obtain ix0 ix1 ix2 ix l where w: "Create 1 g tmp = Inr ix0" "addAll 1 adds (AddRoots roots ix0) = Inr ix1"
    "Flush 1 ix1 = Some (Inr ix2)" "openIndex (written_file ix2) = Inr ix"
    and l: "postingQuery ix (csQuery cs) None = Inr l" "sorted_wrt (<) (olist l)"
    "set (olist l) = int ` {i. i < length docs \<and> qsat (\<lambda>t. t \<in> set (trigrams_of (snd (docs ! i)))) (csQuery cs)}"
    "\<forall>i < length docs. ixName (int i) ix = Inr (fst (docs ! i))"
    using search_ok [OF assms(1-3) re(3), of g tmp] by blast
  let ?names = "map (\<lambda>i. fst (docs ! nat i)) (olist l)"
  have names: "list_all2 (\<lambda>fid nm. ixName fid ix = Inr nm) (olist l) ?names"
    using l(3,4) by (auto simp: list_all2_conv_all_nth) (metis (no_types, lifting) imageE mem_Collect_eq nat_int nth_mem)
  have sub: "set (olist l) \<subseteq> int ` {..<length docs}" using l(3) by auto
  have "matchCount (map (found_match fs cs p) (foundIn fs cs p ?names)) \<le> sum_list (map (\<lambda>d. length (hitsIn fs cs p (fst d))) docs)"
    using matchCount_found [of fs cs p ?names] sum_by_index [OF l(2) sub, of "\<lambda>d. length (hitsIn fs cs p (fst d))"]
    by (simp add: comp_def)
  then have small: "int (matchCount (map (found_match fs cs p) (page (csOffset cs) (csLimit cs) (foundIn fs cs p ?names)))) < csMaxResults cs"
    using lim by (simp add: page_def)
  have "PostingQuery (csQuery cs) ix = Inr l" using l(1) by (simp add: PostingQuery_def)
  note s = SearchCompiled_page [OF lib this names small]
  have "found_match fs cs p (fst d) \<in> set (map (found_match fs cs p) (foundIn fs cs p ?names))"
    if d: "d \<in> set docs" "w \<in> rlang (libFold lib) re" "snd d = u @ w @ v" "hitsIn fs cs p (fst d) \<noteq> []" for d u w v
  proof -
    obtain i where i: "i < length docs" "d = docs ! i" using d(1) by (auto simp: in_set_conv_nth)
    have "qsat (\<lambda>t. t \<in> set (trigrams_of (u @ w @ v))) (csQuery cs)"
      using RegexpQuery_ok [OF _ _ re(1), of "libGrow lib" "libFold lib"] lib(1) re(2) d(2) by (auto simp: lib_ok_def)
    then have "int i \<in> set (olist l)" using i d(3) by (auto simp: l(3))
    then have "fst d \<in> set ?names" using i(2) by force
    then show ?thesis using d(4) by (simp add: foundIn_def)
  qed
  with s w lim show ?thesis
    by (intro exI [of _ ix0] exI [of _ ix1] exI [of _ ix2] exI [of _ ix] exI) (fastforce simp: page_def found_match_def)
qed

theorem search_finds_indexed_match_witness:
  "\<exists>ix0 ix1 ix2 ix r. Create 1 id [7] = Inr ix0 \<and> addAll 1 sample_adds (AddRoots [] ix0) = Inr ix1 \<and>
    Flush 1 ix1 = Some (Inr ix2) \<and> openIndex (written_file ix2) = Inr ix \<and>
    SearchCompiled sampleLib sampleFs sampleSearch (Some ix) = Some (Inr (Inr (Some r)))"
proof -
  have h: "\<forall>(name, f, zv) \<in> set sample_adds. [] \<notin> set (fst f)" by (simp add: sample_adds_def bytes_of_def)
  have f: "fre_ok (csContentRe sampleSearch)" by (simp add: sampleSearch_def fre_ok_def)
  have t: "tree_ok (lit ''abc'')" by (simp add: lit_def)
  have "RegexpQuery (\<lambda>c. c) doubling (lit ''abc'') = Some (Inr (Query QAnd [bytes_of ''abc''] []))" by code_simp
  then have q: "RegexpQuery (libFold sampleLib) (libGrow sampleLib) (lit ''abc'') = Some (Inr (csQuery sampleSearch))"
    "qlookup_ok (csQuery sampleSearch)" by (simp_all add: sampleLib_def sampleSearch_def bytes_of_def)
  have c: "csOffset sampleSearch = 0" "csLimit sampleSearch = 0"
    "int (sum_list (map (\<lambda>d. length (hitsIn sampleFs sampleSearch abcBytes (fst d))) [(bytes_of ''a'', bytes_of ''abc'')]))
       < csMaxResults sampleSearch"
    by (simp_all add: hitsIn_def content_def wantsName_def sampleSearch_def sampleFs_def readSourceFileBuf_def bytes_of_def)
  show ?thesis
    using search_finds_indexed_match [OF h sample_accepted [symmetric] sample_small sampleLib_ok f t q c, of id "[7]"] by blast
qed

end
